(* ===== verification/Prelude.thy ===== *)
theory Prelude
  imports Main "HOL-Library.Word"
begin

unbundle bit_operations_syntax

text \<open>
  Shared vocabulary of the development: machine integer types, the result type of kernel
  functions, C arithmetic on \<open>int\<close>, byte memory with 64-bit loads and stores, and the
  lemmas on these that every component uses.
\<close>

section \<open>Types\<close>

type_synonym u8 = "8 word"
type_synonym u16 = "16 word"
type_synonym u32 = "32 word"
type_synonym u64 = "64 word"

section \<open>Results of kernel functions\<close>

text \<open>
  A kernel function returns, calls \<open>panic\<close> (with its message), does something C leaves
  undefined (a null or out-of-range access), spins on a lock another hart holds, or sleeps with
  nothing to wake it.
\<close>

datatype err = Panic string | Undef string | Spin | Asleep

datatype 'a res = Ok 'a | Err err

primrec bnd :: "'a res \<Rightarrow> ('a \<Rightarrow> 'b res) \<Rightarrow> 'b res" where
  "bnd (Ok x) f = f x"
| "bnd (Err e) f = Err e"

lemma bnd_eq_Ok [simp]: "bnd m f = Ok y \<longleftrightarrow> (\<exists>x. m = Ok x \<and> f x = Ok y)"
  by (cases m) auto

lemma bnd_Ok_right [simp]: "bnd m Ok = m"
  by (cases m) auto

lemma bnd_assoc: "bnd (bnd m f) g = bnd m (\<lambda>x. bnd (f x) g)"
  by (cases m) auto

lemma bnd_eq_Err: "bnd m f = Err e \<longleftrightarrow> m = Err e \<or> (\<exists>x. m = Ok x \<and> f x = Err e)"
  by (cases m) auto

lemma bnd_cong [fundef_cong]:
  "m = m' \<Longrightarrow> (\<And>x. m' = Ok x \<Longrightarrow> f x = g x) \<Longrightarrow> bnd m f = bnd m' g"
  by (cases m') auto

definition is_ok :: "'a res \<Rightarrow> bool" where
  "is_ok r \<longleftrightarrow> (case r of Ok _ \<Rightarrow> True | Err _ \<Rightarrow> False)"

lemma is_ok_simps [simp]: "is_ok (Ok x)" "\<not> is_ok (Err e)"
  by (simp_all add: is_ok_def)

lemma is_ok_iff: "is_ok r \<longleftrightarrow> (\<exists>x. r = Ok x)"
  by (cases r) auto

text \<open>A C loop over an index range, with an early stop at the first error.\<close>

primrec for_each :: "'i list \<Rightarrow> ('i \<Rightarrow> 's \<Rightarrow> 's res) \<Rightarrow> 's \<Rightarrow> 's res" where
  "for_each [] f s = Ok s"
| "for_each (i # is) f s = bnd (f i s) (for_each is f)"

lemma for_each_append: "for_each (is @ js) f s = bnd (for_each is f s) (for_each js f)"
proof (induction "is" arbitrary: s)
  case Nil
  then show ?case by simp
next
  case (Cons i "is")
  then show ?case by (cases "f i s") simp_all
qed

text \<open>An invariant every iteration keeps, and without which no iteration fails.\<close>

lemma for_each_inv:
  assumes "\<And>i s. i \<in> set is \<Longrightarrow> I s \<Longrightarrow> \<exists>s'. f i s = Ok s' \<and> I s'" and "I s"
  shows "\<exists>s'. for_each is f s = Ok s' \<and> I s'"
  using assms
proof (induction "is" arbitrary: s)
  case Nil
  then show ?case by simp
next
  case (Cons i "is")
  from Cons.prems(1) [of i s] Cons.prems(2) obtain s1 where "f i s = Ok s1" "I s1" by auto
  with Cons.IH [of s1] Cons.prems(1) show ?case by auto
qed

section \<open>C integers\<close>

text \<open>
  An \<open>int\<close> expression wraps at 32 bits (the code the compiler emits for RISC-V uses
  \<open>addw\<close>, \<open>mulw\<close>, \<open>divw\<close>); division truncates towards zero and \<open>divw\<close> by zero
  gives \<open>-1\<close>.
\<close>

definition wrap32 :: "int \<Rightarrow> int" where
  "wrap32 x = signed_take_bit 31 x"

definition cdiv :: "int \<Rightarrow> int \<Rightarrow> int" where
  "cdiv a b = (if b = 0 then -1 else sgn a * sgn b * (\<bar>a\<bar> div \<bar>b\<bar>))"

definition INT_MAX :: int where "INT_MAX = 2147483647"
definition INT_MIN :: int where "INT_MIN = -2147483648"

lemma wrap32_id: "-2147483648 \<le> x \<Longrightarrow> x \<le> 2147483647 \<Longrightarrow> wrap32 x = x"
  unfolding wrap32_def by (rule signed_take_bit_int_eq_self) auto

lemma wrap32_range: "-2147483648 \<le> wrap32 x \<and> wrap32 x \<le> 2147483647"
  using signed_take_bit_int_greater_eq_minus_exp [of 31 x] signed_take_bit_int_less_exp [of 31 x]
  by (simp add: wrap32_def)

lemma cdiv_nonneg: "0 \<le> a \<Longrightarrow> 0 < b \<Longrightarrow> cdiv a b = a div b"
  by (auto simp: cdiv_def sgn_if)

lemma cdiv_neg: "a \<le> 0 \<Longrightarrow> 0 < b \<Longrightarrow> cdiv a b \<le> 0"
  by (auto simp: cdiv_def sgn_if pos_imp_zdiv_nonneg_iff)

section \<open>Alignment and page arithmetic\<close>

text \<open>
  \<open>aligned n a\<close>: the low \<open>n\<close> bits of \<open>a\<close> are zero. Two addresses lie in the same
  \<open>2\<^sup>n\<close>-byte block when their remaining bits agree; every disjointness argument below is
  about those bits.
\<close>

definition aligned :: "nat \<Rightarrow> u64 \<Rightarrow> bool" where
  "aligned n a \<longleftrightarrow> take_bit n a = 0"

lemma aligned_0 [simp]: "aligned n 0"
  by (simp add: aligned_def)

lemma aligned_mono: "aligned n a \<Longrightarrow> k \<le> n \<Longrightarrow> aligned k a"
  unfolding aligned_def
  by (metis min.absorb1 take_bit_take_bit take_bit_of_0)

lemma bit_u64_less: "bit (a::u64) k \<Longrightarrow> k < 64"
  using bit_imp_le_length [of a k] by simp

lemma aligned_bit: "aligned n a \<longleftrightarrow> (\<forall>k<n. \<not> bit a k)"
  unfolding aligned_def by (auto simp: bit_eq_iff bit_take_bit_iff dest: bit_u64_less)

lemma drop_bit_0_bits:
  assumes "drop_bit n (f::u64) = 0" and "n \<le> k"
  shows "\<not> bit f k"
proof
  assume b: "bit f k"
  then have "bit (drop_bit n f) (k - n)" using assms(2) by (simp add: bit_drop_bit_eq)
  with assms(1) show False by simp
qed

lemma unat_pow2: "n < 64 \<Longrightarrow> unat (2 ^ n :: u64) = 2 ^ n"
proof -
  assume "n < 64"
  then have "(2::nat) ^ n < 2 ^ 64" by (intro power_strict_increasing) simp_all
  then show ?thesis using unat_of_nat [of "2 ^ n", where ?'a = 64] by simp
qed

lemma take_bit_self: "(a::u64) < 2 ^ n \<Longrightarrow> n < 64 \<Longrightarrow> take_bit n a = a"
proof -
  assume "a < 2 ^ n" "n < 64"
  then have "unat a < 2 ^ n" by (simp add: word_less_nat_alt unat_pow2)
  then have "unat (take_bit n a) = unat a" by (simp add: unsigned_take_bit_eq take_bit_nat_eq_self)
  then show ?thesis by (simp add: word_unat_eq_iff)
qed

lemma aligned_unat: "aligned n a \<longleftrightarrow> unat a mod 2 ^ n = 0"
  unfolding aligned_def
  by (metis take_bit_eq_mod unat_0 unat_eq_zero unsigned_take_bit_eq)

lemma unat_of_nat_small: "i < 2 ^ n \<Longrightarrow> n < 64 \<Longrightarrow> unat (of_nat i :: u64) = i"
proof -
  assume i: "i < 2 ^ n" and n: "n < 64"
  have "(2::nat) ^ n \<le> 2 ^ 64" using n by (intro power_increasing) simp_all
  with i have "i < 2 ^ 64" by (rule less_le_trans)
  then show ?thesis by (simp add: unat_of_nat)
qed

lemma unat_add_low:
  fixes a :: u64
  assumes al: "aligned n a" and i: "i < 2 ^ n" and n: "n < 64"
  shows "unat (a + of_nat i) = unat a + i"
proof -
  obtain k where k: "unat a = 2 ^ n * k"
    using al by (auto simp: aligned_unat mod_eq_0_iff_dvd)
  have pw: "(2::nat) ^ 64 = 2 ^ n * 2 ^ (64 - n)"
    using n by (simp flip: power_add)
  have "2 ^ n * k < 2 ^ n * 2 ^ (64 - n)"
    using unsigned_less [of a, where ?'a = nat] unfolding pw [symmetric] k [symmetric] by simp
  then have "k < 2 ^ (64 - n)" by simp
  then have "k + 1 \<le> 2 ^ (64 - n)" by simp
  then have "2 ^ n * (k + 1) \<le> 2 ^ n * 2 ^ (64 - n)" by (rule mult_le_mono2)
  then have "unat a + i < 2 ^ 64" using i unfolding pw k by (simp add: algebra_simps)
  then show ?thesis
    using unat_of_nat_small [OF i n] by (simp add: unat_word_ariths)
qed

lemma unat_drop: "unat (drop_bit n (a::u64)) = unat a div 2 ^ n"
  by (subst unat_drop_bit_eq) (simp add: drop_bit_eq_div)

lemma drop_bit_add_low:
  fixes a :: u64
  assumes "aligned n a" and "i < 2 ^ n" and "n < 64"
  shows "drop_bit n (a + of_nat i) = drop_bit n a"
proof -
  have "(unat a + i) div 2 ^ n = unat a div 2 ^ n"
    using assms by (auto simp: aligned_unat mod_eq_0_iff_dvd elim!: dvdE)
  then show ?thesis
    by (simp add: word_unat_eq_iff unat_drop unat_add_low [OF assms])
qed

lemma block_iff:
  fixes a x :: u64
  assumes al: "aligned n a" and n: "n < 64"
  shows "unat (x - a) < 2 ^ n \<longleftrightarrow> drop_bit n x = drop_bit n a"
proof
  assume "unat (x - a) < 2 ^ n"
  from drop_bit_add_low [OF al this n] show "drop_bit n x = drop_bit n a" by simp
next
  assume e: "drop_bit n x = drop_bit n a"
  have "unat x div 2 ^ n = unat a div 2 ^ n" using e by (metis unat_drop)
  moreover have am: "unat a mod 2 ^ n = 0" using al by (simp add: aligned_unat)
  ultimately have ge: "unat x = unat a + unat x mod 2 ^ n"
    by (metis add.right_neutral div_mult_mod_eq)
  then have "a \<le> x" by (simp add: word_le_nat_alt)
  then have "unat (x - a) = unat x - unat a" by (rule unat_sub)
  then show "unat (x - a) < 2 ^ n" using ge by (metis add_diff_cancel_left' mod_less_divisor zero_less_numeral zero_less_power)
qed

lemma aligned_add_block:
  fixes a b :: u64
  assumes "aligned n a" and "aligned n b" and "n \<le> 64"
  shows "aligned n (a + b)"
proof -
  have "(2::nat) ^ n dvd 2 ^ 64" using assms(3) by (rule le_imp_power_dvd)
  then have "unat (a + b) mod 2 ^ n = (unat a + unat b) mod 2 ^ n"
    by (simp add: unat_word_ariths mod_mod_cancel)
  moreover have "(unat a + unat b) mod 2 ^ n = 0"
    using assms(1,2) by (simp add: aligned_unat flip: dvd_eq_mod_eq_0)
  ultimately show ?thesis by (simp only: aligned_unat)
qed

lemma aligned_eqI:
  fixes a b :: u64
  assumes "aligned n a" and "aligned n b" and "drop_bit n a = drop_bit n b"
  shows "a = b"
proof -
  have "unat a div 2 ^ n = unat b div 2 ^ n" using assms(3) by (metis unat_drop)
  moreover have "unat a mod 2 ^ n = 0" "unat b mod 2 ^ n = 0"
    using assms(1,2) by (simp_all add: aligned_unat)
  ultimately have "unat a = unat b" by (metis div_mult_mod_eq)
  then show ?thesis by (simp add: word_unat_eq_iff)
qed

section \<open>Byte memory\<close>

type_synonym memory = "u64 \<Rightarrow> u8"

primrec ldn :: "memory \<Rightarrow> u64 \<Rightarrow> nat \<Rightarrow> u64" where
  "ldn m a 0 = 0"
| "ldn m a (Suc k) = ldn m a k OR push_bit (8 * k) (ucast (m (a + of_nat k)))"

definition ld64 :: "memory \<Rightarrow> u64 \<Rightarrow> u64" where
  "ld64 m a = ldn m a 8"

definition byte_of :: "nat \<Rightarrow> u64 \<Rightarrow> u8" where
  "byte_of i v = ucast (drop_bit (8 * i) v)"

definition st64 :: "u64 \<Rightarrow> u64 \<Rightarrow> memory \<Rightarrow> memory" where
  "st64 a v m = (\<lambda>x. if unat (x - a) < 8 then byte_of (unat (x - a)) v else m x)"

text \<open>A load, bit by bit: bit \<open>n\<close> comes from byte \<open>n div 8\<close> (little endian).\<close>

lemma bit_ldn:
  "bit (ldn m a k) n \<longleftrightarrow> n < 64 \<and> n < 8 * k \<and> bit (m (a + of_nat (n div 8))) (n mod 8)"
proof (induction k)
  case 0
  then show ?case by simp
next
  case (Suc k)
  have small: "bit (m x) j \<Longrightarrow> j < 8" for x j
    using bit_imp_le_length [of "m x" j] by simp
  have step: "bit (ldn m a (Suc k)) n \<longleftrightarrow>
      bit (ldn m a k) n \<or> 8 * k \<le> n \<and> n < 64 \<and> bit (m (a + of_nat k)) (n - 8 * k)"
    by (simp only: ldn.simps bit_or_iff bit_push_bit_iff bit_unsigned_iff) (auto simp: possible_bit_def)
  show ?case
  proof (cases "8 * k \<le> n \<and> n < 8 * Suc k")
    case True
    then have d: "n div 8 = k" by (intro div_nat_eqI) auto
    then have "n - 8 * k = n mod 8" by (simp add: minus_mult_div_eq_mod [symmetric])
    with True d show ?thesis unfolding step Suc by (auto simp del: ldn.simps)
  next
    case False
    then have "\<not> (8 * k \<le> n \<and> bit (m (a + of_nat k)) (n - 8 * k))"
      using small [of "a + of_nat k" "n - 8 * k"] by auto
    with False show ?thesis unfolding step Suc by (auto simp del: ldn.simps)
  qed
qed

lemma bit_ld64:
  "n < 64 \<Longrightarrow> bit (ld64 m a) n \<longleftrightarrow> bit (m (a + of_nat (n div 8))) (n mod 8)"
  by (simp add: ld64_def bit_ldn)

lemma bit_byte_of: "bit (byte_of i v) j \<longleftrightarrow> j < 8 \<and> bit v (8 * i + j)"
  by (auto simp: byte_of_def bit_simps)

lemma ld64_cong: "(\<And>i. i < 8 \<Longrightarrow> m (a + of_nat i) = m' (b + of_nat i)) \<Longrightarrow> ld64 m a = ld64 m' b"
  by (rule bit_word_eqI) (simp add: bit_ld64)

lemma unat_off8: "i < 8 \<Longrightarrow> unat (of_nat i :: u64) = i"
  using unat_of_nat_small [of i 3] by simp

lemma ld64_st64_same [simp]: "ld64 (st64 a v m) a = v"
proof (rule bit_word_eqI)
  fix n assume "n < LENGTH(64)"
  then have n: "n < 64" and "n div 8 < 8" by simp_all
  then show "bit (ld64 (st64 a v m) a) n \<longleftrightarrow> bit v n"
    by (simp add: bit_ld64 st64_def bit_byte_of unat_off8)
qed

lemma ld64_st64_other:
  assumes "aligned 3 a" and "aligned 3 b" and "a \<noteq> b"
  shows "ld64 (st64 a v m) b = ld64 m b"
proof (rule ld64_cong)
  fix i :: nat assume i: "i < 8"
  have ne: "drop_bit 3 b \<noteq> drop_bit 3 a"
    using aligned_eqI [OF assms(2,1)] assms(3) by blast
  have "drop_bit 3 (b + of_nat i) = drop_bit 3 b"
    using drop_bit_add_low [OF assms(2), of i] i by simp
  with ne have "\<not> unat (b + of_nat i - a) < 8"
    using block_iff [OF assms(1), of "b + of_nat i"] by simp
  then show "st64 a v m (b + of_nat i) = m (b + of_nat i)" by (simp add: st64_def)
qed

text \<open>Loads and stores of one page leave every other page alone.\<close>

definition page_of :: "u64 \<Rightarrow> u64" where
  "page_of a = drop_bit 12 a"

lemma page_of_slot:
  assumes "aligned 12 p" and "i < 4096"
  shows "page_of (p + of_nat i) = page_of p"
  using drop_bit_add_low [OF assms(1), of i] assms(2) by (simp add: page_of_def)

lemma page_of_inj: "aligned 12 p \<Longrightarrow> aligned 12 q \<Longrightarrow> page_of p = page_of q \<Longrightarrow> p = q"
  unfolding page_of_def by (rule aligned_eqI)

lemma page_of_aligned8:
  assumes "aligned 3 a" and "i < 8"
  shows "page_of (a + of_nat i) = page_of a"
proof -
  have "drop_bit 3 (a + of_nat i) = drop_bit 3 a"
    using drop_bit_add_low [OF assms(1), of i] assms(2) by simp
  then have "drop_bit 9 (drop_bit 3 (a + of_nat i)) = drop_bit 9 (drop_bit 3 a)" by (rule arg_cong)
  then show ?thesis by (simp add: page_of_def drop_bit_drop_bit)
qed

lemma st64_other_page:
  assumes "aligned 3 a" and "page_of x \<noteq> page_of a"
  shows "st64 a v m x = m x"
proof -
  have "\<not> unat (x - a) < 8"
  proof
    assume "unat (x - a) < 8"
    from page_of_aligned8 [OF assms(1) this] assms(2) show False by simp
  qed
  then show ?thesis by (simp add: st64_def)
qed

section \<open>Signed reading of a 32-bit word\<close>

lemma sint_u32: "sint (xx::u32) = (if unat xx < 2 ^ 31 then int (unat xx) else int (unat xx) - 2 ^ 32)"
proof -
  have l: "uint xx < 2 ^ 32" "0 \<le> uint xx" using unsigned_less [of xx, where ?'a = int] by simp_all
  have s: "sint xx = signed_take_bit 31 (uint xx)" by (simp add: sint_uint)
  show ?thesis
  proof (cases "unat xx < 2 ^ 31")
    case True
    then have "int (unat xx) < int (2 ^ 31)" by (rule of_nat_less_iff [THEN iffD2])
    then have "uint xx < 2 ^ 31" by simp
    moreover have "- (2 ^ 31) \<le> uint xx" by (rule order_trans [OF _ l(2)]) simp
    ultimately have "signed_take_bit 31 (uint xx) = uint xx"
      by (intro signed_take_bit_int_eq_self) auto
    then show ?thesis using True s by simp
  next
    case False
    then have "int (2 ^ 31) \<le> int (unat xx)" by (intro of_nat_le_iff [THEN iffD2]) simp
    then have ge: "2 ^ 31 \<le> uint xx" by simp
    have "signed_take_bit 31 (uint xx) = signed_take_bit 31 (uint xx - 2 ^ 32)"
    proof (rule signed_take_bit_eq_iff_take_bit_eq [THEN iffD2])
      have p: "(2::int) ^ 32 = 2 ^ Suc 31" by simp
      show "take_bit (Suc 31) (uint xx) = take_bit (Suc 31) (uint xx - 2 ^ 32)"
        unfolding take_bit_eq_mod p by (rule minus_mod_self2 [symmetric])
    qed
    also have "\<dots> = uint xx - 2 ^ 32"
    proof (rule signed_take_bit_int_eq_self)
      show "- (2 ^ 31) \<le> uint xx - 2 ^ 32" using ge by simp
      have "uint xx - 2 ^ 32 < 0" using l(1) by simp
      then show "uint xx - 2 ^ 32 < 2 ^ 31" by simp
    qed
    finally show ?thesis using False s by simp
  qed
qed

end
