(* ===== verification/Riscv.thy ===== *)
theory Riscv
  imports Prelude
begin

unbundle bit_operations_syntax

text \<open>
  The constants and macros of kernel/riscv.h, kernel/memlayout.h and kernel/param.h that the
  modelled code uses: page rounding, page-table entries, virtual-address indices, the memory
  layout. The lemmas give the bit-level facts the page-table proofs rest on.
\<close>

section \<open>Pages\<close>

definition PGSIZE :: u64 where "PGSIZE = 4096"

definition PGROUNDUP :: "u64 \<Rightarrow> u64" where
  "PGROUNDUP sz = (sz + PGSIZE - 1) AND NOT (PGSIZE - 1)"

definition PGROUNDDOWN :: "u64 \<Rightarrow> u64" where
  "PGROUNDDOWN a = a AND NOT (PGSIZE - 1)"

section \<open>Page-table entries\<close>

definition PTE_V :: u64 where "PTE_V = push_bit 0 1"
definition PTE_R :: u64 where "PTE_R = push_bit 1 1"
definition PTE_W :: u64 where "PTE_W = push_bit 2 1"
definition PTE_X :: u64 where "PTE_X = push_bit 3 1"
definition PTE_U :: u64 where "PTE_U = push_bit 4 1"
definition PTE_CW :: u64 where "PTE_CW = push_bit 8 1"

definition PA2PTE :: "u64 \<Rightarrow> u64" where
  "PA2PTE pa = push_bit 10 (drop_bit 12 pa)"

definition PTE2PA :: "u64 \<Rightarrow> u64" where
  "PTE2PA pte = push_bit 12 (drop_bit 10 pte)"

definition PTE_FLAGS :: "u64 \<Rightarrow> u64" where
  "PTE_FLAGS pte = pte AND 0x3FF"

definition PXMASK :: u64 where "PXMASK = 0x1FF"

definition PXSHIFT :: "nat \<Rightarrow> nat" where
  "PXSHIFT level = 12 + 9 * level"

definition PX :: "nat \<Rightarrow> u64 \<Rightarrow> u64" where
  "PX level va = drop_bit (PXSHIFT level) va AND PXMASK"

definition MAXVA :: u64 where "MAXVA = push_bit (9 + 9 + 9 + 12 - 1) 1"

definition SATP_SV39 :: u64 where "SATP_SV39 = push_bit 60 8"

definition MAKE_SATP :: "u64 \<Rightarrow> u64" where
  "MAKE_SATP pagetable = SATP_SV39 OR drop_bit 12 pagetable"

section \<open>Memory layout\<close>

definition UART0 :: u64 where "UART0 = 0x10000000"
definition VIRTIO0 :: u64 where "VIRTIO0 = 0x10001000"
definition PLIC :: u64 where "PLIC = 0x0c000000"
definition KERNBASE :: u64 where "KERNBASE = 0x80000000"
definition PHYSTOP :: u64 where "PHYSTOP = KERNBASE + 128 * 1024 * 1024"
definition TRAMPOLINE :: u64 where "TRAMPOLINE = MAXVA - PGSIZE"
definition TRAPFRAME :: u64 where "TRAPFRAME = TRAMPOLINE - PGSIZE"

definition KSTACK :: "nat \<Rightarrow> u64" where
  "KSTACK p = TRAMPOLINE - (of_nat p + 1) * 2 * PGSIZE"

definition NPROC :: nat where "NPROC = 64"
definition NCPU :: nat where "NCPU = 8"
definition NOFILE :: nat where "NOFILE = 16"
definition NFILE :: nat where "NFILE = 100"

lemmas pte_flag_defs = PTE_V_def PTE_R_def PTE_W_def PTE_X_def PTE_U_def PTE_CW_def

section \<open>Lemmas\<close>

lemma PGSIZE_mask: "PGSIZE - 1 = mask 12"
  by (simp add: PGSIZE_def mask_eq_exp_minus_1)

lemma aligned_PGROUNDDOWN [simp]: "aligned 12 (PGROUNDDOWN a)"
  unfolding aligned_def PGROUNDDOWN_def PGSIZE_mask
  by (rule bit_word_eqI) (auto simp: bit_simps)

lemma PGROUNDDOWN_le: "PGROUNDDOWN a \<le> a"
  unfolding PGROUNDDOWN_def by (rule word_and_le2)

lemma PGROUNDDOWN_id: "aligned 12 a \<Longrightarrow> PGROUNDDOWN a = a"
  unfolding PGROUNDDOWN_def PGSIZE_mask aligned_bit
  by (rule bit_word_eqI) (auto simp: bit_simps)

lemma page_of_PGROUNDDOWN [simp]: "page_of (PGROUNDDOWN a) = page_of a"
proof (rule bit_word_eqI)
  fix n
  have "bit a (12 + n) \<Longrightarrow> 12 + n < 64" using bit_imp_le_length [of a "12 + n"] by simp
  then show "bit (page_of (PGROUNDDOWN a)) n \<longleftrightarrow> bit (page_of a) n"
    by (auto simp: page_of_def PGROUNDDOWN_def PGSIZE_mask bit_simps)
qed

lemma aligned_PGROUNDUP [simp]: "aligned 12 (PGROUNDUP a)"
  unfolding aligned_def PGROUNDUP_def PGSIZE_mask
  by (rule bit_word_eqI) (auto simp: bit_simps)

lemma aligned_PTE2PA [simp]: "aligned 12 (PTE2PA pte)"
  unfolding aligned_def PTE2PA_def by (rule bit_word_eqI) (auto simp: bit_simps)

text \<open>The physical address survives the trip through a page-table entry.\<close>

lemma PTE2PA_PA2PTE:
  assumes "aligned 12 pa" and "drop_bit 10 f = 0"
  shows "PTE2PA (PA2PTE pa OR f) = pa"
proof (rule bit_word_eqI)
  fix n assume n: "n < LENGTH(64)"
  have lo: "n < 12 \<Longrightarrow> \<not> bit pa n"
    using assms(1) by (simp add: aligned_bit)
  have f: "10 \<le> k \<Longrightarrow> \<not> bit f k" for k
    using assms(2) by (rule drop_bit_0_bits)
  show "bit (PTE2PA (PA2PTE pa OR f)) n \<longleftrightarrow> bit pa n"
    using n lo f [of "n - 2"] by (cases "n < 12") (auto simp: PTE2PA_def PA2PTE_def bit_simps)
qed

lemma PTE2PA_or_low: "drop_bit 10 f = 0 \<Longrightarrow> PTE2PA (e OR f) = PTE2PA e"
  by (simp add: PTE2PA_def)

lemma PTE2PA_and_low: "drop_bit 10 f = 0 \<Longrightarrow> PTE2PA (e AND NOT f) = PTE2PA e"
  unfolding PTE2PA_def using drop_bit_0_bits [of 10 f]
  by (intro bit_word_eqI) (auto simp: bit_simps)

lemma drop10_flags [simp]:
  "drop_bit 10 PTE_V = 0" "drop_bit 10 PTE_R = 0" "drop_bit 10 PTE_W = 0"
  "drop_bit 10 PTE_X = 0" "drop_bit 10 PTE_U = 0" "drop_bit 10 PTE_CW = 0"
  by (simp_all add: pte_flag_defs drop_bit_push_bit)

lemma bit_flags:
  "bit PTE_V n \<longleftrightarrow> n = 0" "bit PTE_R n \<longleftrightarrow> n = 1" "bit PTE_W n \<longleftrightarrow> n = 2"
  "bit PTE_X n \<longleftrightarrow> n = 3" "bit PTE_U n \<longleftrightarrow> n = 4" "bit PTE_CW n \<longleftrightarrow> n = 8"
  unfolding pte_flag_defs by (simp_all only: bit_push_bit_iff bit_1_iff) auto

lemma PX_less: "unat (PX l va) < 512"
proof -
  have "PX l va \<le> PXMASK" by (simp add: PX_def word_and_le1)
  then show ?thesis by (simp add: word_le_nat_alt PXMASK_def)
qed

lemma bit_MAXVA_bound:
  assumes "va < MAXVA" and "38 \<le> n"
  shows "\<not> bit va n"
proof -
  have "va < 2 ^ 38" using assms(1) by (simp add: MAXVA_def push_bit_eq_mult)
  then have "take_bit 38 va = va" by (rule take_bit_self) simp
  with assms(2) show ?thesis by (metis bit_take_bit_iff leD)
qed

text \<open>A page below \<open>MAXVA\<close> is determined by its three indices.\<close>

lemma bit_PX: "bit (PX l va) k \<longleftrightarrow> k < 9 \<and> bit va (PXSHIFT l + k)"
proof -
  have "PXMASK = mask 9" by (simp add: PXMASK_def mask_eq_exp_minus_1)
  then have "PX l va = drop_bit (PXSHIFT l) va AND mask 9" by (simp add: PX_def)
  then show ?thesis by (auto simp: bit_simps)
qed

lemma PX_inj:
  assumes va: "va < MAXVA" and vb: "vb < MAXVA"
    and eq: "PX 0 va = PX 0 vb" "PX 1 va = PX 1 vb" "PX 2 va = PX 2 vb"
  shows "page_of va = page_of vb"
proof (rule bit_word_eqI)
  fix n :: nat
  consider "n < 9" | "9 \<le> n" "n < 18" | "18 \<le> n" "n < 27" | "27 \<le> n" by linarith
  then show "bit (page_of va) n \<longleftrightarrow> bit (page_of vb) n"
  proof cases
    case 1
    with eq(1) bit_PX [of 0 va n] bit_PX [of 0 vb n] show ?thesis
      by (simp add: page_of_def bit_simps PXSHIFT_def)
  next
    case 2
    then have "n - 9 < 9" by simp
    with 2 eq(2) bit_PX [of 1 va "n - 9"] bit_PX [of 1 vb "n - 9"] show ?thesis
      by (simp add: page_of_def bit_simps PXSHIFT_def)
  next
    case 3
    then have "n - 18 < 9" by simp
    with 3 eq(3) bit_PX [of 2 va "n - 18"] bit_PX [of 2 vb "n - 18"] show ?thesis
      by (simp add: page_of_def bit_simps PXSHIFT_def)
  next
    case 4
    with bit_MAXVA_bound [OF va, of "12 + n"] bit_MAXVA_bound [OF vb, of "12 + n"] show ?thesis
      by (simp add: page_of_def bit_simps)
  qed
qed

end
