(* ===== verification/Spinlock.thy ===== *)
theory Spinlock
  imports Riscv
begin

text \<open>
  kernel/spinlock.c with the per-hart part of struct cpu (kernel/proc.h): interrupt nesting,
  \<open>acquire\<close>, \<open>release\<close>, \<open>holding\<close>, and cpuid/mycpu/myproc of kernel/proc.c.
  The state is the base record of the kernel state; every other component extends it.
\<close>

section \<open>State\<close>

record spinlock =
  locked :: bool
  lcpu :: "nat option"

record cpu =
  cproc :: "nat option"   \<comment> \<open>index in the process table of the running process, if any\<close>
  noff :: int
  intena :: bool
  sie :: bool             \<comment> \<open>the SIE bit of this hart's sstatus register\<close>

text \<open>Every spinlock of the kernel, by the variable that holds it.\<close>

datatype lockid =
    KmemLock | RefLock | PidLock | WaitLock | TicksLock | ProcLock nat
  | PrLock | FtableLock | ItableLock | BcacheLock | LogLock | ConsLock | UartTxLock | VdiskLock
  | PipeLock u64 | SleepLk nat

record hstate =
  hart :: nat                          \<comment> \<open>the tp register of the hart that executes\<close>
  cpus :: "nat \<Rightarrow> cpu"
  locks :: "lockid \<Rightarrow> spinlock"

section \<open>Operations\<close>

definition free_lock :: spinlock where
  "free_lock = \<lparr>locked = False, lcpu = None\<rparr>"

definition held_by :: "nat \<Rightarrow> spinlock" where
  "held_by h = \<lparr>locked = True, lcpu = Some h\<rparr>"

definition initlock :: "lockid \<Rightarrow> 'a hstate_scheme \<Rightarrow> 'a hstate_scheme" where
  "initlock l s = s\<lparr>locks := (locks s)(l := \<lparr>locked = False, lcpu = None\<rparr>)\<rparr>"

definition cpuid :: "'a hstate_scheme \<Rightarrow> nat" where
  "cpuid s = hart s"

definition mycpu :: "'a hstate_scheme \<Rightarrow> cpu" where
  "mycpu s = cpus s (cpuid s)"

definition upd_mycpu :: "(cpu \<Rightarrow> cpu) \<Rightarrow> 'a hstate_scheme \<Rightarrow> 'a hstate_scheme" where
  "upd_mycpu f s = s\<lparr>cpus := (cpus s)(cpuid s := f (cpus s (cpuid s)))\<rparr>"

definition intr_get :: "'a hstate_scheme \<Rightarrow> bool" where
  "intr_get s = sie (mycpu s)"

definition intr_on :: "'a hstate_scheme \<Rightarrow> 'a hstate_scheme" where
  "intr_on s = upd_mycpu (\<lambda>c. c\<lparr>sie := True\<rparr>) s"

definition intr_off :: "'a hstate_scheme \<Rightarrow> 'a hstate_scheme" where
  "intr_off s = upd_mycpu (\<lambda>c. c\<lparr>sie := False\<rparr>) s"

definition push_off :: "'a hstate_scheme \<Rightarrow> 'a hstate_scheme" where
  "push_off s =
     (let old = intr_get s;
          s1 = intr_off s;
          s2 = (if noff (mycpu s1) = 0 then upd_mycpu (\<lambda>c. c\<lparr>intena := old\<rparr>) s1 else s1)
      in upd_mycpu (\<lambda>c. c\<lparr>noff := noff c + 1\<rparr>) s2)"

definition pop_off :: "'a hstate_scheme \<Rightarrow> ('a hstate_scheme) res" where
  "pop_off s =
     (if intr_get s then Err (Panic ''pop_off - interruptible'')
      else if noff (mycpu s) < 1 then Err (Panic ''pop_off'')
      else let s1 = upd_mycpu (\<lambda>c. c\<lparr>noff := noff c - 1\<rparr>) s
           in Ok (if noff (mycpu s1) = 0 \<and> intena (mycpu s1) then intr_on s1 else s1))"

definition holding :: "lockid \<Rightarrow> 'a hstate_scheme \<Rightarrow> bool" where
  "holding l s \<longleftrightarrow> locked (locks s l) \<and> lcpu (locks s l) = Some (cpuid s)"

text \<open>
  The test-and-set loop of \<open>acquire\<close> ends at once when the lock is free and never while
  another hart holds it.
\<close>

definition acquire :: "lockid \<Rightarrow> 'a hstate_scheme \<Rightarrow> ('a hstate_scheme) res" where
  "acquire l s =
     (let s1 = push_off s
      in if holding l s1 then Err (Panic ''acquire'')
         else if locked (locks s1 l) then Err Spin
         else Ok (s1\<lparr>locks := (locks s1)(l := \<lparr>locked = True, lcpu = Some (cpuid s1)\<rparr>)\<rparr>))"

definition release :: "lockid \<Rightarrow> 'a hstate_scheme \<Rightarrow> ('a hstate_scheme) res" where
  "release l s =
     (if \<not> holding l s then Err (Panic ''release'')
      else pop_off (s\<lparr>locks := (locks s)(l := \<lparr>locked = False, lcpu = None\<rparr>)\<rparr>))"

definition myproc :: "'a hstate_scheme \<Rightarrow> (nat option \<times> 'a hstate_scheme) res" where
  "myproc s =
     (let s1 = push_off s;
          p = cproc (mycpu s1)
      in bnd (pop_off s1) (\<lambda>s2. Ok (p, s2)))"

section \<open>The effect of a critical section on the hart\<close>

definition cpu_ok :: "cpu \<Rightarrow> bool" where
  "cpu_ok c \<longleftrightarrow> 0 \<le> noff c \<and> (0 < noff c \<longrightarrow> \<not> sie c)"

definition pushed :: "(nat \<Rightarrow> cpu) \<Rightarrow> nat \<Rightarrow> nat \<Rightarrow> cpu" where
  "pushed cs h = cs(h := (if noff (cs h) = 0 then (cs h)\<lparr>sie := False, intena := sie (cs h), noff := 1\<rparr>
                          else (cs h)\<lparr>sie := False, noff := noff (cs h) + 1\<rparr>))"

definition popped :: "(nat \<Rightarrow> cpu) \<Rightarrow> nat \<Rightarrow> nat \<Rightarrow> cpu" where
  "popped cs h = cs(h := (if noff (cs h) = 1 \<and> intena (cs h) then (cs h)\<lparr>noff := 0, sie := True\<rparr>
                          else (cs h)\<lparr>noff := noff (cs h) - 1\<rparr>))"

text \<open>What remains of a matched push/pop: at nesting depth 0 \<open>intena\<close> remembers SIE.\<close>

definition bumped :: "(nat \<Rightarrow> cpu) \<Rightarrow> nat \<Rightarrow> nat \<Rightarrow> cpu" where
  "bumped cs h = cs(h := (if noff (cs h) = 0 then (cs h)\<lparr>intena := sie (cs h)\<rparr> else cs h))"

abbreviation unlocked :: "lockid \<Rightarrow> 'a hstate_scheme \<Rightarrow> bool" where
  "unlocked l s \<equiv> locks s l = free_lock"

abbreviation hart_ok :: "'a hstate_scheme \<Rightarrow> bool" where
  "hart_ok s \<equiv> cpu_ok (cpus s (hart s))"

lemma push_off_pushed: "push_off s = s\<lparr>cpus := pushed (cpus s) (hart s)\<rparr>"
  by (simp add: push_off_def Let_def pushed_def upd_mycpu_def mycpu_def cpuid_def intr_get_def
      intr_off_def)

lemma cpu_ok_pushed [simp]: "cpu_ok (cs h) \<Longrightarrow> cpu_ok (pushed cs h h)"
  by (auto simp: cpu_ok_def pushed_def)

lemma cpu_ok_bumped [simp]: "cpu_ok (bumped cs h h) \<longleftrightarrow> cpu_ok (cs h)"
  by (auto simp: cpu_ok_def bumped_def)

lemma pushed_bumped [simp]: "pushed (bumped cs h) h = pushed cs h"
  by (auto simp: pushed_def bumped_def)

lemma bumped_bumped [simp]: "bumped (bumped cs h) h = bumped cs h"
  by (auto simp: bumped_def)

lemma popped_pushed [simp]: "cpu_ok (cs h) \<Longrightarrow> popped (pushed cs h) h = bumped cs h"
  by (auto simp: cpu_ok_def popped_def pushed_def bumped_def fun_eq_iff)

lemma bumped_pushed [simp]: "cpu_ok (cs h) \<Longrightarrow> bumped (pushed cs h) h = pushed cs h"
  by (auto simp: cpu_ok_def pushed_def bumped_def)

lemma pushed_other [simp]: "h' \<noteq> h \<Longrightarrow> pushed cs h h' = cs h'"
  by (simp add: pushed_def)

lemma cproc_pushed [simp]: "cproc (pushed cs h h') = cproc (cs h')"
  by (simp add: pushed_def)

lemma cproc_bumped [simp]: "cproc (bumped cs h h') = cproc (cs h')"
  by (simp add: bumped_def)

lemma noff_bumped [simp]: "noff (bumped cs h h') = noff (cs h')"
  by (simp add: bumped_def)

lemma sie_bumped [simp]: "sie (bumped cs h h') = sie (cs h')"
  by (simp add: bumped_def)

lemma noff_pushed [simp]: "cpu_ok (cs h) \<Longrightarrow> noff (pushed cs h h) = noff (cs h) + 1"
  by (auto simp: pushed_def cpu_ok_def)

lemma sie_pushed [simp]: "\<not> sie (pushed cs h h)"
  by (auto simp: pushed_def)

lemma locked_free [simp]: "\<not> locked free_lock" "free_lock \<noteq> held_by h" "held_by h \<noteq> free_lock"
  by (simp_all add: free_lock_def held_by_def)

lemma initlock_eq: "initlock l s = s\<lparr>locks := (locks s)(l := free_lock)\<rparr>"
  by (simp add: initlock_def free_lock_def)

lemma acquire_ok [simp]:
  "unlocked l s \<Longrightarrow> acquire l s =
     Ok (s\<lparr>cpus := pushed (cpus s) (hart s), locks := (locks s)(l := held_by (hart s))\<rparr>)"
  by (simp add: acquire_def push_off_pushed Let_def holding_def cpuid_def held_by_def free_lock_def)

lemma acquire_held [simp]: "locks s l = held_by (hart s) \<Longrightarrow> acquire l s = Err (Panic ''acquire'')"
  by (simp add: acquire_def push_off_pushed Let_def holding_def cpuid_def held_by_def)

lemma pop_off_popped:
  "\<not> sie (cpus s (hart s)) \<Longrightarrow> 1 \<le> noff (cpus s (hart s)) \<Longrightarrow>
   pop_off s = Ok (s\<lparr>cpus := popped (cpus s) (hart s)\<rparr>)"
  by (auto simp: pop_off_def Let_def intr_get_def intr_on_def mycpu_def cpuid_def upd_mycpu_def popped_def)

lemma release_ok:
  assumes "locks s l = held_by (hart s)" and "\<not> sie (cpus s (hart s))" and "1 \<le> noff (cpus s (hart s))"
  shows "release l s =
     Ok (s\<lparr>cpus := popped (cpus s) (hart s), locks := (locks s)(l := free_lock)\<rparr>)"
  using assms by (simp add: release_def holding_def cpuid_def held_by_def free_lock_def pop_off_popped)

text \<open>\<open>release\<close> after a matching \<open>acquire\<close>, in the form the simplifier applies.\<close>

lemma release_pushed [simp]:
  assumes "locks s l = held_by (hart s)" and "cpus s = pushed cs (hart s)" and "cpu_ok (cs (hart s))"
  shows "release l s = Ok (s\<lparr>cpus := bumped cs (hart s), locks := (locks s)(l := free_lock)\<rparr>)"
proof -
  have "noff (cpus s (hart s)) \<ge> 1" using assms(2,3) by (simp add: cpu_ok_def)
  then show ?thesis using assms by (simp add: release_ok)
qed

lemma free_upd_id [simp]: "unlocked l s \<Longrightarrow> (locks s)(l := free_lock) = locks s"
  by (simp add: fun_upd_idem)

lemma myproc_ok [simp]:
  "hart_ok s \<Longrightarrow> myproc s = Ok (cproc (cpus s (hart s)), s\<lparr>cpus := bumped (cpus s) (hart s)\<rparr>)"
  by (simp add: myproc_def push_off_pushed Let_def mycpu_def cpuid_def pop_off_popped cpu_ok_def)

end
