(* ===== verification/Kstring.thy ===== *)
theory Kstring
  imports Prelude
begin

unbundle bit_operations_syntax

text \<open>
  kernel/string.c. The block functions act on byte memory; the \<open>n\<close> of the source is a
  32-bit \<open>uint\<close> (\<open>int\<close> for the string copies). The string functions read a
  NUL-terminated string from memory; their loops are bounded by \<open>n\<close>, except
  \<open>strlen\<close>, which runs until the NUL and gets fuel.
\<close>

section \<open>Definitions\<close>

primrec memset_loop :: "nat \<Rightarrow> u64 \<Rightarrow> u8 \<Rightarrow> memory \<Rightarrow> memory" where
  "memset_loop 0 d c m = m"
| "memset_loop (Suc k) d c m = memset_loop k (d + 1) c (m(d := c))"

definition memset :: "u64 \<Rightarrow> u32 \<Rightarrow> u32 \<Rightarrow> memory \<Rightarrow> memory" where
  "memset dst c n m = memset_loop (unat n) dst (ucast c) m"

primrec memcmp_loop :: "nat \<Rightarrow> u64 \<Rightarrow> u64 \<Rightarrow> memory \<Rightarrow> int" where
  "memcmp_loop 0 s1 s2 m = 0"
| "memcmp_loop (Suc k) s1 s2 m =
     (if m s1 \<noteq> m s2 then uint (m s1) - uint (m s2) else memcmp_loop k (s1 + 1) (s2 + 1) m)"

definition memcmp :: "u64 \<Rightarrow> u64 \<Rightarrow> u32 \<Rightarrow> memory \<Rightarrow> int" where
  "memcmp v1 v2 n m = memcmp_loop (unat n) v1 v2 m"

primrec copy_up :: "nat \<Rightarrow> u64 \<Rightarrow> u64 \<Rightarrow> memory \<Rightarrow> memory" where
  "copy_up 0 d s m = m"
| "copy_up (Suc k) d s m = copy_up k (d + 1) (s + 1) (m(d := m s))"

primrec copy_down :: "nat \<Rightarrow> u64 \<Rightarrow> u64 \<Rightarrow> memory \<Rightarrow> memory" where
  "copy_down 0 d s m = m"
| "copy_down (Suc k) d s m = copy_down k (d - 1) (s - 1) (m(d - 1 := m (s - 1)))"

definition memmove :: "u64 \<Rightarrow> u64 \<Rightarrow> u32 \<Rightarrow> memory \<Rightarrow> memory" where
  "memmove dst src n m =
     (if n = 0 then m
      else if src < dst \<and> dst < src + ucast n
      then copy_down (unat n) (dst + ucast n) (src + ucast n) m
      else copy_up (unat n) dst src m)"

definition memcpy :: "u64 \<Rightarrow> u64 \<Rightarrow> u32 \<Rightarrow> memory \<Rightarrow> memory" where
  "memcpy dst src n m = memmove dst src n m"

primrec strncmp_loop :: "nat \<Rightarrow> u64 \<Rightarrow> u64 \<Rightarrow> memory \<Rightarrow> int" where
  "strncmp_loop 0 p q m = 0"
| "strncmp_loop (Suc k) p q m =
     (if m p \<noteq> 0 \<and> m p = m q then strncmp_loop k (p + 1) (q + 1) m
      else uint (m p) - uint (m q))"

definition strncmp :: "u64 \<Rightarrow> u64 \<Rightarrow> u32 \<Rightarrow> memory \<Rightarrow> int" where
  "strncmp p q n m = strncmp_loop (unat n) p q m"

primrec strncpy_loop :: "nat \<Rightarrow> u64 \<Rightarrow> u64 \<Rightarrow> memory \<Rightarrow> memory" where
  "strncpy_loop 0 s t m = m"
| "strncpy_loop (Suc k) s t m =
     (let m1 = m(s := m t)
      in if m t \<noteq> 0 then strncpy_loop k (s + 1) (t + 1) m1 else memset_loop k (s + 1) 0 m1)"

definition strncpy :: "u64 \<Rightarrow> u64 \<Rightarrow> int \<Rightarrow> memory \<Rightarrow> memory" where
  "strncpy s t n m = strncpy_loop (nat n) s t m"

primrec safestrcpy_loop :: "nat \<Rightarrow> u64 \<Rightarrow> u64 \<Rightarrow> memory \<Rightarrow> memory" where
  "safestrcpy_loop 0 s t m = m(s := 0)"
| "safestrcpy_loop (Suc k) s t m =
     (let m1 = m(s := m t)
      in if m t \<noteq> 0 then safestrcpy_loop k (s + 1) (t + 1) m1 else m1(s + 1 := 0))"

definition safestrcpy :: "u64 \<Rightarrow> u64 \<Rightarrow> int \<Rightarrow> memory \<Rightarrow> memory" where
  "safestrcpy s t n m = (if n \<le> 0 then m else safestrcpy_loop (nat (n - 1)) s t m)"

primrec strlen_fuel :: "nat \<Rightarrow> u64 \<Rightarrow> memory \<Rightarrow> nat option" where
  "strlen_fuel 0 s m = None"
| "strlen_fuel (Suc k) s m = (if m s = 0 then Some 0 else map_option Suc (strlen_fuel k (s + 1) m))"

section \<open>Closed forms\<close>

lemma unat_m1: "unat (- 1 :: u64) = 2 ^ 64 - 1"
  by (simp add: unsigned_minus_1_eq_mask mask_eq_exp_minus_1)

lemma unat_sub_one:
  fixes x d :: u64
  shows "x \<noteq> d \<Longrightarrow> unat (x - d) = Suc (unat (x - (d + 1)))"
proof -
  assume "x \<noteq> d"
  then have "x - d \<noteq> 0" by simp
  then have "unat (x - d - 1) = unat (x - d) - 1" and "0 < unat (x - d)"
    by (rule unat_minus_one, simp add: unat_gt_0)
  moreover have "x - d - 1 = x - (d + 1)" by simp
  ultimately show ?thesis by simp
qed

lemma memset_loop_closed:
  "n \<le> 2 ^ 64 \<Longrightarrow> memset_loop n d c m x = (if unat (x - d) < n then c else m x)"
proof (induction n arbitrary: d m)
  case 0
  then show ?case by simp
next
  case (Suc k)
  show ?case
  proof (cases "x = d")
    case True
    have "unat (x - (d + 1)) = 2 ^ 64 - 1"
      using True by (simp add: unat_m1)
    then have "\<not> unat (x - (d + 1)) < k" using Suc.prems by simp
    with True Suc show ?thesis by simp
  next
    case False
    with Suc unat_sub_one [OF False] show ?thesis by simp
  qed
qed

lemma memset_closed: "memset d c n m x = (if unat (x - d) < unat n then ucast c else m x)"
proof -
  have "unat n < 2 ^ 32" using unsigned_less [of n, where ?'a = nat] by simp
  then have "unat n \<le> 2 ^ 64" by simp
  then show ?thesis unfolding memset_def by (rule memset_loop_closed)
qed

text \<open>
  Both copy loops are the whole-block copy as long as the direction fits the overlap; addresses
  do not run past the end of the address space.
\<close>

lemma copy_up_closed:
  assumes "unat d + n \<le> 2 ^ 64" and "unat s + n \<le> 2 ^ 64"
    and "d \<le> s \<or> unat s + n \<le> unat d"
  shows "copy_up n d s m x = (if unat (x - d) < n then m (s + (x - d)) else m x)"
  using assms
proof (induction n arbitrary: d s m)
  case 0
  then show ?case by simp
next
  case (Suc k)
  show ?case
  proof (cases "k = 0")
    case True
    then show ?thesis by (auto simp: unat_eq_zero)
  next
    case False
    then have d1: "unat (d + 1) = unat d + 1" and s1: "unat (s + 1) = unat s + 1"
      using Suc.prems by (simp_all add: unat_word_ariths)
    then have ov: "d + 1 \<le> s + 1 \<or> unat (s + 1) + k \<le> unat (d + 1)"
      using Suc.prems(3) by (auto simp: word_le_nat_alt)
    have IH: "copy_up k (d + 1) (s + 1) (m(d := m s)) x =
        (if unat (x - (d + 1)) < k then (m(d := m s)) (s + 1 + (x - (d + 1))) else (m(d := m s)) x)"
      using Suc.prems d1 s1 ov by (intro Suc.IH) auto
    show ?thesis
    proof (cases "x = d")
      case True
      then have "\<not> unat (x - (d + 1)) < k" using Suc.prems(1) by (simp add: unat_m1)
      with True IH show ?thesis by simp
    next
      case False
      have ne: "s + (x - d) \<noteq> d" if "unat (x - d) < Suc k"
      proof
        assume e: "s + (x - d) = d"
        have "unat (s + (x - d)) = unat s + unat (x - d)"
          using that Suc.prems(2) by (simp add: unat_word_ariths)
        then have sum: "unat s + unat (x - d) = unat d" unfolding e by simp
        have "0 < unat (x - d)" using False by (simp add: unat_gt_0)
        with sum that Suc.prems(3) show False by (auto simp: word_le_nat_alt)
      qed
      from False IH unat_sub_one [OF False] ne show ?thesis by (auto simp: algebra_simps)
    qed
  qed
qed

lemma unat_off_eq:
  fixes x d :: u64
  assumes "k < 2 ^ 64"
  shows "unat (x - d) = k \<longleftrightarrow> x = d + of_nat k"
proof
  assume "unat (x - d) = k"
  then have "x - d = of_nat k" by (metis of_nat_unat ucast_id)
  then show "x = d + of_nat k" by (simp add: algebra_simps)
next
  assume "x = d + of_nat k"
  then show "unat (x - d) = k" using assms by (simp add: unat_of_nat)
qed

lemma copy_down_closed:
  assumes "unat d + n \<le> 2 ^ 64" and "s < d"
  shows "copy_down n (d + of_nat n) (s + of_nat n) m x =
    (if unat (x - d) < n then m (s + (x - d)) else m x)"
  using assms(1)
proof (induction n arbitrary: m)
  case 0
  then show ?case by simp
next
  case (Suc k)
  have k: "k < 2 ^ 64" using Suc.prems by simp
  define m' where "m' = m(d + of_nat k := m (s + of_nat k))"
  have step: "copy_down (Suc k) (d + of_nat (Suc k)) (s + of_nat (Suc k)) m x =
      copy_down k (d + of_nat k) (s + of_nat k) m' x"
    by (simp add: m'_def)
  have IH: "copy_down k (d + of_nat k) (s + of_nat k) m' x =
      (if unat (x - d) < k then m' (s + (x - d)) else m' x)"
    using Suc by simp
  have ne: "s + (x - d) \<noteq> d + of_nat k" if "unat (x - d) < k"
  proof
    have "unat s < unat d" using assms(2) by (simp add: word_less_nat_alt)
    then have u: "unat (s + (x - d)) = unat s + unat (x - d)" and v: "unat (d + of_nat k) = unat d + k"
      using that Suc.prems by (simp_all add: unat_word_ariths unat_of_nat)
    assume "s + (x - d) = d + of_nat k"
    then have "unat s + unat (x - d) = unat d + k" using u v by metis
    with \<open>unat s < unat d\<close> that show False by simp
  qed
  show ?case
  proof (cases "x = d + of_nat k")
    case True
    then have "unat (x - d) = k" using unat_off_eq [OF k] by blast
    then show ?thesis unfolding step IH using True by (simp add: m'_def)
  next
    case False
    then have "unat (x - d) \<noteq> k" using unat_off_eq [OF k] by blast
    then show ?thesis unfolding step IH using ne False by (auto simp: m'_def)
  qed
qed

text \<open>
  \<open>memmove\<close> copies the block as it was before the call, whatever the overlap.
\<close>

lemma memmove_closed:
  assumes "unat d + unat n \<le> 2 ^ 64" and "unat s + unat n \<le> 2 ^ 64"
  shows "memmove d s n m x = (if unat (x - d) < unat n then m (s + (x - d)) else m x)"
proof (cases "n = 0")
  case True
  then show ?thesis by (simp add: memmove_def)
next
  case False
  have cn: "unat (ucast n :: u64) = unat n"
    using unsigned_less [of n, where ?'a = nat] by (simp add: unsigned_ucast_eq take_bit_nat_eq_self)
  show ?thesis
  proof (cases "s < d \<and> d < s + ucast n")
    case True
    then have "memmove d s n m x = copy_down (unat n) (d + ucast n) (s + ucast n) m x"
      using False by (simp add: memmove_def)
    also have "\<dots> = (if unat (x - d) < unat n then m (s + (x - d)) else m x)"
      using copy_down_closed [OF assms(1), of s m x] True by simp
    finally show ?thesis .
  next
    case down: False
    have "d \<le> s \<or> unat s + unat n \<le> unat d"
    proof (cases "unat s + unat n < 2 ^ 64")
      case True
      then have "unat (s + ucast n) = unat s + unat n"
        by (simp add: cn unat_word_ariths)
      with down show ?thesis by (auto simp: word_less_nat_alt word_le_nat_alt)
    next
      case full: False
      with assms have "unat d \<le> unat s" by simp
      then show ?thesis by (simp add: word_le_nat_alt)
    qed
    moreover have "memmove d s n m x = copy_up (unat n) d s m x"
      using False down by (auto simp: memmove_def)
    ultimately show ?thesis
      using copy_up_closed [OF assms] by simp
  qed
qed

end
