(* ===== verification/Kalloc.thy ===== *)
theory Kalloc
  imports Spinlock Kstring
begin

unbundle bit_operations_syntax

text \<open>
  kernel/kalloc.c: the physical page allocator with a reference count per page. The free list is
  kept as in the code, a linked list through the first eight bytes of each free page of byte
  memory. \<open>kend\<close> is the linker symbol \<open>end\<close>.
\<close>

section \<open>State and operations\<close>

record kstate = hstate +
  mem :: memory
  freelist :: u64
  no_of_ref_array :: "u64 \<Rightarrow> u32"
  kend :: u64

definition ref_idx :: "u64 \<Rightarrow> u64" where
  "ref_idx pa = drop_bit 12 pa"

definition ref_count :: "'a kstate_scheme \<Rightarrow> u64 \<Rightarrow> u32" where
  "ref_count s pa = no_of_ref_array s (ref_idx pa)"

definition set_ref :: "u64 \<Rightarrow> u32 \<Rightarrow> 'a kstate_scheme \<Rightarrow> 'a kstate_scheme" where
  "set_ref pa v s = s\<lparr>no_of_ref_array := (no_of_ref_array s)(ref_idx pa := v)\<rparr>"

text \<open>The array has \<open>PHYSTOP >> 12\<close> entries; an index past its end is undefined.\<close>

definition increase_no_of_ref :: "u64 \<Rightarrow> 'a kstate_scheme \<Rightarrow> ('a kstate_scheme) res" where
  "increase_no_of_ref pa s =
     bnd (acquire RefLock s) (\<lambda>s1.
       if ref_idx pa \<ge> drop_bit 12 PHYSTOP then Err (Undef ''no_of_ref_array'')
       else release RefLock (set_ref pa (ref_count s1 pa + 1) s1))"

definition push_free :: "u64 \<Rightarrow> 'a kstate_scheme \<Rightarrow> ('a kstate_scheme) res" where
  "push_free r s =
     bnd (acquire KmemLock s) (\<lambda>s1.
       release KmemLock (s1\<lparr>mem := st64 r (freelist s1) (mem s1), freelist := r\<rparr>))"

definition kfree :: "u64 \<Rightarrow> 'a kstate_scheme \<Rightarrow> ('a kstate_scheme) res" where
  "kfree pa s =
     (if pa mod PGSIZE \<noteq> 0 \<or> pa < kend s \<or> pa \<ge> PHYSTOP then Err (Panic ''kfree'')
      else bnd (acquire RefLock s) (\<lambda>s1.
        let s2 = set_ref pa (ref_count s1 pa - 1) s1
        in if ref_count s2 pa > 0 then release RefLock s2
           else bnd (release RefLock (set_ref pa 0 s2)) (\<lambda>s3.
             push_free pa (s3\<lparr>mem := memset pa 1 4096 (mem s3)\<rparr>))))"

definition kalloc :: "'a kstate_scheme \<Rightarrow> (u64 \<times> 'a kstate_scheme) res" where
  "kalloc s =
     bnd (acquire KmemLock s) (\<lambda>s1.
       let r = freelist s1;
           s2 = (if r \<noteq> 0 then s1\<lparr>freelist := ld64 (mem s1) r\<rparr> else s1)
       in bnd (release KmemLock s2) (\<lambda>s3.
         if r \<noteq> 0 then
           bnd (acquire RefLock (s3\<lparr>mem := memset r 5 4096 (mem s3)\<rparr>)) (\<lambda>s4.
           bnd (release RefLock (set_ref r 1 s4)) (\<lambda>s5. Ok (r, s5)))
         else Ok (r, s3)))"

text \<open>The two loops step a pointer by a page; pointer overflow is undefined.\<close>

lemma page_loop_decreases:
  fixes p q :: u64
  assumes "\<not> p + PGSIZE < p" and "p + PGSIZE \<le> q"
  shows "unat (q - (p + PGSIZE)) < unat (q - p)"
proof -
  have lt: "unat p < 2 ^ 64" using unsigned_less [of p, where ?'a = nat] by simp
  have "unat p + 4096 < 2 ^ 64"
  proof (rule ccontr)
    assume ge: "\<not> unat p + 4096 < 2 ^ 64"
    then have "(unat p + 4096) mod 2 ^ 64 = unat p + 4096 - 2 ^ 64"
      using lt by (simp add: le_mod_geq)
    with ge lt assms(1) show False by (simp add: PGSIZE_def word_less_nat_alt unat_word_ariths)
  qed
  then have u: "unat (p + PGSIZE) = unat p + 4096" by (simp add: PGSIZE_def unat_word_ariths)
  then have "unat p + 4096 \<le> unat q" using assms(2) by (simp add: word_le_nat_alt)
  moreover from this have "p \<le> q" by (simp add: word_le_nat_alt)
  ultimately show ?thesis using assms(2) u by (simp add: unat_sub)
qed

function initialize_no_of_ref_array ::
    "u64 \<Rightarrow> u64 \<Rightarrow> 'a kstate_scheme \<Rightarrow> ('a kstate_scheme) res" where
  "initialize_no_of_ref_array p pa_end s =
     (if p + PGSIZE < p then Err (Undef ''pointer overflow'')
      else if p + PGSIZE \<le> pa_end
      then bnd (bnd (acquire RefLock s) (\<lambda>s1. release RefLock (set_ref p 0 s1)))
             (initialize_no_of_ref_array (p + PGSIZE) pa_end)
      else Ok s)"
  by pat_completeness auto
termination
  by (relation "measure (\<lambda>(p, q, s). unat (q - p))") (auto intro: page_loop_decreases)

function freerange_loop :: "u64 \<Rightarrow> u64 \<Rightarrow> 'a kstate_scheme \<Rightarrow> ('a kstate_scheme) res" where
  "freerange_loop p pa_end s =
     (if p + PGSIZE < p then Err (Undef ''pointer overflow'')
      else if p + PGSIZE \<le> pa_end
      then bnd (push_free p (s\<lparr>mem := memset p 1 4096 (mem s)\<rparr>)) (freerange_loop (p + PGSIZE) pa_end)
      else Ok s)"
  by pat_completeness auto
termination
  by (relation "measure (\<lambda>(p, q, s). unat (q - p))") (auto intro: page_loop_decreases)

declare initialize_no_of_ref_array.simps [simp del] freerange_loop.simps [simp del]

definition freerange :: "u64 \<Rightarrow> u64 \<Rightarrow> 'a kstate_scheme \<Rightarrow> ('a kstate_scheme) res" where
  "freerange pa_start pa_end s =
     bnd (freerange_loop (PGROUNDUP pa_start) pa_end s)
       (initialize_no_of_ref_array (PGROUNDUP pa_start) pa_end)"

definition kinit :: "'a kstate_scheme \<Rightarrow> ('a kstate_scheme) res" where
  "kinit s = freerange (kend s) PHYSTOP (initlock KmemLock (initlock RefLock s))"

section \<open>The free list\<close>

primrec flist :: "memory \<Rightarrow> u64 \<Rightarrow> u64 list \<Rightarrow> bool" where
  "flist m x [] \<longleftrightarrow> x = 0"
| "flist m x (p # ps) \<longleftrightarrow> x = p \<and> p \<noteq> 0 \<and> flist m (ld64 m p) ps"

definition page_ok :: "u64 \<Rightarrow> u64 \<Rightarrow> bool" where
  "page_ok e p \<longleftrightarrow> aligned 12 p \<and> p \<noteq> 0 \<and> e \<le> p \<and> p < PHYSTOP"

definition kmem_inv :: "u64 list \<Rightarrow> 'a kstate_scheme \<Rightarrow> bool" where
  "kmem_inv ps s \<longleftrightarrow> flist (mem s) (freelist s) ps \<and> distinct ps \<and>
     (\<forall>p\<in>set ps. page_ok (kend s) p \<and> ref_count s p = 0) \<and>
     hart_ok s \<and> unlocked KmemLock s \<and> unlocked RefLock s"

lemma flist_cong:
  "(\<And>p. p \<in> set ps \<Longrightarrow> ld64 m p = ld64 m' p) \<Longrightarrow> flist m x ps = flist m' x ps"
  by (induction ps arbitrary: x) auto

lemma flist_0 [simp]: "flist m 0 ps \<longleftrightarrow> ps = []"
  by (cases ps) auto

lemma ld64_page_cong:
  assumes "aligned 12 p" and "\<And>x. page_of x = page_of p \<Longrightarrow> m x = m' x"
  shows "ld64 m p = ld64 m' p"
  by (rule ld64_cong) (use assms page_of_slot in simp)

lemma memset_page:
  assumes "aligned 12 p"
  shows "memset p c 4096 m x = (if page_of x = page_of p then ucast c else m x)"
  using block_iff [OF assms, of x] by (simp add: memset_closed page_of_def)

lemma page_ok_aligned: "page_ok e p \<Longrightarrow> aligned 12 p"
  by (simp add: page_ok_def)

lemma page_mod: "aligned 12 p \<longleftrightarrow> p mod PGSIZE = 0"
  unfolding PGSIZE_def aligned_unat by (simp add: word_unat_eq_iff unat_mod)

lemma ref_idx_inj: "aligned 12 p \<Longrightarrow> aligned 12 q \<Longrightarrow> ref_idx p = ref_idx q \<longleftrightarrow> p = q"
  using page_of_inj by (auto simp: ref_idx_def page_of_def)

lemma ref_count_set_ref:
  "ref_count (set_ref p v s) q = (if ref_idx q = ref_idx p then v else ref_count s q)"
  by (simp add: ref_count_def set_ref_def)

lemma set_ref_frame [simp]:
  "mem (set_ref p v s) = mem s" "freelist (set_ref p v s) = freelist s" "kend (set_ref p v s) = kend s"
  "hart (set_ref p v s) = hart s" "cpus (set_ref p v s) = cpus s" "locks (set_ref p v s) = locks s"
  by (simp_all add: set_ref_def)

section \<open>What allocation and freeing do\<close>

lemma kalloc_empty:
  assumes "kmem_inv [] s"
  shows "kalloc s = Ok (0, s\<lparr>cpus := bumped (cpus s) (hart s)\<rparr>)"
  using assms by (simp add: kmem_inv_def kalloc_def)

lemma kalloc_state:
  assumes "kmem_inv (p # ps) s"
  shows "kalloc s = Ok (p, s\<lparr>cpus := bumped (cpus s) (hart s), freelist := ld64 (mem s) p,
      mem := memset p 5 4096 (mem s), no_of_ref_array := (no_of_ref_array s)(ref_idx p := 1)\<rparr>)"
  using assms by (simp add: kmem_inv_def kalloc_def set_ref_def)

lemma memset_page_ld64:
  assumes "aligned 12 p" and "aligned 12 q" and "p \<noteq> q"
  shows "ld64 (memset p c 4096 m) q = ld64 m q"
  using assms page_of_inj by (intro ld64_page_cong) (auto simp: memset_page)

lemma kmem_inv_kalloc:
  assumes inv: "kmem_inv (p # ps) s" and k: "kalloc s = Ok (r, s')"
  shows "r = p \<and> kmem_inv ps s' \<and> ref_count s' p = 1 \<and> kend s' = kend s \<and>
    (\<forall>x. page_of x \<noteq> page_of p \<longrightarrow> mem s' x = mem s x) \<and>
    (\<forall>q. ref_idx q \<noteq> ref_idx p \<longrightarrow> ref_count s' q = ref_count s q)"
proof -
  have s': "s' = s\<lparr>cpus := bumped (cpus s) (hart s), freelist := ld64 (mem s) p,
      mem := memset p 5 4096 (mem s), no_of_ref_array := (no_of_ref_array s)(ref_idx p := 1)\<rparr>"
    and r: "r = p"
    using k kalloc_state [OF inv] by auto
  have al: "aligned 12 p" and ne: "\<forall>q\<in>set ps. aligned 12 q \<and> p \<noteq> q"
    using inv by (auto simp: kmem_inv_def page_ok_def)
  have "flist (memset p 5 4096 (mem s)) (ld64 (mem s) p) ps = flist (mem s) (ld64 (mem s) p) ps"
    using al ne by (intro flist_cong memset_page_ld64) auto
  moreover have "\<forall>q\<in>set ps. ref_idx q \<noteq> ref_idx p"
    using al ne ref_idx_inj by blast
  ultimately have "kmem_inv ps s'"
    using inv by (auto simp: kmem_inv_def s' ref_count_def)
  with r al show ?thesis by (auto simp: s' ref_count_def memset_page)
qed

lemma kfree_shared:
  assumes "hart_ok s" and "unlocked RefLock s" and "page_ok (kend s) p" and "1 < ref_count s p"
  shows "kfree p s = Ok (s\<lparr>cpus := bumped (cpus s) (hart s),
      no_of_ref_array := (no_of_ref_array s)(ref_idx p := ref_count s p - 1)\<rparr>)"
proof -
  have "p mod PGSIZE = 0" "\<not> p < kend s" "\<not> PHYSTOP \<le> p"
    using assms(3) by (auto simp: page_ok_def page_mod)
  moreover have "0 < ref_count s p - 1"
    using assms(4) by (auto simp: word_gt_0)
  ultimately show ?thesis
    using assms(1,2) by (simp add: kfree_def Let_def set_ref_def ref_count_def)
qed

lemma kfree_last:
  assumes "hart_ok s" and "unlocked RefLock s" and "unlocked KmemLock s"
    and "page_ok (kend s) p" and "ref_count s p = 1"
  shows "kfree p s = Ok (s\<lparr>cpus := bumped (cpus s) (hart s),
      no_of_ref_array := (no_of_ref_array s)(ref_idx p := 0),
      mem := st64 p (freelist s) (memset p 1 4096 (mem s)), freelist := p\<rparr>)"
proof -
  have "p mod PGSIZE = 0" "\<not> p < kend s" "\<not> PHYSTOP \<le> p"
    using assms(4) by (auto simp: page_ok_def page_mod)
  with assms(1-3,5) show ?thesis
    by (simp add: kfree_def push_free_def Let_def set_ref_def ref_count_def)
qed

lemma kmem_inv_kfree_last:
  assumes inv: "kmem_inv ps s" and ok: "page_ok (kend s) p" and one: "ref_count s p = 1"
    and k: "kfree p s = Ok s'"
  shows "kmem_inv (p # ps) s' \<and> kend s' = kend s \<and>
    (\<forall>x. page_of x \<noteq> page_of p \<longrightarrow> mem s' x = mem s x) \<and>
    (\<forall>q. ref_idx q \<noteq> ref_idx p \<longrightarrow> ref_count s' q = ref_count s q)"
proof -
  have s': "s' = s\<lparr>cpus := bumped (cpus s) (hart s),
      no_of_ref_array := (no_of_ref_array s)(ref_idx p := 0),
      mem := st64 p (freelist s) (memset p 1 4096 (mem s)), freelist := p\<rparr>"
    using k kfree_last [of s p] inv ok one by (simp add: kmem_inv_def)
  have al: "aligned 12 p" "aligned 3 p" and nz: "p \<noteq> 0"
    using ok aligned_mono [of 12 p 3] by (auto simp: page_ok_def)
  have ne: "\<forall>q\<in>set ps. aligned 12 q \<and> p \<noteq> q"
    using inv one by (auto simp: kmem_inv_def page_ok_def)
  have frame: "mem s' x = mem s x" if "page_of x \<noteq> page_of p" for x
    using that al by (simp add: s' st64_other_page memset_page)
  have "flist (mem s') (freelist s) ps = flist (mem s) (freelist s) ps"
    using al ne frame page_of_inj by (intro flist_cong ld64_page_cong) metis+
  moreover have "ld64 (mem s') p = freelist s" by (simp add: s')
  moreover have "\<forall>q\<in>set ps. ref_idx q \<noteq> ref_idx p"
    using al ne ref_idx_inj by blast
  ultimately have "kmem_inv (p # ps) s'"
    using inv ok ne nz by (auto simp: kmem_inv_def s' ref_count_def)
  with frame show ?thesis by (auto simp: s' ref_count_def)
qed

lemma kfree_panic:
  "\<not> (aligned 12 p \<and> kend s \<le> p \<and> p < PHYSTOP) \<Longrightarrow> kfree p s = Err (Panic ''kfree'')"
  unfolding kfree_def page_mod by (metis not_le)

text \<open>
  Freeing a page whose count is already 0 wraps the count to \<open>2\<^sup>32 - 1\<close>: the page is
  neither returned to the free list nor reported.
\<close>

lemma kfree_zero:
  assumes "hart_ok s" and "unlocked RefLock s" and "page_ok (kend s) p" and "ref_count s p = 0"
  shows "kfree p s = Ok (s\<lparr>cpus := bumped (cpus s) (hart s),
      no_of_ref_array := (no_of_ref_array s)(ref_idx p := - 1)\<rparr>)"
proof -
  have "p mod PGSIZE = 0" "\<not> p < kend s" "\<not> PHYSTOP \<le> p"
    using assms(3) by (auto simp: page_ok_def page_mod)
  with assms show ?thesis
    by (simp add: kfree_def Let_def set_ref_def ref_count_def word_gt_0)
qed

section \<open>Boot: kinit builds the free list\<close>

definition pages_between :: "u64 \<Rightarrow> u64 \<Rightarrow> u64 set" where
  "pages_between p q = {x. aligned 12 x \<and> p \<le> x \<and> unat x + 4096 \<le> unat q}"

lemma PHYSTOP_nat [simp]: "unat PHYSTOP = 2281701376"
  by (simp add: PHYSTOP_def KERNBASE_def)

lemma page_step_nat: "p \<le> PHYSTOP \<Longrightarrow> unat (p + PGSIZE) = unat p + 4096"
  by (simp add: PGSIZE_def unat_word_ariths word_le_nat_alt)

lemma aligned_page_step: "aligned 12 p \<Longrightarrow> aligned 12 (p + PGSIZE)"
proof -
  have "aligned 12 PGSIZE" by (simp add: PGSIZE_def aligned_unat)
  then show "aligned 12 p \<Longrightarrow> ?thesis" using aligned_add_block by simp
qed

lemma pages_between_step:
  assumes "aligned 12 p" and "p \<le> PHYSTOP" and "p + PGSIZE \<le> q"
  shows "pages_between p q = insert p (pages_between (p + PGSIZE) q)"
proof -
  have u: "unat (p + PGSIZE) = unat p + 4096" using assms(2) by (rule page_step_nat)
  have "x = p \<or> unat p + 4096 \<le> unat x" if x: "aligned 12 x" "p \<le> x" for x
  proof (cases "unat x < unat p + 4096")
    case True
    then have "unat (x - p) < 2 ^ 12" using x(2) by (simp add: unat_sub word_le_nat_alt)
    then have "drop_bit 12 x = drop_bit 12 p" using block_iff [OF assms(1)] by simp
    then show ?thesis using aligned_eqI [OF x(1) assms(1)] by simp
  qed simp
  with assms u show ?thesis by (auto simp: pages_between_def word_le_nat_alt)
qed

lemma pages_between_empty: "p \<le> PHYSTOP \<Longrightarrow> \<not> p + PGSIZE \<le> q \<Longrightarrow> pages_between p q = {}"
  using page_step_nat [of p] by (auto simp: pages_between_def word_le_nat_alt)

lemma push_free_state:
  assumes "hart_ok s" and "unlocked KmemLock s"
  shows "push_free p s = Ok (s\<lparr>cpus := bumped (cpus s) (hart s),
    mem := st64 p (freelist s) (mem s), freelist := p\<rparr>)"
  using assms by (simp add: push_free_def)

lemma flist_push:
  assumes fl: "flist m x ps" and al: "\<forall>q\<in>set ps. aligned 12 q \<and> q \<noteq> p" "aligned 12 p" and nz: "p \<noteq> 0"
  shows "flist (st64 p x (memset p c 4096 m)) p (p # ps)"
proof -
  have "st64 p x (memset p c 4096 m) y = m y" if "q \<in> set ps" "page_of y = page_of q" for q y
  proof -
    have "page_of y \<noteq> page_of p" using that al page_of_inj by metis
    moreover have "aligned 3 p" using al(2) by (rule aligned_mono) simp
    ultimately show ?thesis using al(2) by (simp add: st64_other_page memset_page)
  qed
  then have "flist (st64 p x (memset p c 4096 m)) x ps = flist m x ps"
    using al by (intro flist_cong ld64_page_cong) auto
  with fl nz show ?thesis by simp
qed

text \<open>The state both boot loops keep, apart from the list.\<close>

definition boot_ok :: "'a kstate_scheme \<Rightarrow> bool" where
  "boot_ok s \<longleftrightarrow> hart_ok s \<and> unlocked KmemLock s \<and> unlocked RefLock s"

lemma freerange_loop_spec:
  assumes "aligned 12 p" "0 < p" "p \<le> PHYSTOP" "q \<le> PHYSTOP" "boot_ok s"
    and "flist (mem s) (freelist s) ps" "distinct ps" "\<forall>x\<in>set ps. aligned 12 x \<and> x < p"
  shows "\<exists>s' ps'. freerange_loop p q s = Ok s' \<and> flist (mem s') (freelist s') ps' \<and> distinct ps' \<and>
    set ps' = set ps \<union> pages_between p q \<and> boot_ok s' \<and> kend s' = kend s"
  using assms
proof (induction p q s arbitrary: ps rule: freerange_loop.induct)
  case (1 p q s)
  have nw: "\<not> p + PGSIZE < p"
    using page_step_nat [OF "1.prems"(3)] by (simp add: word_less_nat_alt)
  show ?case
  proof (cases "p + PGSIZE \<le> q")
    case False
    with 1 nw pages_between_empty show ?thesis
      by (subst freerange_loop.simps) (auto simp: freerange_loop.simps)
  next
    case True
    let ?s = "s\<lparr>cpus := bumped (cpus s) (hart s),
      mem := st64 p (freelist s) (memset p 1 4096 (mem s)), freelist := p\<rparr>"
    have pf: "push_free p (s\<lparr>mem := memset p 1 4096 (mem s)\<rparr>) = Ok ?s"
      using "1.prems"(5) by (simp add: push_free_state boot_ok_def)
    have u: "unat (p + PGSIZE) = unat p + 4096" using "1.prems"(3) by (rule page_step_nat)
    have fl: "flist (mem ?s) (freelist ?s) (p # ps)"
      using flist_push [OF "1.prems"(6), of p 1] "1.prems" by (auto simp del: flist.simps)
    have "\<exists>s' ps'. freerange_loop (p + PGSIZE) q ?s = Ok s' \<and> flist (mem s') (freelist s') ps' \<and>
       distinct ps' \<and> set ps' = set (p # ps) \<union> pages_between (p + PGSIZE) q \<and> boot_ok s' \<and> kend s' = kend ?s"
    proof (rule "1.IH" [OF nw True pf _ _ _ _ _ fl])
      show "aligned 12 (p + PGSIZE)" using "1.prems"(1) by (rule aligned_page_step)
      show "0 < p + PGSIZE" "p + PGSIZE \<le> PHYSTOP"
        using u True "1.prems"(4) by (auto simp: word_less_nat_alt word_le_nat_alt)
      show "q \<le> PHYSTOP" "boot_ok ?s" using "1.prems" by (simp_all add: boot_ok_def)
      show "distinct (p # ps)" "\<forall>x\<in>set (p # ps). aligned 12 x \<and> x < p + PGSIZE"
        using "1.prems" u by (auto simp: word_less_nat_alt)
    qed
    then show ?thesis
      using nw True pf pages_between_step [OF "1.prems"(1,3) True]
      by (subst freerange_loop.simps) auto
  qed
qed

lemma init_ref_state:
  assumes "boot_ok s"
  shows "bnd (acquire RefLock s) (\<lambda>s1. release RefLock (set_ref p 0 s1)) =
    Ok (s\<lparr>cpus := bumped (cpus s) (hart s), no_of_ref_array := (no_of_ref_array s)(ref_idx p := 0)\<rparr>)"
  using assms by (simp add: boot_ok_def set_ref_def)

lemma initialize_no_of_ref_array_spec:
  assumes "aligned 12 p" "p \<le> PHYSTOP" "q \<le> PHYSTOP" "boot_ok s"
  shows "\<exists>s'. initialize_no_of_ref_array p q s = Ok s' \<and> boot_ok s' \<and> mem s' = mem s \<and>
    freelist s' = freelist s \<and> kend s' = kend s \<and>
    (\<forall>x. aligned 12 x \<longrightarrow> ref_count s' x = (if x \<in> pages_between p q then 0 else ref_count s x))"
  using assms
proof (induction p q s rule: initialize_no_of_ref_array.induct)
  case (1 p q s)
  have nw: "\<not> p + PGSIZE < p"
    using page_step_nat [OF "1.prems"(2)] by (simp add: word_less_nat_alt)
  show ?case
  proof (cases "p + PGSIZE \<le> q")
    case False
    with 1 nw pages_between_empty show ?thesis
      by (subst initialize_no_of_ref_array.simps) (auto simp: initialize_no_of_ref_array.simps)
  next
    case True
    let ?s = "s\<lparr>cpus := bumped (cpus s) (hart s), no_of_ref_array := (no_of_ref_array s)(ref_idx p := 0)\<rparr>"
    note st = init_ref_state [OF "1.prems"(4), of p]
    have u: "unat (p + PGSIZE) = unat p + 4096" using "1.prems"(2) by (rule page_step_nat)
    have "\<exists>s'. initialize_no_of_ref_array (p + PGSIZE) q ?s = Ok s' \<and> boot_ok s' \<and> mem s' = mem ?s \<and>
      freelist s' = freelist ?s \<and> kend s' = kend ?s \<and>
      (\<forall>x. aligned 12 x \<longrightarrow> ref_count s' x =
         (if x \<in> pages_between (p + PGSIZE) q then 0 else ref_count ?s x))"
    proof (rule "1.IH" [OF nw True st])
      show "aligned 12 (p + PGSIZE)" using "1.prems"(1) by (rule aligned_page_step)
      show "p + PGSIZE \<le> PHYSTOP" "q \<le> PHYSTOP" "boot_ok ?s"
        using True "1.prems" by (auto simp: boot_ok_def)
    qed
    then obtain s' where s': "initialize_no_of_ref_array (p + PGSIZE) q ?s = Ok s'" "boot_ok s'"
      "mem s' = mem s" "freelist s' = freelist s" "kend s' = kend s"
      and rc: "\<And>x. aligned 12 x \<Longrightarrow> ref_count s' x =
         (if x \<in> pages_between (p + PGSIZE) q then 0 else ref_count ?s x)"
      by auto
    have "ref_count s' x = (if x \<in> pages_between p q then 0 else ref_count s x)" if "aligned 12 x" for x
      using rc [OF that] ref_idx_inj [OF that "1.prems"(1)]
        pages_between_step [OF "1.prems"(1,2) True] by (simp add: ref_count_def)
    with s' nw True st show ?thesis
      by (subst initialize_no_of_ref_array.simps) auto
  qed
qed

lemma clear_low12: "unat (x AND NOT (mask 12)) = 4096 * (unat x div 4096)" for x :: u64
proof -
  have "x AND NOT (mask 12) = push_bit 12 (drop_bit 12 x)"
    by (rule bit_word_eqI) (auto simp: bit_simps)
  moreover have "4096 * (unat x div 4096) < 2 ^ 64"
    using unsigned_less [of x, where ?'a = nat] by (simp add: less_le_trans le_less_trans [OF times_div_less_eq_dividend])
  then have "unat (push_bit 12 (drop_bit 12 x)) = 4096 * (unat x div 4096)"
    by (simp add: push_bit_eq_mult unat_word_ariths unat_drop)
  ultimately show ?thesis by simp
qed

lemma PGROUNDUP_nat:
  assumes "unat a + 4095 < 2 ^ 64"
  shows "unat (PGROUNDUP a) = 4096 * ((unat a + 4095) div 4096)"
proof -
  have "unat (a + PGSIZE - 1) = unat a + 4095"
    using assms by (simp add: PGSIZE_def unat_word_ariths)
  then show ?thesis unfolding PGROUNDUP_def PGSIZE_mask by (simp only: clear_low12)
qed

lemma PGROUNDUP_ge:
  assumes "a \<le> PHYSTOP"
  shows "a \<le> PGROUNDUP a \<and> PGROUNDUP a \<le> PHYSTOP"
proof -
  have ua: "unat a \<le> 2281701376" using assms by (simp add: word_le_nat_alt)
  then have r: "unat (PGROUNDUP a) = 4096 * ((unat a + 4095) div 4096)"
    by (intro PGROUNDUP_nat) simp
  have "(unat a + 4095) div 4096 \<le> (2281701376 + 4095) div 4096"
    using ua by (intro div_le_mono) simp
  then have "unat (PGROUNDUP a) \<le> 2281701376" unfolding r by simp
  moreover have "unat a \<le> 4096 * ((unat a + 4095) div 4096)"
    using dividend_less_times_div [of 4096 "unat a + 4095"] by simp
  ultimately show ?thesis by (simp add: word_le_nat_alt r)
qed

lemma kinit_kmem_inv:
  assumes "hart_ok s" and "freelist s = 0" and "0 < kend s" and "kend s \<le> PHYSTOP"
  shows "\<exists>s' ps. kinit s = Ok s' \<and> kmem_inv ps s' \<and> kend s' = kend s \<and>
    set ps = pages_between (PGROUNDUP (kend s)) PHYSTOP"
proof -
  let ?p = "PGROUNDUP (kend s)"
  define s0 where "s0 = initlock KmemLock (initlock RefLock s)"
  have b0: "boot_ok s0" "kend s0 = kend s" "freelist s0 = 0" "mem s0 = mem s"
    using assms by (simp_all add: s0_def initlock_eq boot_ok_def)
  have ge: "kend s \<le> ?p" "?p \<le> PHYSTOP" using PGROUNDUP_ge [OF assms(4)] by auto
  then have pos: "0 < ?p" using assms(3) by (metis less_le_trans)
  obtain s1 ps where s1: "freerange_loop ?p PHYSTOP s0 = Ok s1" "flist (mem s1) (freelist s1) ps"
      "distinct ps" "set ps = pages_between ?p PHYSTOP" "boot_ok s1" "kend s1 = kend s"
    using freerange_loop_spec [of ?p PHYSTOP s0 "[]"] ge pos b0 by auto
  obtain s2 where s2: "initialize_no_of_ref_array ?p PHYSTOP s1 = Ok s2" "boot_ok s2"
      "mem s2 = mem s1" "freelist s2 = freelist s1" "kend s2 = kend s1"
      "\<And>x. x \<in> pages_between ?p PHYSTOP \<Longrightarrow> ref_count s2 x = 0"
    using initialize_no_of_ref_array_spec [of ?p PHYSTOP s1] ge s1(5) by (auto simp: pages_between_def)
  have "\<forall>x\<in>set ps. page_ok (kend s2) x"
    using s1(4,6) s2(5) ge pos by (auto simp: pages_between_def page_ok_def word_less_nat_alt word_le_nat_alt)
  then have "kmem_inv ps s2"
    using s1 s2 by (auto simp: kmem_inv_def boot_ok_def)
  with s1 s2 show ?thesis by (auto simp: kinit_def freerange_def s0_def b0 [unfolded s0_def])
qed

section \<open>The interface of the allocator\<close>

text \<open>
  What users of pages rely on: \<open>inv ps s\<close> says that \<open>ps\<close> are the free pages, \<open>alloc\<close>
  hands out the first of them (or \<open>nul\<close>), \<open>drop\<close> gives one reference back.
\<close>

locale page_pool =
  fixes inv :: "'p list \<Rightarrow> 's \<Rightarrow> bool"
    and valid :: "'s \<Rightarrow> 'p \<Rightarrow> bool"
    and cnt :: "'s \<Rightarrow> 'p \<Rightarrow> 'c"
    and one :: 'c
    and nul :: 'p
    and alloc :: "'s \<Rightarrow> ('p \<times> 's) res"
    and drop :: "'p \<Rightarrow> 's \<Rightarrow> 's res"
  assumes pool_distinct: "inv ps s \<Longrightarrow> distinct ps"
    and pool_valid: "inv ps s \<Longrightarrow> p \<in> set ps \<Longrightarrow> valid s p"
    and nul_invalid: "\<not> valid s nul"
    and alloc_nil: "inv [] s \<Longrightarrow> \<exists>s'. alloc s = Ok (nul, s') \<and> inv [] s'"
    and alloc_cons: "inv (p # ps) s \<Longrightarrow> \<exists>s'. alloc s = Ok (p, s') \<and> inv ps s' \<and> cnt s' p = one \<and>
      (\<forall>q. valid s q \<longrightarrow> valid s' q) \<and> (\<forall>q. valid s q \<longrightarrow> q \<noteq> p \<longrightarrow> cnt s' q = cnt s q)"
    and drop_last: "inv ps s \<Longrightarrow> valid s p \<Longrightarrow> cnt s p = one \<Longrightarrow> \<exists>s'. drop p s = Ok s' \<and> inv (p # ps) s' \<and>
      (\<forall>q. valid s q \<longrightarrow> valid s' q) \<and> (\<forall>q. valid s q \<longrightarrow> q \<noteq> p \<longrightarrow> cnt s' q = cnt s q)"
begin

primrec alloc_many :: "nat \<Rightarrow> 's \<Rightarrow> ('p list \<times> 's) res" where
  "alloc_many 0 s = Ok ([], s)"
| "alloc_many (Suc n) s =
     bnd (alloc s) (\<lambda>(p, s1). bnd (alloc_many n s1) (\<lambda>(qs, s2). Ok (p # qs, s2)))"

primrec drop_many :: "'p list \<Rightarrow> 's \<Rightarrow> 's res" where
  "drop_many [] s = Ok s"
| "drop_many (p # ps) s = bnd (drop p s) (drop_many ps)"

lemma alloc_many_prefix:
  "inv (ps @ qs) s \<Longrightarrow> \<exists>s'. alloc_many (length ps) s = Ok (ps, s') \<and> inv qs s' \<and>
     (\<forall>p. p \<in> set ps \<longrightarrow> cnt s' p = one) \<and> (\<forall>q. valid s q \<longrightarrow> valid s' q) \<and>
     (\<forall>q. valid s q \<longrightarrow> q \<notin> set ps \<longrightarrow> cnt s' q = cnt s q)"
proof (induction ps arbitrary: s)
  case Nil
  then show ?case by simp
next
  case (Cons p ps)
  from Cons.prems obtain s1 where s1: "alloc s = Ok (p, s1)" "inv (ps @ qs) s1" "cnt s1 p = one"
      "\<forall>q. valid s q \<longrightarrow> valid s1 q" "\<forall>q. valid s q \<longrightarrow> q \<noteq> p \<longrightarrow> cnt s1 q = cnt s q"
    using alloc_cons by fastforce
  from Cons.IH [OF s1(2)] obtain s' where s': "alloc_many (length ps) s1 = Ok (ps, s')" "inv qs s'"
      "\<forall>p. p \<in> set ps \<longrightarrow> cnt s' p = one" "\<forall>q. valid s1 q \<longrightarrow> valid s' q"
      "\<forall>q. valid s1 q \<longrightarrow> q \<notin> set ps \<longrightarrow> cnt s' q = cnt s1 q"
    by blast
  have "valid s p" using pool_valid [OF Cons.prems] by simp
  moreover have "p \<notin> set ps" using pool_distinct [OF Cons.prems] by simp
  ultimately have "cnt s' p = one" using s1 s' by metis
  with s1 s' show ?case by auto
qed

lemma drop_many_returns:
  "inv qs s \<Longrightarrow> distinct ps \<Longrightarrow> \<forall>p\<in>set ps. valid s p \<and> cnt s p = one \<Longrightarrow>
   \<exists>s'. drop_many ps s = Ok s' \<and> inv (rev ps @ qs) s'"
proof (induction ps arbitrary: qs s)
  case Nil
  then show ?case by auto
next
  case (Cons p ps)
  from Cons.prems obtain s1 where s1: "drop p s = Ok s1" "inv (p # qs) s1"
      "\<forall>q. valid s q \<longrightarrow> valid s1 q" "\<forall>q. valid s q \<longrightarrow> q \<noteq> p \<longrightarrow> cnt s1 q = cnt s q"
    using drop_last [of qs s p] by auto
  have "\<forall>q\<in>set ps. valid s1 q \<and> cnt s1 q = one"
    using Cons.prems(2,3) s1(3,4) by auto
  then obtain s' where "drop_many ps s1 = Ok s'" "inv (rev ps @ p # qs) s'"
    using Cons.IH [OF s1(2)] Cons.prems(2) by auto
  with s1 show ?case by auto
qed

text \<open>Allocating pages and dropping them again loses none of them.\<close>

lemma alloc_drop_conserves:
  assumes "inv (ps @ qs) s"
  shows "\<exists>s1 s2. alloc_many (length ps) s = Ok (ps, s1) \<and> drop_many ps s1 = Ok s2 \<and>
    inv (rev ps @ qs) s2"
proof -
  obtain s1 where s1: "alloc_many (length ps) s = Ok (ps, s1)" "inv qs s1"
      "\<forall>p. p \<in> set ps \<longrightarrow> cnt s1 p = one" "\<forall>q. valid s q \<longrightarrow> valid s1 q"
    using alloc_many_prefix [OF assms] by blast
  moreover have "distinct ps" using pool_distinct [OF assms] by simp
  moreover have "\<forall>p\<in>set ps. valid s1 p \<and> cnt s1 p = one"
    using s1 pool_valid [OF assms] by simp
  ultimately show ?thesis using drop_many_returns by blast
qed

end

lemma kalloc_nil_inv: "kmem_inv [] s \<Longrightarrow> \<exists>s'. kalloc s = Ok (0, s') \<and> kmem_inv [] s'"
  by (simp add: kalloc_empty) (simp add: kmem_inv_def)

interpretation kpool: page_pool kmem_inv "\<lambda>s. page_ok (kend s)" ref_count 1 0 kalloc kfree
proof unfold_locales
  fix p :: u64 and ps and s :: "'a kstate_scheme"
  assume inv: "kmem_inv (p # ps) s"
  from kalloc_state [OF inv] obtain s' where k: "kalloc s = Ok (p, s')" by blast
  from kmem_inv_kalloc [OF inv k] inv
  show "\<exists>s'. kalloc s = Ok (p, s') \<and> kmem_inv ps s' \<and> ref_count s' p = 1 \<and>
      (\<forall>q. page_ok (kend s) q \<longrightarrow> page_ok (kend s') q) \<and>
      (\<forall>q. page_ok (kend s) q \<longrightarrow> q \<noteq> p \<longrightarrow> ref_count s' q = ref_count s q)"
    using k ref_idx_inj by (auto simp: kmem_inv_def page_ok_def)
next
  fix p :: u64 and ps and s :: "'a kstate_scheme"
  assume inv: "kmem_inv ps s" and v: "page_ok (kend s) p" and one: "ref_count s p = 1"
  from kfree_last [of s p] inv v one obtain s' where k: "kfree p s = Ok s'"
    by (auto simp: kmem_inv_def)
  from kmem_inv_kfree_last [OF inv v one k] v
  show "\<exists>s'. kfree p s = Ok s' \<and> kmem_inv (p # ps) s' \<and>
      (\<forall>q. page_ok (kend s) q \<longrightarrow> page_ok (kend s') q) \<and>
      (\<forall>q. page_ok (kend s) q \<longrightarrow> q \<noteq> p \<longrightarrow> ref_count s' q = ref_count s q)"
    using k ref_idx_inj by (auto simp: page_ok_def)
qed (erule kalloc_nil_inv | auto simp: kmem_inv_def page_ok_def; fail)+

end
