(* ===== verification/Vm.thy ===== *)
theory Vm
  imports Kalloc
begin

unbundle bit_operations_syntax

text \<open>
  kernel/vm.c with the copy-on-write helpers of kernel/trap.c. Page tables live in byte memory as
  the hardware sees them: a page-table page is 512 little-endian 64-bit entries, and a pointer to
  an entry is its physical address. An \<open>int\<close> result is an \<open>int\<close>; a pointer result 0 is
  the null pointer.
\<close>

section \<open>Loads and stores\<close>

definition load64 :: "u64 \<Rightarrow> 'a kstate_scheme \<Rightarrow> u64" where
  "load64 a s = ld64 (mem s) a"

definition store64 :: "u64 \<Rightarrow> u64 \<Rightarrow> 'a kstate_scheme \<Rightarrow> 'a kstate_scheme" where
  "store64 a v s = s\<lparr>mem := st64 a v (mem s)\<rparr>"

definition memset_pg :: "u64 \<Rightarrow> u32 \<Rightarrow> 'a kstate_scheme \<Rightarrow> 'a kstate_scheme" where
  "memset_pg a c s = s\<lparr>mem := memset a c 4096 (mem s)\<rparr>"

section \<open>Walking and mapping\<close>

definition slot :: "u64 \<Rightarrow> nat \<Rightarrow> u64 \<Rightarrow> u64" where
  "slot pagetable level va = pagetable + 8 * PX level va"

fun walk_levels ::
    "nat \<Rightarrow> u64 \<Rightarrow> u64 \<Rightarrow> bool \<Rightarrow> 'a kstate_scheme \<Rightarrow> (u64 \<times> 'a kstate_scheme) res" where
  "walk_levels 0 pagetable va alloc s = Ok (slot pagetable 0 va, s)"
| "walk_levels (Suc l) pagetable va alloc s =
     (let pte = slot pagetable (Suc l) va; e = load64 pte s
      in if e AND PTE_V \<noteq> 0 then walk_levels l (PTE2PA e) va alloc s
         else if \<not> alloc then Ok (0, s)
         else bnd (kalloc s) (\<lambda>(p, s1).
           if p = 0 then Ok (0, s1)
           else walk_levels l p va alloc (store64 pte (PA2PTE p OR PTE_V) (memset_pg p 0 s1))))"

definition walk :: "u64 \<Rightarrow> u64 \<Rightarrow> bool \<Rightarrow> 'a kstate_scheme \<Rightarrow> (u64 \<times> 'a kstate_scheme) res" where
  "walk pagetable va alloc s =
     (if va \<ge> MAXVA then Err (Panic ''walk'') else walk_levels 2 pagetable va alloc s)"

definition walkaddr :: "u64 \<Rightarrow> u64 \<Rightarrow> 'a kstate_scheme \<Rightarrow> (u64 \<times> 'a kstate_scheme) res" where
  "walkaddr pagetable va s =
     (if va \<ge> MAXVA then Ok (0, s)
      else bnd (walk pagetable va False s) (\<lambda>(pte, s1).
        if pte = 0 then Ok (0, s1)
        else if load64 pte s1 AND PTE_V = 0 then Ok (0, s1)
        else if load64 pte s1 AND PTE_U = 0 then Ok (0, s1)
        else Ok (PTE2PA (load64 pte s1), s1)))"

text \<open>
  The loop of \<open>mappages\<close> runs from \<open>a\<close> to \<open>last\<close> in page steps; both are page
  aligned, so it makes \<open>(last - a) / PGSIZE + 1\<close> iterations.
\<close>

fun mappages_loop ::
    "nat \<Rightarrow> u64 \<Rightarrow> u64 \<Rightarrow> u64 \<Rightarrow> u64 \<Rightarrow> 'a kstate_scheme \<Rightarrow> (int \<times> 'a kstate_scheme) res" where
  "mappages_loop n pagetable a pa perm s =
     bnd (walk pagetable a True s) (\<lambda>(pte, s1).
       if pte = 0 then Ok (-1, s1)
       else if load64 pte s1 AND PTE_V \<noteq> 0 then Err (Panic ''mappages: remap'')
       else let s2 = store64 pte (PA2PTE pa OR perm OR PTE_V) s1
            in (case n of 0 \<Rightarrow> Ok (0, s2)
                | Suc k \<Rightarrow> mappages_loop k pagetable (a + PGSIZE) (pa + PGSIZE) perm s2))"

declare mappages_loop.simps [simp del]

definition mappages ::
    "u64 \<Rightarrow> u64 \<Rightarrow> u64 \<Rightarrow> u64 \<Rightarrow> u64 \<Rightarrow> 'a kstate_scheme \<Rightarrow> (int \<times> 'a kstate_scheme) res" where
  "mappages pagetable va sz pa perm s =
     (if sz = 0 then Err (Panic ''mappages: size'')
      else let a = PGROUNDDOWN va; last = PGROUNDDOWN (va + sz - 1)
           in mappages_loop (unat (last - a) div 4096) pagetable a pa perm s)"

definition kvmmap ::
    "u64 \<Rightarrow> u64 \<Rightarrow> u64 \<Rightarrow> u64 \<Rightarrow> u64 \<Rightarrow> 'a kstate_scheme \<Rightarrow> ('a kstate_scheme) res" where
  "kvmmap kpgtbl va pa sz perm s =
     bnd (mappages kpgtbl va sz pa perm s) (\<lambda>(r, s1).
       if r \<noteq> 0 then Err (Panic ''kvmmap'') else Ok s1)"

definition change_flag_from_write_to_cow :: "u64 \<Rightarrow> 'a kstate_scheme \<Rightarrow> 'a kstate_scheme" where
  "change_flag_from_write_to_cow pte s = store64 pte ((load64 pte s OR PTE_CW) AND NOT PTE_W) s"

definition change_flag_from_cow_to_write :: "u64 \<Rightarrow> 'a kstate_scheme \<Rightarrow> 'a kstate_scheme" where
  "change_flag_from_cow_to_write pte s = store64 pte ((load64 pte s OR PTE_W) AND NOT PTE_CW) s"

lemma walk_below_MAXVA: "walk pt va alloc s = Ok x \<Longrightarrow> va < MAXVA"
  by (auto simp: walk_def split: if_splits)

lemma MAXVA_nat: "unat MAXVA = 2 ^ 38"
  by (simp add: MAXVA_def push_bit_eq_mult)

lemma page_step_below_MAXVA: "a < MAXVA \<Longrightarrow> unat (a + PGSIZE) = unat a + 4096"
  by (simp add: PGSIZE_def unat_word_ariths word_less_nat_alt MAXVA_nat)

function uvmunmap_loop ::
    "u64 \<Rightarrow> u64 \<Rightarrow> u64 \<Rightarrow> bool \<Rightarrow> 'a kstate_scheme \<Rightarrow> ('a kstate_scheme) res" where
  "uvmunmap_loop pagetable a lim do_free s =
     (if a < lim then
        bnd (walk pagetable a False s) (\<lambda>(pte, s1).
          if pte = 0 then Err (Panic ''uvmunmap: walk'')
          else if load64 pte s1 AND PTE_V = 0 then Err (Panic ''uvmunmap: not mapped'')
          else if PTE_FLAGS (load64 pte s1) = PTE_V then Err (Panic ''uvmunmap: not a leaf'')
          else bnd (if do_free then kfree (PTE2PA (load64 pte s1)) s1 else Ok s1) (\<lambda>s2.
            uvmunmap_loop pagetable (a + PGSIZE) lim do_free (store64 pte 0 s2)))
      else Ok s)"
  by pat_completeness auto
termination
  by (relation "measure (\<lambda>(pt, a, lim, f, s). unat lim - unat a)")
    (auto simp: word_less_nat_alt page_step_below_MAXVA dest!: walk_below_MAXVA)

declare uvmunmap_loop.simps [simp del]

definition uvmunmap ::
    "u64 \<Rightarrow> u64 \<Rightarrow> u64 \<Rightarrow> bool \<Rightarrow> 'a kstate_scheme \<Rightarrow> ('a kstate_scheme) res" where
  "uvmunmap pagetable va npages do_free s =
     (if va mod PGSIZE \<noteq> 0 then Err (Panic ''uvmunmap: not aligned'')
      else uvmunmap_loop pagetable va (va + npages * PGSIZE) do_free s)"

definition uvmcreate :: "'a kstate_scheme \<Rightarrow> (u64 \<times> 'a kstate_scheme) res" where
  "uvmcreate s = bnd (kalloc s) (\<lambda>(p, s1). if p = 0 then Ok (0, s1) else Ok (p, memset_pg p 0 s1))"

text \<open>\<open>int npages\<close> truncates to 32 bits and is sign-extended when passed on.\<close>

definition int_cast :: "u64 \<Rightarrow> u64" where
  "int_cast x = scast (ucast x :: u32)"

definition uvmdealloc :: "u64 \<Rightarrow> u64 \<Rightarrow> u64 \<Rightarrow> 'a kstate_scheme \<Rightarrow> (u64 \<times> 'a kstate_scheme) res" where
  "uvmdealloc pagetable oldsz newsz s =
     (if newsz \<ge> oldsz then Ok (oldsz, s)
      else if PGROUNDUP newsz < PGROUNDUP oldsz then
        bnd (uvmunmap pagetable (PGROUNDUP newsz)
               (int_cast ((PGROUNDUP oldsz - PGROUNDUP newsz) div PGSIZE)) True s) (\<lambda>s1. Ok (newsz, s1))
      else Ok (newsz, s))"


section \<open>Address spaces\<close>

definition read_bytes :: "u64 \<Rightarrow> nat \<Rightarrow> memory \<Rightarrow> u8 list" where
  "read_bytes a n m = map (\<lambda>i. m (a + of_nat i)) [0..<n]"

primrec write_bytes :: "u64 \<Rightarrow> u8 list \<Rightarrow> memory \<Rightarrow> memory" where
  "write_bytes a [] m = m"
| "write_bytes a (b # bs) m = write_bytes (a + 1) bs (m(a := b))"

definition uvmfirst :: "u64 \<Rightarrow> u8 list \<Rightarrow> 'a kstate_scheme \<Rightarrow> ('a kstate_scheme) res" where
  "uvmfirst pagetable src s =
     (if length src \<ge> 4096 then Err (Panic ''uvmfirst: more than a page'')
      else bnd (kalloc s) (\<lambda>(pg, s1).
        bnd (mappages pagetable 0 PGSIZE pg (PTE_W OR PTE_R OR PTE_X OR PTE_U) (memset_pg pg 0 s1)) (\<lambda>(_, s2).
          Ok (s2\<lparr>mem := write_bytes pg src (mem s2)\<rparr>))))"

lemma mappages_page_below_MAXVA:
  "mappages pt a PGSIZE pa perm s = Ok x \<Longrightarrow> PGROUNDDOWN a < MAXVA"
  by (auto simp: mappages_def PGSIZE_def Let_def mappages_loop.simps split: if_splits
      dest!: walk_below_MAXVA)

lemma page_off_less: "unat (a - PGROUNDDOWN a) < 4096"
  using block_iff [of 12 "PGROUNDDOWN a" a] page_of_PGROUNDDOWN [of a] by (simp add: page_of_def)

lemma PGROUNDDOWN_below_MAXVA: "PGROUNDDOWN a < MAXVA \<Longrightarrow> a < MAXVA"
proof -
  assume "PGROUNDDOWN a < MAXVA"
  then have "unat (PGROUNDDOWN a) < 2 ^ 38" by (simp add: word_less_nat_alt MAXVA_nat)
  moreover have "unat (PGROUNDDOWN a) = 4096 * (unat a div 4096)"
    unfolding PGROUNDDOWN_def PGSIZE_mask by (rule clear_low12)
  ultimately have "unat a div 4096 < 2 ^ 26" by simp
  then have "unat a < 2 ^ 26 * 4096" by (simp add: div_less_iff_less_mult)
  then show ?thesis by (simp add: word_less_nat_alt MAXVA_nat)
qed

function uvmalloc_loop ::
    "u64 \<Rightarrow> u64 \<Rightarrow> u64 \<Rightarrow> u64 \<Rightarrow> u64 \<Rightarrow> 'a kstate_scheme \<Rightarrow> (u64 \<times> 'a kstate_scheme) res" where
  "uvmalloc_loop pagetable a oldsz newsz xperm s =
     (if a < newsz then
        bnd (kalloc s) (\<lambda>(pg, s1).
          if pg = 0 then bnd (uvmdealloc pagetable a oldsz s1) (\<lambda>(_, s2). Ok (0, s2))
          else bnd (mappages pagetable a PGSIZE pg (PTE_R OR PTE_U OR xperm) (memset_pg pg 0 s1)) (\<lambda>(r, s2).
            if r \<noteq> 0 then
              bnd (kfree pg s2) (\<lambda>s3. bnd (uvmdealloc pagetable a oldsz s3) (\<lambda>(_, s4). Ok (0, s4)))
            else uvmalloc_loop pagetable (a + PGSIZE) oldsz newsz xperm s2))
      else Ok (newsz, s))"
  by pat_completeness auto
termination
  by (relation "measure (\<lambda>(pt, a, old, new, x, s). unat new - unat a)")
    (auto simp: word_less_nat_alt page_step_below_MAXVA
      dest!: mappages_page_below_MAXVA PGROUNDDOWN_below_MAXVA)

declare uvmalloc_loop.simps [simp del]

definition uvmalloc ::
    "u64 \<Rightarrow> u64 \<Rightarrow> u64 \<Rightarrow> u64 \<Rightarrow> 'a kstate_scheme \<Rightarrow> (u64 \<times> 'a kstate_scheme) res" where
  "uvmalloc pagetable oldsz newsz xperm s =
     (if newsz < oldsz then Ok (oldsz, s)
      else uvmalloc_loop pagetable (PGROUNDUP oldsz) (PGROUNDUP oldsz) newsz xperm s)"

text \<open>The result of \<open>walk\<close> is used without a test: a null result is dereferenced.\<close>

definition map_new_to_old :: "u64 \<Rightarrow> u64 \<Rightarrow> u64 \<Rightarrow> 'a kstate_scheme \<Rightarrow> ('a kstate_scheme) res" where
  "map_new_to_old pte new va s =
     bnd (walk new va True s) (\<lambda>(nw_pte, s1).
       if nw_pte = 0 then Err (Undef ''map_new_to_old: null pte'')
       else Ok (store64 nw_pte (load64 pte s1) s1))"

primrec freewalk :: "nat \<Rightarrow> u64 \<Rightarrow> 'a kstate_scheme \<Rightarrow> ('a kstate_scheme) res" where
  "freewalk 0 pagetable s = Err (Undef ''freewalk: recursion too deep'')"
| "freewalk (Suc d) pagetable s =
     bnd (for_each [0..<512] (\<lambda>i s.
            let a = pagetable + 8 * of_nat i; pte = load64 a s
            in if pte AND PTE_V \<noteq> 0 \<and> pte AND (PTE_R OR PTE_W OR PTE_X) = 0
               then bnd (freewalk d (PTE2PA pte) s) (\<lambda>s. Ok (store64 a 0 s))
               else if pte AND PTE_V \<noteq> 0 then Err (Panic ''freewalk: leaf'')
               else Ok s) s)
       (kfree pagetable)"

text \<open>An Sv39 table has three levels, so three nested calls.\<close>

definition uvmfree :: "u64 \<Rightarrow> u64 \<Rightarrow> 'a kstate_scheme \<Rightarrow> ('a kstate_scheme) res" where
  "uvmfree pagetable sz s =
     bnd (if sz > 0 then uvmunmap pagetable 0 (PGROUNDUP sz div PGSIZE) True s else Ok s)
       (freewalk 3 pagetable)"

function uvmcopy_loop :: "u64 \<Rightarrow> u64 \<Rightarrow> u64 \<Rightarrow> u64 \<Rightarrow> 'a kstate_scheme \<Rightarrow> (int \<times> 'a kstate_scheme) res" where
  "uvmcopy_loop old new i sz s =
     (if i < sz then
        bnd (walk old i False s) (\<lambda>(pte, s1).
          if pte = 0 then Err (Panic ''uvmcopy: pte should exist'')
          else if load64 pte s1 AND PTE_V = 0 then Err (Panic ''uvmcopy: page not present'')
          else bnd (map_new_to_old pte new i (change_flag_from_write_to_cow pte s1)) (\<lambda>s2.
               bnd (increase_no_of_ref (PTE2PA (load64 pte s2)) s2) (\<lambda>s3.
                 uvmcopy_loop old new (i + PGSIZE) sz s3)))
      else Ok (0, s))"
  by pat_completeness auto
termination
  by (relation "measure (\<lambda>(old, new, i, sz, s). unat sz - unat i)")
    (auto simp: word_less_nat_alt page_step_below_MAXVA dest!: walk_below_MAXVA)

declare uvmcopy_loop.simps [simp del]

definition uvmcopy :: "u64 \<Rightarrow> u64 \<Rightarrow> u64 \<Rightarrow> 'a kstate_scheme \<Rightarrow> (int \<times> 'a kstate_scheme) res" where
  "uvmcopy old new sz s = uvmcopy_loop old new 0 sz s"

definition uvmclear :: "u64 \<Rightarrow> u64 \<Rightarrow> 'a kstate_scheme \<Rightarrow> ('a kstate_scheme) res" where
  "uvmclear pagetable va s =
     bnd (walk pagetable va False s) (\<lambda>(pte, s1).
       if pte = 0 then Err (Panic ''uvmclear'')
       else Ok (store64 pte (load64 pte s1 AND NOT PTE_U) s1))"

section \<open>Copy on write (kernel/trap.c)\<close>

definition modify_flag_cow_to_write :: "u64 \<Rightarrow> u64" where
  "modify_flag_cow_to_write flag = (flag OR PTE_W) AND NOT PTE_CW"

definition check_valid_add :: "u64 \<Rightarrow> bool" where
  "check_valid_add add \<longleftrightarrow> add \<ge> MAXVA \<or> add \<le> 0"

definition check_if_cow_flag :: "u64 \<Rightarrow> 'a kstate_scheme \<Rightarrow> bool" where
  "check_if_cow_flag pte s \<longleftrightarrow> PTE_FLAGS (load64 pte s) AND PTE_CW \<noteq> 0"

definition allocate_new_memory :: "u64 \<Rightarrow> 'a kstate_scheme \<Rightarrow> (u64 \<times> 'a kstate_scheme) res" where
  "allocate_new_memory pa s =
     bnd (kalloc s) (\<lambda>(pg, s1).
       if pg = 0 then Ok (0, s1)
       else bnd (kfree pa (s1\<lparr>mem := memmove pg pa 4096 (mem s1)\<rparr>)) (\<lambda>s2. Ok (pg, s2)))"

definition write_trap :: "u64 \<Rightarrow> u64 \<Rightarrow> 'a kstate_scheme \<Rightarrow> (int \<times> 'a kstate_scheme) res" where
  "write_trap add pg s =
     (if check_valid_add add then Ok (-1, s)
      else bnd (walk pg (PGROUNDDOWN add) False s) (\<lambda>(pte, s1).
        if pte = 0 then Ok (-1, s1)
        else let pa = PTE2PA (load64 pte s1)
             in if check_if_cow_flag pte s1 then
                  let flags = PTE_FLAGS (load64 pte s1)
                  in bnd (allocate_new_memory pa s1) (\<lambda>(pgm, s2).
                       if pgm = 0 then Ok (-1, s2)
                       else Ok (0, store64 pte (PA2PTE pgm OR modify_flag_cow_to_write flags) s2))
                else Ok (0, s1)))"

section \<open>Copying between kernel and user\<close>

text \<open>
  A kernel buffer is the list of its bytes: the source of \<open>copyout\<close>, and the bytes
  \<open>copyin\<close> and \<open>copyinstr\<close> have stored when they return.
\<close>

function copyout :: "u64 \<Rightarrow> u64 \<Rightarrow> u8 list \<Rightarrow> 'a kstate_scheme \<Rightarrow> (int \<times> 'a kstate_scheme) res" where
  "copyout pagetable dstva src s =
     (if src = [] then Ok (0, s)
      else let va0 = PGROUNDDOWN dstva
      in if check_valid_add va0 then Ok (-1, s)
      else bnd (walk pagetable (PGROUNDDOWN va0) False s) (\<lambda>(pte, s1).
        if pte = 0 then Ok (-1, s1)
        else bnd (let pa = PTE2PA (load64 pte s1)
                  in if check_if_cow_flag pte s1 then
                       let flags = PTE_FLAGS (load64 pte s1)
                       in bnd (allocate_new_memory pa s1) (\<lambda>(pgm, s2).
                            if pgm = 0 then Ok (False, s2)
                            else Ok (True, store64 pte (PA2PTE pgm OR modify_flag_cow_to_write flags) s2))
                     else Ok (True, s1)) (\<lambda>(go, s3).
          if \<not> go then Ok (-1, s3)
          else bnd (walkaddr pagetable va0 s3) (\<lambda>(pa0, s4).
            if pa0 = 0 then Ok (-1, s4)
            else let n = min (4096 - unat (dstva - va0)) (length src)
                 in copyout pagetable (va0 + PGSIZE) (List.drop n src)
                      (s4\<lparr>mem := write_bytes (pa0 + (dstva - va0)) (take n src) (mem s4)\<rparr>)))))"
  by pat_completeness auto
termination
  by (relation "measure (\<lambda>(pt, d, src, s). length src)") (auto simp: page_off_less)

declare copyout.simps [simp del]

function copyin :: "u64 \<Rightarrow> u64 \<Rightarrow> nat \<Rightarrow> 'a kstate_scheme \<Rightarrow> ((int \<times> u8 list) \<times> 'a kstate_scheme) res" where
  "copyin pagetable srcva len s =
     (if len = 0 then Ok ((0, []), s)
      else let va0 = PGROUNDDOWN srcva
      in bnd (walkaddr pagetable va0 s) (\<lambda>(pa0, s1).
        if pa0 = 0 then Ok ((-1, []), s1)
        else let n = min (4096 - unat (srcva - va0)) len
             in bnd (copyin pagetable (va0 + PGSIZE) (len - n) s1) (\<lambda>((r, bs), s2).
                  Ok ((r, read_bytes (pa0 + (srcva - va0)) n (mem s1) @ bs), s2))))"
  by pat_completeness auto
termination
  by (relation "measure (\<lambda>(pt, d, len, s). len)") (auto simp: page_off_less)

declare copyin.simps [simp del]

function copyinstr :: "u64 \<Rightarrow> u64 \<Rightarrow> nat \<Rightarrow> 'a kstate_scheme \<Rightarrow> ((int \<times> u8 list) \<times> 'a kstate_scheme) res" where
  "copyinstr pagetable srcva mx s =
     (if mx = 0 then Ok ((-1, []), s)
      else let va0 = PGROUNDDOWN srcva
      in bnd (walkaddr pagetable va0 s) (\<lambda>(pa0, s1).
        if pa0 = 0 then Ok ((-1, []), s1)
        else let n = min (4096 - unat (srcva - va0)) mx;
                 bs = read_bytes (pa0 + (srcva - va0)) n (mem s1)
             in if 0 \<in> set bs then Ok ((0, takeWhile (\<lambda>b. b \<noteq> 0) bs @ [0]), s1)
                else bnd (copyinstr pagetable (va0 + PGSIZE) (mx - n) s1) (\<lambda>((r, cs), s2).
                       Ok ((r, bs @ cs), s2))))"
  by pat_completeness auto
termination
  by (relation "measure (\<lambda>(pt, d, mx, s). mx)") (auto simp: page_off_less)

declare copyinstr.simps [simp del]

end
