(* ===== verification/Pagetable.thy ===== *)
theory Pagetable
  imports Vm
begin

unbundle bit_operations_syntax

text \<open>
  What a page table in byte memory means. \<open>tpages l m p\<close> is the set of pages a table of
  level \<open>l\<close> rooted at \<open>p\<close> occupies, \<open>pt_wf\<close> says that these pages form a tree (no
  page is used twice), \<open>ptev\<close> is the abstract view: the leaf entry of each virtual address,
  0 where no leaf table exists. The lemmas show that \<open>walk\<close> keeps the tree and the view while
  it allocates tables, and that storing a leaf entry changes the view at one page only.
\<close>

section \<open>Trees of table pages\<close>

abbreviation valid :: "u64 \<Rightarrow> bool" where
  "valid e \<equiv> e AND PTE_V \<noteq> 0"

definition entry :: "memory \<Rightarrow> u64 \<Rightarrow> nat \<Rightarrow> u64" where
  "entry m p i = ld64 m (p + 8 * of_nat i)"

definition tpage :: "u64 \<Rightarrow> bool" where
  "tpage p \<longleftrightarrow> aligned 12 p \<and> p \<noteq> 0"

primrec tpages :: "nat \<Rightarrow> memory \<Rightarrow> u64 \<Rightarrow> u64 set" where
  "tpages 0 m p = {p}"
| "tpages (Suc l) m p = insert p (\<Union>i\<in>{..<512}.
     if valid (entry m p i) then tpages l m (PTE2PA (entry m p i)) else {})"

text \<open>The pages below entry \<open>i\<close> of a directory.\<close>

definition below :: "nat \<Rightarrow> memory \<Rightarrow> u64 \<Rightarrow> nat \<Rightarrow> u64 set" where
  "below l m p i = (if valid (entry m p i) then tpages l m (PTE2PA (entry m p i)) else {})"

primrec pt_wf :: "nat \<Rightarrow> memory \<Rightarrow> u64 \<Rightarrow> bool" where
  "pt_wf 0 m p \<longleftrightarrow> tpage p"
| "pt_wf (Suc l) m p \<longleftrightarrow> tpage p \<and>
     (\<forall>i<512. valid (entry m p i) \<longrightarrow> pt_wf l m (PTE2PA (entry m p i))) \<and>
     (\<forall>i<512. p \<notin> below l m p i) \<and>
     (\<forall>i<512. \<forall>j<512. i \<noteq> j \<longrightarrow> below l m p i \<inter> below l m p j = {})"

primrec lookup :: "nat \<Rightarrow> memory \<Rightarrow> u64 \<Rightarrow> u64 \<Rightarrow> u64 option" where
  "lookup 0 m p va = Some (slot p 0 va)"
| "lookup (Suc l) m p va =
     (if valid (ld64 m (slot p (Suc l) va)) then lookup l m (PTE2PA (ld64 m (slot p (Suc l) va))) va
      else None)"

definition ptev :: "nat \<Rightarrow> memory \<Rightarrow> u64 \<Rightarrow> u64 \<Rightarrow> u64" where
  "ptev l m p va = (case lookup l m p va of None \<Rightarrow> 0 | Some a \<Rightarrow> ld64 m a)"

lemma tpages_Suc: "tpages (Suc l) m p = insert p (\<Union>i\<in>{..<512}. below l m p i)"
  by (simp add: below_def)

declare tpages.simps(2) [simp del]

definition px :: "nat \<Rightarrow> u64 \<Rightarrow> nat" where
  "px l va = unat (PX l va)"

lemma px_less [simp]: "px l va < 512"
  by (simp add: px_def PX_less)

lemma slot_entry: "ld64 m (slot p l va) = entry m p (px l va)"
  by (simp add: slot_def entry_def px_def)

lemma lookup_Suc:
  "lookup (Suc l) m p va = (if valid (entry m p (px (Suc l) va))
     then lookup l m (PTE2PA (entry m p (px (Suc l) va))) va else None)"
  by (simp add: slot_entry)

declare lookup.simps(2) [simp del]

lemma entry_addr:
  assumes "aligned 12 p" and "i < 512"
  shows "page_of (p + 8 * of_nat i) = page_of p" and "aligned 3 (p + 8 * of_nat i)"
    and "unat (p + 8 * of_nat i) = unat p + 8 * i"
proof -
  have e: "p + 8 * of_nat i = p + of_nat (8 * i)" by simp
  show "page_of (p + 8 * of_nat i) = page_of p"
    unfolding e by (rule page_of_slot) (use assms in auto)
  show u: "unat (p + 8 * of_nat i) = unat p + 8 * i"
    unfolding e by (rule unat_add_low [of 12]) (use assms in auto)
  have "unat p mod 8 = 0" using assms(1) aligned_mono [of 12 p 3] by (simp add: aligned_unat)
  then show "aligned 3 (p + 8 * of_nat i)" unfolding aligned_unat u by simp
qed

lemma slot_addr:
  assumes "aligned 12 p"
  shows "page_of (slot p l va) = page_of p" and "aligned 3 (slot p l va)"
  using entry_addr [OF assms px_less [of l va]] by (simp_all add: slot_def px_def)

lemma entry_cong:
  assumes "aligned 12 p" and "i < 512" and "\<And>x. page_of x = page_of p \<Longrightarrow> m x = m' x"
  shows "entry m p i = entry m' p i"
  unfolding entry_def
proof (rule ld64_cong)
  fix k :: nat assume "k < 8"
  then have "page_of (p + 8 * of_nat i + of_nat k) = page_of p"
    using entry_addr [OF assms(1,2)] page_of_aligned8 by simp
  then show "m (p + 8 * of_nat i + of_nat k) = m' (p + 8 * of_nat i + of_nat k)" by (rule assms(3))
qed

lemma pt_wf_tpage: "pt_wf l m p \<Longrightarrow> tpage p"
  by (cases l) auto

lemma tpages_self [simp]: "p \<in> tpages l m p"
  by (cases l) (auto simp: tpages_Suc)

lemma tpages_tpage: "pt_wf l m p \<Longrightarrow> q \<in> tpages l m p \<Longrightarrow> tpage q"
proof (induction l arbitrary: p)
  case (Suc l)
  then show ?case by (auto simp: tpages_Suc below_def split: if_splits)
qed simp

lemma tpage_page_of: "tpage p \<Longrightarrow> tpage q \<Longrightarrow> page_of p = page_of q \<longleftrightarrow> p = q"
  using page_of_inj by (auto simp: tpage_def)

text \<open>A table depends on the memory of its own pages only.\<close>

definition same_on :: "u64 set \<Rightarrow> memory \<Rightarrow> memory \<Rightarrow> bool" where
  "same_on P m m' \<longleftrightarrow> (\<forall>x. page_of x \<in> page_of ` P \<longrightarrow> m' x = m x)"

lemma same_on_subset: "same_on P m m' \<Longrightarrow> Q \<subseteq> P \<Longrightarrow> same_on Q m m'"
  by (auto simp: same_on_def)

lemma same_on_trans: "same_on P m m' \<Longrightarrow> same_on P m' m'' \<Longrightarrow> same_on P m m''"
  by (simp add: same_on_def)

lemma entry_same:
  "tpage p \<Longrightarrow> p \<in> P \<Longrightarrow> same_on P m m' \<Longrightarrow> i < 512 \<Longrightarrow> entry m' p i = entry m p i"
  by (rule entry_cong) (auto simp: tpage_def same_on_def)

lemma below_subset: "i < 512 \<Longrightarrow> below l m p i \<subseteq> tpages (Suc l) m p"
  by (auto simp: tpages_Suc)

lemma below_unique:
  assumes "pt_wf (Suc l) m p" and "q \<in> below l m p i" and "q \<in> below l m p j" and "i < 512" and "j < 512"
  shows "i = j"
proof (rule ccontr)
  assume "i \<noteq> j"
  with assms(1,4,5) have "below l m p i \<inter> below l m p j = {}" by simp
  with assms(2,3) show False by blast
qed

lemma table_frame:
  "pt_wf l m p \<Longrightarrow> same_on (tpages l m p) m m' \<Longrightarrow>
   tpages l m' p = tpages l m p \<and> pt_wf l m' p \<and> (\<forall>va. lookup l m' p va = lookup l m p va)"
proof (induction l arbitrary: p)
  case (Suc l)
  have tp: "tpage p" using Suc.prems(1) by simp
  have e: "entry m' p i = entry m p i" if "i < 512" for i
    using entry_same [OF tp _ Suc.prems(2) that] by (simp add: tpages_Suc)
  have sub: "tpages l m' c = tpages l m c \<and> pt_wf l m' c \<and> (\<forall>va. lookup l m' c va = lookup l m c va)"
    if "i < 512" "valid (entry m p i)" "c = PTE2PA (entry m p i)" for i c
    using Suc.IH [of c] Suc.prems that same_on_subset [OF Suc.prems(2)] below_subset [of i l m p]
    by (auto simp: below_def)
  have b: "below l m' p i = below l m p i" if "i < 512" for i
    using e [OF that] sub [OF that] by (simp add: below_def)
  have "pt_wf (Suc l) m' p" using Suc.prems(1) e b sub by simp
  moreover have "lookup (Suc l) m' p va = lookup (Suc l) m p va" for va
    using e sub by (simp add: lookup_Suc)
  ultimately show ?case using b by (simp add: tpages_Suc)
qed auto

text \<open>The slot of a leaf entry lies in a page of the table.\<close>

lemma lookup_addr:
  "pt_wf l m p \<Longrightarrow> lookup l m p va = Some a \<Longrightarrow>
   aligned 3 a \<and> a \<noteq> 0 \<and> (\<exists>q\<in>tpages l m p. page_of a = page_of q)"
proof (induction l arbitrary: p)
  case 0
  then have al: "aligned 12 p" "p \<noteq> 0" by (auto simp: tpage_def)
  have "page_of p \<noteq> page_of 0" using page_of_inj [OF al(1), of 0] al(2) by auto
  then show ?case using 0 slot_addr [OF al(1), of 0 va] by auto
next
  case (Suc l)
  let ?i = "px (Suc l) va" and ?c = "PTE2PA (entry m p (px (Suc l) va))"
  from Suc.prems have v: "valid (entry m p ?i)" and lk: "lookup l m ?c va = Some a"
    by (auto simp: lookup_Suc split: if_splits)
  have "pt_wf l m ?c" using Suc.prems(1) v px_less by simp
  from Suc.IH [OF this lk] obtain q where q: "aligned 3 a" "a \<noteq> 0" "q \<in> tpages l m ?c"
      "page_of a = page_of q"
    by blast
  have "q \<in> below l m p ?i" using q(3) v by (simp add: below_def)
  then have "q \<in> tpages (Suc l) m p" using below_subset [OF px_less] by blast
  with q show ?case by blast
qed

lemma ptev_frame:
  assumes "pt_wf l m p" and "same_on (tpages l m p) m m'"
  shows "ptev l m' p va = ptev l m p va"
proof (cases "lookup l m p va")
  case None
  then show ?thesis using table_frame [OF assms] by (simp add: ptev_def)
next
  case (Some a)
  from lookup_addr [OF assms(1) Some] obtain q where q: "aligned 3 a" "q \<in> tpages l m p" "page_of a = page_of q"
    by blast
  have "ld64 m' a = ld64 m a"
    by (rule ld64_cong) (use q assms(2) page_of_aligned8 in \<open>auto simp: same_on_def\<close>)
  then show ?thesis using Some table_frame [OF assms] by (simp add: ptev_def)
qed

section \<open>Changing one subtree\<close>

text \<open>
  The subtree below entry \<open>i\<close> is replaced by one that uses old pages of that subtree and
  fresh pages \<open>N\<close>; everything else of the directory stays.
\<close>

lemma child_update:
  assumes wf: "pt_wf (Suc l) m p" and i: "i < 512"
    and other': "\<forall>j<512. j \<noteq> i \<longrightarrow> entry m' p j = entry m p j"
    and v: "valid (entry m' p i)" and c: "c = PTE2PA (entry m' p i)" and wfc: "pt_wf l m' c"
    and sub: "tpages l m' c \<subseteq> below l m p i \<union> N" and fresh: "N \<inter> tpages (Suc l) m p = {}"
    and sib': "\<forall>j<512. j \<noteq> i \<longrightarrow> same_on (below l m p j) m m'"
  shows "pt_wf (Suc l) m' p" and "j < 512 \<Longrightarrow> j \<noteq> i \<Longrightarrow> below l m' p j = below l m p j"
    and "below l m' p i = tpages l m' c"
    and "px (Suc l) va = i \<Longrightarrow> lookup (Suc l) m' p va = lookup l m' c va"
    and "px (Suc l) va \<noteq> i \<Longrightarrow> lookup (Suc l) m' p va = lookup (Suc l) m p va"
proof -
  note other = other' [rule_format] and sib = sib' [rule_format]
  have old: "pt_wf l m (PTE2PA (entry m p j))" if "j < 512" "valid (entry m p j)" for j
    using wf that by simp
  have sibl: "tpages l m' (PTE2PA (entry m p j)) = tpages l m (PTE2PA (entry m p j)) \<and>
      pt_wf l m' (PTE2PA (entry m p j)) \<and>
      (\<forall>va. lookup l m' (PTE2PA (entry m p j)) va = lookup l m (PTE2PA (entry m p j)) va)"
    if "j < 512" "j \<noteq> i" "valid (entry m p j)" for j
    using table_frame [OF old [OF that(1,3)], of m'] sib [OF that(1,2)] that(3) by (simp add: below_def)
  show bj: "below l m' p j = below l m p j" if "j < 512" "j \<noteq> i" for j
    using sibl [OF that] other [OF that] by (simp add: below_def)
  show bi: "below l m' p i = tpages l m' c" using v c by (simp add: below_def)
  have sub': "below l m' p i \<subseteq> below l m p i \<union> N" using bi sub by simp
  have fr: "N \<inter> below l m p j = {}" "p \<notin> N" if "j < 512" for j
    using fresh below_subset [OF that, of l m p] by auto
  have disj: "below l m p i \<inter> below l m p j = {}" if "j < 512" "j \<noteq> i" for j
    using wf i that by simp
  have notp: "p \<notin> below l m p j" if "j < 512" for j using wf that by simp
  have D: "below l m' p i \<inter> below l m' p j = {}" if "j < 512" "j \<noteq> i" for j
    using sub' disj [OF that] fr(1) [OF that(1)] bj [OF that] by blast
  have "below l m' p j \<inter> below l m' p k = {}" if jk: "j < 512" "k < 512" "j \<noteq> k" for j k
  proof (cases "j = i \<or> k = i")
    case True
    then show ?thesis using D jk by blast
  next
    case False
    then show ?thesis using bj jk wf by simp
  qed
  moreover have "p \<notin> below l m' p j" if "j < 512" for j
    using sub' notp fr(2) bj that i by (cases "j = i") auto
  moreover have "pt_wf l m' (PTE2PA (entry m' p j))" if "j < 512" "valid (entry m' p j)" for j
    using that wfc c sibl other by (cases "j = i") auto
  ultimately show "pt_wf (Suc l) m' p" using wf by simp
  show "lookup (Suc l) m' p va = lookup l m' c va" if "px (Suc l) va = i"
    using that v c by (simp add: lookup_Suc)
  show "lookup (Suc l) m' p va = lookup (Suc l) m p va" if "px (Suc l) va \<noteq> i"
    using that other [OF px_less that] sibl [OF px_less that] by (simp add: lookup_Suc)
qed

lemma ptev_Suc:
  "ptev (Suc l) m p va = (if valid (entry m p (px (Suc l) va))
     then ptev l m (PTE2PA (entry m p (px (Suc l) va))) va else 0)"
  by (simp add: ptev_def lookup_Suc)

lemma child_update_ptev:
  assumes wf: "pt_wf (Suc l) m p" and i: "i < 512"
    and other: "\<forall>j<512. j \<noteq> i \<longrightarrow> entry m' p j = entry m p j"
    and sib: "\<forall>j<512. j \<noteq> i \<longrightarrow> same_on (below l m p j) m m'"
    and va: "px (Suc l) va \<noteq> i"
  shows "ptev (Suc l) m' p va = ptev (Suc l) m p va"
proof (cases "valid (entry m p (px (Suc l) va))")
  case True
  then have "pt_wf l m (PTE2PA (entry m p (px (Suc l) va)))" using wf by simp
  moreover have "same_on (tpages l m (PTE2PA (entry m p (px (Suc l) va)))) m m'"
    using sib [rule_format, OF px_less va] True by (simp add: below_def)
  ultimately show ?thesis using ptev_frame other va by (simp add: ptev_Suc)
qed (use other va in \<open>simp add: ptev_Suc\<close>)

text \<open>Stores outside a page keep its entries.\<close>

lemma st64_same_on:
  assumes "aligned 3 a" and "page_of a \<notin> page_of ` P"
  shows "same_on P m (st64 a v m)"
  unfolding same_on_def
proof (intro allI impI)
  fix x assume "page_of x \<in> page_of ` P"
  with assms(2) have "page_of x \<noteq> page_of a" by auto
  with assms(1) show "st64 a v m x = m x" by (rule st64_other_page)
qed

text \<open>Storing a leaf entry keeps the tree.\<close>

lemma leaf_store:
  "pt_wf l m p \<Longrightarrow> lookup l m p va = Some a \<Longrightarrow>
   pt_wf l (st64 a v m) p \<and> tpages l (st64 a v m) p = tpages l m p \<and>
   (\<forall>vb. lookup l (st64 a v m) p vb = lookup l m p vb)"
proof (induction l arbitrary: p)
  case (Suc l)
  let ?i = "px (Suc l) va" and ?m = "st64 a v m"
  let ?c = "PTE2PA (entry m p (px (Suc l) va))"
  from Suc.prems have val: "valid (entry m p ?i)" and lk: "lookup l m ?c va = Some a"
    by (auto simp: lookup_Suc split: if_splits)
  have wfc: "pt_wf l m ?c" using Suc.prems(1) val px_less by simp
  from Suc.IH [OF wfc lk] have IH: "pt_wf l ?m ?c" "tpages l ?m ?c = tpages l m ?c"
      "\<forall>vb. lookup l ?m ?c vb = lookup l m ?c vb" by auto
  from lookup_addr [OF wfc lk] obtain q where q: "aligned 3 a" "q \<in> below l m p ?i" "page_of a = page_of q"
    using val by (auto simp: below_def)
  have tq: "tpage q" using tpages_tpage [OF Suc.prems(1)] below_subset [OF px_less] q(2) by blast
  have out: "same_on P m ?m" if "P \<subseteq> tpages (Suc l) m p" "q \<notin> P" for P
  proof (rule st64_same_on [OF q(1)], rule notI)
    assume "page_of a \<in> page_of ` P"
    then obtain r where "r \<in> P" "page_of q = page_of r" using q(3) by auto
    with that tq tpages_tpage [OF Suc.prems(1)] tpage_page_of [of q r] show False by blast
  qed
  have "p \<noteq> q" using Suc.prems(1) q(2) px_less by auto
  then have e: "entry ?m p j = entry m p j" if "j < 512" for j
    using entry_same [OF _ _ out [of "{p}"] that] Suc.prems(1) by (simp add: tpages_Suc)
  have sib: "same_on (below l m p j) m ?m" if "j < 512" "j \<noteq> ?i" for j
    by (rule out [OF below_subset [OF that(1)]])
      (use below_unique [OF Suc.prems(1) q(2), of j] that in auto)
  have c: "?c = PTE2PA (entry ?m p ?i)" and val': "valid (entry ?m p ?i)" using e val by simp_all
  have sub: "tpages l ?m ?c \<subseteq> below l m p ?i \<union> {}" using IH(2) val by (simp add: below_def)
  have e': "\<forall>j<512. j \<noteq> ?i \<longrightarrow> entry ?m p j = entry m p j"
    and sib': "\<forall>j<512. j \<noteq> ?i \<longrightarrow> same_on (below l m p j) m ?m"
    using e sib by simp_all
  note upd = child_update [OF Suc.prems(1) px_less e' val' c IH(1) sub Int_empty_left sib']
  have b: "below l ?m p j = below l m p j" if "j < 512" for j
    using upd(2) [OF that] upd(3) IH(2) val by (cases "j = ?i") (auto simp: below_def)
  have "lookup (Suc l) ?m p vb = lookup (Suc l) m p vb" for vb
    using upd(4,5) [of vb] IH(3) val by (cases "px (Suc l) vb = ?i") (auto simp: lookup_Suc)
  then show ?case using upd(1) b by (simp add: tpages_Suc)
qed auto

text \<open>Two addresses with the same leaf slot lie on the same page.\<close>

lemma slot_inj:
  assumes "slot p l va = slot p l vb"
  shows "PX l va = PX l vb"
proof -
  have "8 * PX l va = 8 * PX l vb" using assms by (simp add: slot_def)
  then have "unat (8 * PX l va) = unat (8 * PX l vb)" by simp
  then show ?thesis using PX_less [of l va] PX_less [of l vb]
    by (simp add: unat_word_ariths word_unat_eq_iff)
qed

lemma lookup_inj:
  "pt_wf l m p \<Longrightarrow> lookup l m p va = Some a \<Longrightarrow> lookup l m p vb = Some a \<Longrightarrow>
   (\<forall>k\<le>l. PX k va = PX k vb)"
proof (induction l arbitrary: p)
  case 0
  then show ?case using slot_inj [of p 0 va vb] by simp
next
  case (Suc l)
  let ?i = "px (Suc l) va" and ?j = "px (Suc l) vb"
  let ?c = "PTE2PA (entry m p ?i)" and ?d = "PTE2PA (entry m p ?j)"
  from Suc.prems have v: "valid (entry m p ?i)" "valid (entry m p ?j)"
      and lk: "lookup l m ?c va = Some a" "lookup l m ?d vb = Some a"
    by (auto simp: lookup_Suc split: if_splits)
  have wf: "pt_wf l m ?c" "pt_wf l m ?d" using Suc.prems(1) v px_less by simp_all
  obtain q r where q: "q \<in> below l m p ?i" "r \<in> below l m p ?j" "page_of q = page_of r"
    using lookup_addr [OF wf(1) lk(1)] lookup_addr [OF wf(2) lk(2)] v by (auto simp: below_def)
  have "tpage q" "tpage r" using tpages_tpage [OF Suc.prems(1)] below_subset [OF px_less] q by blast+
  then have "q = r" using tpage_page_of q(3) by blast
  then have "?i = ?j" using below_unique [OF Suc.prems(1) q(1)] q(2) by simp
  then have "PX (Suc l) va = PX (Suc l) vb" by (simp add: px_def word_unat_eq_iff)
  moreover have "\<forall>k\<le>l. PX k va = PX k vb" using Suc.IH [OF wf(1) lk(1)] lk(2) \<open>?i = ?j\<close> by simp
  ultimately show ?case by (auto simp: le_Suc_eq)
qed

lemma lookup_same_page:
  assumes "pt_wf 2 m p" and "lookup 2 m p va = Some a" and "lookup 2 m p vb = Some a"
    and "va < MAXVA" and "vb < MAXVA"
  shows "page_of va = page_of vb"
  using lookup_inj [OF assms(1-3)] by (intro PX_inj [OF assms(4,5)]) auto

lemma PX_page: "page_of va = page_of vb \<Longrightarrow> PX l va = PX l vb"
proof -
  assume e: "page_of va = page_of vb"
  have "drop_bit (12 + 9 * l) va = drop_bit (9 * l) (page_of va)"
    and "drop_bit (12 + 9 * l) vb = drop_bit (9 * l) (page_of vb)"
    by (simp_all add: page_of_def add.commute)
  then show ?thesis using e by (simp add: PX_def PXSHIFT_def)
qed

lemma lookup_page_cong: "page_of va = page_of vb \<Longrightarrow> lookup l m p va = lookup l m p vb"
proof (induction l arbitrary: p)
  case 0
  then show ?case using PX_page [of va vb 0] by (simp add: slot_def)
next
  case (Suc l)
  then have "px (Suc l) va = px (Suc l) vb" using PX_page [of va vb "Suc l"] by (simp add: px_def)
  then show ?case using Suc by (simp add: lookup_Suc)
qed

lemma ptev_page_cong: "page_of va = page_of vb \<Longrightarrow> ptev l m p va = ptev l m p vb"
  using lookup_page_cong [of va vb l m p] by (simp add: ptev_def)

text \<open>In the abstract view a leaf store is a function update at one page.\<close>

lemma ptev_leaf_store:
  assumes "pt_wf 2 m p" and "lookup 2 m p va = Some a" and "va < MAXVA" and "vb < MAXVA"
  shows "ptev 2 (st64 a v m) p vb = (if page_of vb = page_of va then v else ptev 2 m p vb)"
proof (cases "page_of vb = page_of va")
  case True
  then have "lookup 2 m p vb = Some a" using assms(2) lookup_page_cong [of vb va 2 m p] by simp
  then show ?thesis using True leaf_store [OF assms(1,2)] by (simp add: ptev_def)
next
  case False
  show ?thesis
  proof (cases "lookup 2 m p vb")
    case None
    then show ?thesis using False leaf_store [OF assms(1,2)] by (simp add: ptev_def)
  next
    case (Some b)
    then have "b \<noteq> a" using lookup_same_page [OF assms(1) Some] assms False by blast
    then have "ld64 (st64 a v m) b = ld64 m b"
      using lookup_addr [OF assms(1,2)] lookup_addr [OF assms(1) Some] by (intro ld64_st64_other) auto
    then show ?thesis using False Some leaf_store [OF assms(1,2)] by (simp add: ptev_def)
  qed
qed

section \<open>Walking with allocation\<close>

text \<open>What an operation on page tables may change of the kernel state.\<close>

definition mem_step :: "'a kstate_scheme \<Rightarrow> 'a kstate_scheme \<Rightarrow> bool" where
  "mem_step s s' \<longleftrightarrow> hart s' = hart s \<and> locks s' = locks s \<and> kend s' = kend s \<and>
     kstate.more s' = kstate.more s \<and> (cpus s' = cpus s \<or> cpus s' = bumped (cpus s) (hart s))"

lemma mem_step_refl [simp]: "mem_step s s"
  by (simp add: mem_step_def)

lemma mem_step_trans: "mem_step s s' \<Longrightarrow> mem_step s' s'' \<Longrightarrow> mem_step s s''"
  unfolding mem_step_def by auto

lemma mem_step_frame:
  assumes "mem_step s s'"
  shows "hart s' = hart s" "locks s' = locks s" "kend s' = kend s" "kstate.more s' = kstate.more s"
    "cproc (cpus s' h) = cproc (cpus s h)" "noff (cpus s' h) = noff (cpus s h)"
    "sie (cpus s' h) = sie (cpus s h)" "hart_ok s' = hart_ok s"
  using assms unfolding mem_step_def by auto

text \<open>
  \<open>grow ts P s s'\<close>: the pages \<open>ts\<close> were allocated, and only pages of \<open>P\<close> and
  \<open>ts\<close> were written.
\<close>

definition grow :: "u64 list \<Rightarrow> u64 set \<Rightarrow> 'a kstate_scheme \<Rightarrow> 'a kstate_scheme \<Rightarrow> bool" where
  "grow ts P s s' \<longleftrightarrow> mem_step s s' \<and>
     (\<forall>q. tpage q \<longrightarrow> q \<notin> set ts \<longrightarrow> ref_count s' q = ref_count s q) \<and>
     (\<forall>q\<in>set ts. tpage q \<and> ref_count s' q = 1) \<and>
     (\<forall>x. page_of x \<notin> page_of ` (P \<union> set ts) \<longrightarrow> mem s' x = mem s x)"

lemma grow_refl [simp]: "grow [] P s s"
  by (simp add: grow_def)

lemma grow_trans:
  assumes "grow ts P s s1" and "grow us Q s1 s2" and "distinct (ts @ us)" and "Q \<subseteq> P \<union> set ts"
  shows "grow (ts @ us) P s s2"
proof -
  have "mem s2 x = mem s x" if "page_of x \<notin> page_of ` (P \<union> set (ts @ us))" for x
  proof -
    have "page_of x \<notin> page_of ` (P \<union> set ts)" "page_of x \<notin> page_of ` (Q \<union> set us)"
      using that assms(4) by auto
    with assms(1,2) show ?thesis by (simp add: grow_def)
  qed
  moreover have "q \<notin> set us" if "q \<in> set ts" for q using assms(3) that by auto
  ultimately show ?thesis using assms(1,2) mem_step_trans by (auto simp: grow_def)
qed

lemma grow_mono: "grow ts P s s' \<Longrightarrow> P \<subseteq> Q \<Longrightarrow> grow ts Q s s'"
  unfolding grow_def by blast

lemma grow_same_on:
  assumes "grow ts P s s'" and "page_of ` R \<inter> page_of ` (P \<union> set ts) = {}"
  shows "same_on R (mem s) (mem s')"
  using assms unfolding grow_def same_on_def by blast

text \<open>Disjoint sets of pages have disjoint sets of page numbers.\<close>

lemma page_disjoint:
  assumes "\<forall>p\<in>P. aligned 12 p" and "\<forall>q\<in>Q. aligned 12 q" and "P \<inter> Q = {}"
  shows "page_of ` P \<inter> page_of ` Q = {}"
proof (rule ccontr)
  assume "\<not> ?thesis"
  then obtain p q where pq: "p \<in> P" "q \<in> Q" "page_of p = page_of q" by auto
  with assms(1,2) page_of_inj have "p = q" by blast
  with pq assms(3) show False by blast
qed

lemma kmem_inv_tpage: "kmem_inv fs s \<Longrightarrow> q \<in> set fs \<Longrightarrow> tpage q"
  by (auto simp: kmem_inv_def page_ok_def tpage_def)

lemma kmem_inv_mem:
  assumes inv: "kmem_inv fs s" and same: "same_on (set fs) (mem s) m"
  shows "kmem_inv fs (s\<lparr>mem := m\<rparr>)"
proof -
  have "flist m (freelist s) fs = flist (mem s) (freelist s) fs"
    using inv same
    by (intro flist_cong ld64_page_cong) (auto simp: kmem_inv_def page_ok_def same_on_def)
  with inv show ?thesis by (simp add: kmem_inv_def ref_count_def)
qed

lemma ptev_0: "ptev 0 m p va = entry m p (px 0 va)"
  by (simp add: ptev_def slot_entry)

lemma empty_table:
  assumes "tpage p" and "\<And>i. i < 512 \<Longrightarrow> entry m p i = 0"
  shows "pt_wf l m p" and "tpages l m p = {p}" and "ptev l m p va = 0"
proof -
  show "pt_wf l m p" using assms by (cases l) (auto simp: below_def)
  show "tpages l m p = {p}" using assms by (cases l) (auto simp: tpages_Suc below_def)
  show "ptev l m p va = 0" using assms by (cases l) (simp_all add: ptev_0 ptev_Suc)
qed

lemma ld64_zero [simp]: "ld64 (\<lambda>_. 0) a = 0"
  by (rule bit_word_eqI) (simp add: bit_ld64)

lemma zero_table:
  assumes "tpage p" and "\<And>x. page_of x = page_of p \<Longrightarrow> m x = 0"
  shows "pt_wf l m p" and "tpages l m p = {p}" and "ptev l m p va = 0"
proof -
  have "entry m p i = 0" if "i < 512" for i
  proof -
    have "entry m p i = entry (\<lambda>_. 0) p i"
      using assms that by (intro entry_cong) (auto simp: tpage_def)
    then show ?thesis by (simp add: entry_def)
  qed
  note e = empty_table [OF assms(1) this]
  show "pt_wf l m p" and "tpages l m p = {p}" and "ptev l m p va = 0" using e by auto
qed

lemma kalloc_grow:
  assumes "kmem_inv (q # fs) s"
  shows "\<exists>s'. kalloc s = Ok (q, s') \<and> kmem_inv fs s' \<and> grow [q] {} s s'"
proof -
  from kalloc_state [OF assms] obtain s' where k: "kalloc s = Ok (q, s')"
    and s': "s' = s\<lparr>cpus := bumped (cpus s) (hart s), freelist := ld64 (mem s) q,
      mem := memset q 5 4096 (mem s), no_of_ref_array := (no_of_ref_array s)(ref_idx q := 1)\<rparr>"
    by blast
  have "mem_step s s'" by (simp add: mem_step_def s')
  moreover have "ref_idx r \<noteq> ref_idx q" if "tpage r" "r \<noteq> q" for r
    using that kmem_inv_tpage [OF assms, of q] ref_idx_inj [of r q] by (simp add: tpage_def)
  ultimately show ?thesis
    using kmem_inv_kalloc [OF assms k] k kmem_inv_tpage [OF assms, of q] by (auto simp: grow_def)
qed

lemma grow_mem:
  "(\<And>x. page_of x \<notin> page_of ` P \<Longrightarrow> m x = mem s x) \<Longrightarrow> grow [] P s (s\<lparr>mem := m\<rparr>)"
  by (simp add: grow_def mem_step_def ref_count_def)

lemma store64_grow: "aligned 3 a \<Longrightarrow> page_of a \<in> page_of ` P \<Longrightarrow> grow [] P s (store64 a v s)"
  unfolding store64_def by (rule grow_mem) (auto intro: st64_other_page)

lemma memset_pg_grow: "aligned 12 q \<Longrightarrow> q \<in> P \<Longrightarrow> grow [] P s (memset_pg q c s)"
  unfolding memset_pg_def by (rule grow_mem) (auto simp: memset_page)

lemma kmem_inv_store64:
  "kmem_inv fs s \<Longrightarrow> aligned 3 a \<Longrightarrow> page_of a \<notin> page_of ` set fs \<Longrightarrow> kmem_inv fs (store64 a v s)"
  unfolding store64_def by (intro kmem_inv_mem st64_same_on)

lemma kmem_inv_memset_pg:
  assumes "kmem_inv fs s" and "tpage q" and "q \<notin> set fs"
  shows "kmem_inv fs (memset_pg q c s)"
  unfolding memset_pg_def
proof (rule kmem_inv_mem [OF assms(1)], unfold same_on_def, intro allI impI)
  fix x assume "page_of x \<in> page_of ` set fs"
  then obtain r where "r \<in> set fs" "page_of x = page_of r" by blast
  then have "page_of x \<noteq> page_of q"
    using kmem_inv_tpage [OF assms(1)] tpage_page_of [OF _ assms(2)] assms(3) by metis
  then show "memset q c 4096 (mem s) x = mem s x" using assms(2) by (simp add: memset_page tpage_def)
qed

text \<open>A fresh zeroed page hooked into directory slot \<open>i\<close> of \<open>p\<close>.\<close>

lemma install_table:
  assumes inv: "kmem_inv (q # fs) s" and tp: "tpage p" "p \<notin> set (q # fs)" and i: "i < 512"
    and a: "a = p + 8 * of_nat i"
  shows "\<exists>s1 s2. kalloc s = Ok (q, s1) \<and> q \<noteq> 0 \<and>
    s2 = store64 a v (memset_pg q 0 s1) \<and> kmem_inv fs s2 \<and> grow [q] {p} s s2 \<and>
    (\<forall>x. page_of x = page_of q \<longrightarrow> mem s2 x = 0) \<and> entry (mem s2) p i = v \<and>
    (\<forall>j<512. j \<noteq> i \<longrightarrow> entry (mem s2) p j = entry (mem s) p j)"
proof -
  from kalloc_grow [OF inv] obtain s1 where k: "kalloc s = Ok (q, s1)" and inv1: "kmem_inv fs s1"
    and g1: "grow [q] {} s s1" by blast
  define s2 where "s2 = store64 a v (memset_pg q 0 s1)"
  have tq: "tpage q" "q \<notin> set fs"
    using kmem_inv_tpage [OF inv] inv by (auto simp: kmem_inv_def)
  have al: "aligned 12 p" "aligned 12 q" using tp(1) tq by (auto simp: tpage_def)
  have a3: "aligned 3 a" "page_of a = page_of p" unfolding a using entry_addr [OF al(1) i] by auto
  have pq: "page_of p \<noteq> page_of q" using tpage_page_of [OF tp(1) tq(1)] tp(2) by auto
  have "page_of p \<notin> page_of ` set fs"
    using tpage_page_of [OF tp(1)] kmem_inv_tpage [OF inv] tp(2) by (auto simp: image_iff)
  then have inv2: "kmem_inv fs s2"
    unfolding s2_def using a3 kmem_inv_memset_pg [OF inv1 tq] by (intro kmem_inv_store64) auto
  have m: "mem s2 x = mem s x" if "page_of x \<noteq> page_of p" "page_of x \<noteq> page_of q" for x
    using that g1 st64_other_page [OF a3(1)] a3(2) al
    by (simp add: s2_def store64_def memset_pg_def memset_page grow_def)
  have "grow [q] {p} s s2"
    using g1 m by (auto simp: grow_def s2_def store64_def memset_pg_def mem_step_def ref_count_def)
  moreover have "mem s2 x = 0" if "page_of x = page_of q" for x
    using that pq st64_other_page [OF a3(1)] a3(2) al
    by (simp add: s2_def store64_def memset_pg_def memset_page)
  moreover have "entry (mem s2) p j = entry (mem s) p j" if j: "j < 512" "j \<noteq> i" for j
  proof -
    have "p + 8 * of_nat j \<noteq> a"
      unfolding a using entry_addr(3) [OF al(1) j(1)] entry_addr(3) [OF al(1) i] j(2)
      by (auto simp: word_unat_eq_iff)
    then have "entry (mem s2) p j = entry (mem (memset_pg q 0 s1)) p j"
      using ld64_st64_other [OF a3(1) entry_addr(2) [OF al(1) j(1)]]
      by (simp add: entry_def s2_def store64_def)
    also have "\<dots> = entry (mem s) p j"
      using pq g1 al by (intro entry_cong [OF al(1) j(1)]) (auto simp: memset_pg_def memset_page grow_def)
    finally show ?thesis .
  qed
  moreover have "entry (mem s2) p i = v" by (simp add: entry_def s2_def store64_def a)
  ultimately show ?thesis using k inv2 tq by (auto simp: tpage_def s2_def)
qed

lemma valid_bit: "valid e \<longleftrightarrow> bit e 0"
  by (simp add: PTE_V_def and_one_eq odd_iff_mod_2_eq_one bit_0)

lemma valid_or [simp]: "valid (x OR PTE_V)"
  by (simp add: valid_bit bit_or_iff) (simp add: PTE_V_def)

lemma PTE_V_nz [simp]: "PTE_V \<noteq> 0"
  by (simp add: PTE_V_def)

text \<open>One step of the descent of \<open>walk\<close>, for a table known to be a tree afterwards.\<close>

definition walked :: "nat \<Rightarrow> u64 \<Rightarrow> u64 \<Rightarrow> u64 list \<Rightarrow> 'a kstate_scheme \<Rightarrow> u64 \<Rightarrow> 'a kstate_scheme \<Rightarrow>
    u64 list \<Rightarrow> u64 list \<Rightarrow> bool" where
  "walked l p va fs s a s' ts fs' \<longleftrightarrow>
     fs = ts @ fs' \<and> kmem_inv fs' s' \<and> grow ts (tpages l (mem s) p) s s' \<and>
     pt_wf l (mem s') p \<and> tpages l (mem s') p = tpages l (mem s) p \<union> set ts \<and>
     (\<forall>vb. ptev l (mem s') p vb = ptev l (mem s) p vb) \<and>
     length ts \<le> l \<and> (a = 0 \<longrightarrow> fs' = [] \<and> length ts < l) \<and>
     (a \<noteq> 0 \<longrightarrow> lookup l (mem s') p va = Some a)"

text \<open>
  Putting together: entry \<open>i\<close> of \<open>p\<close> leads to table \<open>c\<close> in state \<open>s1\<close>, which was
  walked to state \<open>s'\<close>.
\<close>

lemma Un_fresh:
  fixes A B :: "nat \<Rightarrow> 'b set"
  assumes "\<And>j. j < n \<Longrightarrow> B j \<subseteq> A j \<union> N" and "\<And>j. j < n \<Longrightarrow> A j \<subseteq> B j" and "N \<subseteq> B i" and "i < n"
  shows "(\<Union>j<n. B j) = (\<Union>j<n. A j) \<union> N"
proof (intro equalityI subsetI)
  fix x assume "x \<in> (\<Union>j<n. B j)"
  then obtain j where "j < n" "x \<in> B j" by blast
  with assms(1) show "x \<in> (\<Union>j<n. A j) \<union> N" by blast
next
  fix x assume "x \<in> (\<Union>j<n. A j) \<union> N"
  with assms(2-4) show "x \<in> (\<Union>j<n. B j)" by blast
qed

lemma walked_step:
  assumes wf: "pt_wf (Suc l) (mem s) p"
    and v: "valid (entry (mem s1) p i)" and c: "c = PTE2PA (entry (mem s1) p i)"
    and e: "\<forall>j<512. j \<noteq> i \<longrightarrow> entry (mem s1) p j = entry (mem s) p j"
    and i: "i = px (Suc l) va" and g: "grow ts0 {p} s s1"
    and w: "walked l c va fs s1 a s' ts fs'" and c1: "tpages l (mem s1) c = below l (mem s) p i \<union> set ts0"
    and dist: "distinct (ts0 @ fs)" and fresh: "set (ts0 @ fs) \<inter> tpages (Suc l) (mem s) p = {}"
    and old: "\<And>vb. px (Suc l) vb = i \<Longrightarrow> ptev l (mem s1) c vb = ptev (Suc l) (mem s) p vb"
    and len: "length ts0 \<le> 1" and tp: "\<forall>q\<in>set fs. tpage q"
  shows "walked (Suc l) p va (ts0 @ fs) s a s' (ts0 @ ts) fs'"
proof -
  let ?N = "set (ts0 @ ts)"
  note W = w [unfolded walked_def]
  have il: "i < 512" using i by simp
  have fs: "fs = ts @ fs'" using W by blast
  have b: "below l (mem s) p i \<subseteq> tpages (Suc l) (mem s) p" by (rule below_subset [OF il])
  have N: "?N \<inter> tpages (Suc l) (mem s) p = {}" using fresh fs by auto
  have tpN: "\<forall>q\<in>?N. tpage q" using g tp fs by (auto simp: grow_def)
  have gall: "grow (ts0 @ ts) (tpages (Suc l) (mem s) p) s s'"
  proof (rule grow_trans)
    show "grow ts0 (tpages (Suc l) (mem s) p) s s1" using g by (rule grow_mono) simp
    show "grow ts (tpages l (mem s1) c) s1 s'" using W by blast
    show "distinct (ts0 @ ts)" using dist fs by auto
    show "tpages l (mem s1) c \<subseteq> tpages (Suc l) (mem s) p \<union> set ts0" using b c1 by blast
  qed
  have alg: "\<forall>q\<in>tpages (Suc l) (mem s) p. aligned 12 q" "\<forall>q\<in>?N. aligned 12 q"
    using tpages_tpage [OF wf] tpN by (auto simp: tpage_def)
  have out: "same_on R (mem s1) (mem s')" if R: "R \<subseteq> tpages (Suc l) (mem s) p" "R \<inter> below l (mem s) p i = {}" for R
  proof (rule grow_same_on)
    show "grow ts (tpages l (mem s1) c) s1 s'" using W by blast
    have "R \<inter> (tpages l (mem s1) c \<union> set ts) = {}" using R N c1 by auto
    moreover have "\<forall>q\<in>tpages l (mem s1) c \<union> set ts. aligned 12 q" using alg b c1 by auto
    ultimately show "page_of ` R \<inter> page_of ` (tpages l (mem s1) c \<union> set ts) = {}"
      using alg(1) R(1) by (intro page_disjoint) auto
  qed
  have pi: "p \<notin> below l (mem s) p i" using wf il by simp
  have ep: "entry (mem s') p j = entry (mem s1) p j" if "j < 512" for j
    using entry_same [OF _ _ out [of "{p}"] that] wf pi by (simp add: tpages_Suc)
  have other: "\<forall>j<512. j \<noteq> i \<longrightarrow> entry (mem s') p j = entry (mem s) p j" using ep e by simp
  have sib: "\<forall>j<512. j \<noteq> i \<longrightarrow> same_on (below l (mem s) p j) (mem s) (mem s')"
  proof (intro allI impI)
    fix j :: nat assume j: "j < 512" "j \<noteq> i"
    have bj: "below l (mem s) p j \<subseteq> tpages (Suc l) (mem s) p" by (rule below_subset [OF j(1)])
    have di: "below l (mem s) p j \<inter> below l (mem s) p i = {}" using wf j il by simp
    have "p \<notin> below l (mem s) p j" using wf j by simp
    then have "below l (mem s) p j \<inter> ({p} \<union> set ts0) = {}" using bj N by auto
    then have "page_of ` below l (mem s) p j \<inter> page_of ` ({p} \<union> set ts0) = {}"
      using alg bj by (intro page_disjoint) auto
    with g have "same_on (below l (mem s) p j) (mem s) (mem s1)" by (rule grow_same_on)
    then show "same_on (below l (mem s) p j) (mem s) (mem s')"
      using out [OF bj di] by (rule same_on_trans)
  qed
  have v': "valid (entry (mem s') p i)" and c': "c = PTE2PA (entry (mem s') p i)"
    using ep [OF il] v c by auto
  have wfc: "pt_wf l (mem s') c" and tc: "tpages l (mem s') c = below l (mem s) p i \<union> ?N"
    using W c1 by auto
  note cu = child_update [OF wf il other v' c' wfc equalityD1 [OF tc] N sib]
  have "\<forall>vb. ptev (Suc l) (mem s') p vb = ptev (Suc l) (mem s) p vb"
  proof
    fix vb
    show "ptev (Suc l) (mem s') p vb = ptev (Suc l) (mem s) p vb"
    proof (cases "px (Suc l) vb = i")
      case True
      then have "ptev (Suc l) (mem s') p vb = ptev l (mem s') c vb"
        using v' c' by (simp add: ptev_Suc)
      then show ?thesis using W old [OF True] by simp
    next
      case False
      then show ?thesis by (rule child_update_ptev [OF wf il other sib])
    qed
  qed
  moreover have "tpages (Suc l) (mem s') p = tpages (Suc l) (mem s) p \<union> ?N"
  proof -
    have "below l (mem s') p j \<subseteq> below l (mem s) p j \<union> ?N" "below l (mem s) p j \<subseteq> below l (mem s') p j"
      if "j < 512" for j
      using cu(2) [OF that] cu(3) tc by (cases "j = i"; auto)+
    moreover have "?N \<subseteq> below l (mem s') p i" using cu(3) tc by auto
    ultimately have "(\<Union>j<512. below l (mem s') p j) = (\<Union>j<512. below l (mem s) p j) \<union> ?N"
      using il by (intro Un_fresh) blast+
    then show ?thesis unfolding tpages_Suc by simp
  qed
  moreover have "a \<noteq> 0 \<longrightarrow> lookup (Suc l) (mem s') p va = Some a" using cu(4) i W by simp
  moreover have "ts0 @ fs = (ts0 @ ts) @ fs'" "kmem_inv fs' s'" using fs W by auto
  moreover have "length (ts0 @ ts) \<le> Suc l" "a = 0 \<longrightarrow> fs' = [] \<and> length (ts0 @ ts) < Suc l"
    using W len by auto
  ultimately show ?thesis unfolding walked_def using gall cu(1) by (intro conjI) assumption+
qed

lemma walk_levels_alloc:
  "kmem_inv fs s \<Longrightarrow> pt_wf l (mem s) p \<Longrightarrow> set fs \<inter> tpages l (mem s) p = {} \<Longrightarrow>
   \<exists>a s' ts fs'. walk_levels l p va True s = Ok (a, s') \<and> walked l p va fs s a s' ts fs'"
proof (induction l arbitrary: p fs s)
  case 0
  have "slot p 0 va \<noteq> 0" using lookup_addr [of 0 "mem s" p va] 0 by simp
  then show ?case using 0 by (auto simp: walked_def intro!: exI [of _ "[]"])
next
  case (Suc l)
  let ?i = "px (Suc l) va" and ?a = "slot p (Suc l) va"
  have e: "load64 ?a s = entry (mem s) p ?i" by (simp add: load64_def slot_entry)
  have tp: "\<forall>q\<in>set fs. tpage q" and df: "distinct fs"
    using kmem_inv_tpage [OF Suc.prems(1)] Suc.prems(1) by (auto simp: kmem_inv_def)
  show ?case
  proof (cases "valid (entry (mem s) p ?i)")
    case True
    let ?c = "PTE2PA (entry (mem s) p ?i)"
    have b: "below l (mem s) p ?i = tpages l (mem s) ?c" using True by (simp add: below_def)
    have "pt_wf l (mem s) ?c" using Suc.prems(2) True by simp
    moreover have "set fs \<inter> tpages l (mem s) ?c = {}"
      using Suc.prems(3) below_subset [OF px_less, of l "mem s" p "Suc l" va] b by auto
    ultimately obtain a s' ts fs' where w: "walk_levels l ?c va True s = Ok (a, s')"
        "walked l ?c va fs s a s' ts fs'"
      using Suc.IH Suc.prems(1) by blast
    have "walked (Suc l) p va ([] @ fs) s a s' ([] @ ts) fs'"
      by (rule walked_step [OF Suc.prems(2) True _ _ refl _ w(2)])
        (use True b df tp Suc.prems(3) in \<open>auto simp: ptev_Suc\<close>)
    moreover have "walk_levels (Suc l) p va True s = Ok (a, s')" using True w(1) e by (simp add: Let_def)
    ultimately show ?thesis by auto
  next
    case False
    show ?thesis
    proof (cases fs)
      case Nil
      let ?s = "s\<lparr>cpus := bumped (cpus s) (hart s)\<rparr>"
      have k: "kalloc s = Ok (0, ?s)" using kalloc_empty Suc.prems(1) Nil by simp
      then have "walk_levels (Suc l) p va True s = Ok (0, ?s)" using False e by (simp add: Let_def)
      moreover have "walked (Suc l) p va fs s 0 ?s [] []"
        using Nil Suc.prems by (auto simp: walked_def grow_def mem_step_def ref_count_def kmem_inv_def)
      ultimately show ?thesis by blast
    next
      case (Cons q fs1)
      let ?v = "PA2PTE q OR PTE_V"
      have tpp: "tpage p" "p \<notin> set (q # fs1)" using Suc.prems(2,3) Cons by (auto simp: tpages_Suc)
      have a: "?a = p + 8 * of_nat ?i" by (simp add: slot_def px_def)
      from install_table [OF Suc.prems(1) [unfolded Cons] tpp px_less a, of ?v]
      obtain s1 s2 where k: "kalloc s = Ok (q, s1)" "q \<noteq> 0" and s2: "s2 = store64 ?a ?v (memset_pg q 0 s1)"
        and inv2: "kmem_inv fs1 s2" and g: "grow [q] {p} s s2"
        and z: "\<forall>x. page_of x = page_of q \<longrightarrow> mem s2 x = 0" and ei: "entry (mem s2) p ?i = ?v"
        and ej: "\<forall>j<512. j \<noteq> ?i \<longrightarrow> entry (mem s2) p j = entry (mem s) p j"
        by blast
      have tq: "tpage q" using tp Cons by simp
      then have pq: "PTE2PA ?v = q" by (simp add: PTE2PA_PA2PTE tpage_def)
      have zt: "pt_wf l (mem s2) q" "tpages l (mem s2) q = {q}" "ptev l (mem s2) q vb = 0" for vb
        using zero_table [OF tq] z by auto
      have "set fs1 \<inter> tpages l (mem s2) q = {}" using zt(2) df Cons by simp
      then obtain a s' ts fs' where w: "walk_levels l q va True s2 = Ok (a, s')"
          "walked l q va fs1 s2 a s' ts fs'"
        using Suc.IH [OF inv2 zt(1)] by blast
      have "walked (Suc l) p va ([q] @ fs1) s a s' ([q] @ ts) fs'"
        by (rule walked_step [OF Suc.prems(2) _ _ ej refl g w(2)])
          (use zt False df tp Suc.prems(3) Cons pq ei in \<open>auto simp: ptev_Suc below_def\<close>)
      moreover have "walk_levels (Suc l) p va True s = Ok (a, s')"
        using False e k s2 w(1) by (simp add: Let_def)
      ultimately show ?thesis using Cons by auto
    qed
  qed
qed

end
