(* ===== verification/Sample.thy ===== *)
theory Sample
  imports Pagetable
begin

unbundle bit_operations_syntax

text \<open>
  A small concrete machine on which the hypotheses of the memory theorems are checked: one process
  with a single page, a second, empty page table, and three free pages.
\<close>

section \<open>Memory from a list of cells\<close>

primrec mem_of :: "(u64 \<times> u64) list \<Rightarrow> memory" where
  "mem_of [] = (\<lambda>_. 0)"
| "mem_of (x # xs) = st64 (fst x) (snd x) (mem_of xs)"

lemma ld64_mem_of:
  "\<forall>x\<in>set xs. aligned 3 (fst x) \<Longrightarrow> aligned 3 a \<Longrightarrow>
   ld64 (mem_of xs) a = (case map_of xs a of None \<Rightarrow> 0 | Some v \<Rightarrow> v)"
proof (induction xs)
  case (Cons x xs)
  then show ?case by (cases "fst x = a") (auto simp: ld64_st64_other split: option.splits)
qed simp

lemma entry_mem_of:
  assumes "\<forall>x\<in>set xs. aligned 12 (fst x)" and "aligned 12 p" and "i < 512"
  shows "entry (mem_of xs) p i = (if i = 0 then case map_of xs p of None \<Rightarrow> 0 | Some v \<Rightarrow> v else 0)"
proof -
  have al: "\<forall>x\<in>set xs. aligned 3 (fst x)" using assms(1) aligned_mono [of 12 _ 3] by auto
  have e: "entry (mem_of xs) p i = (case map_of xs (p + 8 * of_nat i) of None \<Rightarrow> 0 | Some v \<Rightarrow> v)"
    unfolding entry_def by (rule ld64_mem_of [OF al entry_addr(2) [OF assms(2,3)]])
  have "map_of xs (p + 8 * of_nat i) = None" if "i \<noteq> 0"
  proof (rule ccontr)
    assume "map_of xs (p + 8 * of_nat i) \<noteq> None"
    then obtain v where "(p + 8 * of_nat i, v) \<in> set xs" by (auto dest: map_of_SomeD)
    with assms(1) have al2: "aligned 12 (p + 8 * of_nat i)" by force
    have "p + 8 * of_nat i = p"
      using page_of_inj [OF al2 assms(2)] entry_addr(1) [OF assms(2,3)] by simp
    with entry_addr(3) [OF assms(2,3)] that show False by simp
  qed
  with e show ?thesis by simp
qed

section \<open>The sample machine\<close>

text \<open>
  The parent's table has its root at \<open>0x80010000\<close>, its directory and leaf table behind it; its
  page 0 is at \<open>0x80014000\<close>. The child's empty root is \<open>0x80013000\<close>.
\<close>

definition sample_cells :: "(u64 \<times> u64) list" where
  "sample_cells = [(0x80010000, 0x20004401), (0x80011000, 0x20004801), (0x80012000, 0x20005017),
     (0x80014000, 0x2A), (0x80015000, 0x80016000), (0x80016000, 0x80017000), (0x80017000, 0)]"

definition sample :: kstate where
  "sample = \<lparr>hart = 0, cpus = (\<lambda>_. \<lparr>cproc = None, noff = 0, intena = False, sie = False\<rparr>),
     locks = (\<lambda>_. free_lock), mem = mem_of sample_cells, freelist = 0x80015000,
     no_of_ref_array = (\<lambda>i. if i = 0x80014 then 1 else 0), kend = 0x80008000\<rparr>"

lemma sample_cells_aligned: "\<forall>x\<in>set sample_cells. aligned 12 (fst x)"
  by (simp add: sample_cells_def aligned_unat)

lemma sample_entry: "aligned 12 p \<Longrightarrow> i < 512 \<Longrightarrow> entry (mem sample) p i =
   (if i = 0 then case map_of sample_cells p of None \<Rightarrow> 0 | Some v \<Rightarrow> v else 0)"
  by (simp add: sample_def entry_mem_of [OF sample_cells_aligned])

lemma sample_pages:
  "tpage 0x80010000" "tpage 0x80011000" "tpage 0x80012000" "tpage 0x80013000"
  "aligned 12 (0x80010000::u64)" "aligned 12 (0x80011000::u64)" "aligned 12 (0x80012000::u64)"
  "aligned 12 (0x80013000::u64)" "aligned 12 (0x80014000::u64)"
  by (simp_all add: tpage_def aligned_unat)

lemma sample_ptes:
  "PTE2PA 0x20004401 = 0x80011000" "PTE2PA 0x20004801 = 0x80012000" "PTE2PA 0x20005017 = 0x80014000"
  by (simp_all add: PTE2PA_def)

lemmas sample_simps = sample_entry sample_pages sample_ptes sample_cells_def valid_bit

lemma UN_below_first:
  "(\<And>i. i < 512 \<Longrightarrow> below l m p i = (if i = 0 then A else {})) \<Longrightarrow> (\<Union>i<512. below l m p i) = A"
  by (auto split: if_splits)

lemma sample_below0:
  "i < 512 \<Longrightarrow> below 0 (mem sample) 0x80011000 i = (if i = 0 then {0x80012000} else {})"
  by (simp add: below_def sample_simps)

lemma sample_level1:
  "tpages (Suc 0) (mem sample) 0x80011000 = {0x80011000, 0x80012000}"
  "pt_wf (Suc 0) (mem sample) 0x80011000"
  by (simp_all add: tpages_Suc UN_below_first [OF sample_below0] sample_below0 sample_simps)

lemma sample_below1: "i < 512 \<Longrightarrow>
   below (Suc 0) (mem sample) 0x80010000 i = (if i = 0 then {0x80011000, 0x80012000} else {})"
  by (simp add: below_def sample_level1 sample_simps)

lemma sample_parent:
  "tpages 2 (mem sample) 0x80010000 = {0x80010000, 0x80011000, 0x80012000}"
  "pt_wf 2 (mem sample) 0x80010000"
  "ptev 2 (mem sample) 0x80010000 0 = 0x20005017"
proof -
  show "tpages 2 (mem sample) 0x80010000 = {0x80010000, 0x80011000, 0x80012000}"
    by (simp add: numeral_2_eq_2 tpages_Suc [of "Suc 0"] UN_below_first [OF sample_below1])
  show "pt_wf 2 (mem sample) 0x80010000"
    unfolding numeral_2_eq_2 by (subst pt_wf.simps(2))
      (use sample_level1(2) in \<open>simp add: sample_below1 sample_simps del: pt_wf.simps(2)\<close>)
  show "ptev 2 (mem sample) 0x80010000 0 = 0x20005017"
    unfolding numeral_2_eq_2 by (simp add: ptev_Suc ptev_0 px_def PX_def sample_simps)
qed

lemma sample_child:
  "tpages 2 (mem sample) 0x80013000 = {0x80013000}" "pt_wf 2 (mem sample) 0x80013000"
  "ptev 2 (mem sample) 0x80013000 va = 0"
  using empty_table [of "0x80013000" "mem sample" 2] by (simp_all add: sample_simps)

lemma sample_ld64:
  "aligned 3 a \<Longrightarrow> ld64 (mem sample) a = (case map_of sample_cells a of None \<Rightarrow> 0 | Some v \<Rightarrow> v)"
  using ld64_mem_of [of sample_cells a] sample_cells_aligned aligned_mono [of 12 _ 3]
  by (auto simp: sample_def)

lemma sample_fields:
  "freelist sample = 0x80015000" "kend sample = 0x80008000" "hart sample = 0" "locks sample l = free_lock"
  "cpus sample h = \<lparr>cproc = None, noff = 0, intena = False, sie = False\<rparr>"
  "no_of_ref_array sample i = (if i = 0x80014 then 1 else 0)"
  by (simp_all add: sample_def)

lemma sample_kmem: "kmem_inv [0x80015000, 0x80016000, 0x80017000] sample"
  by (simp add: kmem_inv_def page_ok_def ref_count_def ref_idx_def cpu_ok_def sample_fields sample_ld64
      sample_cells_def aligned_unat PHYSTOP_def KERNBASE_def)

end
