(* ===== verification/Cow.thy ===== *)
theory Cow
  imports Pagetable Sample
begin

unbundle bit_operations_syntax

text \<open>
  The operations of kernel/vm.c and the copy-on-write part of kernel/trap.c against the abstract
  view of Pagetable: \<open>walk\<close> is a lookup, \<open>mappages\<close> and \<open>map_new_to_old\<close> are
  function updates, \<open>uvmcopy\<close> shares every page of the parent with the child and marks it
  copy-on-write on both sides, and \<open>write_trap\<close> gives the faulting process a private copy.
\<close>

section \<open>One table\<close>

definition vm_inv :: "u64 \<Rightarrow> u64 list \<Rightarrow> 'a kstate_scheme \<Rightarrow> bool" where
  "vm_inv pt fs s \<longleftrightarrow> kmem_inv fs s \<and> pt_wf 2 (mem s) pt \<and> set fs \<inter> tpages 2 (mem s) pt = {}"

abbreviation pte_at :: "'a kstate_scheme \<Rightarrow> u64 \<Rightarrow> u64 \<Rightarrow> u64" where
  "pte_at s pt va \<equiv> ptev 2 (mem s) pt va"

lemma walk_levels_lookup:
  "walk_levels l pt va False s =
     Ok (case lookup l (mem s) pt va of None \<Rightarrow> 0 | Some a \<Rightarrow> a, s)"
  by (induction l arbitrary: pt) (auto simp: Let_def load64_def lookup_Suc slot_entry)

lemma walk_lookup:
  "va < MAXVA \<Longrightarrow> walk pt va False s =
     Ok (case lookup 2 (mem s) pt va of None \<Rightarrow> 0 | Some a \<Rightarrow> a, s)"
  by (simp add: walk_def walk_levels_lookup leD)

text \<open>A present entry is found at an address of the table.\<close>

lemma walk_present:
  assumes "pt_wf 2 (mem s) pt" and "va < MAXVA" and "pte_at s pt va \<noteq> 0"
  shows "\<exists>a. walk pt va False s = Ok (a, s) \<and> lookup 2 (mem s) pt va = Some a \<and> a \<noteq> 0 \<and>
    load64 a s = pte_at s pt va"
proof -
  from assms(3) obtain a where a: "lookup 2 (mem s) pt va = Some a"
    by (cases "lookup 2 (mem s) pt va") (auto simp: ptev_def)
  then show ?thesis
    using lookup_addr [OF assms(1) a] walk_lookup [OF assms(2), of pt s] by (auto simp: ptev_def load64_def)
qed

lemma walkaddr_view:
  assumes "pt_wf 2 (mem s) pt"
  shows "walkaddr pt va s = Ok (if va < MAXVA \<and> valid (pte_at s pt va) \<and> pte_at s pt va AND PTE_U \<noteq> 0
    then PTE2PA (pte_at s pt va) else 0, s)"
proof (cases "va < MAXVA")
  case True
  then show ?thesis
    using lookup_addr [OF assms, of va] walk_lookup [OF True, of pt s]
    by (cases "lookup 2 (mem s) pt va") (auto simp: walkaddr_def ptev_def load64_def not_le)
qed (auto simp: walkaddr_def not_less)

text \<open>
  \<open>remap pt fs s s' ts fs' g\<close>: the table at \<open>pt\<close> went from \<open>s\<close> to \<open>s'\<close>, taking
  the pages \<open>ts\<close> off the free list, and its entries are now \<open>g\<close>.
\<close>

definition remap :: "u64 \<Rightarrow> u64 list \<Rightarrow> 'a kstate_scheme \<Rightarrow> 'a kstate_scheme \<Rightarrow> u64 list \<Rightarrow> u64 list \<Rightarrow>
    (u64 \<Rightarrow> u64) \<Rightarrow> bool" where
  "remap pt fs s s' ts fs' g \<longleftrightarrow> fs = ts @ fs' \<and> vm_inv pt fs' s' \<and>
     grow ts (tpages 2 (mem s) pt) s s' \<and> tpages 2 (mem s') pt = tpages 2 (mem s) pt \<union> set ts \<and>
     (\<forall>vb<MAXVA. pte_at s' pt vb = g vb)"

lemma vm_inv_distinct: "vm_inv pt fs s \<Longrightarrow> distinct fs"
  by (simp add: vm_inv_def kmem_inv_def)

lemma remap_trans:
  assumes "vm_inv pt fs s" and "remap pt fs s s1 ts fs1 g" and "remap pt fs1 s1 s2 us fs2 h"
  shows "remap pt fs s s2 (ts @ us) fs2 h"
proof -
  have "distinct (ts @ us)"
    using vm_inv_distinct [OF assms(1)] assms(2,3) by (auto simp: remap_def)
  then have "grow (ts @ us) (tpages 2 (mem s) pt) s s2"
    using assms(2,3) by (intro grow_trans) (auto simp: remap_def)
  then show ?thesis using assms(2,3) by (auto simp: remap_def)
qed

lemma remap_cong:
  "remap pt fs s s' ts fs' g \<Longrightarrow> (\<And>vb. vb < MAXVA \<Longrightarrow> g vb = h vb) \<Longrightarrow> remap pt fs s s' ts fs' h"
  by (simp add: remap_def)

lemma leaf_page_not_free:
  assumes "vm_inv pt fs s" and "lookup 2 (mem s) pt va = Some a"
  shows "aligned 3 a" and "page_of a \<in> page_of ` tpages 2 (mem s) pt" and "page_of a \<notin> page_of ` set fs"
proof -
  from lookup_addr [OF _ assms(2)] assms(1) obtain q where q: "aligned 3 a" "q \<in> tpages 2 (mem s) pt"
      "page_of a = page_of q"
    by (auto simp: vm_inv_def)
  then show "aligned 3 a" "page_of a \<in> page_of ` tpages 2 (mem s) pt" by auto
  have "page_of ` set fs \<inter> page_of ` tpages 2 (mem s) pt = {}"
    using assms(1) tpages_tpage [of 2 "mem s" pt] kmem_inv_tpage [of fs s]
    by (intro page_disjoint) (auto simp: vm_inv_def tpage_def)
  then show "page_of a \<notin> page_of ` set fs" using q by blast
qed

lemma mem_store64 [simp]: "mem (store64 a v s) = st64 a v (mem s)"
  by (simp add: store64_def)

lemma remap_store:
  assumes "vm_inv pt fs s" and "lookup 2 (mem s) pt va = Some a" and "va < MAXVA"
  shows "remap pt fs s (store64 a v s) [] fs (\<lambda>vb. if page_of vb = page_of va then v else pte_at s pt vb)"
proof -
  note lp = leaf_page_not_free [OF assms(1,2)]
  have wf: "pt_wf 2 (mem s) pt" using assms(1) by (simp add: vm_inv_def)
  have "kmem_inv fs (store64 a v s)"
    using assms(1) lp by (intro kmem_inv_store64) (auto simp: vm_inv_def)
  moreover have "grow [] (tpages 2 (mem s) pt) s (store64 a v s)" by (rule store64_grow [OF lp(1,2)])
  ultimately show ?thesis
    using assms leaf_store [OF wf assms(2)] ptev_leaf_store [OF wf assms(2,3)]
    by (simp add: remap_def vm_inv_def)
qed

text \<open>\<open>walk\<close> with allocation changes no entry and finds a slot when two pages are free.\<close>

lemma walk_alloc:
  assumes inv: "vm_inv pt fs s" and va: "va < MAXVA"
  shows "\<exists>a s' ts fs'. walk pt va True s = Ok (a, s') \<and> remap pt fs s s' ts fs' (pte_at s pt) \<and>
    length ts \<le> 2 \<and> (a = 0 \<longrightarrow> fs' = [] \<and> length fs < 2) \<and>
    (a \<noteq> 0 \<longrightarrow> lookup 2 (mem s') pt va = Some a)"
proof -
  from inv obtain a s' ts fs' where w: "walk_levels 2 pt va True s = Ok (a, s')"
      "walked 2 pt va fs s a s' ts fs'"
    using walk_levels_alloc [of fs s 2 pt va] by (auto simp: vm_inv_def)
  have "distinct fs" using inv by (rule vm_inv_distinct)
  moreover have "set fs \<inter> tpages 2 (mem s) pt = {}" using inv by (simp add: vm_inv_def)
  ultimately have "remap pt fs s s' ts fs' (pte_at s pt)"
    using w(2) by (auto simp: walked_def remap_def vm_inv_def)
  moreover have "walk pt va True s = Ok (a, s')" using va w(1) by (simp add: walk_def leD)
  ultimately show ?thesis using w(2) by (auto simp: walked_def)
qed

text \<open>Mapping one page that is not mapped.\<close>

lemma map_one:
  assumes inv: "vm_inv pt fs s" and va: "va < MAXVA" and free: "\<not> valid (pte_at s pt va)"
    and len: "2 \<le> length fs"
  shows "\<exists>s' ts fs'. mappages_loop 0 pt va pa perm s = Ok (0, s') \<and> length ts \<le> 2 \<and>
    remap pt fs s s' ts fs'
      (\<lambda>vb. if page_of vb = page_of va then PA2PTE pa OR perm OR PTE_V else pte_at s pt vb)"
proof -
  from walk_alloc [OF inv va] len obtain a s1 ts fs1 where w: "walk pt va True s = Ok (a, s1)"
      and r: "remap pt fs s s1 ts fs1 (pte_at s pt)" and l2: "length ts \<le> 2" and a: "a \<noteq> 0"
      and lk: "lookup 2 (mem s1) pt va = Some a"
    by fastforce
  have inv1: "vm_inv pt fs1 s1" using r by (simp add: remap_def)
  let ?v = "PA2PTE pa OR perm OR PTE_V"
  have e: "load64 a s1 = pte_at s pt va" using lk r va by (auto simp: remap_def ptev_def load64_def)
  have "remap pt fs s (store64 a ?v s1) (ts @ []) fs1
      (\<lambda>vb. if page_of vb = page_of va then ?v else pte_at s1 pt vb)"
    by (rule remap_trans [OF inv r remap_store [OF inv1 lk va]])
  then have "remap pt fs s (store64 a ?v s1) ts fs1
      (\<lambda>vb. if page_of vb = page_of va then ?v else pte_at s pt vb)"
    using r by (auto simp: remap_def)
  moreover have "mappages_loop 0 pt va pa perm s = Ok (0, store64 a ?v s1)"
    using w a e free by (simp add: mappages_loop.simps Let_def)
  ultimately show ?thesis using l2 by blast
qed

section \<open>Mapping a range\<close>

text \<open>The pages \<open>a\<close>, \<open>a + PGSIZE\<close>, \<dots> of a range of \<open>n\<close> pages.\<close>

primrec vas :: "u64 \<Rightarrow> nat \<Rightarrow> u64 list" where
  "vas a 0 = []"
| "vas a (Suc n) = a # vas (a + PGSIZE) n"

lemma length_vas [simp]: "length (vas a n) = n"
  by (induction n arbitrary: a) auto

lemma page_step_page:
  assumes "unat a + 4096 < 2 ^ 64"
  shows "unat (a + PGSIZE) = unat a + 4096" and "unat (page_of (a + PGSIZE)) = unat (page_of a) + 1"
proof -
  show u: "unat (a + PGSIZE) = unat a + 4096"
    using assms by (simp add: PGSIZE_def unat_word_ariths)
  show "unat (page_of (a + PGSIZE)) = unat (page_of a) + 1"
    unfolding page_of_def unat_drop u by simp
qed

text \<open>The address of the \<open>k\<close>-th page, and its page number.\<close>

lemma vas_pages:
  "unat a + 4096 * n < 2 ^ 64 \<Longrightarrow> page_of vb \<in> page_of ` set (vas a n) \<longleftrightarrow>
     unat (page_of a) \<le> unat (page_of vb) \<and> unat (page_of vb) < unat (page_of a) + n"
proof (induction n arbitrary: a)
  case (Suc n)
  have u: "unat (a + PGSIZE) = unat a + 4096" "unat (page_of (a + PGSIZE)) = unat (page_of a) + 1"
    using page_step_page [of a] Suc.prems by auto
  have "page_of vb \<in> page_of ` set (vas (a + PGSIZE) n) \<longleftrightarrow>
      unat (page_of a) + 1 \<le> unat (page_of vb) \<and> unat (page_of vb) < unat (page_of a) + 1 + n"
    using Suc.IH [of "a + PGSIZE"] Suc.prems u by simp
  then show ?case by (auto simp: word_unat_eq_iff)
qed simp

lemma vas_head_notin:
  assumes "unat a + 4096 * Suc n < 2 ^ 64"
  shows "page_of a \<notin> page_of ` set (vas (a + PGSIZE) n)"
  using vas_pages [of "a + PGSIZE" n a] page_step_page [of a] assms by auto

lemma vas_bound:
  "unat a + 4096 * n < 2 ^ 64 \<Longrightarrow> v \<in> set (vas a n) \<Longrightarrow> unat a \<le> unat v \<and> unat v + 4096 \<le> unat a + 4096 * n"
proof (induction n arbitrary: a)
  case (Suc n)
  have u: "unat (a + PGSIZE) = unat a + 4096" using page_step_page(1) [of a] Suc.prems(1) by simp
  from Suc.prems(2) consider "v = a" | "v \<in> set (vas (a + PGSIZE) n)" by auto
  then show ?case using Suc.IH [of "a + PGSIZE"] Suc.prems(1) u by cases auto
qed simp

lemma page_of_step:
  assumes "unat a + 4096 < 2 ^ 64"
  shows "page_of (a + PGSIZE) = page_of a + 1"
proof -
  have "unat (page_of a) \<le> unat a" by (simp add: page_of_def unat_drop)
  then have "unat (page_of a + 1) = unat (page_of a) + 1" using assms by (simp add: unat_word_ariths)
  then show ?thesis using page_step_page(2) [OF assms] by (simp add: word_unat_eq_iff)
qed

definition off_pages :: "u64 \<Rightarrow> u64 \<Rightarrow> u64" where
  "off_pages a vb = (page_of vb - page_of a) * PGSIZE"

text \<open>
  The loop of \<open>mappages\<close> on \<open>n + 1\<close> unmapped pages: page \<open>k\<close> of the range gets
  physical page \<open>k\<close>, every other entry stays.
\<close>

lemma mappages_loop_spec:
  "vm_inv pt fs s \<Longrightarrow> unat a + 4096 * n < 2 ^ 38 \<Longrightarrow> 2 * (n + 1) \<le> length fs \<Longrightarrow>
   \<forall>va\<in>set (vas a (n + 1)). \<not> valid (pte_at s pt va) \<Longrightarrow>
   \<exists>s' ts fs'. mappages_loop n pt a pa perm s = Ok (0, s') \<and> length ts \<le> 2 * (n + 1) \<and>
     remap pt fs s s' ts fs' (\<lambda>vb. if page_of vb \<in> page_of ` set (vas a (n + 1))
       then PA2PTE (pa + off_pages a vb) OR perm OR PTE_V else pte_at s pt vb)"
proof (induction n arbitrary: a pa s fs)
  case 0
  have va: "a < MAXVA" using 0 by (simp add: word_less_nat_alt MAXVA_nat)
  show ?case
  proof -
    from map_one [OF 0(1) va, of pa perm] 0 obtain s' ts fs' where "mappages_loop 0 pt a pa perm s = Ok (0, s')"
        "length ts \<le> 2" "remap pt fs s s' ts fs'
          (\<lambda>vb. if page_of vb = page_of a then PA2PTE pa OR perm OR PTE_V else pte_at s pt vb)"
      by auto
    moreover from this(3) have "remap pt fs s s' ts fs' (\<lambda>vb. if page_of vb \<in> page_of ` set (vas a (0 + 1))
       then PA2PTE (pa + off_pages a vb) OR perm OR PTE_V else pte_at s pt vb)"
      by (auto simp: remap_def off_pages_def)
    ultimately show ?thesis by auto
  qed
next
  case (Suc n)
  have va: "a < MAXVA" using Suc.prems(2) by (simp add: word_less_nat_alt MAXVA_nat)
  have u: "unat (a + PGSIZE) = unat a + 4096" using page_step_page [of a] Suc.prems(2) by simp
  have ba: "unat a + 4096 * Suc (Suc n) < 2 ^ 64" using Suc.prems(2) by simp
  have fr: "\<not> valid (pte_at s pt a)" using Suc.prems(4) by simp
  from map_one [OF Suc.prems(1) va fr, of pa perm] Suc.prems(3) obtain s1 ts fs1 where
      m1: "mappages_loop 0 pt a pa perm s = Ok (0, s1)" and l1: "length ts \<le> 2"
      and r1: "remap pt fs s s1 ts fs1
          (\<lambda>vb. if page_of vb = page_of a then PA2PTE pa OR perm OR PTE_V else pte_at s pt vb)"
    by auto
  have fs1: "fs = ts @ fs1" "vm_inv pt fs1 s1" using r1 by (auto simp: remap_def)
  let ?vs = "vas (a + PGSIZE) (n + 1)"
  have notin: "page_of a \<notin> page_of ` set ?vs" using vas_head_notin [OF ba] by simp
  have bound: "v < MAXVA" if "v \<in> set ?vs" for v
    using vas_bound [of "a + PGSIZE" "n + 1" v] that Suc.prems(2) u by (simp add: word_less_nat_alt MAXVA_nat)
  have fr1: "\<forall>v\<in>set ?vs. \<not> valid (pte_at s1 pt v)"
  proof
    fix v assume v: "v \<in> set ?vs"
    then have "page_of v \<in> page_of ` set ?vs" by (rule imageI)
    with notin have "page_of v \<noteq> page_of a" by metis
    then show "\<not> valid (pte_at s1 pt v)" using r1 bound [OF v] Suc.prems(4) v by (auto simp: remap_def)
  qed
  have pre: "unat (a + PGSIZE) + 4096 * n < 2 ^ 38" "2 * (n + 1) \<le> length fs1"
    using u Suc.prems(2,3) l1 fs1(1) by auto
  from Suc.IH [OF fs1(2) pre fr1, of "pa + PGSIZE"] obtain s' us fs' where
      m2: "mappages_loop n pt (a + PGSIZE) (pa + PGSIZE) perm s1 = Ok (0, s')"
      and l2: "length us \<le> 2 * (n + 1)"
      and r2: "remap pt fs1 s1 s' us fs' (\<lambda>vb. if page_of vb \<in> page_of ` set ?vs
       then PA2PTE (pa + PGSIZE + off_pages (a + PGSIZE) vb) OR perm OR PTE_V else pte_at s1 pt vb)"
    by blast
  have pg: "page_of (a + PGSIZE) = page_of a + 1" using page_of_step [of a] Suc.prems(2) by simp
  have off: "pa + PGSIZE + off_pages (a + PGSIZE) vb = pa + off_pages a vb" for vb
    unfolding off_pages_def pg by (simp add: algebra_simps)
  have "remap pt fs s s' (ts @ us) fs' (\<lambda>vb. if page_of vb \<in> page_of ` set (vas a (Suc n + 1))
       then PA2PTE (pa + off_pages a vb) OR perm OR PTE_V else pte_at s pt vb)"
  proof (rule remap_cong [OF remap_trans [OF Suc.prems(1) r1 r2]], unfold off)
    fix vb assume vb: "vb < MAXVA"
    have mem: "page_of vb \<in> page_of ` set (vas a (Suc n + 1)) \<longleftrightarrow>
        page_of vb = page_of a \<or> page_of vb \<in> page_of ` set ?vs" by auto
    have "page_of vb = page_of a \<Longrightarrow> off_pages a vb = 0" by (simp add: off_pages_def)
    with r1 vb show "(if page_of vb \<in> page_of ` set ?vs then PA2PTE (pa + off_pages a vb) OR perm OR PTE_V
          else pte_at s1 pt vb) =
        (if page_of vb \<in> page_of ` set (vas a (Suc n + 1)) then PA2PTE (pa + off_pages a vb) OR perm OR PTE_V
          else pte_at s pt vb)"
      unfolding mem by (simp add: remap_def del: vas.simps)
  qed
  moreover have "mappages_loop (Suc n) pt a pa perm s = Ok (0, s')"
    using m1 m2 by (subst mappages_loop.simps) (auto simp: mappages_loop.simps [of 0] Let_def split: if_splits)
  ultimately show ?case using l1 l2 by (intro exI [of _ s'] exI [of _ "ts @ us"] exI [of _ fs']) auto
qed

section \<open>Two tables: uvmcopy\<close>

definition vm2 :: "u64 \<Rightarrow> u64 \<Rightarrow> u64 list \<Rightarrow> 'a kstate_scheme \<Rightarrow> bool" where
  "vm2 old new fs s \<longleftrightarrow> vm_inv old fs s \<and> vm_inv new fs s \<and>
     tpages 2 (mem s) old \<inter> tpages 2 (mem s) new = {}"

text \<open>What sharing does to an entry: copy-on-write set, write permission cleared.\<close>

definition cow :: "u64 \<Rightarrow> u64" where
  "cow e = (e OR PTE_CW) AND NOT PTE_W"

lemma PTE2PA_cow [simp]: "PTE2PA (cow e) = PTE2PA e"
  by (simp add: cow_def PTE2PA_and_low PTE2PA_or_low)

lemma cow_bits: "bit (cow e) n \<longleftrightarrow> n = 8 \<or> n \<noteq> 2 \<and> bit e n"
proof -
  have "n < 64" if "bit e n" using that by (rule bit_u64_less)
  then show ?thesis by (auto simp: cow_def bit_flags bit_or_iff bit_and_iff bit_not_iff)
qed

lemma valid_cow [simp]: "valid (cow e) \<longleftrightarrow> valid e"
  by (simp add: valid_bit cow_bits)

lemma tpages_pages_disjoint:
  assumes "pt_wf l m p" and "pt_wf k m q" and "\<forall>r\<in>set ts. tpage r" and "tpages l m p \<inter> (tpages k m q \<union> set ts) = {}"
  shows "page_of ` tpages l m p \<inter> page_of ` (tpages k m q \<union> set ts) = {}"
  using assms tpages_tpage [of l m p] tpages_tpage [of k m q]
  by (intro page_disjoint) (auto simp: tpage_def)

text \<open>Changing one table leaves a table on other pages alone.\<close>

lemma other_table:
  assumes A: "vm_inv A fs s" and B: "vm_inv B fs s" and r: "remap A fs s s' ts fs' g"
    and d: "tpages 2 (mem s) B \<inter> tpages 2 (mem s) A = {}"
  shows "vm_inv B fs' s' \<and> tpages 2 (mem s') B = tpages 2 (mem s) B \<and> pte_at s' B vb = pte_at s B vb \<and>
    lookup 2 (mem s') B vb = lookup 2 (mem s) B vb"
proof -
  have fs: "fs = ts @ fs'" and g: "grow ts (tpages 2 (mem s) A) s s'" using r by (auto simp: remap_def)
  have "tpages 2 (mem s) B \<inter> (tpages 2 (mem s) A \<union> set ts) = {}" using d B fs by (auto simp: vm_inv_def)
  then have "page_of ` tpages 2 (mem s) B \<inter> page_of ` (tpages 2 (mem s) A \<union> set ts) = {}"
    using A B g by (intro tpages_pages_disjoint) (auto simp: vm_inv_def grow_def)
  with g have same: "same_on (tpages 2 (mem s) B) (mem s) (mem s')" by (rule grow_same_on)
  have wf: "pt_wf 2 (mem s) B" using B by (simp add: vm_inv_def)
  show ?thesis
    using table_frame [OF wf same] ptev_frame [OF wf same] r B fs
    by (auto simp: vm_inv_def remap_def)
qed

definition shared :: "u64 \<Rightarrow> u64 \<Rightarrow> u64 list \<Rightarrow> 'a kstate_scheme \<Rightarrow> 'a kstate_scheme \<Rightarrow>
    u64 list \<Rightarrow> u64 list \<Rightarrow> u64 list \<Rightarrow> bool" where
  "shared old new fs s s' ts fs' vs \<longleftrightarrow> fs = ts @ fs' \<and> vm2 old new fs' s' \<and> mem_step s s' \<and>
     tpages 2 (mem s') old = tpages 2 (mem s) old \<and> tpages 2 (mem s') new = tpages 2 (mem s) new \<union> set ts \<and>
     (\<forall>vb<MAXVA. pte_at s' old vb =
       (if page_of vb \<in> page_of ` set vs then cow (pte_at s old vb) else pte_at s old vb)) \<and>
     (\<forall>vb<MAXVA. pte_at s' new vb =
       (if page_of vb \<in> page_of ` set vs then cow (pte_at s old vb) else pte_at s new vb)) \<and>
     (\<forall>x. page_of x \<notin> page_of ` (tpages 2 (mem s) old \<union> tpages 2 (mem s) new \<union> set ts) \<longrightarrow> mem s' x = mem s x) \<and>
     (\<forall>q. tpage q \<longrightarrow> ref_count s' q = (if q \<in> set ts then 1
        else ref_count s q + of_nat (count_list (map (\<lambda>v. PTE2PA (pte_at s old v)) vs) q)))"

lemma shared_nil [simp]: "vm2 old new fs s \<Longrightarrow> shared old new fs s s [] fs []"
  by (simp add: shared_def)

definition data_ok :: "u64 \<Rightarrow> u64 list \<Rightarrow> 'a kstate_scheme \<Rightarrow> u64 \<Rightarrow> bool" where
  "data_ok pt fs s va \<longleftrightarrow> va < MAXVA \<and> valid (pte_at s pt va) \<and> page_ok (kend s) (PTE2PA (pte_at s pt va)) \<and>
     PTE2PA (pte_at s pt va) \<notin> set fs"

lemma increase_no_of_ref_ok:
  assumes "hart_ok s" and "unlocked RefLock s" and "page_ok (kend s) pa"
  shows "increase_no_of_ref pa s = Ok (s\<lparr>cpus := bumped (cpus s) (hart s),
    no_of_ref_array := (no_of_ref_array s)(ref_idx pa := ref_count s pa + 1)\<rparr>)"
proof -
  have "unat pa < 2281701376" using assms(3) by (auto simp: page_ok_def word_less_nat_alt)
  moreover have "unat pa mod 4096 = 0" using assms(3) by (auto simp: page_ok_def aligned_unat)
  ultimately have "unat (drop_bit 12 pa) < unat (drop_bit 12 PHYSTOP)" by (simp add: unat_drop)
  then have "\<not> ref_idx pa \<ge> drop_bit 12 PHYSTOP" by (simp add: ref_idx_def word_le_nat_alt)
  with assms(1,2) show ?thesis by (simp add: increase_no_of_ref_def set_ref_def ref_count_def)
qed

lemma set_ref_view:
  assumes "s' = s\<lparr>cpus := bumped (cpus s) (hart s), no_of_ref_array := (no_of_ref_array s)(ref_idx pa := v)\<rparr>"
    and "tpage pa" and "pa \<notin> set fs"
  shows "mem s' = mem s" and "mem_step s s'" and "kmem_inv fs s \<Longrightarrow> kmem_inv fs s'"
    and "tpage q \<Longrightarrow> ref_count s' q = (if q = pa then v else ref_count s q)"
proof -
  have idx: "ref_idx q = ref_idx pa \<longleftrightarrow> q = pa" if "tpage q" for q
    using ref_idx_inj that assms(2) by (simp add: tpage_def)
  show "mem s' = mem s" "mem_step s s'" using assms(1) by (simp_all add: mem_step_def)
  show "tpage q \<Longrightarrow> ref_count s' q = (if q = pa then v else ref_count s q)"
    using assms(1) idx by (simp add: ref_count_def)
  show "kmem_inv fs s'" if inv: "kmem_inv fs s"
  proof -
    have "ref_idx q \<noteq> ref_idx pa" if "q \<in> set fs" for q
      using idx [OF kmem_inv_tpage [OF inv that]] assms(3) that by auto
    then show ?thesis using inv assms(1) by (auto simp: kmem_inv_def ref_count_def)
  qed
qed

lemma change_flag_cow: "change_flag_from_write_to_cow a s = store64 a (cow (load64 a s)) s"
  by (simp add: change_flag_from_write_to_cow_def cow_def)

text \<open>Marking a parent entry and copying it to the child.\<close>

lemma share_entry:
  assumes inv: "vm2 old new fs s" and ok: "data_ok old fs s va" and len: "2 \<le> length fs"
  shows "\<exists>a s2 ts fs'. walk old va False s = Ok (a, s) \<and> a \<noteq> 0 \<and> load64 a s = pte_at s old va \<and>
    map_new_to_old a new va (change_flag_from_write_to_cow a s) = Ok s2 \<and>
    load64 a s2 = cow (pte_at s old va) \<and> length ts \<le> 2 \<and> fs = ts @ fs' \<and> vm2 old new fs' s2 \<and>
    grow ts (tpages 2 (mem s) old \<union> tpages 2 (mem s) new) s s2 \<and>
    tpages 2 (mem s2) old = tpages 2 (mem s) old \<and> tpages 2 (mem s2) new = tpages 2 (mem s) new \<union> set ts \<and>
    (\<forall>vb<MAXVA. pte_at s2 old vb =
      (if page_of vb = page_of va then cow (pte_at s old va) else pte_at s old vb)) \<and>
    (\<forall>vb<MAXVA. pte_at s2 new vb =
      (if page_of vb = page_of va then cow (pte_at s old va) else pte_at s new vb))"
proof -
  let ?e = "pte_at s old va" and ?P = "tpages 2 (mem s) old" and ?Q = "tpages 2 (mem s) new"
  have old: "vm_inv old fs s" and new: "vm_inv new fs s" and dj: "?P \<inter> ?Q = {}"
    using inv by (auto simp: vm2_def)
  have va: "va < MAXVA" and nz: "?e \<noteq> 0" using ok by (auto simp: data_ok_def)
  have "pt_wf 2 (mem s) old" using old by (simp add: vm_inv_def)
  from walk_present [OF this va nz] obtain a where w: "walk old va False s = Ok (a, s)"
      and lk: "lookup 2 (mem s) old va = Some a" and a: "a \<noteq> 0" "load64 a s = ?e"
    by blast
  define s1 where "s1 = store64 a (cow ?e) s"
  have r1: "remap old fs s s1 [] fs (\<lambda>vb. if page_of vb = page_of va then cow ?e else pte_at s old vb)"
    unfolding s1_def by (rule remap_store [OF old lk va])
  then have old1: "vm_inv old fs s1" and P1: "tpages 2 (mem s1) old = ?P" by (auto simp: remap_def)
  from other_table [OF old new r1] dj have new1: "vm_inv new fs s1" "tpages 2 (mem s1) new = ?Q"
      "pte_at s1 new vb = pte_at s new vb" for vb
    by auto
  from walk_alloc [OF new1(1) va] len obtain b s2 ts fs' where w2: "walk new va True s1 = Ok (b, s2)"
      and r2: "remap new fs s1 s2 ts fs' (pte_at s1 new)" and lt: "length ts \<le> 2" and b: "b \<noteq> 0"
      and lk2: "lookup 2 (mem s2) new va = Some b"
    by fastforce
  have new2: "vm_inv new fs' s2" "tpages 2 (mem s2) new = ?Q \<union> set ts" using r2 new1 by (auto simp: remap_def)
  from other_table [OF new1(1) old1 r2] dj P1 new1(2)
  have old2: "vm_inv old fs' s2" "tpages 2 (mem s2) old = ?P" "pte_at s2 old vb = pte_at s1 old vb"
      "lookup 2 (mem s2) old vb = lookup 2 (mem s1) old vb" for vb
    by auto
  have e2: "load64 a s2 = cow ?e" if "lookup 2 (mem s2) old va = Some a"
    using old2(3) [of va] r1 va that by (auto simp: remap_def ptev_def load64_def)
  have lka: "lookup 2 (mem s2) old va = Some a"
    using leaf_store [OF \<open>pt_wf 2 (mem s) old\<close> lk] lk old2(4) by (simp add: s1_def)
  define s3 where "s3 = store64 b (cow ?e) s2"
  have r3: "remap new fs' s2 s3 [] fs' (\<lambda>vb. if page_of vb = page_of va then cow ?e else pte_at s2 new vb)"
    unfolding s3_def by (rule remap_store [OF new2(1) lk2 va])
  have fs: "fs = ts @ fs'" using r2 by (simp add: remap_def)
  have dj2: "tpages 2 (mem s2) old \<inter> tpages 2 (mem s2) new = {}"
    using old2(2) new2(2) dj old fs by (auto simp: vm_inv_def)
  from other_table [OF new2(1) old2(1) r3 dj2]
  have old3: "vm_inv old fs' s3" "tpages 2 (mem s3) old = ?P" "pte_at s3 old vb = pte_at s2 old vb"
      "lookup 2 (mem s3) old vb = lookup 2 (mem s2) old vb" for vb
    using old2 by auto
  have new3: "vm_inv new fs' s3" "tpages 2 (mem s3) new = ?Q \<union> set ts" using r3 new2 by (auto simp: remap_def)
  have "load64 a s3 = cow ?e"
    using old3(3) [of va] old3(4) [of va] lka e2 by (simp add: ptev_def load64_def)
  moreover have "map_new_to_old a new va (change_flag_from_write_to_cow a s) = Ok s3"
    using w2 b a e2 lka by (simp add: map_new_to_old_def change_flag_cow s1_def s3_def)
  moreover have "grow ts (?P \<union> ?Q) s s3"
  proof -
    have g1: "grow [] (?P \<union> ?Q) s s1" using r1 by (auto simp: remap_def intro: grow_mono)
    have g2: "grow ts ?Q s1 s2" and g3: "grow [] (?Q \<union> set ts) s2 s3"
      using r2 r3 new1(2) new2(2) by (simp_all add: remap_def)
    have "distinct ts" using vm_inv_distinct [OF old] fs by simp
    then have "grow ([] @ ts) (?P \<union> ?Q) s s2" using g1 g2 by (intro grow_trans) auto
    then have "grow (([] @ ts) @ []) (?P \<union> ?Q) s s3"
      using g3 \<open>distinct ts\<close> by (intro grow_trans) auto
    then show ?thesis by simp
  qed
  moreover have "vm2 old new fs' s3" using old3 new3 dj2 old2(2) new2(2) by (simp add: vm2_def)
  moreover have "\<forall>vb<MAXVA. pte_at s3 old vb = (if page_of vb = page_of va then cow ?e else pte_at s old vb)"
    using old3(3) old2(3) r1 by (simp add: remap_def)
  moreover have "\<forall>vb<MAXVA. pte_at s3 new vb = (if page_of vb = page_of va then cow ?e else pte_at s new vb)"
    using r3 r2 new1(3) by (simp add: remap_def)
  ultimately show ?thesis using w a lt fs old3(2) new3(2)
    by (intro exI [of _ a] exI [of _ s3] exI [of _ ts] exI [of _ fs'] conjI) simp_all
qed

text \<open>One iteration of the loop of \<open>uvmcopy\<close>.\<close>

lemma uvmcopy_page:
  assumes inv: "vm2 old new fs s" and ok: "data_ok old fs s va" and len: "2 \<le> length fs" and sz: "va < sz"
  shows "\<exists>s' ts fs'. uvmcopy_loop old new va sz s = uvmcopy_loop old new (va + PGSIZE) sz s' \<and>
    length ts \<le> 2 \<and> shared old new fs s s' ts fs' [va]"
proof -
  let ?pa = "PTE2PA (pte_at s old va)" and ?P = "tpages 2 (mem s) old" and ?Q = "tpages 2 (mem s) new"
  from share_entry [OF inv ok len] obtain a s2 ts fs' where
      w: "walk old va False s = Ok (a, s)" "a \<noteq> 0" "load64 a s = pte_at s old va"
      and m: "map_new_to_old a new va (change_flag_from_write_to_cow a s) = Ok s2"
      and a2: "load64 a s2 = cow (pte_at s old va)" and lt: "length ts \<le> 2" and fs: "fs = ts @ fs'"
      and inv2: "vm2 old new fs' s2" and g: "grow ts (?P \<union> ?Q) s s2"
      and tp: "tpages 2 (mem s2) old = ?P" "tpages 2 (mem s2) new = ?Q \<union> set ts"
      and po: "\<forall>vb<MAXVA. pte_at s2 old vb = (if page_of vb = page_of va then cow (pte_at s old va) else pte_at s old vb)"
      and pn: "\<forall>vb<MAXVA. pte_at s2 new vb = (if page_of vb = page_of va then cow (pte_at s old va) else pte_at s new vb)"
    by blast
  define s' where "s' = s2\<lparr>cpus := bumped (cpus s2) (hart s2),
    no_of_ref_array := (no_of_ref_array s2)(ref_idx ?pa := ref_count s2 ?pa + 1)\<rparr>"
  have kf: "mem_step s s2" using g by (simp add: grow_def)
  have kinv: "kmem_inv fs' s2" using inv2 by (simp add: vm2_def vm_inv_def)
  have pa: "tpage ?pa" "?pa \<notin> set fs" "page_ok (kend s2) ?pa"
    using ok mem_step_frame(3) [OF kf] by (auto simp: data_ok_def tpage_def page_ok_def)
  have inc: "increase_no_of_ref ?pa s2 = Ok s'"
    unfolding s'_def using kinv pa(3) by (intro increase_no_of_ref_ok) (auto simp: kmem_inv_def)
  have pa': "?pa \<notin> set fs'" "?pa \<notin> set ts" using pa(2) fs by auto
  note v = set_ref_view [OF s'_def pa(1) pa'(1)]
  have "uvmcopy_loop old new va sz s = uvmcopy_loop old new (va + PGSIZE) sz s'"
    by (subst uvmcopy_loop.simps) (use sz w m a2 inc ok in \<open>simp add: data_ok_def\<close>)
  moreover have "shared old new fs s s' ts fs' [va]"
    unfolding shared_def
  proof (intro conjI allI impI)
    show "vm2 old new fs' s'" using inv2 v(1,3) by (simp add: vm2_def vm_inv_def)
    show "mem_step s s'" using kf v(2) by (rule mem_step_trans)
    show "mem s' x = mem s x" if "page_of x \<notin> page_of ` (?P \<union> ?Q \<union> set ts)" for x
      using that g v(1) by (simp add: grow_def)
    show "ref_count s' q = (if q \<in> set ts then 1
        else ref_count s q + of_nat (count_list (map (\<lambda>v. PTE2PA (pte_at s old v)) [va]) q))"
      if "tpage q" for q
      using v(4) [OF that] g that pa'(2) pa(1) by (auto simp: grow_def)
    fix vb assume vb: "vb < MAXVA"
    have "pte_at s old vb = pte_at s old va" if "page_of vb = page_of va"
      using that by (rule ptev_page_cong)
    then show "pte_at s' old vb = (if page_of vb \<in> page_of ` set [va] then cow (pte_at s old vb) else pte_at s old vb)"
      "pte_at s' new vb = (if page_of vb \<in> page_of ` set [va] then cow (pte_at s old vb) else pte_at s new vb)"
      using vb po pn v(1) by simp_all
  qed (use fs tp v(1) in simp_all)
  ultimately show ?thesis using lt by blast
qed

lemma shared_frame:
  assumes "vm2 old new fs s" and "shared old new fs s s' ts fs' vs" and "vb < MAXVA"
    and "page_of vb \<notin> page_of ` set vs" and "data_ok old fs s vb"
  shows "data_ok old fs' s' vb" and "pte_at s' old vb = pte_at s old vb"
proof -
  show e: "pte_at s' old vb = pte_at s old vb" using assms(2-4) by (simp add: shared_def)
  have "kend s' = kend s" using assms(2) mem_step_frame by (auto simp: shared_def)
  then show "data_ok old fs' s' vb" using assms(2,5) e by (auto simp: data_ok_def shared_def)
qed

lemma other_page: "page_of va \<notin> page_of ` set vs \<Longrightarrow> v \<in> set vs \<Longrightarrow> page_of v \<notin> page_of ` set [va]"
proof
  assume n: "page_of va \<notin> page_of ` set vs" and v: "v \<in> set vs" and "page_of v \<in> page_of ` set [va]"
  then have "page_of va = page_of v" by simp
  with n v show False by simp
qed

lemma shared_trans:
  assumes inv: "vm2 old new fs s" and A: "shared old new fs s s1 ts fs1 [va]"
    and B: "shared old new fs1 s1 s2 us fs2 vs" and ok: "\<forall>v\<in>set (va # vs). data_ok old fs s v"
    and d: "page_of va \<notin> page_of ` set vs"
  shows "shared old new fs s s2 (ts @ us) fs2 (va # vs)"
proof -
  let ?P = "tpages 2 (mem s) old" and ?Q = "tpages 2 (mem s) new"
  let ?f = "\<lambda>v. PTE2PA (pte_at s old v)"
  have eq: "pte_at s1 old v = pte_at s old v" if "v \<in> set vs" for v
  proof (rule shared_frame(2) [OF inv A])
    show "page_of v \<notin> page_of ` set [va]" using other_page [OF d that] .
  qed (use ok that in \<open>auto simp: data_ok_def\<close>)
  have fs: "fs = ts @ fs1" "fs1 = us @ fs2" using A B by (auto simp: shared_def)
  have dist: "distinct fs" using inv vm_inv_distinct by (auto simp: vm2_def)
  have map_eq: "map (\<lambda>v. PTE2PA (pte_at s1 old v)) vs = map ?f vs" using eq by simp
  have "?f v \<notin> set ts" if "v \<in> set (va # vs)" for v using ok that fs by (auto simp: data_ok_def)
  then have notin: "q \<notin> set (map ?f (va # vs))" if "q \<in> set ts" for q using that by force
  show ?thesis
    unfolding shared_def
  proof (intro conjI allI impI)
    show "mem s2 x = mem s x" if x: "page_of x \<notin> page_of ` (?P \<union> ?Q \<union> set (ts @ us))" for x
    proof -
      have "page_of x \<notin> page_of ` (tpages 2 (mem s1) old \<union> tpages 2 (mem s1) new \<union> set us)"
        using x A by (auto simp: shared_def)
      then have "mem s2 x = mem s1 x" using B by (simp add: shared_def)
      also have "\<dots> = mem s x" using x A by (auto simp: shared_def)
      finally show ?thesis .
    qed
    show "ref_count s2 q = (if q \<in> set (ts @ us) then 1
        else ref_count s q + of_nat (count_list (map ?f (va # vs)) q))" if q: "tpage q" for q
    proof -
      have A': "ref_count s1 q = (if q \<in> set ts then 1 else ref_count s q + of_nat (count_list (map ?f [va]) q))"
        using A q by (simp add: shared_def)
      have B': "ref_count s2 q = (if q \<in> set us then 1 else ref_count s1 q + of_nat (count_list (map ?f vs) q))"
        using B q by (simp add: shared_def map_eq)
      show ?thesis
      proof (cases "q \<in> set ts")
        case True
        then have "count_list (map ?f vs) q = 0" using notin [OF True] by (simp add: count_list_0_iff)
        then show ?thesis using True A' B' by auto
      qed (use A' B' in auto)
    qed
    fix vb assume vb: "vb < MAXVA"
    show "pte_at s2 old vb = (if page_of vb \<in> page_of ` set (va # vs) then cow (pte_at s old vb) else pte_at s old vb)"
      using A B vb d by (auto simp: shared_def)
    show "pte_at s2 new vb = (if page_of vb \<in> page_of ` set (va # vs) then cow (pte_at s old vb) else pte_at s new vb)"
      using A B vb d by (auto simp: shared_def)
  qed (use A B fs mem_step_trans in \<open>auto simp: shared_def\<close>)
qed

lemma uvmcopy_loop_spec:
  "vm2 old new fs s \<Longrightarrow> unat sz \<le> unat i + 4096 * n \<Longrightarrow> unat i + 4096 * n < unat sz + 4096 \<Longrightarrow>
   unat sz \<le> 2 ^ 38 \<Longrightarrow> \<forall>v\<in>set (vas i n). data_ok old fs s v \<Longrightarrow> 2 * n \<le> length fs \<Longrightarrow>
   \<exists>s' ts fs'. uvmcopy_loop old new i sz s = Ok (0, s') \<and> length ts \<le> 2 * n \<and>
     shared old new fs s s' ts fs' (vas i n)"
proof (induction n arbitrary: i s fs)
  case 0
  then have "\<not> i < sz" by (simp add: word_less_nat_alt)
  then show ?case using 0 by (subst uvmcopy_loop.simps) (auto intro!: exI [of _ "[]"] exI [of _ fs])
next
  case (Suc n)
  have isz: "i < sz" using Suc.prems(3) by (simp add: word_less_nat_alt)
  have b: "unat i + 4096 * Suc n < 2 ^ 64" using Suc.prems(3,4) by simp
  have u: "unat (i + PGSIZE) = unat i + 4096" using page_step_page(1) [of i] b by simp
  have ok: "data_ok old fs s i" "\<forall>v\<in>set (vas (i + PGSIZE) n). data_ok old fs s v" using Suc.prems(5) by auto
  have d: "page_of i \<notin> page_of ` set (vas (i + PGSIZE) n)" by (rule vas_head_notin [OF b])
  from uvmcopy_page [OF Suc.prems(1) ok(1) _ isz] Suc.prems(6) obtain s1 ts fs1 where
      c: "uvmcopy_loop old new i sz s = uvmcopy_loop old new (i + PGSIZE) sz s1"
      and lt: "length ts \<le> 2" and A: "shared old new fs s s1 ts fs1 [i]"
    by auto
  have fs: "fs = ts @ fs1" "vm2 old new fs1 s1" using A by (auto simp: shared_def)
  have ok1: "\<forall>v\<in>set (vas (i + PGSIZE) n). data_ok old fs1 s1 v"
  proof
    fix v assume v: "v \<in> set (vas (i + PGSIZE) n)"
    from other_page [OF d v] have "page_of v \<notin> page_of ` set [i]" .
    then show "data_ok old fs1 s1 v" using shared_frame(1) [OF Suc.prems(1) A] ok(2) v by (auto simp: data_ok_def)
  qed
  have "\<exists>s' us fs'. uvmcopy_loop old new (i + PGSIZE) sz s1 = Ok (0, s') \<and> length us \<le> 2 * n \<and>
      shared old new fs1 s1 s' us fs' (vas (i + PGSIZE) n)"
    using Suc.IH [OF fs(2) _ _ Suc.prems(4) ok1] Suc.prems(2,3,6) u lt fs(1) by simp
  then obtain s' us fs' where r: "uvmcopy_loop old new (i + PGSIZE) sz s1 = Ok (0, s')"
      "length us \<le> 2 * n" and B: "shared old new fs1 s1 s' us fs' (vas (i + PGSIZE) n)"
    by blast
  have "shared old new fs s s' (ts @ us) fs' (vas i (Suc n))"
    using shared_trans [OF Suc.prems(1) A B] Suc.prems(5) d by simp
  then show ?case using c r lt by (intro exI [of _ s'] exI [of _ "ts @ us"] exI [of _ fs']) auto
qed

text \<open>The number of pages a process of \<open>sz\<close> bytes has.\<close>

definition npages :: "u64 \<Rightarrow> nat" where
  "npages sz = (unat sz + 4095) div 4096"

lemma round_up_nat: "(n::nat) \<le> 4096 * ((n + 4095) div 4096)" "4096 * ((n + 4095) div 4096) < n + 4096"
  using mult_div_mod_eq [of 4096 "n + 4095"] mod_less_divisor [of 4096 "n + 4095"] by linarith+

lemma uvmcopy_shares:
  assumes "vm2 old new fs s" and "sz \<le> MAXVA" and "\<forall>v\<in>set (vas 0 (npages sz)). data_ok old fs s v"
    and "2 * npages sz \<le> length fs"
  shows "\<exists>s' ts fs'. uvmcopy old new sz s = Ok (0, s') \<and> length ts \<le> 2 * npages sz \<and>
     shared old new fs s s' ts fs' (vas 0 (npages sz))"
proof -
  have "unat sz \<le> 4096 * npages sz" "4096 * npages sz < unat sz + 4096"
    unfolding npages_def by (rule round_up_nat)+
  moreover have "unat sz \<le> 2 ^ 38" using assms(2) by (simp add: word_le_nat_alt MAXVA_nat)
  ultimately show ?thesis
    unfolding uvmcopy_def using uvmcopy_loop_spec [OF assms(1), of sz 0 "npages sz"] assms(3,4) by simp
qed

section \<open>The write fault\<close>

definition priv :: "u64 \<Rightarrow> u64 \<Rightarrow> u64" where
  "priv q e = PA2PTE q OR modify_flag_cow_to_write (PTE_FLAGS e)"

lemma drop10_PTE_FLAGS [simp]: "drop_bit 10 (PTE_FLAGS e) = 0"
proof (rule bit_word_eqI)
  have "PTE_FLAGS e = e AND mask 10" by (simp add: PTE_FLAGS_def mask_eq_exp_minus_1)
  then show "bit (drop_bit 10 (PTE_FLAGS e)) n \<longleftrightarrow> bit (0::u64) n" for n
    by (simp add: bit_simps)
qed

lemma bit_PTE_FLAGS: "bit (PTE_FLAGS e) n \<longleftrightarrow> n < 10 \<and> bit e n"
proof -
  have "PTE_FLAGS e = e AND mask 10" by (simp add: PTE_FLAGS_def mask_eq_exp_minus_1)
  then show ?thesis by (auto simp: bit_simps)
qed

lemma PTE2PA_priv: "aligned 12 q \<Longrightarrow> PTE2PA (priv q e) = q"
proof -
  assume "aligned 12 q"
  moreover have "drop_bit 10 (modify_flag_cow_to_write (PTE_FLAGS e)) = 0"
  proof (rule bit_word_eqI)
    fix n show "bit (drop_bit 10 (modify_flag_cow_to_write (PTE_FLAGS e))) n \<longleftrightarrow> bit (0::u64) n"
      by (simp add: bit_drop_bit_eq modify_flag_cow_to_write_def bit_and_iff bit_or_iff bit_not_iff
          bit_flags bit_PTE_FLAGS)
  qed
  ultimately show ?thesis unfolding priv_def by (rule PTE2PA_PA2PTE)
qed

lemma bit_priv: "n < 10 \<Longrightarrow> bit (priv q e) n \<longleftrightarrow> n = 2 \<or> n \<noteq> 8 \<and> bit e n"
  by (auto simp: priv_def PA2PTE_def modify_flag_cow_to_write_def bit_or_iff bit_and_iff bit_not_iff
      bit_push_bit_iff bit_flags bit_PTE_FLAGS dest: bit_u64_less)

lemma cow_flag_bit: "PTE_FLAGS e AND PTE_CW \<noteq> 0 \<longleftrightarrow> bit e 8"
proof -
  have "PTE_FLAGS e AND PTE_CW \<noteq> 0 \<longleftrightarrow> (\<exists>n. bit (PTE_FLAGS e AND PTE_CW) n)"
    using bit_u64_less by (auto simp: bit_eq_iff)
  then show ?thesis by (simp add: bit_and_iff bit_flags bit_PTE_FLAGS)
qed

lemma memmove_page:
  assumes "tpage d" and "tpage p"
  shows "memmove d p 4096 m x = (if page_of x = page_of d then m (p + (x - d)) else m x)"
proof -
  have b: "unat a + 4096 \<le> 2 ^ 64" if "tpage a" for a
  proof -
    have "unat a mod 4096 = 0" using that by (simp add: tpage_def aligned_unat)
    then have k: "unat a = 4096 * (unat a div 4096)" using mult_div_mod_eq [of 4096 "unat a"] by simp
    have "unat a < 4096 * 2 ^ 52" using unsigned_less [of a, where ?'a = nat] by simp
    then have "unat a div 4096 < 2 ^ 52" by (simp add: div_less_iff_less_mult)
    then have "unat a div 4096 + 1 \<le> 2 ^ 52" by simp
    then have "4096 * (unat a div 4096 + 1) \<le> 4096 * 2 ^ 52" by (rule mult_le_mono2)
    with k show ?thesis by simp
  qed
  then show ?thesis
    using assms block_iff [of 12 d x] by (subst memmove_closed) (auto simp: page_of_def tpage_def)
qed

text \<open>
  \<open>allocate_new_memory\<close>: a fresh page with the contents of \<open>pa\<close>, and one reference to
  \<open>pa\<close> fewer. The last reference puts \<open>pa\<close> back on the free list.
\<close>

definition copied :: "u64 \<Rightarrow> u64 \<Rightarrow> 'a kstate_scheme \<Rightarrow> 'a kstate_scheme \<Rightarrow> bool" where
  "copied pa q s s' \<longleftrightarrow> mem_step s s' \<and>
     (\<forall>x. page_of x = page_of q \<longrightarrow> mem s' x = mem s (pa + (x - q))) \<and>
     (\<forall>x. page_of x \<noteq> page_of q \<longrightarrow> ref_count s pa \<noteq> 1 \<or> page_of x \<noteq> page_of pa \<longrightarrow> mem s' x = mem s x) \<and>
     (\<forall>r. tpage r \<longrightarrow> ref_count s' r =
        (if r = q then 1 else if r = pa then ref_count s pa - 1 else ref_count s r))"

lemma page_shift:
  assumes "tpage q" and "tpage p" and "page_of x = page_of q"
  shows "page_of (p + (x - q)) = page_of p"
proof -
  have "unat (x - q) < 4096" using block_iff [of 12 q x] assms(1,3) by (simp add: page_of_def tpage_def)
  then show ?thesis using page_of_slot [of p "unat (x - q)"] assms(2) by (simp add: tpage_def)
qed

lemma kalloc_view:
  assumes "kmem_inv (q # fs) s"
  shows "\<exists>s1. kalloc s = Ok (q, s1) \<and> kmem_inv fs s1 \<and> grow [q] {} s s1"
  by (rule kalloc_grow [OF assms])

lemma allocate_new_memory_spec:
  assumes inv: "kmem_inv (q # fs) s" and ok: "page_ok (kend s) pa" and nf: "pa \<notin> set (q # fs)"
    and ref: "0 < ref_count s pa"
  shows "\<exists>s'. allocate_new_memory pa s = Ok (q, s') \<and> copied pa q s s' \<and>
    kmem_inv (if ref_count s pa = 1 then pa # fs else fs) s'"
proof -
  from kalloc_view [OF inv] obtain s1 where k: "kalloc s = Ok (q, s1)" and inv1: "kmem_inv fs s1"
    and g: "grow [q] {} s s1" by blast
  have tq: "tpage q" "q \<notin> set fs" using kmem_inv_tpage [OF inv] inv by (auto simp: kmem_inv_def)
  have tp: "tpage pa" "pa \<noteq> q" using ok nf by (auto simp: page_ok_def tpage_def)
  have pq: "page_of pa \<noteq> page_of q" using tpage_page_of [OF tp(1) tq(1)] tp(2) by simp
  define s2 where "s2 = s1\<lparr>mem := memmove q pa 4096 (mem s1)\<rparr>"
  have m1: "mem s1 x = mem s x" if "page_of x \<noteq> page_of q" for x using g that by (simp add: grow_def)
  have m2: "mem s2 x = (if page_of x = page_of q then mem s (pa + (x - q)) else mem s x)" for x
    using memmove_page [OF tq(1) tp(1)] m1 page_shift [OF tq(1) tp(1)] pq by (simp add: s2_def)
  have "kmem_inv fs s2"
    unfolding s2_def
  proof (rule kmem_inv_mem [OF inv1], unfold same_on_def, intro allI impI)
    fix x assume "page_of x \<in> page_of ` set fs"
    then have "page_of x \<noteq> page_of q"
      using tpage_page_of [OF tq(1)] kmem_inv_tpage [OF inv1] tq(2) by (auto simp: image_iff)
    then show "memmove q pa 4096 (mem s1) x = mem s1 x" by (simp add: memmove_page [OF tq(1) tp(1)])
  qed
  note inv2 = this
  have r2: "ref_count s2 r = (if r = q then 1 else ref_count s r)" if "tpage r" for r
    using g that by (simp add: grow_def s2_def ref_count_def)
  have ms2: "mem_step s s2" "kend s2 = kend s" using g by (auto simp: grow_def s2_def mem_step_def)
  have pa2: "page_ok (kend s2) pa" "ref_count s2 pa = ref_count s pa" using ok ms2(2) r2 tp by auto
  have idx: "ref_idx r = ref_idx pa \<longleftrightarrow> r = pa" if "tpage r" for r
    using ref_idx_inj that tp(1) by (simp add: tpage_def)
  have a: "allocate_new_memory pa s = bnd (kfree pa s2) (\<lambda>s2. Ok (q, s2))"
    using k tq(1) by (simp add: allocate_new_memory_def s2_def tpage_def)
  show ?thesis
  proof (cases "ref_count s pa = 1")
    case True
    obtain s3 where kf: "kfree pa s2 = Ok s3" using kfree_last [of s2 pa] inv2 pa2 True by (auto simp: kmem_inv_def)
    have s3: "kmem_inv (pa # fs) s3" "\<forall>x. page_of x \<noteq> page_of pa \<longrightarrow> mem s3 x = mem s2 x"
        "\<forall>r. ref_idx r \<noteq> ref_idx pa \<longrightarrow> ref_count s3 r = ref_count s2 r"
      using kmem_inv_kfree_last [OF inv2 pa2(1) _ kf] pa2 True by auto
    have s3': "mem_step s2 s3" "ref_count s3 pa = 0"
      using kf kfree_last [of s2 pa] inv2 pa2 True by (auto simp: kmem_inv_def mem_step_def ref_count_def)
    have "copied pa q s s3"
      unfolding copied_def using s3 s3' m2 r2 idx True mem_step_trans [OF ms2(1)] pq tp by auto
    then show ?thesis using a kf s3(1) True by simp
  next
    case False
    have gt: "1 < ref_count s2 pa" using ref False pa2(2) by (auto simp: word_less_nat_alt word_unat_eq_iff)
    define s3 where "s3 = s2\<lparr>cpus := bumped (cpus s2) (hart s2),
      no_of_ref_array := (no_of_ref_array s2)(ref_idx pa := ref_count s2 pa - 1)\<rparr>"
    have kf: "kfree pa s2 = Ok s3"
      unfolding s3_def using kfree_shared [of s2 pa] inv2 pa2(1) gt by (simp add: kmem_inv_def)
    have "pa \<notin> set fs" using nf by simp
    note v = set_ref_view [OF s3_def tp(1) this]
    have "copied pa q s s3"
      unfolding copied_def using v m2 r2 False mem_step_trans [OF ms2(1)] tp pa2(2) by auto
    then show ?thesis using a kf v(3) inv2 False by simp
  qed
qed

text \<open>A table off the two pages of a copy is not affected by it.\<close>

lemma copied_table:
  assumes wf: "pt_wf 2 (mem s) pt" and c: "copied pa q s s'" and tq: "tpage q" "q \<notin> tpages 2 (mem s) pt"
    and tp: "tpage pa" "pa \<notin> tpages 2 (mem s) pt"
  shows "same_on (tpages 2 (mem s) pt) (mem s) (mem s')"
  unfolding same_on_def
proof (intro allI impI)
  fix x assume "page_of x \<in> page_of ` tpages 2 (mem s) pt"
  then have "page_of x \<noteq> page_of q" "page_of x \<noteq> page_of pa"
    using tpage_page_of [OF tq(1)] tpage_page_of [OF tp(1)] tpages_tpage [OF wf] tq(2) tp(2)
    by (auto simp: image_iff)
  then show "mem s' x = mem s x" using c by (simp add: copied_def)
qed

lemma write_trap_spec:
  assumes inv: "vm_inv pt (q # fs) s" and va: "0 < va" "va < MAXVA" and cw: "bit (pte_at s pt va) 8"
    and pa: "pa = PTE2PA (pte_at s pt va)" "page_ok (kend s) pa" "pa \<notin> set (q # fs)" "pa \<notin> tpages 2 (mem s) pt"
    and ref: "0 < ref_count s pa"
  shows "\<exists>s1 s'. write_trap va pt s = Ok (0, s') \<and> copied pa q s s1 \<and>
    grow [] (tpages 2 (mem s) pt) s1 s' \<and> tpages 2 (mem s') pt = tpages 2 (mem s) pt \<and>
    vm_inv pt (if ref_count s pa = 1 then pa # fs else fs) s' \<and>
    (\<forall>vb<MAXVA. pte_at s' pt vb =
      (if page_of vb = page_of va then priv q (pte_at s pt va) else pte_at s pt vb))"
proof -
  let ?e = "pte_at s pt va" and ?fs = "if ref_count s pa = 1 then pa # fs else fs"
  let ?a = "PGROUNDDOWN va"
  have kinv: "kmem_inv (q # fs) s" and wf: "pt_wf 2 (mem s) pt" and dj: "set (q # fs) \<inter> tpages 2 (mem s) pt = {}"
    using inv by (auto simp: vm_inv_def)
  from allocate_new_memory_spec [OF kinv pa(2,3) ref] obtain s1 where
      al: "allocate_new_memory pa s = Ok (q, s1)" and c: "copied pa q s s1" and inv1: "kmem_inv ?fs s1"
    by blast
  have tq: "tpage q" "q \<notin> tpages 2 (mem s) pt" using kmem_inv_tpage [OF kinv] dj by auto
  have tp: "tpage pa" using pa(2) by (simp add: page_ok_def tpage_def)
  note same = copied_table [OF wf c tq tp pa(4)]
  note tf = table_frame [OF wf same] and pf = ptev_frame [OF wf same]
  have va': "?a < MAXVA" using va(2) PGROUNDDOWN_le by (rule le_less_trans [rotated])
  have e': "pte_at s pt ?a = ?e" by (rule ptev_page_cong) simp
  have nz: "pte_at s pt ?a \<noteq> 0" using cw e' by auto
  from walk_present [OF wf va' nz] obtain a where w: "walk pt ?a False s = Ok (a, s)"
      "lookup 2 (mem s) pt ?a = Some a" "a \<noteq> 0" "load64 a s = ?e"
    using e' by auto
  have "set ?fs \<inter> tpages 2 (mem s) pt = {}" using dj pa(4) by auto
  then have vi1: "vm_inv pt ?fs s1" using inv1 tf by (simp add: vm_inv_def)
  have lk1: "lookup 2 (mem s1) pt ?a = Some a" using tf w(2) by simp
  have r: "remap pt ?fs s1 (store64 a (priv q ?e) s1) [] ?fs
      (\<lambda>vb. if page_of vb = page_of ?a then priv q ?e else pte_at s1 pt vb)"
    by (rule remap_store [OF vi1 lk1 va'])
  have "q \<noteq> 0" using tq by (simp add: tpage_def)
  then have "write_trap va pt s = Ok (0, store64 a (priv q ?e) s1)"
    using va w al cw pa(1)
    by (simp add: write_trap_def check_valid_add_def check_if_cow_flag_def cow_flag_bit Let_def priv_def
        leD word_gt_0)
  then show ?thesis using r c tf pf
    by (intro exI [of _ s1] exI [of _ "store64 a (priv q ?e) s1"]) (auto simp: remap_def)
qed

section \<open>What a process reads\<close>

definition pgoff :: "u64 \<Rightarrow> u64" where
  "pgoff va = va - PGROUNDDOWN va"

definition uread :: "'a kstate_scheme \<Rightarrow> u64 \<Rightarrow> u64 \<Rightarrow> u8" where
  "uread s pt va = mem s (PTE2PA (pte_at s pt va) + pgoff va)"

text \<open>A store of user code at \<open>va\<close>, through the entry the hardware finds.\<close>

definition user_write :: "u64 \<Rightarrow> u64 \<Rightarrow> u8 \<Rightarrow> 'a kstate_scheme \<Rightarrow> 'a kstate_scheme" where
  "user_write pt va b s = s\<lparr>mem := (mem s)(PTE2PA (pte_at s pt va) + pgoff va := b)\<rparr>"

lemma page_of_frame: "aligned 12 f \<Longrightarrow> page_of (f + pgoff va) = page_of f"
  using page_of_slot [of f "unat (pgoff va)"] page_off_less [of va] by (simp add: pgoff_def)

lemma pgoff_inj:
  assumes "page_of va = page_of vb" and "pgoff va = pgoff vb"
  shows "va = vb"
proof -
  have "PGROUNDDOWN va = PGROUNDDOWN vb"
    by (rule page_of_inj) (simp_all add: assms(1))
  with assms(2) show ?thesis by (simp add: pgoff_def)
qed

abbreviation frame :: "'a kstate_scheme \<Rightarrow> u64 \<Rightarrow> u64 \<Rightarrow> u64" where
  "frame s pt va \<equiv> PTE2PA (pte_at s pt va)"

text \<open>
  A process of \<open>sz\<close> bytes about to be forked: its pages are mapped to distinct frames that are
  neither free nor used by a page table, their reference counts are positive and not about to wrap,
  and \<open>new\<close> is the child's table.
\<close>

definition fork_ok :: "u64 \<Rightarrow> u64 \<Rightarrow> u64 list \<Rightarrow> 'a kstate_scheme \<Rightarrow> u64 \<Rightarrow> bool" where
  "fork_ok old new fs s sz \<longleftrightarrow> vm2 old new fs s \<and> sz \<le> MAXVA \<and>
     (\<forall>v\<in>set (vas 0 (npages sz)). data_ok old fs s v \<and>
        frame s old v \<notin> tpages 2 (mem s) old \<union> tpages 2 (mem s) new \<and>
        0 < ref_count s (frame s old v) \<and> ref_count s (frame s old v) < 0xFFFFFFFF) \<and>
     distinct (map (frame s old) (vas 0 (npages sz)))"

definition in_space :: "u64 \<Rightarrow> u64 \<Rightarrow> bool" where
  "in_space sz vb \<longleftrightarrow> vb < MAXVA \<and> page_of vb \<in> page_of ` set (vas 0 (npages sz))"

lemma count_list_distinct: "distinct xs \<Longrightarrow> x \<in> set xs \<Longrightarrow> count_list xs x = 1"
  by (induction xs) (auto simp: count_list_0_iff)

lemma in_space_frame:
  assumes "fork_ok old new fs s sz" and "in_space sz vb"
  shows "\<exists>v\<in>set (vas 0 (npages sz)). page_of vb = page_of v \<and> pte_at s old vb = pte_at s old v"
proof -
  from assms(2) obtain v where v: "v \<in> set (vas 0 (npages sz))" "page_of vb = page_of v"
    by (auto simp: in_space_def)
  then show ?thesis using ptev_page_cong [OF v(2)] by blast
qed

lemma word_inc_gt1:
  fixes w :: u32
  assumes "0 < w" and "w < 0xFFFFFFFF"
  shows "1 < w + 1"
proof -
  have "unat (w + 1) = unat w + 1" using assms(2) by (simp add: word_less_nat_alt unat_word_ariths)
  moreover have "0 < unat w" using assms(1) by (simp add: word_less_nat_alt)
  ultimately show ?thesis by (simp add: word_less_nat_alt)
qed

text \<open>After \<open>uvmcopy\<close> parent and child read what the parent read before.\<close>

lemma fork_reads:
  assumes ok: "fork_ok old new fs s sz" and sh: "shared old new fs s s1 ts fs1 (vas 0 (npages sz))"
    and vb: "in_space sz vb"
  shows "pte_at s1 old vb = cow (pte_at s old vb)" and "pte_at s1 new vb = cow (pte_at s old vb)"
    and "frame s old vb \<notin> tpages 2 (mem s1) old \<union> tpages 2 (mem s1) new \<union> set fs"
    and "page_ok (kend s) (frame s old vb)"
    and "ref_count s1 (frame s old vb) = ref_count s (frame s old vb) + 1"
    and "1 < ref_count s1 (frame s old vb)"
    and "uread s1 old vb = uread s old vb" and "uread s1 new vb = uread s old vb"
proof -
  let ?f = "frame s old vb"
  from in_space_frame [OF ok vb] obtain v where v: "v \<in> set (vas 0 (npages sz))"
      "pte_at s old vb = pte_at s old v"
    by blast
  have d: "data_ok old fs s v" "?f \<notin> tpages 2 (mem s) old \<union> tpages 2 (mem s) new"
      "0 < ref_count s ?f" "ref_count s ?f < 0xFFFFFFFF"
    using ok v by (auto simp: fork_ok_def)
  show pg: "page_ok (kend s) ?f" using d(1) v(2) by (simp add: data_ok_def)
  then have tf: "tpage ?f" by (simp add: page_ok_def tpage_def)
  have nfs: "?f \<notin> set fs" using d(1) v(2) by (simp add: data_ok_def)
  have fs: "fs = ts @ fs1" using sh by (simp add: shared_def)
  show nt: "?f \<notin> tpages 2 (mem s1) old \<union> tpages 2 (mem s1) new \<union> set fs"
    using d(2) nfs fs sh by (auto simp: shared_def)
  show eo: "pte_at s1 old vb = cow (pte_at s old vb)" and en: "pte_at s1 new vb = cow (pte_at s old vb)"
    using sh vb by (auto simp: shared_def in_space_def)
  have "count_list (map (frame s old) (vas 0 (npages sz))) ?f = 1"
    using ok v by (intro count_list_distinct) (auto simp: fork_ok_def)
  then show r: "ref_count s1 ?f = ref_count s ?f + 1"
    using sh tf nfs fs by (simp add: shared_def)
  show "1 < ref_count s1 ?f"
    using d(3,4) unfolding r by (rule word_inc_gt1)
  have tpg: "\<forall>r\<in>tpages 2 (mem s) old \<union> tpages 2 (mem s) new \<union> set ts. tpage r"
    using ok fs tpages_tpage [of 2 "mem s" old] tpages_tpage [of 2 "mem s" new] kmem_inv_tpage [of fs s]
    by (auto simp: fork_ok_def vm2_def vm_inv_def)
  have "page_of ?f \<notin> page_of ` (tpages 2 (mem s) old \<union> tpages 2 (mem s) new \<union> set ts)"
    using tpg tpage_page_of [OF tf] d(2) nfs fs by (auto simp: image_iff)
  then have "mem s1 (?f + pgoff vb) = mem s (?f + pgoff vb)"
    using sh page_of_frame [of ?f vb] by (simp add: shared_def)
  then show "uread s1 old vb = uread s old vb" "uread s1 new vb = uread s old vb"
    using eo en by (simp_all add: uread_def)
qed

text \<open>A store to a page no table uses keeps every table.\<close>

lemma user_write_pte:
  assumes "pt_wf 2 (mem s) pt" and "tpage q" and "q \<notin> tpages 2 (mem s) pt" and "page_of x = page_of q"
  shows "ptev 2 ((mem s)(x := b)) pt vb = pte_at s pt vb"
proof (rule ptev_frame [OF assms(1)])
  have "page_of x \<notin> page_of ` tpages 2 (mem s) pt"
    using assms tpage_page_of [OF assms(2)] tpages_tpage [OF assms(1)] by (auto simp: image_iff)
  then show "same_on (tpages 2 (mem s) pt) (mem s) ((mem s)(x := b))" by (auto simp: same_on_def)
qed

text \<open>
  The write fault of the child: its table now leads to a private frame \<open>q\<close> at the page, the
  parent's entries and all shared frames are as before.
\<close>

lemma child_fault:
  assumes ok: "fork_ok old new fs s sz" and sh: "shared old new fs s s1 ts (q # fs2) (vas 0 (npages sz))"
    and va: "in_space sz va" "0 < va"
  shows "\<exists>s2. write_trap va new s1 = Ok (0, s2) \<and> vm_inv new fs2 s2 \<and> vm_inv old fs2 s2 \<and> tpage q \<and>
    q \<notin> tpages 2 (mem s2) old \<union> tpages 2 (mem s2) new \<and>
    (\<forall>vb<MAXVA. pte_at s2 new vb = (if page_of vb = page_of va then priv q (cow (pte_at s old va)) else pte_at s1 new vb)) \<and>
    (\<forall>vb. pte_at s2 old vb = pte_at s1 old vb) \<and>
    (\<forall>x. page_of x = page_of q \<longrightarrow> mem s2 x = mem s1 (frame s old va + (x - q))) \<and>
    (\<forall>x. page_of x \<noteq> page_of q \<longrightarrow> page_of x \<notin> page_of ` tpages 2 (mem s1) new \<longrightarrow> mem s2 x = mem s1 x)"
proof -
  let ?f = "frame s old va"
  note fr = fork_reads [OF ok sh va(1)]
  have v2: "vm2 old new (q # fs2) s1" and ms: "mem_step s s1" and fs: "fs = ts @ q # fs2"
    using sh by (auto simp: shared_def)
  have new: "vm_inv new (q # fs2) s1" and old: "vm_inv old (q # fs2) s1"
    and dj: "tpages 2 (mem s1) old \<inter> tpages 2 (mem s1) new = {}" using v2 by (auto simp: vm2_def)
  have cw: "bit (pte_at s1 new va) 8" using fr(2) by (simp add: cow_bits)
  have f1: "?f = PTE2PA (pte_at s1 new va)" using fr(2) by simp
  have f2: "page_ok (kend s1) ?f" using fr(4) mem_step_frame(3) [OF ms] by simp
  have f3: "?f \<notin> set (q # fs2)" and f4: "?f \<notin> tpages 2 (mem s1) new" using fr(3) fs by auto
  have f5: "0 < ref_count s1 ?f" using fr(6) by (simp add: word_less_nat_alt)
  have one: "ref_count s1 ?f \<noteq> 1" using fr(6) by auto
  have vm: "va < MAXVA" using va(1) by (simp add: in_space_def)
  from write_trap_spec [OF new va(2) vm cw f1 f2 f3 f4 f5] obtain sA s2 where
      w: "write_trap va new s1 = Ok (0, s2)" and c: "copied ?f q s1 sA"
      and g: "grow [] (tpages 2 (mem s1) new) sA s2" and t2: "tpages 2 (mem s2) new = tpages 2 (mem s1) new"
      and i2: "vm_inv new fs2 s2" and p2: "\<forall>vb<MAXVA. pte_at s2 new vb =
        (if page_of vb = page_of va then priv q (pte_at s1 new va) else pte_at s1 new vb)"
    unfolding if_not_P [OF one] by blast
  have tq: "tpage q" "q \<notin> tpages 2 (mem s1) new" "q \<notin> tpages 2 (mem s1) old"
    using new old kmem_inv_tpage [of "q # fs2" s1] by (auto simp: vm_inv_def)
  have tf: "tpage ?f" "?f \<notin> tpages 2 (mem s1) old" using fr(3,4) by (auto simp: page_ok_def tpage_def)
  have wfo: "pt_wf 2 (mem s1) old" and wfn: "pt_wf 2 (mem s1) new"
    using old new by (auto simp: vm_inv_def)
  have mA: "mem s2 x = mem sA x" if "page_of x \<notin> page_of ` tpages 2 (mem s1) new" for x
    using g that by (simp add: grow_def)
  have "page_of ` tpages 2 (mem s1) old \<inter> page_of ` (tpages 2 (mem s1) new \<union> set []) = {}"
    using dj by (intro tpages_pages_disjoint [OF wfo wfn]) auto
  then have "same_on (tpages 2 (mem s1) old) (mem sA) (mem s2)" by (rule grow_same_on [OF g])
  then have so: "same_on (tpages 2 (mem s1) old) (mem s1) (mem s2)"
    by (rule same_on_trans [OF copied_table [OF wfo c tq(1,3) tf]])
  have old2: "vm_inv old fs2 s2" "tpages 2 (mem s2) old = tpages 2 (mem s1) old"
    using table_frame [OF wfo so] i2 old by (auto simp: vm_inv_def)
  have nq: "page_of q \<notin> page_of ` tpages 2 (mem s1) new"
    using tpage_page_of [OF tq(1)] tpages_tpage [OF wfn] tq(2) by (auto simp: image_iff)
  have mq: "\<forall>x. page_of x = page_of q \<longrightarrow> mem s2 x = mem s1 (?f + (x - q))"
    using c mA nq by (simp add: copied_def)
  have mo: "\<forall>x. page_of x \<noteq> page_of q \<longrightarrow> page_of x \<notin> page_of ` tpages 2 (mem s1) new \<longrightarrow> mem s2 x = mem s1 x"
    using c mA one by (simp add: copied_def)
  have pn: "\<forall>vb<MAXVA. pte_at s2 new vb =
      (if page_of vb = page_of va then priv q (cow (pte_at s old va)) else pte_at s1 new vb)"
    using p2 unfolding fr(2) .
  have po: "\<forall>vb. pte_at s2 old vb = pte_at s1 old vb" using ptev_frame [OF wfo so] by simp
  have nt: "q \<notin> tpages 2 (mem s2) old \<union> tpages 2 (mem s2) new" using tq(2,3) t2 old2(2) by simp
  show ?thesis
    by (rule exI [of _ s2]) (intro conjI w i2 old2(1) tq(1) nt pn po mq mo)
qed

lemma user_write_reads:
  assumes wf: "pt_wf 2 (mem s) pt" "pt_wf 2 (mem s) pt'" and q: "tpage q" "frame s pt va = q"
    and nt: "q \<notin> tpages 2 (mem s) pt \<union> tpages 2 (mem s) pt'"
    and al: "frame s pt' vb = q \<Longrightarrow> pt' = pt \<and> page_of vb = page_of va"
  shows "uread (user_write pt va b s) pt' vb = (if pt' = pt \<and> vb = va then b else uread s pt' vb)"
proof -
  have pq: "page_of (q + pgoff va) = page_of q" using page_of_frame q(1) by (simp add: tpage_def)
  have e: "ptev 2 ((mem s)(q + pgoff va := b)) pt' vb = pte_at s pt' vb"
    using wf(2) q(1) nt pq by (intro user_write_pte) auto
  have ne: "frame s pt' vb + pgoff vb \<noteq> q + pgoff va" if "\<not> (pt' = pt \<and> vb = va)"
  proof
    assume eq: "frame s pt' vb + pgoff vb = q + pgoff va"
    then have "page_of (frame s pt' vb) = page_of q" using pq page_of_frame [of "frame s pt' vb" vb] by simp
    then have f: "frame s pt' vb = q" using page_of_inj [of "frame s pt' vb" q] q(1) by (simp add: tpage_def)
    with eq have "pgoff vb = pgoff va" by simp
    with al [OF f] pgoff_inj that show False by blast
  qed
  show ?thesis
  proof (cases "pt' = pt \<and> vb = va")
    case True
    then show ?thesis using e q(2) by (simp add: uread_def user_write_def)
  next
    case False
    then show ?thesis using ne [OF False] e q(2) by (auto simp: uread_def user_write_def)
  qed
qed

lemma sample_fork_ok: "fork_ok 0x80010000 0x80013000 [0x80015000, 0x80016000, 0x80017000] sample 4096"
proof -
  have n: "npages 4096 = 1" by (simp add: npages_def)
  have "vm2 0x80010000 0x80013000 [0x80015000, 0x80016000, 0x80017000] sample"
    using sample_kmem sample_parent sample_child by (simp add: vm2_def vm_inv_def)
  moreover have "data_ok 0x80010000 [0x80015000, 0x80016000, 0x80017000] sample 0"
    by (simp add: data_ok_def sample_parent sample_ptes sample_fields page_ok_def aligned_unat
        MAXVA_def PHYSTOP_def KERNBASE_def valid_bit)
  moreover have "ref_count sample 0x80014000 = 1" by (simp add: ref_count_def ref_idx_def sample_fields)
  ultimately show ?thesis
    unfolding fork_ok_def n by (simp add: sample_parent sample_child sample_ptes MAXVA_def)
qed

lemma in_space_sample: "in_space 4096 va \<longleftrightarrow> va < 4096"
proof -
  have n: "npages 4096 = 1" by (simp add: npages_def)
  have "page_of va = page_of 0 \<longleftrightarrow> unat va div 4096 = 0"
    by (simp add: page_of_def word_unat_eq_iff unat_drop)
  then have "page_of va = page_of 0 \<longleftrightarrow> va < 4096" by (simp add: word_less_nat_alt div_eq_0_iff)
  then show ?thesis by (auto simp: in_space_def n word_less_nat_alt MAXVA_nat)
qed

text \<open>
  The child after its write fault: its entry for the page maps the new page \<open>q\<close>, which holds what the shared page held; the other
  entries, and memory outside \<open>q\<close> and the child's page table, are as before.
\<close>

definition faulted :: "u64 \<Rightarrow> u64 \<Rightarrow> u64 \<Rightarrow> u64 \<Rightarrow> 'a kstate_scheme \<Rightarrow> 'a kstate_scheme \<Rightarrow> 'a kstate_scheme \<Rightarrow> bool" where
  "faulted old new va q s s1 s2 \<longleftrightarrow> tpage q \<and>
     (\<forall>vb<MAXVA. pte_at s2 new vb = (if page_of vb = page_of va then priv q (cow (pte_at s old va)) else pte_at s1 new vb)) \<and>
     (\<forall>vb. pte_at s2 old vb = pte_at s1 old vb) \<and>
     (\<forall>x. page_of x = page_of q \<longrightarrow> mem s2 x = mem s1 (frame s old va + (x - q))) \<and>
     (\<forall>x. page_of x \<noteq> page_of q \<longrightarrow> page_of x \<notin> page_of ` tpages 2 (mem s1) new \<longrightarrow> mem s2 x = mem s1 x)"

lemma faulted_keeps:
  assumes ok: "fork_ok old new fs s sz" and sh: "shared old new fs s s1 ts (q # fs2) (vas 0 (npages sz))" and f: "faulted old new va q s s1 s2"
    and vb: "in_space sz vb"
  shows "mem s2 (frame s old vb + pgoff vb) = mem s1 (frame s old vb + pgoff vb)" "frame s old vb \<noteq> q"
proof -
  let ?f = "frame s old vb"
  note fr = fork_reads(3,4) [OF ok sh vb]
  have tq: "tpage q" using f by (simp add: faulted_def)
  have qfs: "q \<in> set fs" using sh by (auto simp: shared_def)
  have wf: "pt_wf 2 (mem s1) new" using sh by (auto simp: shared_def vm2_def vm_inv_def)
  show ne: "?f \<noteq> q" using fr(1) qfs by auto
  have tf: "tpage ?f" using fr(2) by (simp add: page_ok_def tpage_def)
  have "page_of ?f \<noteq> page_of q" using tpage_page_of [OF tf tq] ne by simp
  moreover have "page_of ?f \<notin> page_of ` tpages 2 (mem s1) new"
    using tpage_page_of [OF tf] tpages_tpage [OF wf] fr(1) by (auto simp: image_iff)
  ultimately show "mem s2 (?f + pgoff vb) = mem s1 (?f + pgoff vb)"
    using f page_of_frame [of ?f vb] by (simp add: faulted_def)
qed

lemma faulted_reads:
  assumes ok: "fork_ok old new fs s sz" and sh: "shared old new fs s s1 ts (q # fs2) (vas 0 (npages sz))" and f: "faulted old new va q s s1 s2"
    and vb: "in_space sz vb"
  shows "uread s2 old vb = uread s old vb" "uread s2 new vb = uread s old vb" "frame s2 old vb \<noteq> q"
    "frame s2 new vb = q \<Longrightarrow> page_of vb = page_of va"
proof -
  let ?f = "frame s old"
  note fr = fork_reads [OF ok sh vb] and keep = faulted_keeps [OF ok sh f vb]
  have pn: "\<forall>vb<MAXVA. pte_at s2 new vb = (if page_of vb = page_of va then priv q (cow (pte_at s old va)) else pte_at s1 new vb)"
    and po: "\<forall>vb. pte_at s2 old vb = pte_at s1 old vb" and mq: "\<forall>x. page_of x = page_of q \<longrightarrow> mem s2 x = mem s1 (?f va + (x - q))"
    and al: "aligned 12 q" using f by (simp_all add: faulted_def tpage_def)
  have vm: "vb < MAXVA" using vb by (simp add: in_space_def)
  have o: "pte_at s2 old vb = cow (pte_at s old vb)" using po fr(1) by simp
  show "uread s2 old vb = uread s old vb" using o keep(1) fr(1,7) by (simp add: uread_def)
  show "frame s2 old vb \<noteq> q" using o keep(2) by simp
  have other: "frame s2 new vb = ?f vb" if "page_of vb \<noteq> page_of va" using that pn vm fr(2) by simp
  then show "frame s2 new vb = q \<Longrightarrow> page_of vb = page_of va" using keep(2) by metis
  show "uread s2 new vb = uread s old vb"
  proof (cases "page_of vb = page_of va")
    case True
    then have "pte_at s old va = pte_at s old vb" by (intro ptev_page_cong) simp
    moreover have "frame s2 new vb = q" using True pn vm PTE2PA_priv [OF al] by simp
    moreover have "page_of (q + pgoff vb) = page_of q" by (rule page_of_frame [OF al])
    ultimately have "uread s2 new vb = mem s1 (?f vb + pgoff vb)" using mq by (simp add: uread_def)
    then show ?thesis using fr(1,7) by (simp add: uread_def)
  next
    case False
    then show ?thesis using pn vm keep(1) fr(2,8) by (simp add: uread_def)
  qed
qed



section \<open>copyout and page 0\<close>

text \<open>C32: \<open>copyout\<close> to an address in the first page of a process fails whatever is mapped there:
  the check of the page address rejects 0 along with addresses beyond \<open>MAXVA\<close>.\<close>

theorem copyout_page0_fails:
  assumes "dstva < PGSIZE" and "src \<noteq> []"
  shows "copyout pagetable dstva src s = Ok (-1, s)"
proof -
  have "unat dstva < 4096" using assms(1) by (simp add: PGSIZE_def word_less_nat_alt)
  then have "PGROUNDDOWN dstva = 0"
    using PGROUNDDOWN_le [of dstva] aligned_PGROUNDDOWN [of dstva] by (simp add: aligned_unat word_le_nat_alt unat_eq_0)
  then show ?thesis using assms(2) by (subst copyout.simps) (simp add: check_valid_add_def)
qed

theorem copyout_page0_fails_witness: "copyout 0x80010000 8 [1, 2] sample = Ok (-1, sample)"
  by (rule copyout_page0_fails) (simp_all add: PGSIZE_def)

end
