(* ===== verification/Kprintf.thy ===== *)
theory Kprintf
  imports Kalloc
begin

unbundle bit_operations_syntax

text \<open>
  kernel/printf.c with the synchronous output path below it (consputc of kernel/console.c,
  uartputc_sync of kernel/uart.c). The bytes written to the transmit register are appended to
  \<open>uart_out\<close>; the wait for the transmitter to become idle is not modelled. Characters are bytes.
\<close>

section \<open>State and output\<close>

record ostate = kstate +
  uart_out :: "u8 list"
  panicked :: bool
  pr_locking :: bool

definition bytes :: "string \<Rightarrow> u8 list" where
  "bytes = map (\<lambda>c. of_nat (of_char c))"

definition BACKSPACE :: u32 where "BACKSPACE = 0x100"

definition uartputc_sync :: "u32 \<Rightarrow> 'a ostate_scheme \<Rightarrow> ('a ostate_scheme) res" where
  "uartputc_sync c s =
     (let s1 = push_off s
      in if panicked s1 then Err Spin
         else pop_off (s1\<lparr>uart_out := uart_out s1 @ [ucast c]\<rparr>))"

definition consputc :: "u32 \<Rightarrow> 'a ostate_scheme \<Rightarrow> ('a ostate_scheme) res" where
  "consputc c s =
     (if c = BACKSPACE then
        bnd (uartputc_sync 8 s) (\<lambda>s1. bnd (uartputc_sync 32 s1) (uartputc_sync 8))
      else uartputc_sync c s)"

definition putbytes :: "u8 list \<Rightarrow> 'a ostate_scheme \<Rightarrow> ('a ostate_scheme) res" where
  "putbytes cs = for_each cs (\<lambda>c. consputc (ucast c))"

section \<open>Numbers\<close>

definition digits :: "u8 list" where
  "digits = bytes ''0123456789abcdef''"

text \<open>The do-while loop: digits of \<open>x\<close>, least significant first. Callers pass 10 and 16.\<close>

function digit_loop :: "nat \<Rightarrow> nat \<Rightarrow> u8 list" where
  "digit_loop b x =
     (if b < 2 then [] else digits ! (x mod b) # (if x div b \<noteq> 0 then digit_loop b (x div b) else []))"
  by pat_completeness auto
termination
  by (relation "measure snd") (auto simp: div_greater_zero_iff intro: div_less_dividend)

declare digit_loop.simps [simp del]

text \<open>The characters in the order they are printed: \<open>buf\<close> read backwards.\<close>

definition printint_buf :: "u32 \<Rightarrow> nat \<Rightarrow> bool \<Rightarrow> u8 list" where
  "printint_buf xx b sign =
     (let neg = (sign \<and> sint xx < 0);
          x = (if neg then - xx else xx);
          buf = digit_loop b (unat x)
      in if neg then buf @ [45] else buf)"

definition printint :: "u32 \<Rightarrow> nat \<Rightarrow> bool \<Rightarrow> 'a ostate_scheme \<Rightarrow> ('a ostate_scheme) res" where
  "printint xx b sign = putbytes (rev (printint_buf xx b sign))"

primrec ptr_loop :: "nat \<Rightarrow> u64 \<Rightarrow> u8 list" where
  "ptr_loop 0 x = []"
| "ptr_loop (Suc n) x = digits ! unat (drop_bit 60 x) # ptr_loop n (push_bit 4 x)"

definition printptr :: "u64 \<Rightarrow> 'a ostate_scheme \<Rightarrow> ('a ostate_scheme) res" where
  "printptr x = putbytes (48 # 120 # ptr_loop 16 x)"

section \<open>Formats\<close>

datatype parg = PInt u32 | PPtr u64 | PStr "u8 list option"

text \<open>
  A missing or ill-typed argument is undefined. \<open>%\<close> at the end of the format ends the loop.
\<close>

fun printf_loop :: "u8 list \<Rightarrow> parg list \<Rightarrow> 'a ostate_scheme \<Rightarrow> ('a ostate_scheme) res" where
  "printf_loop [] ap s = Ok s"
| "printf_loop [c] ap s = (if c \<noteq> 37 then consputc (ucast c) s else Ok s)"
| "printf_loop (c # d # fmt) ap s =
     (if c \<noteq> 37 then bnd (consputc (ucast c) s) (printf_loop (d # fmt) ap)
      else if d = 100 then
        (case ap of PInt x # ap' \<Rightarrow> bnd (printint x 10 True s) (printf_loop fmt ap')
         | _ \<Rightarrow> Err (Undef ''va_arg''))
      else if d = 120 then
        (case ap of PInt x # ap' \<Rightarrow> bnd (printint x 16 True s) (printf_loop fmt ap')
         | _ \<Rightarrow> Err (Undef ''va_arg''))
      else if d = 112 then
        (case ap of PPtr x # ap' \<Rightarrow> bnd (printptr x s) (printf_loop fmt ap')
         | _ \<Rightarrow> Err (Undef ''va_arg''))
      else if d = 115 then
        (case ap of PStr x # ap' \<Rightarrow>
           bnd (putbytes (case x of None \<Rightarrow> bytes ''(null)'' | Some cs \<Rightarrow> takeWhile (\<lambda>c. c \<noteq> 0) cs) s)
             (printf_loop fmt ap')
         | _ \<Rightarrow> Err (Undef ''va_arg''))
      else if d = 37 then bnd (consputc 37 s) (printf_loop fmt ap)
      else bnd (consputc 37 s) (\<lambda>s1. bnd (consputc (ucast d) s1) (printf_loop fmt ap)))"

definition printf :: "string \<Rightarrow> parg list \<Rightarrow> 'a ostate_scheme \<Rightarrow> ('a ostate_scheme) res" where
  "printf fmt ap s =
     (let locking = pr_locking s
      in bnd (if locking then acquire PrLock s else Ok s) (\<lambda>s1.
         bnd (printf_loop (bytes fmt) ap s1) (\<lambda>s2.
         if locking then release PrLock s2 else Ok s2)))"

text \<open>\<open>panic\<close> prints and then loops; the state it leaves to the other harts.\<close>

definition panic :: "string \<Rightarrow> 'a ostate_scheme \<Rightarrow> ('a ostate_scheme) res" where
  "panic msg s =
     bnd (printf ''panic: '' [] (s\<lparr>pr_locking := False\<rparr>)) (\<lambda>s1.
     bnd (printf msg [] s1) (\<lambda>s2.
     bnd (printf [CHR 0x0A] [] s2) (\<lambda>s3. Ok (s3\<lparr>panicked := True\<rparr>))))"

definition printfinit :: "'a ostate_scheme \<Rightarrow> 'a ostate_scheme" where
  "printfinit s = (initlock PrLock s)\<lparr>pr_locking := True\<rparr>"

section \<open>What is printed\<close>

abbreviation out_ok :: "'a ostate_scheme \<Rightarrow> bool" where
  "out_ok s \<equiv> hart_ok s \<and> \<not> panicked s"

lemma uartputc_sync_ok:
  "out_ok s \<Longrightarrow> uartputc_sync c s =
     Ok (s\<lparr>cpus := bumped (cpus s) (hart s), uart_out := uart_out s @ [ucast c]\<rparr>)"
  by (simp add: uartputc_sync_def push_off_pushed Let_def pop_off_popped cpu_ok_def)

lemma consputc_byte:
  assumes "out_ok s"
  shows "consputc (ucast (c::u8)) s = Ok (s\<lparr>cpus := bumped (cpus s) (hart s), uart_out := uart_out s @ [c]\<rparr>)"
proof -
  have "\<not> bit (ucast c :: u32) 8" using bit_imp_le_length [of c 8] by (auto simp: bit_unsigned_iff)
  moreover have "bit BACKSPACE 8" by (simp add: BACKSPACE_def bit_numeral_rec)
  ultimately have "ucast c \<noteq> BACKSPACE" by auto
  moreover have "ucast (ucast c :: u32) = c" by (rule bit_word_eqI) (auto simp: bit_unsigned_iff)
  ultimately show ?thesis using assms by (simp add: consputc_def uartputc_sync_ok)
qed

text \<open>Output of \<open>cs\<close>, which may or may not touch the hart's saved interrupt state.\<close>

definition emits :: "u8 list \<Rightarrow> 'a ostate_scheme \<Rightarrow> 'a ostate_scheme \<Rightarrow> bool" where
  "emits cs s s' \<longleftrightarrow> (\<exists>c. s' = s\<lparr>cpus := c, uart_out := uart_out s @ cs\<rparr> \<and>
     (c = cpus s \<or> c = bumped (cpus s) (hart s)))"

lemma emits_nil [simp]: "emits [] s s"
  unfolding emits_def by (rule exI [of _ "cpus s"]) simp

lemma emits_trans: "emits cs s s1 \<Longrightarrow> emits ds s1 s2 \<Longrightarrow> emits (cs @ ds) s s2"
  unfolding emits_def by (elim exE conjE disjE) (auto intro: exI [of _ "bumped (cpus s) (hart s)"] exI [of _ "cpus s"])

lemma emits_ok: "emits cs s s' \<Longrightarrow> out_ok s \<Longrightarrow> out_ok s'"
  by (auto simp: emits_def)

lemma consputc_emits: "out_ok s \<Longrightarrow> \<exists>s'. consputc (ucast (c::u8)) s = Ok s' \<and> emits [c] s s'"
  by (simp add: consputc_byte) (auto simp: emits_def)

lemma putbytes_emits: "out_ok s \<Longrightarrow> \<exists>s'. putbytes cs s = Ok s' \<and> emits cs s s'"
proof (induction cs arbitrary: s)
  case (Cons c cs)
  obtain s1 where s1: "consputc (ucast c) s = Ok s1" "emits [c] s s1"
    using consputc_emits [OF Cons.prems, of c] by blast
  obtain s2 where "putbytes cs s1 = Ok s2" "emits cs s1 s2"
    using Cons.IH [OF emits_ok [OF s1(2) Cons.prems]] by blast
  then show ?case using s1 emits_trans [OF s1(2), of cs s2] by (simp add: putbytes_def)
qed (simp add: putbytes_def)

text \<open>The rendering of a format, as a function on byte lists.\<close>

fun render :: "u8 list \<Rightarrow> parg list \<Rightarrow> u8 list option" where
  "render [] ap = Some []"
| "render [c] ap = Some (if c \<noteq> 37 then [c] else [])"
| "render (c # d # fmt) ap =
     (if c \<noteq> 37 then map_option ((#) c) (render (d # fmt) ap)
      else if d = 100 \<or> d = 120 then
        (case ap of PInt x # ap' \<Rightarrow>
           map_option ((@) (rev (printint_buf x (if d = 100 then 10 else 16) True))) (render fmt ap')
         | _ \<Rightarrow> None)
      else if d = 112 then
        (case ap of PPtr x # ap' \<Rightarrow> map_option ((@) (48 # 120 # ptr_loop 16 x)) (render fmt ap') | _ \<Rightarrow> None)
      else if d = 115 then
        (case ap of PStr x # ap' \<Rightarrow>
           map_option ((@) (case x of None \<Rightarrow> bytes ''(null)'' | Some cs \<Rightarrow> takeWhile (\<lambda>c. c \<noteq> 0) cs))
             (render fmt ap')
         | _ \<Rightarrow> None)
      else if d = 37 then map_option ((#) 37) (render fmt ap)
      else map_option ((@) [37, d]) (render fmt ap))"

lemma bnd_emits:
  assumes "\<exists>s1. m = Ok s1 \<and> emits cs s s1" and "out_ok s"
    and "\<And>s1. out_ok s1 \<Longrightarrow> \<exists>s2. g s1 = Ok s2 \<and> emits ds s1 s2"
  shows "\<exists>s2. bnd m g = Ok s2 \<and> emits (cs @ ds) s s2"
proof -
  from assms(1) obtain s1 where s1: "m = Ok s1" "emits cs s s1" by blast
  from assms(3) [OF emits_ok [OF s1(2) assms(2)]] obtain s2 where "g s1 = Ok s2" "emits ds s1 s2" by blast
  then show ?thesis using s1 emits_trans by auto
qed

lemma printf_loop_emits:
  "out_ok s \<Longrightarrow> render fmt ap = Some cs \<Longrightarrow> \<exists>s'. printf_loop fmt ap s = Ok s' \<and> emits cs s s'"
proof (induction fmt ap arbitrary: s cs rule: render.induct)
  case (2 c ap)
  then show ?case using consputc_emits [of s c] by auto
next
  case (3 c d fmt ap)
  note IH = 3(1-6) and ok = 3(7) and r = 3(8)
  have put37: "\<exists>s'. consputc 37 s = Ok s' \<and> emits [37] s s'" if "out_ok s" for s :: "'a ostate_scheme"
    using consputc_emits [OF that, of 37] by simp
  consider "c \<noteq> 37" | "c = 37" "d = 100 \<or> d = 120" | "c = 37" "d = 112" | "c = 37" "d = 115"
    | "c = 37" "d = 37" | "c = 37" "d \<notin> {100, 120, 112, 115, 37}" by blast
  then show ?case
  proof cases
    case 1
    then obtain cs' where "render (d # fmt) ap = Some cs'" "cs = c # cs'" using r by auto
    then show ?thesis
      using 1 bnd_emits [OF consputc_emits [OF ok, of c] ok, 
          where g = "printf_loop (d # fmt) ap" and ds = cs'] IH(1) by simp
  next
    case 2
    then obtain x ap' cs' where a: "ap = PInt x # ap'" "render fmt ap' = Some cs'"
        "cs = rev (printint_buf x (if d = 100 then 10 else 16) True) @ cs'"
      using r by (auto split: list.splits parg.splits)
    show ?thesis
      using 2 a bnd_emits [OF putbytes_emits [OF ok,
          of "rev (printint_buf x (if d = 100 then 10 else 16) True)"] ok, 
          where g = "printf_loop fmt ap'" and ds = cs'] IH(2)
      by (auto simp: printint_def)
  next
    case 3
    then obtain x ap' cs' where a: "ap = PPtr x # ap'" "render fmt ap' = Some cs'"
        "cs = (48 # 120 # ptr_loop 16 x) @ cs'"
      using r by (auto split: list.splits parg.splits)
    show ?thesis
      using 3 a bnd_emits [OF putbytes_emits [OF ok, of "48 # 120 # ptr_loop 16 x"] ok, 
          where g = "printf_loop fmt ap'" and ds = cs'] IH(3)
      by (simp add: printptr_def)
  next
    case 4
    then obtain x ap' cs' where a: "ap = PStr x # ap'" "render fmt ap' = Some cs'"
        "cs = (case x of None \<Rightarrow> bytes ''(null)'' | Some cs \<Rightarrow> takeWhile (\<lambda>c. c \<noteq> 0) cs) @ cs'"
      using r by (auto split: list.splits parg.splits)
    show ?thesis
      using 4 a bnd_emits [OF putbytes_emits [OF ok, of "case x of None \<Rightarrow> bytes ''(null)''
          | Some cs \<Rightarrow> takeWhile (\<lambda>c. c \<noteq> 0) cs"] ok, 
          where g = "printf_loop fmt ap'" and ds = cs'] IH(4) by simp
  next
    case 5
    then obtain cs' where "render fmt ap = Some cs'" "cs = [37] @ cs'" using r by auto
    then show ?thesis
      using 5 bnd_emits [OF put37 [OF ok] ok, 
          where g = "printf_loop fmt ap" and ds = cs'] IH(5) by simp
  next
    case 6
    then obtain cs' where cs': "render fmt ap = Some cs'" "cs = [37] @ [d] @ cs'" using r by auto
    have "\<exists>s2. bnd (consputc (ucast d) s1) (printf_loop fmt ap) = Ok s2 \<and> emits ([d] @ cs') s1 s2"
      if "out_ok s1" for s1 :: "'a ostate_scheme"
      using bnd_emits [OF consputc_emits [OF that, of d] that, 
          where g = "printf_loop fmt ap" and ds = cs'] IH(6) cs'(1) 6 that by simp
    then show ?thesis
      using 6 cs'(2) bnd_emits [OF put37 [OF ok] ok,
          where g = "\<lambda>s1. bnd (consputc (ucast d) s1) (printf_loop fmt ap)" and ds = "[d] @ cs'"] by simp
  qed
qed simp

text \<open>Reading back what \<open>printint\<close> prints in base 10.\<close>

definition digit_val :: "u8 \<Rightarrow> nat" where
  "digit_val c = unat c - 48"

primrec dec_val :: "u8 list \<Rightarrow> nat" where
  "dec_val [] = 0"
| "dec_val (c # cs) = digit_val c + 10 * dec_val cs"

lemma digits_dec: "i < 10 \<Longrightarrow> digits ! i = 48 + of_nat i"
proof -
  have "\<forall>i\<in>set [0..<10]. digits ! i = 48 + of_nat i"
    by (simp add: upt_rec digits_def bytes_def)
  then show "i < 10 \<Longrightarrow> ?thesis" by simp
qed

lemma digit_loop_dec: "dec_val (digit_loop 10 x) = x"
proof (induction x rule: less_induct)
  case (less x)
  have d: "digit_val (digits ! (x mod 10)) = x mod 10"
  proof -
    have "unat (48 + of_nat (x mod 10) :: u8) = 48 + x mod 10"
      by (simp add: unat_word_ariths unat_of_nat)
    then show ?thesis by (simp add: digits_dec digit_val_def)
  qed
  show ?case
  proof (cases "x div 10 = 0")
    case True
    then show ?thesis using d by (simp add: digit_loop.simps [of 10 x])
  next
    case False
    then have "x div 10 < x" by simp
    with less have "dec_val (digit_loop 10 (x div 10)) = x div 10" by blast
    then show ?thesis using False d by (simp add: digit_loop.simps [of 10 x])
  qed
qed

lemma digit_loop_length: "x < 10 ^ n \<Longrightarrow> 0 < n \<Longrightarrow> length (digit_loop 10 x) \<le> n"
proof (induction n arbitrary: x)
  case (Suc n)
  show ?case
  proof (cases "x div 10 = 0")
    case True
    then show ?thesis by (simp add: digit_loop.simps [of 10 x])
  next
    case False
    then have "0 < n" using Suc.prems by (cases n) auto
    moreover have "x div 10 < 10 ^ n" using Suc.prems(1) by (simp add: div_less_iff_less_mult mult.commute)
    ultimately show ?thesis using Suc.IH [of "x div 10"] False by (simp add: digit_loop.simps [of 10 x])
  qed
qed simp

definition dec_int :: "u8 list \<Rightarrow> int" where
  "dec_int cs = (if hd cs = 45 then - int (dec_val (rev (tl cs))) else int (dec_val (rev cs)))"

lemma digit_loop_ne: "1 < b \<Longrightarrow> digit_loop b x \<noteq> []"
  by (subst digit_loop.simps) simp

lemma digit_loop_last: "last (digit_loop 10 x) \<noteq> 45"
proof (induction x rule: less_induct)
  case (less x)
  have d: "digits ! (x mod 10) \<noteq> 45"
  proof
    assume "digits ! (x mod 10) = 45"
    moreover have "unat (digits ! (x mod 10)) = 48 + x mod 10"
      by (simp add: digits_dec unat_word_ariths unat_of_nat)
    ultimately show False by simp
  qed
  show ?case
  proof (cases "x div 10 = 0")
    case True
    then show ?thesis using d by (simp add: digit_loop.simps [of 10 x])
  next
    case False
    then show ?thesis using less [of "x div 10"] digit_loop_ne [of 10 "x div 10"]
      by (simp add: digit_loop.simps [of 10 x])
  qed
qed


lemma printf_locked:
  assumes "render (bytes fmt) ap = Some cs" and "out_ok s" and "pr_locking s" and "unlocked PrLock s"
  shows "printf fmt ap s = Ok (s\<lparr>cpus := bumped (cpus s) (hart s), uart_out := uart_out s @ cs\<rparr>)"
proof -
  let ?s1 = "s\<lparr>cpus := pushed (cpus s) (hart s), locks := (locks s)(PrLock := held_by (hart s))\<rparr>"
  have "out_ok ?s1" using assms by simp
  from printf_loop_emits [OF this assms(1)] obtain s2 where
      s2: "printf_loop (bytes fmt) ap ?s1 = Ok s2" "emits cs ?s1 s2" by blast
  then have "s2 = ?s1\<lparr>uart_out := uart_out s @ cs\<rparr>" using assms(2) by (auto simp: emits_def)
  then show ?thesis using assms s2(1) by (simp add: printf_def)
qed



end
