(* ===== verification/Proc.thy ===== *)
theory Proc
  imports Kprintf Vm
begin

unbundle bit_operations_syntax

text \<open>
  kernel/proc.c: the process table and its life cycle, sleep and wakeup, the context switch, the
  scheduler (round robin and the priority-based one), wait and waitx, and the accounting of
  \<open>update_time\<close>. A process is its index in \<open>proc[]\<close>. The assembly routine \<open>swtch\<close> is a
  parameter \<open>sw\<close>: everything that happens on the hart until control comes back.
  Fork and exit, which also touch files, are in theory Fork.
\<close>

section \<open>Data\<close>

datatype procstate = UNUSED | USED | SLEEPING | RUNNABLE | RUNNING | ZOMBIE

text \<open>Wait channels are addresses of kernel objects; the null pointer is \<open>NoChan\<close>.\<close>

datatype chan =
    NoChan | ProcCh nat | TicksCh | UartCh | ConsCh | LogCh | DiskFreeCh
  | PipeReadCh u64 | PipeWriteCh u64 | SleepLkCh nat | BufCh nat

record kcontext =
  ra :: u64
  sp :: u64
  callee_saved :: "u64 list"     \<comment> \<open>s0 to s11\<close>

record proc =
  p_state :: procstate
  p_chan :: chan
  p_killed :: int
  p_xstate :: int
  p_pid :: int
  p_parent :: "nat option"
  p_kstack :: u64
  p_sz :: u64
  p_pagetable :: u64
  p_trapframe :: u64
  p_context :: kcontext
  p_ofile :: "nat \<Rightarrow> nat option"   \<comment> \<open>index in the file table\<close>
  p_cwd :: "nat option"            \<comment> \<open>index in the inode table\<close>
  p_name :: "u8 list"
  p_rtime :: u32
  p_ctime :: u32
  p_etime :: u32
  p_wait_time :: int
  p_running_time :: int
  p_sleep_time :: int
  p_st_priority :: int
  p_rbi :: int
  p_schedule_count :: int

text \<open>The trapframe page is ordinary memory; its fields are at these offsets.\<close>

datatype tf_field =
    KernelSatp | KernelSp | KernelTrap | Epc | KernelHartid | TfRa | TfSp | TfGp | TfTp
  | TfT nat | TfS nat | TfA nat

fun tf_off :: "tf_field \<Rightarrow> u64" where
  "tf_off KernelSatp = 0"
| "tf_off KernelSp = 8"
| "tf_off KernelTrap = 16"
| "tf_off Epc = 24"
| "tf_off KernelHartid = 32"
| "tf_off TfRa = 40"
| "tf_off TfSp = 48"
| "tf_off TfGp = 56"
| "tf_off TfTp = 64"
| "tf_off (TfT i) = (if i < 3 then 72 + 8 * of_nat i else 256 + 8 * of_nat (i - 3))"
| "tf_off (TfS i) = (if i < 2 then 96 + 8 * of_nat i else 176 + 8 * of_nat (i - 2))"
| "tf_off (TfA i) = 112 + 8 * of_nat i"

record pstate = ostate +
  procs :: "nat \<Rightarrow> proc"
  initproc :: "nat option"
  nextpid :: int
  ticks :: u32
  trampoline :: u64        \<comment> \<open>address of the trampoline code\<close>
  forkret_addr :: u64      \<comment> \<open>address of \<open>forkret\<close>\<close>

definition upd_proc :: "nat \<Rightarrow> (proc \<Rightarrow> proc) \<Rightarrow> 'a pstate_scheme \<Rightarrow> 'a pstate_scheme" where
  "upd_proc p f s = s\<lparr>procs := (procs s)(p := f (procs s p))\<rparr>"

definition tf_get :: "tf_field \<Rightarrow> nat \<Rightarrow> 'a pstate_scheme \<Rightarrow> u64" where
  "tf_get f p s = ld64 (mem s) (p_trapframe (procs s p) + tf_off f)"

definition tf_set :: "tf_field \<Rightarrow> u64 \<Rightarrow> nat \<Rightarrow> 'a pstate_scheme \<Rightarrow> 'a pstate_scheme" where
  "tf_set f v p s = s\<lparr>mem := st64 (p_trapframe (procs s p) + tf_off f) v (mem s)\<rparr>"

section \<open>Process table\<close>

definition procinit :: "'a pstate_scheme \<Rightarrow> ('a pstate_scheme) res" where
  "procinit s = for_each [0..<NPROC] (\<lambda>p s.
       Ok (upd_proc p (\<lambda>pr. pr\<lparr>p_state := UNUSED, p_kstack := KSTACK p\<rparr>) (initlock (ProcLock p) s)))
     (initlock WaitLock (initlock PidLock s))"

definition allocpid :: "'a pstate_scheme \<Rightarrow> (int \<times> 'a pstate_scheme) res" where
  "allocpid s =
     bnd (acquire PidLock s) (\<lambda>s1.
       let pid = nextpid s1
       in bnd (release PidLock (s1\<lparr>nextpid := wrap32 (nextpid s1 + 1)\<rparr>)) (\<lambda>s2. Ok (pid, s2)))"

definition proc_pagetable :: "nat \<Rightarrow> 'a pstate_scheme \<Rightarrow> (u64 \<times> 'a pstate_scheme) res" where
  "proc_pagetable p s =
     bnd (uvmcreate s) (\<lambda>(pagetable, s1).
       if pagetable = 0 then Ok (0, s1)
       else bnd (mappages pagetable TRAMPOLINE PGSIZE (trampoline s1) (PTE_R OR PTE_X) s1) (\<lambda>(r, s2).
         if r < 0 then bnd (uvmfree pagetable 0 s2) (\<lambda>s3. Ok (0, s3))
         else bnd (mappages pagetable TRAPFRAME PGSIZE (p_trapframe (procs s2 p)) (PTE_R OR PTE_W) s2) (\<lambda>(r, s3).
           if r < 0 then
             bnd (uvmunmap pagetable TRAMPOLINE 1 False s3) (\<lambda>s4.
             bnd (uvmfree pagetable 0 s4) (\<lambda>s5. Ok (0, s5)))
           else Ok (pagetable, s3))))"

definition proc_freepagetable :: "u64 \<Rightarrow> u64 \<Rightarrow> 'a pstate_scheme \<Rightarrow> ('a pstate_scheme) res" where
  "proc_freepagetable pagetable sz s =
     bnd (uvmunmap pagetable TRAMPOLINE 1 False s) (\<lambda>s1.
     bnd (uvmunmap pagetable TRAPFRAME 1 False s1) (uvmfree pagetable sz))"

definition set_byte0 :: "u8 list \<Rightarrow> u8 list" where
  "set_byte0 nm = (case nm of [] \<Rightarrow> [] | _ # cs \<Rightarrow> 0 # cs)"

definition freeproc :: "nat \<Rightarrow> 'a pstate_scheme \<Rightarrow> ('a pstate_scheme) res" where
  "freeproc p s =
     bnd (if p_trapframe (procs s p) \<noteq> 0 then kfree (p_trapframe (procs s p)) s else Ok s) (\<lambda>s1.
     let s2 = upd_proc p (\<lambda>pr. pr\<lparr>p_trapframe := 0\<rparr>) s1
     in bnd (if p_pagetable (procs s2 p) \<noteq> 0
             then proc_freepagetable (p_pagetable (procs s2 p)) (p_sz (procs s2 p)) s2 else Ok s2) (\<lambda>s3.
     Ok (upd_proc p (\<lambda>pr. pr\<lparr>p_pagetable := 0, p_sz := 0, p_pid := 0, p_parent := None,
           p_name := set_byte0 (p_name pr), p_chan := NoChan, p_killed := 0, p_xstate := 0,
           p_state := UNUSED\<rparr>) s3)))"

definition zero_context :: kcontext where
  "zero_context = \<lparr>ra = 0, sp = 0, callee_saved = replicate 12 0\<rparr>"

text \<open>The scan of \<open>allocproc\<close>: returns with the lock of the slot it found held.\<close>

fun allocproc_scan :: "nat list \<Rightarrow> 'a pstate_scheme \<Rightarrow> (nat option \<times> 'a pstate_scheme) res" where
  "allocproc_scan [] s = Ok (None, s)"
| "allocproc_scan (p # ps) s =
     bnd (acquire (ProcLock p) s) (\<lambda>s1.
       if p_state (procs s1 p) = UNUSED then Ok (Some p, s1)
       else bnd (release (ProcLock p) s1) (allocproc_scan ps))"

definition allocproc :: "'a pstate_scheme \<Rightarrow> (nat option \<times> 'a pstate_scheme) res" where
  "allocproc s =
     bnd (allocproc_scan [0..<NPROC] s) (\<lambda>(found, s1).
     case found of None \<Rightarrow> Ok (None, s1)
     | Some p \<Rightarrow>
       bnd (allocpid s1) (\<lambda>(pid, s2).
       bnd (kalloc (upd_proc p (\<lambda>pr. pr\<lparr>p_pid := pid, p_state := USED\<rparr>) s2)) (\<lambda>(tf, s3).
       let s4 = upd_proc p (\<lambda>pr. pr\<lparr>p_trapframe := tf\<rparr>) s3
       in if tf = 0 then
            bnd (freeproc p s4) (\<lambda>s5. bnd (release (ProcLock p) s5) (\<lambda>s6. Ok (None, s6)))
          else bnd (proc_pagetable p s4) (\<lambda>(pt, s5).
            let s6 = upd_proc p (\<lambda>pr. pr\<lparr>p_pagetable := pt\<rparr>) s5
            in if pt = 0 then
                 bnd (freeproc p s6) (\<lambda>s7. bnd (release (ProcLock p) s7) (\<lambda>s8. Ok (None, s8)))
               else Ok (Some p, upd_proc p (\<lambda>pr. pr\<lparr>
                 p_context := zero_context\<lparr>ra := forkret_addr s6, sp := p_kstack pr + PGSIZE\<rparr>,
                 p_rtime := 0, p_etime := 0, p_ctime := ticks s6, p_wait_time := 0, p_running_time := 0,
                 p_sleep_time := 0, p_st_priority := 50, p_rbi := 25, p_schedule_count := 0\<rparr>) s6)))))"

definition growproc :: "int \<Rightarrow> 'a pstate_scheme \<Rightarrow> (int \<times> 'a pstate_scheme) res" where
  "growproc n s =
     bnd (myproc s) (\<lambda>(me, s1).
     case me of None \<Rightarrow> Err (Undef ''growproc: no process'')
     | Some p \<Rightarrow>
       let sz = p_sz (procs s1 p); pt = p_pagetable (procs s1 p)
       in if n > 0 then
            bnd (uvmalloc pt sz (sz + of_int n) PTE_W s1) (\<lambda>(sz', s2).
              if sz' = 0 then Ok (-1, s2) else Ok (0, upd_proc p (\<lambda>pr. pr\<lparr>p_sz := sz'\<rparr>) s2))
          else if n < 0 then
            bnd (uvmdealloc pt sz (sz + of_int n) s1) (\<lambda>(sz', s2).
              Ok (0, upd_proc p (\<lambda>pr. pr\<lparr>p_sz := sz'\<rparr>) s2))
          else Ok (0, upd_proc p (\<lambda>pr. pr\<lparr>p_sz := sz\<rparr>) s1))"

section \<open>Context switch, sleep and wakeup\<close>

definition sched :: "('a pstate_scheme \<Rightarrow> ('a pstate_scheme) res) \<Rightarrow> 'a pstate_scheme \<Rightarrow> ('a pstate_scheme) res" where
  "sched sw s =
     bnd (myproc s) (\<lambda>(me, s1).
     case me of None \<Rightarrow> Err (Undef ''sched: no process'')
     | Some p \<Rightarrow>
       if \<not> holding (ProcLock p) s1 then Err (Panic ''sched p->lock'')
       else if noff (mycpu s1) \<noteq> 1 then Err (Panic ''sched locks'')
       else if p_state (procs s1 p) = RUNNING then Err (Panic ''sched running'')
       else if intr_get s1 then Err (Panic ''sched interruptible'')
       else let saved = intena (mycpu s1)
            in bnd (sw s1) (\<lambda>s2. Ok (upd_mycpu (\<lambda>c. c\<lparr>intena := saved\<rparr>) s2)))"

definition yield :: "('a pstate_scheme \<Rightarrow> ('a pstate_scheme) res) \<Rightarrow> 'a pstate_scheme \<Rightarrow> ('a pstate_scheme) res" where
  "yield sw s =
     bnd (myproc s) (\<lambda>(me, s1).
     case me of None \<Rightarrow> Err (Undef ''yield: no process'')
     | Some p \<Rightarrow>
       bnd (acquire (ProcLock p) s1) (\<lambda>s2.
       bnd (sched sw (upd_proc p (\<lambda>pr. pr\<lparr>p_state := RUNNABLE\<rparr>) s2)) (release (ProcLock p))))"

definition sleep :: "('a pstate_scheme \<Rightarrow> ('a pstate_scheme) res) \<Rightarrow> chan \<Rightarrow> lockid \<Rightarrow>
    'a pstate_scheme \<Rightarrow> ('a pstate_scheme) res" where
  "sleep sw ch lk s =
     bnd (myproc s) (\<lambda>(me, s1).
     case me of None \<Rightarrow> Err (Undef ''sleep: no process'')
     | Some p \<Rightarrow>
       bnd (acquire (ProcLock p) s1) (\<lambda>s2.
       bnd (release lk s2) (\<lambda>s3.
       bnd (sched sw (upd_proc p (\<lambda>pr. pr\<lparr>p_chan := ch, p_state := SLEEPING\<rparr>) s3)) (\<lambda>s4.
       bnd (release (ProcLock p) (upd_proc p (\<lambda>pr. pr\<lparr>p_chan := NoChan\<rparr>) s4)) (acquire lk)))))"

definition wakeup :: "chan \<Rightarrow> 'a pstate_scheme \<Rightarrow> ('a pstate_scheme) res" where
  "wakeup ch = for_each [0..<NPROC] (\<lambda>p s.
     bnd (myproc s) (\<lambda>(me, s1).
     if me \<noteq> Some p then
       bnd (acquire (ProcLock p) s1) (\<lambda>s2.
       release (ProcLock p)
         (if p_state (procs s2 p) = SLEEPING \<and> p_chan (procs s2 p) = ch
          then upd_proc p (\<lambda>pr. pr\<lparr>p_state := RUNNABLE\<rparr>) s2 else s2))
     else Ok s1))"

fun kill_scan :: "int \<Rightarrow> nat list \<Rightarrow> 'a pstate_scheme \<Rightarrow> (int \<times> 'a pstate_scheme) res" where
  "kill_scan pid [] s = Ok (-1, s)"
| "kill_scan pid (p # ps) s =
     bnd (acquire (ProcLock p) s) (\<lambda>s1.
       if p_pid (procs s1 p) = pid then
         bnd (release (ProcLock p) (upd_proc p (\<lambda>pr. pr\<lparr>p_killed := 1,
                p_state := (if p_state pr = SLEEPING then RUNNABLE else p_state pr)\<rparr>) s1)) (\<lambda>s2. Ok (0, s2))
       else bnd (release (ProcLock p) s1) (kill_scan pid ps))"

definition kill :: "int \<Rightarrow> 'a pstate_scheme \<Rightarrow> (int \<times> 'a pstate_scheme) res" where
  "kill pid = kill_scan pid [0..<NPROC]"

definition setkilled :: "nat \<Rightarrow> 'a pstate_scheme \<Rightarrow> ('a pstate_scheme) res" where
  "setkilled p s =
     bnd (acquire (ProcLock p) s) (\<lambda>s1. release (ProcLock p) (upd_proc p (\<lambda>pr. pr\<lparr>p_killed := 1\<rparr>) s1))"

definition killed :: "nat \<Rightarrow> 'a pstate_scheme \<Rightarrow> (int \<times> 'a pstate_scheme) res" where
  "killed p s =
     bnd (acquire (ProcLock p) s) (\<lambda>s1.
       let k = p_killed (procs s1 p) in bnd (release (ProcLock p) s1) (\<lambda>s2. Ok (k, s2)))"

text \<open>Caller holds \<open>wait_lock\<close>.\<close>

definition reparent :: "nat \<Rightarrow> 'a pstate_scheme \<Rightarrow> ('a pstate_scheme) res" where
  "reparent p = for_each [0..<NPROC] (\<lambda>pp s.
     if p_parent (procs s pp) = Some p then
       let s1 = upd_proc pp (\<lambda>pr. pr\<lparr>p_parent := initproc s\<rparr>) s
       in wakeup (case initproc s of None \<Rightarrow> NoChan | Some i \<Rightarrow> ProcCh i) s1
     else Ok s)"

definition either_copyout :: "bool \<Rightarrow> u64 \<Rightarrow> u8 list \<Rightarrow> 'a pstate_scheme \<Rightarrow> (int \<times> 'a pstate_scheme) res" where
  "either_copyout user_dst dst src s =
     bnd (myproc s) (\<lambda>(me, s1).
     if user_dst then
       (case me of None \<Rightarrow> Err (Undef ''either_copyout: no process'')
        | Some p \<Rightarrow> copyout (p_pagetable (procs s1 p)) dst src s1)
     else Ok (0, s1\<lparr>mem := write_bytes dst src (mem s1)\<rparr>))"

definition either_copyin :: "bool \<Rightarrow> u64 \<Rightarrow> nat \<Rightarrow> 'a pstate_scheme \<Rightarrow> ((int \<times> u8 list) \<times> 'a pstate_scheme) res" where
  "either_copyin user_src src len s =
     bnd (myproc s) (\<lambda>(me, s1).
     if user_src then
       (case me of None \<Rightarrow> Err (Undef ''either_copyin: no process'')
        | Some p \<Rightarrow> copyin (p_pagetable (procs s1 p)) src len s1)
     else Ok ((0, read_bytes src len (mem s1)), s1))"

section \<open>Priorities\<close>

definition c_max :: "int \<Rightarrow> int \<Rightarrow> int" where
  "c_max a b = (if a > b then a else b)"

text \<open>Both branches of the source return \<open>a\<close>.\<close>

definition c_min :: "int \<Rightarrow> int \<Rightarrow> int" where
  "c_min a b = (if a < b then a else a)"

definition rbi_value :: "proc \<Rightarrow> int" where
  "rbi_value pr = wrap32 (cdiv
     (wrap32 (wrap32 (wrap32 (wrap32 (3 * p_running_time pr) - p_sleep_time pr) - p_wait_time pr) * 50))
     (wrap32 (wrap32 (wrap32 (p_running_time pr + p_wait_time pr) + p_sleep_time pr) + 1)))"

definition rbi_calculator :: "nat \<Rightarrow> 'a pstate_scheme \<Rightarrow> int \<times> 'a pstate_scheme" where
  "rbi_calculator p s =
     (let rbi = rbi_value (procs s p)
      in (c_max rbi 0, upd_proc p (\<lambda>pr. pr\<lparr>p_rbi := c_max rbi 0\<rparr>) s))"

definition dp_calc :: "nat \<Rightarrow> 'a pstate_scheme \<Rightarrow> int \<times> 'a pstate_scheme" where
  "dp_calc p s =
     (let (r, s1) = rbi_calculator p s in (c_min (wrap32 (p_st_priority (procs s1 p) + r)) 100, s1))"

section \<open>Schedulers\<close>

text \<open>
  \<open>run p\<close> is what happens from the switch to process \<open>p\<close> until it switches back. One pass
  of the endless loop of each scheduler.
\<close>

definition set_cproc :: "nat option \<Rightarrow> 'a pstate_scheme \<Rightarrow> 'a pstate_scheme" where
  "set_cproc p s = upd_mycpu (\<lambda>c. c\<lparr>cproc := p\<rparr>) s"

definition rr_pass :: "(nat \<Rightarrow> 'a pstate_scheme \<Rightarrow> ('a pstate_scheme) res) \<Rightarrow> 'a pstate_scheme \<Rightarrow> ('a pstate_scheme) res" where
  "rr_pass run s = for_each [0..<NPROC] (\<lambda>p s.
     bnd (acquire (ProcLock p) s) (\<lambda>s1.
     bnd (if p_state (procs s1 p) = RUNNABLE then
            bnd (run p (set_cproc (Some p) (upd_proc p (\<lambda>pr. pr\<lparr>p_state := RUNNING\<rparr>) s1)))
              (\<lambda>s2. Ok (set_cproc None s2))
          else Ok s1) (release (ProcLock p))))
     (intr_on s)"

text \<open>
  The comparison of the scan. The calls of \<open>dp_calc\<close> are made in this order and stop where
  \<open>||\<close> and \<open>&&\<close> stop; each of them stores the \<open>rbi\<close> it computes.
\<close>

definition pbs_better :: "nat \<Rightarrow> nat \<Rightarrow> 'a pstate_scheme \<Rightarrow> bool \<times> 'a pstate_scheme" where
  "pbs_better p q s =
     (let (a, s1) = dp_calc p s; (b, s2) = dp_calc q s1
      in if a < b then (True, s2)
      else let (a, s3) = dp_calc p s2; (b, s4) = dp_calc q s3
      in if a = b \<and> p_schedule_count (procs s4 p) < p_schedule_count (procs s4 q) then (True, s4)
      else let (a, s5) = dp_calc p s4; (b, s6) = dp_calc q s5
      in (a = b \<and> p_schedule_count (procs s6 p) = p_schedule_count (procs s6 q) \<and>
          p_ctime (procs s6 p) < p_ctime (procs s6 q), s6))"

fun pbs_scan :: "nat list \<Rightarrow> nat option \<Rightarrow> 'a pstate_scheme \<Rightarrow> (nat option \<times> 'a pstate_scheme) res" where
  "pbs_scan [] pri_pro s = Ok (pri_pro, s)"
| "pbs_scan (p # ps) pri_pro s =
     bnd (acquire (ProcLock p) s) (\<lambda>s1.
       let (better, s2) =
         (if p_state (procs s1 p) = RUNNABLE
          then (case pri_pro of None \<Rightarrow> (True, s1) | Some q \<Rightarrow> pbs_better p q s1)
          else (False, s1))
       in if better then
            bnd (case pri_pro of None \<Rightarrow> Ok s2 | Some q \<Rightarrow> release (ProcLock q) s2) (pbs_scan ps (Some p))
          else bnd (release (ProcLock p) s2) (pbs_scan ps pri_pro))"

definition pbs_pass :: "(nat \<Rightarrow> 'a pstate_scheme \<Rightarrow> ('a pstate_scheme) res) \<Rightarrow> 'a pstate_scheme \<Rightarrow> ('a pstate_scheme) res" where
  "pbs_pass run s =
     bnd (pbs_scan [0..<NPROC] None (intr_on s)) (\<lambda>(pri_pro, s1).
     case pri_pro of None \<Rightarrow> Ok s1
     | Some p \<Rightarrow>
       bnd (run p (set_cproc (Some p) (upd_proc p (\<lambda>pr. pr\<lparr>
              p_schedule_count := wrap32 (p_schedule_count pr + 1), p_running_time := 0,
              p_state := RUNNING\<rparr>) s1))) (\<lambda>s2.
       release (ProcLock p) (set_cproc None s2)))"

text \<open>The scheduler never returns: \<open>n\<close> passes of it.\<close>

primrec scheduler :: "('a pstate_scheme \<Rightarrow> ('a pstate_scheme) res) \<Rightarrow> nat \<Rightarrow> 'a pstate_scheme \<Rightarrow> ('a pstate_scheme) res" where
  "scheduler pass 0 s = Ok (set_cproc None s)"
| "scheduler pass (Suc n) s = bnd (scheduler pass n s) pass"

section \<open>Waiting for children\<close>

definition int_bytes :: "int \<Rightarrow> u8 list" where
  "int_bytes v = map (\<lambda>i. ucast (drop_bit (8 * i) (of_int v :: u32))) [0..<4]"

text \<open>
  One scan for a dead child. \<open>found np s\<close> is what differs between \<open>wait\<close> and \<open>waitx\<close>
  (the latter reads the times first); the scan ends with a result, or says whether there are
  children.
\<close>

datatype scan_result = Reaped int | Kids bool

fun wait_scan :: "nat \<Rightarrow> u64 \<Rightarrow> nat list \<Rightarrow> bool \<Rightarrow> 'a pstate_scheme \<Rightarrow>
    ((scan_result \<times> (u32 \<times> u32) option) \<times> 'a pstate_scheme) res" where
  "wait_scan p addr [] havekids s = Ok ((Kids havekids, None), s)"
| "wait_scan p addr (pp # ps) havekids s =
     (if p_parent (procs s pp) = Some p then
        bnd (acquire (ProcLock pp) s) (\<lambda>s1.
        if p_state (procs s1 pp) = ZOMBIE then
          let pr = procs s1 pp; times = (p_etime pr - p_ctime pr - p_rtime pr, p_rtime pr)
          in bnd (if addr \<noteq> 0 then copyout (p_pagetable (procs s1 p)) addr (int_bytes (p_xstate pr)) s1
                  else Ok (0, s1)) (\<lambda>(r, s2).
             if r < 0 then
               bnd (release (ProcLock pp) s2) (\<lambda>s3. bnd (release WaitLock s3) (\<lambda>s4. Ok ((Reaped (-1), Some times), s4)))
             else
               bnd (freeproc pp s2) (\<lambda>s3. bnd (release (ProcLock pp) s3) (\<lambda>s4.
               bnd (release WaitLock s4) (\<lambda>s5. Ok ((Reaped (p_pid pr), Some times), s5)))))
        else bnd (release (ProcLock pp) s1) (wait_scan p addr ps True))
      else wait_scan p addr ps havekids s)"

text \<open>
  The loop of \<open>wait\<close>: \<open>n\<close> bounds the number of times the process is put to sleep and
  woken; running out of it means that the call has not returned.
\<close>

fun wait_loop :: "('a pstate_scheme \<Rightarrow> ('a pstate_scheme) res) \<Rightarrow> nat \<Rightarrow> nat \<Rightarrow> u64 \<Rightarrow> 'a pstate_scheme \<Rightarrow>
    (int \<times> 'a pstate_scheme) res" where
  "wait_loop sw n p addr s =
     bnd (wait_scan p addr [0..<NPROC] False s) (\<lambda>((r, _), s1).
     case r of Reaped pid \<Rightarrow> Ok (pid, s1)
     | Kids havekids \<Rightarrow>
       bnd (if havekids then killed p s1 else Ok (0, s1)) (\<lambda>(k, s2).
       if \<not> havekids \<or> k \<noteq> 0 then bnd (release WaitLock s2) (\<lambda>s3. Ok (-1, s3))
       else (case n of 0 \<Rightarrow> Err Asleep
             | Suc m \<Rightarrow> bnd (sleep sw (ProcCh p) WaitLock s2) (wait_loop sw m p addr))))"

declare wait_loop.simps [simp del]

definition wait :: "('a pstate_scheme \<Rightarrow> ('a pstate_scheme) res) \<Rightarrow> nat \<Rightarrow> u64 \<Rightarrow> 'a pstate_scheme \<Rightarrow>
    (int \<times> 'a pstate_scheme) res" where
  "wait sw n addr s =
     bnd (myproc s) (\<lambda>(me, s1).
     case me of None \<Rightarrow> Err (Undef ''wait: no process'')
     | Some p \<Rightarrow> bnd (acquire WaitLock s1) (wait_loop sw n p addr))"

text \<open>
  \<open>waitx\<close> also returns \<open>(wtime, rtime)\<close>; \<open>None\<close> when it returned without storing them.
  It reads \<open>p->killed\<close> without the lock.
\<close>

fun waitx_loop :: "('a pstate_scheme \<Rightarrow> ('a pstate_scheme) res) \<Rightarrow> nat \<Rightarrow> nat \<Rightarrow> u64 \<Rightarrow> 'a pstate_scheme \<Rightarrow>
    ((int \<times> (u32 \<times> u32) option) \<times> 'a pstate_scheme) res" where
  "waitx_loop sw n p addr s =
     bnd (wait_scan p addr [0..<NPROC] False s) (\<lambda>((r, times), s1).
     case r of Reaped pid \<Rightarrow> Ok ((pid, times), s1)
     | Kids havekids \<Rightarrow>
       if \<not> havekids \<or> p_killed (procs s1 p) \<noteq> 0
       then bnd (release WaitLock s1) (\<lambda>s2. Ok ((-1, None), s2))
       else (case n of 0 \<Rightarrow> Err Asleep
             | Suc m \<Rightarrow> bnd (sleep sw (ProcCh p) WaitLock s1) (waitx_loop sw m p addr)))"

declare waitx_loop.simps [simp del]

definition waitx :: "('a pstate_scheme \<Rightarrow> ('a pstate_scheme) res) \<Rightarrow> nat \<Rightarrow> u64 \<Rightarrow> 'a pstate_scheme \<Rightarrow>
    ((int \<times> (u32 \<times> u32) option) \<times> 'a pstate_scheme) res" where
  "waitx sw n addr s =
     bnd (myproc s) (\<lambda>(me, s1).
     case me of None \<Rightarrow> Err (Undef ''waitx: no process'')
     | Some p \<Rightarrow> bnd (acquire WaitLock s1) (waitx_loop sw n p addr))"

section \<open>Process listing and accounting\<close>

fun state_name :: "procstate \<Rightarrow> string" where
  "state_name UNUSED = ''unused''"
| "state_name USED = ''used''"
| "state_name SLEEPING = ''sleep ''"
| "state_name RUNNABLE = ''runble''"
| "state_name RUNNING = ''run   ''"
| "state_name ZOMBIE = ''zombie''"

definition pint :: "int \<Rightarrow> parg" where
  "pint x = PInt (of_int x)"

text \<open>The listing of a kernel built with PBS.\<close>

definition procdump :: "'a pstate_scheme \<Rightarrow> ('a pstate_scheme) res" where
  "procdump s =
     bnd (printf [CHR 0x0A] [] s) (for_each [0..<NPROC] (\<lambda>p s.
       let pr = procs s p
       in if p_state pr = UNUSED then Ok s
          else bnd (printf ''%d %s %s''
                 [pint (p_pid pr), PStr (Some (bytes (state_name (p_state pr)))), PStr (Some (p_name pr))] s) (\<lambda>s1.
               bnd (printf '' st_priority:%d rbi:%d sche_count:%d , slp_time:%d , rt:%d wt:%d  ctime:%d''
                 [pint (p_st_priority pr), pint (p_rbi pr), pint (p_schedule_count pr), pint (p_sleep_time pr),
                  pint (p_running_time pr), pint (p_wait_time pr), PInt (p_ctime pr)] s1)
               (printf [CHR 0x0A] []))))"

definition account :: "proc \<Rightarrow> proc" where
  "account pr =
     (if p_state pr = RUNNING then
        pr\<lparr>p_rtime := p_rtime pr + 1, p_running_time := wrap32 (p_running_time pr + 1), p_sleep_time := 0\<rparr>
      else if p_state pr = RUNNABLE then pr\<lparr>p_wait_time := wrap32 (p_wait_time pr + 1)\<rparr>
      else if p_state pr = SLEEPING then pr\<lparr>p_sleep_time := wrap32 (p_sleep_time pr + 1)\<rparr>
      else pr)"

definition update_time :: "'a pstate_scheme \<Rightarrow> ('a pstate_scheme) res" where
  "update_time s =
     bnd (procdump s) (for_each [0..<NPROC] (\<lambda>p s.
       bnd (acquire (ProcLock p) s) (\<lambda>s1. release (ProcLock p) (upd_proc p account s1))))"

section \<open>A machine at rest\<close>

text \<open>An unused table slot, and a one-hart machine state holding a given process table.\<close>

definition blank_proc :: proc where
  "blank_proc = \<lparr>p_state = UNUSED, p_chan = NoChan, p_killed = 0, p_xstate = 0, p_pid = 0, p_parent = None,
     p_kstack = 0, p_sz = 0, p_pagetable = 0, p_trapframe = 0, p_context = zero_context, p_ofile = (\<lambda>_. None),
     p_cwd = None, p_name = replicate 16 0, p_rtime = 0, p_ctime = 0, p_etime = 0, p_wait_time = 0,
     p_running_time = 0, p_sleep_time = 0, p_st_priority = 50, p_rbi = 25, p_schedule_count = 0\<rparr>"

definition machine :: "nat option \<Rightarrow> (nat \<Rightarrow> proc) \<Rightarrow> pstate" where
  "machine me ps = \<lparr>hart = 0, cpus = (\<lambda>h. \<lparr>cproc = (if h = 0 then me else None), noff = 0, intena = False, sie = False\<rparr>),
     locks = (\<lambda>_. free_lock), mem = (\<lambda>_. 0), freelist = 0, no_of_ref_array = (\<lambda>_. 0), kend = 0x80008000,
     uart_out = [], panicked = False, pr_locking = True, procs = ps, initproc = Some 0, nextpid = 3, ticks = 0,
     trampoline = 0x80007000, forkret_addr = 0x80001000\<rparr>"

end
