(* ===== verification/Sched.thy ===== *)
theory Sched
  imports Proc
begin

text \<open>
  The priority-based scheduler of kernel/proc.c chooses the runnable process that is least in the
  order (dynamic priority, number of times scheduled, creation time), the first one in the table
  among equals, and returns from its scan holding exactly that process's lock.
\<close>

section \<open>Choosing by a strict weak order\<close>

text \<open>What the scan relies on: a comparison that is a strict weak order.\<close>

locale pri_choice =
  fixes lt :: "'k \<Rightarrow> 'k \<Rightarrow> bool"
  assumes lt_irrefl: "\<not> lt a a"
    and lt_trans: "lt a b \<Longrightarrow> lt b c \<Longrightarrow> lt a c"
    and lt_neg: "lt a c \<Longrightarrow> lt a b \<or> lt b c"
begin

primrec pick :: "('i \<Rightarrow> 'k option) \<Rightarrow> 'i list \<Rightarrow> 'i option \<Rightarrow> 'i option" where
  "pick key [] best = best"
| "pick key (p # ps) best =
     (case key p of None \<Rightarrow> pick key ps best
      | Some k \<Rightarrow> (case best of None \<Rightarrow> pick key ps (Some p)
         | Some q \<Rightarrow> if lt k (the (key q)) then pick key ps (Some p) else pick key ps best))"

text \<open>\<open>chosen key xs r\<close>: \<open>r\<close> is the first least element of \<open>xs\<close> that has a key.\<close>

definition chosen :: "('i \<Rightarrow> 'k option) \<Rightarrow> 'i list \<Rightarrow> 'i option \<Rightarrow> bool" where
  "chosen key xs r \<longleftrightarrow> (case r of
     None \<Rightarrow> \<forall>x\<in>set xs. key x = None
   | Some p \<Rightarrow> \<exists>k us vs. xs = us @ p # vs \<and> key p = Some k \<and>
       (\<forall>x\<in>set us. \<forall>j. key x = Some j \<longrightarrow> lt k j) \<and>
       (\<forall>x\<in>set vs. \<forall>j. key x = Some j \<longrightarrow> \<not> lt j k))"

lemma chosenI:
  assumes "xs = us @ p # vs" and "key p = Some k"
    and "\<And>x j. x \<in> set us \<Longrightarrow> key x = Some j \<Longrightarrow> lt k j"
    and "\<And>x j. x \<in> set vs \<Longrightarrow> key x = Some j \<Longrightarrow> \<not> lt j k"
  shows "chosen key xs (Some p)"
  using assms unfolding chosen_def option.case by blast

lemma chosen_nil: "chosen key [] None"
  by (simp add: chosen_def)

lemma chosen_skip: "chosen key xs r \<Longrightarrow> key p = None \<Longrightarrow> chosen key (xs @ [p]) r"
  unfolding chosen_def by (cases r) (auto, fastforce)

lemma chosen_first: "chosen key xs None \<Longrightarrow> key p = Some k \<Longrightarrow> chosen key (xs @ [p]) (Some p)"
  by (rule chosenI [of _ xs _ "[]"]) (auto simp: chosen_def)

lemma chosen_keep:
  assumes "chosen key xs (Some q)" and "key q = Some j" and "key p = Some k" and "\<not> lt k j"
  shows "chosen key (xs @ [p]) (Some q)"
proof -
  from assms(1,2) obtain us vs where x: "xs = us @ q # vs"
      "\<forall>x\<in>set us. \<forall>i. key x = Some i \<longrightarrow> lt j i" "\<forall>x\<in>set vs. \<forall>i. key x = Some i \<longrightarrow> \<not> lt i j"
    by (auto simp: chosen_def)
  then show ?thesis using assms(2-4) by (intro chosenI [of _ us _ "vs @ [p]"]) auto
qed

lemma chosen_replace:
  assumes "chosen key xs (Some q)" and "key q = Some j" and "key p = Some k" and "lt k j"
  shows "chosen key (xs @ [p]) (Some p)"
proof -
  from assms(1,2) obtain us vs where x: "xs = us @ q # vs"
      "\<forall>x\<in>set us. \<forall>i. key x = Some i \<longrightarrow> lt j i" "\<forall>x\<in>set vs. \<forall>i. key x = Some i \<longrightarrow> \<not> lt i j"
    by (auto simp: chosen_def)
  have "lt k i" if "x \<in> set xs" "key x = Some i" for x i
    using that x assms(2,4) lt_trans [OF assms(4)] lt_neg [OF assms(4), of i] by auto
  then show ?thesis using assms(3) by (intro chosenI [of _ xs _ "[]"]) auto
qed

lemma pick_chosen_from:
  "chosen key done best \<Longrightarrow> chosen key (done @ xs) (pick key xs best)"
proof (induction xs arbitrary: "done" best)
  case (Cons p ps)
  show ?case
  proof (cases "key p")
    case None
    then show ?thesis using Cons.IH [OF chosen_skip [OF Cons.prems None]] by simp
  next
    case (Some k)
    show ?thesis
    proof (cases best)
      case None
      then show ?thesis using Cons.IH [OF chosen_first [OF Cons.prems [unfolded None] Some]] Some by simp
    next
      case (Some q)
      then obtain j where j: "key q = Some j" using Cons.prems by (auto simp: chosen_def)
      show ?thesis
        using Cons.IH [OF chosen_replace [OF Cons.prems [unfolded Some] j \<open>key p = Some k\<close>]]
          Cons.IH [OF chosen_keep [OF Cons.prems [unfolded Some] j \<open>key p = Some k\<close>]]
          Some j \<open>key p = Some k\<close> by simp
    qed
  qed
qed simp

lemma pick_chosen: "chosen key xs (pick key xs None)"
  using pick_chosen_from [OF chosen_nil, of key xs] by simp

text \<open>The first least element is unique.\<close>

lemma chosen_least:
  assumes "chosen key xs (Some p)"
  shows "p \<in> set xs" and "\<exists>k. key p = Some k \<and> (\<forall>q\<in>set xs. \<forall>j. key q = Some j \<longrightarrow> \<not> lt j k)"
proof -
  from assms obtain k us vs where x: "xs = us @ p # vs" "key p = Some k"
      "\<forall>x\<in>set us. \<forall>j. key x = Some j \<longrightarrow> lt k j" "\<forall>x\<in>set vs. \<forall>j. key x = Some j \<longrightarrow> \<not> lt j k"
    by (auto simp: chosen_def)
  show "p \<in> set xs" using x by simp
  have "\<not> lt j k" if "lt k j" for j using lt_trans [OF that] lt_irrefl by blast
  then show "\<exists>k. key p = Some k \<and> (\<forall>q\<in>set xs. \<forall>j. key q = Some j \<longrightarrow> \<not> lt j k)"
    using x lt_irrefl by auto
qed

end

section \<open>The order of the scheduler\<close>

text \<open>The key of a process: dynamic priority, times scheduled, creation time.\<close>

type_synonym pkey = "int \<times> int \<times> u32"

definition dp_value :: "proc \<Rightarrow> int" where
  "dp_value pr = wrap32 (p_st_priority pr + c_max (rbi_value pr) 0)"

definition pbs_key :: "proc \<Rightarrow> pkey" where
  "pbs_key pr = (dp_value pr, p_schedule_count pr, p_ctime pr)"

definition key_less :: "pkey \<Rightarrow> pkey \<Rightarrow> bool" where
  "key_less a b \<longleftrightarrow> (case a of (d, n, c) \<Rightarrow> case b of (d', n', c') \<Rightarrow>
     d < d' \<or> d = d' \<and> n < n' \<or> d = d' \<and> n = n' \<and> c < c')"

interpretation pbs: pri_choice key_less
proof unfold_locales
  show "\<not> key_less a a" for a by (auto simp: key_less_def split: prod.splits)
  show "key_less a b \<Longrightarrow> key_less b c \<Longrightarrow> key_less a c" for a b c
    by (auto simp: key_less_def split: prod.splits)
  show "key_less a c \<Longrightarrow> key_less a b \<or> key_less b c" for a b c
    by (auto simp: key_less_def split: prod.splits)
qed

definition runnable_key :: "'a pstate_scheme \<Rightarrow> nat \<Rightarrow> pkey option" where
  "runnable_key s p = (if p_state (procs s p) = RUNNABLE then Some (pbs_key (procs s p)) else None)"

section \<open>The comparison computes it\<close>

definition with_rbi :: "proc \<Rightarrow> proc" where
  "with_rbi pr = pr\<lparr>p_rbi := c_max (rbi_value pr) 0\<rparr>"

lemma with_rbi_simps [simp]:
  "p_state (with_rbi pr) = p_state pr" "pbs_key (with_rbi pr) = pbs_key pr"
  "with_rbi (with_rbi pr) = with_rbi pr" "dp_value (with_rbi pr) = dp_value pr"
  "p_schedule_count (with_rbi pr) = p_schedule_count pr" "p_ctime (with_rbi pr) = p_ctime pr"
  by (simp_all add: with_rbi_def pbs_key_def dp_value_def rbi_value_def)

lemma dp_calc_eq: "dp_calc p s = (dp_value (procs s p), upd_proc p with_rbi s)"
  by (simp add: dp_calc_def rbi_calculator_def Let_def upd_proc_def c_min_def dp_value_def with_rbi_def)

lemma upd_proc_with_rbi [simp]: "upd_proc p with_rbi (upd_proc p with_rbi s) = upd_proc p with_rbi s"
  by (simp add: upd_proc_def)

lemma pbs_better_eq:
  assumes "p \<noteq> q"
  shows "pbs_better p q s = (key_less (pbs_key (procs s p)) (pbs_key (procs s q)),
    upd_proc q with_rbi (upd_proc p with_rbi s))"
proof -
  let ?s = "upd_proc q with_rbi (upd_proc p with_rbi s)"
  have c: "upd_proc p with_rbi ?s = ?s" "upd_proc q with_rbi ?s = ?s"
    using assms by (simp_all add: upd_proc_def fun_upd_twist)
  have v: "procs ?s p = with_rbi (procs s p)" "procs ?s q = with_rbi (procs s q)"
    "procs (upd_proc p with_rbi s) q = procs s q"
    using assms by (simp_all add: upd_proc_def)
  show ?thesis
    by (auto simp: pbs_better_def dp_calc_eq Let_def c v pbs_key_def key_less_def)
qed

section \<open>The scan\<close>

text \<open>
  The locks and the interrupt nesting between two iterations: only the lock of the current
  candidate is held.
\<close>

definition scan_st :: "nat \<Rightarrow> (nat \<Rightarrow> cpu) \<Rightarrow> (lockid \<Rightarrow> spinlock) \<Rightarrow> nat option \<Rightarrow> 'a hstate_scheme \<Rightarrow> bool" where
  "scan_st h c0 L0 pri s \<longleftrightarrow> hart s = h \<and> (case pri of
     None \<Rightarrow> (cpus s = c0 \<or> cpus s = bumped c0 h) \<and> locks s = L0
   | Some q \<Rightarrow> cpus s = pushed c0 h \<and> locks s = L0(ProcLock q := held_by h))"

text \<open>A scan changes nothing but locks, interrupt nesting and \<open>rbi\<close> fields.\<close>

definition rbi_only :: "'a pstate_scheme \<Rightarrow> 'a pstate_scheme \<Rightarrow> bool" where
  "rbi_only s s' \<longleftrightarrow> s' = s\<lparr>cpus := cpus s', locks := locks s', procs := procs s'\<rparr> \<and>
     (\<forall>p. procs s' p = procs s p \<or> procs s' p = with_rbi (procs s p))"

lemma rbi_only_refl [simp]: "rbi_only s s"
  by (simp add: rbi_only_def)

lemma rbi_only_trans:
  assumes "rbi_only s s1" and "rbi_only s1 s2"
  shows "rbi_only s s2"
proof -
  have "s2 = s1\<lparr>cpus := cpus s2, locks := locks s2, procs := procs s2\<rparr>" using assms(2) by (simp add: rbi_only_def)
  also have "\<dots> = s\<lparr>cpus := cpus s2, locks := locks s2, procs := procs s2\<rparr>"
    using assms(1) by (subst rbi_only_def [THEN iffD1, THEN conjunct1]) (auto simp: rbi_only_def)
  finally show ?thesis using assms by (auto simp: rbi_only_def) (metis with_rbi_simps(3))
qed

lemma rbi_only_key: "rbi_only s s' \<Longrightarrow> runnable_key s' p = runnable_key s p"
  unfolding rbi_only_def runnable_key_def by (metis with_rbi_simps(1,2))

lemma rbi_only_upd:
  "rbi_only s (s\<lparr>cpus := c, locks := l\<rparr>)" "rbi_only s (s\<lparr>cpus := c, locks := l, procs := (procs s)(p := with_rbi (procs s p))\<rparr>)"
  "q \<noteq> p \<Longrightarrow> rbi_only s (s\<lparr>procs := (procs s)(p := with_rbi (procs s p), q := with_rbi (procs s q)),
     cpus := c, locks := l\<rparr>)"
  by (auto simp: rbi_only_def)

lemma pbs_step:
  assumes st: "scan_st h c0 L0 pri s" and ok: "cpu_ok (c0 h)"
    and fr: "L0 (ProcLock p) = free_lock" "\<And>q. pri = Some q \<Longrightarrow> L0 (ProcLock q) = free_lock \<and> q \<noteq> p"
    and pri: "pri' = (case runnable_key s p of None \<Rightarrow> pri | Some k \<Rightarrow>
       (case pri of None \<Rightarrow> Some p
        | Some q \<Rightarrow> if key_less k (pbs_key (procs s q)) then Some p else Some q))"
  shows "\<exists>s'. pbs_scan (p # ps) pri s = pbs_scan ps pri' s' \<and> scan_st h c0 L0 pri' s' \<and> rbi_only s s'"
proof (cases pri)
  case None
  then have h: "hart s = h" and c: "pushed (cpus s) h = pushed c0 h" and L: "locks s = L0"
    using st by (auto simp: scan_st_def)
  let ?s = "\<lambda>c l. s\<lparr>cpus := c, locks := l\<rparr>"
  show ?thesis
  proof (cases "p_state (procs s p) = RUNNABLE")
    case True
    then have p': "pri' = Some p" using pri None by (simp add: runnable_key_def)
    show ?thesis
      by (rule exI [of _ "?s (pushed c0 h) (L0(ProcLock p := held_by h))"])
        (use True None h c L fr p' in \<open>simp add: scan_st_def rbi_only_upd\<close>)
  next
    case False
    then have p': "pri' = None" using pri None by (simp add: runnable_key_def)
    show ?thesis
      by (rule exI [of _ "?s (bumped c0 h) L0"])
        (use False None h c L fr ok p' in \<open>simp add: scan_st_def rbi_only_upd fun_upd_idem\<close>)
  qed
next
  case (Some q)
  have h: "hart s = h" and c: "cpus s = pushed c0 h" and L: "locks s = L0(ProcLock q := held_by h)"
    using st Some by (auto simp: scan_st_def)
  have q: "L0 (ProcLock q) = free_lock" "q \<noteq> p" using fr(2) [OF Some] by auto
  have ok2: "cpu_ok (pushed c0 h h)" using ok by simp
  have acq: "acquire (ProcLock p) s = Ok (s\<lparr>cpus := pushed (pushed c0 h) h,
      locks := L0(ProcLock q := held_by h, ProcLock p := held_by h)\<rparr>)"
    using h c L fr(1) q by simp
  let ?P = "(procs s)(p := with_rbi (procs s p), q := with_rbi (procs s q))"
  show ?thesis
  proof (cases "p_state (procs s p) = RUNNABLE")
    case run: True
    show ?thesis
    proof (cases "key_less (pbs_key (procs s p)) (pbs_key (procs s q))")
      case True
      then have p': "pri' = Some p" using pri Some run by (simp add: runnable_key_def)
      show ?thesis
        by (rule exI [of _ "s\<lparr>procs := ?P, cpus := pushed c0 h, locks := L0(ProcLock p := held_by h)\<rparr>"])
          (use True Some h acq q ok ok2 p' run in \<open>simp add: pbs_better_eq scan_st_def rbi_only_upd
            upd_proc_def fun_upd_twist [of "ProcLock p"] fun_upd_idem\<close>)
    next
      case False
      then have p': "pri' = Some q" using pri Some run by (simp add: runnable_key_def)
      show ?thesis
        by (rule exI [of _ "s\<lparr>procs := ?P, cpus := pushed c0 h, locks := L0(ProcLock q := held_by h)\<rparr>"])
          (use False Some h acq q ok ok2 p' run fr(1) in \<open>simp add: pbs_better_eq scan_st_def rbi_only_upd
            upd_proc_def fun_upd_idem fun_upd_twist [of "ProcLock q"]\<close>)
    qed
  next
    case False
    then have p': "pri' = Some q" using pri Some by (simp add: runnable_key_def)
    show ?thesis
      by (rule exI [of _ "s\<lparr>cpus := pushed c0 h, locks := L0(ProcLock q := held_by h)\<rparr>"])
        (use False Some h acq q ok ok2 p' fr(1) in \<open>simp add: scan_st_def rbi_only_upd
          fun_upd_idem fun_upd_twist [of "ProcLock q"]\<close>)
  qed
qed

lemma pbs_scan_spec:
  "scan_st h c0 L0 pri s \<Longrightarrow> cpu_ok (c0 h) \<Longrightarrow> distinct ps \<Longrightarrow>
   \<forall>p\<in>set ps. L0 (ProcLock p) = free_lock \<Longrightarrow>
   (\<And>q. pri = Some q \<Longrightarrow> L0 (ProcLock q) = free_lock \<and> q \<notin> set ps \<and> p_state (procs s q) = RUNNABLE) \<Longrightarrow>
   \<exists>s'. pbs_scan ps pri s = Ok (pbs.pick (runnable_key s) ps pri, s') \<and>
     scan_st h c0 L0 (pbs.pick (runnable_key s) ps pri) s' \<and> rbi_only s s'"
proof (induction ps arbitrary: pri s)
  case Nil
  then show ?case by auto
next
  case (Cons p ps)
  define pri' where "pri' = (case runnable_key s p of None \<Rightarrow> pri | Some k \<Rightarrow>
       (case pri of None \<Rightarrow> Some p
        | Some q \<Rightarrow> if key_less k (pbs_key (procs s q)) then Some p else Some q))"
  have f: "L0 (ProcLock p) = free_lock" using Cons.prems(4) by simp
  have fq: "L0 (ProcLock q) = free_lock \<and> q \<noteq> p" if "pri = Some q" for q
    using Cons.prems(5) [OF that] by auto
  from pbs_step [OF Cons.prems(1,2) f fq pri'_def, of ps] obtain s1 where
      s1: "pbs_scan (p # ps) pri s = pbs_scan ps pri' s1" "scan_st h c0 L0 pri' s1" "rbi_only s s1"
    by blast
  have st: "p_state (procs s1 q) = p_state (procs s q)" for q
    using s1(3) unfolding rbi_only_def by (metis with_rbi_simps(1))
  have pri: "L0 (ProcLock q) = free_lock \<and> q \<notin> set ps \<and> p_state (procs s1 q) = RUNNABLE" if "pri' = Some q" for q
    using that Cons.prems(3,4) Cons.prems(5) [of q] st
    by (auto simp: pri'_def runnable_key_def split: option.splits if_splits)
  have k: "runnable_key s1 = runnable_key s" using rbi_only_key [OF s1(3)] by blast
  have e: "pbs.pick (runnable_key s) (p # ps) pri = pbs.pick (runnable_key s) ps pri'"
    using Cons.prems(5) by (auto simp: pri'_def runnable_key_def split: option.splits)
  from Cons.IH [OF s1(2) Cons.prems(2) _ _ pri] Cons.prems(3,4) obtain s' where
      "pbs_scan ps pri' s1 = Ok (pbs.pick (runnable_key s1) ps pri', s')"
      "scan_st h c0 L0 (pbs.pick (runnable_key s1) ps pri') s'" "rbi_only s1 s'"
    by auto
  then show ?case unfolding s1(1) e k using rbi_only_trans [OF s1(3)] by blast
qed

section \<open>One pass of the scheduler\<close>

abbreviation runnable :: "'a pstate_scheme \<Rightarrow> nat \<Rightarrow> bool" where
  "runnable s p \<equiv> p < NPROC \<and> p_state (procs s p) = RUNNABLE"

text \<open>The process that should run: least key, first in the table among equals.\<close>

definition pbs_least :: "'a pstate_scheme \<Rightarrow> nat \<Rightarrow> bool" where
  "pbs_least s p \<longleftrightarrow> runnable s p \<and>
     (\<forall>q. runnable s q \<longrightarrow> \<not> key_less (pbs_key (procs s q)) (pbs_key (procs s p))) \<and>
     (\<forall>q<p. runnable s q \<longrightarrow> key_less (pbs_key (procs s p)) (pbs_key (procs s q)))"

text \<open>The hart is in its scheduler loop: no locks, no nesting.\<close>

definition sched_idle :: "'a pstate_scheme \<Rightarrow> bool" where
  "sched_idle s \<longleftrightarrow> noff (cpus s (hart s)) = 0 \<and> (\<forall>p<NPROC. unlocked (ProcLock p) s)"

definition dispatched :: "proc \<Rightarrow> proc" where
  "dispatched pr = pr\<lparr>p_schedule_count := wrap32 (p_schedule_count pr + 1), p_running_time := 0,
     p_state := RUNNING\<rparr>"

lemma pick_pbs_least:
  assumes "pbs.pick (runnable_key s) [0..<NPROC] None = Some p"
  shows "pbs_least s p"
proof -
  from pbs.pick_chosen [of "runnable_key s" "[0..<NPROC]"] assms
  have c: "pbs.chosen (runnable_key s) [0..<NPROC] (Some p)" by simp
  then obtain k us vs where x: "[0..<NPROC] = us @ p # vs" "runnable_key s p = Some k"
      "\<forall>x\<in>set us. \<forall>j. runnable_key s x = Some j \<longrightarrow> key_less k j"
    by (auto simp: pbs.chosen_def)
  have "length us < NPROC" using x(1) by (metis length_append length_upt diff_zero length_Cons less_add_Suc1 add_Suc_right)
  then have "[0..<NPROC] ! length us = length us" by simp
  then have len: "length us = p" using x(1) by simp
  have us: "q \<in> set us" if "q < p" for q
  proof -
    have "us ! q = [0..<NPROC] ! q" using x(1) that len by (simp add: nth_append)
    also have "\<dots> = q" using that len \<open>length us < NPROC\<close> by simp
    finally show ?thesis using that len by (metis nth_mem)
  qed
  have key: "runnable_key s q = Some (pbs_key (procs s q))" if "runnable s q" for q
    using that by (simp add: runnable_key_def)
  have p: "runnable s p" and k: "k = pbs_key (procs s p)"
    using x(2) pbs.chosen_least(1) [OF c] by (auto simp: runnable_key_def split: if_splits)
  from pbs.chosen_least(2) [OF c] x(2)
  have min: "\<not> key_less j k" if "q < NPROC" "runnable_key s q = Some j" for q j
    using that by (metis atLeastLessThan_iff option.inject set_upt zero_le)
  show ?thesis
    unfolding pbs_least_def using p min key x(3) us k by blast
qed

lemma pick_pbs_none:
  assumes "pbs.pick (runnable_key s) [0..<NPROC] None = None"
  shows "\<not> runnable s p"
  using pbs.pick_chosen [of "runnable_key s" "[0..<NPROC]"] assms
  by (auto simp: pbs.chosen_def runnable_key_def split: if_splits)


text \<open>Two runnable processes: the second has the better static priority.\<close>

definition two_procs :: "nat \<Rightarrow> proc" where
  "two_procs = (\<lambda>_. blank_proc)(1 := blank_proc\<lparr>p_state := RUNNABLE, p_st_priority := 60\<rparr>,
     2 := blank_proc\<lparr>p_state := RUNNABLE, p_st_priority := 40\<rparr>)"

lemma two_procs_key:
  "pbs_key (two_procs 1) = (60, 0, 0)" "pbs_key (two_procs 2) = (40, 0, 0)"
  by (simp_all add: two_procs_def blank_proc_def pbs_key_def dp_value_def rbi_value_def cdiv_def c_max_def wrap32_def
      signed_take_bit_eq_if_positive not_less)


text \<open>With non-negative times that do not overflow, the recent behaviour index the scheduler
  stores lies between 0 and 149, and is 0 whenever the process slept and waited at least three
  times as long as it ran.\<close>

theorem rbi_bounds:
  assumes "0 \<le> p_running_time pr" "0 \<le> p_sleep_time pr" "0 \<le> p_wait_time pr"
    and "p_running_time pr + p_sleep_time pr + p_wait_time pr \<le> 10000000"
  shows "0 \<le> p_rbi (with_rbi pr) \<and> p_rbi (with_rbi pr) < 150 \<and>
    (3 * p_running_time pr \<le> p_sleep_time pr + p_wait_time pr \<longrightarrow> p_rbi (with_rbi pr) = 0)"
proof -
  define R S W where "R = p_running_time pr" and "S = p_sleep_time pr" and "W = p_wait_time pr"
  have b: "0 \<le> R" "0 \<le> S" "0 \<le> W" "R + S + W \<le> 10000000" using assms by (auto simp: R_def S_def W_def)
  let ?n = "(3 * R - S - W) * 50" and ?d = "R + W + S + 1"
  have v: "rbi_value pr = wrap32 (cdiv ?n ?d)"
    unfolding rbi_value_def R_def [symmetric] S_def [symmetric] W_def [symmetric]
    using b by (simp add: wrap32_id)
  have d: "0 < ?d" using b by simp
  show ?thesis
  proof (cases "0 < ?n")
    case True
    have "?n \<le> 150 * R" using b by simp
    also have "\<dots> < 150 * ?d" using b by simp
    finally have lt: "?n < 150 * ?d" .
    have "?n div ?d < 150"
    proof (rule ccontr)
      assume "\<not> ?n div ?d < 150"
      then have "150 * ?d \<le> (?n div ?d) * ?d" using d by (intro mult_right_mono) auto
      also have "\<dots> \<le> ?n" using div_mult_mod_eq [of ?n ?d] pos_mod_sign [OF d, of ?n] by linarith
      finally show False using lt by simp
    qed
    moreover have "0 \<le> ?n div ?d" using True d by (simp add: pos_imp_zdiv_nonneg_iff)
    ultimately show ?thesis using True v d
      by (auto simp: with_rbi_def c_max_def cdiv_nonneg wrap32_id R_def S_def W_def)
  next
    case False
    then have le: "cdiv ?n ?d \<le> 0" using d by (intro cdiv_neg) auto
    have "\<bar>?n\<bar> div \<bar>?d\<bar> \<le> \<bar>?n\<bar> div 1" using d by (intro zdiv_mono2) auto
    then have "- 2147483648 \<le> cdiv ?n ?d" using False d b by (auto simp: cdiv_def sgn_if)
    then show ?thesis using le v by (auto simp: with_rbi_def c_max_def wrap32_id)
  qed
qed

lemma rbi_bounds_witness:
  "let pr = blank_proc\<lparr>p_running_time := 10, p_sleep_time := 1, p_wait_time := 2\<rparr>
   in 0 \<le> p_rbi (with_rbi pr) \<and> p_rbi (with_rbi pr) < 150"
  using rbi_bounds [of "blank_proc\<lparr>p_running_time := 10, p_sleep_time := 1, p_wait_time := 2\<rparr>"] by simp

text \<open>The dynamic priority is the sum of static priority and recent behaviour index, not capped at
  100: a process with static priority 100 that ran for ten ticks without sleeping or waiting has
  dynamic priority 236.\<close>

theorem dp_calc_not_capped:
  "fst (dp_calc p s) = dp_value (procs s p) \<and>
   dp_value (blank_proc\<lparr>p_st_priority := 100, p_running_time := 10\<rparr>) = 236"
  by (simp add: dp_calc_eq dp_value_def rbi_value_def blank_proc_def wrap32_id cdiv_def c_max_def)

end
