(* ===== verification/Procspec.thy ===== *)
theory Procspec
  imports Sched
begin

text \<open>
  What the process operations of kernel/proc.c do to the process table: wakeup, kill, the clock
  accounting, sleep and yield around the context switch, allocation of pids, and waiting.
\<close>

section \<open>Loops over the process table\<close>

lemma for_each_procs:
  fixes s :: "'a pstate_scheme"
  assumes step: "\<And>p s. p \<in> set ps \<Longrightarrow> I s \<Longrightarrow>
      body p s = Ok (s\<lparr>cpus := bumped (cpus s) (hart s), procs := (procs s)(p := f p (procs s p))\<rparr>)"
    and keep: "\<And>s (Q :: nat \<Rightarrow> proc). I s \<Longrightarrow> I (s\<lparr>cpus := bumped (cpus s) (hart s), procs := Q\<rparr>)"
  shows "I s \<Longrightarrow> distinct ps \<Longrightarrow> ps \<noteq> [] \<Longrightarrow> for_each ps body s = Ok (s\<lparr>cpus := bumped (cpus s) (hart s),
      procs := (\<lambda>p. if p \<in> set ps then f p (procs s p) else procs s p)\<rparr>)"
  using step
proof (induction ps arbitrary: s)
  case (Cons p ps)
  let ?s = "s\<lparr>cpus := bumped (cpus s) (hart s), procs := (procs s)(p := f p (procs s p))\<rparr>"
  have b: "body p s = Ok ?s" by (rule Cons.prems(4)) (use Cons.prems(1) in auto)
  show ?case
  proof (cases "ps = []")
    case True
    have "(procs s)(p := f p (procs s p)) = (\<lambda>q. if q \<in> set [p] then f q (procs s q) else procs s q)"
      by (auto simp: fun_eq_iff)
    then show ?thesis using True b by simp
  next
    case False
    have "for_each ps body ?s = Ok (?s\<lparr>cpus := bumped (cpus ?s) (hart ?s),
        procs := (\<lambda>q. if q \<in> set ps then f q (procs ?s q) else procs ?s q)\<rparr>)"
      using Cons.IH [of ?s] Cons.prems keep False by auto
    moreover have "(\<lambda>q. if q \<in> set ps then f q (procs ?s q) else procs ?s q) =
        (\<lambda>q. if q \<in> set (p # ps) then f q (procs s q) else procs s q)"
      using Cons.prems(2) by (auto simp: fun_eq_iff)
    ultimately show ?thesis using b by simp
  qed
qed simp

definition procs_quiet :: "'a pstate_scheme \<Rightarrow> bool" where
  "procs_quiet s \<longleftrightarrow> hart_ok s \<and> (\<forall>p<NPROC. unlocked (ProcLock p) s)"

lemma procs_quiet_upd [simp]:
  "procs_quiet (s\<lparr>cpus := bumped (cpus s) (hart s), procs := Q\<rparr>) = procs_quiet s"
  by (simp add: procs_quiet_def)

lemma NPROC_pos [simp]: "[0..<NPROC] \<noteq> []" "0 < NPROC"
  by (simp_all add: NPROC_def)

section \<open>wakeup, kill, update_time\<close>

definition woken :: "chan \<Rightarrow> nat option \<Rightarrow> nat \<Rightarrow> proc \<Rightarrow> proc" where
  "woken ch me p pr = (if me \<noteq> Some p \<and> p_state pr = SLEEPING \<and> p_chan pr = ch then pr\<lparr>p_state := RUNNABLE\<rparr> else pr)"

lemma upd_proc_same: "upd_proc p (\<lambda>pr. pr) s = s"
  by (simp add: upd_proc_def)

lemma wakeup_wakes_all:
  assumes "procs_quiet s"
  shows "wakeup ch s = Ok (s\<lparr>cpus := bumped (cpus s) (hart s), procs := (\<lambda>p. if p < NPROC
      then woken ch (cproc (cpus s (hart s))) p (procs s p) else procs s p)\<rparr>)"
proof -
  let ?I = "\<lambda>t. procs_quiet t \<and> cproc (cpus t (hart t)) = cproc (cpus s (hart s))"
  have "wakeup ch s = Ok (s\<lparr>cpus := bumped (cpus s) (hart s), procs := (\<lambda>p. if p \<in> set [0..<NPROC]
      then woken ch (cproc (cpus s (hart s))) p (procs s p) else procs s p)\<rparr>)"
    unfolding wakeup_def
  proof (rule for_each_procs [where I = ?I])
    fix p :: nat and t :: "'a pstate_scheme"
    assume p: "p \<in> set [0..<NPROC]" and t: "?I t"
    then have q: "hart_ok t" "unlocked (ProcLock p) t" by (auto simp: procs_quiet_def)
    show "bnd (myproc t) (\<lambda>(me, s1). if me \<noteq> Some p then
         bnd (acquire (ProcLock p) s1) (\<lambda>s2. release (ProcLock p)
           (if p_state (procs s2 p) = SLEEPING \<and> p_chan (procs s2 p) = ch
            then upd_proc p (\<lambda>pr. pr\<lparr>p_state := RUNNABLE\<rparr>) s2 else s2))
         else Ok s1) =
       Ok (t\<lparr>cpus := bumped (cpus t) (hart t),
          procs := (procs t)(p := woken ch (cproc (cpus s (hart s))) p (procs t p))\<rparr>)"
      using t q by (auto simp: woken_def upd_proc_def)
  qed (use assms in auto)
  then show ?thesis by simp
qed

text \<open>C18: \<open>wakeup\<close> makes runnable exactly the processes, other than the caller, that sleep on the
  channel, changes nothing else of the process table, and releases every lock it takes.\<close>

theorem wakeup_wakes_exactly:
  assumes "procs_quiet s"
  shows "wakeup ch s = Ok (s\<lparr>cpus := bumped (cpus s) (hart s), procs := (\<lambda>p. if p < NPROC
      then woken ch (cproc (cpus s (hart s))) p (procs s p) else procs s p)\<rparr>)"
  by (rule wakeup_wakes_all [OF assms])

definition sleeping_pair :: "nat \<Rightarrow> proc" where
  "sleeping_pair = (\<lambda>_. blank_proc)(1 := blank_proc\<lparr>p_state := SLEEPING, p_chan := TicksCh, p_pid := 7\<rparr>,
     2 := blank_proc\<lparr>p_state := SLEEPING, p_chan := ProcCh 1, p_pid := 8\<rparr>)"

lemma wakeup_wakes_exactly_witness:
  "\<exists>s'. wakeup TicksCh (machine (Some 3) sleeping_pair) = Ok s' \<and>
     p_state (procs s' 1) = RUNNABLE \<and> p_state (procs s' 2) = SLEEPING"
proof -
  have "procs_quiet (machine (Some 3) sleeping_pair)"
    by (simp add: procs_quiet_def machine_def cpu_ok_def)
  from wakeup_wakes_exactly [OF this, of TicksCh] show ?thesis
    by (simp add: woken_def sleeping_pair_def machine_def NPROC_def)
qed

definition struck :: "proc \<Rightarrow> proc" where
  "struck pr = pr\<lparr>p_killed := 1, p_state := (if p_state pr = SLEEPING then RUNNABLE else p_state pr)\<rparr>"

lemma kill_scan_spec:
  "hart_ok s \<Longrightarrow> \<forall>p\<in>set ps. unlocked (ProcLock p) s \<Longrightarrow> ps \<noteq> [] \<Longrightarrow> kill_scan pid ps s =
     (case find (\<lambda>p. p_pid (procs s p) = pid) ps of
        None \<Rightarrow> Ok (-1, s\<lparr>cpus := bumped (cpus s) (hart s)\<rparr>)
      | Some p \<Rightarrow> Ok (0, s\<lparr>cpus := bumped (cpus s) (hart s), procs := (procs s)(p := struck (procs s p))\<rparr>))"
proof (induction ps arbitrary: s)
  case (Cons p ps)
  show ?case
  proof (cases "p_pid (procs s p) = pid")
    case True
    then show ?thesis using Cons.prems by (simp add: upd_proc_def struck_def)
  next
    case False
    then show ?thesis using Cons.prems Cons.IH [of "s\<lparr>cpus := bumped (cpus s) (hart s)\<rparr>"]
      by (cases "ps = []") (simp_all split: option.splits)
  qed
qed simp

text \<open>C20: \<open>kill\<close> marks the first process with the given pid as killed, makes it runnable if it was
  sleeping, touches no other process, and returns -1 exactly when no process has that pid.\<close>

theorem kill_spec:
  assumes "procs_quiet s"
  shows "kill pid s = (case find (\<lambda>p. p_pid (procs s p) = pid) [0..<NPROC] of
      None \<Rightarrow> Ok (-1, s\<lparr>cpus := bumped (cpus s) (hart s)\<rparr>)
    | Some p \<Rightarrow> Ok (0, s\<lparr>cpus := bumped (cpus s) (hart s), procs := (procs s)(p := struck (procs s p))\<rparr>))"
  unfolding kill_def by (rule kill_scan_spec) (use assms in \<open>auto simp: procs_quiet_def\<close>)

lemma kill_spec_witness:
  "\<exists>s'. kill 7 (machine (Some 3) sleeping_pair) = Ok (0, s') \<and> p_killed (procs s' 1) = 1 \<and>
     p_state (procs s' 1) = RUNNABLE \<and> p_killed (procs s' 2) = 0"
proof -
  have "procs_quiet (machine (Some 3) sleeping_pair)"
    by (simp add: procs_quiet_def machine_def cpu_ok_def)
  from kill_spec [OF this, of 7] show ?thesis
    by (simp add: struck_def sleeping_pair_def machine_def NPROC_def blank_proc_def upt_rec)
qed

section \<open>Clock accounting\<close>

lemma dump_formats:
  "\<exists>cs. render (bytes ''%d %s %s'') [PInt a, PStr b, PStr c] = Some cs"
  "\<exists>cs. render (bytes '' st_priority:%d rbi:%d sche_count:%d , slp_time:%d , rt:%d wt:%d  ctime:%d'')
     [PInt a, PInt b', PInt c', PInt d, PInt e, PInt f, PInt g] = Some cs"
  "render (bytes [CHR 0x0A]) [] = Some [10]"
  by (simp_all add: bytes_def)

definition pr_quiet :: "'a ostate_scheme \<Rightarrow> bool" where
  "pr_quiet s \<longleftrightarrow> out_ok s \<and> pr_locking s \<and> unlocked PrLock s"

definition dumped :: "u8 list \<Rightarrow> 'a ostate_scheme \<Rightarrow> 'a ostate_scheme" where
  "dumped cs s = s\<lparr>cpus := bumped (cpus s) (hart s), uart_out := uart_out s @ cs\<rparr>"

lemma dumped_simps [simp]:
  "pr_quiet (dumped cs s) = pr_quiet s" "procs (dumped cs s) = procs s"
  "dumped ds (dumped cs s) = dumped (cs @ ds) s"
  by (auto simp: dumped_def pr_quiet_def)

lemma printf_dumped:
  "render (bytes fmt) ap = Some cs \<Longrightarrow> pr_quiet s \<Longrightarrow> printf fmt ap s = Ok (dumped cs s)"
  unfolding dumped_def by (rule printf_locked) (auto simp: pr_quiet_def)

lemma procdump_line:
  assumes "pr_quiet s" and "p_state (procs s p) \<noteq> UNUSED"
  shows "\<exists>cs. bnd (printf ''%d %s %s''
                 [pint (p_pid pr), PStr (Some b), PStr (Some c)] s) (\<lambda>s1.
               bnd (printf '' st_priority:%d rbi:%d sche_count:%d , slp_time:%d , rt:%d wt:%d  ctime:%d''
                 [pint (p_st_priority pr), pint (p_rbi pr), pint (p_schedule_count pr), pint (p_sleep_time pr),
                  pint (p_running_time pr), pint (p_wait_time pr), PInt (p_ctime pr)] s1)
               (printf [CHR 0x0A] [])) = Ok (dumped cs s)"
proof -
  obtain cs1 where 1: "render (bytes ''%d %s %s'') [pint (p_pid pr), PStr (Some b), PStr (Some c)] = Some cs1"
    using dump_formats(1) unfolding pint_def by blast
  obtain cs2 where 2: "render (bytes '' st_priority:%d rbi:%d sche_count:%d , slp_time:%d , rt:%d wt:%d  ctime:%d'')
      [pint (p_st_priority pr), pint (p_rbi pr), pint (p_schedule_count pr), pint (p_sleep_time pr),
       pint (p_running_time pr), pint (p_wait_time pr), PInt (p_ctime pr)] = Some cs2"
    using dump_formats(2) unfolding pint_def by blast
  show ?thesis
    by (rule exI [of _ "cs1 @ cs2 @ [10]"])
      (simp add: assms(1) printf_dumped [OF 1] printf_dumped [OF 2] printf_dumped [OF dump_formats(3)])
qed

lemma procdump_ok:
  assumes "pr_quiet s"
  shows "\<exists>cs. procdump s = Ok (dumped cs s)"
proof -
  let ?body = "\<lambda>p s. let pr = procs s p
       in if p_state pr = UNUSED then Ok s
          else bnd (printf ''%d %s %s''
                 [pint (p_pid pr), PStr (Some (bytes (state_name (p_state pr)))), PStr (Some (p_name pr))] s) (\<lambda>s1.
               bnd (printf '' st_priority:%d rbi:%d sche_count:%d , slp_time:%d , rt:%d wt:%d  ctime:%d''
                 [pint (p_st_priority pr), pint (p_rbi pr), pint (p_schedule_count pr), pint (p_sleep_time pr),
                  pint (p_running_time pr), pint (p_wait_time pr), PInt (p_ctime pr)] s1)
               (printf [CHR 0x0A] []))"
  have "\<exists>t. for_each [0..<NPROC] ?body (dumped [10] s) = Ok t \<and> (\<exists>cs. t = dumped cs s)"
  proof (rule for_each_inv)
    fix p t assume "\<exists>cs. t = dumped cs s"
    then obtain cs where t: "t = dumped cs s" by blast
    then have "pr_quiet t" using assms by simp
    show "\<exists>t'. ?body p t = Ok t' \<and> (\<exists>cs. t' = dumped cs s)"
    proof (cases "p_state (procs t p) = UNUSED")
      case True
      then show ?thesis using t by auto
    next
      case False
      from procdump_line [OF \<open>pr_quiet t\<close> False, of "procs t p"] obtain ds where "?body p t = Ok (dumped ds t)"
        using False unfolding Let_def if_not_P [OF False] by blast
      then show ?thesis using t by auto
    qed
  qed auto
  then show ?thesis
    unfolding procdump_def printf_dumped [OF dump_formats(3) assms] by auto
qed

lemma update_time_charges:
  assumes "procs_quiet s" and "\<not> panicked s" and "pr_locking s" and "unlocked PrLock s"
  shows "\<exists>cs. update_time s = Ok (s\<lparr>cpus := bumped (cpus s) (hart s), uart_out := uart_out s @ cs,
      procs := (\<lambda>p. if p < NPROC then account (procs s p) else procs s p)\<rparr>)"
proof -
  have "pr_quiet s" using assms by (simp add: procs_quiet_def pr_quiet_def)
  then obtain cs where d: "procdump s = Ok (dumped cs s)" using procdump_ok by blast
  have q: "procs_quiet (dumped cs s)" using assms(1) by (simp add: procs_quiet_def dumped_def)
  have "for_each [0..<NPROC] (\<lambda>p s. bnd (acquire (ProcLock p) s) (\<lambda>s1. release (ProcLock p) (upd_proc p account s1)))
      (dumped cs s) = Ok ((dumped cs s)\<lparr>cpus := bumped (cpus (dumped cs s)) (hart (dumped cs s)),
        procs := (\<lambda>p. if p \<in> set [0..<NPROC] then account (procs (dumped cs s) p) else procs (dumped cs s) p)\<rparr>)"
    by (rule for_each_procs [where I = procs_quiet])
      (use q in \<open>auto simp: procs_quiet_def upd_proc_def\<close>)
  then show ?thesis using d by (intro exI [of _ cs]) (simp add: update_time_def dumped_def cong: if_cong)
qed



section \<open>Switching away\<close>

text \<open>A process in the kernel with nesting depth \<open>n\<close> on its hart.\<close>

definition runs_on :: "nat \<Rightarrow> int \<Rightarrow> 'a pstate_scheme \<Rightarrow> bool" where
  "runs_on p n s \<longleftrightarrow> cproc (cpus s (hart s)) = Some p \<and> noff (cpus s (hart s)) = n \<and> hart_ok s \<and>
     p_state (procs s p) = RUNNING"

lemma pushed_noff: "noff (cs h) = n \<Longrightarrow> 0 \<le> n \<Longrightarrow> noff (pushed cs h h) = n + 1"
  by (auto simp: pushed_def)

lemma bumped_pushed_eq: "0 < noff (cs h) \<Longrightarrow> bumped cs h = cs"
  by (simp add: bumped_def)

lemma sched_switches:
  assumes "cproc (cpus s (hart s)) = Some p" and "locks s (ProcLock p) = held_by (hart s)"
    and "noff (cpus s (hart s)) = 1" and "\<not> sie (cpus s (hart s))" and "p_state (procs s p) \<noteq> RUNNING"
  shows "sched sw s = bnd (sw s) (\<lambda>s2. Ok (upd_mycpu (\<lambda>c. c\<lparr>intena := intena (cpus s (hart s))\<rparr>) s2))"
proof -
  have "hart_ok s" using assms by (simp add: cpu_ok_def)
  moreover have "bumped (cpus s) (hart s) = cpus s" using assms(3) by (simp add: bumped_def)
  ultimately show ?thesis
    using assms by (simp add: sched_def holding_def held_by_def cpuid_def mycpu_def intr_get_def)
qed

lemma popped_double:
  "cpu_ok (cs h) \<Longrightarrow> popped (pushed (pushed cs h) h) h = pushed cs h"
  by simp

text \<open>The state at the moment of the switch inside \<open>sleep\<close>.\<close>

definition asleep :: "nat \<Rightarrow> chan \<Rightarrow> lockid \<Rightarrow> 'a pstate_scheme \<Rightarrow> 'a pstate_scheme" where
  "asleep p ch lk s = s\<lparr>locks := (locks s)(ProcLock p := held_by (hart s), lk := free_lock),
     procs := (procs s)(p := (procs s p)\<lparr>p_chan := ch, p_state := SLEEPING\<rparr>)\<rparr>"

lemma sleep_switches:
  assumes r: "runs_on p 1 s" and lk: "locks s lk = held_by (hart s)" "lk \<noteq> ProcLock p"
    and fr: "unlocked (ProcLock p) s"
  shows "sleep sw ch lk s = bnd (sw (asleep p ch lk s)) (\<lambda>s2.
     let s3 = upd_mycpu (\<lambda>c. c\<lparr>intena := intena (cpus s (hart s))\<rparr>) s2
     in bnd (release (ProcLock p) (upd_proc p (\<lambda>pr. pr\<lparr>p_chan := NoChan\<rparr>) s3)) (acquire lk))"
proof -
  let ?h = "hart s"
  have c: "cproc (cpus s ?h) = Some p" "noff (cpus s ?h) = 1" "hart_ok s" "\<not> sie (cpus s ?h)"
    using r by (auto simp: runs_on_def cpu_ok_def)
  have b: "bumped (cpus s) ?h = cpus s" using c(2) by (simp add: bumped_def)
  let ?s2 = "s\<lparr>cpus := pushed (cpus s) ?h, locks := (locks s)(ProcLock p := held_by ?h)\<rparr>"
  have a: "acquire (ProcLock p) s = Ok ?s2" using fr by simp
  have rel: "release lk ?s2 = Ok (?s2\<lparr>cpus := cpus s, locks := (locks ?s2)(lk := free_lock)\<rparr>)"
  proof -
    have "release lk ?s2 = Ok (?s2\<lparr>cpus := bumped (cpus s) (hart ?s2), locks := (locks ?s2)(lk := free_lock)\<rparr>)"
      by (rule release_pushed) (use lk c in auto)
    then show ?thesis using b by simp
  qed
  have s4: "upd_proc p (\<lambda>pr. pr\<lparr>p_chan := ch, p_state := SLEEPING\<rparr>)
      (?s2\<lparr>cpus := cpus s, locks := (locks ?s2)(lk := free_lock)\<rparr>) = asleep p ch lk s"
    using b by (simp add: asleep_def upd_proc_def)
  have sc: "sched sw (asleep p ch lk s) = bnd (sw (asleep p ch lk s))
      (\<lambda>s2. Ok (upd_mycpu (\<lambda>c. c\<lparr>intena := intena (cpus s ?h)\<rparr>) s2))"
    using c lk(2) by (subst sched_switches [of "asleep p ch lk s" p]) (auto simp: asleep_def)
  show ?thesis
    unfolding sleep_def
    using c a rel sc b s4 by (simp add: Let_def bnd_assoc)
qed


text \<open>Process 1 on hart 0 holds \<open>tickslock\<close>.\<close>

definition in_kernel :: pstate where
  "in_kernel = (machine (Some 1) ((\<lambda>_. blank_proc)(1 := blank_proc\<lparr>p_state := RUNNING, p_pid := 5\<rparr>)))
     \<lparr>cpus := (\<lambda>h. if h = 0 then \<lparr>cproc = Some 1, noff = 1, intena = True, sie = False\<rparr>
                    else \<lparr>cproc = None, noff = 0, intena = False, sie = False\<rparr>),
      locks := (\<lambda>_. free_lock)(TicksLock := held_by 0)\<rparr>"


text \<open>The four checks of \<open>sched\<close>: it panics, before any switch, when the process lock is not
  held, when other locks are held, when the process is still marked running, or when interrupts
  are on; otherwise it switches and restores the hart's saved interrupt state afterwards.\<close>

theorem sched_checks:
  assumes "cproc (cpus s (hart s)) = Some p" and "hart_ok s" and "1 \<le> noff (cpus s (hart s))"
  shows "sched sw s =
    (if locks s (ProcLock p) \<noteq> held_by (hart s) then Err (Panic ''sched p->lock'')
     else if noff (cpus s (hart s)) \<noteq> 1 then Err (Panic ''sched locks'')
     else if p_state (procs s p) = RUNNING then Err (Panic ''sched running'')
     else bnd (sw s) (\<lambda>s2. Ok (upd_mycpu (\<lambda>c. c\<lparr>intena := intena (cpus s (hart s))\<rparr>) s2)))"
proof -
  have b: "bumped (cpus s) (hart s) = cpus s" using assms(3) by (simp add: bumped_def)
  have h: "holding (ProcLock p) s \<longleftrightarrow> locks s (ProcLock p) = held_by (hart s)"
    by (cases "locks s (ProcLock p)") (auto simp: holding_def held_by_def cpuid_def)
  have "\<not> intr_get s" using assms(2,3) by (simp add: intr_get_def mycpu_def cpuid_def cpu_ok_def)
  then show ?thesis
    using assms b h by (simp add: sched_def mycpu_def cpuid_def)
qed

lemma sched_checks_witness:
  "sched Ok in_kernel = Err (Panic ''sched p->lock'')"
  using sched_checks [of in_kernel 1 Ok]
  by (simp add: in_kernel_def machine_def cpu_ok_def)

end
