(* ===== verification/Ring.thy ===== *)
theory Ring
  imports Prelude
begin

text \<open>
  The bounded buffer that pipes, the console input and the UART output share: an array of \<open>N\<close>
  bytes and two counters that are never reduced, reading at \<open>r % N\<close> and writing at \<open>w % N\<close>. The
  counters are unsigned machine integers that wrap around; the buffer is right across the wrap
  because \<open>N\<close> divides the size of their range.
\<close>

definition ring :: "nat \<Rightarrow> u8 list \<Rightarrow> 'n::len word \<Rightarrow> 'n word \<Rightarrow> u8 list" where
  "ring N buf r w = map (\<lambda>i. buf ! ((unat r + i) mod N)) [0..<unat (w - r)]"

definition slot :: "nat \<Rightarrow> 'n::len word \<Rightarrow> nat" where
  "slot N w = unat w mod N"

definition ring_ok :: "nat \<Rightarrow> u8 list \<Rightarrow> 'n::len word \<Rightarrow> 'n word \<Rightarrow> bool" where
  "ring_ok N buf r w \<longleftrightarrow> length buf = N \<and> unat (w - r) \<le> N"

lemma ring_length [simp]: "length (ring N buf r w) = unat (w - r)"
  by (simp add: ring_def)

lemma ring_empty [simp]: "ring N buf r r = []"
  by (simp add: ring_def)

lemma ring_Nil [simp]: "ring N buf r w = [] \<longleftrightarrow> r = w"
  by (auto simp: ring_def unat_eq_0)

lemma unat_pred: "w \<noteq> r \<Longrightarrow> unat (w - r :: 'n::len word) = Suc (unat (w - 1 - r))"
  using unatSuc [of "w - 1 - r"] by (simp add: algebra_simps)

locale ring_buffer =
  fixes N :: nat and width :: "'n::len itself"
  assumes pos: "0 < N" and divides: "N dvd 2 ^ LENGTH('n)" and small: "N < 2 ^ LENGTH('n)"
begin

lemma slot_less [simp]: "slot N (w :: 'n word) < N"
  using pos by (simp add: slot_def)

lemma slot_plus: "slot N (r + of_nat i :: 'n word) = (unat r + i) mod N"
proof -
  have "unat (r + of_nat i) = (unat r + i) mod 2 ^ LENGTH('n)"
    by (simp add: unat_word_ariths unat_of_nat mod_simps)
  then show ?thesis using mod_mod_cancel [OF divides] by (simp add: slot_def)
qed

lemma slot_of: "slot N (w :: 'n word) = (unat r + unat (w - r)) mod N"
  using slot_plus [of r "unat (w - r)"] by simp

lemma unat_less_range: "unat (x :: 'n word) < 2 ^ LENGTH('n)"
  by (rule unsigned_less [where ?'a = nat])

lemma grow: "unat (w - r :: 'n word) < N \<Longrightarrow> unat (w + 1 - r) = unat (w - r) + 1"
proof -
  assume "unat (w - r) < N"
  then have "unat (w - r) + 1 < 2 ^ LENGTH('n)" using small by simp
  then have "unat (w - r + 1) = unat (w - r) + 1" by (simp add: unat_word_ariths)
  then show ?thesis by (simp add: algebra_simps)
qed

lemma unat_N: "unat (of_nat N :: 'n word) = N"
  using small by (simp add: unat_of_nat)

lemma full_iff: "w = r + of_nat N \<longleftrightarrow> unat (w - r :: 'n word) = N"
proof
  assume "unat (w - r) = N"
  then have "w - r = of_nat N" using unat_N by (metis word_unat_eq_iff)
  then show "w = r + of_nat N" by (simp add: algebra_simps)
qed (simp add: unat_N)

lemma slots_differ:
  assumes "i < n" "n < N"
  shows "(a + i) mod N \<noteq> (a + n) mod N"
proof
  assume "(a + i) mod N = (a + n) mod N"
  then have "N dvd (a + n) - (a + i)" using assms(1) by (metis mod_eq_dvd_iff_nat add_le_cancel_left less_imp_le)
  then have "N dvd n - i" by simp
  then show False using assms by (simp add: nat_dvd_not_less)
qed

text \<open>Writing at the end of a buffer that is not full.\<close>

lemma put:
  assumes ok: "ring_ok N buf r (w :: 'n word)" and room: "unat (w - r) < N"
  shows "ring N (buf[slot N w := x]) r (w + 1) = ring N buf r w @ [x]"
    and "ring_ok N (buf[slot N w := x]) r (w + 1)"
proof -
  let ?n = "unat (w - r)"
  have sl: "slot N w = (unat r + ?n) mod N" by (rule slot_of)
  have len: "length buf = N" using ok by (simp add: ring_ok_def)
  have old: "map (\<lambda>i. (buf[slot N w := x]) ! ((unat r + i) mod N)) [0..<?n] = map (\<lambda>i. buf ! ((unat r + i) mod N)) [0..<?n]"
    using slots_differ [OF _ room, of _ "unat r"] by (simp add: sl nth_list_update_neq neq_commute)
  have "(buf[slot N w := x]) ! ((unat r + ?n) mod N) = x" using pos by (simp add: sl [symmetric] len)
  then show "ring N (buf[slot N w := x]) r (w + 1) = ring N buf r w @ [x]"
    using old by (simp add: ring_def grow [OF room])
  show "ring_ok N (buf[slot N w := x]) r (w + 1)" using len room by (simp add: ring_ok_def grow [OF room])
qed

text \<open>Reading the first byte of a buffer that is not empty.\<close>

lemma shrink: "r \<noteq> (w :: 'n word) \<Longrightarrow> unat (w - r) = unat (w - (r + 1)) + 1"
  using unatSuc [of "w - (r + 1)"] by (simp add: unat_eq_0 algebra_simps)

lemma get:
  assumes "r \<noteq> (w :: 'n word)"
  shows "ring N buf r w = buf ! slot N r # ring N buf (r + 1) w"
proof -
  let ?n = "unat (w - (r + 1))"
  have "(unat (r + 1) + i) mod N = (unat r + Suc i) mod N" for i
    using slot_plus [of "r + 1" i] slot_plus [of r "Suc i"] by (simp add: algebra_simps)
  then have "ring N buf (r + 1) w = map (\<lambda>i. buf ! ((unat r + Suc i) mod N)) [0..<?n]" by (simp add: ring_def)
  moreover have "ring N buf r w = map (\<lambda>i. buf ! ((unat r + i) mod N)) [0..<Suc ?n]"
    using shrink [OF assms] by (simp add: ring_def)
  moreover have "[0..<Suc ?n] = 0 # map Suc [0..<?n]" by (simp add: map_Suc_upt upt_conv_Cons del: upt_Suc)
  ultimately show ?thesis by (simp add: slot_def comp_def del: upt_Suc)
qed

lemma get_ok: "ring_ok N buf r (w :: 'n word) \<Longrightarrow> r \<noteq> w \<Longrightarrow> ring_ok N buf (r + 1) w"
  using shrink [of r w] by (simp add: ring_ok_def)

text \<open>Taking back the last byte.\<close>

lemma unput:
  assumes "r \<noteq> (w :: 'n word)"
  shows "ring N buf r w = ring N buf r (w - 1) @ [buf ! slot N (w - 1)]"
proof -
  let ?n = "unat (w - 1 - r)"
  have n: "unat (w - r) = Suc ?n" using unatSuc [of "w - 1 - r"] assms by (simp add: unat_eq_0 algebra_simps)
  show ?thesis unfolding slot_of [of "w - 1" r] by (simp add: ring_def n)
qed

lemma unput_ok: "ring_ok N buf r (w :: 'n word) \<Longrightarrow> r \<noteq> w \<Longrightarrow> ring_ok N buf r (w - 1)"
  using unatSuc [of "w - 1 - r"] by (simp add: ring_ok_def unat_eq_0 algebra_simps)

text \<open>A buffer in two parts.\<close>

lemma parts:
  assumes "unat (w - r) + unat (e - w) = unat (e - r :: 'n word)"
  shows "ring N buf r e = ring N buf r w @ ring N buf w e"
proof -
  have "(unat w + i) mod N = (unat r + (unat (w - r) + i)) mod N" for i
    using slot_plus [of w i] slot_plus [of r "unat (w - r) + i"] by (simp add: algebra_simps)
  then have "ring N buf w e = map (\<lambda>i. buf ! ((unat r + i) mod N)) (map (\<lambda>i. i + unat (w - r)) [0..<unat (e - w)])"
    by (simp add: ring_def comp_def add.commute)
  also have "map (\<lambda>i. i + unat (w - r)) [0..<unat (e - w)] = [unat (w - r)..<unat (e - r)]"
    using map_add_upt [of "unat (w - r)" "unat (e - w)"] assms by (simp add: add.commute)
  finally have "ring N buf w e = map (\<lambda>i. buf ! ((unat r + i) mod N)) [unat (w - r)..<unat (e - r)]" .
  moreover have "[0..<unat (e - r)] = [0..<unat (w - r)] @ [unat (w - r)..<unat (e - r)]"
    using assms upt_add_eq_append [of 0 "unat (w - r)" "unat (e - w)"] by simp
  ultimately show ?thesis by (simp add: ring_def)
qed

end

end
