(* ===== verification/Console.thy ===== *)
theory Console
  imports Procspec Ring
begin

unbundle bit_operations_syntax

text \<open>
  kernel/uart.c and kernel/console.c. The device is the bytes it has received and not handed over
  (\<open>uart_in\<close>), the number of bytes its transmitter accepts before it is busy (\<open>tx_room\<close>, raised by
  the device alone), the bytes sent (\<open>uart_out\<close>) and its control registers. The line-status
  bits of the source are \<open>uart_in \<noteq> []\<close> and \<open>tx_room \<noteq> 0\<close>.
\<close>

section \<open>State\<close>

record cstate = pstate +
  uart_in :: "u8 list"
  tx_room :: nat
  uart_regs :: "nat \<Rightarrow> u8"
  uart_tx_buf :: "u8 list"
  uart_tx_w :: u64
  uart_tx_r :: u64
  cons_buf :: "u8 list"
  cons_r :: u32
  cons_w :: u32
  cons_e :: u32
  console_dev :: bool            \<comment> \<open>\<open>devsw[CONSOLE]\<close> is set\<close>

definition UART_TX_BUF_SIZE :: nat where "UART_TX_BUF_SIZE = 32"
definition INPUT_BUF_SIZE :: nat where "INPUT_BUF_SIZE = 128"

text \<open>\<open>C(x)\<close> of the source: Control-x.\<close>

definition Ctl :: "char \<Rightarrow> int" where "Ctl x = of_char x - of_char (CHR ''@'')"

section \<open>UART\<close>

definition WriteReg :: "nat \<Rightarrow> u8 \<Rightarrow> 'a cstate_scheme \<Rightarrow> 'a cstate_scheme" where
  "WriteReg reg v s = s\<lparr>uart_regs := (uart_regs s)(reg := v)\<rparr>"

definition IER :: nat where "IER = 1"
definition FCR :: nat where "FCR = 2"
definition LCR :: nat where "LCR = 3"

definition uartinit :: "'a cstate_scheme \<Rightarrow> 'a cstate_scheme" where
  "uartinit s = initlock UartTxLock
     (WriteReg IER (push_bit 1 1 OR 1) (WriteReg FCR (1 OR push_bit 1 3) (WriteReg LCR 3
       (WriteReg 1 0 (WriteReg 0 3 (WriteReg LCR (push_bit 7 1) (WriteReg IER 0 s)))))))"

text \<open>Every round of the loop of \<open>uartstart\<close> takes a byte, so the number of bytes bounds it.\<close>

primrec uartstart_loop :: "nat \<Rightarrow> 'a cstate_scheme \<Rightarrow> ('a cstate_scheme) res" where
  "uartstart_loop 0 s = Ok s"
| "uartstart_loop (Suc n) s =
     (if uart_tx_w s = uart_tx_r s then Ok s
      else if tx_room s = 0 then Ok s
      else let c = uart_tx_buf s ! slot UART_TX_BUF_SIZE (uart_tx_r s)
           in bnd (wakeup UartCh (s\<lparr>uart_tx_r := uart_tx_r s + 1\<rparr>)) (\<lambda>s1.
              uartstart_loop n (s1\<lparr>uart_out := uart_out s1 @ [c], tx_room := tx_room s1 - 1\<rparr>)))"

definition uartstart :: "'a cstate_scheme \<Rightarrow> ('a cstate_scheme) res" where
  "uartstart s = uartstart_loop (unat (uart_tx_w s - uart_tx_r s)) s"

text \<open>Waiting for space. A wait that outlasts \<open>n\<close> wakeups is \<open>Asleep\<close>.\<close>

primrec uart_wait_space :: "('a cstate_scheme \<Rightarrow> ('a cstate_scheme) res) \<Rightarrow> nat \<Rightarrow>
    'a cstate_scheme \<Rightarrow> ('a cstate_scheme) res" where
  "uart_wait_space sw 0 s =
     (if uart_tx_w s = uart_tx_r s + of_nat UART_TX_BUF_SIZE then Err Asleep else Ok s)"
| "uart_wait_space sw (Suc n) s =
     (if uart_tx_w s = uart_tx_r s + of_nat UART_TX_BUF_SIZE
      then bnd (sleep sw UartCh UartTxLock s) (uart_wait_space sw n) else Ok s)"

definition uartputc :: "('a cstate_scheme \<Rightarrow> ('a cstate_scheme) res) \<Rightarrow> nat \<Rightarrow> u32 \<Rightarrow>
    'a cstate_scheme \<Rightarrow> ('a cstate_scheme) res" where
  "uartputc sw n c s =
     bnd (acquire UartTxLock s) (\<lambda>s1.
       if panicked s1 then Err Spin
       else bnd (uart_wait_space sw n s1) (\<lambda>s2.
         bnd (uartstart (s2\<lparr>uart_tx_buf := (uart_tx_buf s2)[slot UART_TX_BUF_SIZE (uart_tx_w s2) := ucast c],
                            uart_tx_w := uart_tx_w s2 + 1\<rparr>)) (release UartTxLock)))"

definition uartgetc :: "'a cstate_scheme \<Rightarrow> int \<times> 'a cstate_scheme" where
  "uartgetc s = (case uart_in s of [] \<Rightarrow> (-1, s) | b # bs \<Rightarrow> (uint b, s\<lparr>uart_in := bs\<rparr>))"

section \<open>Console\<close>

text \<open>The kill-line loop; each round takes back a byte of the line being edited.\<close>

primrec kill_line :: "nat \<Rightarrow> 'a cstate_scheme \<Rightarrow> ('a cstate_scheme) res" where
  "kill_line 0 s = Ok s"
| "kill_line (Suc n) s =
     (if cons_e s \<noteq> cons_w s \<and> cons_buf s ! slot INPUT_BUF_SIZE (cons_e s - 1) \<noteq> 10
      then bnd (consputc BACKSPACE (s\<lparr>cons_e := cons_e s - 1\<rparr>)) (kill_line n)
      else Ok s)"

text \<open>The \<open>switch\<close> of \<open>consoleintr\<close>.\<close>

definition console_char :: "int \<Rightarrow> 'a cstate_scheme \<Rightarrow> ('a cstate_scheme) res" where
  "console_char c s =
     (if c = Ctl (CHR ''P'') then procdump s
      else if c = Ctl (CHR ''U'') then kill_line (unat (cons_e s - cons_w s)) s
      else if c = Ctl (CHR ''H'') \<or> c = 0x7F then
        (if cons_e s \<noteq> cons_w s then consputc BACKSPACE (s\<lparr>cons_e := cons_e s - 1\<rparr>) else Ok s)
      else if c \<noteq> 0 \<and> unat (cons_e s - cons_r s) < INPUT_BUF_SIZE then
        let c' = (if c = 13 then 10 else c)
        in bnd (consputc (of_int c') s) (\<lambda>s1.
           let s2 = s1\<lparr>cons_buf := (cons_buf s1)[slot INPUT_BUF_SIZE (cons_e s1) := of_int c'],
                       cons_e := cons_e s1 + 1\<rparr>
           in if c' = 10 \<or> c' = Ctl (CHR ''D'') \<or> unat (cons_e s2 - cons_r s2) = INPUT_BUF_SIZE
              then wakeup ConsCh (s2\<lparr>cons_w := cons_e s2\<rparr>) else Ok s2)
      else Ok s)"

definition consoleintr :: "int \<Rightarrow> 'a cstate_scheme \<Rightarrow> ('a cstate_scheme) res" where
  "consoleintr c s =
     bnd (acquire ConsLock s) (\<lambda>s1. bnd (console_char c s1) (release ConsLock))"

text \<open>A received byte is handed over in each round.\<close>

primrec uartintr_loop :: "nat \<Rightarrow> 'a cstate_scheme \<Rightarrow> ('a cstate_scheme) res" where
  "uartintr_loop 0 s = Ok s"
| "uartintr_loop (Suc n) s =
     (let (c, s1) = uartgetc s in if c = -1 then Ok s1 else bnd (consoleintr c s1) (uartintr_loop n))"

definition uartintr :: "'a cstate_scheme \<Rightarrow> ('a cstate_scheme) res" where
  "uartintr s =
     bnd (uartintr_loop (length (uart_in s)) s) (\<lambda>s1.
     bnd (acquire UartTxLock s1) (\<lambda>s2. bnd (uartstart s2) (release UartTxLock)))"

fun consolewrite_loop :: "('a cstate_scheme \<Rightarrow> ('a cstate_scheme) res) \<Rightarrow> nat \<Rightarrow> bool \<Rightarrow> u64 \<Rightarrow> nat \<Rightarrow> int \<Rightarrow>
    'a cstate_scheme \<Rightarrow> (int \<times> 'a cstate_scheme) res" where
  "consolewrite_loop sw m user_src src 0 i s = Ok (i, s)"
| "consolewrite_loop sw m user_src src (Suc k) i s =
     bnd (either_copyin user_src (src + of_int i) 1 s) (\<lambda>((r, bs), s1).
       if r = -1 then Ok (i, s1)
       else bnd (uartputc sw m (ucast (hd bs)) s1) (consolewrite_loop sw m user_src src k (i + 1)))"

definition consolewrite :: "('a cstate_scheme \<Rightarrow> ('a cstate_scheme) res) \<Rightarrow> nat \<Rightarrow> bool \<Rightarrow> u64 \<Rightarrow> int \<Rightarrow>
    'a cstate_scheme \<Rightarrow> (int \<times> 'a cstate_scheme) res" where
  "consolewrite sw m user_src src n s = consolewrite_loop sw m user_src src (nat n) 0 s"

text \<open>
  Waiting for input: \<open>None\<close> when the process was killed, with the lock released.
\<close>

primrec cons_wait :: "('a cstate_scheme \<Rightarrow> ('a cstate_scheme) res) \<Rightarrow> nat \<Rightarrow> 'a cstate_scheme \<Rightarrow>
    (bool \<times> 'a cstate_scheme) res" where
  "cons_wait sw 0 s = (if cons_r s = cons_w s then Err Asleep else Ok (True, s))"
| "cons_wait sw (Suc m) s =
     (if cons_r s = cons_w s then
        bnd (myproc s) (\<lambda>(me, s1).
        case me of None \<Rightarrow> Err (Undef ''consoleread: no process'')
        | Some p \<Rightarrow> bnd (killed p s1) (\<lambda>(k, s2).
            if k \<noteq> 0 then bnd (release ConsLock s2) (\<lambda>s3. Ok (False, s3))
            else bnd (sleep sw ConsCh ConsLock s2) (cons_wait sw m)))
      else Ok (True, s))"

text \<open>
  \<open>k\<close> bytes are still wanted. The result is the number still wanted at the end (the lock is
  held), or \<open>None\<close> after a kill.
\<close>

fun consoleread_loop :: "('a cstate_scheme \<Rightarrow> ('a cstate_scheme) res) \<Rightarrow> nat \<Rightarrow> bool \<Rightarrow> nat \<Rightarrow> nat \<Rightarrow> u64 \<Rightarrow>
    'a cstate_scheme \<Rightarrow> (nat option \<times> 'a cstate_scheme) res" where
  "consoleread_loop sw m user_dst target 0 dst s = Ok (Some 0, s)"
| "consoleread_loop sw m user_dst target (Suc k) dst s =
     bnd (cons_wait sw m s) (\<lambda>(alive, s1).
       if \<not> alive then Ok (None, s1)
       else let c = cons_buf s1 ! slot INPUT_BUF_SIZE (cons_r s1);
                s2 = s1\<lparr>cons_r := cons_r s1 + 1\<rparr>
            in if uint c = Ctl (CHR ''D'') then
                 Ok (Some (Suc k), if Suc k < target then s2\<lparr>cons_r := cons_r s2 - 1\<rparr> else s2)
               else bnd (either_copyout user_dst dst [c] s2) (\<lambda>(r, s3).
                 if r = -1 then Ok (Some (Suc k), s3)
                 else if c = 10 then Ok (Some k, s3)
                 else consoleread_loop sw m user_dst target k (dst + 1) s3))"

definition consoleread :: "('a cstate_scheme \<Rightarrow> ('a cstate_scheme) res) \<Rightarrow> nat \<Rightarrow> bool \<Rightarrow> u64 \<Rightarrow> int \<Rightarrow>
    'a cstate_scheme \<Rightarrow> (int \<times> 'a cstate_scheme) res" where
  "consoleread sw m user_dst dst n s =
     bnd (acquire ConsLock s) (\<lambda>s1.
     bnd (consoleread_loop sw m user_dst (nat n) (nat n) dst s1) (\<lambda>(left, s2).
       case left of None \<Rightarrow> Ok (-1, s2)
       | Some k \<Rightarrow> bnd (release ConsLock s2) (\<lambda>s3. Ok (int (nat n) - int k, s3))))"

definition consoleinit :: "'a cstate_scheme \<Rightarrow> 'a cstate_scheme" where
  "consoleinit s = (uartinit (initlock ConsLock s))\<lparr>console_dev := True\<rparr>"

section \<open>The output queue\<close>

interpretation uart_ring: ring_buffer UART_TX_BUF_SIZE "TYPE(64)"
  by unfold_locales (simp_all add: UART_TX_BUF_SIZE_def)

interpretation cons_ring: ring_buffer INPUT_BUF_SIZE "TYPE(32)"
  by unfold_locales (simp_all add: INPUT_BUF_SIZE_def)

definition tx_pending :: "'a cstate_scheme \<Rightarrow> u8 list" where
  "tx_pending s = ring UART_TX_BUF_SIZE (uart_tx_buf s) (uart_tx_r s) (uart_tx_w s)"

definition tx_ok :: "'a cstate_scheme \<Rightarrow> bool" where
  "tx_ok s \<longleftrightarrow> ring_ok UART_TX_BUF_SIZE (uart_tx_buf s) (uart_tx_r s) (uart_tx_w s)"

lemma tx_pending_length [simp]: "length (tx_pending s) = unat (uart_tx_w s - uart_tx_r s)"
  by (simp add: tx_pending_def)

lemma tx_get:
  "uart_tx_r s \<noteq> uart_tx_w s \<Longrightarrow> tx_pending s = uart_tx_buf s ! slot UART_TX_BUF_SIZE (uart_tx_r s) #
     tx_pending (s\<lparr>uart_tx_r := uart_tx_r s + 1\<rparr>)"
  unfolding tx_pending_def by (simp add: uart_ring.get)

text \<open>Inside a critical section a matched push and pop of the interrupt state changes nothing.\<close>

definition nested :: "'a hstate_scheme \<Rightarrow> bool" where
  "nested s \<longleftrightarrow> bumped (cpus s) (hart s) = cpus s"

lemma nested_pushed [simp]: "hart_ok s \<Longrightarrow> nested (s\<lparr>cpus := pushed (cpus s) (hart s), locks := L\<rparr>)"
  by (simp add: nested_def)

lemma wakeup_nested:
  assumes "procs_quiet s" and "nested s"
  shows "\<exists>ps. wakeup ch s = Ok (s\<lparr>procs := ps\<rparr>)"
  using wakeup_wakes_all [OF assms(1), of ch] assms(2) by (auto simp: nested_def)

definition sent :: "nat \<Rightarrow> (nat \<Rightarrow> proc) \<Rightarrow> 'a cstate_scheme \<Rightarrow> 'a cstate_scheme" where
  "sent k ps s = s\<lparr>procs := ps, uart_tx_r := uart_tx_r s + of_nat k,
     uart_out := uart_out s @ take k (tx_pending s), tx_room := tx_room s - k\<rparr>"

lemma uartstart_loop_spec:
  "procs_quiet s \<Longrightarrow> nested s \<Longrightarrow> unat (uart_tx_w s - uart_tx_r s) \<le> n \<Longrightarrow>
   \<exists>ps. uartstart_loop n s = Ok (sent (min (tx_room s) (unat (uart_tx_w s - uart_tx_r s))) ps s)"
proof (induction n arbitrary: s)
  case 0
  then have "s = sent 0 (procs s) s" by (simp add: sent_def)
  moreover have "unat (uart_tx_w s - uart_tx_r s) = 0" using 0 by simp
  ultimately show ?case by (auto intro!: exI [of _ "procs s"])
next
  case (Suc n)
  let ?d = "unat (uart_tx_w s - uart_tx_r s)"
  show ?case
  proof (cases "uart_tx_w s = uart_tx_r s \<or> tx_room s = 0")
    case True
    then have "min (tx_room s) ?d = 0" by auto
    moreover have "s = sent 0 (procs s) s" by (simp add: sent_def)
    moreover have "uartstart_loop (Suc n) s = Ok s" using True by auto
    ultimately show ?thesis by (auto intro!: exI [of _ "procs s"])
  next
    case False
    let ?c = "uart_tx_buf s ! slot UART_TX_BUF_SIZE (uart_tx_r s)"
    let ?s1 = "s\<lparr>uart_tx_r := uart_tx_r s + 1\<rparr>"
    have q: "procs_quiet ?s1" "nested ?s1" using Suc.prems by (simp_all add: procs_quiet_def nested_def)
    from wakeup_nested [OF q, of UartCh] obtain ps where w: "wakeup UartCh ?s1 = Ok (?s1\<lparr>procs := ps\<rparr>)" by blast
    let ?s2 = "?s1\<lparr>procs := ps, uart_out := uart_out s @ [?c], tx_room := tx_room s - 1\<rparr>"
    have ne: "uart_tx_r s \<noteq> uart_tx_w s" using False by auto
    have d: "?d = unat (uart_tx_w ?s2 - uart_tx_r ?s2) + 1" using uart_ring.shrink [OF ne] by simp
    have "procs_quiet ?s2" "nested ?s2" using q by (simp_all add: procs_quiet_def nested_def)
    moreover have "unat (uart_tx_w ?s2 - uart_tx_r ?s2) \<le> n" using Suc.prems(3) d by simp
    ultimately obtain ps' where i: "uartstart_loop n ?s2 =
        Ok (sent (min (tx_room ?s2) (unat (uart_tx_w ?s2 - uart_tx_r ?s2))) ps' ?s2)" using Suc.IH by blast
    have "uartstart_loop (Suc n) s = uartstart_loop n ?s2" using False w by (simp add: Let_def)
    moreover have "sent (min (tx_room ?s2) (unat (uart_tx_w ?s2 - uart_tx_r ?s2))) ps' ?s2 =
        sent (min (tx_room s) ?d) ps' s"
    proof -
      have m: "min (tx_room s) ?d = Suc (min (tx_room ?s2) (unat (uart_tx_w ?s2 - uart_tx_r ?s2)))"
        using d False by auto
      have t: "tx_pending s = ?c # tx_pending ?s2" using tx_get [OF ne] by (simp add: tx_pending_def)
      show ?thesis unfolding m sent_def t by (simp add: algebra_simps)
    qed
    ultimately show ?thesis using i by auto
  qed
qed

lemma uartstart_spec:
  "procs_quiet s \<Longrightarrow> nested s \<Longrightarrow>
   \<exists>ps. uartstart s = Ok (sent (min (tx_room s) (length (tx_pending s))) ps s)"
  unfolding uartstart_def tx_pending_length by (rule uartstart_loop_spec) auto

lemma sent_pending: "k \<le> length (tx_pending s) \<Longrightarrow> tx_pending (sent k ps s) = drop k (tx_pending s)"
proof (induction k arbitrary: s)
  case 0
  then show ?case by (simp add: sent_def tx_pending_def)
next
  case (Suc k)
  then have ne: "uart_tx_r s \<noteq> uart_tx_w s" by auto
  let ?s1 = "s\<lparr>uart_tx_r := uart_tx_r s + 1\<rparr>"
  have t: "tx_pending s = uart_tx_buf s ! slot UART_TX_BUF_SIZE (uart_tx_r s) # tx_pending ?s1"
    by (rule tx_get [OF ne])
  have "k \<le> length (tx_pending ?s1)" using Suc.prems unfolding t by simp
  from Suc.IH [OF this] have "tx_pending (sent k ps ?s1) = drop k (tx_pending ?s1)" .
  moreover have "tx_pending (sent (Suc k) ps s) = tx_pending (sent k ps ?s1)"
    by (simp add: sent_def tx_pending_def algebra_simps)
  ultimately show ?case unfolding t by simp
qed

lemma sent_ok:
  assumes "k \<le> length (tx_pending s)" and "tx_ok s"
  shows "tx_ok (sent k ps s)"
proof -
  have "length (tx_pending (sent k ps s)) \<le> length (tx_pending s)" using sent_pending [OF assms(1)] by simp
  moreover have "uart_tx_buf (sent k ps s) = uart_tx_buf s" by (simp add: sent_def)
  ultimately show ?thesis using assms(2) by (simp add: tx_ok_def ring_ok_def)
qed


section \<open>The line editor\<close>

text \<open>
  The abstract console: the bytes of complete lines waiting for a reader, and the line being
  edited.
\<close>

definition cons_lines :: "'a cstate_scheme \<Rightarrow> u8 list" where
  "cons_lines s = ring INPUT_BUF_SIZE (cons_buf s) (cons_r s) (cons_w s)"

definition cons_edit :: "'a cstate_scheme \<Rightarrow> u8 list" where
  "cons_edit s = ring INPUT_BUF_SIZE (cons_buf s) (cons_w s) (cons_e s)"

definition cons_ok :: "'a cstate_scheme \<Rightarrow> bool" where
  "cons_ok s \<longleftrightarrow> ring_ok INPUT_BUF_SIZE (cons_buf s) (cons_r s) (cons_e s) \<and>
     unat (cons_w s - cons_r s) + unat (cons_e s - cons_w s) = unat (cons_e s - cons_r s) \<and>
     10 \<notin> set (cons_edit s)"

definition line_edit :: "int \<Rightarrow> u8 list \<times> u8 list \<Rightarrow> u8 list \<times> u8 list" where
  "line_edit c = (\<lambda>(lines, ed).
     if c = Ctl (CHR ''P'') then (lines, ed)
     else if c = Ctl (CHR ''U'') then (lines, [])
     else if c = Ctl (CHR ''H'') \<or> c = 0x7F then (lines, butlast ed)
     else if c \<noteq> 0 \<and> length lines + length ed < INPUT_BUF_SIZE then
       let c' = (if c = 13 then 10 else c); ed' = ed @ [of_int c']
       in if c' = 10 \<or> c' = Ctl (CHR ''D'') \<or> length lines + length ed' = INPUT_BUF_SIZE
          then (lines @ ed', []) else (lines, ed')
     else (lines, ed))"

definition cons_abs :: "'a cstate_scheme \<Rightarrow> u8 list \<times> u8 list" where
  "cons_abs s = (cons_lines s, cons_edit s)"

definition cons_quiet :: "'a cstate_scheme \<Rightarrow> bool" where
  "cons_quiet s \<longleftrightarrow> procs_quiet s \<and> pr_quiet s"

lemma consputc_nested:
  assumes "cons_quiet s" and "nested s"
  shows "consputc (ucast (c::u8)) s = Ok (s\<lparr>uart_out := uart_out s @ [c]\<rparr>)"
    and "consputc BACKSPACE s = Ok (s\<lparr>uart_out := uart_out s @ [8, 32, 8]\<rparr>)"
proof -
  have o: "out_ok s" and b: "bumped (cpus s) (hart s) = cpus s"
    using assms by (auto simp: cons_quiet_def procs_quiet_def pr_quiet_def nested_def)
  show "consputc (ucast c) s = Ok (s\<lparr>uart_out := uart_out s @ [c]\<rparr>)"
    using consputc_byte [OF o, of c] b by simp
  show "consputc BACKSPACE s = Ok (s\<lparr>uart_out := uart_out s @ [8, 32, 8]\<rparr>)"
    using o b by (simp add: consputc_def uartputc_sync_ok)
qed

text \<open>What the operations under the console lock may change.\<close>

definition console_upd :: "(nat \<Rightarrow> proc) \<Rightarrow> u8 list \<Rightarrow> u8 list \<Rightarrow> u32 \<Rightarrow> u32 \<Rightarrow> 'a cstate_scheme \<Rightarrow> 'a cstate_scheme" where
  "console_upd ps out b w e s = s\<lparr>procs := ps, uart_out := out, cons_buf := b, cons_w := w, cons_e := e\<rparr>"

lemma console_upd_simps [simp]:
  "cons_quiet (console_upd ps out b w e s) = cons_quiet s" "nested (console_upd ps out b w e s) = nested s"
  "console_upd ps' out' b' w' e' (console_upd ps out b w e s) = console_upd ps' out' b' w' e' s"
  "console_upd (procs s) (uart_out s) (cons_buf s) (cons_w s) (cons_e s) s = s"
  by (simp_all add: console_upd_def cons_quiet_def procs_quiet_def pr_quiet_def nested_def)

definition edits :: "u8 list \<times> u8 list \<Rightarrow> 'a cstate_scheme \<Rightarrow> 'a cstate_scheme res \<Rightarrow> bool" where
  "edits a s r \<longleftrightarrow> (\<exists>ps out b w e. r = Ok (console_upd ps out b w e s) \<and>
     cons_ok (console_upd ps out b w e s) \<and> cons_abs (console_upd ps out b w e s) = a)"

lemma editsI:
  "r = Ok (console_upd ps out b w e s) \<Longrightarrow> cons_ok (console_upd ps out b w e s) \<Longrightarrow>
   cons_abs (console_upd ps out b w e s) = a \<Longrightarrow> edits a s r"
  unfolding edits_def by blast

lemma edits_same: "cons_ok s \<Longrightarrow> a = cons_abs s \<Longrightarrow> edits a s (Ok s)"
  by (rule editsI [of _ "procs s" "uart_out s" "cons_buf s" "cons_w s" "cons_e s"]) simp_all

lemma cons_abs_out: "cons_abs (s\<lparr>uart_out := out\<rparr>) = cons_abs s" "cons_ok (s\<lparr>uart_out := out\<rparr>) = cons_ok s"
  by (simp_all add: cons_abs_def cons_ok_def cons_lines_def cons_edit_def)

text \<open>Taking back a byte.\<close>

lemma unput_edit:
  assumes ok: "cons_ok s" and ne: "cons_e s \<noteq> cons_w s"
  shows "cons_edit (s\<lparr>cons_e := cons_e s - 1\<rparr>) = butlast (cons_edit s)"
    and "cons_edit s = butlast (cons_edit s) @ [cons_buf s ! slot INPUT_BUF_SIZE (cons_e s - 1)]"
    and "cons_ok (s\<lparr>cons_e := cons_e s - 1\<rparr>)"
proof -
  have ne': "cons_w s \<noteq> cons_e s" using ne by simp
  have u: "cons_edit s = cons_edit (s\<lparr>cons_e := cons_e s - 1\<rparr>) @ [cons_buf s ! slot INPUT_BUF_SIZE (cons_e s - 1)]"
    using cons_ring.unput [OF ne'] by (simp add: cons_edit_def)
  then show b: "cons_edit (s\<lparr>cons_e := cons_e s - 1\<rparr>) = butlast (cons_edit s)" by simp
  show "cons_edit s = butlast (cons_edit s) @ [cons_buf s ! slot INPUT_BUF_SIZE (cons_e s - 1)]"
    using u b by simp
  have pos: "0 < unat (cons_e s - cons_w s)" using ne by (simp add: unat_gt_0)
  have "cons_e s \<noteq> cons_r s" using ok pos by (auto simp: cons_ok_def)
  then have "unat (cons_e s - cons_r s) = Suc (unat (cons_e s - 1 - cons_r s))"
    "unat (cons_e s - cons_w s) = Suc (unat (cons_e s - 1 - cons_w s))" using unat_pred ne by blast+
  moreover have "10 \<notin> set (butlast (cons_edit s))" using ok by (auto simp: cons_ok_def dest: in_set_butlastD)
  ultimately show "cons_ok (s\<lparr>cons_e := cons_e s - 1\<rparr>)"
    using ok b by (simp add: cons_ok_def ring_ok_def)
qed

lemma kill_line_edits:
  "cons_quiet s \<Longrightarrow> nested s \<Longrightarrow> cons_ok s \<Longrightarrow> unat (cons_e s - cons_w s) = n \<Longrightarrow>
   edits (cons_lines s, []) s (kill_line n s)"
proof (induction n arbitrary: s)
  case 0
  then have "cons_e s = cons_w s" by (simp add: unat_eq_0)
  then show ?case using 0 by (auto intro!: edits_same simp: cons_abs_def cons_edit_def)
next
  case (Suc n)
  then have ne: "cons_e s \<noteq> cons_w s" by auto
  note u = unput_edit [OF Suc.prems(3) ne]
  let ?s1 = "s\<lparr>cons_e := cons_e s - 1\<rparr>"
  have "cons_buf s ! slot INPUT_BUF_SIZE (cons_e s - 1) \<in> set (cons_edit s)" by (subst u(2)) simp
  then have nl: "cons_buf s ! slot INPUT_BUF_SIZE (cons_e s - 1) \<noteq> 10" using Suc.prems(3) by (auto simp: cons_ok_def)
  have q: "cons_quiet ?s1" "nested ?s1"
    using Suc.prems by (simp_all add: cons_quiet_def procs_quiet_def pr_quiet_def nested_def)
  let ?s2 = "?s1\<lparr>uart_out := uart_out s @ [8, 32, 8]\<rparr>"
  have k: "kill_line (Suc n) s = kill_line n ?s2" using ne nl consputc_nested(2) [OF q] by simp
  have s2: "?s2 = console_upd (procs s) (uart_out s @ [8, 32, 8]) (cons_buf s) (cons_w s) (cons_e s - 1) s"
    by (simp add: console_upd_def)
  have "edits (cons_lines ?s2, []) ?s2 (kill_line n ?s2)"
  proof (rule Suc.IH)
    show "cons_quiet ?s2" "nested ?s2" unfolding s2 using Suc.prems by simp_all
    show "cons_ok ?s2" using u(3) cons_abs_out(2) [where s = ?s1] by simp
    show "unat (cons_e ?s2 - cons_w ?s2) = n" using Suc.prems(4) unat_pred [OF ne] by simp
  qed
  then obtain ps out b w e where r: "kill_line n ?s2 = Ok (console_upd ps out b w e ?s2)"
    and o: "cons_ok (console_upd ps out b w e ?s2)" and a: "cons_abs (console_upd ps out b w e ?s2) = (cons_lines ?s2, [])"
    unfolding edits_def by blast
  have c: "console_upd ps out b w e ?s2 = console_upd ps out b w e s" unfolding s2 by simp
  have l: "cons_lines ?s2 = cons_lines s" by (simp add: cons_lines_def)
  show ?case by (rule editsI [of _ ps out b w e]) (use k r o a c l in simp_all)
qed

text \<open>Adding a byte, and ending the line.\<close>

lemma put_edit:
  fixes s :: "'a cstate_scheme" and x :: u8
  assumes ok: "cons_ok s" and room: "unat (cons_e s - cons_r s) < INPUT_BUF_SIZE"
  defines "s' \<equiv> s\<lparr>cons_buf := (cons_buf s)[slot INPUT_BUF_SIZE (cons_e s) := x], cons_e := cons_e s + 1\<rparr>"
  shows "cons_edit s' = cons_edit s @ [x]" and "cons_lines s' = cons_lines s"
    and "x \<noteq> 10 \<Longrightarrow> cons_ok s'" and "cons_ok (s'\<lparr>cons_w := cons_e s'\<rparr>)"
    and "cons_lines (s'\<lparr>cons_w := cons_e s'\<rparr>) = cons_lines s @ cons_edit s @ [x]"
    and "cons_edit (s'\<lparr>cons_w := cons_e s'\<rparr>) = []"
proof -
  let ?r = "cons_r s" and ?w = "cons_w s" and ?e = "cons_e s" and ?b = "cons_buf s"
  let ?b' = "?b[slot INPUT_BUF_SIZE ?e := x]"
  have sum: "unat (?w - ?r) + unat (?e - ?w) = unat (?e - ?r)" and len: "length ?b = INPUT_BUF_SIZE"
    using ok by (auto simp: cons_ok_def ring_ok_def)
  have room': "unat (?e - ?w) < INPUT_BUF_SIZE" using sum room by simp
  have okr: "ring_ok INPUT_BUF_SIZE ?b ?r ?e" and okw: "ring_ok INPUT_BUF_SIZE ?b ?w ?e"
    using len room room' by (simp_all add: ring_ok_def)
  note pr = cons_ring.put [OF okr room, of x] and pw = cons_ring.put [OF okw room', of x]
  note gr = cons_ring.grow [OF room] and gw = cons_ring.grow [OF room']
  have sum': "unat (?w - ?r) + unat (?e + 1 - ?w) = unat (?e + 1 - ?r)" using sum gr gw by simp
  show e: "cons_edit s' = cons_edit s @ [x]" using pw(1) by (simp add: cons_edit_def s'_def)
  have "ring INPUT_BUF_SIZE ?b' ?r ?w @ ring INPUT_BUF_SIZE ?b' ?w (?e + 1) = ring INPUT_BUF_SIZE ?b ?r ?w @ ring INPUT_BUF_SIZE ?b ?w ?e @ [x]"
    using cons_ring.parts [OF sum', of ?b'] cons_ring.parts [OF sum, of ?b] pr(1) by simp
  then show l: "cons_lines s' = cons_lines s" using pw(1) by (simp add: cons_lines_def s'_def)
  show "cons_ok s'" if "x \<noteq> 10"
    using ok e that pr(2) sum' by (auto simp: cons_ok_def s'_def)
  show "cons_ok (s'\<lparr>cons_w := cons_e s'\<rparr>)" using pr(2) by (simp add: cons_ok_def cons_edit_def s'_def)
  show "cons_lines (s'\<lparr>cons_w := cons_e s'\<rparr>) = cons_lines s @ cons_edit s @ [x]"
    using pr(1) cons_ring.parts [OF sum, of ?b] by (simp add: cons_lines_def cons_edit_def s'_def)
  show "cons_edit (s'\<lparr>cons_w := cons_e s'\<rparr>) = []" by (simp add: cons_edit_def s'_def)
qed

lemma byte_word: "0 \<le> c \<Longrightarrow> c < 256 \<Longrightarrow> (of_int c :: u32) = ucast (of_int c :: u8)"
  by (simp add: word_uint_eq_iff uint_word_of_int unsigned_ucast_eq take_bit_int_eq_self)

lemma byte_eq_newline: "0 \<le> c \<Longrightarrow> c < 256 \<Longrightarrow> (of_int c :: u8) = 10 \<longleftrightarrow> c = 10"
  by (simp add: word_uint_eq_iff uint_word_of_int)

lemma Ctl_simps: "Ctl (CHR ''P'') = 16" "Ctl (CHR ''U'') = 21" "Ctl (CHR ''H'') = 8" "Ctl (CHR ''D'') = 4"
  by (simp_all add: Ctl_def)

lemma default_edits:
  fixes s :: "'a cstate_scheme"
  assumes q: "cons_quiet s" "nested s" "cons_ok s" and c: "0 < c" "c < 256"
    and plain: "c \<noteq> Ctl (CHR ''P'')" "c \<noteq> Ctl (CHR ''U'')" "c \<noteq> Ctl (CHR ''H'')" "c \<noteq> 0x7F"
    and room: "unat (cons_e s - cons_r s) < INPUT_BUF_SIZE"
  shows "edits (line_edit c (cons_abs s)) s (console_char c s)"
proof -
  define c' where "c' = (if c = 13 then 10 else c)"
  define x :: u8 where "x = of_int c'"
  have c': "0 \<le> c'" "c' < 256" using c by (auto simp: c'_def)
  have x10: "x = 10 \<longleftrightarrow> c' = 10" using byte_eq_newline [OF c'] unfolding x_def .
  let ?s1 = "s\<lparr>uart_out := uart_out s @ [x]\<rparr>"
  let ?s2 = "?s1\<lparr>cons_buf := (cons_buf ?s1)[slot INPUT_BUF_SIZE (cons_e ?s1) := x], cons_e := cons_e ?s1 + 1\<rparr>"
  have ok1: "cons_ok ?s1" using q(3) by (simp add: cons_abs_out)
  have room1: "unat (cons_e ?s1 - cons_r ?s1) < INPUT_BUF_SIZE" using room by simp
  note p = put_edit [OF ok1 room1, of x]
  have put: "consputc (of_int c') s = Ok ?s1"
    unfolding byte_word [OF c'] x_def [symmetric] by (rule consputc_nested(1) [OF q(1,2)])
  have body: "console_char c s = (if c' = 10 \<or> c' = Ctl (CHR ''D'') \<or> unat (cons_e ?s2 - cons_r ?s2) = INPUT_BUF_SIZE
      then wakeup ConsCh (?s2\<lparr>cons_w := cons_e ?s2\<rparr>) else Ok ?s2)"
    using c plain room put unfolding console_char_def c'_def [symmetric] x_def by (simp add: Let_def)
  have lens: "length (cons_lines s) + length (cons_edit s) = unat (cons_e s - cons_r s)"
    using q(3) by (simp add: cons_lines_def cons_edit_def cons_ok_def)
  have full: "unat (cons_e ?s2 - cons_r ?s2) = length (cons_lines s) + length (cons_edit s @ [x])"
    using cons_ring.grow [OF room] lens by simp
  have abs: "cons_lines ?s1 = cons_lines s" "cons_edit ?s1 = cons_edit s" by (simp_all add: cons_lines_def cons_edit_def)
  have le: "line_edit c (cons_abs s) =
      (if c' = 10 \<or> c' = Ctl (CHR ''D'') \<or> length (cons_lines s) + length (cons_edit s @ [x]) = INPUT_BUF_SIZE
       then (cons_lines s @ cons_edit s @ [x], []) else (cons_lines s, cons_edit s @ [x]))"
    using c plain room lens unfolding line_edit_def cons_abs_def c'_def [symmetric] x_def by (simp add: Let_def)
  show ?thesis
  proof (cases "c' = 10 \<or> c' = Ctl (CHR ''D'') \<or> unat (cons_e ?s2 - cons_r ?s2) = INPUT_BUF_SIZE")
    case True
    let ?s3 = "?s2\<lparr>cons_w := cons_e ?s2\<rparr>"
    have "procs_quiet ?s3" "nested ?s3" using q by (simp_all add: cons_quiet_def procs_quiet_def nested_def)
    from wakeup_nested [OF this, of ConsCh] obtain ps where w: "wakeup ConsCh ?s3 = Ok (?s3\<lparr>procs := ps\<rparr>)" by blast
    let ?t = "console_upd ps (uart_out s @ [x]) ((cons_buf s)[slot INPUT_BUF_SIZE (cons_e s) := x]) (cons_e s + 1) (cons_e s + 1) s"
    have t: "?s3\<lparr>procs := ps\<rparr> = ?t" by (simp add: console_upd_def)
    have k: "cons_ok ?t" "cons_lines ?t = cons_lines ?s3" "cons_edit ?t = cons_edit ?s3"
      unfolding t [symmetric] using p(4) by (simp_all add: cons_ok_def cons_lines_def cons_edit_def)
    have le': "line_edit c (cons_abs s) = (cons_lines s @ cons_edit s @ [x], [])"
      unfolding le using True [unfolded full] by (rule if_P)
    show ?thesis
    proof (rule editsI)
      have "console_char c s = wakeup ConsCh ?s3" unfolding body by (rule if_P [OF True])
      then show "console_char c s = Ok ?t" using w unfolding t by (rule trans)
      show "cons_ok ?t" by (rule k(1))
      show "cons_abs ?t = line_edit c (cons_abs s)"
        unfolding cons_abs_def [of ?t] le' k(2,3) p(5,6) abs by simp
    qed
  next
    case False
    let ?t = "console_upd (procs s) (uart_out s @ [x]) ((cons_buf s)[slot INPUT_BUF_SIZE (cons_e s) := x]) (cons_w s) (cons_e s + 1) s"
    have t: "?s2 = ?t" by (simp add: console_upd_def)
    have le': "line_edit c (cons_abs s) = (cons_lines s, cons_edit s @ [x])"
      unfolding le using False [unfolded full] by (rule if_not_P)
    have x: "x \<noteq> 10" using False x10 by simp
    show ?thesis
    proof (rule editsI)
      have "console_char c s = Ok ?s2" unfolding body by (rule if_not_P [OF False])
      then show "console_char c s = Ok ?t" unfolding t .
      show "cons_ok ?t" using p(3) [OF x] unfolding t .
      show "cons_abs ?t = line_edit c (cons_abs s)"
        unfolding le' t [symmetric] cons_abs_def [of ?s2] p(1,2) abs by (rule refl)
    qed
  qed
qed

lemma console_char_edits:
  fixes s :: "'a cstate_scheme"
  assumes q: "cons_quiet s" "nested s" "cons_ok s" and c: "0 \<le> c" "c < 256"
  shows "edits (line_edit c (cons_abs s)) s (console_char c s)"
proof -
  have lens: "length (cons_lines s) + length (cons_edit s) = unat (cons_e s - cons_r s)"
    using q(3) by (simp add: cons_lines_def cons_edit_def cons_ok_def)
  have same: "edits (cons_abs s) s (Ok s)" by (rule edits_same) (use q in simp_all)
  consider "c = Ctl (CHR ''P'')" | "c = Ctl (CHR ''U'')" | "c = Ctl (CHR ''H'') \<or> c = 0x7F"
    | "c \<noteq> Ctl (CHR ''P'')" "c \<noteq> Ctl (CHR ''U'')" "c \<noteq> Ctl (CHR ''H'')" "c \<noteq> 0x7F" by blast
  then show ?thesis
  proof cases
    case 1
    obtain cs where d: "procdump s = Ok (dumped cs s)" using procdump_ok [of s] q by (auto simp: cons_quiet_def)
    have t: "dumped cs s = console_upd (procs s) (uart_out s @ cs) (cons_buf s) (cons_w s) (cons_e s) s"
      using q(2) by (simp add: dumped_def console_upd_def nested_def)
    have k: "cons_ok (dumped cs s) = cons_ok s" "cons_abs (dumped cs s) = cons_abs s"
      by (simp_all add: dumped_def cons_ok_def cons_abs_def cons_lines_def cons_edit_def)
    have "line_edit c (cons_abs s) = cons_abs s" using 1 by (simp add: line_edit_def cons_abs_def)
    moreover have "console_char c s = Ok (dumped cs s)" using 1 d by (simp add: console_char_def)
    ultimately show ?thesis using q(3) k t by (metis editsI)
  next
    case 2
    then show ?thesis using kill_line_edits [OF q refl]
      by (simp add: console_char_def line_edit_def cons_abs_def Ctl_simps)
  next
    case 3
    then have cc: "console_char c s = (if cons_e s \<noteq> cons_w s then consputc BACKSPACE (s\<lparr>cons_e := cons_e s - 1\<rparr>) else Ok s)"
      "line_edit c (cons_abs s) = (cons_lines s, butlast (cons_edit s))"
      by (auto simp: console_char_def line_edit_def cons_abs_def Ctl_simps)
    show ?thesis
    proof (cases "cons_e s = cons_w s")
      case True
      then show ?thesis using cc same by (simp add: cons_abs_def cons_edit_def)
    next
      case False
      let ?s1 = "s\<lparr>cons_e := cons_e s - 1\<rparr>"
      have q1: "cons_quiet ?s1" "nested ?s1"
        using q by (simp_all add: cons_quiet_def procs_quiet_def pr_quiet_def nested_def)
      let ?t = "console_upd (procs s) (uart_out s @ [8, 32, 8]) (cons_buf s) (cons_w s) (cons_e s - 1) s"
      have t: "?s1\<lparr>uart_out := uart_out s @ [8, 32, 8]\<rparr> = ?t" by (simp add: console_upd_def)
      note u = unput_edit [OF q(3) False]
      show ?thesis
      proof (rule editsI)
        show "console_char c s = Ok ?t" using cc False consputc_nested(2) [OF q1] t by simp
        show "cons_ok ?t" using u(3) cons_abs_out(2) [where s = ?s1] unfolding t [symmetric] by simp
        show "cons_abs ?t = line_edit c (cons_abs s)"
          using u(1) cc(2) cons_abs_out(1) [where s = ?s1] unfolding t [symmetric]
          by (simp add: cons_abs_def cons_lines_def)
      qed
    qed
  next
    case 4
    show ?thesis
    proof (cases "c \<noteq> 0 \<and> unat (cons_e s - cons_r s) < INPUT_BUF_SIZE")
      case True
      then show ?thesis using default_edits [OF q _ c(2) 4] c(1) by simp
    next
      case False
      then have "console_char c s = Ok s" using 4 by (auto simp: console_char_def)
      moreover have "line_edit c (cons_abs s) = cons_abs s"
        using False 4 lens by (auto simp: line_edit_def cons_abs_def)
      ultimately show ?thesis using same by simp
    qed
  qed
qed

text \<open>C11: the console interrupt handler refines a line editor: what it does to the circular buffer
  with its three wrapping indices is what the editor does to the complete lines and the line being
  typed (erase, kill, carriage return, end of file, a full buffer ends the line), and it keeps the
  buffer well formed and its locks free.\<close>

theorem consoleintr_line_editor:
  assumes "procs_quiet s" and "pr_quiet s" and "cons_ok s" and "unlocked ConsLock s" and "0 \<le> c" and "c < 256"
  shows "\<exists>s'. consoleintr c s = Ok s' \<and> cons_abs s' = line_edit c (cons_abs s) \<and> cons_ok s' \<and>
    procs_quiet s' \<and> pr_quiet s' \<and> unlocked ConsLock s'"
proof -
  let ?s1 = "s\<lparr>cpus := pushed (cpus s) (hart s), locks := (locks s)(ConsLock := held_by (hart s))\<rparr>"
  have h: "hart_ok s" using assms(1) by (simp add: procs_quiet_def)
  have q: "cons_quiet ?s1" "nested ?s1" "cons_ok ?s1" "cons_abs ?s1 = cons_abs s"
    using assms h by (auto simp: cons_quiet_def procs_quiet_def pr_quiet_def nested_def cons_ok_def
        cons_abs_def cons_lines_def cons_edit_def)
  obtain ps out b w e where r: "console_char c ?s1 = Ok (console_upd ps out b w e ?s1)"
    and o: "cons_ok (console_upd ps out b w e ?s1)"
    and a: "cons_abs (console_upd ps out b w e ?s1) = line_edit c (cons_abs s)"
    using console_char_edits [OF q(1-3) assms(5,6)] unfolding edits_def q(4) by blast
  let ?s2 = "console_upd ps out b w e s"
  let ?s3 = "?s2\<lparr>cpus := bumped (cpus s) (hart s)\<rparr>"
  have "release ConsLock (console_upd ps out b w e ?s1) = Ok ?s3"
    using h assms(4) by (simp add: console_upd_def)
  then have "consoleintr c s = Ok ?s3" using assms(4) r by (simp add: consoleintr_def)
  moreover have "cons_abs ?s3 = line_edit c (cons_abs s)" "cons_ok ?s3"
    using a o by (simp_all add: console_upd_def cons_abs_def cons_ok_def cons_lines_def cons_edit_def)
  moreover have "procs_quiet ?s3" "pr_quiet ?s3" "unlocked ConsLock ?s3"
    using assms by (auto simp: console_upd_def procs_quiet_def pr_quiet_def)
  ultimately show ?thesis by blast
qed

section \<open>A terminal at rest\<close>

definition terminal :: cstate where
  "terminal = pstate.extend (machine (Some 0) (\<lambda>_. blank_proc))
     (cstate.fields [] 1 (\<lambda>_. 0) (replicate 32 0) 0 0 (replicate 128 0) 0 0 0 True)"

lemma terminal_simps [simp]:
  "procs_quiet terminal" "pr_quiet terminal" "cons_ok terminal" "tx_ok terminal" "locks terminal = (\<lambda>_. free_lock)"
  "\<not> panicked terminal" "cons_abs terminal = ([], [])" "tx_pending terminal = []" "uart_out terminal = []"
  by (simp_all add: terminal_def machine_def pstate.defs cstate.defs procs_quiet_def pr_quiet_def cpu_ok_def
      cons_ok_def tx_ok_def ring_ok_def cons_edit_def cons_lines_def cons_abs_def tx_pending_def
      INPUT_BUF_SIZE_def UART_TX_BUF_SIZE_def)


text \<open>Typing \<open>h\<close> at an idle terminal.\<close>

theorem consoleintr_line_editor_witness:
  "\<exists>s'. consoleintr 104 terminal = Ok s' \<and> cons_abs s' = ([], [104])"
  using consoleintr_line_editor [of terminal 104]
  by (auto simp: line_edit_def Ctl_simps INPUT_BUF_SIZE_def Let_def)

section \<open>Reading a line\<close>

text \<open>
  What a read of at most \<open>k\<close> bytes takes from the complete lines: up to and including a newline, or
  up to an end-of-file mark, which is used up only when it is the first byte. \<open>None\<close> when the
  bytes run out before that.
\<close>

fun take_line :: "nat \<Rightarrow> bool \<Rightarrow> u8 list \<Rightarrow> (u8 list \<times> u8 list) option" where
  "take_line 0 first xs = Some ([], xs)"
| "take_line (Suc k) first [] = None"
| "take_line (Suc k) first (c # xs) =
     (if c = 4 then Some ([], if first then xs else c # xs)
      else if c = 10 then Some ([c], xs)
      else map_option (\<lambda>(out, rest). (c # out, rest)) (take_line k False xs))"

lemma eof_byte: "uint (c :: u8) = Ctl (CHR ''D'') \<longleftrightarrow> c = 4"
  by (simp add: Ctl_simps word_uint_eq_iff)

lemma cons_get:
  "cons_lines s = c # xs \<Longrightarrow> cons_r s \<noteq> cons_w s \<and> cons_buf s ! slot INPUT_BUF_SIZE (cons_r s) = c \<and>
     cons_lines (s\<lparr>cons_r := cons_r s + 1\<rparr>) = xs"
  using cons_ring.get [of "cons_r s" "cons_w s" "cons_buf s"]
  by (cases "cons_r s = cons_w s") (auto simp: cons_lines_def)

lemma consoleread_step:
  assumes "cons_r s \<noteq> cons_w s" and "cons_buf s ! slot INPUT_BUF_SIZE (cons_r s) = c"
  shows "consoleread_loop sw m user_dst target (Suc k) dst s =
     (if c = 4 then Ok (Some (Suc k), if Suc k < target then s else s\<lparr>cons_r := cons_r s + 1\<rparr>)
      else bnd (either_copyout user_dst dst [c] (s\<lparr>cons_r := cons_r s + 1\<rparr>)) (\<lambda>(r, s3).
        if r = -1 then Ok (Some (Suc k), s3)
        else if c = 10 then Ok (Some k, s3)
        else consoleread_loop sw m user_dst target k (dst + 1) s3))"
proof -
  have w: "cons_wait sw m s = Ok (True, s)" using assms(1) by (cases m) auto
  show ?thesis unfolding consoleread_loop.simps w bnd.simps prod.case Let_def assms(2) eof_byte by simp
qed

lemma consoleread_loop_line:
  "hart_ok s \<Longrightarrow> nested s \<Longrightarrow> k \<le> target \<Longrightarrow> take_line k (k = target) (cons_lines s) = Some (out, rest) \<Longrightarrow>
   \<exists>r. consoleread_loop sw m False target k dst s =
     Ok (Some (k - length out), s\<lparr>cons_r := r, mem := write_bytes dst out (mem s)\<rparr>) \<and>
     ring INPUT_BUF_SIZE (cons_buf s) r (cons_w s) = rest \<and> length out \<le> k"
proof (induction k arbitrary: s dst out)
  case 0
  then have "out = []" "rest = cons_lines s" by auto
  then show ?case by (intro exI [of _ "cons_r s"]) (simp add: cons_lines_def)
next
  case (Suc k)
  from Suc.prems(4) obtain c xs where l: "cons_lines s = c # xs" by (cases "cons_lines s") auto
  let ?s1 = "s\<lparr>cons_r := cons_r s + 1\<rparr>"
  from cons_get [OF l] have g: "cons_r s \<noteq> cons_w s" "cons_buf s ! slot INPUT_BUF_SIZE (cons_r s) = c" "cons_lines ?s1 = xs"
    by auto
  note step = consoleread_step [OF g(1,2), of sw m False target k dst]
  have xs: "ring INPUT_BUF_SIZE (cons_buf s) (cons_r s + 1) (cons_w s) = xs" using g(3) by (simp add: cons_lines_def)
  show ?case
  proof (cases "c = 4")
    case True
    then have r: "out = []" "rest = (if Suc k = target then xs else c # xs)" using Suc.prems(4) l by auto
    have "consoleread_loop sw m False target (Suc k) dst s =
        Ok (Some (Suc k), if Suc k < target then s else ?s1)"
      unfolding step using True by (rule if_P)
    note c = this
    show ?thesis
    proof (cases "Suc k < target")
      case True
      then show ?thesis using c r l by (intro exI [of _ "cons_r s"]) (simp add: cons_lines_def)
    next
      case False
      then show ?thesis using c r xs Suc.prems(3) by (intro exI [of _ "cons_r s + 1"]) simp
    qed
  next
    case False
    let ?s2 = "?s1\<lparr>mem := write_bytes dst [c] (mem s)\<rparr>"
    have e: "either_copyout False dst [c] ?s1 = Ok (0, ?s2)"
      using Suc.prems(1,2) by (simp add: either_copyout_def nested_def)
    show ?thesis
    proof (cases "c = 10")
      case True
      then have r: "out = [c]" "rest = xs" using Suc.prems(4) l False by auto
      have "consoleread_loop sw m False target (Suc k) dst s = Ok (Some k, ?s2)"
        unfolding step if_not_P [OF False] e bnd.simps prod.case using True by simp
      then show ?thesis using r xs by (intro exI [of _ "cons_r s + 1"]) (simp add: fun_upd_def)
    next
      case nl: False
      from Suc.prems(4) l False nl obtain out' where o: "take_line k False xs = Some (out', rest)" "out = c # out'"
        by auto
      have st: "consoleread_loop sw m False target (Suc k) dst s = consoleread_loop sw m False target k (dst + 1) ?s2"
        unfolding step if_not_P [OF False] e bnd.simps prod.case using nl by simp
      have ex: "\<exists>r. consoleread_loop sw m False target k (dst + 1) ?s2 =
          Ok (Some (k - length out'), ?s2\<lparr>cons_r := r, mem := write_bytes (dst + 1) out' (mem ?s2)\<rparr>) \<and>
          ring INPUT_BUF_SIZE (cons_buf ?s2) r (cons_w ?s2) = rest \<and> length out' \<le> k"
      proof (rule Suc.IH)
        have "cons_lines ?s2 = xs" using xs by (simp add: cons_lines_def)
        then show "take_line k (k = target) (cons_lines ?s2) = Some (out', rest)" using o(1) Suc.prems(3) by simp
      qed (use Suc.prems in \<open>simp_all add: nested_def\<close>)
      obtain r where "consoleread_loop sw m False target k (dst + 1) ?s2 =
          Ok (Some (k - length out'), ?s2\<lparr>cons_r := r, mem := write_bytes (dst + 1) out' (mem ?s2)\<rparr>)"
        "ring INPUT_BUF_SIZE (cons_buf s) r (cons_w s) = rest" "length out' \<le> k" using ex by auto
      then show ?thesis using o(2) st by (intro exI [of _ r]) (simp add: fun_upd_def)
    qed
  qed
qed


text \<open>A terminal where \<open>ok\<close> and a newline have been typed.\<close>

definition typed :: cstate where
  "typed = terminal\<lparr>cons_buf := [111, 107, 10] @ replicate 125 0, cons_w := 3, cons_e := 3\<rparr>"


end
