(* ===== verification/Pipe.thy ===== *)
theory Pipe
  imports Console Sample
begin

text \<open>
  kernel/pipe.c: pipes as bounded byte queues between processes. A pipe lives in a page of its own
  and is named by the address of that page; its fields are a record. \<open>pipealloc\<close>, which also
  allocates two open files, is with the files.
\<close>

section \<open>State and operations\<close>

definition PIPESIZE :: nat where "PIPESIZE = 512"

record pipe =
  data :: "u8 list"
  nread :: u32
  nwrite :: u32
  readopen :: bool
  writeopen :: bool

record pipestate = cstate +
  pipes :: "u64 \<Rightarrow> pipe"

definition upd_pipe :: "u64 \<Rightarrow> (pipe \<Rightarrow> pipe) \<Rightarrow> 'a pipestate_scheme \<Rightarrow> 'a pipestate_scheme" where
  "upd_pipe pi f s = s\<lparr>pipes := (pipes s)(pi := f (pipes s pi))\<rparr>"

definition pipeclose :: "u64 \<Rightarrow> bool \<Rightarrow> 'a pipestate_scheme \<Rightarrow> ('a pipestate_scheme) res" where
  "pipeclose pi writable s =
     bnd (acquire (PipeLock pi) s) (\<lambda>s1.
     bnd (if writable then wakeup (PipeReadCh pi) (upd_pipe pi (\<lambda>p. p\<lparr>writeopen := False\<rparr>) s1)
          else wakeup (PipeWriteCh pi) (upd_pipe pi (\<lambda>p. p\<lparr>readopen := False\<rparr>) s1)) (\<lambda>s2.
     if \<not> readopen (pipes s2 pi) \<and> \<not> writeopen (pipes s2 pi)
     then bnd (release (PipeLock pi) s2) (kfree pi)
     else release (PipeLock pi) s2))"

text \<open>
  \<open>k\<close> bytes are still to be written, \<open>i\<close> have been; \<open>m\<close> bounds the number of times the writer
  may sleep (more is \<open>Asleep\<close>). \<open>None\<close> when the read end is closed or the process killed,
  with the lock released.
\<close>

fun pipewrite_loop :: "('a pipestate_scheme \<Rightarrow> ('a pipestate_scheme) res) \<Rightarrow> nat \<Rightarrow> u64 \<Rightarrow> nat \<Rightarrow> u64 \<Rightarrow> nat \<Rightarrow> nat \<Rightarrow>
    'a pipestate_scheme \<Rightarrow> (nat option \<times> 'a pipestate_scheme) res" where
  "pipewrite_loop sw m pi pr addr 0 i s = Ok (Some i, s)"
| "pipewrite_loop sw m pi pr addr (Suc k) i s =
     bnd (if \<not> readopen (pipes s pi) then Ok (True, s)
          else bnd (killed pr s) (\<lambda>(r, s1). Ok (r \<noteq> 0, s1))) (\<lambda>(stop, s1).
     if stop then bnd (release (PipeLock pi) s1) (\<lambda>s2. Ok (None, s2))
     else if nwrite (pipes s1 pi) = nread (pipes s1 pi) + of_nat PIPESIZE then
       bnd (wakeup (PipeReadCh pi) s1) (\<lambda>s2.
         (case m of 0 \<Rightarrow> Err Asleep
          | Suc m' \<Rightarrow> bnd (sleep sw (PipeWriteCh pi) (PipeLock pi) s2)
              (pipewrite_loop sw m' pi pr addr (Suc k) i)))
     else bnd (copyin (p_pagetable (procs s1 pr)) (addr + of_nat i) 1 s1) (\<lambda>((r, bs), s2).
       if r = -1 then Ok (Some i, s2)
       else pipewrite_loop sw m pi pr addr k (i + 1)
              (upd_pipe pi (\<lambda>p. p\<lparr>data := (data p)[slot PIPESIZE (nwrite p) := hd bs], nwrite := nwrite p + 1\<rparr>) s2)))"

definition pipewrite :: "('a pipestate_scheme \<Rightarrow> ('a pipestate_scheme) res) \<Rightarrow> nat \<Rightarrow> u64 \<Rightarrow> u64 \<Rightarrow> int \<Rightarrow>
    'a pipestate_scheme \<Rightarrow> (int \<times> 'a pipestate_scheme) res" where
  "pipewrite sw m pi addr n s =
     bnd (myproc s) (\<lambda>(me, s0).
     case me of None \<Rightarrow> Err (Undef ''pipewrite: no process'')
     | Some pr \<Rightarrow>
       bnd (acquire (PipeLock pi) s0) (\<lambda>s1.
       bnd (pipewrite_loop sw m pi pr addr (nat n) 0 s1) (\<lambda>(done, s2).
         case done of None \<Rightarrow> Ok (-1, s2)
         | Some i \<Rightarrow> bnd (wakeup (PipeReadCh pi) s2) (\<lambda>s3.
             bnd (release (PipeLock pi) s3) (\<lambda>s4. Ok (int i, s4))))))"

primrec piperead_wait :: "('a pipestate_scheme \<Rightarrow> ('a pipestate_scheme) res) \<Rightarrow> nat \<Rightarrow> u64 \<Rightarrow> nat \<Rightarrow>
    'a pipestate_scheme \<Rightarrow> (bool \<times> 'a pipestate_scheme) res" where
  "piperead_wait sw 0 pi pr s =
     (if nread (pipes s pi) = nwrite (pipes s pi) \<and> writeopen (pipes s pi) then Err Asleep else Ok (True, s))"
| "piperead_wait sw (Suc m) pi pr s =
     (if nread (pipes s pi) = nwrite (pipes s pi) \<and> writeopen (pipes s pi) then
        bnd (killed pr s) (\<lambda>(r, s1).
          if r \<noteq> 0 then bnd (release (PipeLock pi) s1) (\<lambda>s2. Ok (False, s2))
          else bnd (sleep sw (PipeReadCh pi) (PipeLock pi) s1) (piperead_wait sw m pi pr))
      else Ok (True, s))"

fun piperead_loop :: "u64 \<Rightarrow> nat \<Rightarrow> u64 \<Rightarrow> nat \<Rightarrow> nat \<Rightarrow> 'a pipestate_scheme \<Rightarrow> (nat \<times> 'a pipestate_scheme) res" where
  "piperead_loop pi pr addr 0 i s = Ok (i, s)"
| "piperead_loop pi pr addr (Suc k) i s =
     (if nread (pipes s pi) = nwrite (pipes s pi) then Ok (i, s)
      else let ch = data (pipes s pi) ! slot PIPESIZE (nread (pipes s pi));
               s1 = upd_pipe pi (\<lambda>p. p\<lparr>nread := nread p + 1\<rparr>) s
           in bnd (copyout (p_pagetable (procs s1 pr)) (addr + of_nat i) [ch] s1) (\<lambda>(r, s2).
                if r = -1 then Ok (i, s2) else piperead_loop pi pr addr k (i + 1) s2))"

definition piperead :: "('a pipestate_scheme \<Rightarrow> ('a pipestate_scheme) res) \<Rightarrow> nat \<Rightarrow> u64 \<Rightarrow> u64 \<Rightarrow> int \<Rightarrow>
    'a pipestate_scheme \<Rightarrow> (int \<times> 'a pipestate_scheme) res" where
  "piperead sw m pi addr n s =
     bnd (myproc s) (\<lambda>(me, s0).
     case me of None \<Rightarrow> Err (Undef ''piperead: no process'')
     | Some pr \<Rightarrow>
       bnd (acquire (PipeLock pi) s0) (\<lambda>s1.
       bnd (piperead_wait sw m pi pr s1) (\<lambda>(alive, s2).
         if \<not> alive then Ok (-1, s2)
         else bnd (piperead_loop pi pr addr (nat n) 0 s2) (\<lambda>(i, s3).
           bnd (wakeup (PipeWriteCh pi) s3) (\<lambda>s4.
           bnd (release (PipeLock pi) s4) (\<lambda>s5. Ok (int i, s5)))))))"

section \<open>The queue\<close>

interpretation pipe_ring: ring_buffer PIPESIZE "TYPE(32)"
  by unfold_locales (simp_all add: PIPESIZE_def)

definition pipe_bytes :: "pipe \<Rightarrow> u8 list" where
  "pipe_bytes p = ring PIPESIZE (data p) (nread p) (nwrite p)"

definition pipe_ok :: "pipe \<Rightarrow> bool" where
  "pipe_ok p \<longleftrightarrow> ring_ok PIPESIZE (data p) (nread p) (nwrite p)"


text \<open>A byte of user memory: reading it depends on memory alone and changes nothing.\<close>

definition user_byte :: "u64 \<Rightarrow> u64 \<Rightarrow> 'a kstate_scheme \<Rightarrow> u8 \<Rightarrow> bool" where
  "user_byte pt va s b \<longleftrightarrow> (\<exists>pa. walkaddr pt (PGROUNDDOWN va) s = Ok (pa, s) \<and> pa \<noteq> 0 \<and>
     b = mem s (pa + (va - PGROUNDDOWN va)))"

lemma walk_levels_read:
  "mem s' = mem s \<Longrightarrow> \<exists>e. walk_levels l pt va False s = Ok (e, s) \<and> walk_levels l pt va False s' = Ok (e, s')"
  by (induction l arbitrary: pt) (auto simp: Let_def load64_def)

lemma walkaddr_read:
  assumes "mem s' = mem s"
  shows "\<exists>e. walkaddr pt va s = Ok (e, s) \<and> walkaddr pt va s' = Ok (e, s')"
proof (cases "va \<ge> MAXVA")
  case False
  from walk_levels_read [OF assms, of 2 pt va] obtain e where
    "walk_levels 2 pt va False s = Ok (e, s)" "walk_levels 2 pt va False s' = Ok (e, s')" by blast
  then show ?thesis using False assms by (simp add: walkaddr_def walk_def load64_def)
qed (simp add: walkaddr_def)

lemma user_byte_mem: "mem s' = mem s \<Longrightarrow> user_byte pt va s b \<Longrightarrow> user_byte pt va s' b"
  using walkaddr_read [of s' s pt "PGROUNDDOWN va"] by (auto simp: user_byte_def)

lemma copyin_user_byte:
  assumes "user_byte pt va s b"
  shows "copyin pt va 1 s = Ok ((0, [b]), s)"
proof -
  from assms obtain pa where w: "walkaddr pt (PGROUNDDOWN va) s = Ok (pa, s)" "pa \<noteq> 0"
    and b: "b = mem s (pa + (va - PGROUNDDOWN va))" unfolding user_byte_def by blast
  have n: "min (4096 - unat (va - PGROUNDDOWN va)) (Suc 0) = Suc 0" using page_off_less [of va] by simp
  have z: "copyin pt x 0 s = Ok ((0, []), s)" for x by (subst copyin.simps) simp
  show ?thesis by (subst copyin.simps) (simp add: Let_def w n z b read_bytes_def)
qed

lemma pipe_put:
  assumes "pipe_ok p" and "unat (nwrite p - nread p) < PIPESIZE"
  shows "pipe_bytes (p\<lparr>data := (data p)[slot PIPESIZE (nwrite p) := b], nwrite := nwrite p + 1\<rparr>) = pipe_bytes p @ [b]"
    and "pipe_ok (p\<lparr>data := (data p)[slot PIPESIZE (nwrite p) := b], nwrite := nwrite p + 1\<rparr>)"
  using pipe_ring.put [OF assms(1) [unfolded pipe_ok_def] assms(2), of b] by (simp_all add: pipe_bytes_def pipe_ok_def)

definition grown :: "u8 list \<Rightarrow> pipe \<Rightarrow> pipe \<Rightarrow> bool" where
  "grown bs p p' \<longleftrightarrow> pipe_ok p' \<and> pipe_bytes p' = pipe_bytes p @ bs \<and> nread p' = nread p \<and>
     readopen p' = readopen p \<and> writeopen p' = writeopen p"

lemma pipewrite_loop_fits:
  "hart_ok s \<Longrightarrow> nested s \<Longrightarrow> unlocked (ProcLock pr) s \<Longrightarrow> p_killed (procs s pr) = 0 \<Longrightarrow> readopen (pipes s pi) \<Longrightarrow>
   pipe_ok (pipes s pi) \<Longrightarrow> length (pipe_bytes (pipes s pi)) + length bs \<le> PIPESIZE \<Longrightarrow>
   \<forall>j<length bs. user_byte (p_pagetable (procs s pr)) (addr + of_nat (i + j)) s (bs ! j) \<Longrightarrow>
   \<exists>p'. pipewrite_loop sw m pi pr addr (length bs) i s = Ok (Some (i + length bs), s\<lparr>pipes := (pipes s)(pi := p')\<rparr>) \<and>
     grown bs (pipes s pi) p'"
proof (induction bs arbitrary: i s)
  case Nil
  then show ?case by (intro exI [of _ "pipes s pi"]) (simp add: grown_def)
next
  case (Cons b bs)
  let ?p = "pipes s pi"
  let ?p1 = "?p\<lparr>data := (data ?p)[slot PIPESIZE (nwrite ?p) := b], nwrite := nwrite ?p + 1\<rparr>"
  let ?s1 = "s\<lparr>pipes := (pipes s)(pi := ?p1)\<rparr>"
  have room: "unat (nwrite ?p - nread ?p) < PIPESIZE" using Cons.prems(7) by (simp add: pipe_bytes_def)
  have nf: "nwrite ?p \<noteq> nread ?p + of_nat PIPESIZE" unfolding pipe_ring.full_iff using room by simp
  have k: "killed pr s = Ok (0, s)"
    using Cons.prems(1-4) by (simp add: killed_def nested_def Let_def)
  have b: "copyin (p_pagetable (procs s pr)) (addr + of_nat i) 1 s = Ok ((0, [b]), s)"
    using Cons.prems(8) by (intro copyin_user_byte) auto
  have step: "pipewrite_loop sw m pi pr addr (length (b # bs)) i s = pipewrite_loop sw m pi pr addr (length bs) (i + 1) ?s1"
    using Cons.prems(5) k nf b by (simp add: upd_pipe_def)
  note pp = pipe_put [OF Cons.prems(6) room, of b]
  have "\<exists>p'. pipewrite_loop sw m pi pr addr (length bs) (i + 1) ?s1 =
      Ok (Some (i + 1 + length bs), ?s1\<lparr>pipes := (pipes ?s1)(pi := p')\<rparr>) \<and> grown bs (pipes ?s1 pi) p'"
  proof (rule Cons.IH)
    show "\<forall>j<length bs. user_byte (p_pagetable (procs ?s1 pr)) (addr + of_nat (i + 1 + j)) ?s1 (bs ! j)"
    proof (intro allI impI)
      fix j assume "j < length bs"
      then have "user_byte (p_pagetable (procs s pr)) (addr + of_nat (i + Suc j)) s ((b # bs) ! Suc j)"
        using Cons.prems(8) by (metis Suc_less_eq length_Cons)
      then show "user_byte (p_pagetable (procs ?s1 pr)) (addr + of_nat (i + 1 + j)) ?s1 (bs ! j)"
        by (intro user_byte_mem [of ?s1 s]) simp_all
    qed
  qed (use Cons.prems pp in \<open>simp_all add: nested_def\<close>)
  then obtain p' where r: "pipewrite_loop sw m pi pr addr (length bs) (i + 1) ?s1 =
      Ok (Some (i + 1 + length bs), ?s1\<lparr>pipes := (pipes ?s1)(pi := p')\<rparr>)" and g: "grown bs ?p1 p'" by auto
  have "grown (b # bs) ?p p'" using g pp(1) by (simp add: grown_def)
  moreover have "?s1\<lparr>pipes := (pipes ?s1)(pi := p')\<rparr> = s\<lparr>pipes := (pipes s)(pi := p')\<rparr>"
    "i + 1 + length bs = i + length (b # bs)" by simp_all
  ultimately show ?case using step r by metis
qed

text \<open>C29: a write of bytes that fit into a pipe whose read end is open appends exactly those bytes
  of the writer's memory to the queue, in order, and returns their number.\<close>

theorem pipewrite_appends:
  assumes "procs_quiet s" and "unlocked (PipeLock pi) s" and "cproc (cpus s (hart s)) = Some pr" and "pr < NPROC"
    and "p_killed (procs s pr) = 0" and "readopen (pipes s pi)" and "pipe_ok (pipes s pi)"
    and "length (pipe_bytes (pipes s pi)) + length bs \<le> PIPESIZE"
    and "\<forall>j<length bs. user_byte (p_pagetable (procs s pr)) (addr + of_nat j) s (bs ! j)"
  shows "\<exists>s'. pipewrite sw m pi addr (int (length bs)) s = Ok (int (length bs), s') \<and>
    pipe_ok (pipes s' pi) \<and> pipe_bytes (pipes s' pi) = pipe_bytes (pipes s pi) @ bs \<and> unlocked (PipeLock pi) s'"
proof -
  have h: "hart_ok s" "unlocked (ProcLock pr) s" using assms(1,4) by (auto simp: procs_quiet_def)
  let ?s1 = "s\<lparr>cpus := pushed (cpus s) (hart s), locks := (locks s)(PipeLock pi := held_by (hart s))\<rparr>"
  have u: "\<forall>j<length bs. user_byte (p_pagetable (procs ?s1 pr)) (addr + of_nat (0 + j)) ?s1 (bs ! j)"
    using assms(9) user_byte_mem [of ?s1 s] by simp
  have "\<exists>p'. pipewrite_loop sw m pi pr addr (length bs) 0 ?s1 = Ok (Some (0 + length bs), ?s1\<lparr>pipes := (pipes ?s1)(pi := p')\<rparr>) \<and>
     grown bs (pipes ?s1 pi) p'"
    by (rule pipewrite_loop_fits [OF _ _ _ _ _ _ _ u]) (use assms h in \<open>simp_all add: nested_def\<close>)
  then obtain p' where l: "pipewrite_loop sw m pi pr addr (length bs) 0 ?s1 =
      Ok (Some (length bs), ?s1\<lparr>pipes := (pipes s)(pi := p')\<rparr>)" and g: "grown bs (pipes s pi) p'" by auto
  let ?s2 = "?s1\<lparr>pipes := (pipes s)(pi := p')\<rparr>"
  have "procs_quiet ?s2" "nested ?s2" using assms(1) h by (auto simp: procs_quiet_def nested_def)
  from wakeup_nested [OF this, of "PipeReadCh pi"] obtain ps where w: "wakeup (PipeReadCh pi) ?s2 = Ok (?s2\<lparr>procs := ps\<rparr>)" by blast
  let ?s3 = "s\<lparr>pipes := (pipes s)(pi := p'), procs := ps, cpus := bumped (cpus s) (hart s)\<rparr>"
  have "pipewrite sw m pi addr (int (length bs)) s = Ok (int (length bs), ?s3)"
    using assms(2,3) h l w by (simp add: pipewrite_def)
  then show ?thesis using g assms(2) by (simp add: grown_def)
qed

text \<open>Reading from a pipe that is empty and whose write end is closed returns 0 at once, the
  end of the file: it does not sleep and changes neither the queue nor memory.\<close>

theorem piperead_eof:
  assumes "procs_quiet s" and "unlocked (PipeLock pi) s" and "cproc (cpus s (hart s)) = Some pr"
    and "\<not> writeopen (pipes s pi)" and "pipe_bytes (pipes s pi) = []"
  shows "\<exists>s'. piperead sw m pi addr n s = Ok (0, s') \<and> pipes s' = pipes s \<and> mem s' = mem s"
proof -
  have h: "hart_ok s" using assms(1) by (simp add: procs_quiet_def)
  have e: "nread (pipes s pi) = nwrite (pipes s pi)" using assms(5) by (simp add: pipe_bytes_def)
  let ?s1 = "s\<lparr>cpus := pushed (cpus s) (hart s), locks := (locks s)(PipeLock pi := held_by (hart s))\<rparr>"
  have w: "piperead_wait sw m pi pr ?s1 = Ok (True, ?s1)" using assms(4) by (cases m) simp_all
  have l: "piperead_loop pi pr addr (nat n) 0 ?s1 = Ok (0, ?s1)" using e by (cases "nat n") simp_all
  have "procs_quiet ?s1" "nested ?s1" using assms(1) h by (auto simp: procs_quiet_def nested_def)
  from wakeup_nested [OF this, of "PipeWriteCh pi"] obtain ps where "wakeup (PipeWriteCh pi) ?s1 = Ok (?s1\<lparr>procs := ps\<rparr>)" by blast
  then have "piperead sw m pi addr n s = Ok (0, s\<lparr>procs := ps, cpus := bumped (cpus s) (hart s)\<rparr>)"
    using assms(2,3) h w l by (simp add: piperead_def)
  then show ?thesis by simp
qed

text \<open>An empty pipe at address \<open>0x90000000\<close> with the given ends open.\<close>

definition empty_pipe :: "bool \<Rightarrow> bool \<Rightarrow> pipestate" where
  "empty_pipe r w = cstate.extend terminal (pipestate.fields
     (\<lambda>_. \<lparr>data = replicate 512 0, nread = 0, nwrite = 0, readopen = r, writeopen = w\<rparr>))"

lemma empty_pipe_simps [simp]:
  "procs_quiet (empty_pipe r w)" "locks (empty_pipe r w) = (\<lambda>_. free_lock)" "cproc (cpus (empty_pipe r w) (hart (empty_pipe r w))) = Some 0"
  "readopen (pipes (empty_pipe r w) pi) = r" "writeopen (pipes (empty_pipe r w) pi) = w" "pipe_ok (pipes (empty_pipe r w) pi)"
  "pipe_bytes (pipes (empty_pipe r w) pi) = []" "p_killed (procs (empty_pipe r w) 0) = 0"
  by (simp_all add: empty_pipe_def terminal_def machine_def pstate.defs cstate.defs pipestate.defs procs_quiet_def cpu_ok_def
      pipe_ok_def pipe_bytes_def ring_ok_def PIPESIZE_def blank_proc_def)

text \<open>A process whose page 0 is the page at \<open>0x80014000\<close> of the sample machine writes its first byte.\<close>

definition writer :: pipestate where
  "writer = (empty_pipe True True)\<lparr>mem := mem sample, procs := (\<lambda>_. blank_proc\<lparr>p_pagetable := 0x80010000\<rparr>)\<rparr>"

lemma writer_byte: "user_byte 0x80010000 0 writer (mem sample 0x80014000)"
proof -
  have z: "PX l 0 = 0" for l by (simp add: PX_def)
  have m: "mem writer = mem sample" by (simp add: writer_def)
  have "walk_levels 2 0x80010000 0 False writer = Ok (0x80012000, writer)"
    unfolding numeral_2_eq_2
    by (simp add: Let_def Vm.slot_def z load64_def m sample_ld64 sample_cells_def aligned_unat sample_ptes PTE_V_def)
  then have "walkaddr 0x80010000 0 writer = Ok (0x80014000, writer)"
    by (simp add: walkaddr_def walk_def MAXVA_def load64_def m sample_ld64 sample_cells_def aligned_unat
        sample_ptes PTE_V_def PTE_U_def)
  then show ?thesis by (simp add: user_byte_def PGROUNDDOWN_def m)
qed

theorem pipewrite_appends_witness:
  "\<exists>s'. pipewrite Ok 0 0x90000000 0 1 writer = Ok (1, s') \<and> pipe_bytes (pipes s' 0x90000000) = [mem sample 0x80014000]"
proof -
  have w: "procs_quiet writer" "locks writer = (\<lambda>_. free_lock)" "cproc (cpus writer (hart writer)) = Some 0"
    "procs writer 0 = blank_proc\<lparr>p_pagetable := 0x80010000\<rparr>" "pipes writer = pipes (empty_pipe True True)"
    using empty_pipe_simps(1,2,3) [of True True] by (simp_all add: writer_def procs_quiet_def)
  then show ?thesis
    using pipewrite_appends [where s = writer and pi = "0x90000000" and pr = 0 and bs = "[mem sample 0x80014000]"
      and addr = 0 and sw = Ok and m = 0] writer_byte
    by (auto simp: PIPESIZE_def NPROC_def blank_proc_def)
qed

theorem piperead_eof_witness:
  "\<exists>s'. piperead Ok 0 0x90000000 0x1000 100 (empty_pipe True False) = Ok (0, s')"
  using piperead_eof [where s = "empty_pipe True False" and pi = "0x90000000" and pr = 0 and sw = Ok and m = 0
    and addr = "0x1000" and n = 100] by auto

end
