(* ===== verification/Sysproc.thy ===== *)
theory Sysproc
  imports Procspec
begin

unbundle bit_operations_syntax

text \<open>
  The argument fetching of kernel/syscall.c, the process system calls of kernel/sysproc.c (without
  \<open>sys_fork\<close> and \<open>sys_exit\<close>, which reach files), and the clock interrupt of kernel/trap.c. A system
  call returns the 64-bit value stored in \<open>a0\<close>.
\<close>

section \<open>Arguments\<close>

definition current :: "'a pstate_scheme \<Rightarrow> (nat \<times> 'a pstate_scheme) res" where
  "current s = bnd (myproc s) (\<lambda>(me, s1). case me of None \<Rightarrow> Err (Undef ''null process'') | Some p \<Rightarrow> Ok (p, s1))"

definition le64 :: "u8 list \<Rightarrow> u64" where
  "le64 bs = ld64 (\<lambda>a. bs ! unat a) 0"

text \<open>The second component is \<open>*ip\<close>, when it was written.\<close>

definition fetchaddr :: "u64 \<Rightarrow> 'a pstate_scheme \<Rightarrow> ((int \<times> u64 option) \<times> 'a pstate_scheme) res" where
  "fetchaddr addr s =
     bnd (current s) (\<lambda>(p, s1).
       let sz = p_sz (procs s1 p)
       in if addr \<ge> sz \<or> addr + 8 > sz then Ok ((-1, None), s1)
          else bnd (copyin (p_pagetable (procs s1 p)) addr 8 s1) (\<lambda>((r, bs), s2).
            if r \<noteq> 0 then Ok ((-1, None), s2) else Ok ((0, Some (le64 bs)), s2)))"

text \<open>\<open>strlen\<close> of the buffer, and the buffer.\<close>

definition fetchstr :: "u64 \<Rightarrow> int \<Rightarrow> 'a pstate_scheme \<Rightarrow> ((int \<times> u8 list) \<times> 'a pstate_scheme) res" where
  "fetchstr addr mx s =
     bnd (current s) (\<lambda>(p, s1).
     bnd (copyinstr (p_pagetable (procs s1 p)) addr (nat mx) s1) (\<lambda>((r, bs), s2).
       if r < 0 then Ok ((-1, bs), s2)
       else Ok ((int (length (takeWhile (\<lambda>b. b \<noteq> 0) bs)), bs), s2)))"

definition argraw :: "int \<Rightarrow> 'a pstate_scheme \<Rightarrow> (u64 \<times> 'a pstate_scheme) res" where
  "argraw n s =
     bnd (current s) (\<lambda>(p, s1).
       if 0 \<le> n \<and> n \<le> 5 then Ok (tf_get (TfA (nat n)) p s1, s1) else Err (Panic ''argraw''))"

definition argint :: "int \<Rightarrow> 'a pstate_scheme \<Rightarrow> (int \<times> 'a pstate_scheme) res" where
  "argint n s = bnd (argraw n s) (\<lambda>(v, s1). Ok (sint (ucast v :: u32), s1))"

definition argaddr :: "int \<Rightarrow> 'a pstate_scheme \<Rightarrow> (u64 \<times> 'a pstate_scheme) res" where
  "argaddr n s = argraw n s"

definition argstr :: "int \<Rightarrow> int \<Rightarrow> 'a pstate_scheme \<Rightarrow> ((int \<times> u8 list) \<times> 'a pstate_scheme) res" where
  "argstr n mx s = bnd (argaddr n s) (\<lambda>(addr, s1). fetchstr addr mx s1)"

section \<open>System calls\<close>

definition sys_getpid :: "'a pstate_scheme \<Rightarrow> (u64 \<times> 'a pstate_scheme) res" where
  "sys_getpid s = bnd (current s) (\<lambda>(p, s1). Ok (of_int (p_pid (procs s1 p)), s1))"

definition sys_wait :: "('a pstate_scheme \<Rightarrow> ('a pstate_scheme) res) \<Rightarrow> nat \<Rightarrow> 'a pstate_scheme \<Rightarrow> (u64 \<times> 'a pstate_scheme) res" where
  "sys_wait sw m s = bnd (argaddr 0 s) (\<lambda>(a, s1). bnd (wait sw m a s1) (\<lambda>(r, s2). Ok (of_int r, s2)))"

definition sys_sbrk :: "'a pstate_scheme \<Rightarrow> (u64 \<times> 'a pstate_scheme) res" where
  "sys_sbrk s =
     bnd (argint 0 s) (\<lambda>(n, s1).
     bnd (current s1) (\<lambda>(p, s2).
       let addr = p_sz (procs s2 p)
       in bnd (growproc n s2) (\<lambda>(r, s3). if r < 0 then Ok (-1, s3) else Ok (addr, s3))))"

text \<open>
  \<open>ticks - ticks0 < n\<close> compares unsigned values: a negative \<open>n\<close> waits for almost
  \<open>2^32\<close> ticks. \<open>m\<close> bounds the number of times the process is put to sleep.
\<close>

primrec sys_sleep_loop :: "('a pstate_scheme \<Rightarrow> ('a pstate_scheme) res) \<Rightarrow> nat \<Rightarrow> u32 \<Rightarrow> int \<Rightarrow> 'a pstate_scheme \<Rightarrow>
    (u64 \<times> 'a pstate_scheme) res" where
  "sys_sleep_loop sw 0 ticks0 n s =
     (if ticks s - ticks0 < of_int n then Err Asleep
      else bnd (release TicksLock s) (\<lambda>s1. Ok (0, s1)))"
| "sys_sleep_loop sw (Suc m) ticks0 n s =
     (if ticks s - ticks0 < of_int n then
        bnd (current s) (\<lambda>(p, s1).
        bnd (killed p s1) (\<lambda>(k, s2).
          if k \<noteq> 0 then bnd (release TicksLock s2) (\<lambda>s3. Ok (-1, s3))
          else bnd (sleep sw TicksCh TicksLock s2) (sys_sleep_loop sw m ticks0 n)))
      else bnd (release TicksLock s) (\<lambda>s1. Ok (0, s1)))"

definition sys_sleep :: "('a pstate_scheme \<Rightarrow> ('a pstate_scheme) res) \<Rightarrow> nat \<Rightarrow> 'a pstate_scheme \<Rightarrow> (u64 \<times> 'a pstate_scheme) res" where
  "sys_sleep sw m s =
     bnd (argint 0 s) (\<lambda>(n, s1).
     bnd (acquire TicksLock s1) (\<lambda>s2. sys_sleep_loop sw m (ticks s2) n s2))"

definition sys_kill :: "'a pstate_scheme \<Rightarrow> (u64 \<times> 'a pstate_scheme) res" where
  "sys_kill s = bnd (argint 0 s) (\<lambda>(pid, s1). bnd (kill pid s1) (\<lambda>(r, s2). Ok (of_int r, s2)))"

definition sys_uptime :: "'a pstate_scheme \<Rightarrow> (u64 \<times> 'a pstate_scheme) res" where
  "sys_uptime s =
     bnd (acquire TicksLock s) (\<lambda>s1.
       let xticks = ticks s1 in bnd (release TicksLock s1) (\<lambda>s2. Ok (ucast xticks, s2)))"

text \<open>
  \<open>junk\<close> is what the uninitialised \<open>wtime\<close> and \<open>rtime\<close> hold when \<open>waitx\<close> returns without storing
  them; they are copied out all the same.
\<close>

definition sys_waitx :: "('a pstate_scheme \<Rightarrow> ('a pstate_scheme) res) \<Rightarrow> nat \<Rightarrow> u32 \<times> u32 \<Rightarrow> 'a pstate_scheme \<Rightarrow>
    (u64 \<times> 'a pstate_scheme) res" where
  "sys_waitx sw m junk s =
     bnd (argaddr 0 s) (\<lambda>(addr, s1).
     bnd (argaddr 1 s1) (\<lambda>(addr1, s2).
     bnd (argaddr 2 s2) (\<lambda>(addr2, s3).
     bnd (waitx sw m addr s3) (\<lambda>((ret, times), s4).
     let (wtime, rtime) = (case times of None \<Rightarrow> junk | Some t \<Rightarrow> t)
     in bnd (current s4) (\<lambda>(p, s5).
        bnd (copyout (p_pagetable (procs s5 p)) addr1 (int_bytes (uint wtime)) s5) (\<lambda>(r, s6).
          if r < 0 then Ok (-1, s6)
          else bnd (copyout (p_pagetable (procs s6 p)) addr2 (int_bytes (uint rtime)) s6) (\<lambda>(r, s7).
            if r < 0 then Ok (-1, s7) else Ok (of_int ret, s7))))))))"

definition change_priority :: "('a pstate_scheme \<Rightarrow> ('a pstate_scheme) res) \<Rightarrow> int \<Rightarrow> nat \<Rightarrow> 'a pstate_scheme \<Rightarrow>
    (int \<times> 'a pstate_scheme) res" where
  "change_priority sw new prc s =
     (let s1 = upd_proc prc (\<lambda>pr. pr\<lparr>p_running_time := 0, p_sleep_time := 0\<rparr>) s;
          op = p_st_priority (procs s1 prc);
          s2 = upd_proc prc (\<lambda>pr. pr\<lparr>p_st_priority := new\<rparr>) s1
      in bnd (release (ProcLock prc) s2) (\<lambda>s3.
         bnd (if new < op then yield sw s3 else Ok s3) (\<lambda>s4. Ok (op, s4))))"

definition check_valid_newp :: "int \<Rightarrow> bool" where
  "check_valid_newp new \<longleftrightarrow> new < 0 \<or> new > 100"

definition check_valid_pid :: "int \<Rightarrow> bool" where
  "check_valid_pid pid \<longleftrightarrow> pid < 0"

text \<open>The kernel built with PBS; without it the call returns -1.\<close>

definition sys_setpriority :: "('a pstate_scheme \<Rightarrow> ('a pstate_scheme) res) \<Rightarrow> 'a pstate_scheme \<Rightarrow> (u64 \<times> 'a pstate_scheme) res" where
  "sys_setpriority sw s =
     bnd (argint 0 s) (\<lambda>(pid, s1).
     bnd (argint 1 s1) (\<lambda>(new, s2).
       if check_valid_newp new \<or> check_valid_pid pid then Ok (-1, s2)
       else (case find (\<lambda>p. p_pid (procs s2 p) = pid) [0..<NPROC] of
               None \<Rightarrow> Ok (-1, s2)
             | Some prc \<Rightarrow> bnd (acquire (ProcLock prc) s2) (\<lambda>s3.
                 bnd (change_priority sw new prc s3) (\<lambda>(r, s4). Ok (of_int r, s4))))))"

section \<open>Clock interrupt\<close>

definition trapinit :: "'a pstate_scheme \<Rightarrow> 'a pstate_scheme" where
  "trapinit s = initlock TicksLock s"

definition clockintr :: "'a pstate_scheme \<Rightarrow> ('a pstate_scheme) res" where
  "clockintr s =
     bnd (acquire TicksLock s) (\<lambda>s1.
     bnd (update_time (s1\<lparr>ticks := ticks s1 + 1\<rparr>)) (\<lambda>s2.
     bnd (wakeup TicksCh s2) (release TicksLock)))"

section \<open>Arguments of the running process\<close>

definition runs :: "nat \<Rightarrow> 'a pstate_scheme \<Rightarrow> bool" where
  "runs p s \<longleftrightarrow> hart_ok s \<and> cproc (cpus s (hart s)) = Some p"

definition bump :: "'a hstate_scheme \<Rightarrow> 'a hstate_scheme" where
  "bump s = s\<lparr>cpus := bumped (cpus s) (hart s)\<rparr>"

lemma current_ok: "runs p s \<Longrightarrow> current s = Ok (p, bump s)"
  by (simp add: current_def runs_def bump_def)

lemma runs_bump [simp]: "runs p (bump s) = runs p s" "bump (bump s) = bump s"
  by (simp_all add: runs_def bump_def)

lemma bump_fields [simp]:
  "procs (bump s) = procs s" "ticks (bump s) = ticks s" "mem (bump s) = mem s" "locks (bump s) = locks s" "hart (bump s) = hart s"
  by (simp_all add: bump_def)

lemma argint_ok: "runs p s \<Longrightarrow> 0 \<le> n \<Longrightarrow> n \<le> 5 \<Longrightarrow>
   argint n s = Ok (sint (ucast (tf_get (TfA (nat n)) p s) :: u32), bump s)"
  by (simp add: argint_def argraw_def current_ok tf_get_def)

section \<open>setpriority\<close>

text \<open>Setting the priority of a process, with the accounting reset.\<close>

definition reprioritised :: "int \<Rightarrow> proc \<Rightarrow> proc" where
  "reprioritised new pr = pr\<lparr>p_running_time := 0, p_sleep_time := 0, p_st_priority := new\<rparr>"


section \<open>The clock\<close>

text \<open>A clock interrupt advances \<open>ticks\<close> by one (modulo \<open>2^32\<close>), charges every process for the
  tick by its state and then wakes exactly the processes that wait for the clock.\<close>

theorem clockintr_ticks:
  fixes s :: "'a pstate_scheme"
  assumes "procs_quiet s" and "pr_quiet s" and "unlocked TicksLock s"
  shows "\<exists>cs. clockintr s = Ok ((bump s)\<lparr>uart_out := uart_out s @ cs, ticks := ticks s + 1,
     procs := (\<lambda>p. if p < NPROC then woken TicksCh (cproc (cpus s (hart s))) p (account (procs s p)) else procs s p)\<rparr>)"
proof -
  have h: "hart_ok s" using assms(1) by (simp add: procs_quiet_def)
  let ?s1 = "s\<lparr>cpus := pushed (cpus s) (hart s), locks := (locks s)(TicksLock := held_by (hart s)), ticks := ticks s + 1\<rparr>"
  have q1: "procs_quiet ?s1" "pr_quiet ?s1"
    using assms h by (auto simp: procs_quiet_def pr_quiet_def)
  have "\<exists>cs. update_time ?s1 = Ok (?s1\<lparr>cpus := bumped (cpus ?s1) (hart ?s1), uart_out := uart_out ?s1 @ cs,
      procs := (\<lambda>p. if p < NPROC then account (procs ?s1 p) else procs ?s1 p)\<rparr>)"
    by (rule update_time_charges) (use q1 in \<open>auto simp: pr_quiet_def\<close>)
  then obtain cs where "update_time ?s1 = Ok (?s1\<lparr>cpus := bumped (cpus ?s1) (hart ?s1), uart_out := uart_out ?s1 @ cs,
      procs := (\<lambda>p. if p < NPROC then account (procs ?s1 p) else procs ?s1 p)\<rparr>)" ..
  then have u: "update_time ?s1 = Ok (?s1\<lparr>uart_out := uart_out s @ cs,
      procs := (\<lambda>p. if p < NPROC then account (procs s p) else procs s p)\<rparr>)" using h by (simp cong: if_cong)
  let ?s2 = "?s1\<lparr>uart_out := uart_out s @ cs, procs := (\<lambda>p. if p < NPROC then account (procs s p) else procs s p)\<rparr>"
  have "procs_quiet ?s2" using q1(1) by (simp add: procs_quiet_def)
  from wakeup_wakes_all [OF this, of TicksCh] have w: "wakeup TicksCh ?s2 = Ok (?s2\<lparr>procs :=
      (\<lambda>p. if p < NPROC then woken TicksCh (cproc (cpus s (hart s))) p (account (procs s p)) else procs s p)\<rparr>)"
    using h by (simp cong: if_cong)
  show ?thesis
    using h assms(3) u w by (intro exI [of _ cs]) (simp add: clockintr_def bump_def)
qed

section \<open>Sleeping\<close>

text \<open>
  The simplest course of events while process \<open>p\<close> sleeps: one clock tick wakes it and the scheduler
  switches back to it, with its lock held.
\<close>

definition next_tick :: "nat \<Rightarrow> 'a pstate_scheme \<Rightarrow> ('a pstate_scheme) res" where
  "next_tick p s = Ok (upd_proc p (\<lambda>pr. pr\<lparr>p_state := RUNNING\<rparr>) (s\<lparr>ticks := ticks s + 1\<rparr>))"

lemma sleep_one_tick:
  assumes r: "runs_on p 1 s" and lk: "locks s TicksLock = held_by (hart s)" and fr: "unlocked (ProcLock p) s"
    and nc: "p_chan (procs s p) = NoChan"
  shows "sleep (next_tick p) TicksCh TicksLock s = Ok (s\<lparr>ticks := ticks s + 1\<rparr>)"
proof -
  let ?h = "hart s"
  have c: "noff (cpus s ?h) = 1" "hart_ok s" "\<not> sie (cpus s ?h)" "p_state (procs s p) = RUNNING"
    using r by (auto simp: runs_on_def cpu_ok_def)
  have i: "(cpus s)(?h := (cpus s ?h)\<lparr>intena := intena (cpus s ?h)\<rparr>) = cpus s" by simp
  have pp: "pushed (popped (cpus s) ?h) ?h = cpus s"
    using c by (cases "cpus s ?h") (auto simp: pushed_def popped_def fun_eq_iff)
  have pr: "(procs s)(p := (procs s p)\<lparr>p_state := RUNNING, p_chan := NoChan\<rparr>) = procs s"
    using nc c(4) by (cases "procs s p") (auto simp: fun_eq_iff)
  let ?s2 = "s\<lparr>locks := (locks s)(ProcLock p := held_by ?h, TicksLock := free_lock), ticks := ticks s + 1\<rparr>"
  have a: "next_tick p (asleep p TicksCh TicksLock s) =
      Ok (?s2\<lparr>procs := (procs s)(p := (procs s p)\<lparr>p_chan := TicksCh, p_state := RUNNING\<rparr>)\<rparr>)"
    by (simp add: next_tick_def asleep_def upd_proc_def)
  have rel: "release (ProcLock p) ?s2 = Ok (?s2\<lparr>cpus := popped (cpus s) ?h, locks := (locks s)(TicksLock := free_lock)\<rparr>)"
    using c fr by (subst release_ok) (auto simp: fun_eq_iff fun_upd_twist)
  have "sleep (next_tick p) TicksCh TicksLock s = bnd (release (ProcLock p) ?s2) (acquire TicksLock)"
    using sleep_switches [OF r lk _ fr, of "next_tick p" TicksCh]
    by (simp add: a upd_mycpu_def cpuid_def Let_def upd_proc_def i) (simp add: pr)
  also have "\<dots> = Ok (s\<lparr>ticks := ticks s + 1\<rparr>)"
    using lk by (simp add: rel pp) (simp add: fun_upd_idem)
  finally show ?thesis .
qed

lemma killed_nested:
  "hart_ok s \<Longrightarrow> bumped (cpus s) (hart s) = cpus s \<Longrightarrow> unlocked (ProcLock p) s \<Longrightarrow> killed p s = Ok (p_killed (procs s p), s)"
  by (simp add: killed_def Let_def)

lemma sleep_loop_ticks:
  "runs_on p 1 s \<Longrightarrow> locks s TicksLock = held_by (hart s) \<Longrightarrow> unlocked (ProcLock p) s \<Longrightarrow>
   p_chan (procs s p) = NoChan \<Longrightarrow> p_killed (procs s p) = 0 \<Longrightarrow> unat (of_int n - (ticks s - t0)) = k \<Longrightarrow>
   ticks s - t0 \<le> of_int n \<Longrightarrow> k \<le> m \<Longrightarrow>
   sys_sleep_loop (next_tick p) m t0 n s = bnd (release TicksLock (s\<lparr>ticks := t0 + of_int n\<rparr>)) (\<lambda>s1. Ok (0, s1))"
proof (induction k arbitrary: s m)
  case 0
  then have "ticks s = t0 + of_int n" by (simp add: unat_eq_0 algebra_simps)
  then have "ticks s - t0 = of_int n" "s\<lparr>ticks := t0 + of_int n\<rparr> = s" by simp_all
  then show ?case by (cases m) simp_all
next
  case (Suc k)
  then obtain m' where m: "m = Suc m'" by (cases m) auto
  have lt: "ticks s - t0 < of_int n" using Suc.prems(6,7) by (auto simp: order_le_less)
  have c: "cproc (cpus s (hart s)) = Some p" "hart_ok s" "bumped (cpus s) (hart s) = cpus s"
    using Suc.prems(1) by (auto simp: runs_on_def bumped_def)
  let ?s1 = "s\<lparr>ticks := ticks s + 1\<rparr>"
  have step: "sys_sleep_loop (next_tick p) m t0 n s = sys_sleep_loop (next_tick p) m' t0 n ?s1"
    using lt c Suc.prems(3,5) sleep_one_tick [OF Suc.prems(1-4)] killed_nested [OF c(2,3) Suc.prems(3)]
    by (simp add: m current_def)
  have d: "of_int n - (ticks ?s1 - t0) = of_int n - (ticks s - t0) - 1" by (simp add: algebra_simps)
  have k: "unat (of_int n - (ticks ?s1 - t0)) = k"
    unfolding d using Suc.prems(6) by (metis Suc_inject diff_Suc_1 old.nat.distinct(2) unat_eq_0 unat_minus_one)
  have le: "ticks ?s1 - t0 \<le> of_int n"
    using inc_le [OF lt] by (simp add: algebra_simps)
  have "sys_sleep_loop (next_tick p) m' t0 n ?s1 =
      bnd (release TicksLock (?s1\<lparr>ticks := t0 + of_int n\<rparr>)) (\<lambda>s1. Ok (0, s1))"
    by (rule Suc.IH) (use Suc.prems k le m in \<open>simp_all add: runs_on_def\<close>)
  then show ?case using step by simp
qed


section \<open>Witnesses\<close>

text \<open>
  Process 1 runs with a zeroed trapframe at \<open>0x90000000\<close>; processes 0 and 2 have pids 0 and 8.
\<close>

definition calling :: pstate where
  "calling = machine (Some 1) ((\<lambda>p. blank_proc\<lparr>p_pid := 100\<rparr>)(0 := blank_proc,
     1 := blank_proc\<lparr>p_state := RUNNING, p_pid := 5, p_trapframe := 0x90000000\<rparr>,
     2 := blank_proc\<lparr>p_state := SLEEPING, p_chan := TicksCh, p_pid := 8\<rparr>))"

lemma calling_simps [simp]:
  "procs_quiet calling" "pr_quiet calling" "cproc (cpus calling (hart calling)) = Some 1" "locks calling = (\<lambda>_. free_lock)"
  "tf_get f 1 calling = 0" "runs_on 1 0 calling" "ticks calling = 0"
proof -
  have "ld64 (\<lambda>_. 0) a = 0" for a by (rule bit_word_eqI) (simp add: bit_ld64)
  then show "tf_get f 1 calling = 0" by (simp add: tf_get_def calling_def machine_def)
qed (simp_all add: procs_quiet_def pr_quiet_def calling_def machine_def cpu_ok_def runs_on_def)


theorem clockintr_ticks_witness:
  "\<exists>s'. clockintr calling = Ok s' \<and> ticks s' = 1 \<and> p_state (procs s' 2) = RUNNABLE \<and> p_rtime (procs s' 1) = 1"
proof -
  have p: "procs calling 1 = blank_proc\<lparr>p_state := RUNNING, p_pid := 5, p_trapframe := 0x90000000\<rparr>"
    "procs calling 2 = blank_proc\<lparr>p_state := SLEEPING, p_chan := TicksCh, p_pid := 8\<rparr>"
    by (simp_all add: calling_def machine_def)
  obtain cs where c: "clockintr calling = Ok ((bump calling)\<lparr>uart_out := uart_out calling @ cs, ticks := ticks calling + 1,
     procs := (\<lambda>p. if p < NPROC then woken TicksCh (cproc (cpus calling (hart calling))) p (account (procs calling p))
       else procs calling p)\<rparr>)" using clockintr_ticks [of calling] by auto
  show ?thesis unfolding c using p by (simp add: NPROC_def woken_def account_def blank_proc_def)
qed


end
