(* ===== verification/Sleeplock.thy ===== *)
theory Sleeplock
  imports Pipe Sysproc
begin

text \<open>
  kernel/sleeplock.c: locks that are held while a process sleeps. A sleep lock is named by a number
  (buffers first, then inodes) and protected by the spinlock \<open>SleepLk\<close> of that number. The theory also
  states the situation in which the file system code runs alone: no spinlock is held, and one
  process runs on the hart.
\<close>

section \<open>Operations\<close>

record sleeplock =
  slocked :: bool
  slpid :: int

record slstate = pipestate +
  slocks :: "nat \<Rightarrow> sleeplock"

definition free_sleeplock :: sleeplock where
  "free_sleeplock = \<lparr>slocked = False, slpid = 0\<rparr>"

definition set_slock :: "nat \<Rightarrow> sleeplock \<Rightarrow> 'a slstate_scheme \<Rightarrow> 'a slstate_scheme" where
  "set_slock lk l s = s\<lparr>slocks := (slocks s)(lk := l)\<rparr>"

definition initsleeplock :: "nat \<Rightarrow> 'a slstate_scheme \<Rightarrow> 'a slstate_scheme" where
  "initsleeplock lk s = set_slock lk \<lparr>slocked = False, slpid = 0\<rparr> (initlock (SleepLk lk) s)"

text \<open>\<open>m\<close> bounds the number of times the process is put to sleep.\<close>

primrec acquiresleep_wait :: "('a slstate_scheme \<Rightarrow> ('a slstate_scheme) res) \<Rightarrow> nat \<Rightarrow> nat \<Rightarrow>
    'a slstate_scheme \<Rightarrow> ('a slstate_scheme) res" where
  "acquiresleep_wait sw 0 lk s = (if slocked (slocks s lk) then Err Asleep else Ok s)"
| "acquiresleep_wait sw (Suc m) lk s =
     (if slocked (slocks s lk) then bnd (sleep sw (SleepLkCh lk) (SleepLk lk) s) (acquiresleep_wait sw m lk) else Ok s)"

definition acquiresleep :: "('a slstate_scheme \<Rightarrow> ('a slstate_scheme) res) \<Rightarrow> nat \<Rightarrow> nat \<Rightarrow>
    'a slstate_scheme \<Rightarrow> ('a slstate_scheme) res" where
  "acquiresleep sw m lk s =
     bnd (acquire (SleepLk lk) s) (\<lambda>s1.
     bnd (acquiresleep_wait sw m lk s1) (\<lambda>s2.
     bnd (current s2) (\<lambda>(p, s3).
     release (SleepLk lk) (set_slock lk \<lparr>slocked = True, slpid = p_pid (procs s3 p)\<rparr> s3))))"

definition releasesleep :: "nat \<Rightarrow> 'a slstate_scheme \<Rightarrow> ('a slstate_scheme) res" where
  "releasesleep lk s =
     bnd (acquire (SleepLk lk) s) (\<lambda>s1.
     bnd (wakeup (SleepLkCh lk) (set_slock lk \<lparr>slocked = False, slpid = 0\<rparr> s1)) (release (SleepLk lk)))"

definition holdingsleep :: "nat \<Rightarrow> 'a slstate_scheme \<Rightarrow> (bool \<times> 'a slstate_scheme) res" where
  "holdingsleep lk s =
     bnd (acquire (SleepLk lk) s) (\<lambda>s1.
     bnd (if slocked (slocks s1 lk)
          then bnd (current s1) (\<lambda>(p, s2). Ok (slpid (slocks s2 lk) = p_pid (procs s2 p), s2))
          else Ok (False, s1)) (\<lambda>(r, s2).
     bnd (release (SleepLk lk) s2) (\<lambda>s3. Ok (r, s3))))"

section \<open>A process that runs alone\<close>

text \<open>
  Process \<open>p\<close> runs on the hart, no spinlock is held anywhere, interrupts are not disabled, and the saved
  interrupt state agrees with the current one (as it does after any matched acquire and release).
\<close>

definition alone :: "nat \<Rightarrow> 'a pstate_scheme \<Rightarrow> bool" where
  "alone p s \<longleftrightarrow> locks s = (\<lambda>_. free_lock) \<and> cproc (cpus s (hart s)) = Some p \<and> p < NPROC \<and>
     cpu_ok (cpus s (hart s)) \<and> noff (cpus s (hart s)) = 0 \<and> bumped (cpus s) (hart s) = cpus s \<and>
     p_state (procs s p) = RUNNING \<and> p_chan (procs s p) = NoChan"

lemma alone_cong: "locks s' = locks s \<Longrightarrow> cpus s' = cpus s \<Longrightarrow> hart s' = hart s \<Longrightarrow> procs s' p = procs s p \<Longrightarrow> alone p s' = alone p s"
  by (simp add: alone_def)

lemma alone_simps:
  assumes "alone p s"
  shows "locks s l = free_lock" "cproc (cpus s (hart s)) = Some p" "p < NPROC" "cpu_ok (cpus s (hart s))"
    "noff (cpus s (hart s)) = 0" "bumped (cpus s) (hart s) = cpus s" "p_state (procs s p) = RUNNING" "p_chan (procs s p) = NoChan"
  using assms by (simp_all add: alone_def)

lemma alone_locks: "alone p s \<Longrightarrow> (locks s)(l := free_lock) = locks s"
  by (auto simp: alone_def)

lemma alone_current: "alone p s \<Longrightarrow> current s = Ok (p, s)"
  by (simp add: current_def alone_simps)

definition locked_in :: "lockid \<Rightarrow> 'a hstate_scheme \<Rightarrow> 'a hstate_scheme" where
  "locked_in l s = s\<lparr>cpus := pushed (cpus s) (hart s), locks := (locks s)(l := held_by (hart s))\<rparr>"

lemma alone_acquire: "alone p s \<Longrightarrow> acquire l s = Ok (locked_in l s)"
  by (simp add: locked_in_def alone_simps)

text \<open>A critical section whose body keeps the hart and the locks.\<close>

lemma alone_release:
  assumes "alone p s" and "cpus t = cpus (locked_in l s)" and "locks t = locks (locked_in l s)" and "hart t = hart s"
  shows "release l t = Ok (t\<lparr>cpus := cpus s, locks := locks s\<rparr>)"
proof -
  have "release l t = Ok (t\<lparr>cpus := bumped (cpus s) (hart t), locks := (locks t)(l := free_lock)\<rparr>)"
    by (rule release_pushed) (use assms in \<open>simp_all add: locked_in_def alone_simps\<close>)
  then show ?thesis using assms by (simp add: alone_simps alone_locks locked_in_def)
qed

lemma locked_in_current: "alone p s \<Longrightarrow> current (locked_in l s) = Ok (p, locked_in l s)"
  by (simp add: current_def locked_in_def alone_simps)

text \<open>\<open>wakeup\<close> inside a critical section changes other processes only.\<close>

lemma locked_in_wakeup:
  assumes "alone p s" and "cpus t = cpus (locked_in l s)" and "locks t = locks (locked_in l s)" and "hart t = hart s"
    and "\<forall>q<NPROC. l \<noteq> ProcLock q"
  shows "\<exists>ps. wakeup ch t = Ok (t\<lparr>procs := ps\<rparr>) \<and> ps p = procs t p"
proof -
  have q: "procs_quiet t" using assms by (auto simp: procs_quiet_def locked_in_def alone_simps)
  have b: "bumped (cpus t) (hart t) = cpus t" using assms by (simp add: locked_in_def alone_simps)
  have c: "cproc (cpus t (hart t)) = Some p" using assms by (simp add: locked_in_def alone_simps)
  from wakeup_wakes_all [OF q, of ch] b c show ?thesis by (auto simp: woken_def)
qed

section \<open>Sleep locks without contention\<close>

definition holds_sleep :: "nat \<Rightarrow> nat \<Rightarrow> 'a slstate_scheme \<Rightarrow> bool" where
  "holds_sleep p lk s \<longleftrightarrow> slocks s lk = \<lparr>slocked = True, slpid = p_pid (procs s p)\<rparr>"

lemma acquiresleep_free:
  assumes "alone p s" and "\<not> slocked (slocks s lk)"
  shows "acquiresleep sw m lk s = Ok (set_slock lk \<lparr>slocked = True, slpid = p_pid (procs s p)\<rparr> s)"
proof -
  have w: "acquiresleep_wait sw m lk (locked_in (SleepLk lk) s) = Ok (locked_in (SleepLk lk) s)"
    using assms by (cases m) (simp_all add: locked_in_def)
  show ?thesis
    using assms w by (simp add: acquiresleep_def alone_acquire locked_in_current)
      (subst alone_release [OF assms(1)], simp_all add: set_slock_def locked_in_def)
qed

lemma holdingsleep_alone:
  assumes "alone p s"
  shows "holdingsleep lk s = Ok (slocked (slocks s lk) \<and> slpid (slocks s lk) = p_pid (procs s p), s)"
proof -
  have r: "release (SleepLk lk) (locked_in (SleepLk lk) s) = Ok s"
    by (subst alone_release [OF assms]) (simp_all add: locked_in_def)
  show ?thesis
    using assms r by (simp add: holdingsleep_def alone_acquire locked_in_current) (simp add: locked_in_def)
qed

lemma releasesleep_alone:
  assumes "alone p s"
  shows "\<exists>ps. releasesleep lk s = Ok (set_slock lk free_sleeplock s\<lparr>procs := ps\<rparr>) \<and> ps p = procs s p"
proof -
  let ?t = "set_slock lk \<lparr>slocked = False, slpid = 0\<rparr> (locked_in (SleepLk lk) s)"
  have t: "cpus ?t = cpus (locked_in (SleepLk lk) s)" "locks ?t = locks (locked_in (SleepLk lk) s)" "hart ?t = hart s"
    by (simp_all add: set_slock_def locked_in_def)
  obtain ps where w: "wakeup (SleepLkCh lk) ?t = Ok (?t\<lparr>procs := ps\<rparr>)" and ps: "ps p = procs ?t p"
    using locked_in_wakeup [OF assms t, of "SleepLkCh lk"] by auto
  have r: "release (SleepLk lk) (?t\<lparr>procs := ps\<rparr>) = Ok (?t\<lparr>procs := ps, cpus := cpus s, locks := locks s\<rparr>)"
    by (subst alone_release [OF assms]) (use t in simp_all)
  have "releasesleep lk s = Ok (set_slock lk free_sleeplock s\<lparr>procs := ps\<rparr>)"
    using assms w r by (simp add: releasesleep_def alone_acquire) (simp add: set_slock_def locked_in_def free_sleeplock_def)
  moreover have "ps p = procs s p" using ps by (simp add: set_slock_def locked_in_def)
  ultimately show ?thesis by blast
qed

end
