(* ===== verification/Virtio.thy ===== *)
theory Virtio
  imports Sleeplock
begin

unbundle bit_operations_syntax

text \<open>
  kernel/virtio_disk.c with struct buf of kernel/buf.h: the descriptor table, the two rings shared
  with the device, requests and their completion. The device itself is not part of the source: what
  its registers read after given register writes is a parameter \<open>dev\<close>, and what it does with
  the queue happens during the context switch \<open>sw\<close>. The sectors it stores, and the write requests it has
  served so far, are part of the state. Structures shared with the device are named by what they are:
  a command header, a buffer, a status byte.
\<close>

section \<open>State\<close>

definition BSIZE :: nat where "BSIZE = 1024"
definition MAXOPBLOCKS :: nat where "MAXOPBLOCKS = 10"
definition NBUF :: nat where "NBUF = MAXOPBLOCKS * 3"
definition NUM :: nat where "NUM = 8"
definition VRING_DESC_F_NEXT :: u16 where "VRING_DESC_F_NEXT = 1"
definition VRING_DESC_F_WRITE :: u16 where "VRING_DESC_F_WRITE = 2"
definition VIRTIO_BLK_T_IN :: u32 where "VIRTIO_BLK_T_IN = 0"
definition VIRTIO_BLK_T_OUT :: u32 where "VIRTIO_BLK_T_OUT = 1"

record buf =
  b_valid :: bool
  b_disk :: bool
  b_dev :: u32
  b_blockno :: u32
  b_refcnt :: u32
  b_prev :: nat
  b_next :: nat
  b_data :: "u8 list"

datatype dma = DmaNull | DmaReq nat | DmaData nat | DmaStatus nat

record virtq_desc =
  d_addr :: dma
  d_len :: u32
  d_flags :: u16
  d_next :: u16

record virtio_blk_req =
  rq_type :: u32
  rq_reserved :: u32
  rq_sector :: u64

record disk =
  dsc :: "nat \<Rightarrow> virtq_desc"
  avail_idx :: u16
  avail_ring :: "nat \<Rightarrow> u16"
  used_idx :: u16
  used_ring :: "nat \<Rightarrow> u32"
  dfree :: "nat \<Rightarrow> bool"
  seen_idx :: u16          \<comment> \<open>\<open>disk.used_idx\<close>\<close>
  info_b :: "nat \<Rightarrow> nat option"
  info_status :: "nat \<Rightarrow> u8"
  ops :: "nat \<Rightarrow> virtio_blk_req"
  desc_pa :: u64
  avail_pa :: u64
  used_pa :: u64

record dstate = slstate +
  bufs :: "nat \<Rightarrow> buf"
  vd :: disk
  vwrites :: "(nat \<times> u32) list"      \<comment> \<open>register writes so far\<close>
  sectors :: "u64 \<Rightarrow> u8 list"         \<comment> \<open>512 bytes each\<close>
  dtrace :: "(u64 \<times> u8 list) list"    \<comment> \<open>write requests the device has served, oldest first\<close>

definition upd_buf :: "nat \<Rightarrow> (buf \<Rightarrow> buf) \<Rightarrow> 'a dstate_scheme \<Rightarrow> 'a dstate_scheme" where
  "upd_buf b f s = s\<lparr>bufs := (bufs s)(b := f (bufs s b))\<rparr>"

definition upd_vd :: "(disk \<Rightarrow> disk) \<Rightarrow> 'a dstate_scheme \<Rightarrow> 'a dstate_scheme" where
  "upd_vd f s = s\<lparr>vd := f (vd s)\<rparr>"

section \<open>Initialisation\<close>

definition VIRTIO_MMIO_MAGIC_VALUE :: nat where "VIRTIO_MMIO_MAGIC_VALUE = 0x000"
definition VIRTIO_MMIO_VERSION :: nat where "VIRTIO_MMIO_VERSION = 0x004"
definition VIRTIO_MMIO_DEVICE_ID :: nat where "VIRTIO_MMIO_DEVICE_ID = 0x008"
definition VIRTIO_MMIO_VENDOR_ID :: nat where "VIRTIO_MMIO_VENDOR_ID = 0x00c"
definition VIRTIO_MMIO_DEVICE_FEATURES :: nat where "VIRTIO_MMIO_DEVICE_FEATURES = 0x010"
definition VIRTIO_MMIO_DRIVER_FEATURES :: nat where "VIRTIO_MMIO_DRIVER_FEATURES = 0x020"
definition VIRTIO_MMIO_QUEUE_SEL :: nat where "VIRTIO_MMIO_QUEUE_SEL = 0x030"
definition VIRTIO_MMIO_QUEUE_NUM_MAX :: nat where "VIRTIO_MMIO_QUEUE_NUM_MAX = 0x034"
definition VIRTIO_MMIO_QUEUE_NUM :: nat where "VIRTIO_MMIO_QUEUE_NUM = 0x038"
definition VIRTIO_MMIO_QUEUE_READY :: nat where "VIRTIO_MMIO_QUEUE_READY = 0x044"
definition VIRTIO_MMIO_QUEUE_NOTIFY :: nat where "VIRTIO_MMIO_QUEUE_NOTIFY = 0x050"
definition VIRTIO_MMIO_INTERRUPT_STATUS :: nat where "VIRTIO_MMIO_INTERRUPT_STATUS = 0x060"
definition VIRTIO_MMIO_INTERRUPT_ACK :: nat where "VIRTIO_MMIO_INTERRUPT_ACK = 0x064"
definition VIRTIO_MMIO_STATUS :: nat where "VIRTIO_MMIO_STATUS = 0x070"

definition Rset :: "nat \<Rightarrow> u32 \<Rightarrow> 'a dstate_scheme \<Rightarrow> 'a dstate_scheme" where
  "Rset r v s = s\<lparr>vwrites := vwrites s @ [(r, v)]\<rparr>"

type_synonym device = "(nat \<times> u32) list \<Rightarrow> nat \<Rightarrow> u32"

definition Rget :: "device \<Rightarrow> nat \<Rightarrow> 'a dstate_scheme \<Rightarrow> u32" where
  "Rget dev r s = dev (vwrites s) r"

text \<open>The features the driver accepts: not RO (5), SCSI (7), CONFIG_WCE (11), MQ (12), ANY_LAYOUT (27),
  EVENT_IDX (29), INDIRECT_DESC (28).\<close>

definition negotiated :: "u32 \<Rightarrow> u32" where
  "negotiated features = fold (\<lambda>k f. f AND NOT (push_bit k 1)) [5, 7, 11, 12, 27, 29, 28] features"

definition zero_desc :: virtq_desc where
  "zero_desc = \<lparr>d_addr = DmaNull, d_len = 0, d_flags = 0, d_next = 0\<rparr>"

definition virtio_disk_init :: "device \<Rightarrow> 'a dstate_scheme \<Rightarrow> ('a dstate_scheme) res" where
  "virtio_disk_init dev s =
     (let s = initlock VdiskLock s
      in if Rget dev VIRTIO_MMIO_MAGIC_VALUE s \<noteq> 0x74726976 \<or> Rget dev VIRTIO_MMIO_VERSION s \<noteq> 2 \<or>
            Rget dev VIRTIO_MMIO_DEVICE_ID s \<noteq> 2 \<or> Rget dev VIRTIO_MMIO_VENDOR_ID s \<noteq> 0x554d4551
         then Err (Panic ''could not find virtio disk'')
      else let s = Rset VIRTIO_MMIO_STATUS 3 (Rset VIRTIO_MMIO_STATUS 1 (Rset VIRTIO_MMIO_STATUS 0 s));
               s = Rset VIRTIO_MMIO_DRIVER_FEATURES (negotiated (Rget dev VIRTIO_MMIO_DEVICE_FEATURES s)) s;
               s = Rset VIRTIO_MMIO_STATUS 11 s;
               status = Rget dev VIRTIO_MMIO_STATUS s
      in if status AND 8 = 0 then Err (Panic ''virtio disk FEATURES_OK unset'')
      else let s = Rset VIRTIO_MMIO_QUEUE_SEL 0 s
      in if Rget dev VIRTIO_MMIO_QUEUE_READY s \<noteq> 0 then Err (Panic ''virtio disk should not be ready'')
      else let mx = Rget dev VIRTIO_MMIO_QUEUE_NUM_MAX s
      in if mx = 0 then Err (Panic ''virtio disk has no queue 0'')
      else if mx < of_nat NUM then Err (Panic ''virtio disk max queue too short'')
      else
        bnd (kalloc s) (\<lambda>(d, s). bnd (kalloc s) (\<lambda>(a, s). bnd (kalloc s) (\<lambda>(u, s).
        if d = 0 \<or> a = 0 \<or> u = 0 then Err (Panic ''virtio disk kalloc'')
        else let s = memset_pg u 0 (memset_pg a 0 (memset_pg d 0 s));
                 s = upd_vd (\<lambda>v. v\<lparr>desc_pa := d, avail_pa := a, used_pa := u, dsc := (\<lambda>_. zero_desc), avail_idx := 0,
                        avail_ring := (\<lambda>_. 0), used_idx := 0, used_ring := (\<lambda>_. 0)\<rparr>) s;
                 s = Rset VIRTIO_MMIO_QUEUE_NUM (of_nat NUM) s;
                 s = Rset 0x084 (ucast (drop_bit 32 d)) (Rset 0x080 (ucast d) s);
                 s = Rset 0x094 (ucast (drop_bit 32 a)) (Rset 0x090 (ucast a) s);
                 s = Rset 0x0a4 (ucast (drop_bit 32 u)) (Rset 0x0a0 (ucast u) s);
                 s = Rset VIRTIO_MMIO_QUEUE_READY 1 s;
                 s = upd_vd (\<lambda>v. v\<lparr>dfree := (\<lambda>i. i < NUM \<or> dfree v i)\<rparr>) s
        in Ok (Rset VIRTIO_MMIO_STATUS (status OR 4) s)))))"

section \<open>Descriptors\<close>

definition alloc_desc :: "'a dstate_scheme \<Rightarrow> int \<times> 'a dstate_scheme" where
  "alloc_desc s =
     (case find (dfree (vd s)) [0..<NUM] of
        Some i \<Rightarrow> (int i, upd_vd (\<lambda>v. v\<lparr>dfree := (dfree v)(i := False)\<rparr>) s)
      | None \<Rightarrow> (-1, s))"

definition free_desc :: "int \<Rightarrow> 'a dstate_scheme \<Rightarrow> ('a dstate_scheme) res" where
  "free_desc i s =
     (if i \<ge> int NUM then Err (Panic ''free_desc 1'')
      else if i < 0 then Err (Undef ''free_desc: negative index'')
      else if dfree (vd s) (nat i) then Err (Panic ''free_desc 2'')
      else wakeup DiskFreeCh (upd_vd (\<lambda>v. v\<lparr>dsc := (dsc v)(nat i := zero_desc), dfree := (dfree v)(nat i := True)\<rparr>) s))"

text \<open>What is left unchanged by \<open>wakeup\<close>, whatever the state of the locks.\<close>

lemma acquire_frame: "acquire l s = Ok s' \<Longrightarrow> \<exists>c k. s' = s\<lparr>cpus := c, locks := k\<rparr>"
  by (auto simp: acquire_def push_off_pushed Let_def split: if_splits)

lemma pop_off_frame: "pop_off s = Ok s' \<Longrightarrow> \<exists>c. s' = s\<lparr>cpus := c\<rparr>"
  by (auto simp: pop_off_def Let_def intr_on_def upd_mycpu_def split: if_splits)

lemma release_frame: "release l s = Ok s' \<Longrightarrow> \<exists>c k. s' = s\<lparr>locks := k, cpus := c\<rparr>"
  by (auto simp: release_def split: if_splits dest!: pop_off_frame)

lemma myproc_frame: "myproc s = Ok (r, s') \<Longrightarrow> \<exists>c. s' = s\<lparr>cpus := c\<rparr>"
  by (auto simp: myproc_def push_off_pushed Let_def dest!: pop_off_frame)

lemma for_each_frame:
  assumes "\<And>i s s'. f i s = Ok s' \<Longrightarrow> g s' = g s"
  shows "for_each is f s = Ok s' \<Longrightarrow> g s' = g s"
  by (induction "is" arbitrary: s) (auto simp: assms)

lemma wakeup_vd: "wakeup ch s = Ok s' \<Longrightarrow> vd s' = vd s"
  unfolding wakeup_def
  by (erule for_each_frame [rotated])
    (auto simp: upd_proc_def split: if_splits dest!: myproc_frame acquire_frame release_frame)

lemma card_unfree:
  assumes "i < NUM" and "\<not> f i"
  shows "card {j. j < NUM \<and> \<not> (f(i := True)) j} < card {j. j < NUM \<and> \<not> f j}"
  by (rule psubset_card_mono) (use assms in auto)

lemma free_desc_frees:
  "free_desc i s = Ok s' \<Longrightarrow> 0 \<le> i \<and> nat i < NUM \<and> \<not> dfree (vd s) (nat i) \<and> dfree (vd s') = (dfree (vd s))(nat i := True)"
  by (auto simp: free_desc_def upd_vd_def split: if_splits dest!: wakeup_vd)

text \<open>
  A chain that is damaged does not make \<open>free_chain\<close> run for ever: every round frees a descriptor that
  was in use.
\<close>

function free_chain :: "int \<Rightarrow> 'a dstate_scheme \<Rightarrow> ('a dstate_scheme) res" where
  "free_chain i s =
     (let flag = d_flags (dsc (vd s) (nat i)); nxt = d_next (dsc (vd s) (nat i))
      in bnd (free_desc i s) (\<lambda>s1.
           if flag AND VRING_DESC_F_NEXT \<noteq> 0 then free_chain (int (unat nxt)) s1 else Ok s1))"
  by pat_completeness auto
termination
proof (relation "measure (\<lambda>(i, s). card {j. j < NUM \<and> \<not> dfree (vd s) j})")
  fix i and s s1 :: "'a dstate_scheme" and flag nxt :: u16
  assume "free_desc i s = Ok s1"
  from free_desc_frees [OF this] card_unfree [of "nat i" "dfree (vd s)"]
  show "((int (unat nxt), s1), i, s) \<in> measure (\<lambda>(i, s). card {j. j < NUM \<and> \<not> dfree (vd s) j})" by simp
qed simp

declare free_chain.simps [simp del]

fun alloc3_loop :: "nat \<Rightarrow> int list \<Rightarrow> 'a dstate_scheme \<Rightarrow> ((int \<times> int list) \<times> 'a dstate_scheme) res" where
  "alloc3_loop 0 idx s = Ok ((0, idx), s)"
| "alloc3_loop (Suc k) idx s =
     (let (d, s1) = alloc_desc s
      in if d < 0 then bnd (for_each idx free_desc s1) (\<lambda>s2. Ok ((-1, idx @ [d]), s2))
         else alloc3_loop k (idx @ [d]) s1)"

definition alloc3_desc :: "'a dstate_scheme \<Rightarrow> ((int \<times> int list) \<times> 'a dstate_scheme) res" where
  "alloc3_desc s = alloc3_loop 3 [] s"

section \<open>Requests\<close>

primrec rw_alloc :: "('a dstate_scheme \<Rightarrow> ('a dstate_scheme) res) \<Rightarrow> nat \<Rightarrow> 'a dstate_scheme \<Rightarrow>
    (int list \<times> 'a dstate_scheme) res" where
  "rw_alloc sw 0 s = bnd (alloc3_desc s) (\<lambda>((r, idx), s1). if r = 0 then Ok (idx, s1) else Err Asleep)"
| "rw_alloc sw (Suc m) s = bnd (alloc3_desc s) (\<lambda>((r, idx), s1).
     if r = 0 then Ok (idx, s1) else bnd (sleep sw DiskFreeCh VdiskLock s1) (rw_alloc sw m))"

text \<open>The three descriptors of a request: header, data, status.\<close>

definition format_req :: "bool \<Rightarrow> nat \<Rightarrow> u64 \<Rightarrow> nat \<Rightarrow> nat \<Rightarrow> nat \<Rightarrow> disk \<Rightarrow> disk" where
  "format_req wr b sector i0 i1 i2 v = v\<lparr>
     ops := (ops v)(i0 := \<lparr>rq_type = (if wr then VIRTIO_BLK_T_OUT else VIRTIO_BLK_T_IN), rq_reserved = 0, rq_sector = sector\<rparr>),
     dsc := (dsc v)(
       i0 := \<lparr>d_addr = DmaReq i0, d_len = 16, d_flags = VRING_DESC_F_NEXT, d_next = of_nat i1\<rparr>,
       i1 := \<lparr>d_addr = DmaData b, d_len = of_nat BSIZE,
              d_flags = (if wr then 0 else VRING_DESC_F_WRITE) OR VRING_DESC_F_NEXT, d_next = of_nat i2\<rparr>,
       i2 := \<lparr>d_addr = DmaStatus i0, d_len = 1, d_flags = VRING_DESC_F_WRITE, d_next = 0\<rparr>),
     info_status := (info_status v)(i0 := 0xff)\<rparr>"

definition submit_req :: "nat \<Rightarrow> nat \<Rightarrow> 'a dstate_scheme \<Rightarrow> 'a dstate_scheme" where
  "submit_req b i0 s =
     (let s1 = upd_vd (\<lambda>v. v\<lparr>info_b := (info_b v)(i0 := Some b)\<rparr>) (upd_buf b (\<lambda>bf. bf\<lparr>b_disk := True\<rparr>) s);
          s2 = upd_vd (\<lambda>v. v\<lparr>avail_ring := (avail_ring v)(slot NUM (avail_idx v) := of_nat i0)\<rparr>) s1;
          s3 = upd_vd (\<lambda>v. v\<lparr>avail_idx := avail_idx v + 1\<rparr>) s2
      in Rset VIRTIO_MMIO_QUEUE_NOTIFY 0 s3)"

primrec rw_wait :: "('a dstate_scheme \<Rightarrow> ('a dstate_scheme) res) \<Rightarrow> nat \<Rightarrow> nat \<Rightarrow> 'a dstate_scheme \<Rightarrow>
    ('a dstate_scheme) res" where
  "rw_wait sw 0 b s = (if b_disk (bufs s b) then Err Asleep else Ok s)"
| "rw_wait sw (Suc m) b s =
     (if b_disk (bufs s b) then bnd (sleep sw (BufCh b) VdiskLock s) (rw_wait sw m b) else Ok s)"

text \<open>The sector number is computed with 32 bits before it is widened.\<close>

definition virtio_disk_rw :: "('a dstate_scheme \<Rightarrow> ('a dstate_scheme) res) \<Rightarrow> nat \<Rightarrow> nat \<Rightarrow> bool \<Rightarrow>
    'a dstate_scheme \<Rightarrow> ('a dstate_scheme) res" where
  "virtio_disk_rw sw m b write s =
     (let sector = ucast (b_blockno (bufs s b) * of_nat (BSIZE div 512)) :: u64
      in bnd (acquire VdiskLock s) (\<lambda>s1.
         bnd (rw_alloc sw m s1) (\<lambda>(idx, s2).
         let i0 = nat (idx ! 0); i1 = nat (idx ! 1); i2 = nat (idx ! 2);
             s3 = submit_req b i0 (upd_vd (format_req write b sector i0 i1 i2) s2)
         in bnd (rw_wait sw m b s3) (\<lambda>s4.
            bnd (free_chain (int i0) (upd_vd (\<lambda>v. v\<lparr>info_b := (info_b v)(i0 := None)\<rparr>) s4)) (release VdiskLock)))))"

section \<open>Completion\<close>

lemma idx_step: "(i::u16) \<noteq> j \<Longrightarrow> unat (j - (i + 1)) < unat (j - i)"
proof -
  assume "i \<noteq> j"
  then have "j - i \<noteq> 0" by simp
  moreover have "j - (i + 1) = (j - i) - 1" by simp
  ultimately show ?thesis by (metis unat_minus_one diff_less less_numeral_extra(1) unat_gt_0)
qed

text \<open>An entry of the used ring that is no descriptor, or of a chain without a buffer, is undefined.\<close>

function intr_loop :: "'a dstate_scheme \<Rightarrow> ('a dstate_scheme) res" where
  "intr_loop s =
     (if seen_idx (vd s) = used_idx (vd s) then Ok s
      else let i = unat (used_ring (vd s) (slot NUM (seen_idx (vd s))))
           in if i \<ge> NUM then Err (Undef ''virtio_disk_intr: id'')
              else if info_status (vd s) i \<noteq> 0 then Err (Panic ''virtio_disk_intr status'')
              else case info_b (vd s) i of None \<Rightarrow> Err (Undef ''virtio_disk_intr: null buffer'')
                | Some b \<Rightarrow> bnd (wakeup (BufCh b) (upd_buf b (\<lambda>bf. bf\<lparr>b_disk := False\<rparr>) s)) (\<lambda>s1.
                    intr_loop (upd_vd (\<lambda>v. v\<lparr>seen_idx := seen_idx v + 1\<rparr>) s1)))"
  by pat_completeness auto

termination
proof (relation "measure (\<lambda>s. unat (used_idx (vd s) - seen_idx (vd s)))")
  fix s s1 :: "'a dstate_scheme" and i b :: nat
  assume n: "seen_idx (vd s) \<noteq> used_idx (vd s)" and "wakeup (BufCh b) (upd_buf b (\<lambda>bf. bf\<lparr>b_disk := False\<rparr>) s) = Ok s1"
  then have "vd s1 = vd s" by (auto simp: upd_buf_def dest!: wakeup_vd)
  then show "(upd_vd (\<lambda>v. v\<lparr>seen_idx := seen_idx v + 1\<rparr>) s1, s) \<in> measure (\<lambda>s. unat (used_idx (vd s) - seen_idx (vd s)))"
    using idx_step [OF n] by (simp add: upd_vd_def)
qed simp

declare intr_loop.simps [simp del]

text \<open>The completions the device has published and the driver has not seen: valid, successful, each with its buffer.\<close>

definition published :: "disk \<Rightarrow> nat \<Rightarrow> nat" where
  "published v j = unat (used_ring v (slot NUM (seen_idx v + of_nat j)))"

definition completions_ok :: "disk \<Rightarrow> bool" where
  "completions_ok v \<longleftrightarrow> (\<forall>j<unat (used_idx v - seen_idx v). published v j < NUM \<and> info_status v (published v j) = 0 \<and>
     info_b v (published v j) \<noteq> None)"

text \<open>C35: the completion loop of the disk interrupt ends, and when it does every published completion has been
  consumed and the buffer of each is marked as no longer owned by the disk, also when the 16-bit ring
  index wraps around.\<close>

theorem intr_loop_drains:
  assumes "procs_quiet s" and "completions_ok (vd s)"
  shows "\<exists>s'. intr_loop s = Ok s' \<and> seen_idx (vd s') = used_idx (vd s) \<and>
    (\<forall>j<unat (used_idx (vd s) - seen_idx (vd s)). \<forall>b. info_b (vd s) (published (vd s) j) = Some b \<longrightarrow> \<not> b_disk (bufs s' b)) \<and>
    (\<forall>b. b_disk (bufs s' b) \<longrightarrow> b_disk (bufs s b))"
  using assms
proof (induction "unat (used_idx (vd s) - seen_idx (vd s))" arbitrary: s)
  case 0
  then have "seen_idx (vd s) = used_idx (vd s)" by (simp add: unat_eq_zero)
  then show ?case by (simp add: intr_loop.simps [of s])
next
  case (Suc n)
  let ?v = "vd s"
  have ne: "seen_idx ?v \<noteq> used_idx ?v" using Suc.hyps(2) by auto
  obtain b where b: "info_b ?v (published ?v 0) = Some b" and ok: "published ?v 0 < NUM" "info_status ?v (published ?v 0) = 0"
    using Suc.prems(2) unfolding completions_ok_def Suc.hyps(2) [symmetric] by blast
  let ?s1 = "upd_buf b (\<lambda>bf. bf\<lparr>b_disk := False\<rparr>) s"
  have q: "procs_quiet ?s1" using Suc.prems(1) by (simp add: procs_quiet_def upd_buf_def)
  define ps where "ps = (\<lambda>p. if p < NPROC then woken (BufCh b) (cproc (cpus s (hart s))) p (procs s p) else procs s p)"
  define s2 where "s2 = upd_vd (\<lambda>v. v\<lparr>seen_idx := seen_idx v + 1\<rparr>) (?s1\<lparr>cpus := bumped (cpus s) (hart s), procs := ps\<rparr>)"
  have w: "wakeup (BufCh b) ?s1 = Ok (?s1\<lparr>cpus := bumped (cpus s) (hart s), procs := ps\<rparr>)"
    using wakeup_wakes_all [OF q, of "BufCh b"] by (simp add: ps_def upd_buf_def cong: if_cong)
  have e: "intr_loop s = intr_loop s2"
    using ne b ok w by (subst intr_loop.simps) (simp add: s2_def published_def Let_def)
  have v2: "vd s2 = ?v\<lparr>seen_idx := seen_idx ?v + 1\<rparr>" "bufs s2 = (bufs s)(b := (bufs s b)\<lparr>b_disk := False\<rparr>)"
    by (simp_all add: s2_def upd_vd_def upd_buf_def)
  have n: "n = unat (used_idx (vd s2) - seen_idx (vd s2))"
  proof -
    have "seen_idx (vd s2) = seen_idx ?v + 1" "used_idx (vd s2) = used_idx ?v" by (simp_all add: v2)
    moreover have "used_idx ?v - (seen_idx ?v + 1) = (used_idx ?v - seen_idx ?v) - 1" by (simp add: algebra_simps)
    moreover have "unat ((used_idx ?v - seen_idx ?v) - 1) = unat (used_idx ?v - seen_idx ?v) - 1" using ne by (intro unat_minus_one) simp
    ultimately show ?thesis using Suc.hyps(2) by (metis diff_Suc_1)
  qed
  have pub: "published (vd s2) j = published ?v (Suc j)" for j by (simp add: published_def v2 algebra_simps)
  have "procs_quiet s2" using Suc.prems(1) by (simp add: procs_quiet_def s2_def upd_vd_def upd_buf_def)
  moreover have "completions_ok (vd s2)"
    using Suc.prems(2) Suc.hyps(2) unfolding completions_ok_def n [symmetric] pub by (auto simp: v2)
  ultimately obtain s' where s': "intr_loop s2 = Ok s'" "seen_idx (vd s') = used_idx ?v"
    "\<forall>j<n. \<forall>b. info_b ?v (published ?v (Suc j)) = Some b \<longrightarrow> \<not> b_disk (bufs s' b)" "\<forall>b. b_disk (bufs s' b) \<longrightarrow> b_disk (bufs s2 b)"
    using Suc.hyps(1) [OF n] unfolding n [symmetric] pub by (auto simp: v2)
  have "\<not> b_disk (bufs s' c)" if "j < Suc n" "info_b ?v (published ?v j) = Some c" for j c
    using that s'(3,4) b v2(2) by (cases j) auto
  moreover have "b_disk (bufs s' c) \<Longrightarrow> b_disk (bufs s c)" for c using s'(4) v2(2) by (auto split: if_splits)
  ultimately show ?case using e s'(1,2) Suc.hyps(2) by auto
qed

definition virtio_disk_intr :: "device \<Rightarrow> 'a dstate_scheme \<Rightarrow> ('a dstate_scheme) res" where
  "virtio_disk_intr dev s =
     bnd (acquire VdiskLock s) (\<lambda>s1.
     bnd (intr_loop (Rset VIRTIO_MMIO_INTERRUPT_ACK (Rget dev VIRTIO_MMIO_INTERRUPT_STATUS s1 AND 3) s1))
       (release VdiskLock))"

end
