(* ===== verification/Disk.thy ===== *)
theory Disk
  imports Virtio
begin

unbundle bit_operations_syntax

text \<open>
  What a disk request does: the contract of the device together with the interrupt handler
  (\<open>serves\<close>), and that \<open>virtio_disk_rw\<close> under this contract moves one block between its buffer and the
  disk and leaves the queue as it found it. A concrete device and the interrupt handler of the source
  satisfy the contract.
\<close>

section \<open>The contract\<close>

definition sector_of :: "u32 \<Rightarrow> u64" where
  "sector_of n = ucast (n * 2)"

definition put_block :: "u64 \<Rightarrow> u8 list \<Rightarrow> (u64 \<Rightarrow> u8 list) \<Rightarrow> u64 \<Rightarrow> u8 list" where
  "put_block sec bs d = d(sec := take 512 bs, sec + 1 := drop 512 bs)"

definition get_block :: "u64 \<Rightarrow> (u64 \<Rightarrow> u8 list) \<Rightarrow> u8 list" where
  "get_block sec d = d sec @ d (sec + 1)"

text \<open>Descriptor \<open>d\<close> heads the chain of a request for buffer \<open>b\<close>.\<close>

definition request :: "disk \<Rightarrow> nat \<Rightarrow> nat \<Rightarrow> bool \<Rightarrow> u64 \<Rightarrow> bool" where
  "request v d b wr sec \<longleftrightarrow> d < NUM \<and> info_b v d = Some b \<and>
     (let d1 = unat (d_next (dsc v d)); d2 = unat (d_next (dsc v d1))
      in d_addr (dsc v d) = DmaReq d \<and> d_len (dsc v d) = 16 \<and> d_flags (dsc v d) = VRING_DESC_F_NEXT \<and>
         d_addr (dsc v d1) = DmaData b \<and> d_len (dsc v d1) = of_nat BSIZE \<and>
         d_flags (dsc v d1) = (if wr then VRING_DESC_F_NEXT else VRING_DESC_F_NEXT OR VRING_DESC_F_WRITE) \<and>
         d_addr (dsc v d2) = DmaStatus d \<and> d_len (dsc v d2) = 1 \<and> d_flags (dsc v d2) = VRING_DESC_F_WRITE) \<and>
     rq_type (ops v d) = (if wr then VIRTIO_BLK_T_OUT else VIRTIO_BLK_T_IN) \<and> rq_sector (ops v d) = sec"

text \<open>Process \<open>p\<close> has just gone to sleep on buffer \<open>b\<close>; its request is the only one in the queue.\<close>

definition waiting :: "nat \<Rightarrow> nat \<Rightarrow> nat \<Rightarrow> bool \<Rightarrow> u64 \<Rightarrow> 'a dstate_scheme \<Rightarrow> bool" where
  "waiting p b d wr sec t \<longleftrightarrow> p < NPROC \<and> cproc (cpus t (hart t)) = Some p \<and> noff (cpus t (hart t)) = 1 \<and>
     \<not> sie (cpus t (hart t)) \<and> locks t = (\<lambda>_. free_lock)(ProcLock p := held_by (hart t)) \<and>
     p_state (procs t p) = SLEEPING \<and> p_chan (procs t p) = BufCh b \<and> b_disk (bufs t b) \<and>
     request (vd t) d b wr sec \<and> seen_idx (vd t) = used_idx (vd t) \<and> avail_idx (vd t) = used_idx (vd t) + 1 \<and>
     avail_ring (vd t) (slot NUM (used_idx (vd t))) = of_nat d"

text \<open>The request has been served and its interrupt handled.\<close>

definition completed :: "nat \<Rightarrow> nat \<Rightarrow> bool \<Rightarrow> u64 \<Rightarrow> (nat \<Rightarrow> proc) \<Rightarrow> (nat \<times> u32) list \<Rightarrow> 'a dstate_scheme \<Rightarrow> 'a dstate_scheme" where
  "completed b d wr sec ps w t = t\<lparr>procs := ps, vwrites := w,
     vd := (vd t)\<lparr>info_status := (info_status (vd t))(d := 0),
       used_ring := (used_ring (vd t))(slot NUM (used_idx (vd t)) := of_nat d),
       used_idx := used_idx (vd t) + 1, seen_idx := seen_idx (vd t) + 1\<rparr>,
     bufs := (bufs t)(b := (bufs t b)\<lparr>b_data := (if wr then b_data (bufs t b) else get_block sec (sectors t)), b_disk := False\<rparr>),
     sectors := (if wr then put_block sec (b_data (bufs t b)) (sectors t) else sectors t),
     dtrace := (if wr then dtrace t @ [(sec, b_data (bufs t b))] else dtrace t)\<rparr>"

definition serves :: "('a dstate_scheme \<Rightarrow> ('a dstate_scheme) res) \<Rightarrow> bool" where
  "serves sw \<longleftrightarrow> (\<forall>t p b d wr sec. waiting p b d wr sec t \<longrightarrow>
     (\<exists>ps w. sw t = Ok (completed b d wr sec ps w t) \<and> ps p = (procs t p)\<lparr>p_state := RUNNING\<rparr>))"

section \<open>A request from start to end\<close>

definition disk_idle :: "disk \<Rightarrow> bool" where
  "disk_idle v \<longleftrightarrow> (\<forall>i<NUM. dfree v i) \<and> seen_idx v = used_idx v \<and> avail_idx v = used_idx v"

lemma alloc3_idle:
  assumes "disk_idle (vd s)"
  shows "alloc3_desc s = Ok ((0, [0, 1, 2]), upd_vd (\<lambda>v. v\<lparr>dfree := (dfree v)(0 := False, 1 := False, 2 := False)\<rparr>) s)"
  using assms
  by (simp add: alloc3_desc_def numeral_3_eq_3 numeral_2_eq_2 alloc_desc_def disk_idle_def NUM_def upt_rec upd_vd_def Let_def)

lemma rw_alloc_idle:
  assumes "disk_idle (vd s)"
  shows "rw_alloc sw m s = Ok ([0, 1, 2], upd_vd (\<lambda>v. v\<lparr>dfree := (dfree v)(0 := False, 1 := False, 2 := False)\<rparr>) s)"
  by (cases m) (simp_all add: alloc3_idle [OF assms])

text \<open>A state inside the critical section of \<open>vdisk_lock\<close> entered from \<open>s\<close>.\<close>

definition in_vdisk :: "'a dstate_scheme \<Rightarrow> 'a dstate_scheme \<Rightarrow> bool" where
  "in_vdisk s t \<longleftrightarrow> cpus t = cpus (locked_in VdiskLock s) \<and> locks t = locks (locked_in VdiskLock s) \<and> hart t = hart s"

lemma free_desc_alone:
  assumes "alone p s" and "in_vdisk s t" and "i < NUM" and "\<not> dfree (vd t) i"
  shows "\<exists>ps. free_desc (int i) t = Ok (t\<lparr>procs := ps, vd := (vd t)\<lparr>dsc := (dsc (vd t))(i := zero_desc),
      dfree := (dfree (vd t))(i := True)\<rparr>\<rparr>) \<and> ps p = procs t p"
proof -
  let ?t = "upd_vd (\<lambda>v. v\<lparr>dsc := (dsc v)(i := zero_desc), dfree := (dfree v)(i := True)\<rparr>) t"
  have "cpus ?t = cpus (locked_in VdiskLock s)" "locks ?t = locks (locked_in VdiskLock s)" "hart ?t = hart s"
    using assms(2) by (simp_all add: in_vdisk_def upd_vd_def)
  from locked_in_wakeup [OF assms(1) this, of DiskFreeCh] obtain ps where
    "wakeup DiskFreeCh ?t = Ok (?t\<lparr>procs := ps\<rparr>)" "ps p = procs t p" by (auto simp: upd_vd_def)
  moreover have "?t\<lparr>procs := ps\<rparr> = t\<lparr>procs := ps, vd := (vd t)\<lparr>dsc := (dsc (vd t))(i := zero_desc),
      dfree := (dfree (vd t))(i := True)\<rparr>\<rparr>" by (simp add: upd_vd_def)
  ultimately show ?thesis using assms(3,4) by (simp add: free_desc_def) blast
qed

lemma in_vdisk_upd [simp]: "in_vdisk s (t\<lparr>procs := ps, vd := v\<rparr>) = in_vdisk s t"
  by (simp add: in_vdisk_def)

lemma free_chain_three:
  assumes "alone p s" and "in_vdisk s t"
    and "\<not> dfree (vd t) 0" "\<not> dfree (vd t) 1" "\<not> dfree (vd t) 2"
    and "d_flags (dsc (vd t) 0) = VRING_DESC_F_NEXT" "d_next (dsc (vd t) 0) = 1"
    and "d_flags (dsc (vd t) 1) AND VRING_DESC_F_NEXT \<noteq> 0" "d_next (dsc (vd t) 1) = 2"
    and "d_flags (dsc (vd t) 2) AND VRING_DESC_F_NEXT = 0"
  shows "\<exists>ps. free_chain 0 t = Ok (t\<lparr>procs := ps, vd := (vd t)\<lparr>dsc := (dsc (vd t))(0 := zero_desc, 1 := zero_desc, 2 := zero_desc),
      dfree := (dfree (vd t))(0 := True, 1 := True, 2 := True)\<rparr>\<rparr>) \<and> ps p = procs t p"
proof -
  let ?v0 = "(vd t)\<lparr>dsc := (dsc (vd t))(0 := zero_desc), dfree := (dfree (vd t))(0 := True)\<rparr>"
  let ?v1 = "?v0\<lparr>dsc := (dsc ?v0)(1 := zero_desc), dfree := (dfree ?v0)(1 := True)\<rparr>"
  let ?v2 = "?v1\<lparr>dsc := (dsc ?v1)(2 := zero_desc), dfree := (dfree ?v1)(2 := True)\<rparr>"
  obtain ps0 where f0: "free_desc 0 t = Ok (t\<lparr>procs := ps0, vd := ?v0\<rparr>)" and p0: "ps0 p = procs t p"
    using free_desc_alone [OF assms(1,2), of 0] assms(3) by (auto simp: NUM_def)
  let ?t0 = "t\<lparr>procs := ps0, vd := ?v0\<rparr>"
  obtain ps1 where f1: "free_desc 1 ?t0 = Ok (?t0\<lparr>procs := ps1, vd := ?v1\<rparr>)" and p1: "ps1 p = procs ?t0 p"
    using free_desc_alone [OF assms(1), of ?t0 1] assms(2,4) by (auto simp: NUM_def)
  let ?t1 = "?t0\<lparr>procs := ps1, vd := ?v1\<rparr>"
  obtain ps2 where f2: "free_desc 2 ?t1 = Ok (?t1\<lparr>procs := ps2, vd := ?v2\<rparr>)" and p2: "ps2 p = procs ?t1 p"
    using free_desc_alone [OF assms(1), of ?t1 2] assms(2,5) by (auto simp: NUM_def)
  have "free_chain 0 t = free_chain 1 ?t0"
    using f0 assms(6,7) by (subst free_chain.simps) (simp add: VRING_DESC_F_NEXT_def)
  also have "\<dots> = free_chain 2 ?t1"
    using f1 assms(8,9) by (subst free_chain.simps) (simp add: Let_def)
  also have "\<dots> = Ok (?t1\<lparr>procs := ps2, vd := ?v2\<rparr>)"
    using f2 assms(10) by (subst free_chain.simps) (simp add: Let_def)
  finally show ?thesis using p0 p1 p2 by (intro exI [of _ ps2]) simp
qed

text \<open>Going to sleep on a submitted request and coming back with it completed.\<close>

lemma asleep_waiting:
  assumes "alone p s" and "in_vdisk s t" and "procs t p = procs s p" and "b_disk (bufs t b)" and "request (vd t) d b wr sec"
    and "seen_idx (vd t) = used_idx (vd t)" "avail_idx (vd t) = used_idx (vd t) + 1"
    and "avail_ring (vd t) (slot NUM (used_idx (vd t))) = of_nat d"
  shows "waiting p b d wr sec (asleep p (BufCh b) VdiskLock t)"
  using assms
  by (auto simp: waiting_def asleep_def in_vdisk_def locked_in_def alone_simps fun_eq_iff)

lemma sleep_serves:
  assumes sv: "serves sw" and al: "alone p s" and in_t: "in_vdisk s t" and pp: "procs t p = procs s p"
    and rq: "b_disk (bufs t b)" "request (vd t) d b wr sec"
      "seen_idx (vd t) = used_idx (vd t)" "avail_idx (vd t) = used_idx (vd t) + 1"
      "avail_ring (vd t) (slot NUM (used_idx (vd t))) = of_nat d"
  shows "\<exists>ps w. sleep sw (BufCh b) VdiskLock t = Ok (completed b d wr sec ps w t) \<and> ps p = procs s p"
proof -
  let ?a = "asleep p (BufCh b) VdiskLock t" and ?h = "hart s"
  have t: "cpus t = pushed (cpus s) ?h" "locks t = (locks s)(VdiskLock := held_by ?h)" "hart t = ?h"
    using in_t by (simp_all add: in_vdisk_def locked_in_def)
  from asleep_waiting [OF al in_t pp rq] sv obtain ps w where sw: "sw ?a = Ok (completed b d wr sec ps w ?a)"
    and ps: "ps p = (procs ?a p)\<lparr>p_state := RUNNING\<rparr>" unfolding serves_def by blast
  let ?c = "completed b d wr sec ps w ?a"
  let ?ps = "ps(p := (ps p)\<lparr>p_chan := NoChan\<rparr>)"
  have r: "runs_on p 1 t" using al t pp by (simp add: runs_on_def alone_simps pushed_noff)
  have sl: "sleep sw (BufCh b) VdiskLock t = bnd (release (ProcLock p) (upd_proc p (\<lambda>pr. pr\<lparr>p_chan := NoChan\<rparr>) ?c)) (acquire VdiskLock)"
  proof -
    have "cpus ?c = cpus t" "hart ?c = hart t" by (simp_all add: completed_def asleep_def)
    then have "upd_mycpu (\<lambda>c. c\<lparr>intena := intena (cpus t (hart t))\<rparr>) ?c = ?c" by (simp add: upd_mycpu_def cpuid_def)
    moreover have "locks t VdiskLock = held_by (hart t)" "unlocked (ProcLock p) t" using al t by (simp_all add: alone_simps)
    ultimately show ?thesis using sleep_switches [OF r, of VdiskLock sw "BufCh b"] sw by (simp add: Let_def)
  qed
  let ?u = "upd_proc p (\<lambda>pr. pr\<lparr>p_chan := NoChan\<rparr>) ?c"
  have rel: "release (ProcLock p) ?u = Ok (?u\<lparr>cpus := cpus s, locks := (locks ?u)(ProcLock p := free_lock)\<rparr>)"
  proof -
    have "release (ProcLock p) ?u = Ok (?u\<lparr>cpus := bumped (cpus s) (hart ?u), locks := (locks ?u)(ProcLock p := free_lock)\<rparr>)"
      by (rule release_pushed) (use al t in \<open>simp_all add: upd_proc_def completed_def asleep_def alone_simps\<close>)
    then show ?thesis using al t by (simp add: alone_simps upd_proc_def completed_def asleep_def)
  qed
  let ?x = "?u\<lparr>cpus := cpus s, locks := (locks ?u)(ProcLock p := free_lock)\<rparr>"
  have lx: "locks ?x = locks s" using al t by (auto simp: upd_proc_def completed_def asleep_def alone_def)
  have "acquire VdiskLock ?x = Ok (?x\<lparr>cpus := pushed (cpus s) ?h, locks := (locks s)(VdiskLock := held_by ?h)\<rparr>)"
    using al t lx by (subst acquire_ok) (simp_all add: alone_simps upd_proc_def completed_def asleep_def)
  moreover have "?x\<lparr>cpus := pushed (cpus s) ?h, locks := (locks s)(VdiskLock := held_by ?h)\<rparr> = completed b d wr sec ?ps w t"
    using t by (simp add: upd_proc_def completed_def asleep_def)
  ultimately have "sleep sw (BufCh b) VdiskLock t = Ok (completed b d wr sec ?ps w t)" using sl rel by simp
  moreover have "?ps p = procs s p" using ps pp al by (simp add: asleep_def alone_simps)
  ultimately show ?thesis by blast
qed

lemma rw_wait_serves:
  assumes "serves sw" and "alone p s" and "in_vdisk s t" and "procs t p = procs s p"
    and "b_disk (bufs t b)" "request (vd t) d b wr sec"
      "seen_idx (vd t) = used_idx (vd t)" "avail_idx (vd t) = used_idx (vd t) + 1"
      "avail_ring (vd t) (slot NUM (used_idx (vd t))) = of_nat d"
  shows "\<exists>ps w. rw_wait sw (Suc m) b t = Ok (completed b d wr sec ps w t) \<and> ps p = procs s p"
proof -
  from sleep_serves [OF assms] obtain ps w where
    r: "sleep sw (BufCh b) VdiskLock t = Ok (completed b d wr sec ps w t)" "ps p = procs s p" by blast
  have "rw_wait sw m b (completed b d wr sec ps w t) = Ok (completed b d wr sec ps w t)"
    by (cases m) (simp_all add: completed_def)
  then show ?thesis using r assms(5) by auto
qed

text \<open>What a request leaves behind: the block moved, the queue idle again.\<close>

definition moved :: "nat \<Rightarrow> bool \<Rightarrow> (nat \<Rightarrow> proc) \<Rightarrow> disk \<Rightarrow> (nat \<times> u32) list \<Rightarrow> 'a dstate_scheme \<Rightarrow> 'a dstate_scheme" where
  "moved b wr ps v w s = (let sec = sector_of (b_blockno (bufs s b)) in s\<lparr>procs := ps, vd := v, vwrites := w,
     bufs := (bufs s)(b := (bufs s b)\<lparr>b_data := (if wr then b_data (bufs s b) else get_block sec (sectors s)), b_disk := False\<rparr>),
     sectors := (if wr then put_block sec (b_data (bufs s b)) (sectors s) else sectors s),
     dtrace := (if wr then dtrace s @ [(sec, b_data (bufs s b))] else dtrace s)\<rparr>)"

definition req_vd :: "bool \<Rightarrow> nat \<Rightarrow> u64 \<Rightarrow> disk \<Rightarrow> disk" where
  "req_vd wr b sec v = (let v1 = format_req wr b sec 0 1 2 (v\<lparr>dfree := (dfree v)(0 := False, 1 := False, 2 := False)\<rparr>)
     in v1\<lparr>info_b := (info_b v1)(0 := Some b), avail_ring := (avail_ring v1)(slot NUM (avail_idx v1) := 0), avail_idx := avail_idx v1 + 1\<rparr>)"

definition submitted :: "nat \<Rightarrow> bool \<Rightarrow> 'a dstate_scheme \<Rightarrow> 'a dstate_scheme" where
  "submitted b wr s = (locked_in VdiskLock s)\<lparr>vd := req_vd wr b (sector_of (b_blockno (bufs s b))) (vd s),
     bufs := (bufs s)(b := (bufs s b)\<lparr>b_disk := True\<rparr>), vwrites := vwrites s @ [(VIRTIO_MMIO_QUEUE_NOTIFY, 0)]\<rparr>"

lemma submitted_eq:
  "submit_req b 0 (upd_vd (format_req wr b (sector_of (b_blockno (bufs s b))) 0 1 2)
     (upd_vd (\<lambda>v. v\<lparr>dfree := (dfree v)(0 := False, 1 := False, 2 := False)\<rparr>) (locked_in VdiskLock s))) = submitted b wr s"
  by (simp add: submit_req_def upd_vd_def upd_buf_def Let_def Rset_def submitted_def req_vd_def locked_in_def)

lemma req_vd_simps:
  assumes "disk_idle v"
  shows "request (req_vd wr b sec v) 0 b wr sec" "seen_idx (req_vd wr b sec v) = used_idx (req_vd wr b sec v)"
    "avail_idx (req_vd wr b sec v) = used_idx (req_vd wr b sec v) + 1"
    "avail_ring (req_vd wr b sec v) (slot NUM (used_idx (req_vd wr b sec v))) = of_nat 0"
    "\<not> dfree (req_vd wr b sec v) 0" "\<not> dfree (req_vd wr b sec v) 1" "\<not> dfree (req_vd wr b sec v) 2"
    "d_flags (dsc (req_vd wr b sec v) 0) = VRING_DESC_F_NEXT" "d_next (dsc (req_vd wr b sec v) 0) = 1"
    "d_flags (dsc (req_vd wr b sec v) 1) AND VRING_DESC_F_NEXT \<noteq> 0" "d_next (dsc (req_vd wr b sec v) 1) = 2"
    "d_flags (dsc (req_vd wr b sec v) 2) AND VRING_DESC_F_NEXT = 0"
    "\<forall>i<NUM. ((dfree (req_vd wr b sec v))(0 := True, 1 := True, 2 := True)) i"
  using assms
  by (simp_all add: req_vd_def format_req_def Let_def request_def disk_idle_def NUM_def
      VRING_DESC_F_NEXT_def VRING_DESC_F_WRITE_def)

lemma disk_rw_moves:
  assumes sv: "serves sw" and al: "alone p s" and idle: "disk_idle (vd s)"
  shows "\<exists>ps v w. virtio_disk_rw sw (Suc m) b wr s = Ok (moved b wr ps v w s) \<and> ps p = procs s p \<and> disk_idle v"
proof -
  let ?sec = "sector_of (b_blockno (bufs s b))"
  let ?s1 = "locked_in VdiskLock s"
  let ?s2 = "upd_vd (\<lambda>v. v\<lparr>dfree := (dfree v)(0 := False, 1 := False, 2 := False)\<rparr>) ?s1"
  let ?V = "req_vd wr b ?sec (vd s)"
  let ?s3 = "submitted b wr s"
  have a: "rw_alloc sw (Suc m) ?s1 = Ok ([0, 1, 2], ?s2)"
    by (rule rw_alloc_idle) (use idle in \<open>simp add: locked_in_def\<close>)
  have in3: "in_vdisk s ?s3" "procs ?s3 p = procs s p" and vd3: "vd ?s3 = ?V" "b_disk (bufs ?s3 b)"
    by (simp_all add: in_vdisk_def submitted_def locked_in_def)
  note q = req_vd_simps [OF idle, of wr b ?sec]
  obtain ps w where w: "rw_wait sw (Suc m) b ?s3 = Ok (completed b 0 wr ?sec ps w ?s3)" and ps: "ps p = procs s p"
    using rw_wait_serves [OF sv al in3 vd3(2), unfolded vd3(1), OF q(1-4)] by blast
  define s5 where "s5 = upd_vd (\<lambda>v. v\<lparr>info_b := (info_b v)(0 := None)\<rparr>) (completed b 0 wr ?sec ps w ?s3)"
  have in5: "in_vdisk s s5" using in3(1) by (simp add: in_vdisk_def completed_def upd_vd_def s5_def)
  have v5: "dfree (vd s5) = dfree ?V" "dsc (vd s5) = dsc ?V" "seen_idx (vd s5) = seen_idx ?V + 1"
    "used_idx (vd s5) = used_idx ?V + 1" "avail_idx (vd s5) = avail_idx ?V" "procs s5 p = procs s p"
    using vd3 ps by (simp_all add: s5_def completed_def upd_vd_def)
  let ?v = "(vd s5)\<lparr>dsc := (dsc (vd s5))(0 := zero_desc, 1 := zero_desc, 2 := zero_desc),
      dfree := (dfree (vd s5))(0 := True, 1 := True, 2 := True)\<rparr>"
  obtain ps' where f: "free_chain 0 s5 = Ok (s5\<lparr>procs := ps', vd := ?v\<rparr>)" and ps': "ps' p = procs s5 p"
    using free_chain_three [OF al in5] v5 q(5-12) by auto
  have rel: "release VdiskLock (s5\<lparr>procs := ps', vd := ?v\<rparr>) = Ok (s5\<lparr>procs := ps', vd := ?v, cpus := cpus s, locks := locks s\<rparr>)"
    by (subst alone_release [OF al]) (use in5 in \<open>simp_all add: in_vdisk_def\<close>)
  have acq: "acquire VdiskLock s = Ok ?s1" using al by (rule alone_acquire)
  have sec: "ucast (b_blockno (bufs s b) * of_nat (BSIZE div 512)) = ?sec" by (simp add: sector_of_def BSIZE_def)
  have "virtio_disk_rw sw (Suc m) b wr s = Ok (s5\<lparr>procs := ps', vd := ?v, cpus := cpus s, locks := locks s\<rparr>)"
    unfolding virtio_disk_rw_def sec Let_def acq
    using a w f rel unfolding s5_def submitted_eq [symmetric] by (simp del: rw_alloc.simps rw_wait.simps)
  moreover have "s5\<lparr>procs := ps', vd := ?v, cpus := cpus s, locks := locks s\<rparr> = moved b wr ps' ?v w s"
    by (simp add: moved_def Let_def completed_def upd_vd_def submitted_def locked_in_def s5_def)
  moreover have "disk_idle ?v" using q(2,3,13) v5 by (simp add: disk_idle_def)
  moreover have "ps' p = procs s p" using v5 ps' by simp
  ultimately show ?thesis by metis
qed

text \<open>C17: a disk request returns, and it has moved exactly one block: a write stores the buffer in the two
  sectors of the block and changes no other sector, a read fills the buffer from them. All descriptors are free
  again afterwards.\<close>

theorem virtio_disk_rw_transfers:
  assumes "serves sw" and "alone p s" and "disk_idle (vd s)"
  shows "\<exists>s'. virtio_disk_rw sw (Suc m) b wr s = Ok s' \<and> disk_idle (vd s') \<and> alone p s' \<and>
    sectors s' = (if wr then put_block (sector_of (b_blockno (bufs s b))) (b_data (bufs s b)) (sectors s) else sectors s) \<and>
    b_data (bufs s' b) = (if wr then b_data (bufs s b) else get_block (sector_of (b_blockno (bufs s b))) (sectors s)) \<and>
    (\<forall>i. i \<noteq> b \<longrightarrow> bufs s' i = bufs s i)"
proof -
  obtain ps v w where r: "virtio_disk_rw sw (Suc m) b wr s = Ok (moved b wr ps v w s)" "ps p = procs s p" "disk_idle v"
    using disk_rw_moves [OF assms] by blast
  moreover have "alone p (moved b wr ps v w s)" using assms(2) r(2) by (simp add: alone_def moved_def Let_def)
  ultimately show ?thesis by (simp add: moved_def Let_def)
qed

section \<open>A device and the interrupt handler satisfy the contract\<close>

text \<open>A device that serves the next request of the queue at once.\<close>

definition blk_device :: "'a dstate_scheme \<Rightarrow> 'a dstate_scheme" where
  "blk_device t =
     (let v = vd t; d = unat (avail_ring v (slot NUM (used_idx v))); d1 = unat (d_next (dsc v d)); sec = rq_sector (ops v d);
          v' = v\<lparr>info_status := (info_status v)(d := 0), used_ring := (used_ring v)(slot NUM (used_idx v) := of_nat d), used_idx := used_idx v + 1\<rparr>
      in case d_addr (dsc v d1) of
           DmaData b \<Rightarrow> (if rq_type (ops v d) = VIRTIO_BLK_T_OUT
             then t\<lparr>vd := v', sectors := put_block sec (b_data (bufs t b)) (sectors t), dtrace := dtrace t @ [(sec, b_data (bufs t b))]\<rparr>
             else t\<lparr>vd := v', bufs := (bufs t)(b := (bufs t b)\<lparr>b_data := get_block sec (sectors t)\<rparr>)\<rparr>)
         | _ \<Rightarrow> t)"

text \<open>
  The hart after process \<open>p\<close> has gone to sleep: the scheduler releases its lock, the device finishes and
  interrupts, the handler runs, and the scheduler picks \<open>p\<close> again.
\<close>

definition disk_switch :: "device \<Rightarrow> 'a dstate_scheme \<Rightarrow> ('a dstate_scheme) res" where
  "disk_switch dev t =
     (case cproc (cpus t (hart t)) of None \<Rightarrow> Err Asleep
      | Some p \<Rightarrow> bnd (release (ProcLock p) (set_cproc None t)) (\<lambda>t1.
          bnd (virtio_disk_intr dev (blk_device t1)) (\<lambda>t2.
          bnd (acquire (ProcLock p) t2) (\<lambda>t3.
            if p_state (procs t3 p) = RUNNABLE
            then Ok (set_cproc (Some p) (upd_proc p (\<lambda>pr. pr\<lparr>p_state := RUNNING\<rparr>) t3)) else Err Asleep))))"

definition resting :: "cpu \<Rightarrow> cpu" where
  "resting c = c\<lparr>cproc := None, noff := 0, sie := sie c \<or> intena c\<rparr>"

lemma sched_release:
  assumes "waiting p b d wr sec t"
  shows "release (ProcLock p) (set_cproc None t) = Ok (t\<lparr>cpus := (cpus t)(hart t := resting (cpus t (hart t))), locks := (\<lambda>_. free_lock)\<rparr>)"
proof -
  let ?s = "set_cproc None t"
  have s: "cpus ?s = (cpus t)(hart t := (cpus t (hart t))\<lparr>cproc := None\<rparr>)" "hart ?s = hart t" "locks ?s = locks t"
    by (simp_all add: set_cproc_def upd_mycpu_def cpuid_def)
  have "release (ProcLock p) ?s = Ok (?s\<lparr>cpus := popped (cpus ?s) (hart ?s), locks := (locks ?s)(ProcLock p := free_lock)\<rparr>)"
    by (rule release_ok) (use assms s in \<open>simp_all add: waiting_def\<close>)
  moreover have "popped (cpus ?s) (hart ?s) = (cpus t)(hart t := resting (cpus t (hart t)))"
    using assms unfolding s waiting_def by (auto simp: popped_def resting_def)
  moreover have "(locks ?s)(ProcLock p := free_lock) = (\<lambda>_. free_lock)" using assms unfolding s waiting_def by auto
  ultimately show ?thesis by (simp add: set_cproc_def upd_mycpu_def)
qed

lemma unat_small16: "d < NUM \<Longrightarrow> unat (of_nat d :: u16) = d" "d < NUM \<Longrightarrow> unat (of_nat d :: u32) = d"
  by (simp_all add: NUM_def unat_of_nat)

lemma intr_loop_one:
  assumes "procs_quiet s" and "nested s" and "seen_idx (vd s) + 1 = used_idx (vd s)"
    and "used_ring (vd s) (slot NUM (seen_idx (vd s))) = of_nat d" and "d < NUM" and "info_status (vd s) d = 0" and "info_b (vd s) d = Some b"
  shows "intr_loop s = Ok (s\<lparr>procs := (\<lambda>p. if p < NPROC then woken (BufCh b) (cproc (cpus s (hart s))) p (procs s p) else procs s p),
     bufs := (bufs s)(b := (bufs s b)\<lparr>b_disk := False\<rparr>), vd := (vd s)\<lparr>seen_idx := seen_idx (vd s) + 1\<rparr>\<rparr>)"
proof -
  let ?u = "upd_buf b (\<lambda>bf. bf\<lparr>b_disk := False\<rparr>) s"
  have "procs_quiet ?u" using assms(1) by (simp add: procs_quiet_def upd_buf_def)
  from wakeup_wakes_all [OF this, of "BufCh b"] assms(2)
  have w: "wakeup (BufCh b) ?u = Ok (?u\<lparr>procs := (\<lambda>p. if p < NPROC then woken (BufCh b) (cproc (cpus s (hart s))) p (procs s p) else procs s p)\<rparr>)"
    by (simp add: upd_buf_def nested_def cong: if_cong)
  have ne: "seen_idx (vd s) \<noteq> used_idx (vd s)" using assms(3) by (metis add_cancel_left_right zero_neq_one)
  have "intr_loop s = intr_loop (upd_vd (\<lambda>v. v\<lparr>seen_idx := seen_idx v + 1\<rparr>)
      (?u\<lparr>procs := (\<lambda>p. if p < NPROC then woken (BufCh b) (cproc (cpus s (hart s))) p (procs s p) else procs s p)\<rparr>))"
    using assms ne w by (subst intr_loop.simps) (simp add: unat_small16 Let_def)
  also have "\<dots> = Ok (s\<lparr>procs := (\<lambda>p. if p < NPROC then woken (BufCh b) (cproc (cpus s (hart s))) p (procs s p) else procs s p),
     bufs := (bufs s)(b := (bufs s b)\<lparr>b_disk := False\<rparr>), vd := (vd s)\<lparr>seen_idx := seen_idx (vd s) + 1\<rparr>\<rparr>)"
    using assms(3) by (subst intr_loop.simps) (simp add: upd_vd_def upd_buf_def)
  finally show ?thesis .
qed

lemma blk_device_completes:
  assumes "waiting p b d wr sec t"
  shows "blk_device (t\<lparr>cpus := c, locks := l\<rparr>) = t\<lparr>cpus := c, locks := l,
     vd := (vd t)\<lparr>info_status := (info_status (vd t))(d := 0),
       used_ring := (used_ring (vd t))(slot NUM (used_idx (vd t)) := of_nat d), used_idx := used_idx (vd t) + 1\<rparr>,
     bufs := (bufs t)(b := (bufs t b)\<lparr>b_data := (if wr then b_data (bufs t b) else get_block sec (sectors t))\<rparr>),
     sectors := (if wr then put_block sec (b_data (bufs t b)) (sectors t) else sectors t),
     dtrace := (if wr then dtrace t @ [(sec, b_data (bufs t b))] else dtrace t)\<rparr>"
proof -
  have d: "unat (avail_ring (vd t) (slot NUM (used_idx (vd t)))) = d"
    using assms by (simp add: waiting_def request_def unat_small16)
  have r: "d_addr (dsc (vd t) (unat (d_next (dsc (vd t) d)))) = DmaData b" "rq_sector (ops (vd t) d) = sec"
    "rq_type (ops (vd t) d) = (if wr then VIRTIO_BLK_T_OUT else VIRTIO_BLK_T_IN)"
    using assms by (simp_all add: waiting_def request_def Let_def)
  show ?thesis
    using d r by (cases wr) (simp_all add: blk_device_def Let_def VIRTIO_BLK_T_IN_def VIRTIO_BLK_T_OUT_def)
qed

lemma disk_switch_serves: "serves (disk_switch dev :: 'a dstate_scheme \<Rightarrow> ('a dstate_scheme) res)"
  unfolding serves_def
proof (intro allI impI)
  fix t :: "'a dstate_scheme" and p b d wr sec
  assume w: "waiting p b d wr sec t"
  let ?h = "hart t"
  let ?c0 = "(cpus t)(?h := resting (cpus t ?h))"
  have cp: "cproc (cpus t ?h) = Some p" "noff (cpus t ?h) = 1" "\<not> sie (cpus t ?h)" "p < NPROC" using w by (simp_all add: waiting_def)
  have ok: "cpu_ok (?c0 ?h)" by (simp add: resting_def cpu_ok_def)
  have dd: "d < NUM" "info_b (vd t) d = Some b" using w by (simp_all add: waiting_def request_def)
  define t1 where "t1 = blk_device (t\<lparr>cpus := ?c0, locks := (\<lambda>_. free_lock)\<rparr>)"
  note t1 = t1_def [unfolded blk_device_completes [OF w]]
  define t2 where "t2 = Rset VIRTIO_MMIO_INTERRUPT_ACK (Rget dev VIRTIO_MMIO_INTERRUPT_STATUS (locked_in VdiskLock t1) AND 3) (locked_in VdiskLock t1)"
  obtain w2 where t2: "t2 = t1\<lparr>cpus := pushed (cpus t1) (hart t1), locks := (locks t1)(VdiskLock := held_by (hart t1)), vwrites := w2\<rparr>"
    unfolding t2_def Rset_def locked_in_def by blast
  have acq: "acquire VdiskLock t1 = Ok (locked_in VdiskLock t1)" by (simp add: t1 locked_in_def)
  define ps where "ps = (\<lambda>q. if q < NPROC then woken (BufCh b) None q (procs t q) else procs t q)"
  have c2: "cproc (cpus t2 (hart t2)) = None" "procs t2 = procs t" "hart t2 = ?h" by (simp_all add: t2 t1 resting_def)
  have pq: "procs_quiet t2" using ok by (auto simp: procs_quiet_def t2 t1)
  have nt: "nested t2" using ok by (simp add: nested_def t2 t1)
  have v2: "seen_idx (vd t2) + 1 = used_idx (vd t2)" "used_ring (vd t2) (slot NUM (seen_idx (vd t2))) = of_nat d"
    "info_status (vd t2) d = 0" "info_b (vd t2) d = Some b"
    using w dd by (simp_all add: t2 t1 waiting_def)
  have il: "intr_loop t2 = Ok (t2\<lparr>procs := ps,
     bufs := (bufs t2)(b := (bufs t2 b)\<lparr>b_disk := False\<rparr>), vd := (vd t2)\<lparr>seen_idx := seen_idx (vd t2) + 1\<rparr>\<rparr>)"
    by (rule intr_loop_one [OF pq nt v2(1-2) dd(1) v2(3-4), unfolded c2(1,2), folded ps_def])
  let ?t3 = "t2\<lparr>procs := ps, bufs := (bufs t2)(b := (bufs t2 b)\<lparr>b_disk := False\<rparr>), vd := (vd t2)\<lparr>seen_idx := seen_idx (vd t2) + 1\<rparr>\<rparr>"
  let ?t4 = "?t3\<lparr>cpus := bumped ?c0 ?h, locks := (\<lambda>_. free_lock)\<rparr>"
  have rel: "release VdiskLock ?t3 = Ok ?t4"
  proof -
    have "release VdiskLock ?t3 = Ok (?t3\<lparr>cpus := bumped ?c0 (hart ?t3), locks := (locks ?t3)(VdiskLock := free_lock)\<rparr>)"
      by (rule release_pushed) (use ok in \<open>simp_all add: t2 t1\<close>)
    moreover have "(locks ?t3)(VdiskLock := free_lock) = (\<lambda>_. free_lock)" by (auto simp: t2 t1)
    ultimately show ?thesis using c2 by simp
  qed
  have intr: "virtio_disk_intr dev t1 = Ok ?t4" unfolding virtio_disk_intr_def acq bnd.simps t2_def [symmetric] il by (rule rel)
  have ra: "acquire (ProcLock p) ?t4 = Ok (?t4\<lparr>cpus := pushed ?c0 ?h, locks := (\<lambda>_. free_lock)(ProcLock p := held_by ?h)\<rparr>)"
    using c2 by simp
  have wp: "ps p = (procs t p)\<lparr>p_state := RUNNABLE\<rparr>" using w by (simp add: waiting_def woken_def ps_def)
  have cc: "(pushed ?c0 ?h)(?h := (pushed ?c0 ?h ?h)\<lparr>cproc := Some p\<rparr>) = cpus t"
    using cp by (auto simp: pushed_def resting_def fun_eq_iff)
  have lk: "locks t = (\<lambda>_. free_lock)(ProcLock p := held_by ?h)" using w by (simp add: waiting_def)
  have c1: "(case cproc (cpus t ?h) of None \<Rightarrow> Err Asleep | Some p \<Rightarrow> F p) = F p" for F using cp by simp
  have "disk_switch dev t = Ok (set_cproc (Some p) (upd_proc p (\<lambda>pr. pr\<lparr>p_state := RUNNING\<rparr>)
      (?t4\<lparr>cpus := pushed ?c0 ?h, locks := (\<lambda>_. free_lock)(ProcLock p := held_by ?h)\<rparr>)))"
    unfolding disk_switch_def c1 sched_release [OF w] bnd.simps t1_def [symmetric] intr ra using wp by simp
  also have "\<dots> = Ok (completed b d wr sec (ps(p := (ps p)\<lparr>p_state := RUNNING\<rparr>)) (vwrites t2) t)"
  proof -
    define c9 where "c9 = pushed ?c0 ?h"
    have "c9(?h := (c9 ?h)\<lparr>cproc := Some p\<rparr>) = cpus t" using cc by (simp only: c9_def)
    then show ?thesis
      unfolding c9_def [symmetric]
      by (simp add: lk [symmetric] set_cproc_def upd_mycpu_def cpuid_def upd_proc_def completed_def t2 t1)
  qed
  finally show "\<exists>ps w. disk_switch dev t = Ok (completed b d wr sec ps w t) \<and> ps p = (procs t p)\<lparr>p_state := RUNNING\<rparr>"
    using wp by (intro exI [of _ "ps(p := (ps p)\<lparr>p_state := RUNNING\<rparr>)"] exI [of _ "vwrites t2"]) simp
qed

end
