(* ===== verification/Bio.thy ===== *)
theory Bio
  imports Disk
begin

text \<open>
  kernel/bio.c: the buffer cache. Buffers are numbered; the list head is number \<open>NBUF\<close>. The doubly linked
  list through \<open>prev\<close> and \<open>next\<close> represents a list of the buffers, most recently used first; the lemmas
  show the pointer operations on it, then what \<open>bread\<close>, \<open>bwrite\<close>, \<open>brelse\<close>, \<open>bpin\<close> and \<open>bunpin\<close> do to the
  contents of blocks as the file system sees them.
\<close>

section \<open>Operations\<close>

definition ROOTDEV :: u32 where "ROOTDEV = 1"

definition binit :: "'a dstate_scheme \<Rightarrow> 'a dstate_scheme" where
  "binit s =
     fold (\<lambda>b s.
       let s1 = upd_buf b (\<lambda>bf. bf\<lparr>b_next := b_next (bufs s NBUF), b_prev := NBUF\<rparr>) s;
           s2 = initsleeplock b s1;
           s3 = upd_buf (b_next (bufs s2 NBUF)) (\<lambda>bf. bf\<lparr>b_prev := b\<rparr>) s2
       in upd_buf NBUF (\<lambda>bf. bf\<lparr>b_next := b\<rparr>) s3)
     [0..<NBUF] (upd_buf NBUF (\<lambda>bf. bf\<lparr>b_prev := NBUF, b_next := NBUF\<rparr>) (initlock BcacheLock s))"

text \<open>The two scans. \<open>k\<close> bounds the number of steps; a list that does not come back to its head would be
  followed for ever (\<open>Spin\<close>).\<close>

primrec bget_find :: "nat \<Rightarrow> nat \<Rightarrow> u32 \<Rightarrow> u32 \<Rightarrow> 'a dstate_scheme \<Rightarrow> nat option res" where
  "bget_find 0 b dev blockno s = Err Spin"
| "bget_find (Suc k) b dev blockno s =
     (if b = NBUF then Ok None
      else if b_dev (bufs s b) = dev \<and> b_blockno (bufs s b) = blockno then Ok (Some b)
      else bget_find k (b_next (bufs s b)) dev blockno s)"

primrec bget_unused :: "nat \<Rightarrow> nat \<Rightarrow> 'a dstate_scheme \<Rightarrow> nat option res" where
  "bget_unused 0 b s = Err Spin"
| "bget_unused (Suc k) b s =
     (if b = NBUF then Ok None
      else if b_refcnt (bufs s b) = 0 then Ok (Some b)
      else bget_unused k (b_prev (bufs s b)) s)"

definition bget :: "('a dstate_scheme \<Rightarrow> ('a dstate_scheme) res) \<Rightarrow> nat \<Rightarrow> u32 \<Rightarrow> u32 \<Rightarrow> 'a dstate_scheme \<Rightarrow>
    (nat \<times> 'a dstate_scheme) res" where
  "bget sw m dev blockno s =
     bnd (acquire BcacheLock s) (\<lambda>s1.
     bnd (bget_find (Suc NBUF) (b_next (bufs s1 NBUF)) dev blockno s1) (\<lambda>hit.
     case hit of
       Some b \<Rightarrow>
         bnd (release BcacheLock (upd_buf b (\<lambda>bf. bf\<lparr>b_refcnt := b_refcnt bf + 1\<rparr>) s1)) (\<lambda>s2.
         bnd (acquiresleep sw m b s2) (\<lambda>s3. Ok (b, s3)))
     | None \<Rightarrow>
         bnd (bget_unused (Suc NBUF) (b_prev (bufs s1 NBUF)) s1) (\<lambda>lru.
         case lru of
           Some b \<Rightarrow>
             bnd (release BcacheLock (upd_buf b (\<lambda>bf. bf\<lparr>b_dev := dev, b_blockno := blockno, b_valid := False, b_refcnt := 1\<rparr>) s1)) (\<lambda>s2.
             bnd (acquiresleep sw m b s2) (\<lambda>s3. Ok (b, s3)))
         | None \<Rightarrow> Err (Panic ''bget: no buffers''))))"

definition bread :: "('a dstate_scheme \<Rightarrow> ('a dstate_scheme) res) \<Rightarrow> nat \<Rightarrow> u32 \<Rightarrow> u32 \<Rightarrow> 'a dstate_scheme \<Rightarrow>
    (nat \<times> 'a dstate_scheme) res" where
  "bread sw m dev blockno s =
     bnd (bget sw m dev blockno s) (\<lambda>(b, s1).
     if \<not> b_valid (bufs s1 b) then
       bnd (virtio_disk_rw sw m b False s1) (\<lambda>s2. Ok (b, upd_buf b (\<lambda>bf. bf\<lparr>b_valid := True\<rparr>) s2))
     else Ok (b, s1))"

definition bwrite :: "('a dstate_scheme \<Rightarrow> ('a dstate_scheme) res) \<Rightarrow> nat \<Rightarrow> nat \<Rightarrow> 'a dstate_scheme \<Rightarrow>
    ('a dstate_scheme) res" where
  "bwrite sw m b s =
     bnd (holdingsleep b s) (\<lambda>(h, s1).
     if \<not> h then Err (Panic ''bwrite'') else virtio_disk_rw sw m b True s1)"

text \<open>The pointer code of \<open>brelse\<close>: take \<open>b\<close> out of the list and put it behind the head.\<close>

definition move_front :: "nat \<Rightarrow> 'a dstate_scheme \<Rightarrow> 'a dstate_scheme" where
  "move_front b s =
     (let s1 = upd_buf (b_next (bufs s b)) (\<lambda>bf. bf\<lparr>b_prev := b_prev (bufs s b)\<rparr>) s;
          s2 = upd_buf (b_prev (bufs s1 b)) (\<lambda>bf. bf\<lparr>b_next := b_next (bufs s1 b)\<rparr>) s1;
          s3 = upd_buf b (\<lambda>bf. bf\<lparr>b_next := b_next (bufs s2 NBUF)\<rparr>) s2;
          s4 = upd_buf b (\<lambda>bf. bf\<lparr>b_prev := NBUF\<rparr>) s3;
          s5 = upd_buf (b_next (bufs s4 NBUF)) (\<lambda>bf. bf\<lparr>b_prev := b\<rparr>) s4
      in upd_buf NBUF (\<lambda>bf. bf\<lparr>b_next := b\<rparr>) s5)"

definition brelse :: "nat \<Rightarrow> 'a dstate_scheme \<Rightarrow> ('a dstate_scheme) res" where
  "brelse b s =
     bnd (holdingsleep b s) (\<lambda>(h, s0).
     if \<not> h then Err (Panic ''brelse'')
     else bnd (releasesleep b s0) (\<lambda>s1.
       bnd (acquire BcacheLock s1) (\<lambda>s2.
       let s3 = upd_buf b (\<lambda>bf. bf\<lparr>b_refcnt := b_refcnt bf - 1\<rparr>) s2
       in release BcacheLock (if b_refcnt (bufs s3 b) = 0 then move_front b s3 else s3))))"

definition bpin :: "nat \<Rightarrow> 'a dstate_scheme \<Rightarrow> ('a dstate_scheme) res" where
  "bpin b s = bnd (acquire BcacheLock s) (\<lambda>s1.
     release BcacheLock (upd_buf b (\<lambda>bf. bf\<lparr>b_refcnt := b_refcnt bf + 1\<rparr>) s1))"

definition bunpin :: "nat \<Rightarrow> 'a dstate_scheme \<Rightarrow> ('a dstate_scheme) res" where
  "bunpin b s = bnd (acquire BcacheLock s) (\<lambda>s1.
     release BcacheLock (upd_buf b (\<lambda>bf. bf\<lparr>b_refcnt := b_refcnt bf - 1\<rparr>) s1))"

section \<open>The list\<close>

text \<open>Following \<open>f\<close> from \<open>a\<close> visits \<open>xs\<close> and then arrives at \<open>z\<close>.\<close>

primrec path :: "('n \<Rightarrow> 'n) \<Rightarrow> 'n \<Rightarrow> 'n list \<Rightarrow> 'n \<Rightarrow> bool" where
  "path f a [] z \<longleftrightarrow> f a = z"
| "path f a (x # xs) z \<longleftrightarrow> f a = x \<and> path f x xs z"

lemma path_append: "path f a (us @ b # vs) z \<longleftrightarrow> path f a us b \<and> path f b vs z"
  by (induction us arbitrary: a) auto

lemma path_snoc: "path f a (us @ [b]) z \<longleftrightarrow> path f a us b \<and> f b = z"
  by (simp add: path_append)

lemma path_other: "x \<notin> insert a (set xs) \<Longrightarrow> path (f(x := y)) a xs z \<longleftrightarrow> path f a xs z"
  by (induction xs arbitrary: a) auto

lemma path_redirect: "distinct (a # us) \<Longrightarrow> path f a us b \<Longrightarrow> path (f(last (a # us) := c)) a us c"
proof (induction us arbitrary: a)
  case (Cons u us)
  then show ?case by (cases "us = []") (auto dest: last_in_set)
qed simp

lemma path_hd: "path f a us z \<Longrightarrow> f a = hd (us @ [z])"
  by (cases us) auto

lemma path_unlink:
  assumes "distinct (a # us @ b # vs)" and "path f a (us @ b # vs) z"
  shows "path (f(last (a # us) := f b)) a (us @ vs) z"
proof -
  let ?f = "f(last (a # us) := f b)"
  have us: "path ?f a us (f b)" using assms by (intro path_redirect [of a us f b]) (auto simp: path_append)
  show ?thesis
  proof (cases vs)
    case Nil
    then show ?thesis using us assms(2) by (simp add: path_append)
  next
    case (Cons v vs')
    have "last (a # us) \<notin> insert v (set vs')" using assms(1) Cons by (auto dest: last_in_set split: if_splits)
    then have "path ?f v vs' z" using assms(2) Cons by (simp add: path_append path_other)
    then show ?thesis using us assms(2) Cons by (simp add: path_append)
  qed
qed

text \<open>Putting \<open>b\<close> first in one direction is putting it last in the other.\<close>

lemma path_first:
  "b \<notin> insert a (set xs) \<Longrightarrow> a \<notin> set xs \<Longrightarrow> path f a xs a \<Longrightarrow> path (f(b := f a, a := b)) a (b # xs) a"
  by (cases xs) (auto simp: path_other)

lemma path_last:
  assumes "distinct (a # xs)" and "b \<notin> insert a (set xs)" and "path f a xs a"
  shows "path (f(b := a, last (a # xs) := b)) a (xs @ [b]) a"
proof -
  have "path (f(b := a)) a xs a" using assms by (simp add: path_other)
  from path_redirect [OF assms(1) this, of b] have "path (f(b := a, last (a # xs) := b)) a xs b" .
  moreover have "last (a # xs) \<noteq> b" using assms(2) by (auto dest: last_in_set split: if_splits)
  ultimately show ?thesis by (simp add: path_snoc)
qed

abbreviation nexts :: "'a dstate_scheme \<Rightarrow> nat \<Rightarrow> nat" where
  "nexts s \<equiv> (\<lambda>i. b_next (bufs s i))"

abbreviation prevs :: "'a dstate_scheme \<Rightarrow> nat \<Rightarrow> nat" where
  "prevs s \<equiv> (\<lambda>i. b_prev (bufs s i))"

text \<open>The buffers, most recently used first.\<close>

definition lru :: "'a dstate_scheme \<Rightarrow> nat list \<Rightarrow> bool" where
  "lru s xs \<longleftrightarrow> distinct xs \<and> set xs = {..<NBUF} \<and> path (nexts s) NBUF xs NBUF \<and> path (prevs s) NBUF (rev xs) NBUF"

lemma lru_cong: "nexts s' = nexts s \<Longrightarrow> prevs s' = prevs s \<Longrightarrow> lru s' xs = lru s xs"
  by (simp add: lru_def)

lemma links_upd:
  "nexts (upd_buf a (\<lambda>bf. bf\<lparr>b_prev := v\<rparr>) s) = nexts s" "nexts (upd_buf a (\<lambda>bf. bf\<lparr>b_next := v\<rparr>) s) = (nexts s)(a := v)"
  "prevs (upd_buf a (\<lambda>bf. bf\<lparr>b_next := v\<rparr>) s) = prevs s" "prevs (upd_buf a (\<lambda>bf. bf\<lparr>b_prev := v\<rparr>) s) = (prevs s)(a := v)"
  by (auto simp: upd_buf_def)

lemma links_upd_at:
  "b_next (bufs (upd_buf a (\<lambda>bf. bf\<lparr>b_prev := v\<rparr>) s) i) = b_next (bufs s i)"
  "b_next (bufs (upd_buf a (\<lambda>bf. bf\<lparr>b_next := v\<rparr>) s) i) = ((nexts s)(a := v)) i"
  "b_prev (bufs (upd_buf a (\<lambda>bf. bf\<lparr>b_next := v\<rparr>) s) i) = b_prev (bufs s i)"
  "b_prev (bufs (upd_buf a (\<lambda>bf. bf\<lparr>b_prev := v\<rparr>) s) i) = ((prevs s)(a := v)) i"
  by (auto simp: upd_buf_def)

lemma move_front_links:
  assumes "b \<noteq> NBUF" and "nexts s b \<noteq> b" and "prevs s b \<noteq> b"
  shows "nexts (move_front b s) = ((nexts s)(prevs s b := nexts s b))(b := ((nexts s)(prevs s b := nexts s b)) NBUF, NBUF := b)"
    and "prevs (move_front b s) = ((prevs s)(nexts s b := prevs s b))(b := NBUF, ((nexts s)(prevs s b := nexts s b)) NBUF := b)"
  using assms unfolding move_front_def Let_def links_upd links_upd_at by (auto simp: fun_eq_iff)

lemma move_front_lru:
  assumes "lru s (us @ b # vs)"
  shows "lru (move_front b s) (b # us @ vs)"
proof -
  let ?n = "nexts s" and ?p = "prevs s" and ?H = NBUF
  have d: "distinct (?H # us @ b # vs)" "distinct (?H # rev vs @ b # rev us)" using assms by (auto simp: lru_def)
  have n: "path ?n ?H (us @ b # vs) ?H" and p: "path ?p ?H (rev vs @ b # rev us) ?H" using assms by (auto simp: lru_def)
  have nb: "?n b = hd (vs @ [?H])" and pb: "?p b = hd (rev us @ [?H])"
    using n p by (auto simp: path_append dest: path_hd)
  have nb': "?n b = last (?H # rev vs)" by (cases vs) (use nb in \<open>simp_all add: last_rev\<close>)
  have pb': "?p b = last (?H # us)" by (cases us rule: rev_cases) (use pb in simp_all)
  have nin: "?n b \<in> insert ?H (set vs)" by (cases vs) (use nb in simp_all)
  have pin: "?p b \<in> insert ?H (set us)" unfolding pb' by (cases us rule: rev_cases) simp_all
  have ne: "b \<noteq> ?H" "?n b \<noteq> b" "?p b \<noteq> b"
    using d nin pin by auto
  let ?n1 = "?n(?p b := ?n b)" and ?p1 = "?p(?n b := ?p b)"
  have n1: "path ?n1 ?H (us @ vs) ?H" unfolding pb' by (rule path_unlink [OF d(1) n])
  have p1: "path ?p1 ?H (rev vs @ rev us) ?H" unfolding nb' by (rule path_unlink [OF d(2) p])
  have "path (?n1(b := ?n1 ?H, ?H := b)) ?H (b # us @ vs) ?H"
    by (rule path_first) (use d n1 in auto)
  moreover have "?n1 ?H = last (?H # rev vs @ rev us)"
    unfolding path_hd [OF n1] by (cases us; cases vs) (simp_all add: last_rev)
  then have "path (?p1(b := ?H, ?n1 ?H := b)) ?H ((rev vs @ rev us) @ [b]) ?H"
    using path_last [OF _ _ p1, of b] d by auto
  ultimately show ?thesis
    using assms unfolding lru_def move_front_links [OF ne] by auto
qed

text \<open>A scan follows the list to its end at most: it never spins.\<close>

lemma bget_find_path:
  "path (nexts s) a xs NBUF \<Longrightarrow> NBUF \<notin> set xs \<Longrightarrow> length xs < k \<Longrightarrow>
   bget_find k (nexts s a) dev n s = Ok (find (\<lambda>b. b_dev (bufs s b) = dev \<and> b_blockno (bufs s b) = n) xs)"
proof (induction xs arbitrary: a k)
  case Nil
  then show ?case by (cases k) auto
next
  case (Cons x xs)
  then show ?case by (cases k) auto
qed

lemma bget_unused_path:
  "path (prevs s) a xs NBUF \<Longrightarrow> NBUF \<notin> set xs \<Longrightarrow> length xs < k \<Longrightarrow>
   bget_unused k (prevs s a) s = Ok (find (\<lambda>b. b_refcnt (bufs s b) = 0) xs)"
proof (induction xs arbitrary: a k)
  case Nil
  then show ?case by (cases k) auto
next
  case (Cons x xs)
  then show ?case by (cases k) auto
qed

lemma lru_length: "lru s xs \<Longrightarrow> length xs = NBUF"
  unfolding lru_def by (metis card_lessThan distinct_card)

lemma lru_find:
  assumes "lru s xs"
  shows "bget_find (Suc NBUF) (b_next (bufs s NBUF)) dev n s = Ok (find (\<lambda>b. b_dev (bufs s b) = dev \<and> b_blockno (bufs s b) = n) xs)"
    and "bget_unused (Suc NBUF) (b_prev (bufs s NBUF)) s = Ok (find (\<lambda>b. b_refcnt (bufs s b) = 0) (rev xs))"
  using assms lru_length [OF assms] bget_find_path [of s NBUF xs "Suc NBUF"] bget_unused_path [of s NBUF "rev xs" "Suc NBUF"]
  by (auto simp: lru_def)

section \<open>Initialisation\<close>

definition link_first :: "nat \<Rightarrow> 'a dstate_scheme \<Rightarrow> 'a dstate_scheme" where
  "link_first b s =
     (let s1 = upd_buf b (\<lambda>bf. bf\<lparr>b_next := b_next (bufs s NBUF), b_prev := NBUF\<rparr>) s;
          s2 = initsleeplock b s1;
          s3 = upd_buf (b_next (bufs s2 NBUF)) (\<lambda>bf. bf\<lparr>b_prev := b\<rparr>) s2
      in upd_buf NBUF (\<lambda>bf. bf\<lparr>b_next := b\<rparr>) s3)"

lemma link_first_links:
  assumes "b \<noteq> NBUF"
  shows "nexts (link_first b s) = (nexts s)(b := nexts s NBUF, NBUF := b)"
    and "prevs (link_first b s) = (prevs s)(b := NBUF, nexts s NBUF := b)"
  using assms by (auto simp: link_first_def Let_def upd_buf_def initsleeplock_def set_slock_def initlock_def fun_eq_iff)

lemma link_first_paths:
  assumes "distinct (NBUF # xs)" and "b \<notin> insert NBUF (set xs)"
    and "path (nexts s) NBUF xs NBUF" and "path (prevs s) NBUF (rev xs) NBUF"
  shows "path (nexts (link_first b s)) NBUF (b # xs) NBUF" and "path (prevs (link_first b s)) NBUF (rev (b # xs)) NBUF"
proof -
  have l: "nexts s NBUF = last (NBUF # rev xs)" using path_hd [OF assms(3)] by (cases xs) simp_all
  show "path (nexts (link_first b s)) NBUF (b # xs) NBUF"
    unfolding link_first_links(1) [of b s] using path_first [of b NBUF xs "nexts s"] assms link_first_links(1) [of b s] by auto
  have "path ((prevs s)(b := NBUF, last (NBUF # rev xs) := b)) NBUF (rev xs @ [b]) NBUF"
    by (rule path_last) (use assms in auto)
  then show "path (prevs (link_first b s)) NBUF (rev (b # xs)) NBUF"
    using link_first_links(2) [of b s] assms(2) l by auto
qed

lemma binit_paths:
  "k \<le> NBUF \<Longrightarrow> path (nexts s) NBUF [] NBUF \<Longrightarrow> path (prevs s) NBUF [] NBUF \<Longrightarrow>
   path (nexts (fold link_first [0..<k] s)) NBUF (rev [0..<k]) NBUF \<and> path (prevs (fold link_first [0..<k] s)) NBUF [0..<k] NBUF"
proof (induction k)
  case (Suc k)
  let ?s = "fold link_first [0..<k] s"
  have "path (nexts (link_first k ?s)) NBUF (k # rev [0..<k]) NBUF" "path (prevs (link_first k ?s)) NBUF (rev (k # rev [0..<k])) NBUF"
    by (rule link_first_paths; use Suc in auto)+
  then show ?case by simp
qed simp

text \<open>C36: after \<open>binit\<close> the two directions of the list agree and hold every buffer once, the last one
  first.\<close>

theorem binit_lru: "lru (binit s) (rev [0..<NBUF])"
proof -
  have e: "binit s = fold link_first [0..<NBUF] (upd_buf NBUF (\<lambda>bf. bf\<lparr>b_prev := NBUF, b_next := NBUF\<rparr>) (initlock BcacheLock s))"
    by (simp add: binit_def link_first_def [abs_def])
  show ?thesis
    unfolding lru_def e using binit_paths [of NBUF "upd_buf NBUF (\<lambda>bf. bf\<lparr>b_prev := NBUF, b_next := NBUF\<rparr>) (initlock BcacheLock s)"]
    by (auto simp: upd_buf_def)
qed

end
