(* ===== verification/Cache.thy ===== *)
theory Cache
  imports Bio
begin

text \<open>
  What the buffer cache means for its clients: \<open>blk s n\<close> is the content of block \<open>n\<close> as a reader sees it, the
  buffer if the block is cached and the disk otherwise; \<open>rc s n\<close> counts the references to its buffer. The
  invariant \<open>cache_ok\<close> holds between operations; each operation of kernel/bio.c is characterised by its
  effect on \<open>blk\<close>, \<open>rc\<close> and the disk.
\<close>

section \<open>View and invariant\<close>

text \<open>Block numbers from \<open>2^31\<close> on have no sectors of their own: the sector number wraps around.\<close>

definition dblock :: "(u64 \<Rightarrow> u8 list) \<Rightarrow> u32 \<Rightarrow> u8 list" where
  "dblock d n = (if n < 2 ^ 31 then get_block (sector_of n) d else [])"

definition buf_of :: "'a dstate_scheme \<Rightarrow> u32 \<Rightarrow> nat option" where
  "buf_of s n = find (\<lambda>i. b_dev (bufs s i) = ROOTDEV \<and> b_blockno (bufs s i) = n) [0..<NBUF]"

definition blk :: "'a dstate_scheme \<Rightarrow> u32 \<Rightarrow> u8 list" where
  "blk s n = (case buf_of s n of Some i \<Rightarrow> b_data (bufs s i) | None \<Rightarrow> dblock (sectors s) n)"

definition rc :: "'a dstate_scheme \<Rightarrow> u32 \<Rightarrow> nat" where
  "rc s n = (case buf_of s n of Some i \<Rightarrow> unat (b_refcnt (bufs s i)) | None \<Rightarrow> 0)"

definition buf_ok :: "'a dstate_scheme \<Rightarrow> nat \<Rightarrow> bool" where
  "buf_ok s i \<longleftrightarrow> (b_dev (bufs s i) = ROOTDEV \<longrightarrow> b_valid (bufs s i) \<and> \<not> b_disk (bufs s i) \<and> b_blockno (bufs s i) < 2 ^ 31 \<and>
       length (b_data (bufs s i)) = BSIZE \<and>
       (b_refcnt (bufs s i) = 0 \<longrightarrow> b_data (bufs s i) = dblock (sectors s) (b_blockno (bufs s i)))) \<and>
     (b_refcnt (bufs s i) \<noteq> 0 \<longrightarrow> b_dev (bufs s i) = ROOTDEV) \<and>
     (slocked (slocks s i) \<longrightarrow> b_refcnt (bufs s i) \<noteq> 0)"

definition cache_ok :: "'a dstate_scheme \<Rightarrow> bool" where
  "cache_ok s \<longleftrightarrow> (\<exists>xs. lru s xs) \<and> disk_idle (vd s) \<and> (\<forall>sec. length (sectors s sec) = 512) \<and>
     (\<forall>i<NBUF. buf_ok s i) \<and>
     (\<forall>i<NBUF. \<forall>j<NBUF. b_dev (bufs s i) = ROOTDEV \<and> b_dev (bufs s j) = ROOTDEV \<and>
        b_blockno (bufs s i) = b_blockno (bufs s j) \<longrightarrow> i = j)"

text \<open>Operations of the cache leave the rest of the state alone, and of the running process everything.\<close>

definition same :: "nat \<Rightarrow> 'a dstate_scheme \<Rightarrow> 'a dstate_scheme \<Rightarrow> bool" where
  "same p s s' \<longleftrightarrow> procs s' p = procs s p \<and> s' = s\<lparr>procs := procs s', vd := vd s', vwrites := vwrites s', bufs := bufs s',
     slocks := slocks s', sectors := sectors s', dtrace := dtrace s'\<rparr>"

lemma sameI: "ps p = procs s p \<Longrightarrow> same p s (s\<lparr>procs := ps, vd := v, vwrites := w, bufs := b, slocks := l, sectors := d, dtrace := t\<rparr>)"
  by (simp add: same_def)

lemma same_refl [simp]: "same p s s"
  by (simp add: same_def)

lemma same_trans: "same p s s1 \<Longrightarrow> same p s1 s2 \<Longrightarrow> same p s s2"
proof -
  assume a: "same p s s1" "same p s1 s2"
  define q where "q = (procs s1, vd s1, vwrites s1, bufs s1, slocks s1, sectors s1, dtrace s1)"
  have 1: "s1 = s\<lparr>procs := procs s1, vd := vd s1, vwrites := vwrites s1, bufs := bufs s1,
     slocks := slocks s1, sectors := sectors s1, dtrace := dtrace s1\<rparr>" using a(1) by (simp add: same_def)
  have 2: "s2 = s1\<lparr>procs := procs s2, vd := vd s2, vwrites := vwrites s2, bufs := bufs s2,
     slocks := slocks s2, sectors := sectors s2, dtrace := dtrace s2\<rparr>" using a(2) by (simp add: same_def)
  have "s2 = s\<lparr>procs := procs s2, vd := vd s2, vwrites := vwrites s2, bufs := bufs s2,
     slocks := slocks s2, sectors := sectors s2, dtrace := dtrace s2\<rparr>"
    using 2 by (subst (asm) 1) simp
  then show ?thesis using a by (simp add: same_def)
qed

lemma same_fields:
  assumes "same p s s'"
  shows "locks s' = locks s" "cpus s' = cpus s" "hart s' = hart s" "mem s' = mem s" "procs s' p = procs s p" "pipes s' = pipes s"
proof -
  have e: "s' = s\<lparr>procs := procs s', vd := vd s', vwrites := vwrites s', bufs := bufs s',
     slocks := slocks s', sectors := sectors s', dtrace := dtrace s'\<rparr>" using assms by (simp add: same_def)
  show "locks s' = locks s" "cpus s' = cpus s" "hart s' = hart s" "mem s' = mem s" "pipes s' = pipes s" by (subst e, simp)+
  show "procs s' p = procs s p" using assms by (simp add: same_def)
qed

lemma same_alone: "same p s s' \<Longrightarrow> alone p s' = alone p s"
  by (rule alone_cong) (simp_all add: same_fields)

section \<open>Finding a block\<close>

lemma buf_of_SomeD:
  "buf_of s n = Some i \<Longrightarrow> i < NBUF \<and> b_dev (bufs s i) = ROOTDEV \<and> b_blockno (bufs s i) = n"
  unfolding buf_of_def by (auto simp: find_Some_iff)

lemma buf_of_NoneD: "buf_of s n = None \<Longrightarrow> i < NBUF \<Longrightarrow> \<not> (b_dev (bufs s i) = ROOTDEV \<and> b_blockno (bufs s i) = n)"
  unfolding buf_of_def by (auto simp: find_None_iff)

lemma cache_okD:
  assumes "cache_ok s"
  shows "\<exists>xs. lru s xs" "disk_idle (vd s)" "length (sectors s sec) = 512" "i < NBUF \<Longrightarrow> buf_ok s i"
    "i < NBUF \<Longrightarrow> j < NBUF \<Longrightarrow> b_dev (bufs s i) = ROOTDEV \<Longrightarrow> b_dev (bufs s j) = ROOTDEV \<Longrightarrow>
       b_blockno (bufs s i) = b_blockno (bufs s j) \<Longrightarrow> i = j"
  using assms unfolding cache_ok_def by blast+

lemma buf_of_eq:
  assumes "cache_ok s" and "i < NBUF" and "b_dev (bufs s i) = ROOTDEV" and "b_blockno (bufs s i) = n"
  shows "buf_of s n = Some i"
proof (cases "buf_of s n")
  case None
  then show ?thesis using buf_of_NoneD [OF None assms(2)] assms(3,4) by simp
next
  case (Some j)
  then show ?thesis using buf_of_SomeD [OF Some] cache_okD(5) [OF assms(1), of i j] assms by auto
qed

lemma find_SomeD: "find P xs = Some x \<Longrightarrow> x \<in> set xs \<and> P x"
  by (induction xs) (auto split: if_splits)

lemma find_of_set:
  assumes "\<And>x y. x \<in> set xs \<Longrightarrow> y \<in> set xs \<Longrightarrow> P x \<Longrightarrow> P y \<Longrightarrow> x = y" and "set xs = set ys"
  shows "find P xs = find P ys"
proof (cases "find P xs")
  case None
  then show ?thesis using assms(2) by (metis find_None_iff)
next
  case (Some x)
  then have x: "P x" "x \<in> set xs" by (auto simp: find_Some_iff)
  then obtain y where y: "find P ys = Some y" using assms(2) by (metis find_None_iff not_None_eq)
  then have "P y" "y \<in> set ys" by (auto simp: find_Some_iff)
  then show ?thesis using x y Some assms by auto
qed

lemma lru_buf_of:
  assumes "cache_ok s" and "lru s xs"
  shows "find (\<lambda>b. b_dev (bufs s b) = ROOTDEV \<and> b_blockno (bufs s b) = n) xs = buf_of s n"
  unfolding buf_of_def
proof (rule find_of_set)
  have s: "set xs = {..<NBUF}" using assms(2) by (simp add: lru_def)
  then show "set xs = set [0..<NBUF]" by (simp add: atLeast_upt)
  fix x y assume "x \<in> set xs" "y \<in> set xs" "b_dev (bufs s x) = ROOTDEV \<and> b_blockno (bufs s x) = n"
    "b_dev (bufs s y) = ROOTDEV \<and> b_blockno (bufs s y) = n"
  then show "x = y" using cache_okD(5) [OF assms(1), of x y] s by simp
qed

text \<open>A change of one buffer that keeps its identity.\<close>

lemma buf_of_keep:
  assumes "\<And>i. b_dev (bufs s' i) = b_dev (bufs s i)" and "\<And>i. b_blockno (bufs s' i) = b_blockno (bufs s i)"
  shows "buf_of s' = buf_of s"
  by (simp add: buf_of_def assms fun_eq_iff)

lemma rc_pos_iff: "cache_ok s \<Longrightarrow> 0 < rc s n \<longleftrightarrow> (\<exists>i. buf_of s n = Some i \<and> b_refcnt (bufs s i) \<noteq> 0)"
  by (auto simp: rc_def unat_gt_0 split: option.splits)

section \<open>Sectors of different blocks\<close>

lemma sector_of_unat: "n < 2 ^ 31 \<Longrightarrow> unat (sector_of n) = 2 * unat n"
proof -
  assume "n < 2 ^ 31"
  then have "unat n < 2 ^ 31" by (simp add: word_less_nat_alt)
  then have "unat (n * 2) = 2 * unat n" "2 * unat n < 2 ^ 64" by (simp_all add: unat_word_ariths)
  then show ?thesis by (simp add: sector_of_def unsigned_ucast_eq take_bit_nat_eq_self)
qed

lemma sector_of_disjoint:
  assumes "n < 2 ^ 31" and "k < 2 ^ 31" and "n \<noteq> k"
  shows "sector_of n \<noteq> sector_of k" "sector_of n + 1 \<noteq> sector_of k" "sector_of n \<noteq> sector_of k + 1" "sector_of n + 1 \<noteq> sector_of k + 1"
proof -
  have l: "unat n < 2 ^ 31" "unat k < 2 ^ 31" using assms(1,2) by (simp_all add: word_less_nat_alt)
  have ne: "unat n \<noteq> unat k" using assms(3) by (simp add: word_unat_eq_iff)
  have p: "unat (sector_of n + 1) = 2 * unat n + 1" "unat (sector_of k + 1) = 2 * unat k + 1"
    using l sector_of_unat [OF assms(1)] sector_of_unat [OF assms(2)] by (simp_all add: unat_word_ariths)
  note q = sector_of_unat [OF assms(1)] sector_of_unat [OF assms(2)]
  show "sector_of n \<noteq> sector_of k" using ne q by (metis mult_cancel1 zero_neq_numeral)
  show "sector_of n + 1 \<noteq> sector_of k + 1" using ne q by (metis add_right_cancel mult_cancel1 zero_neq_numeral)
  have odd: "2 * a + 1 \<noteq> 2 * c" for a c :: nat by presburger
  show "sector_of n + 1 \<noteq> sector_of k" using odd p q by metis
  show "sector_of n \<noteq> sector_of k + 1" using odd p q by metis
qed

lemma sector_of_ne [simp]: "sec + 1 \<noteq> (sec::u64)" "sec \<noteq> sec + 1"
  by simp_all

lemma dblock_put:
  assumes "n < 2 ^ 31"
  shows "dblock (put_block (sector_of n) bs d) n = bs"
  using assms by (simp add: dblock_def get_block_def put_block_def)

lemma dblock_put_other:
  assumes "n < 2 ^ 31" and "n \<noteq> k"
  shows "dblock (put_block (sector_of n) bs d) k = dblock d k"
proof (cases "k < 2 ^ 31")
  case True
  then show ?thesis using sector_of_disjoint [OF assms(1) True assms(2)] by (simp add: dblock_def get_block_def put_block_def fun_upd_apply)
qed (simp add: dblock_def)

lemma length_dblock: "n < 2 ^ 31 \<Longrightarrow> (\<forall>sec. length (d sec) = 512) \<Longrightarrow> length (dblock d n) = BSIZE"
  by (simp add: dblock_def get_block_def BSIZE_def)

lemma length_put: "length bs = BSIZE \<Longrightarrow> (\<forall>sec. length (d sec) = 512) \<Longrightarrow> length (put_block sec0 bs d sec) = 512"
  by (simp add: put_block_def BSIZE_def)

section \<open>Updates of one buffer\<close>

lemma cache_ok_upd:
  assumes ok: "cache_ok s" and i: "i < NBUF" and b: "bufs s' = (bufs s)(i := bf)"
    and l: "b_next bf = b_next (bufs s i)" "b_prev bf = b_prev (bufs s i)"
    and v: "disk_idle (vd s')" and d: "sectors s' = sectors s" and sl: "\<And>j. j \<noteq> i \<Longrightarrow> slocks s' j = slocks s j"
    and bi: "buf_ok s' i"
    and u: "\<And>j. j < NBUF \<Longrightarrow> j \<noteq> i \<Longrightarrow> b_dev bf = ROOTDEV \<Longrightarrow> b_dev (bufs s j) = ROOTDEV \<Longrightarrow> b_blockno (bufs s j) \<noteq> b_blockno bf"
  shows "cache_ok s'"
proof -
  have "nexts s' = nexts s" "prevs s' = prevs s" using b l by auto
  then have "\<exists>xs. lru s' xs" using cache_okD(1) [OF ok] lru_cong by metis
  moreover have "buf_ok s' j" if "j < NBUF" for j
    using cache_okD(4) [OF ok that] bi b d sl [of j] by (cases "j = i") (auto simp: buf_ok_def)
  moreover have "j = k" if "j < NBUF" "k < NBUF" "b_dev (bufs s' j) = ROOTDEV" "b_dev (bufs s' k) = ROOTDEV"
      "b_blockno (bufs s' j) = b_blockno (bufs s' k)" for j k
    using that u [of j] u [of k] cache_okD(5) [OF ok, of j k] b by (auto split: if_splits)
  ultimately show ?thesis using v cache_okD(3) [OF ok] d unfolding cache_ok_def by auto
qed

lemma buf_of_upd:
  assumes ok: "cache_ok s" "cache_ok s'" and i: "i < NBUF" and b: "bufs s' = (bufs s)(i := bf)"
  shows "buf_of s' k = (if b_dev bf = ROOTDEV \<and> b_blockno bf = k then Some i else if buf_of s k = Some i then None else buf_of s k)"
proof -
  consider "b_dev bf = ROOTDEV \<and> b_blockno bf = k" | "\<not> (b_dev bf = ROOTDEV \<and> b_blockno bf = k)" "\<exists>j. j \<noteq> i \<and> buf_of s k = Some j"
    | "\<not> (b_dev bf = ROOTDEV \<and> b_blockno bf = k)" "buf_of s k = None \<or> buf_of s k = Some i" by (cases "buf_of s k") auto
  then show ?thesis
  proof cases
    case 1
    then show ?thesis using buf_of_eq [OF ok(2) i] b by simp
  next
    case 2
    then obtain j where j: "j \<noteq> i" "buf_of s k = Some j" by blast
    then show ?thesis using buf_of_SomeD [OF j(2)] buf_of_eq [OF ok(2), of j k] b 2 by simp
  next
    case 3
    have "\<not> (b_dev (bufs s' j) = ROOTDEV \<and> b_blockno (bufs s' j) = k)" if j: "j < NBUF" for j
    proof (cases "j = i")
      case False
      then show ?thesis using 3 buf_of_NoneD [of s k j] buf_of_eq [OF ok(1) j, of k] j b by auto
    qed (use 3 b in simp)
    then have "buf_of s' k = None" unfolding buf_of_def by (auto simp: find_None_iff)
    then show ?thesis using 3 by auto
  qed
qed

text \<open>Process \<open>p\<close> holds the locked buffer \<open>i\<close> of block \<open>n\<close>.\<close>

definition holds :: "nat \<Rightarrow> 'a dstate_scheme \<Rightarrow> u32 \<Rightarrow> nat \<Rightarrow> bool" where
  "holds p s n i \<longleftrightarrow> buf_of s n = Some i \<and> holds_sleep p i s"

lemma holdsD:
  assumes "holds p s n i" and "cache_ok s"
  shows "i < NBUF" "b_dev (bufs s i) = ROOTDEV" "b_blockno (bufs s i) = n" "b_refcnt (bufs s i) \<noteq> 0" "blk s n = b_data (bufs s i)"
    "rc s n = unat (b_refcnt (bufs s i))" "0 < rc s n" "n < 2 ^ 31" "length (blk s n) = BSIZE" "b_valid (bufs s i)" "\<not> b_disk (bufs s i)"
proof -
  have bo: "buf_of s n = Some i" and h: "slocked (slocks s i)" using assms(1) by (auto simp: holds_def holds_sleep_def)
  from buf_of_SomeD [OF bo] show i: "i < NBUF" and d: "b_dev (bufs s i) = ROOTDEV" and b: "b_blockno (bufs s i) = n" by auto
  show r: "b_refcnt (bufs s i) \<noteq> 0" using cache_okD(4) [OF assms(2) i] h by (simp add: buf_ok_def)
  show k: "blk s n = b_data (bufs s i)" by (simp add: blk_def bo)
  show c: "rc s n = unat (b_refcnt (bufs s i))" by (simp add: rc_def bo)
  show "0 < rc s n" using r c by (simp add: unat_gt_0)
  show "n < 2 ^ 31" "length (blk s n) = BSIZE" "b_valid (bufs s i)" "\<not> b_disk (bufs s i)"
    using cache_okD(4) [OF assms(2) i] d b k by (simp_all add: buf_ok_def)
qed

text \<open>Changing a buffer that is referenced, but not the block it caches.\<close>

lemma upd_keeps:
  assumes ok: "cache_ok s" and bo: "buf_of s n = Some i" and b: "bufs s' = (bufs s)(i := bf)"
    and l: "b_next bf = b_next (bufs s i)" "b_prev bf = b_prev (bufs s i)" "b_dev bf = b_dev (bufs s i)" "b_blockno bf = n"
      "b_valid bf" "\<not> b_disk bf" "length (b_data bf) = BSIZE" "b_refcnt bf \<noteq> 0 \<or> \<not> slocked (slocks s' i) \<and> b_data bf = dblock (sectors s) n"
    and v: "disk_idle (vd s')" and d: "sectors s' = sectors s" and sl: "\<And>j. j \<noteq> i \<Longrightarrow> slocks s' j = slocks s j"
  shows "cache_ok s'" "buf_of s' = buf_of s" "blk s' = (blk s)(n := b_data bf)" "rc s' = (rc s)(n := unat (b_refcnt bf))"
proof -
  have i: "i < NBUF" "b_dev (bufs s i) = ROOTDEV" "b_blockno (bufs s i) = n" using buf_of_SomeD [OF bo] by auto
  have n: "n < 2 ^ 31" using cache_okD(4) [OF ok i(1)] i by (simp add: buf_ok_def)
  show ok': "cache_ok s'"
  proof (rule cache_ok_upd [OF ok i(1) b l(1,2) v d sl])
    show "buf_ok s' i" using b l d i n by (auto simp: buf_ok_def)
    show "b_blockno (bufs s j) \<noteq> b_blockno bf" if "j < NBUF" "j \<noteq> i" "b_dev (bufs s j) = ROOTDEV" for j
      using cache_okD(5) [OF ok, of j i] that i l(4) by auto
  qed
  have k: "b_dev (bufs s' j) = b_dev (bufs s j)" "b_blockno (bufs s' j) = b_blockno (bufs s j)" for j
    using b l i by auto
  show bo': "buf_of s' = buf_of s" by (rule buf_of_keep) (simp_all add: k)
  have o: "buf_of s m = Some i \<Longrightarrow> m = n" for m using buf_of_SomeD [of s m i] i by simp
  have o': "buf_of s m = Some j \<Longrightarrow> m \<noteq> n \<Longrightarrow> j \<noteq> i" for m j using o by auto
  show "blk s' = (blk s)(n := b_data bf)"
  proof (rule ext)
    show "blk s' m = ((blk s)(n := b_data bf)) m" for m
      using bo b d by (auto simp: blk_def bo' dest: o split: option.splits)
  qed
  show "rc s' = (rc s)(n := unat (b_refcnt bf))"
    using bo b by (auto simp: rc_def bo' fun_eq_iff dest: o split: option.splits)
qed

section \<open>Reading a block\<close>

definition locked_blk :: "'a dstate_scheme \<Rightarrow> u32 \<Rightarrow> bool" where
  "locked_blk s n = (case buf_of s n of Some i \<Rightarrow> slocked (slocks s i) | None \<Rightarrow> False)"

definition used :: "'a dstate_scheme \<Rightarrow> u32 set" where
  "used s = {n. 0 < rc s n}"

text \<open>The effect of \<open>bread\<close> that its clients rely on.\<close>

definition got :: "nat \<Rightarrow> u32 \<Rightarrow> nat \<Rightarrow> 'a dstate_scheme \<Rightarrow> 'a dstate_scheme \<Rightarrow> bool" where
  "got p n i s s' \<longleftrightarrow> same p s s' \<and> cache_ok s' \<and> holds p s' n i \<and> blk s' = blk s \<and> rc s' = (rc s)(n := rc s n + 1) \<and>
     locked_blk s' = (locked_blk s)(n := True) \<and> sectors s' = sectors s \<and> dtrace s' = dtrace s \<and>
     (\<forall>k. 0 < rc s k \<longrightarrow> buf_of s' k = buf_of s k) \<and> (\<forall>k j. k \<noteq> n \<and> holds p s k j \<longrightarrow> holds p s' k j) \<and>
     (\<forall>j\<ge>NBUF. slocks s' j = slocks s j)"

lemma release_bufs:
  assumes "alone p s"
  shows "release l ((locked_in l s)\<lparr>bufs := B\<rparr>) = Ok (s\<lparr>bufs := B\<rparr>)"
  by (subst alone_release [OF assms]) (simp_all add: locked_in_def)

lemma bget_alone:
  assumes "alone p s" and "cache_ok s"
  shows "bget sw m ROOTDEV n s = (case buf_of s n of
      Some b \<Rightarrow> bnd (acquiresleep sw m b (upd_buf b (\<lambda>bf. bf\<lparr>b_refcnt := b_refcnt bf + 1\<rparr>) s)) (\<lambda>s3. Ok (b, s3))
    | None \<Rightarrow> (case find (\<lambda>b. b_refcnt (bufs s b) = 0) (rev (SOME xs. lru s xs)) of
        Some b \<Rightarrow> bnd (acquiresleep sw m b (upd_buf b (\<lambda>bf. bf\<lparr>b_dev := ROOTDEV, b_blockno := n, b_valid := False, b_refcnt := 1\<rparr>) s))
          (\<lambda>s3. Ok (b, s3))
      | None \<Rightarrow> Err (Panic ''bget: no buffers'')))"
proof -
  let ?xs = "SOME xs. lru s xs" and ?l = "locked_in BcacheLock s"
  have l: "lru s ?xs" using cache_okD(1) [OF assms(2)] by (metis someI_ex)
  have bl: "bufs ?l = bufs s" by (simp add: locked_in_def)
  have ll: "lru ?l ?xs" using l lru_cong [of ?l s] bl by simp
  have f: "bget_find (Suc NBUF) (b_next (bufs ?l NBUF)) ROOTDEV n ?l = Ok (buf_of s n)"
    using lru_find(1) [OF ll, of ROOTDEV n] lru_buf_of [OF assms(2) l, of n] bl by (simp del: bget_find.simps)
  have u: "bget_unused (Suc NBUF) (b_prev (bufs ?l NBUF)) ?l = Ok (find (\<lambda>b. b_refcnt (bufs s b) = 0) (rev ?xs))"
    using lru_find(2) [OF ll] bl by (simp del: bget_unused.simps)
  have r: "release BcacheLock (upd_buf b g ?l) = Ok (upd_buf b g s)" for b g
    using release_bufs [OF assms(1), of BcacheLock "(bufs s)(b := g (bufs s b))"] bl by (simp add: upd_buf_def)
  show ?thesis
    unfolding bget_def alone_acquire [OF assms(1)] bnd.simps f u by (simp only: r bnd.simps cong: option.case_cong)
qed

lemma find_unused:
  assumes "cache_ok s" and "j < NBUF" and "b_refcnt (bufs s j) = 0"
  obtains i where "find (\<lambda>b. b_refcnt (bufs s b) = 0) (rev (SOME xs. lru s xs)) = Some i" "i < NBUF" "b_refcnt (bufs s i) = 0"
proof -
  have l: "lru s (SOME xs. lru s xs)" using cache_okD(1) [OF assms(1)] by (metis someI_ex)
  then have st: "set (rev (SOME xs. lru s xs)) = {..<NBUF}" by (simp add: lru_def)
  then have "find (\<lambda>b. b_refcnt (bufs s b) = 0) (rev (SOME xs. lru s xs)) \<noteq> None"
    using assms(2,3) unfolding find_None_iff by auto
  then obtain i where i: "find (\<lambda>b. b_refcnt (bufs s b) = 0) (rev (SOME xs. lru s xs)) = Some i" by auto
  from find_SomeD [OF this] show thesis using that i st by simp
qed

lemma bread_hit:
  assumes al: "alone p s" and ok: "cache_ok s" and bo: "buf_of s n = Some i" and lk: "\<not> locked_blk s n" and rn: "rc s n < 2 ^ 32 - 1"
  shows "\<exists>s'. bread sw m ROOTDEV n s = Ok (i, s') \<and> got p n i s s'"
proof -
  let ?bf = "(bufs s i)\<lparr>b_refcnt := b_refcnt (bufs s i) + 1\<rparr>"
  let ?s1 = "upd_buf i (\<lambda>bf. bf\<lparr>b_refcnt := b_refcnt bf + 1\<rparr>) s"
  let ?s2 = "set_slock i \<lparr>slocked = True, slpid = p_pid (procs s p)\<rparr> ?s1"
  have i: "i < NBUF" "b_dev (bufs s i) = ROOTDEV" "b_blockno (bufs s i) = n" using buf_of_SomeD [OF bo] by auto
  have bk: "b_valid (bufs s i)" "\<not> b_disk (bufs s i)" "length (b_data (bufs s i)) = BSIZE"
    using cache_okD(4) [OF ok i(1)] i by (simp_all add: buf_ok_def)
  have sl: "\<not> slocked (slocks s i)" using lk bo by (simp add: locked_blk_def)
  have "alone p ?s1" using al by (subst alone_cong [of _ s]) (simp_all add: upd_buf_def)
  then have a: "acquiresleep sw m i ?s1 = Ok ?s2"
    using acquiresleep_free [of p ?s1 i sw m] sl by (simp add: upd_buf_def)
  have r: "bread sw m ROOTDEV n s = Ok (i, ?s2)"
    unfolding bread_def bget_alone [OF al ok] using bo a bk by (simp add: set_slock_def upd_buf_def)
  have un: "unat (b_refcnt (bufs s i) + 1) = rc s n + 1" using rn bo by (simp add: rc_def unat_word_ariths)
  then have nz: "b_refcnt (bufs s i) + 1 \<noteq> 0" by (metis add_is_0 one_neq_zero unat_0)
  have v2: "bufs ?s2 = (bufs s)(i := ?bf)" "vd ?s2 = vd s" "sectors ?s2 = sectors s" "slocks ?s2 = (slocks s)(i := \<lparr>slocked = True, slpid = p_pid (procs s p)\<rparr>)"
    "procs ?s2 = procs s" "dtrace ?s2 = dtrace s"
    by (simp_all add: set_slock_def upd_buf_def)
  have q: "b_next ?bf = b_next (bufs s i)" "b_prev ?bf = b_prev (bufs s i)" "b_dev ?bf = b_dev (bufs s i)" "b_blockno ?bf = n"
      "b_valid ?bf" "\<not> b_disk ?bf" "length (b_data ?bf) = BSIZE" "b_refcnt ?bf \<noteq> 0 \<or> \<not> slocked (slocks ?s2 i) \<and> b_data ?bf = dblock (sectors s) n"
      "disk_idle (vd ?s2)" "sectors ?s2 = sectors s" "\<And>j. j \<noteq> i \<Longrightarrow> slocks ?s2 j = slocks s j"
    using v2 bk i nz cache_okD(2) [OF ok] by simp_all
  note k' = upd_keeps [OF ok bo v2(1) q]
  have sm: "same p s ?s2" by (simp add: same_def set_slock_def upd_buf_def)
  have inj: "buf_of s k = Some i \<Longrightarrow> k = n" for k using buf_of_SomeD [of s k i] i by simp
  have lb: "locked_blk ?s2 = (locked_blk s)(n := True)"
    using bo by (auto simp: locked_blk_def k'(2) v2(4) fun_eq_iff dest: inj split: option.splits)
  have h: "holds p ?s2 n i" using bo by (simp add: holds_def k'(2) holds_sleep_def v2)
  have ho: "holds p ?s2 k j" if "k \<noteq> n" "holds p s k j" for k j
    using that inj by (auto simp: holds_def k'(2) holds_sleep_def v2)
  have "blk ?s2 = blk s" using k'(3) bo by (auto simp: blk_def)
  moreover have "rc ?s2 = (rc s)(n := rc s n + 1)" using k'(4) un by simp
  ultimately have "got p n i s ?s2" using sm k'(1,2) h lb ho v2 i(1) by (simp add: got_def)
  then show ?thesis using r by blast
qed

lemma bread_miss:
  assumes sv: "serves sw" and al: "alone p s" and ok: "cache_ok s" and bo: "buf_of s n = None" and n: "n < 2 ^ 31"
    and j: "j < NBUF" "b_refcnt (bufs s j) = 0"
  shows "\<exists>i s'. bread sw (Suc m) ROOTDEV n s = Ok (i, s') \<and> got p n i s s'"
proof -
  obtain i where fi: "find (\<lambda>b. b_refcnt (bufs s b) = 0) (rev (SOME xs. lru s xs)) = Some i" and i: "i < NBUF" "b_refcnt (bufs s i) = 0"
    using find_unused [OF ok j] .
  let ?s1 = "upd_buf i (\<lambda>bf. bf\<lparr>b_dev := ROOTDEV, b_blockno := n, b_valid := False, b_refcnt := 1\<rparr>) s"
  define s2 where "s2 = set_slock i \<lparr>slocked = True, slpid = p_pid (procs s p)\<rparr> ?s1"
  have sl: "\<not> slocked (slocks s i)" using cache_okD(4) [OF ok i(1)] i by (auto simp: buf_ok_def)
  have "alone p ?s1" using al by (subst alone_cong [of _ s]) (simp_all add: upd_buf_def)
  then have a: "acquiresleep sw (Suc m) i ?s1 = Ok s2"
    using acquiresleep_free [of p ?s1 i sw "Suc m"] sl by (simp add: upd_buf_def s2_def del: acquiresleep_wait.simps)
  have v2: "bufs s2 = (bufs s)(i := (bufs s i)\<lparr>b_dev := ROOTDEV, b_blockno := n, b_valid := False, b_refcnt := 1\<rparr>)" "vd s2 = vd s"
    "sectors s2 = sectors s" "slocks s2 = (slocks s)(i := \<lparr>slocked = True, slpid = p_pid (procs s p)\<rparr>)" "procs s2 = procs s" "dtrace s2 = dtrace s"
    by (simp_all add: set_slock_def upd_buf_def s2_def)
  have al2: "alone p s2" using al by (subst alone_cong [of _ s]) (simp_all add: upd_buf_def set_slock_def s2_def)
  obtain ps v w where rw: "virtio_disk_rw sw (Suc m) i False s2 = Ok (moved i False ps v w s2)" and ps: "ps p = procs s p" and v: "disk_idle v"
    using disk_rw_moves [OF sv al2, of m i False] cache_okD(2) [OF ok] v2 by auto
  define s' where "s' = upd_buf i (\<lambda>bf. bf\<lparr>b_valid := True\<rparr>) (moved i False ps v w s2)"
  let ?bf = "bufs s' i"
  have v': "bufs s' = (bufs s)(i := ?bf)" "vd s' = v" "sectors s' = sectors s" "slocks s' = slocks s2" "procs s' = ps" "dtrace s' = dtrace s"
    using v2 by (simp_all add: s'_def moved_def upd_buf_def Let_def)
  have bf: "b_dev ?bf = ROOTDEV" "b_blockno ?bf = n" "b_refcnt ?bf = 1" "b_data ?bf = dblock (sectors s) n" "\<not> b_disk ?bf" "b_valid ?bf"
    "b_next ?bf = b_next (bufs s i)" "b_prev ?bf = b_prev (bufs s i)"
    using v2 n by (simp_all add: s'_def moved_def upd_buf_def Let_def dblock_def)
  have oth: "bufs s' k = bufs s k" if "k \<noteq> i" for k using v'(1) that by (metis fun_upd_other)
  have r: "bread sw (Suc m) ROOTDEV n s = Ok (i, s')"
    unfolding bread_def bget_alone [OF al ok] using bo a fi rw v2(1) by (simp add: s'_def)
  have nb: "\<not> (b_dev (bufs s k) = ROOTDEV \<and> b_blockno (bufs s k) = n)" if "k < NBUF" for k using buf_of_NoneD [OF bo that] .
  have ok': "cache_ok s'"
  proof (rule cache_ok_upd [OF ok i(1) v'(1)])
    show "buf_ok s' i" using n bf v'(3) length_dblock [of n "sectors s"] cache_okD(3) [OF ok] by (simp add: buf_ok_def)
  qed (use nb v v'(2-4) v2 bf in auto)
  have bo': "buf_of s' k = (if n = k then Some i else if buf_of s k = Some i then None else buf_of s k)" for k
    using buf_of_upd [OF ok ok' i(1) v'(1), of k] bf by simp
  have clean: "buf_of s k = Some i \<Longrightarrow> b_data (bufs s i) = dblock (sectors s) k \<and> \<not> slocked (slocks s i)" for k
    using buf_of_SomeD [of s k i] cache_okD(4) [OF ok i(1)] i(2) sl by (auto simp: buf_ok_def)
  have "blk s' k = blk s k" for k
    using bo clean [of k] v'(3) bf oth by (auto simp: blk_def bo' split: option.splits)
  moreover have "rc s' k = ((rc s)(n := rc s n + 1)) k" for k
    using bo bf oth i(2) by (auto simp: rc_def bo' split: option.splits)
  moreover have "locked_blk s' k = ((locked_blk s)(n := True)) k" for k
    using bo v'(4) v2 clean [of k] by (auto simp: locked_blk_def bo' split: option.splits)
  moreover have "same p s s'"
    using ps v2 by (simp add: same_def s'_def moved_def s2_def upd_buf_def set_slock_def Let_def)
  moreover have "holds p s' n i" using v'(4,5) v2 ps by (simp add: holds_def bo' holds_sleep_def)
  moreover have "buf_of s' k = buf_of s k" if "0 < rc s k" for k
    using that bo i(2) by (auto simp: rc_def bo' split: option.splits)
  moreover have "holds p s' k l" if "k \<noteq> n" "holds p s k l" for k l
    using that clean [of k] v'(4,5) v2 ps by (auto simp: holds_def bo' holds_sleep_def)
  moreover have "slocks s' k = slocks s k" if "NBUF \<le> k" for k using that v'(4) v2 i(1) by auto
  ultimately have "got p n i s s'" using ok' v'(3,6) unfolding got_def by (intro conjI ext allI impI) auto
  then show ?thesis using r by blast
qed

lemma used_room:
  assumes ok: "cache_ok s" and c: "card (used s) < NBUF"
  shows "\<exists>j<NBUF. b_refcnt (bufs s j) = 0"
proof (rule ccontr)
  assume "\<not> (\<exists>j<NBUF. b_refcnt (bufs s j) = 0)"
  then have nz: "b_refcnt (bufs s j) \<noteq> 0" if "j < NBUF" for j using that by auto
  let ?f = "\<lambda>j. b_blockno (bufs s j)"
  have dev: "b_dev (bufs s j) = ROOTDEV" if "j < NBUF" for j using cache_okD(4) [OF ok that] nz [OF that] by (simp add: buf_ok_def)
  have "inj_on ?f {..<NBUF}" using cache_okD(5) [OF ok] dev by (auto simp: inj_on_def)
  then have "card (?f ` {..<NBUF}) = NBUF" by (simp add: card_image)
  moreover have "?f ` {..<NBUF} \<subseteq> used s"
    using nz dev buf_of_eq [OF ok] by (auto simp: used_def rc_def unat_gt_0)
  moreover have "used s \<subseteq> ?f ` {..<NBUF}"
    by (auto simp: used_def rc_def image_iff split: option.splits dest!: buf_of_SomeD)
  ultimately show False using c by (metis less_irrefl subset_antisym)
qed

text \<open>\<open>bread\<close> returns the buffer of the block, locked, holding the block's content.\<close>

lemma bread_ok:
  assumes "serves sw" and "alone p s" and "cache_ok s" and "n < 2 ^ 31" and "\<not> locked_blk s n" and "rc s n < 2 ^ 32 - 1"
    and "n \<in> used s \<or> card (used s) < NBUF"
  shows "\<exists>i s'. bread sw (Suc m) ROOTDEV n s = Ok (i, s') \<and> got p n i s s'"
proof (cases "buf_of s n")
  case (Some i)
  then show ?thesis using bread_hit [OF assms(2,3) Some assms(5,6)] by blast
next
  case None
  then have "n \<notin> used s" by (simp add: used_def rc_def)
  then show ?thesis using used_room [OF assms(3)] bread_miss [OF assms(1,2,3) None assms(4)] assms(7) by blast
qed

section \<open>Writing and releasing\<close>

text \<open>The effect of an operation on a buffer that stays referenced or was written to the disk before.\<close>

definition put :: "nat \<Rightarrow> u32 \<Rightarrow> u8 list \<Rightarrow> nat \<Rightarrow> 'a dstate_scheme \<Rightarrow> 'a dstate_scheme \<Rightarrow> bool" where
  "put p n d r s s' \<longleftrightarrow> same p s s' \<and> cache_ok s' \<and> blk s' = (blk s)(n := d) \<and> rc s' = (rc s)(n := r) \<and> buf_of s' = buf_of s"

lemma upd_put:
  assumes ok: "cache_ok s" and bo: "buf_of s n = Some i"
    and d: "length d = BSIZE" and r: "r \<noteq> 0 \<or> \<not> slocked l \<and> d = dblock (sectors s) n"
  shows "put p n d (unat r) s (set_slock i l (upd_buf i (\<lambda>bf. bf\<lparr>b_data := d, b_refcnt := r\<rparr>) s))"
proof -
  let ?s = "set_slock i l (upd_buf i (\<lambda>bf. bf\<lparr>b_data := d, b_refcnt := r\<rparr>) s)" and ?bf = "(bufs s i)\<lparr>b_data := d, b_refcnt := r\<rparr>"
  have i: "i < NBUF" "b_dev (bufs s i) = ROOTDEV" "b_blockno (bufs s i) = n" using buf_of_SomeD [OF bo] by auto
  have bk: "b_valid (bufs s i)" "\<not> b_disk (bufs s i)" using cache_okD(4) [OF ok i(1)] i by (simp_all add: buf_ok_def)
  have v: "bufs ?s = (bufs s)(i := ?bf)" "vd ?s = vd s" "sectors ?s = sectors s" "slocks ?s = (slocks s)(i := l)"
    by (simp_all add: set_slock_def upd_buf_def)
  have q: "b_next ?bf = b_next (bufs s i)" "b_prev ?bf = b_prev (bufs s i)" "b_dev ?bf = b_dev (bufs s i)" "b_blockno ?bf = n"
      "b_valid ?bf" "\<not> b_disk ?bf" "length (b_data ?bf) = BSIZE" "b_refcnt ?bf \<noteq> 0 \<or> \<not> slocked (slocks ?s i) \<and> b_data ?bf = dblock (sectors s) n"
      "disk_idle (vd ?s)" "sectors ?s = sectors s" "\<And>j. j \<noteq> i \<Longrightarrow> slocks ?s j = slocks s j"
    using v bk i d r cache_okD(2) [OF ok] by simp_all
  have "same p s ?s" by (simp add: same_def set_slock_def upd_buf_def)
  then show ?thesis using upd_keeps [OF ok bo v(1) q] by (simp add: put_def)
qed

lemma holds_upd:
  "buf_of s' = buf_of s \<Longrightarrow> slocks s' = slocks s \<Longrightarrow> procs s' p = procs s p \<Longrightarrow> holds p s' = holds p s"
  by (simp add: holds_def holds_sleep_def fun_eq_iff)

text \<open>Changing the data of a held buffer.\<close>

lemma set_data_ok:
  assumes ok: "cache_ok s" and h: "holds p s n i" and d: "length d = BSIZE"
  shows "put p n d (rc s n) s (upd_buf i (\<lambda>bf. bf\<lparr>b_data := d\<rparr>) s)"
proof -
  have e: "set_slock i (slocks s i) (upd_buf i (\<lambda>bf. bf\<lparr>b_data := d, b_refcnt := b_refcnt (bufs s i)\<rparr>) s) = upd_buf i (\<lambda>bf. bf\<lparr>b_data := d\<rparr>) s"
    by (simp add: set_slock_def upd_buf_def)
  have "put p n d (unat (b_refcnt (bufs s i))) s (set_slock i (slocks s i) (upd_buf i (\<lambda>bf. bf\<lparr>b_data := d, b_refcnt := b_refcnt (bufs s i)\<rparr>) s))"
    by (rule upd_put) (use ok h d holdsD(4) [OF h ok] in \<open>auto simp: holds_def\<close>)
  then show ?thesis using e holdsD(6) [OF h ok] by simp
qed

lemma pin_ok:
  assumes al: "alone p s" and ok: "cache_ok s" and bo: "buf_of s n = Some i" and c: "0 < rc s n" "rc s n < 2 ^ 32 - 1"
  shows "\<exists>s'. bpin i s = Ok s' \<and> put p n (blk s n) (rc s n + 1) s s' \<and> slocks s' = slocks s \<and> sectors s' = sectors s \<and> dtrace s' = dtrace s"
proof -
  let ?r = "b_refcnt (bufs s i) + 1"
  let ?s = "upd_buf i (\<lambda>bf. bf\<lparr>b_refcnt := b_refcnt bf + 1\<rparr>) s"
  have i: "i < NBUF" "b_dev (bufs s i) = ROOTDEV" using buf_of_SomeD [OF bo] by auto
  have len: "length (b_data (bufs s i)) = BSIZE" using cache_okD(4) [OF ok i(1)] i by (simp add: buf_ok_def)
  have un: "unat ?r = rc s n + 1" using c(2) bo by (simp add: rc_def unat_word_ariths)
  then have nz: "?r \<noteq> 0" by (metis add_is_0 one_neq_zero unat_0)
  have e: "set_slock i (slocks s i) (upd_buf i (\<lambda>bf. bf\<lparr>b_data := blk s n, b_refcnt := ?r\<rparr>) s) = ?s"
    using bo by (simp add: set_slock_def upd_buf_def blk_def)
  have "put p n (blk s n) (unat ?r) s (set_slock i (slocks s i) (upd_buf i (\<lambda>bf. bf\<lparr>b_data := blk s n, b_refcnt := ?r\<rparr>) s))"
    by (rule upd_put [OF ok bo]) (use len nz bo in \<open>simp_all add: blk_def\<close>)
  then have "put p n (blk s n) (rc s n + 1) s ?s" using e un by simp
  moreover have "bpin i s = Ok ?s"
    unfolding bpin_def alone_acquire [OF al] bnd.simps
    using release_bufs [OF al, of BcacheLock "bufs ?s"] by (simp add: upd_buf_def locked_in_def)
  ultimately show ?thesis by (intro exI [of _ ?s]) (simp add: upd_buf_def)
qed

lemma unpin_ok:
  assumes al: "alone p s" and ok: "cache_ok s" and bo: "buf_of s n = Some i" and c: "1 < rc s n"
  shows "\<exists>s'. bunpin i s = Ok s' \<and> put p n (blk s n) (rc s n - 1) s s' \<and> slocks s' = slocks s \<and> sectors s' = sectors s \<and> dtrace s' = dtrace s"
proof -
  let ?r = "b_refcnt (bufs s i) - 1"
  let ?s = "upd_buf i (\<lambda>bf. bf\<lparr>b_refcnt := b_refcnt bf - 1\<rparr>) s"
  have i: "i < NBUF" "b_dev (bufs s i) = ROOTDEV" using buf_of_SomeD [OF bo] by auto
  have len: "length (b_data (bufs s i)) = BSIZE" using cache_okD(4) [OF ok i(1)] i by (simp add: buf_ok_def)
  have "b_refcnt (bufs s i) \<noteq> 0" using c bo by (auto simp: rc_def)
  then have un: "unat ?r = rc s n - 1" using bo by (simp add: rc_def unat_minus_one)
  then have nz: "?r \<noteq> 0" using c by auto
  have e: "set_slock i (slocks s i) (upd_buf i (\<lambda>bf. bf\<lparr>b_data := blk s n, b_refcnt := ?r\<rparr>) s) = ?s"
    using bo by (simp add: set_slock_def upd_buf_def blk_def)
  have "put p n (blk s n) (unat ?r) s (set_slock i (slocks s i) (upd_buf i (\<lambda>bf. bf\<lparr>b_data := blk s n, b_refcnt := ?r\<rparr>) s))"
    by (rule upd_put [OF ok bo]) (use len nz bo in \<open>simp_all add: blk_def\<close>)
  then have "put p n (blk s n) (rc s n - 1) s ?s" using e un by simp
  moreover have "bunpin i s = Ok ?s"
    unfolding bunpin_def alone_acquire [OF al] bnd.simps
    using release_bufs [OF al, of BcacheLock "bufs ?s"] by (simp add: upd_buf_def locked_in_def)
  ultimately show ?thesis by (intro exI [of _ ?s]) (simp add: upd_buf_def)
qed

lemma bwrite_ok:
  assumes sv: "serves sw" and al: "alone p s" and ok: "cache_ok s" and h: "holds p s n i"
  shows "\<exists>s'. bwrite sw (Suc m) i s = Ok s' \<and> put p n (blk s n) (rc s n) s s' \<and> slocks s' = slocks s \<and>
    sectors s' = put_block (sector_of n) (blk s n) (sectors s) \<and> dtrace s' = dtrace s @ [(sector_of n, blk s n)]"
proof -
  note hd = holdsD [OF h ok]
  have hs: "holdingsleep i s = Ok (True, s)" using holdingsleep_alone [OF al, of i] h by (simp add: holds_def holds_sleep_def)
  obtain ps v w where rw: "virtio_disk_rw sw (Suc m) i True s = Ok (moved i True ps v w s)" and ps: "ps p = procs s p" and v: "disk_idle v"
    using disk_rw_moves [OF sv al cache_okD(2) [OF ok], of m i True] by auto
  let ?s = "moved i True ps v w s"
  have b: "bufs ?s = bufs s" using hd(11) by (auto simp: moved_def Let_def)
  have f: "vd ?s = v" "slocks ?s = slocks s" "sectors ?s = put_block (sector_of n) (blk s n) (sectors s)"
    "dtrace ?s = dtrace s @ [(sector_of n, blk s n)]" "procs ?s = ps"
    using hd by (simp_all add: moved_def Let_def)
  have bo: "buf_of ?s = buf_of s" by (rule buf_of_keep) (simp_all add: b)
  have "cache_ok ?s"
  proof -
    have "buf_ok ?s j" if j: "j < NBUF" for j
    proof (cases "b_dev (bufs s j) = ROOTDEV \<and> b_blockno (bufs s j) = n")
      case True
      then have "j = i" using cache_okD(5) [OF ok j hd(1)] hd by simp
      then show ?thesis using cache_okD(4) [OF ok j] hd by (simp add: buf_ok_def b f)
    next
      case False
      then show ?thesis using cache_okD(4) [OF ok j] dblock_put_other [OF hd(8), of "b_blockno (bufs s j)" "blk s n" "sectors s"]
        by (auto simp: buf_ok_def b f)
    qed
    moreover have "\<exists>xs. lru ?s xs" using cache_okD(1) [OF ok] lru_cong [of ?s s] b by simp
    ultimately show ?thesis
      using ok v length_put [OF hd(9)] unfolding cache_ok_def by (simp add: b f)
  qed
  moreover have "blk ?s = (blk s)(n := blk s n)"
  proof (rule ext)
    show "blk ?s k = ((blk s)(n := blk s n)) k" for k
      using dblock_put_other [OF hd(8), of k "blk s n" "sectors s"] h by (cases "k = n") (auto simp: blk_def bo b f holds_def split: option.splits)
  qed
  moreover have "rc ?s = (rc s)(n := rc s n)" by (rule ext) (simp add: rc_def bo b cong: option.case_cong)
  moreover have "same p s ?s" using ps by (simp add: same_def moved_def Let_def)
  ultimately have "put p n (blk s n) (rc s n) s ?s" using bo by (simp add: put_def)
  moreover have "bwrite sw (Suc m) i s = Ok ?s" unfolding bwrite_def hs using rw by simp
  ultimately show ?thesis using f by blast
qed

lemma move_front_fields:
  "b_dev (bufs (move_front b s) j) = b_dev (bufs s j)" "b_blockno (bufs (move_front b s) j) = b_blockno (bufs s j)"
  "b_refcnt (bufs (move_front b s) j) = b_refcnt (bufs s j)" "b_data (bufs (move_front b s) j) = b_data (bufs s j)"
  "b_valid (bufs (move_front b s) j) = b_valid (bufs s j)" "b_disk (bufs (move_front b s) j) = b_disk (bufs s j)"
proof -
  have u: "b_dev (bufs (upd_buf a (\<lambda>bf. bf\<lparr>b_next := x\<rparr>) t) j) = b_dev (bufs t j)" "b_dev (bufs (upd_buf a (\<lambda>bf. bf\<lparr>b_prev := x\<rparr>) t) j) = b_dev (bufs t j)"
    "b_blockno (bufs (upd_buf a (\<lambda>bf. bf\<lparr>b_next := x\<rparr>) t) j) = b_blockno (bufs t j)" "b_blockno (bufs (upd_buf a (\<lambda>bf. bf\<lparr>b_prev := x\<rparr>) t) j) = b_blockno (bufs t j)"
    "b_refcnt (bufs (upd_buf a (\<lambda>bf. bf\<lparr>b_next := x\<rparr>) t) j) = b_refcnt (bufs t j)" "b_refcnt (bufs (upd_buf a (\<lambda>bf. bf\<lparr>b_prev := x\<rparr>) t) j) = b_refcnt (bufs t j)"
    "b_data (bufs (upd_buf a (\<lambda>bf. bf\<lparr>b_next := x\<rparr>) t) j) = b_data (bufs t j)" "b_data (bufs (upd_buf a (\<lambda>bf. bf\<lparr>b_prev := x\<rparr>) t) j) = b_data (bufs t j)"
    "b_valid (bufs (upd_buf a (\<lambda>bf. bf\<lparr>b_next := x\<rparr>) t) j) = b_valid (bufs t j)" "b_valid (bufs (upd_buf a (\<lambda>bf. bf\<lparr>b_prev := x\<rparr>) t) j) = b_valid (bufs t j)"
    "b_disk (bufs (upd_buf a (\<lambda>bf. bf\<lparr>b_next := x\<rparr>) t) j) = b_disk (bufs t j)" "b_disk (bufs (upd_buf a (\<lambda>bf. bf\<lparr>b_prev := x\<rparr>) t) j) = b_disk (bufs t j)"
    for a x and t :: "'a dstate_scheme" by (simp_all add: upd_buf_def)
  show "b_dev (bufs (move_front b s) j) = b_dev (bufs s j)" "b_blockno (bufs (move_front b s) j) = b_blockno (bufs s j)"
    "b_refcnt (bufs (move_front b s) j) = b_refcnt (bufs s j)" "b_data (bufs (move_front b s) j) = b_data (bufs s j)"
    "b_valid (bufs (move_front b s) j) = b_valid (bufs s j)" "b_disk (bufs (move_front b s) j) = b_disk (bufs s j)"
    unfolding move_front_def Let_def u by (rule refl)+
qed

lemma move_front_hart: "move_front b (s\<lparr>cpus := c, locks := l\<rparr>) = (move_front b s)\<lparr>cpus := c, locks := l\<rparr>"
proof -
  have u: "upd_buf a f (t\<lparr>cpus := c, locks := l\<rparr>) = (upd_buf a f t)\<lparr>cpus := c, locks := l\<rparr>" "bufs (t\<lparr>cpus := c, locks := l\<rparr>) = bufs t"
    for a f and t :: "'a dstate_scheme" by (simp_all add: upd_buf_def)
  show ?thesis unfolding move_front_def Let_def u by (rule refl)
qed

lemma move_front_rest: "\<exists>B. move_front b s = s\<lparr>bufs := B\<rparr>"
  unfolding move_front_def Let_def upd_buf_def by (intro exI) simp

lemma cache_ok_links:
  assumes ok: "cache_ok s" and l: "lru s' xs" and f: "vd s' = vd s" "sectors s' = sectors s" "slocks s' = slocks s"
    and b: "\<And>j. b_dev (bufs s' j) = b_dev (bufs s j)" "\<And>j. b_blockno (bufs s' j) = b_blockno (bufs s j)"
      "\<And>j. b_refcnt (bufs s' j) = b_refcnt (bufs s j)" "\<And>j. b_data (bufs s' j) = b_data (bufs s j)"
      "\<And>j. b_valid (bufs s' j) = b_valid (bufs s j)" "\<And>j. b_disk (bufs s' j) = b_disk (bufs s j)"
  shows "cache_ok s'" "buf_of s' = buf_of s" "blk s' = blk s" "rc s' = rc s"
proof -
  show bo: "buf_of s' = buf_of s" by (rule buf_of_keep) (simp_all add: b)
  show "blk s' = blk s" by (rule ext) (simp add: blk_def bo b f cong: option.case_cong)
  show "rc s' = rc s" by (rule ext) (simp add: rc_def bo b cong: option.case_cong)
  have "buf_ok s' j = buf_ok s j" for j by (simp add: buf_ok_def b f)
  then show "cache_ok s'" using ok l unfolding cache_ok_def by (auto simp: b f)
qed

lemma brelse_ok:
  assumes al: "alone p s" and ok: "cache_ok s" and h: "holds p s n i" and cl: "rc s n = 1 \<longrightarrow> blk s n = dblock (sectors s) n"
  shows "\<exists>s'. brelse i s = Ok s' \<and> put p n (blk s n) (rc s n - 1) s s' \<and> slocks s' = (slocks s)(i := free_sleeplock) \<and>
    sectors s' = sectors s \<and> dtrace s' = dtrace s"
proof -
  note hd = holdsD [OF h ok]
  let ?r = "b_refcnt (bufs s i) - 1"
  have bo: "buf_of s n = Some i" using h by (simp add: holds_def)
  have hs: "holdingsleep i s = Ok (True, s)" using holdingsleep_alone [OF al, of i] h by (simp add: holds_def holds_sleep_def)
  obtain ps where rs: "releasesleep i s = Ok (set_slock i free_sleeplock s\<lparr>procs := ps\<rparr>)" and ps: "ps p = procs s p"
    using releasesleep_alone [OF al, of i] by blast
  define s1 where "s1 = set_slock i free_sleeplock s\<lparr>procs := ps\<rparr>"
  have al1: "alone p s1" using al ps by (subst alone_cong [of _ s]) (simp_all add: s1_def set_slock_def)
  let ?g = "\<lambda>bf. bf\<lparr>b_refcnt := b_refcnt bf - 1\<rparr>"
  define s2 where "s2 = upd_buf i ?g s1"
  have un: "unat ?r = rc s n - 1" using hd(4,6) by (simp add: unat_minus_one)
  have z: "?r = 0 \<longleftrightarrow> rc s n = 1" using un hd(7) by (metis One_nat_def Suc_pred diff_is_0_eq' le_refl unat_0 unat_eq_zero)
  have p0: "put p n (blk s n) (unat ?r) s (set_slock i free_sleeplock (upd_buf i (\<lambda>bf. bf\<lparr>b_data := blk s n, b_refcnt := ?r\<rparr>) s))"
    by (rule upd_put [OF ok bo hd(9)]) (use z cl in \<open>auto simp: free_sleeplock_def\<close>)
  define t where "t = set_slock i free_sleeplock (upd_buf i (\<lambda>bf. bf\<lparr>b_data := blk s n, b_refcnt := ?r\<rparr>) s)"
  have s2t: "s2 = t\<lparr>procs := ps\<rparr>" using hd(5) by (simp add: s2_def s1_def t_def set_slock_def upd_buf_def)
  obtain xs where lr: "lru t xs" using p0 cache_okD(1) [of t] unfolding put_def t_def by blast
  have okt: "cache_ok t" using p0 by (simp add: put_def t_def)
  have lr2: "lru s2 xs" using lr lru_cong [of s2 t] by (simp add: s2t)
  have ok2: "cache_ok s2" "buf_of s2 = buf_of t" "blk s2 = blk t" "rc s2 = rc t"
    using cache_ok_links [OF okt lr2] by (simp_all add: s2t)
  define s3 where "s3 = (if b_refcnt (bufs s2 i) = 0 then move_front i s2 else s2)"
  have "cache_ok s3 \<and> buf_of s3 = buf_of t \<and> blk s3 = blk t \<and> rc s3 = rc t \<and> (\<exists>B. s3 = s2\<lparr>bufs := B\<rparr>)"
  proof (cases "b_refcnt (bufs s2 i) = 0")
    case True
    then have s3: "s3 = move_front i s2" by (simp add: s3_def)
    obtain B where B: "move_front i s2 = s2\<lparr>bufs := B\<rparr>" using move_front_rest [of i s2] by blast
    have "i \<in> set xs" using lr2 hd(1) by (simp add: lru_def)
    then obtain us vs where "xs = us @ i # vs" by (meson split_list)
    then have l3: "lru (move_front i s2) (i # us @ vs)" using lr2 move_front_lru by blast
    have rest: "vd (move_front i s2) = vd s2" "sectors (move_front i s2) = sectors s2" "slocks (move_front i s2) = slocks s2"
      by (simp_all add: B)
    show ?thesis unfolding s3 using cache_ok_links [OF ok2(1) l3 rest move_front_fields] ok2 B by auto
  next
    case False
    then have "s3 = s2" by (simp add: s3_def)
    moreover have "s2 = s2\<lparr>bufs := bufs s2\<rparr>" by simp
    ultimately show ?thesis using ok2 by blast
  qed
  then obtain B where f3: "cache_ok s3" "buf_of s3 = buf_of t" "blk s3 = blk t" "rc s3 = rc t" "s3 = s2\<lparr>bufs := B\<rparr>" by blast
  have lb: "upd_buf i ?g (locked_in BcacheLock s1) = (locked_in BcacheLock s2)" by (simp add: s2_def upd_buf_def locked_in_def)
  have al2: "alone p s2" using al1 by (subst alone_cong [of _ s1]) (simp_all add: s2_def upd_buf_def)
  have mf: "(if b_refcnt (bufs (locked_in BcacheLock s2) i) = 0 then move_front i (locked_in BcacheLock s2) else locked_in BcacheLock s2)
      = (locked_in BcacheLock s2)\<lparr>bufs := B\<rparr>"
  proof -
    have "(if b_refcnt (bufs (locked_in BcacheLock s2) i) = 0 then move_front i (locked_in BcacheLock s2) else locked_in BcacheLock s2)
       = s3\<lparr>cpus := cpus (locked_in BcacheLock s2), locks := locks (locked_in BcacheLock s2)\<rparr>"
      unfolding s3_def locked_in_def move_front_hart by simp
    then show ?thesis unfolding f3(5) by (simp add: locked_in_def)
  qed
  have "brelse i s = Ok s3"
    unfolding brelse_def hs bnd.simps prod.case rs s1_def [symmetric] alone_acquire [OF al1, of BcacheLock] Let_def lb mf
    using release_bufs [OF al2, of BcacheLock B] f3(5) by simp
  moreover have "put p n (blk s n) (rc s n - 1) s s3"
  proof -
    have "same p s s3" using ps by (simp add: same_def f3(5) s2t t_def set_slock_def upd_buf_def)
    then show ?thesis using p0 f3 un unfolding t_def [symmetric] by (simp add: put_def)
  qed
  ultimately show ?thesis by (intro exI [of _ s3]) (simp add: f3(5) s2t t_def set_slock_def upd_buf_def)
qed

text \<open>C16: \<open>bread\<close> returns a buffer, locked by the running process, whose data is the current content of the
  block: what was last put into the cache, or the disk if the block was not cached. The contents of all
  blocks and of the disk are unchanged, and the cache still holds every block at most once.\<close>

theorem bread_returns_block:
  assumes "serves sw" and "alone p s" and "cache_ok s" and "n < 2 ^ 31" and "\<not> locked_blk s n" and "rc s n < 2 ^ 32 - 1"
    and "n \<in> used s \<or> card (used s) < NBUF"
  shows "\<exists>i s'. bread sw (Suc m) ROOTDEV n s = Ok (i, s') \<and> b_data (bufs s' i) = blk s n \<and> slocks s' i = \<lparr>slocked = True, slpid = p_pid (procs s p)\<rparr> \<and>
    cache_ok s' \<and> blk s' = blk s \<and> sectors s' = sectors s \<and> rc s' = (rc s)(n := rc s n + 1)"
proof -
  obtain i s' where r: "bread sw (Suc m) ROOTDEV n s = Ok (i, s')" and g: "got p n i s s'" using bread_ok [OF assms] by blast
  have b: "buf_of s' n = Some i" and l: "holds_sleep p i s'" using g by (auto simp: got_def holds_def)
  have "b_data (bufs s' i) = blk s' n" using b by (simp add: blk_def)
  moreover have "procs s' p = procs s p" using g same_fields(5) by (auto simp: got_def)
  ultimately show ?thesis using r g l by (auto simp: got_def holds_sleep_def)
qed

end
