(* ===== verification/Bytes.thy ===== *)
theory Bytes
  imports Prelude
begin

unbundle bit_operations_syntax

text \<open>
  Structures that the file system keeps in blocks of bytes: little-endian 16-bit and 32-bit fields of a
  byte list, and runs of bytes.
\<close>

definition get16 :: "nat \<Rightarrow> u8 list \<Rightarrow> u16" where
  "get16 i bs = ucast (bs ! i) OR push_bit 8 (ucast (bs ! (i + 1)))"

definition put16 :: "nat \<Rightarrow> u16 \<Rightarrow> u8 list \<Rightarrow> u8 list" where
  "put16 i v bs = bs[i := ucast v, i + 1 := ucast (drop_bit 8 v)]"

definition get32 :: "nat \<Rightarrow> u8 list \<Rightarrow> u32" where
  "get32 i bs = ucast (bs ! i) OR push_bit 8 (ucast (bs ! (i + 1))) OR push_bit 16 (ucast (bs ! (i + 2))) OR
     push_bit 24 (ucast (bs ! (i + 3)))"

definition put32 :: "nat \<Rightarrow> u32 \<Rightarrow> u8 list \<Rightarrow> u8 list" where
  "put32 i v bs = bs[i := ucast v, i + 1 := ucast (drop_bit 8 v), i + 2 := ucast (drop_bit 16 v), i + 3 := ucast (drop_bit 24 v)]"

text \<open>\<open>memmove\<close> into the middle of a buffer.\<close>

definition put_bytes :: "nat \<Rightarrow> u8 list \<Rightarrow> u8 list \<Rightarrow> u8 list" where
  "put_bytes i new bs = take i bs @ new @ drop (i + length new) bs"

definition get_bytes :: "nat \<Rightarrow> nat \<Rightarrow> u8 list \<Rightarrow> u8 list" where
  "get_bytes i n bs = take n (drop i bs)"

lemma length_puts [simp]: "length (put16 i v bs) = length bs" "length (put32 i w bs) = length bs"
  by (simp_all add: put16_def put32_def)

lemma length_put_bytes [simp]: "i + length new \<le> length bs \<Longrightarrow> length (put_bytes i new bs) = length bs"
  by (simp add: put_bytes_def)

lemma bit8: "bit (b::u8) k \<Longrightarrow> k < 8"
  using bit_imp_le_length [of b k] by simp

lemma split16: "ucast (ucast v :: u8) OR push_bit 8 (ucast (ucast (drop_bit 8 v) :: u8)) = (v::u16)"
  by (rule bit_word_eqI) (auto simp: bit_simps)

lemma split32:
  "ucast (ucast v :: u8) OR push_bit 8 (ucast (ucast (drop_bit 8 v) :: u8)) OR
   push_bit 16 (ucast (ucast (drop_bit 16 v) :: u8)) OR push_bit 24 (ucast (ucast (drop_bit 24 v) :: u8)) = (v::u32)"
proof (rule bit_word_eqI)
  fix n assume "n < LENGTH(32)"
  then consider "n < 8" | "8 \<le> n" "n < 16" | "16 \<le> n" "n < 24" | "24 \<le> n" "n < 32" by fastforce
  then show "bit (ucast (ucast v :: u8) OR push_bit 8 (ucast (ucast (drop_bit 8 v) :: u8)) OR
   push_bit 16 (ucast (ucast (drop_bit 16 v) :: u8)) OR push_bit 24 (ucast (ucast (drop_bit 24 v) :: u8)) :: u32) n = bit v n"
    by cases (auto simp: bit_simps)
qed

lemma get16_put16 [simp]: "i + 1 < length bs \<Longrightarrow> get16 i (put16 i v bs) = v"
  by (simp add: get16_def put16_def split16)

lemma get32_put32 [simp]: "i + 3 < length bs \<Longrightarrow> get32 i (put32 i v bs) = v"
  by (simp add: get32_def put32_def split32)

lemma get32_put32_other: "i + 3 < j \<or> j + 3 < i \<Longrightarrow> get32 i (put32 j v bs) = get32 i bs"
  by (auto simp: get32_def put32_def)

lemma get16_put16_other: "i + 1 < j \<or> j + 1 < i \<Longrightarrow> get16 i (put16 j v bs) = get16 i bs"
  by (auto simp: get16_def put16_def)

lemma get16_put32_other: "i + 1 < j \<or> j + 3 < i \<Longrightarrow> get16 i (put32 j v bs) = get16 i bs"
  by (auto simp: get16_def put32_def)

lemma get32_put16_other: "i + 3 < j \<or> j + 1 < i \<Longrightarrow> get32 i (put16 j v bs) = get32 i bs"
  by (auto simp: get32_def put16_def)

lemma get_put_bytes: "i + length new \<le> length bs \<Longrightarrow> get_bytes i (length new) (put_bytes i new bs) = new"
  by (simp add: get_bytes_def put_bytes_def)

text \<open>A field below a boundary is read from the bytes below it.\<close>

lemma get32_take: "i + 3 < k \<Longrightarrow> get32 i (take k bs) = get32 i bs"
  by (simp add: get32_def)

end
