(* ===== verification/Log.thy ===== *)
theory Log
  imports Cache Bytes
begin

text \<open>
  kernel/log.c: the write-ahead log. Definitions of the operations; what they do to the disk, and that a crash
  at any point of a commit is repaired by recovery, is in theory Crash.
\<close>

section \<open>State\<close>

definition LOGSIZE :: nat where "LOGSIZE = MAXOPBLOCKS * 3"

text \<open>\<open>lh.block\<close> is an array of \<open>int\<close> that holds unsigned block numbers; only their bits matter.\<close>

record log =
  l_start :: int
  l_size :: int
  l_outstanding :: int
  l_committing :: bool
  l_dev :: int
  l_n :: int
  l_block :: "nat \<Rightarrow> u32"

record superblock =
  sb_magic :: u32
  sb_size :: u32
  sb_nblocks :: u32
  sb_ninodes :: u32
  sb_nlog :: u32
  sb_logstart :: u32
  sb_inodestart :: u32
  sb_bmapstart :: u32

record lstate = dstate +
  logs :: log

definition upd_log :: "(log \<Rightarrow> log) \<Rightarrow> 'a lstate_scheme \<Rightarrow> 'a lstate_scheme" where
  "upd_log f s = s\<lparr>logs := f (logs s)\<rparr>"

text \<open>\<open>log.start + tail + 1\<close>, as a block number.\<close>

definition log_blockno :: "'a lstate_scheme \<Rightarrow> nat \<Rightarrow> u32" where
  "log_blockno s tail = of_int (l_start (logs s) + int tail + 1)"

abbreviation ldev :: "'a lstate_scheme \<Rightarrow> u32" where
  "ldev s \<equiv> of_int (l_dev (logs s))"

section \<open>Operations\<close>

definition install_block :: "('a lstate_scheme \<Rightarrow> ('a lstate_scheme) res) \<Rightarrow> nat \<Rightarrow> bool \<Rightarrow> nat \<Rightarrow>
    'a lstate_scheme \<Rightarrow> ('a lstate_scheme) res" where
  "install_block sw m recovering tail s =
     bnd (bread sw m (ldev s) (log_blockno s tail) s) (\<lambda>(lbuf, s1).
     bnd (bread sw m (ldev s1) (l_block (logs s1) tail) s1) (\<lambda>(dbuf, s2).
     bnd (bwrite sw m dbuf (upd_buf dbuf (\<lambda>bf. bf\<lparr>b_data := b_data (bufs s2 lbuf)\<rparr>) s2)) (\<lambda>s3.
     bnd (if \<not> recovering then bunpin dbuf s3 else Ok s3) (\<lambda>s4.
     bnd (brelse lbuf s4) (brelse dbuf)))))"

definition install_trans :: "('a lstate_scheme \<Rightarrow> ('a lstate_scheme) res) \<Rightarrow> nat \<Rightarrow> bool \<Rightarrow>
    'a lstate_scheme \<Rightarrow> ('a lstate_scheme) res" where
  "install_trans sw m recovering s = for_each [0..<nat (l_n (logs s))] (install_block sw m recovering) s"

text \<open>A header with more than \<open>LOGSIZE\<close> blocks would be copied beyond the end of \<open>log.lh\<close>.\<close>

definition read_head :: "('a lstate_scheme \<Rightarrow> ('a lstate_scheme) res) \<Rightarrow> nat \<Rightarrow> 'a lstate_scheme \<Rightarrow> ('a lstate_scheme) res" where
  "read_head sw m s =
     bnd (bread sw m (ldev s) (of_int (l_start (logs s))) s) (\<lambda>(b, s1).
       let bs = b_data (bufs s1 b); n = sint (get32 0 bs)
       in if n > int LOGSIZE then Err (Undef ''read_head: too many blocks'')
          else brelse b (upd_log (\<lambda>l. l\<lparr>l_n := n, l_block := (\<lambda>i. if i < nat n then get32 (4 + 4 * i) bs else l_block l i)\<rparr>) s1))"

definition head_bytes :: "int \<Rightarrow> (nat \<Rightarrow> u32) \<Rightarrow> u8 list \<Rightarrow> u8 list" where
  "head_bytes n block bs = fold (\<lambda>i bs. put32 (4 + 4 * i) (block i) bs) [0..<nat n] (put32 0 (of_int n) bs)"

definition write_head :: "('a lstate_scheme \<Rightarrow> ('a lstate_scheme) res) \<Rightarrow> nat \<Rightarrow> 'a lstate_scheme \<Rightarrow> ('a lstate_scheme) res" where
  "write_head sw m s =
     bnd (bread sw m (ldev s) (of_int (l_start (logs s))) s) (\<lambda>(b, s1).
     if l_n (logs s1) > int LOGSIZE then Err (Undef ''write_head: too many blocks'')
     else bnd (bwrite sw m b (upd_buf b (\<lambda>bf. bf\<lparr>b_data := head_bytes (l_n (logs s1)) (l_block (logs s1)) (b_data bf)\<rparr>) s1)) (brelse b))"

definition recover_from_log :: "('a lstate_scheme \<Rightarrow> ('a lstate_scheme) res) \<Rightarrow> nat \<Rightarrow> 'a lstate_scheme \<Rightarrow> ('a lstate_scheme) res" where
  "recover_from_log sw m s =
     bnd (read_head sw m s) (\<lambda>s1.
     bnd (install_trans sw m True s1) (\<lambda>s2.
     write_head sw m (upd_log (\<lambda>l. l\<lparr>l_n := 0\<rparr>) s2)))"

definition initlog :: "('a lstate_scheme \<Rightarrow> ('a lstate_scheme) res) \<Rightarrow> nat \<Rightarrow> int \<Rightarrow> superblock \<Rightarrow>
    'a lstate_scheme \<Rightarrow> ('a lstate_scheme) res" where
  "initlog sw m dev sb s =
     (if 4 + 4 * LOGSIZE \<ge> BSIZE then Err (Panic ''initlog: too big logheader'')
      else recover_from_log sw m (upd_log (\<lambda>l. l\<lparr>l_start := sint (sb_logstart sb), l_size := sint (sb_nlog sb), l_dev := dev\<rparr>)
             (initlock LogLock s)))"

text \<open>\<open>m\<close> bounds the number of times the process is put to sleep.\<close>

primrec begin_op_loop :: "('a lstate_scheme \<Rightarrow> ('a lstate_scheme) res) \<Rightarrow> nat \<Rightarrow> 'a lstate_scheme \<Rightarrow> ('a lstate_scheme) res" where
  "begin_op_loop sw 0 s =
     (if l_committing (logs s) then Err Asleep
      else if l_n (logs s) + (l_outstanding (logs s) + 1) * int MAXOPBLOCKS > int LOGSIZE then Err Asleep
      else release LogLock (upd_log (\<lambda>l. l\<lparr>l_outstanding := l_outstanding l + 1\<rparr>) s))"
| "begin_op_loop sw (Suc m) s =
     (if l_committing (logs s) then bnd (sleep sw LogCh LogLock s) (begin_op_loop sw m)
      else if l_n (logs s) + (l_outstanding (logs s) + 1) * int MAXOPBLOCKS > int LOGSIZE
      then bnd (sleep sw LogCh LogLock s) (begin_op_loop sw m)
      else release LogLock (upd_log (\<lambda>l. l\<lparr>l_outstanding := l_outstanding l + 1\<rparr>) s))"

definition begin_op :: "('a lstate_scheme \<Rightarrow> ('a lstate_scheme) res) \<Rightarrow> nat \<Rightarrow> 'a lstate_scheme \<Rightarrow> ('a lstate_scheme) res" where
  "begin_op sw m s = bnd (acquire LogLock s) (begin_op_loop sw m)"

definition write_log_block :: "('a lstate_scheme \<Rightarrow> ('a lstate_scheme) res) \<Rightarrow> nat \<Rightarrow> nat \<Rightarrow> 'a lstate_scheme \<Rightarrow> ('a lstate_scheme) res" where
  "write_log_block sw m tail s =
     bnd (bread sw m (ldev s) (log_blockno s tail) s) (\<lambda>(to, s1).
     bnd (bread sw m (ldev s1) (l_block (logs s1) tail) s1) (\<lambda>(from, s2).
     bnd (bwrite sw m to (upd_buf to (\<lambda>bf. bf\<lparr>b_data := b_data (bufs s2 from)\<rparr>) s2)) (\<lambda>s3.
     bnd (brelse from s3) (brelse to))))"

definition write_log :: "('a lstate_scheme \<Rightarrow> ('a lstate_scheme) res) \<Rightarrow> nat \<Rightarrow> 'a lstate_scheme \<Rightarrow> ('a lstate_scheme) res" where
  "write_log sw m s = for_each [0..<nat (l_n (logs s))] (write_log_block sw m) s"

definition commit :: "('a lstate_scheme \<Rightarrow> ('a lstate_scheme) res) \<Rightarrow> nat \<Rightarrow> 'a lstate_scheme \<Rightarrow> ('a lstate_scheme) res" where
  "commit sw m s =
     (if l_n (logs s) > 0 then
        bnd (write_log sw m s) (\<lambda>s1.
        bnd (write_head sw m s1) (\<lambda>s2.
        bnd (install_trans sw m False s2) (\<lambda>s3.
        write_head sw m (upd_log (\<lambda>l. l\<lparr>l_n := 0\<rparr>) s3))))
      else Ok s)"

definition end_op :: "('a lstate_scheme \<Rightarrow> ('a lstate_scheme) res) \<Rightarrow> nat \<Rightarrow> 'a lstate_scheme \<Rightarrow> ('a lstate_scheme) res" where
  "end_op sw m s =
     bnd (acquire LogLock s) (\<lambda>s0.
     let s1 = upd_log (\<lambda>l. l\<lparr>l_outstanding := l_outstanding l - 1\<rparr>) s0
     in if l_committing (logs s1) then Err (Panic ''log.committing'')
        else if l_outstanding (logs s1) = 0 then
          bnd (release LogLock (upd_log (\<lambda>l. l\<lparr>l_committing := True\<rparr>) s1)) (\<lambda>s2.
          bnd (commit sw m s2) (\<lambda>s3.
          bnd (acquire LogLock s3) (\<lambda>s4.
          bnd (wakeup LogCh (upd_log (\<lambda>l. l\<lparr>l_committing := False\<rparr>) s4)) (release LogLock))))
        else bnd (wakeup LogCh s1) (release LogLock))"

text \<open>The index at which \<open>log_write\<close> stores the block number: that of an earlier entry, or the end.\<close>

definition log_slot :: "u32 \<Rightarrow> log \<Rightarrow> nat" where
  "log_slot n l = (case find (\<lambda>i. l_block l i = n) [0..<nat (l_n l)] of Some i \<Rightarrow> i | None \<Rightarrow> nat (l_n l))"

definition log_write :: "nat \<Rightarrow> 'a lstate_scheme \<Rightarrow> ('a lstate_scheme) res" where
  "log_write b s =
     bnd (acquire LogLock s) (\<lambda>s1.
     if l_n (logs s1) \<ge> int LOGSIZE \<or> l_n (logs s1) \<ge> l_size (logs s1) - 1 then Err (Panic ''too big a transaction'')
     else if l_outstanding (logs s1) < 1 then Err (Panic ''log_write outside of trans'')
     else let n = b_blockno (bufs s1 b); i = log_slot n (logs s1);
              s2 = upd_log (\<lambda>l. l\<lparr>l_block := (l_block l)(i := n)\<rparr>) s1
          in bnd (if int i = l_n (logs s2) then bnd (bpin b s2) (\<lambda>s3. Ok (upd_log (\<lambda>l. l\<lparr>l_n := l_n l + 1\<rparr>) s3)) else Ok s2)
               (release LogLock))"

end
