(* ===== verification/Blockcopy.thy ===== *)
theory Blockcopy
  imports Log
begin

text \<open>
  Copying one block over another through the buffer cache, the step that both phases of a commit and recovery
  repeat, and rewriting a single block: read, change, write, release.
\<close>

definition calm :: "nat \<Rightarrow> 'a dstate_scheme \<Rightarrow> bool" where
  "calm p s \<longleftrightarrow> alone p s \<and> cache_ok s \<and> (\<forall>n. \<not> locked_blk s n) \<and> (\<forall>n. rc s n < 2 ^ 31)"

text \<open>One block was written to the disk; its buffer now counts \<open>r\<close> references.\<close>

definition wrote :: "nat \<Rightarrow> u32 \<Rightarrow> u8 list \<Rightarrow> nat \<Rightarrow> 'a dstate_scheme \<Rightarrow> 'a dstate_scheme \<Rightarrow> bool" where
  "wrote p n d r s s' \<longleftrightarrow> same p s s' \<and> calm p s' \<and> blk s' = (blk s)(n := d) \<and> rc s' = (rc s)(n := r) \<and>
     sectors s' = put_block (sector_of n) d (sectors s) \<and> dtrace s' = dtrace s @ [(sector_of n, d)]"

lemma rc0_clean: "cache_ok s \<Longrightarrow> rc s n = 0 \<Longrightarrow> blk s n = dblock (sectors s) n"
proof (cases "buf_of s n")
  case (Some i)
  assume ok: "cache_ok s" and r: "rc s n = 0"
  have i: "i < NBUF" "b_dev (bufs s i) = ROOTDEV" "b_blockno (bufs s i) = n" using buf_of_SomeD [OF Some] by auto
  have "b_refcnt (bufs s i) = 0" using r Some by (simp add: rc_def unat_eq_zero)
  then show ?thesis using cache_okD(4) [OF ok i(1)] i Some by (simp add: buf_ok_def blk_def)
qed (simp add: blk_def)

lemma blk_length: "cache_ok s \<Longrightarrow> n < 2 ^ 31 \<Longrightarrow> length (blk s n) = BSIZE"
proof (cases "buf_of s n")
  case (Some i)
  assume ok: "cache_ok s"
  have i: "i < NBUF" "b_dev (bufs s i) = ROOTDEV" using buf_of_SomeD [OF Some] by auto
  show ?thesis using cache_okD(4) [OF ok i(1)] i Some by (simp add: buf_ok_def blk_def)
next
  case None
  assume "cache_ok s" "n < 2 ^ 31"
  then show ?thesis using None length_dblock [of n "sectors s"] by (simp add: blk_def cache_okD(3))
qed

lemma putD:
  assumes "put p n d r s s'"
  shows "same p s s'" "cache_ok s'" "blk s' = (blk s)(n := d)" "rc s' = (rc s)(n := r)" "buf_of s' = buf_of s"
  using assms by (simp_all add: put_def)

lemma gotD:
  assumes "got p n i s s'"
  shows "same p s s'" "cache_ok s'" "holds p s' n i" "blk s' = blk s" "rc s' = (rc s)(n := rc s n + 1)"
     "locked_blk s' = (locked_blk s)(n := True)" "sectors s' = sectors s" "dtrace s' = dtrace s"
     "k \<noteq> n \<Longrightarrow> holds p s k j \<Longrightarrow> holds p s' k j"
  using assms unfolding got_def by blast+

lemma locked_blk_cong: "buf_of s' = buf_of s \<Longrightarrow> slocks s' = slocks s \<Longrightarrow> locked_blk s' = locked_blk s"
  by (rule ext) (simp add: locked_blk_def cong: option.case_cong)

text \<open>New data in a held buffer, written through to the disk.\<close>

lemma write_held:
  assumes sv: "serves sw" and al: "alone p s" and ok: "cache_ok s" and h: "holds p s n i" and d: "length d = BSIZE"
  shows "\<exists>s'. bwrite sw (Suc m) i (upd_buf i (\<lambda>bf. bf\<lparr>b_data := d\<rparr>) s) = Ok s' \<and> put p n d (rc s n) s s' \<and> slocks s' = slocks s \<and>
    sectors s' = put_block (sector_of n) d (sectors s) \<and> dtrace s' = dtrace s @ [(sector_of n, d)]"
proof -
  let ?s = "upd_buf i (\<lambda>bf. bf\<lparr>b_data := d\<rparr>) s"
  note pd = putD [OF set_data_ok [OF ok h d]]
  have f: "slocks ?s = slocks s" "sectors ?s = sectors s" "dtrace ?s = dtrace s" "procs ?s = procs s" by (simp_all add: upd_buf_def)
  have h1: "holds p ?s n i" using holds_upd [of ?s s p] pd(5) f h by simp
  have al1: "alone p ?s" using same_alone [OF pd(1)] al by simp
  from bwrite_ok [OF sv al1 pd(2) h1, of m] obtain s' where
    w: "bwrite sw (Suc m) i ?s = Ok s'" "put p n (blk ?s n) (rc ?s n) ?s s'" "slocks s' = slocks ?s"
      "sectors s' = put_block (sector_of n) (blk ?s n) (sectors ?s)" "dtrace s' = dtrace ?s @ [(sector_of n, blk ?s n)]" by blast
  note q = putD [OF w(2)]
  have "put p n d (rc s n) s s'"
    unfolding put_def using same_trans [OF pd(1) q(1)] q pd by simp
  then show ?thesis using w f pd(3) by auto
qed

lemma brelse_held:
  assumes "alone p s" and "cache_ok s" and "holds p s n i" and "rc s n = 1 \<longrightarrow> blk s n = dblock (sectors s) n"
  shows "\<exists>s'. brelse i s = Ok s' \<and> put p n (blk s n) (rc s n - 1) s s' \<and> slocks s' = (slocks s)(i := free_sleeplock) \<and>
    sectors s' = sectors s \<and> dtrace s' = dtrace s \<and> (\<forall>k j. k \<noteq> n \<and> holds p s k j \<longrightarrow> holds p s' k j)"
proof -
  from brelse_ok [OF assms] obtain s' where r: "brelse i s = Ok s'" "put p n (blk s n) (rc s n - 1) s s'"
    "slocks s' = (slocks s)(i := free_sleeplock)" "sectors s' = sectors s" "dtrace s' = dtrace s" by blast
  have "holds p s' k j" if "k \<noteq> n" "holds p s k j" for k j
  proof -
    have "j \<noteq> i" using that assms(3) buf_of_SomeD [of s k j] buf_of_SomeD [of s n i] by (auto simp: holds_def)
    then show ?thesis using that(2) putD(5) [OF r(2)] r(3) same_fields(5) [OF putD(1) [OF r(2)]] by (simp add: holds_def holds_sleep_def)
  qed
  then show ?thesis using r by blast
qed

text \<open>Two held buffers are released, and nothing is locked any more.\<close>

lemma release_two:
  assumes al: "alone p s" and ok: "cache_ok s" and h: "holds p s u a" "holds p s v b" and ne: "u \<noteq> v"
    and cl: "rc s u = 1 \<longrightarrow> blk s u = dblock (sectors s) u" "rc s v = 1 \<longrightarrow> blk s v = dblock (sectors s) v"
    and lk: "\<And>k. locked_blk s k \<Longrightarrow> k = u \<or> k = v" and rs: "\<And>k. rc s k < 2 ^ 31 + 1" "\<And>k. k \<noteq> u \<Longrightarrow> k \<noteq> v \<Longrightarrow> rc s k < 2 ^ 31"
  shows "\<exists>s'. bnd (brelse a s) (brelse b) = Ok s' \<and> same p s s' \<and> calm p s' \<and> blk s' = blk s \<and>
    rc s' = (rc s)(u := rc s u - 1, v := rc s v - 1) \<and> sectors s' = sectors s \<and> dtrace s' = dtrace s"
proof -
  obtain s1 where r1: "brelse a s = Ok s1" and p1: "put p u (blk s u) (rc s u - 1) s s1" and l1: "slocks s1 = (slocks s)(a := free_sleeplock)"
    and f1: "sectors s1 = sectors s" "dtrace s1 = dtrace s" and h1: "holds p s1 v b"
    using brelse_held [OF al ok h(1) cl(1)] h(2) ne [symmetric] by blast
  note q1 = putD [OF p1]
  have al1: "alone p s1" using same_alone [OF q1(1)] al by simp
  have c1: "rc s1 v = 1 \<longrightarrow> blk s1 v = dblock (sectors s1) v" using cl(2) q1 f1 ne by simp
  obtain s2 where r2: "brelse b s1 = Ok s2" and p2: "put p v (blk s1 v) (rc s1 v - 1) s1 s2" and l2: "slocks s2 = (slocks s1)(b := free_sleeplock)"
    and f2: "sectors s2 = sectors s1" "dtrace s2 = dtrace s1" using brelse_held [OF al1 q1(2) h1 c1] by blast
  note q2 = putD [OF p2]
  have rc2: "rc s2 = (rc s)(u := rc s u - 1, v := rc s v - 1)" using q1(4) q2(4) ne by simp
  have "\<not> locked_blk s2 k" for k
  proof (cases "buf_of s k")
    case (Some i)
    consider "k = u" | "k = v" | "\<not> locked_blk s k" using lk by blast
    then show ?thesis using Some q1(5) q2(5) l1 l2 h by cases (auto simp: locked_blk_def holds_def free_sleeplock_def)
  qed (use q1(5) q2(5) in \<open>simp add: locked_blk_def\<close>)
  moreover have "rc s2 k < 2 ^ 31" for k
    using rs(1) [of k] rs(2) [of k] holdsD(7) [OF h(1) ok] holdsD(7) [OF h(2) ok] by (auto simp: rc2)
  moreover have "alone p s2" using same_alone [OF q2(1)] al1 by simp
  ultimately have "calm p s2" using q2(2) by (simp add: calm_def)
  then show ?thesis using r1 r2 same_trans [OF q1(1) q2(1)] q1(3) q2(3) rc2 f1 f2 by auto
qed

text \<open>Two different blocks are read.\<close>

lemma read_two:
  assumes sv: "serves sw" and c: "calm p s" and xy: "x \<noteq> y" "x < 2 ^ 31" "y < 2 ^ 31"
    and room: "x \<in> used s \<or> card (used s) < NBUF" "y \<in> used s \<or> card (insert x (used s)) < NBUF"
  shows "\<exists>i s1 j s2. bread sw (Suc m) ROOTDEV x s = Ok (i, s1) \<and> bread sw (Suc m) ROOTDEV y s1 = Ok (j, s2) \<and> same p s s1 \<and>
    same p s s2 \<and> cache_ok s2 \<and> holds p s2 x i \<and> holds p s2 y j \<and> blk s2 = blk s \<and> rc s2 = (rc s)(x := rc s x + 1, y := rc s y + 1) \<and>
    locked_blk s2 = (\<lambda>_. False)(x := True, y := True) \<and> sectors s2 = sectors s \<and> dtrace s2 = dtrace s"
proof -
  have al: "alone p s" and ok: "cache_ok s" and lk: "\<And>n. \<not> locked_blk s n" and rs: "\<And>n. rc s n < 2 ^ 31" using c by (auto simp: calm_def)
  have "rc s x < 2 ^ 32 - 1" using rs [of x] by simp
  then obtain i s1 where b1: "bread sw (Suc m) ROOTDEV x s = Ok (i, s1)" and g1: "got p x i s s1"
    using bread_ok [OF sv al ok xy(2) lk _ room(1), of m] by blast
  note q1 = gotD [OF g1]
  have al1: "alone p s1" using same_alone [OF q1(1)] al by simp
  have u1: "used s1 = insert x (used s)" by (auto simp: used_def q1(5))
  have "\<not> locked_blk s1 y" "rc s1 y < 2 ^ 32 - 1" "y \<in> used s1 \<or> card (used s1) < NBUF"
    using lk [of y] rs [of y] xy(1) room(2) u1 by (auto simp: q1(5,6))
  then obtain j s2 where b2: "bread sw (Suc m) ROOTDEV y s1 = Ok (j, s2)" and g2: "got p y j s1 s2"
    using bread_ok [OF sv al1 q1(2) xy(3), of m] by blast
  note q2 = gotD [OF g2]
  have "locked_blk s2 = (\<lambda>_. False)(x := True, y := True)" using lk by (auto simp: q1(6) q2(6) fun_eq_iff)
  moreover have "rc s2 = (rc s)(x := rc s x + 1, y := rc s y + 1)" using xy(1) by (simp add: q1(5) q2(5))
  ultimately show ?thesis
    using b1 b2 q1(1) same_trans [OF q1(1) q2(1)] q2(2,3) q2(9) [OF xy(1) q1(3)] q1(4,7,8) q2(4,7,8) by auto
qed

text \<open>Process-level frame of the log: the cache does not touch it.\<close>

lemma same_logs: "same p s s' \<Longrightarrow> logs s' = logs s"
proof -
  assume "same p s s'"
  then have e: "s' = s\<lparr>procs := procs s', vd := vd s', vwrites := vwrites s', bufs := bufs s',
     slocks := slocks s', sectors := sectors s', dtrace := dtrace s'\<rparr>" by (simp add: same_def)
  show ?thesis by (subst e) simp
qed

lemma write_log_block_ok:
  assumes sv: "serves sw" and c: "calm p s" and dev: "ldev s = ROOTDEV"
    and x: "x = log_blockno s t" and y: "y = l_block (logs s) t" and xy: "x \<noteq> y" "x < 2 ^ 31" "y < 2 ^ 31"
    and room: "y \<in> used s" "card (used s) < NBUF"
  shows "\<exists>s'. write_log_block sw (Suc m) t s = Ok s' \<and> wrote p x (blk s y) (rc s x) s s'"
proof -
  have al: "alone p s" and ok: "cache_ok s" and rs: "\<And>n. rc s n < 2 ^ 31" using c by (auto simp: calm_def)
  obtain i s1 j s2 where b: "bread sw (Suc m) ROOTDEV x s = Ok (i, s1)" "bread sw (Suc m) ROOTDEV y s1 = Ok (j, s2)" and sm: "same p s s1" "same p s s2"
    and ok2: "cache_ok s2" and h: "holds p s2 x i" "holds p s2 y j" and v: "blk s2 = blk s" "rc s2 = (rc s)(x := rc s x + 1, y := rc s y + 1)"
    "locked_blk s2 = (\<lambda>_. False)(x := True, y := True)" "sectors s2 = sectors s" "dtrace s2 = dtrace s"
    using read_two [OF sv c xy, of m] room by blast
  have al2: "alone p s2" using same_alone [OF sm(2)] al by simp
  have dy: "b_data (bufs s2 j) = blk s y" "length (blk s y) = BSIZE" using holdsD(5,9) [OF h(2) ok2] v(1) by simp_all
  obtain s3 where w: "bwrite sw (Suc m) i (upd_buf i (\<lambda>bf. bf\<lparr>b_data := blk s y\<rparr>) s2) = Ok s3" and p3: "put p x (blk s y) (rc s2 x) s2 s3"
    and f3: "slocks s3 = slocks s2" "sectors s3 = put_block (sector_of x) (blk s y) (sectors s2)" "dtrace s3 = dtrace s2 @ [(sector_of x, blk s y)]"
    using write_held [OF sv al2 ok2 h(1) dy(2), of m] by blast
  note q = putD [OF p3]
  have hh: "holds p s3 = holds p s2" using holds_upd q(5) f3(1) same_fields(5) [OF q(1)] by blast
  have al3: "alone p s3" using same_alone [OF q(1)] al2 by simp
  have lb: "locked_blk s3 = locked_blk s2" using q(5) f3(1) by (rule locked_blk_cong)
  have "\<exists>s'. bnd (brelse j s3) (brelse i) = Ok s' \<and> same p s3 s' \<and> calm p s' \<and> blk s' = blk s3 \<and>
      rc s' = (rc s3)(y := rc s3 y - 1, x := rc s3 x - 1) \<and> sectors s' = sectors s3 \<and> dtrace s' = dtrace s3"
  proof (rule release_two [OF al3 q(2)])
    show "rc s3 y = 1 \<longrightarrow> blk s3 y = dblock (sectors s3) y" using room(1) xy(1) by (auto simp: q(4) v(2) used_def)
    show "rc s3 x = 1 \<longrightarrow> blk s3 x = dblock (sectors s3) x" by (simp add: q(3) f3(2) dblock_put [OF xy(2)])
    show "locked_blk s3 k \<Longrightarrow> k = y \<or> k = x" for k by (simp add: lb v(3) split: if_splits)
    show "rc s3 k < 2 ^ 31 + 1" "k \<noteq> y \<Longrightarrow> k \<noteq> x \<Longrightarrow> rc s3 k < 2 ^ 31" for k using rs [of k] by (auto simp: q(4) v(2))
  qed (use h hh xy in simp_all)
  then obtain s' where r: "bnd (brelse j s3) (brelse i) = Ok s'" and s': "same p s3 s'" "calm p s'" "blk s' = blk s3"
      "rc s' = (rc s3)(y := rc s3 y - 1, x := rc s3 x - 1)" "sectors s' = sectors s3" "dtrace s' = dtrace s3" by blast
  have "write_log_block sw (Suc m) t s = Ok s'"
    unfolding write_log_block_def dev x [symmetric]
    using b w r dy(1) y same_logs [OF sm(1)] dev by simp
  moreover have "wrote p x (blk s y) (rc s x) s s'"
    unfolding wrote_def using same_trans [OF same_trans [OF sm(2) q(1)] s'(1)] s' q v f3 xy(1) by (auto simp: fun_eq_iff)
  ultimately show ?thesis by blast
qed

lemma install_block_ok:
  assumes sv: "serves sw" and c: "calm p s" and dev: "ldev s = ROOTDEV"
    and x: "x = log_blockno s t" and y: "y = l_block (logs s) t" and xy: "x \<noteq> y" "x < 2 ^ 31" "y < 2 ^ 31"
    and room: "card (used s) + 1 < NBUF \<or> y \<in> used s \<and> card (used s) < NBUF" and fin: "finite (used s)"
    and pin: "recovering \<or> 0 < rc s y"
  shows "\<exists>s'. install_block sw (Suc m) recovering t s = Ok s' \<and> wrote p y (blk s x) (if recovering then rc s y else rc s y - 1) s s'"
proof -
  have al: "alone p s" and ok: "cache_ok s" and rs: "\<And>n. rc s n < 2 ^ 31" using c by (auto simp: calm_def)
  have rm: "x \<in> used s \<or> card (used s) < NBUF" "y \<in> used s \<or> card (insert x (used s)) < NBUF"
    using room fin card_insert_if [OF fin, of x] by auto
  obtain i s1 j s2 where b: "bread sw (Suc m) ROOTDEV x s = Ok (i, s1)" "bread sw (Suc m) ROOTDEV y s1 = Ok (j, s2)" and sm: "same p s s1" "same p s s2"
    and ok2: "cache_ok s2" and h: "holds p s2 x i" "holds p s2 y j" and v: "blk s2 = blk s" "rc s2 = (rc s)(x := rc s x + 1, y := rc s y + 1)"
    "locked_blk s2 = (\<lambda>_. False)(x := True, y := True)" "sectors s2 = sectors s" "dtrace s2 = dtrace s"
    using read_two [OF sv c xy rm, of m] by blast
  have al2: "alone p s2" using same_alone [OF sm(2)] al by simp
  have dx: "b_data (bufs s2 i) = blk s x" "length (blk s x) = BSIZE" using holdsD(5,9) [OF h(1) ok2] v(1) by simp_all
  obtain s3 where w: "bwrite sw (Suc m) j (upd_buf j (\<lambda>bf. bf\<lparr>b_data := blk s x\<rparr>) s2) = Ok s3" and p3: "put p y (blk s x) (rc s2 y) s2 s3"
    and f3: "slocks s3 = slocks s2" "sectors s3 = put_block (sector_of y) (blk s x) (sectors s2)" "dtrace s3 = dtrace s2 @ [(sector_of y, blk s x)]"
    using write_held [OF sv al2 ok2 h(2) dx(2), of m] by blast
  note q = putD [OF p3]
  have al3: "alone p s3" using same_alone [OF q(1)] al2 by simp
  let ?r = "if recovering then rc s3 y else rc s3 y - 1"
  obtain s4 where u: "(if \<not> recovering then bunpin j s3 else Ok s3) = Ok s4" and p4: "put p y (blk s3 y) ?r s3 s4"
    and f4: "slocks s4 = slocks s3" "sectors s4 = sectors s3" "dtrace s4 = dtrace s3"
  proof (cases recovering)
    case True
    have "put p y (blk s3 y) (rc s3 y) s3 s3" using q(2) by (simp add: put_def)
    then show thesis using that True by simp
  next
    case False
    have "1 < rc s3 y" "buf_of s3 y = Some j" using False pin h(2) xy(1) by (auto simp: q(4,5) v(2) holds_def)
    then show thesis using that False unpin_ok [OF al3 q(2)] by auto
  qed
  note q4 = putD [OF p4]
  have hh: "holds p s4 = holds p s2" using holds_upd [of s3 s2 p] holds_upd [of s4 s3 p] q(5) q4(5) f3(1) f4(1) same_fields(5) [OF q(1)] same_fields(5) [OF q4(1)] by simp
  have al4: "alone p s4" using same_alone [OF q4(1)] al3 by simp
  have lb: "locked_blk s4 = locked_blk s2" using q(5) q4(5) f3(1) f4(1) locked_blk_cong by metis
  have "\<exists>s'. bnd (brelse i s4) (brelse j) = Ok s' \<and> same p s4 s' \<and> calm p s' \<and> blk s' = blk s4 \<and>
      rc s' = (rc s4)(x := rc s4 x - 1, y := rc s4 y - 1) \<and> sectors s' = sectors s4 \<and> dtrace s' = dtrace s4"
  proof (rule release_two [OF al4 q4(2)])
    have "rc s x = 0 \<Longrightarrow> blk s x = dblock (sectors s) x" using rc0_clean [OF ok] .
    then show "rc s4 x = 1 \<longrightarrow> blk s4 x = dblock (sectors s4) x"
      using xy by (simp add: q4(3,4) q(3,4) v(1,2) f4 f3(2) v(4) dblock_put_other [OF xy(3) xy(1) [symmetric]])
    show "rc s4 y = 1 \<longrightarrow> blk s4 y = dblock (sectors s4) y" by (simp add: q4(3) q(3) f4 f3(2) dblock_put [OF xy(3)])
    show "locked_blk s4 k \<Longrightarrow> k = x \<or> k = y" for k by (simp add: lb v(3) split: if_splits)
    show "rc s4 k < 2 ^ 31 + 1" "k \<noteq> x \<Longrightarrow> k \<noteq> y \<Longrightarrow> rc s4 k < 2 ^ 31" for k
      using rs [of k] by (auto simp: q4(4) q(4) v(2))
  qed (use h hh xy in simp_all)
  then obtain s' where r: "bnd (brelse i s4) (brelse j) = Ok s'" and s': "same p s4 s'" "calm p s'" "blk s' = blk s4"
      "rc s' = (rc s4)(x := rc s4 x - 1, y := rc s4 y - 1)" "sectors s' = sectors s4" "dtrace s' = dtrace s4" by blast
  have "install_block sw (Suc m) recovering t s = Ok s'"
    unfolding install_block_def dev x [symmetric]
    using b w u r dx(1) y same_logs [OF sm(1)] dev by simp
  moreover have "wrote p y (blk s x) (if recovering then rc s y else rc s y - 1) s s'"
    unfolding wrote_def
    using same_trans [OF same_trans [OF same_trans [OF sm(2) q(1)] q4(1)] s'(1)] s' q q4 v f3 f4 xy(1) by (auto simp: fun_eq_iff)
  ultimately show ?thesis by blast
qed

text \<open>A single block is read, changed, written and released.\<close>

lemma rewrite_ok:
  assumes sv: "serves sw" and c: "calm p s" and x: "x < 2 ^ 31" and room: "x \<in> used s \<or> card (used s) < NBUF"
    and len: "length d = BSIZE" and d: "\<And>i t. same p s t \<Longrightarrow> b_data (bufs t i) = blk s x \<Longrightarrow> f t i = d"
  shows "\<exists>s'. bnd (bread sw (Suc m) ROOTDEV x s) (\<lambda>(i, s1).
      bnd (bwrite sw (Suc m) i (upd_buf i (\<lambda>bf. bf\<lparr>b_data := f s1 i\<rparr>) s1)) (brelse i)) = Ok s' \<and> wrote p x d (rc s x) s s'"
proof -
  have al: "alone p s" and ok: "cache_ok s" and lk: "\<And>n. \<not> locked_blk s n" and rs: "\<And>n. rc s n < 2 ^ 31" using c by (auto simp: calm_def)
  have "rc s x < 2 ^ 32 - 1" using rs [of x] by simp
  then obtain i s1 where b1: "bread sw (Suc m) ROOTDEV x s = Ok (i, s1)" and g1: "got p x i s s1"
    using bread_ok [OF sv al ok x lk _ room, of m] by blast
  note q1 = gotD [OF g1]
  have al1: "alone p s1" using same_alone [OF q1(1)] al by simp
  have fd: "f s1 i = d" using d [OF q1(1)] holdsD(5) [OF q1(3) q1(2)] q1(4) by simp
  obtain s2 where w: "bwrite sw (Suc m) i (upd_buf i (\<lambda>bf. bf\<lparr>b_data := d\<rparr>) s1) = Ok s2" and p2: "put p x d (rc s1 x) s1 s2"
    and f2: "slocks s2 = slocks s1" "sectors s2 = put_block (sector_of x) d (sectors s1)" "dtrace s2 = dtrace s1 @ [(sector_of x, d)]"
    using write_held [OF sv al1 q1(2) q1(3) len, of m] by blast
  note q2 = putD [OF p2]
  have al2: "alone p s2" using same_alone [OF q2(1)] al1 by simp
  have h2: "holds p s2 x i" using holds_upd [of s2 s1 p] q2(5) f2(1) same_fields(5) [OF q2(1)] q1(3) by simp
  have cl: "rc s2 x = 1 \<longrightarrow> blk s2 x = dblock (sectors s2) x" by (simp add: q2(3) f2(2) dblock_put [OF x])
  obtain s3 where r3: "brelse i s2 = Ok s3" and p3: "put p x (blk s2 x) (rc s2 x - 1) s2 s3" and l3: "slocks s3 = (slocks s2)(i := free_sleeplock)"
    and f3: "sectors s3 = sectors s2" "dtrace s3 = dtrace s2" using brelse_ok [OF al2 q2(2) h2 cl] by blast
  note q3 = putD [OF p3]
  have rc3: "rc s3 = rc s" by (simp add: q3(4) q2(4) q1(5))
  have "\<not> locked_blk s3 k" for k
  proof (cases "k = x")
    case True
    then show ?thesis using h2 q3(5) l3 by (simp add: locked_blk_def holds_def free_sleeplock_def)
  next
    case False
    have "\<not> locked_blk s2 k" using lk [of k] locked_blk_cong [OF q2(5) f2(1)] q1(6) False by simp
    then show ?thesis using q3(5) l3 by (auto simp: locked_blk_def free_sleeplock_def split: option.splits)
  qed
  then have "calm p s3" using same_alone [OF q3(1)] al2 q3(2) rs rc3 by (simp add: calm_def)
  then have "wrote p x d (rc s x) s s3"
    unfolding wrote_def using same_trans [OF same_trans [OF q1(1) q2(1)] q3(1)] q1(4,7,8) q2(3) q3(3) f2 f3 rc3 by simp
  then show ?thesis using b1 w r3 fd by (intro exI [of _ s3]) simp
qed

end
