(* ===== verification/Crash.thy ===== *)
theory Crash
  imports Blockcopy
begin

unbundle bit_operations_syntax

text \<open>
  Commit and recovery of kernel/log.c as sequences of block writes, and crash safety: whatever prefix of the
  sector writes of a commit reaches the disk, recovery at the next boot leaves all blocks of the
  transaction with their old contents or all with their new contents.
\<close>

section \<open>Sequences of block writes\<close>

type_synonym writes = "(u32 \<times> u8 list) list"

definition over :: "writes \<Rightarrow> (u32 \<Rightarrow> u8 list) \<Rightarrow> u32 \<Rightarrow> u8 list" where
  "over ws f = fold (\<lambda>(n, d) f. f(n := d)) ws f"

definition put_all :: "writes \<Rightarrow> (u64 \<Rightarrow> u8 list) \<Rightarrow> u64 \<Rightarrow> u8 list" where
  "put_all ws d = fold (\<lambda>(n, bs). put_block (sector_of n) bs) ws d"

definition trace_of :: "writes \<Rightarrow> (u64 \<times> u8 list) list" where
  "trace_of ws = map (\<lambda>(n, d). (sector_of n, d)) ws"

lemma over_simps [simp]: "over [] f = f" "over (ws @ vs) f = over vs (over ws f)" "over ((n, d) # ws) f = over ws (f(n := d))"
  by (simp_all add: over_def)

lemma put_all_simps [simp]:
  "put_all [] d = d" "put_all (ws @ vs) d = put_all vs (put_all ws d)" "put_all ((n, bs) # ws) d = put_all ws (put_block (sector_of n) bs d)"
  by (simp_all add: put_all_def)

lemma trace_of_simps [simp]: "trace_of [] = []" "trace_of (ws @ vs) = trace_of ws @ trace_of vs" "trace_of ((n, d) # ws) = (sector_of n, d) # trace_of ws"
  by (simp_all add: trace_of_def)

lemma over_other: "n \<notin> fst ` set ws \<Longrightarrow> over ws f n = f n"
  by (induction ws arbitrary: f) auto

lemma over_at: "g m = g' m \<Longrightarrow> over ws g m = over ws g' m"
proof (induction ws arbitrary: g g')
  case (Cons w ws)
  obtain n d where w: "w = (n, d)" by fastforce
  have "over ws (g(n := d)) m = over ws (g'(n := d)) m" by (rule Cons.IH) (use Cons.prems in simp)
  then show ?case by (simp add: w)
qed simp

lemma over_map: "distinct (map fst ws) \<Longrightarrow> (n, d) \<in> set ws \<Longrightarrow> over ws f n = d"
proof (induction ws arbitrary: f)
  case (Cons w ws)
  then show ?case by (cases w) (auto simp: over_other)
qed simp

lemma dblock_put_all: "(\<forall>n\<in>fst ` set ws. n < 2 ^ 31) \<Longrightarrow> dblock (put_all ws d) = over ws (dblock d)"
proof (induction ws arbitrary: d)
  case (Cons w ws)
  obtain n bs where w: "w = (n, bs)" by fastforce
  have "dblock (put_block (sector_of n) bs d) = (dblock d)(n := bs)"
    using Cons.prems dblock_put [of n] dblock_put_other [of n] w by (auto simp: fun_eq_iff)
  then show ?case using Cons w by simp
qed simp

text \<open>The writes \<open>ws\<close> have been done, in this order.\<close>

definition wrote_all :: "nat \<Rightarrow> writes \<Rightarrow> 'a dstate_scheme \<Rightarrow> 'a dstate_scheme \<Rightarrow> bool" where
  "wrote_all p ws s s' \<longleftrightarrow> same p s s' \<and> calm p s' \<and> blk s' = over ws (blk s) \<and> sectors s' = put_all ws (sectors s) \<and>
     dtrace s' = dtrace s @ trace_of ws"

lemma wrote_all_Nil: "calm p s \<Longrightarrow> wrote_all p [] s s"
  by (simp add: wrote_all_def)

lemma wrote_all_snoc: "wrote_all p ws s s1 \<Longrightarrow> wrote p n d r s1 s2 \<Longrightarrow> wrote_all p (ws @ [(n, d)]) s s2"
  by (auto simp: wrote_all_def wrote_def intro: same_trans)

section \<open>The transaction\<close>

text \<open>The log occupies blocks \<open>st\<close> to \<open>st + sz - 1\<close>; the blocks \<open>ns\<close> are logged.\<close>

definition region :: "nat \<Rightarrow> nat \<Rightarrow> u32 set" where
  "region st sz = of_nat ` {st..<st + sz}"

definition logged :: "nat \<Rightarrow> nat \<Rightarrow> u32 list \<Rightarrow> log \<Rightarrow> bool" where
  "logged st sz ns l \<longleftrightarrow> l_dev l = 1 \<and> l_start l = int st \<and> l_n l = int (length ns) \<and> st + sz \<le> 2 ^ 31 \<and>
     length ns \<le> LOGSIZE \<and> length ns < sz \<and> distinct ns \<and> (\<forall>i<length ns. l_block l i = ns ! i) \<and>
     (\<forall>n\<in>set ns. n < 2 ^ 31 \<and> n \<notin> region st sz)"

definition lb :: "nat \<Rightarrow> nat \<Rightarrow> u32" where
  "lb st t = of_nat (st + 1 + t)"

lemma u32_small: "i < 2 ^ 31 \<Longrightarrow> (of_nat i :: u32) < 2 ^ 31" "i < 2 ^ 31 \<Longrightarrow> unat (of_nat i :: u32) = i"
  by (simp_all add: word_less_nat_alt unat_of_nat)

lemma lb_simps:
  assumes "logged st sz ns l" and "t < sz - 1"
  shows "lb st t < (2 ^ 31 :: u32)" "lb st t \<in> region st sz" "lb st t \<notin> set ns"
proof -
  have b: "st + 1 + t < st + sz" "st + sz \<le> 2 ^ 31" using assms by (auto simp: logged_def)
  show "lb st t < (2 ^ 31 :: u32)" unfolding lb_def by (rule u32_small) (use b in simp)
  show r: "lb st t \<in> region st sz" using b unfolding region_def lb_def by (intro imageI) simp
  then show "lb st t \<notin> set ns" using assms(1) by (auto simp: logged_def)
qed

lemma lb_not_logged: "logged st sz ns l \<Longrightarrow> t < length ns \<Longrightarrow> i < length ns \<Longrightarrow> ns ! t \<noteq> lb st i"
proof -
  assume lg: "logged st sz ns l" and ti: "t < length ns" "i < length ns"
  then have "i < sz - 1" by (auto simp: logged_def)
  then show ?thesis using lb_simps(3) [OF lg] ti(1) nth_mem [OF ti(1)] by metis
qed

lemma lb_inj:
  assumes "st + 1 + t < 2 ^ 31" and "st + 1 + u < 2 ^ 31" and "lb st t = lb st u"
  shows "t = u"
proof -
  have "unat (lb st t) = unat (lb st u)" using assms(3) by (rule arg_cong)
  then show ?thesis unfolding lb_def u32_small(2) [OF assms(1)] u32_small(2) [OF assms(2)] by simp
qed

lemma log_blockno_lb: "logged st sz ns (logs s) \<Longrightarrow> log_blockno s t = lb st t"
  by (simp add: log_blockno_def logged_def lb_def algebra_simps)

lemma logged_dev: "logged st sz ns (logs s) \<Longrightarrow> ldev s = ROOTDEV"
  by (simp add: logged_def ROOTDEV_def)

text \<open>Both copying loops, in general: block \<open>y t\<close> is overwritten with the content of block \<open>x t\<close>.\<close>

lemma copy_loop:
  assumes step: "\<And>t s1. t < k \<Longrightarrow> wrote_all p (map (\<lambda>i. (y i, blk s (x i))) [0..<t]) s s1 \<Longrightarrow> R t s1 \<Longrightarrow>
      \<exists>s2 r. f t s1 = Ok s2 \<and> wrote p (y t) (blk s1 (x t)) r s1 s2 \<and> R (Suc t) s2"
    and disj: "\<And>t i. t < k \<Longrightarrow> i < k \<Longrightarrow> x t \<noteq> y i" and c: "calm p s" and R0: "R 0 s"
  shows "\<exists>s'. for_each [0..<k] f s = Ok s' \<and> wrote_all p (map (\<lambda>i. (y i, blk s (x i))) [0..<k]) s s' \<and> R k s'"
  using step disj
proof (induction k)
  case 0
  then show ?case using c R0 by (auto simp: wrote_all_Nil)
next
  case (Suc k)
  let ?ws = "map (\<lambda>i. (y i, blk s (x i))) [0..<k]"
  obtain s1 where l: "for_each [0..<k] f s = Ok s1" and w: "wrote_all p ?ws s s1" and r: "R k s1"
  proof -
    have "\<exists>s'. for_each [0..<k] f s = Ok s' \<and> wrote_all p ?ws s s' \<and> R k s'"
      by (rule Suc.IH [OF Suc.prems(1) Suc.prems(2)]) simp_all
    then show thesis using that by blast
  qed
  obtain s2 rr where f: "f k s1 = Ok s2" and w2: "wrote p (y k) (blk s1 (x k)) rr s1 s2" and r2: "R (Suc k) s2"
    using Suc.prems(1) [OF _ w r] by blast
  have "x k \<notin> fst ` set ?ws" using Suc.prems(2) by (auto simp: less_Suc_eq)
  then have "blk s1 (x k) = blk s (x k)" using w by (simp add: wrote_all_def over_other)
  then have "wrote_all p (?ws @ [(y k, blk s (x k))]) s s2" using wrote_all_snoc [OF w w2] by simp
  moreover have "for_each [0..<Suc k] f s = Ok s2" using l f by (simp add: for_each_append)
  ultimately show ?case using r2 by auto
qed

lemma write_log_ok:
  assumes sv: "serves sw" and c: "calm p s" and lg: "logged st sz ns (logs s)" and pin: "\<forall>n\<in>set ns. 0 < rc s n" and room: "card (used s) < NBUF"
  shows "\<exists>s'. write_log sw (Suc m) s = Ok s' \<and> wrote_all p (map (\<lambda>i. (lb st i, blk s (ns ! i))) [0..<length ns]) s s' \<and> rc s' = rc s"
proof -
  have n: "nat (l_n (logs s)) = length ns" using lg by (simp add: logged_def)
  have "\<exists>s'. for_each [0..<length ns] (write_log_block sw (Suc m)) s = Ok s' \<and>
      wrote_all p (map (\<lambda>i. (lb st i, blk s (ns ! i))) [0..<length ns]) s s' \<and> rc s' = rc s"
  proof (rule copy_loop [where R = "\<lambda>t s1. rc s1 = rc s"])
    fix t s1
    assume t: "t < length ns" and w: "wrote_all p (map (\<lambda>i. (lb st i, blk s (ns ! i))) [0..<t]) s s1" and rc: "rc s1 = rc s"
    have lg1: "logged st sz ns (logs s1)" and c1: "calm p s1" using w same_logs [of p s s1] lg by (auto simp: wrote_all_def)
    have t': "t < sz - 1" using lg t by (auto simp: logged_def)
    note q = lb_simps [OF lg1 t']
    have nt: "ns ! t \<in> set ns" using t by simp
    have y: "l_block (logs s1) t = ns ! t" "ns ! t < 2 ^ 31" using lg1 t nt unfolding logged_def by blast+
    have ne: "lb st t \<noteq> ns ! t" using q(3) nt by metis
    have u: "ns ! t \<in> used s1" "card (used s1) < NBUF" using pin nt rc room by (auto simp: used_def)
    have "\<exists>s'. write_log_block sw (Suc m) t s1 = Ok s' \<and> wrote p (lb st t) (blk s1 (ns ! t)) (rc s1 (lb st t)) s1 s'"
      by (rule write_log_block_ok [OF sv c1 logged_dev [OF lg1] log_blockno_lb [OF lg1, symmetric] y(1) [symmetric] ne q(1) y(2) u])
    then obtain s2 where s2: "write_log_block sw (Suc m) t s1 = Ok s2" "wrote p (lb st t) (blk s1 (ns ! t)) (rc s1 (lb st t)) s1 s2" by blast
    then show "\<exists>s2 r. write_log_block sw (Suc m) t s1 = Ok s2 \<and> wrote p (lb st t) (blk s1 (ns ! t)) r s1 s2 \<and> rc s2 = rc s"
      using rc by (intro exI [of _ s2] exI [of _ "rc s1 (lb st t)"]) (simp add: wrote_def)
  next
    show "ns ! t \<noteq> lb st i" if "t < length ns" "i < length ns" for t i using lb_not_logged [OF lg that] .
  qed (use c in simp_all)
  then show ?thesis by (simp add: write_log_def n)
qed

text \<open>\<open>install_trans\<close> unpins the blocks of a commit; during recovery nothing is pinned.\<close>

definition unpinned :: "u32 set \<Rightarrow> (u32 \<Rightarrow> nat) \<Rightarrow> u32 \<Rightarrow> nat" where
  "unpinned A r n = (if n \<in> A then r n - 1 else r n)"

lemma install_trans_ok:
  assumes sv: "serves sw" and c: "calm p s" and lg: "logged st sz ns (logs s)"
    and room: "if recovering then card (used s) + 1 < NBUF else (\<forall>n\<in>set ns. 0 < rc s n) \<and> card (used s) < NBUF"
  shows "\<exists>s'. install_trans sw (Suc m) recovering s = Ok s' \<and> wrote_all p (map (\<lambda>i. (ns ! i, blk s (lb st i))) [0..<length ns]) s s' \<and>
    rc s' = (if recovering then rc s else unpinned (set ns) (rc s))"
proof -
  have n: "nat (l_n (logs s)) = length ns" using lg by (simp add: logged_def)
  let ?R = "\<lambda>t s1. rc s1 = (if recovering then rc s else unpinned (set (take t ns)) (rc s))"
  have "\<exists>s'. for_each [0..<length ns] (install_block sw (Suc m) recovering) s = Ok s' \<and>
      wrote_all p (map (\<lambda>i. (ns ! i, blk s (lb st i))) [0..<length ns]) s s' \<and> ?R (length ns) s'"
  proof (rule copy_loop [where R = ?R])
    fix t s1
    assume t: "t < length ns" and w: "wrote_all p (map (\<lambda>i. (ns ! i, blk s (lb st i))) [0..<t]) s s1" and rc: "?R t s1"
    have lg1: "logged st sz ns (logs s1)" and c1: "calm p s1" using w same_logs [of p s s1] lg by (auto simp: wrote_all_def)
    have t': "t < sz - 1" and dn: "distinct ns" using lg t by (auto simp: logged_def)
    note q = lb_simps [OF lg1 t']
    have nt: "ns ! t \<in> set ns" using t by simp
    have y: "l_block (logs s1) t = ns ! t" "ns ! t < 2 ^ 31" using lg1 t nt unfolding logged_def by blast+
    have ne: "lb st t \<noteq> ns ! t" using q(3) nt by metis
    have nin: "ns ! t \<notin> set (take t ns)" using dn t by (simp add: distinct_conv_nth in_set_conv_nth)
    have us: "used s1 \<subseteq> used s" using rc by (auto simp: used_def unpinned_def split: if_splits)
    have cu: "card (used s1) \<le> card (used s)" by (rule card_mono [OF _ us]) simp
    have rn: "rc s1 (ns ! t) = rc s (ns ! t)" using rc nin by (simp add: unpinned_def)
    have rm: "card (used s1) + 1 < NBUF \<or> ns ! t \<in> used s1 \<and> card (used s1) < NBUF" "recovering \<or> 0 < rc s1 (ns ! t)"
      using room cu rn nt by (auto simp: used_def split: if_splits)
    have "\<exists>s'. install_block sw (Suc m) recovering t s1 = Ok s' \<and>
        wrote p (ns ! t) (blk s1 (lb st t)) (if recovering then rc s1 (ns ! t) else rc s1 (ns ! t) - 1) s1 s'"
      by (rule install_block_ok [OF sv c1 logged_dev [OF lg1] log_blockno_lb [OF lg1, symmetric] y(1) [symmetric] ne q(1) y(2) rm(1) _ rm(2)]) simp
    then obtain s2 where s2: "install_block sw (Suc m) recovering t s1 = Ok s2"
        "wrote p (ns ! t) (blk s1 (lb st t)) (if recovering then rc s1 (ns ! t) else rc s1 (ns ! t) - 1) s1 s2" by blast
    have "?R (Suc t) s2"
      using s2(2) rc rn nin t by (auto simp: wrote_def unpinned_def take_Suc_conv_app_nth fun_eq_iff)
    then show "\<exists>s2 r. install_block sw (Suc m) recovering t s1 = Ok s2 \<and> wrote p (ns ! t) (blk s1 (lb st t)) r s1 s2 \<and> ?R (Suc t) s2"
      using s2 by blast
  next
    show "lb st t \<noteq> ns ! i" if "t < length ns" "i < length ns" for t i using lb_not_logged [OF lg that(2,1)] by metis
  qed (use c in \<open>auto simp: unpinned_def fun_eq_iff\<close>)
  then show ?thesis unfolding install_trans_def n take_all [OF order_refl] .
qed

section \<open>The header\<close>

lemma length_head_bytes: "length (head_bytes n b bs) = length bs"
proof -
  have "length (fold (\<lambda>i bs. put32 (4 + 4 * i) (b i) bs) is cs) = length cs" for "is" cs by (induction "is" arbitrary: cs) simp_all
  then show ?thesis by (simp add: head_bytes_def)
qed

lemma fold_put32:
  "4 + 4 * k \<le> length cs \<Longrightarrow>
   get32 0 (fold (\<lambda>i bs. put32 (4 + 4 * i) (b i) bs) [0..<k] cs) = get32 0 cs \<and>
   length (fold (\<lambda>i bs. put32 (4 + 4 * i) (b i) bs) [0..<k] cs) = length cs \<and>
   (\<forall>j<k. get32 (4 + 4 * j) (fold (\<lambda>i bs. put32 (4 + 4 * i) (b i) bs) [0..<k] cs) = b j)"
proof (induction k)
  case (Suc k)
  have "get32 0 (put32 (4 + 4 * k) v xs) = get32 0 xs" for v xs by (rule get32_put32_other) linarith
  then show ?case using Suc by (auto simp: get32_put32_other less_Suc_eq)
qed simp

lemma head_bytes_get:
  assumes "length bs = BSIZE" and "nat n \<le> LOGSIZE"
  shows "get32 0 (head_bytes n b bs) = of_int n" and "j < nat n \<Longrightarrow> get32 (4 + 4 * j) (head_bytes n b bs) = b j"
  using fold_put32 [of "nat n" "put32 0 (of_int n) bs" b] assms
  by (simp_all add: head_bytes_def LOGSIZE_def MAXOPBLOCKS_def BSIZE_def)

lemma write_head_ok:
  assumes sv: "serves sw" and c: "calm p s" and st: "l_dev (logs s) = 1" "l_start (logs s) = int st" "st < 2 ^ 31"
    and n: "l_n (logs s) \<le> int LOGSIZE" and room: "card (used s) < NBUF"
  shows "\<exists>s'. write_head sw (Suc m) s = Ok s' \<and>
    wrote_all p [(of_nat st, head_bytes (l_n (logs s)) (l_block (logs s)) (blk s (of_nat st)))] s s' \<and> rc s' = rc s"
proof -
  let ?x = "of_nat st :: u32"
  let ?d = "head_bytes (l_n (logs s)) (l_block (logs s)) (blk s ?x)"
  let ?f = "\<lambda>t i. head_bytes (l_n (logs t)) (l_block (logs t)) (b_data (bufs t i))"
  have x: "?x < 2 ^ 31" using u32_small [OF st(3)] by simp
  have len: "length ?d = BSIZE" using blk_length [of s ?x] c x by (simp add: length_head_bytes calm_def)
  have "\<exists>s'. bnd (bread sw (Suc m) ROOTDEV ?x s) (\<lambda>(i, s1).
      bnd (bwrite sw (Suc m) i (upd_buf i (\<lambda>bf. bf\<lparr>b_data := ?f s1 i\<rparr>) s1)) (brelse i)) = Ok s' \<and> wrote p ?x ?d (rc s ?x) s s'"
    by (rule rewrite_ok [OF sv c x _ len]) (use room in \<open>auto dest: same_logs\<close>)
  then obtain s' where r: "bnd (bread sw (Suc m) ROOTDEV ?x s) (\<lambda>(i, s1).
      bnd (bwrite sw (Suc m) i (upd_buf i (\<lambda>bf. bf\<lparr>b_data := ?f s1 i\<rparr>) s1)) (brelse i)) = Ok s'" and w: "wrote p ?x ?d (rc s ?x) s s'" by blast
  have al: "alone p s" and ok: "cache_ok s" and lk: "\<not> locked_blk s ?x" and rx: "rc s ?x < 2 ^ 32 - 1"
    using c unfolding calm_def by (auto dest: spec [of _ ?x])
  obtain i s1 where b: "bread sw (Suc m) ROOTDEV ?x s = Ok (i, s1)" and g: "got p ?x i s s1"
    using bread_ok [OF sv al ok x lk rx, of m] room by blast
  have "\<not> l_n (logs s1) > int LOGSIZE" using same_logs [OF gotD(1) [OF g]] n by simp
  then have "write_head sw (Suc m) s = Ok s'"
    unfolding write_head_def using r b st by (simp add: upd_buf_def ROOTDEV_def)
  moreover have "wrote_all p [(?x, ?d)] s s' \<and> rc s' = rc s" using w by (simp add: wrote_def wrote_all_def)
  ultimately show ?thesis by blast
qed

section \<open>Commit\<close>

lemma upd_log_simps [simp]:
  "cache_ok (upd_log f s) = cache_ok s" "blk (upd_log f s) = blk s" "rc (upd_log f s) = rc s" "locked_blk (upd_log f s) = locked_blk s"
  "alone p (upd_log f s) = alone p s" "calm p (upd_log f s) = calm p s" "used (upd_log f s) = used s" "sectors (upd_log f s) = sectors s"
  "dtrace (upd_log f s) = dtrace s" "bufs (upd_log f s) = bufs s" "logs (upd_log f s) = f (logs s)" "slocks (upd_log f s) = slocks s"
  "procs (upd_log f s) = procs s" "buf_of (upd_log f s) = buf_of s" "holds p (upd_log f s) = holds p s"
proof -
  show b: "buf_of (upd_log f s) = buf_of s" by (simp add: buf_of_def upd_log_def fun_eq_iff)
  have u: "bufs (upd_log f s) = bufs s" "sectors (upd_log f s) = sectors s" "slocks (upd_log f s) = slocks s" by (simp_all add: upd_log_def)
  show "blk (upd_log f s) = blk s" by (rule ext) (simp add: blk_def b u cong: option.case_cong)
  show r: "rc (upd_log f s) = rc s" by (rule ext) (simp add: rc_def b u cong: option.case_cong)
  show l: "locked_blk (upd_log f s) = locked_blk s" by (rule ext) (simp add: locked_blk_def b u cong: option.case_cong)
  show "used (upd_log f s) = used s" by (simp add: used_def r)
  show a: "alone p (upd_log f s) = alone p s" by (rule alone_cong) (simp_all add: upd_log_def)
  have "lru (upd_log f s) = lru s" by (rule ext, rule lru_cong) (simp_all add: upd_log_def)
  moreover have "buf_ok (upd_log f s) = buf_ok s" by (simp add: buf_ok_def upd_log_def fun_eq_iff)
  ultimately show c: "cache_ok (upd_log f s) = cache_ok s" unfolding cache_ok_def by (simp add: upd_log_def)
  show "calm p (upd_log f s) = calm p s" by (simp add: calm_def a c l r)
  show "holds p (upd_log f s) = holds p s" by (simp add: holds_def holds_sleep_def b fun_eq_iff) (simp add: upd_log_def)
qed (simp_all add: upd_log_def)

lemma head_bytes_cong: "(\<And>i. i < nat n \<Longrightarrow> b i = c i) \<Longrightarrow> head_bytes n b bs = head_bytes n c bs"
  unfolding head_bytes_def by (rule fold_cong) auto

text \<open>The block writes of a commit, in order.\<close>

definition commit_writes :: "nat \<Rightarrow> u32 list \<Rightarrow> (u32 \<Rightarrow> u8 list) \<Rightarrow> writes" where
  "commit_writes st ns f =
     (let n = length ns; h = head_bytes (int n) (\<lambda>i. ns ! i) (f (of_nat st))
      in map (\<lambda>i. (lb st i, f (ns ! i))) [0..<n] @ [(of_nat st, h)] @
         map (\<lambda>i. (ns ! i, f (ns ! i))) [0..<n] @ [(of_nat st, put32 0 0 h)])"

lemma head_region: "logged st sz ns l \<Longrightarrow> st < 2 ^ 31 \<and> of_nat st \<in> region st sz \<and> of_nat st \<notin> set ns \<and> (of_nat st :: u32) < 2 ^ 31 \<and>
   (\<forall>i<length ns. lb st i \<noteq> of_nat st)"
proof -
  assume lg: "logged st sz ns l"
  then have b: "st < 2 ^ 31" "0 < sz" "st + sz \<le> 2 ^ 31" "length ns < sz" by (auto simp: logged_def)
  have r: "of_nat st \<in> region st sz" using b unfolding region_def by (intro imageI) simp
  have "lb st i \<noteq> of_nat st" if "i < length ns" for i
  proof
    assume "lb st i = of_nat st"
    then have "unat (lb st i) = unat (of_nat st :: u32)" by simp
    then show False unfolding lb_def u32_small(2) [OF b(1)] using u32_small(2) [of "st + 1 + i"] b that by simp
  qed
  then show ?thesis using b(1) r u32_small(1) [OF b(1)] lg by (auto simp: logged_def)
qed

lemma over_lb:
  assumes "logged st sz ns l" and "i < length ns"
  shows "over (map (\<lambda>i. (lb st i, g i)) [0..<length ns]) f (lb st i) = g i"
proof (rule over_map)
  have b: "st + sz \<le> 2 ^ 31" "length ns < sz" using assms(1) by (auto simp: logged_def)
  have "inj_on (lb st) {0..<length ns}" by (rule inj_onI) (rule lb_inj, use b in auto)
  then show "distinct (map fst (map (\<lambda>i. (lb st i, g i)) [0..<length ns]))"
    by (simp add: distinct_map comp_def)
qed (use assms(2) in auto)

lemma commit_ok:
  assumes sv: "serves sw" and c: "calm p s" and lg: "logged st sz ns (logs s)" and ne: "ns \<noteq> []"
    and pin: "\<forall>n\<in>set ns. 0 < rc s n" and room: "card (used s) < NBUF"
  shows "\<exists>s'. commit sw (Suc m) s = Ok s' \<and> calm p s' \<and> sectors s' = put_all (commit_writes st ns (blk s)) (sectors s) \<and>
    dtrace s' = dtrace s @ trace_of (commit_writes st ns (blk s)) \<and> rc s' = unpinned (set ns) (rc s) \<and> logs s' = (logs s)\<lparr>l_n := 0\<rparr>"
proof -
  let ?n = "length ns" and ?x = "of_nat st :: u32"
  let ?L = "map (\<lambda>i. (lb st i, blk s (ns ! i))) [0..<?n]" and ?I = "map (\<lambda>i. (ns ! i, blk s (ns ! i))) [0..<?n]"
  let ?h = "head_bytes (int ?n) (\<lambda>i. ns ! i) (blk s ?x)"
  have l: "l_dev (logs s) = 1" "l_start (logs s) = int st" "l_n (logs s) = int ?n" "?n \<le> LOGSIZE" "\<forall>i<?n. l_block (logs s) i = ns ! i"
    using lg by (auto simp: logged_def)
  note hr = head_region [OF lg]
  obtain s1 where w1: "write_log sw (Suc m) s = Ok s1" and a1: "wrote_all p ?L s s1" and r1: "rc s1 = rc s"
    using write_log_ok [OF sv c lg pin room] by blast
  have g1: "logs s1 = logs s" "calm p s1" "used s1 = used s" using a1 same_logs [of p s s1] r1 by (auto simp: wrote_all_def used_def)
  have "?x \<notin> fst ` set ?L" using hr by (auto simp: image_iff)
  then have x1: "blk s1 ?x = blk s ?x" using a1 by (simp add: wrote_all_def over_other)
  have h1: "head_bytes (l_n (logs s1)) (l_block (logs s1)) (blk s1 ?x) = ?h"
    unfolding x1 g1(1) l(3) by (rule head_bytes_cong) (use l(5) in simp)
  obtain s2 where w2: "write_head sw (Suc m) s1 = Ok s2" and a2: "wrote_all p [(?x, ?h)] s1 s2" and r2: "rc s2 = rc s1"
    using write_head_ok [OF sv g1(2), of st m] l hr room h1 by (auto simp: g1)
  have g2: "logs s2 = logs s" "calm p s2" "used s2 = used s" using a2 same_logs [of p s1 s2] r2 g1 by (auto simp: wrote_all_def used_def)
  have b2: "blk s2 = (over ?L (blk s))(?x := ?h)" using a1 a2 by (simp add: wrote_all_def)
  have i2: "map (\<lambda>i. (ns ! i, blk s2 (lb st i))) [0..<?n] = ?I"
    using hr over_lb [OF lg, where g = "\<lambda>i. blk s (ns ! i)" and f = "blk s"] by (auto simp: b2)
  obtain s3 where w3: "install_trans sw (Suc m) False s2 = Ok s3" and a3: "wrote_all p ?I s2 s3" and r3: "rc s3 = unpinned (set ns) (rc s2)"
    using install_trans_ok [OF sv g2(2), of st sz ns False m] lg pin room r1 r2 i2 by (auto simp: g2)
  have g3: "logs s3 = logs s" "calm p s3" "used s3 \<subseteq> used s"
    using a3 same_logs [of p s2 s3] r3 r1 r2 g2 by (auto simp: wrote_all_def used_def unpinned_def split: if_splits)
  have c3: "card (used s3) < NBUF" using room card_mono [OF _ g3(3)] by simp
  have x3: "blk s3 ?x = ?h"
  proof -
    have "?x \<notin> fst ` set ?I" using hr by (auto simp: image_iff)
    then show ?thesis using a3 b2 by (simp add: wrote_all_def over_other)
  qed
  let ?t = "upd_log (\<lambda>l. l\<lparr>l_n := 0\<rparr>) s3"
  obtain s4 where w4: "write_head sw (Suc m) ?t = Ok s4" and a4: "wrote_all p [(?x, put32 0 0 ?h)] ?t s4" and r4: "rc s4 = rc ?t"
    using write_head_ok [OF sv, of p ?t st m] l hr c3 g3 x3 by (auto simp: head_bytes_def LOGSIZE_def)
  have "commit sw (Suc m) s = Ok s4" using w1 w2 w3 w4 l(3) ne by (simp add: commit_def)
  moreover have "sectors s4 = put_all (commit_writes st ns (blk s)) (sectors s)" "dtrace s4 = dtrace s @ trace_of (commit_writes st ns (blk s))"
    using a1 a2 a3 a4 by (simp_all add: wrote_all_def commit_writes_def Let_def)
  moreover have "logs s4 = (logs s)\<lparr>l_n := 0\<rparr>" "calm p s4" using a4 same_logs [of p ?t s4] g3 by (auto simp: wrote_all_def)
  ultimately show ?thesis using r1 r2 r3 r4 by auto
qed

section \<open>Recovery\<close>

text \<open>The header block says that the blocks \<open>ns\<close> are in the log.\<close>

definition head_says :: "u32 list \<Rightarrow> u8 list \<Rightarrow> bool" where
  "head_says ns bs \<longleftrightarrow> get32 0 bs = of_nat (length ns) \<and> (\<forall>i<length ns. get32 (4 + 4 * i) bs = ns ! i)"

definition log_at :: "nat \<Rightarrow> log \<Rightarrow> bool" where
  "log_at st l \<longleftrightarrow> l_dev l = 1 \<and> l_start l = int st"

text \<open>Conditions on the blocks of a transaction that do not depend on the log in memory.\<close>

definition txn_blocks :: "nat \<Rightarrow> nat \<Rightarrow> u32 list \<Rightarrow> bool" where
  "txn_blocks st sz ns \<longleftrightarrow> st + sz \<le> 2 ^ 31 \<and> length ns \<le> LOGSIZE \<and> length ns < sz \<and> distinct ns \<and>
     (\<forall>n\<in>set ns. n < 2 ^ 31 \<and> n \<notin> region st sz)"

lemma sint_count: "k \<le> LOGSIZE \<Longrightarrow> sint (of_nat k :: u32) = int k"
proof -
  assume k: "k \<le> LOGSIZE"
  then have "unat (of_nat k :: u32) = k" by (simp add: unat_of_nat LOGSIZE_def MAXOPBLOCKS_def)
  then show ?thesis using k by (simp add: sint_u32 LOGSIZE_def MAXOPBLOCKS_def)
qed

lemma read_head_ok:
  assumes sv: "serves sw" and c: "calm p s" and la: "log_at st (logs s)" and tx: "txn_blocks st sz ns"
    and hs: "head_says ns (blk s (of_nat st))" and room: "card (used s) < NBUF"
  shows "\<exists>s'. read_head sw (Suc m) s = Ok s' \<and> calm p s' \<and> blk s' = blk s \<and> rc s' = rc s \<and> sectors s' = sectors s \<and>
    dtrace s' = dtrace s \<and> logged st sz ns (logs s')"
proof -
  let ?x = "of_nat st :: u32"
  have st: "st < 2 ^ 31" using tx by (auto simp: txn_blocks_def)
  have x: "?x < 2 ^ 31" using u32_small(1) [OF st] .
  have al: "alone p s" and ok: "cache_ok s" and lk: "\<And>n. \<not> locked_blk s n" and rs: "\<And>n. rc s n < 2 ^ 31" using c by (auto simp: calm_def)
  have rx: "rc s ?x < 2 ^ 32 - 1" using rs [of ?x] by simp
  obtain i s1 where b: "bread sw (Suc m) ROOTDEV ?x s = Ok (i, s1)" and g: "got p ?x i s s1"
    using bread_ok [OF sv al ok x lk rx, of m] room by blast
  note q = gotD [OF g]
  have bs: "b_data (bufs s1 i) = blk s ?x" using holdsD(5) [OF q(3) q(2)] q(4) by simp
  let ?bs = "blk s ?x"
  have n: "sint (get32 0 ?bs) = int (length ns)" using hs tx sint_count [of "length ns"] by (simp add: head_says_def txn_blocks_def)
  let ?f = "\<lambda>l. l\<lparr>l_n := int (length ns), l_block := (\<lambda>i. if i < length ns then get32 (4 + 4 * i) ?bs else l_block l i)\<rparr>"
  let ?t = "upd_log ?f s1"
  have lt: "logged st sz ns (logs ?t)"
    using la tx hs same_logs [OF q(1)] by (auto simp: logged_def log_at_def txn_blocks_def head_says_def)
  have alt: "alone p ?t" using same_alone [OF q(1)] al by simp
  have cl: "rc ?t ?x = 1 \<longrightarrow> blk ?t ?x = dblock (sectors ?t) ?x" using rc0_clean [OF ok, of ?x] by (simp add: q(4,5,7))
  obtain s2 where r: "brelse i ?t = Ok s2" and p2: "put p ?x (blk ?t ?x) (rc ?t ?x - 1) ?t s2" and sl: "slocks s2 = (slocks ?t)(i := free_sleeplock)"
    and f2: "sectors s2 = sectors ?t" "dtrace s2 = dtrace ?t" using brelse_ok [OF alt _ _ cl, of i] q(2,3) by auto
  note q2 = putD [OF p2]
  have rc2: "rc s2 = rc s" by (simp add: q2(4) q(5))
  have "\<not> locked_blk s2 k" for k
  proof (cases "k = ?x")
    case True
    then show ?thesis using q(3) q2(5) sl by (simp add: locked_blk_def holds_def free_sleeplock_def)
  next
    case False
    then have "\<not> locked_blk s1 k" using lk q(6) by simp
    then show ?thesis using q2(5) sl by (auto simp: locked_blk_def free_sleeplock_def split: option.splits)
  qed
  then have "calm p s2" using same_alone [OF q2(1)] alt q2(2) rs rc2 by (simp add: calm_def)
  moreover have "read_head sw (Suc m) s = Ok s2"
    unfolding read_head_def using b r bs n la tx by (simp add: log_at_def ROOTDEV_def Let_def txn_blocks_def cong: if_cong)
  moreover have "logged st sz ns (logs s2)" using same_logs [OF q2(1)] lt by simp
  ultimately show ?thesis using q2(3) q(4,7,8) f2 rc2 by (intro exI [of _ s2]) simp
qed

lemma recover_ok:
  assumes sv: "serves sw" and c: "calm p s" and la: "log_at st (logs s)" and tx: "txn_blocks st sz ns"
    and hs: "head_says ns (blk s (of_nat st))" and un: "used s = {}"
  shows "\<exists>s' h. recover_from_log sw (Suc m) s = Ok s' \<and> calm p s' \<and> get32 0 h = 0 \<and>
    sectors s' = put_all (map (\<lambda>i. (ns ! i, blk s (lb st i))) [0..<length ns] @ [(of_nat st, h)]) (sectors s)"
proof -
  let ?x = "of_nat st :: u32"
  have room: "card (used s) + 1 < NBUF" using un by (simp add: NBUF_def MAXOPBLOCKS_def)
  obtain s1 where w1: "read_head sw (Suc m) s = Ok s1" and c1: "calm p s1" and f1: "blk s1 = blk s" "rc s1 = rc s" "sectors s1 = sectors s"
    and lg: "logged st sz ns (logs s1)" using read_head_ok [OF sv c la tx hs] room by auto
  have u1: "used s1 = used s" by (simp add: used_def f1)
  obtain s2 where w2: "install_trans sw (Suc m) True s1 = Ok s2" and a2: "wrote_all p (map (\<lambda>i. (ns ! i, blk s1 (lb st i))) [0..<length ns]) s1 s2"
    and r2: "rc s2 = rc s1" using install_trans_ok [OF sv c1 lg, of True m] room u1 by auto
  have g2: "logs s2 = logs s1" "calm p s2" "used s2 = {}" using a2 same_logs [of p s1 s2] r2 u1 un by (auto simp: wrote_all_def used_def)
  let ?t = "upd_log (\<lambda>l. l\<lparr>l_n := 0\<rparr>) s2"
  have hr: "st < 2 ^ 31" "?x < 2 ^ 31" using head_region [OF lg] by auto
  obtain s3 where w3: "write_head sw (Suc m) ?t = Ok s3" and a3: "wrote_all p [(?x, put32 0 0 (blk s2 ?x))] ?t s3"
    using write_head_ok [OF sv, of p ?t st m] g2 lg hr by (auto simp: head_bytes_def logged_def NBUF_def MAXOPBLOCKS_def)
  have "length (blk s2 ?x) = BSIZE" using blk_length [of s2 ?x] hr(2) g2(2) by (simp add: calm_def)
  then have "get32 0 (put32 0 0 (blk s2 ?x)) = 0" by (simp add: BSIZE_def)
  moreover have "recover_from_log sw (Suc m) s = Ok s3" using w1 w2 w3 by (simp add: recover_from_log_def)
  ultimately show ?thesis using a2 a3 f1 by (intro exI [of _ s3] exI [of _ "put32 0 0 (blk s2 ?x)"]) (simp add: wrote_all_def)
qed

section \<open>Crashes\<close>

text \<open>
  The disk after a crash: the first \<open>k\<close> requests have completed, and of the next one, which covers two
  sectors, either, both or none. A sector is written as a whole.
\<close>

definition torn :: "bool \<Rightarrow> bool \<Rightarrow> u64 \<Rightarrow> u8 list \<Rightarrow> (u64 \<Rightarrow> u8 list) \<Rightarrow> u64 \<Rightarrow> u8 list" where
  "torn h1 h2 sec bs d = (let d1 = (if h1 then d(sec := take 512 bs) else d) in if h2 then d1(sec + 1 := drop 512 bs) else d1)"

definition crash_at :: "nat \<Rightarrow> bool \<Rightarrow> bool \<Rightarrow> (u64 \<times> u8 list) list \<Rightarrow> (u64 \<Rightarrow> u8 list) \<Rightarrow> u64 \<Rightarrow> u8 list" where
  "crash_at k h1 h2 ws d =
     (let d' = fold (\<lambda>(sec, bs). put_block sec bs) (take k ws) d
      in if k < length ws then torn h1 h2 (fst (ws ! k)) (snd (ws ! k)) d' else d')"

lemma fold_trace: "fold (\<lambda>(sec, bs). put_block sec bs) (trace_of ws) d = put_all ws d"
  by (induction ws arbitrary: d) (auto simp: trace_of_def put_all_def)

lemma crash_at_writes:
  "crash_at k h1 h2 (trace_of ws) d = (if k < length ws then torn h1 h2 (sector_of (fst (ws ! k))) (snd (ws ! k)) (put_all (take k ws) d)
     else put_all ws d)"
proof -
  have "take k (trace_of ws) = trace_of (take k ws)" by (simp add: trace_of_def take_map)
  moreover have "k < length ws \<Longrightarrow> trace_of ws ! k = (sector_of (fst (ws ! k)), snd (ws ! k))" by (simp add: trace_of_def case_prod_beta)
  moreover have "length (trace_of ws) = length ws" by (simp add: trace_of_def)
  ultimately show ?thesis by (simp add: crash_at_def fold_trace Let_def)
qed

lemma dblock_torn:
  assumes "n < 2 ^ 31" and "m \<noteq> n"
  shows "dblock (torn h1 h2 (sector_of n) bs d) m = dblock d m"
proof (cases "m < 2 ^ 31")
  case True
  then show ?thesis
    using sector_of_disjoint [OF True assms(1,2)] by (simp add: dblock_def get_block_def torn_def Let_def)
qed (simp add: dblock_def)

lemma sector_torn:
  assumes "n < 2 ^ 31" and "m < 2 ^ 31"
  shows "torn h1 h2 (sector_of n) bs d (sector_of m) = (if m = n \<and> h1 then take 512 bs else d (sector_of m))"
  using sector_of_disjoint [OF assms] by (cases "m = n") (simp_all add: torn_def Let_def)

lemma sector_put_all:
  "m < 2 ^ 31 \<Longrightarrow> (\<forall>n\<in>fst ` set ws. n < 2 ^ 31 \<and> n \<noteq> m) \<Longrightarrow> put_all ws d (sector_of m) = d (sector_of m)"
proof (induction ws arbitrary: d)
  case (Cons w ws)
  obtain n bs where w: "w = (n, bs)" by fastforce
  then have "n < 2 ^ 31" "n \<noteq> m" using Cons.prems by auto
  from sector_of_disjoint [OF this(1) Cons.prems(1) this(2)] have "put_block (sector_of n) bs d (sector_of m) = d (sector_of m)"
    by (simp add: put_block_def)
  then show ?case using Cons w by simp
qed simp

lemma sector_put_last: "put_all (ws @ [(n, bs)]) d (sector_of n) = take 512 bs"
  by (simp add: put_block_def)

text \<open>The header fits into the first sector of its block.\<close>

lemma head_says_take: "length ns \<le> LOGSIZE \<Longrightarrow> head_says ns (take 512 bs) = head_says ns bs"
  by (auto simp: head_says_def get32_take LOGSIZE_def MAXOPBLOCKS_def)

lemma head_says_sector:
  assumes "length ns \<le> LOGSIZE" and "\<forall>sec. length (d sec) = 512" and "n < 2 ^ 31"
  shows "head_says ns (dblock d n) = head_says ns (d (sector_of n))"
proof -
  have "take 512 (dblock d n) = d (sector_of n)" using assms(2,3) by (simp add: dblock_def get_block_def)
  then show ?thesis using head_says_take [OF assms(1), of "dblock d n"] by simp
qed

lemma head_says_head_bytes:
  assumes "length bs = BSIZE" and "length ns \<le> LOGSIZE"
  shows "head_says ns (head_bytes (int (length ns)) (\<lambda>i. ns ! i) bs)" "head_says [] (put32 0 0 (head_bytes n b bs))"
  using head_bytes_get [where bs = bs and n = "int (length ns)" and b = "\<lambda>i. ns ! i"] assms
  by (simp_all add: head_says_def length_head_bytes BSIZE_def)

section \<open>The disk after a crash\<close>

definition old_disk :: "nat \<Rightarrow> nat \<Rightarrow> (u64 \<Rightarrow> u8 list) \<Rightarrow> (u64 \<Rightarrow> u8 list) \<Rightarrow> bool" where
  "old_disk st sz d d' \<longleftrightarrow> head_says [] (d' (sector_of (of_nat st))) \<and> (\<forall>m. m \<notin> region st sz \<longrightarrow> dblock d' m = dblock d m)"

definition committed :: "nat \<Rightarrow> nat \<Rightarrow> u32 list \<Rightarrow> (u32 \<Rightarrow> u8 list) \<Rightarrow> (u64 \<Rightarrow> u8 list) \<Rightarrow> (u64 \<Rightarrow> u8 list) \<Rightarrow> bool" where
  "committed st sz ns f d d' \<longleftrightarrow> head_says ns (d' (sector_of (of_nat st))) \<and> (\<forall>i<length ns. dblock d' (lb st i) = f (ns ! i)) \<and>
     (\<forall>m. m \<notin> region st sz \<longrightarrow> m \<notin> set ns \<longrightarrow> dblock d' m = dblock d m)"

definition installed :: "nat \<Rightarrow> nat \<Rightarrow> u32 list \<Rightarrow> (u32 \<Rightarrow> u8 list) \<Rightarrow> (u64 \<Rightarrow> u8 list) \<Rightarrow> (u64 \<Rightarrow> u8 list) \<Rightarrow> bool" where
  "installed st sz ns f d d' \<longleftrightarrow> head_says [] (d' (sector_of (of_nat st))) \<and>
     (\<forall>m. m \<notin> region st sz \<longrightarrow> dblock d' m = (if m \<in> set ns then f m else dblock d m))"

text \<open>Writes to the log, and a torn write to it, leave the rest of the disk alone.\<close>

lemma dblock_writes_other:
  assumes "\<forall>n\<in>fst ` set ws. n < 2 ^ 31" and "m \<notin> fst ` set ws"
  shows "dblock (put_all ws d) m = dblock d m"
  using assms by (simp add: dblock_put_all over_other)

definition log_writes :: "nat \<Rightarrow> u32 list \<Rightarrow> (u32 \<Rightarrow> u8 list) \<Rightarrow> writes" where
  "log_writes st ns f = map (\<lambda>i. (lb st i, f (ns ! i))) [0..<length ns]"

definition home_writes :: "u32 list \<Rightarrow> (u32 \<Rightarrow> u8 list) \<Rightarrow> writes" where
  "home_writes ns f = map (\<lambda>i. (ns ! i, f (ns ! i))) [0..<length ns]"

abbreviation head_data :: "nat \<Rightarrow> u32 list \<Rightarrow> (u32 \<Rightarrow> u8 list) \<Rightarrow> u8 list" where
  "head_data st ns f \<equiv> head_bytes (int (length ns)) (\<lambda>i. ns ! i) (f (of_nat st))"

lemma commit_writes_parts:
  "commit_writes st ns f = log_writes st ns f @ [(of_nat st, head_data st ns f)] @ home_writes ns f @ [(of_nat st, put32 0 0 (head_data st ns f))]"
  by (simp add: commit_writes_def Let_def log_writes_def home_writes_def)

lemma length_parts [simp]: "length (log_writes st ns f) = length ns" "length (home_writes ns f) = length ns"
  by (simp_all add: log_writes_def home_writes_def)

lemma fst_home: "fst ` set (home_writes ns f) = set ns"
proof -
  have "map fst (home_writes ns f) = ns" by (simp add: home_writes_def comp_def map_nth)
  then show ?thesis by (metis set_map)
qed

lemma fst_log:
  assumes "logged st sz ns l" and "n \<in> fst ` set (log_writes st ns f)"
  shows "n < 2 ^ 31" "n \<noteq> of_nat st" "n \<in> region st sz" "n \<notin> set ns"
proof -
  obtain i where i: "n = lb st i" "i < length ns" using assms(2) by (auto simp: log_writes_def)
  then have "i < sz - 1" using assms(1) by (auto simp: logged_def)
  from lb_simps [OF assms(1) this] head_region [OF assms(1)] i
  show "n < 2 ^ 31" "n \<noteq> of_nat st" "n \<in> region st sz" "n \<notin> set ns" by auto
qed

lemma nsD: "logged st sz ns l \<Longrightarrow> n \<in> set ns \<Longrightarrow> n < 2 ^ 31 \<and> n \<noteq> of_nat st \<and> n \<notin> region st sz"
  using head_region [of st sz ns l] by (auto simp: logged_def)

text \<open>While the log is being written the header still says that it is empty.\<close>

lemma log_phase:
  assumes lg: "logged st sz ns l" and z: "head_says [] (d (sector_of (of_nat st)))"
    and ws: "fst ` set ws \<subseteq> fst ` set (log_writes st ns f)" and n: "n < 2 ^ 31" "n \<in> region st sz" "n = of_nat st \<longrightarrow> \<not> h1"
  shows "old_disk st sz d (torn h1 h2 (sector_of n) bs (put_all ws d))"
proof -
  let ?x = "of_nat st :: u32"
  have x: "?x < 2 ^ 31" using head_region [OF lg] by blast
  have w: "\<forall>m\<in>fst ` set ws. m < 2 ^ 31 \<and> m \<noteq> ?x"
    using fst_log(1,2) [OF lg subsetD [OF ws]] by (intro ballI conjI)
  have "torn h1 h2 (sector_of n) bs (put_all ws d) (sector_of ?x) = d (sector_of ?x)"
    using sector_torn [OF n(1) x] n(3) sector_put_all [OF x w] by auto
  moreover have "dblock (torn h1 h2 (sector_of n) bs (put_all ws d)) m = dblock d m" if "m \<notin> region st sz" for m
  proof -
    have "m \<noteq> n" using that n(2) by metis
    moreover have "m \<notin> fst ` set ws" using that fst_log(3) [OF lg subsetD [OF ws]] by metis
    ultimately have "m \<noteq> n" "m \<notin> fst ` set ws" .
    then show ?thesis using dblock_torn [OF n(1)] dblock_writes_other [of ws m] w by simp
  qed
  ultimately show ?thesis using z by (simp add: old_disk_def)
qed

text \<open>From the header write on, until it is erased, the log is complete.\<close>

lemma over_log: "logged st sz ns l \<Longrightarrow> i < length ns \<Longrightarrow> over (log_writes st ns f) g (lb st i) = f (ns ! i)"
  unfolding log_writes_def by (rule over_lb)

lemma home_phase:
  assumes lg: "logged st sz ns l" and len: "length (f (of_nat st)) = BSIZE"
    and d': "d' (sector_of (of_nat st)) = take 512 (head_data st ns f)"
    and b: "\<And>m. m \<noteq> of_nat st \<Longrightarrow> m \<notin> set ns \<Longrightarrow> dblock d' m = over (log_writes st ns f) (dblock d) m"
  shows "committed st sz ns f d d'"
proof -
  have nl: "length ns \<le> LOGSIZE" "length ns < sz" using lg by (auto simp: logged_def)
  have "head_says ns (take 512 (head_data st ns f))" using head_says_head_bytes(1) [OF len nl(1)] head_says_take [OF nl(1)] by simp
  moreover have "dblock d' (lb st i) = f (ns ! i)" if i: "i < length ns" for i
    using b [of "lb st i"] over_log [OF lg i] head_region [OF lg] lb_simps(3) [OF lg, of i] nl(2) i by auto
  moreover have "dblock d' m = dblock d m" if "m \<notin> region st sz" "m \<notin> set ns" for m
  proof -
    have "m \<noteq> of_nat st" "m \<notin> fst ` set (log_writes st ns f)" using that head_region [OF lg] fst_log(3) [OF lg, of m] by metis+
    then show ?thesis using b that over_other by metis
  qed
  ultimately show ?thesis using d' by (simp add: committed_def)
qed

text \<open>Once the header is erased, every block is in place.\<close>

lemma over_home: "distinct ns \<Longrightarrow> m \<in> set ns \<Longrightarrow> over (home_writes ns f) g m = f m"
proof (rule over_map)
  show "distinct ns \<Longrightarrow> distinct (map fst (home_writes ns f))" by (simp add: home_writes_def comp_def map_nth)
  show "m \<in> set ns \<Longrightarrow> (m, f m) \<in> set (home_writes ns f)" by (auto simp: home_writes_def in_set_conv_nth)
qed

lemma done_phase:
  assumes lg: "logged st sz ns l" and len: "length (f (of_nat st)) = BSIZE"
    and d': "d' (sector_of (of_nat st)) = take 512 (put32 0 0 (head_data st ns f))"
    and b: "\<And>m. m \<noteq> of_nat st \<Longrightarrow> dblock d' m = over (home_writes ns f) (over (log_writes st ns f) (dblock d)) m"
  shows "installed st sz ns f d d'"
proof -
  have nl: "length ns \<le> LOGSIZE" using lg by (simp add: logged_def)
  have "head_says [] (take 512 (put32 0 0 (head_data st ns f)))"
    using head_says_head_bytes(2) [OF len nl] head_says_take [of "[]"] by simp
  moreover have "dblock d' m = (if m \<in> set ns then f m else dblock d m)" if m: "m \<notin> region st sz" for m
  proof -
    have n: "m \<noteq> of_nat st" "m \<notin> fst ` set (log_writes st ns f)" using m head_region [OF lg] fst_log(3) [OF lg, of m] by metis+
    have "over (home_writes ns f) g m = f m" if "m \<in> set ns" for g
      using over_home lg that by (simp add: logged_def)
    then show ?thesis using b [OF n(1)] over_other [of m "home_writes ns f"] over_other [OF n(2)] fst_home [of ns f] by auto
  qed
  ultimately show ?thesis using d' by (simp add: installed_def)
qed

lemma dblock_parts:
  assumes lg: "logged st sz ns l" and vs: "fst ` set vs \<subseteq> set ns" and m: "m \<noteq> of_nat st"
  shows "dblock (put_all (log_writes st ns f @ [(of_nat st, h)] @ vs) d) m = over vs (over (log_writes st ns f) (dblock d)) m"
proof -
  let ?x = "of_nat st :: u32"
  have w: "\<forall>n\<in>fst ` set (log_writes st ns f @ [(?x, h)] @ vs). n < 2 ^ 31"
  proof
    fix n assume "n \<in> fst ` set (log_writes st ns f @ [(?x, h)] @ vs)"
    then consider "n \<in> fst ` set (log_writes st ns f)" | "n = ?x" | "n \<in> fst ` set vs" by auto
    then show "n < 2 ^ 31" by cases (use fst_log(1) [OF lg] nsD [OF lg subsetD [OF vs]] head_region [OF lg] in metis)+
  qed
  then have e: "dblock (put_all (log_writes st ns f @ [(?x, h)] @ vs) d) = over vs ((over (log_writes st ns f) (dblock d))(?x := h))"
    unfolding dblock_put_all [OF w] by simp
  show ?thesis unfolding e by (rule over_at) (use m in simp)
qed

lemma sector_parts:
  assumes lg: "logged st sz ns l" and vs: "fst ` set vs \<subseteq> set ns"
  shows "put_all (log_writes st ns f @ [(of_nat st, h)] @ vs) d (sector_of (of_nat st)) = take 512 h"
proof -
  have "\<forall>n\<in>fst ` set vs. n < 2 ^ 31 \<and> n \<noteq> of_nat st" using nsD [OF lg subsetD [OF vs]] by blast
  then show ?thesis using sector_put_all [of "of_nat st" vs] head_region [OF lg] by (simp add: put_block_def)
qed

lemma crash_cases:
  assumes lg: "logged st sz ns l" and len: "length (f (of_nat st)) = BSIZE" and z: "head_says [] (d (sector_of (of_nat st)))"
    and d': "d' = crash_at k h1 h2 (trace_of (commit_writes st ns f)) d"
  shows "old_disk st sz d d' \<or> committed st sz ns f d d' \<or> installed st sz ns f d d'"
proof -
  let ?n = "length ns" and ?x = "of_nat st :: u32"
  let ?L = "log_writes st ns f" and ?I = "home_writes ns f" and ?h = "head_data st ns f"
  note hr = head_region [OF lg]
  have x: "?x < 2 ^ 31" "?x \<in> region st sz" using hr by auto
  have d: "d' = (if k < 2 * ?n + 2 then torn h1 h2 (sector_of (fst ((?L @ [(?x, ?h)] @ ?I @ [(?x, put32 0 0 ?h)]) ! k)))
       (snd ((?L @ [(?x, ?h)] @ ?I @ [(?x, put32 0 0 ?h)]) ! k)) (put_all (take k (?L @ [(?x, ?h)] @ ?I @ [(?x, put32 0 0 ?h)])) d)
     else put_all (?L @ [(?x, ?h)] @ ?I @ [(?x, put32 0 0 ?h)]) d)"
    unfolding d' crash_at_writes commit_writes_parts by simp
  have wl: "\<forall>n\<in>fst ` set ?L. n < 2 ^ 31" using fst_log(1) [OF lg] by blast
  have I: "fst ` set (take j ?I) \<subseteq> set ns" for j using fst_home [of ns f] set_take_subset [of j ?I] by blast
  consider "k < ?n" | "k = ?n" | "?n < k" "k < 2 * ?n + 1" | "k = 2 * ?n + 1" | "2 * ?n + 2 \<le> k" by linarith
  then show ?thesis
  proof cases
    case 1
    have k: "fst (?L ! k) = lb st k" using 1 by (simp add: log_writes_def)
    have "k < sz - 1" using lg 1 by (auto simp: logged_def)
    note q = lb_simps [OF lg this]
    have "d' = torn h1 h2 (sector_of (lb st k)) (snd (?L ! k)) (put_all (take k ?L) d)" using d 1 k by (simp add: nth_append)
    moreover have "old_disk st sz d (torn h1 h2 (sector_of (lb st k)) (snd (?L ! k)) (put_all (take k ?L) d))"
      by (rule log_phase [where d = d, OF lg z _ q(1,2)]) (use hr 1 in \<open>auto dest: in_set_takeD\<close>)
    ultimately show ?thesis by blast
  next
    case 2
    have e: "d' = torn h1 h2 (sector_of ?x) ?h (put_all ?L d)" using d 2 by (simp add: nth_append)
    show ?thesis
    proof (cases h1)
      case True
      have "d' (sector_of ?x) = take 512 ?h" using e True sector_torn [OF x(1) x(1)] by simp
      moreover have "dblock d' m = over ?L (dblock d) m" if "m \<noteq> ?x" for m
        unfolding e dblock_torn [OF x(1) that] dblock_put_all [OF wl] ..
      ultimately show ?thesis using home_phase [where f = f, OF lg len] by blast
    next
      case False
      have "old_disk st sz d (torn h1 h2 (sector_of ?x) ?h (put_all ?L d))" by (rule log_phase [where d = d, OF lg z _ x]) (use False in auto)
      then show ?thesis using e by blast
    qed
  next
    case 3
    let ?j = "k - ?n - 1"
    have j: "?j < ?n" "fst (?I ! ?j) = ns ! ?j" "ns ! ?j \<in> set ns" using 3 by (auto simp: home_writes_def)
    have e: "d' = torn h1 h2 (sector_of (ns ! ?j)) (snd (?I ! ?j)) (put_all (?L @ [(?x, ?h)] @ take ?j ?I) d)"
      using d 3 j by (simp add: nth_append nth_Cons' take_Cons')
    have n: "ns ! ?j < 2 ^ 31" "ns ! ?j \<noteq> ?x" using nsD [OF lg j(3)] by auto
    have "d' (sector_of ?x) = take 512 ?h" using e sector_torn [OF n(1) x(1)] n(2) sector_parts [OF lg I] by auto
    moreover have "dblock d' m = over ?L (dblock d) m" if m: "m \<noteq> ?x" "m \<notin> set ns" for m
    proof -
      have "m \<noteq> ns ! ?j" "m \<notin> fst ` set (take ?j ?I)" using m(2) j(3) I by blast+
      then show ?thesis unfolding e dblock_torn [OF n(1) \<open>m \<noteq> ns ! ?j\<close>] dblock_parts [OF lg I m(1)] by (simp add: over_other)
    qed
    ultimately show ?thesis using home_phase [where f = f, OF lg len] by blast
  next
    case 4
    have e: "d' = torn h1 h2 (sector_of ?x) (put32 0 0 ?h) (put_all (?L @ [(?x, ?h)] @ take ?n ?I) d)" using d 4 by (simp add: nth_append nth_Cons' take_Cons')
    have b: "dblock d' m = over ?I (over ?L (dblock d)) m" if m: "m \<noteq> ?x" for m
      unfolding e dblock_torn [OF x(1) m] dblock_parts [OF lg I m] by simp
    show ?thesis
    proof (cases h1)
      case True
      then have "d' (sector_of ?x) = take 512 (put32 0 0 ?h)" using e sector_torn [OF x(1) x(1)] by simp
      then show ?thesis using done_phase [where f = f, OF lg len _ b] by blast
    next
      case False
      then have "d' (sector_of ?x) = take 512 ?h" unfolding e sector_torn [OF x(1) x(1)] sector_parts [OF lg I] by simp
      moreover have "dblock d' m = over ?L (dblock d) m" if "m \<noteq> ?x" "m \<notin> set ns" for m
        using b [OF that(1)] that(2) fst_home [of ns f] by (simp add: over_other)
      ultimately show ?thesis using home_phase [where f = f, OF lg len] by blast
    qed
  next
    case 5
    have e: "d' = put_block (sector_of ?x) (put32 0 0 ?h) (put_all (?L @ [(?x, ?h)] @ take ?n ?I) d)" using d 5 by simp
    have "dblock d' m = over ?I (over ?L (dblock d)) m" if m: "m \<noteq> ?x" for m
      unfolding e dblock_put_other [OF x(1) m [symmetric]] dblock_parts [OF lg I m] by simp
    moreover have "d' (sector_of ?x) = take 512 (put32 0 0 ?h)" using e by (simp add: put_block_def)
    ultimately show ?thesis using done_phase [where f = f, OF lg len] by blast
  qed
qed

section \<open>Crash safety\<close>

text \<open>
  A machine that has just booted from the disk \<open>d\<close>: one process runs alone, the buffer cache is empty.
\<close>

definition boots :: "nat \<Rightarrow> (u64 \<Rightarrow> u8 list) \<Rightarrow> 'a lstate_scheme \<Rightarrow> bool" where
  "boots p d t \<longleftrightarrow> calm p t \<and> used t = {} \<and> sectors t = d"

lemma boots_blk: "boots p d t \<Longrightarrow> blk t = dblock d"
proof (rule ext)
  fix n assume b: "boots p d t"
  then have "rc t n = 0" by (auto simp: boots_def used_def)
  then show "blk t n = dblock d n" using b rc0_clean [of t n] by (simp add: boots_def calm_def)
qed

definition log_sb :: "nat \<Rightarrow> nat \<Rightarrow> superblock \<Rightarrow> bool" where
  "log_sb st sz sb \<longleftrightarrow> sb_logstart sb = of_nat st \<and> sb_nlog sb = of_nat sz"

lemma sint_small: "st < 2 ^ 31 \<Longrightarrow> sint (of_nat st :: u32) = int st"
  using u32_small(2) [of st] by (simp add: sint_u32)

lemma initlog_recovers:
  assumes "alone p t" and "log_sb st sz sb" and "st < 2 ^ 31"
  shows "\<exists>f. initlog sw m 1 sb t = recover_from_log sw m (upd_log f t) \<and> log_at st (f (logs t))"
proof -
  let ?f = "\<lambda>l. l\<lparr>l_start := sint (sb_logstart sb), l_size := sint (sb_nlog sb), l_dev := 1\<rparr>"
  have "initlock LogLock t = t" using assms(1) alone_locks [OF assms(1)] by (simp add: initlock_eq)
  then have "initlog sw m 1 sb t = recover_from_log sw m (upd_log ?f t)"
    by (simp add: initlog_def LOGSIZE_def MAXOPBLOCKS_def BSIZE_def)
  moreover have "log_at st (?f (logs t))" using assms by (simp add: log_at_def log_sb_def sint_small)
  ultimately show ?thesis by blast
qed

text \<open>Recovery, seen on the disk: the blocks the header names are copied from the log.\<close>

lemma recovered_disk:
  assumes sv: "serves sw" and bt: "boots p d t" and sb: "log_sb st sz sb" and tx: "txn_blocks st sz ms"
    and hs: "head_says ms (d (sector_of (of_nat st)))"
  shows "\<exists>t'. initlog sw (Suc m) 1 sb t = Ok t' \<and>
    (\<forall>n. n \<notin> region st sz \<longrightarrow> dblock (sectors t') n = over (map (\<lambda>i. (ms ! i, dblock d (lb st i))) [0..<length ms]) (dblock d) n)"
proof -
  let ?x = "of_nat st :: u32"
  have c: "calm p t" and ok: "cache_ok t" and u: "used t = {}" and sd: "sectors t = d" using bt by (auto simp: boots_def calm_def)
  have st: "st < 2 ^ 31" "0 < sz" and ml: "length ms \<le> LOGSIZE" and sm: "\<forall>n\<in>set ms. n < 2 ^ 31" using tx by (auto simp: txn_blocks_def)
  have x: "?x < 2 ^ 31" using u32_small(1) [OF st(1)] .
  have xr: "?x \<in> region st sz" using st unfolding region_def by (intro imageI) simp
  have "\<forall>sec. length (d sec) = 512" using cache_okD(3) [OF ok] sd by auto
  then have hs': "head_says ms (dblock d ?x)" using head_says_sector [OF ml _ x] hs by simp
  from initlog_recovers [of p t st sz sb sw "Suc m"] c sb st obtain g where
    g: "initlog sw (Suc m) 1 sb t = recover_from_log sw (Suc m) (upd_log g t)" "log_at st (g (logs t))" by (auto simp: calm_def)
  obtain t' h where r: "recover_from_log sw (Suc m) (upd_log g t) = Ok t'"
    and s': "sectors t' = put_all (map (\<lambda>i. (ms ! i, blk t (lb st i))) [0..<length ms] @ [(?x, h)]) d"
    using recover_ok [OF sv, of p "upd_log g t" st sz ms m] c g(2) tx hs' u sd boots_blk [OF bt] by auto
  let ?ws = "map (\<lambda>i. (ms ! i, dblock d (lb st i))) [0..<length ms]"
  have w: "\<forall>n\<in>fst ` set (?ws @ [(?x, h)]). n < 2 ^ 31" using sm x by auto
  have "dblock (sectors t') n = over ?ws (dblock d) n" if "n \<notin> region st sz" for n
    using s' xr that unfolding boots_blk [OF bt] by (subst s', subst boots_blk [OF bt], subst dblock_put_all [OF w]) auto
  then show ?thesis using g(1) r by auto
qed

text \<open>C2: crash safety of the log. \<open>commit\<close> succeeds and performs a sequence of block writes. If the
  machine crashes after any prefix of them, with the write in flight torn between its two sectors in any way,
  then recovery at the next boot succeeds and leaves every block outside the log either as it was on the disk
  before the commit, or with the new contents of all logged blocks: the transaction happens completely or not
  at all.\<close>

theorem commit_crash_safe:
  assumes "serves sw" and "calm p s" and "logged st sz ns (logs s)" and "ns \<noteq> []"
    and "\<forall>n\<in>set ns. 0 < rc s n" and "card (used s) < NBUF" and "head_says [] (sectors s (sector_of (of_nat st)))" and "log_sb st sz sb"
  shows "\<exists>s' ws. commit sw (Suc m) s = Ok s' \<and> dtrace s' = dtrace s @ ws \<and>
    (\<forall>k h1 h2 q t. boots q (crash_at k h1 h2 ws (sectors s)) t \<longrightarrow>
      (\<exists>t'. initlog sw (Suc m) 1 sb t = Ok t' \<and>
        ((\<forall>n. n \<notin> region st sz \<longrightarrow> dblock (sectors t') n = dblock (sectors s) n) \<or>
         (\<forall>n. n \<notin> region st sz \<longrightarrow> dblock (sectors t') n = (if n \<in> set ns then blk s n else dblock (sectors s) n)))))"
proof -
  let ?ws = "commit_writes st ns (blk s)" and ?x = "of_nat st :: u32"
  have tx: "txn_blocks st sz ns" "txn_blocks st sz []" using assms(3) by (auto simp: logged_def txn_blocks_def)
  have x: "?x < 2 ^ 31" using head_region [OF assms(3)] by blast
  have len: "length (blk s ?x) = BSIZE" using blk_length [of s ?x] x assms(2) by (simp add: calm_def)
  obtain s' where s': "commit sw (Suc m) s = Ok s'" "dtrace s' = dtrace s @ trace_of ?ws"
    using commit_ok [OF assms(1-6)] by blast
  have "\<exists>t'. initlog sw (Suc m) 1 sb t = Ok t' \<and>
        ((\<forall>n. n \<notin> region st sz \<longrightarrow> dblock (sectors t') n = dblock (sectors s) n) \<or>
         (\<forall>n. n \<notin> region st sz \<longrightarrow> dblock (sectors t') n = (if n \<in> set ns then blk s n else dblock (sectors s) n)))"
    if bt: "boots q (crash_at k h1 h2 (trace_of ?ws) (sectors s)) t" for k h1 h2 q t
  proof -
    define d where "d = crash_at k h1 h2 (trace_of ?ws) (sectors s)"
    note bt' = bt [folded d_def]
    consider "old_disk st sz (sectors s) d" | "committed st sz ns (blk s) (sectors s) d" | "installed st sz ns (blk s) (sectors s) d"
      using crash_cases [where f = "blk s", OF assms(3) len assms(7) d_def] by blast
    then show ?thesis
    proof cases
      case 1
      then show ?thesis using recovered_disk [OF assms(1) bt' assms(8) tx(2), of m] by (auto simp: old_disk_def)
    next
      case 2
      have o: "over (map (\<lambda>i. (ns ! i, dblock d (lb st i))) [0..<length ns]) (dblock d) n = (if n \<in> set ns then blk s n else dblock d n)" for n
      proof -
        have "map (\<lambda>i. (ns ! i, dblock d (lb st i))) [0..<length ns] = home_writes ns (blk s)" using 2 by (simp add: home_writes_def committed_def)
        then show ?thesis using over_home [of ns n] over_other [of n "home_writes ns (blk s)"] assms(3) fst_home [of ns "blk s"] by (auto simp: logged_def)
      qed
      show ?thesis using recovered_disk [OF assms(1) bt' assms(8) tx(1), of m] 2 unfolding o by (auto simp: committed_def)
    next
      case 3
      then show ?thesis using recovered_disk [OF assms(1) bt' assms(8) tx(2), of m] by (auto simp: installed_def)
    qed
  qed
  then show ?thesis using s' by blast
qed

end
