(* ===== verification/Fssample.thy ===== *)
theory Fssample
  imports Crash
begin

text \<open>
  A concrete machine on which the hypotheses of the disk, cache and log theorems are checked: one running
  process, a zeroed disk, and a buffer cache that is empty or holds block 100 with new contents.
\<close>

section \<open>The machine\<close>

definition chain_buf :: "nat \<Rightarrow> buf" where
  "chain_buf i = \<lparr>b_valid = False, b_disk = False, b_dev = 0, b_blockno = 0, b_refcnt = 0,
     b_prev = (if i = 0 then NBUF else i - 1), b_next = (if i = NBUF then 0 else Suc i), b_data = replicate BSIZE 0\<rparr>"

definition idle_vd :: disk where
  "idle_vd = \<lparr>dsc = (\<lambda>_. zero_desc), avail_idx = 0, avail_ring = (\<lambda>_. 0), used_idx = 0, used_ring = (\<lambda>_. 0), dfree = (\<lambda>_. True),
     seen_idx = 0, info_b = (\<lambda>_. None), info_status = (\<lambda>_. 0), ops = (\<lambda>_. \<lparr>rq_type = 0, rq_reserved = 0, rq_sector = 0\<rparr>),
     desc_pa = 0, avail_pa = 0, used_pa = 0\<rparr>"

definition zero_disk :: "u64 \<Rightarrow> u8 list" where
  "zero_disk = (\<lambda>_. replicate 512 0)"

definition fs_machine :: "(nat \<Rightarrow> buf) \<Rightarrow> (u64 \<Rightarrow> u8 list) \<Rightarrow> log \<Rightarrow> lstate" where
  "fs_machine bs d l = dstate.extend (slstate.extend (pipestate.extend
     ((empty_pipe True True)\<lparr>procs := (\<lambda>_. blank_proc\<lparr>p_state := RUNNING, p_pid := 1, p_chan := NoChan\<rparr>)\<rparr>)
     (slstate.fields (\<lambda>_. free_sleeplock))) (dstate.fields bs idle_vd [] d [])) (lstate.fields l)"

lemma fs_machine_simps [simp]:
  "bufs (fs_machine bs d l) = bs" "sectors (fs_machine bs d l) = d" "logs (fs_machine bs d l) = l" "vd (fs_machine bs d l) = idle_vd"
  "slocks (fs_machine bs d l) = (\<lambda>_. free_sleeplock)" "dtrace (fs_machine bs d l) = []"
  by (simp_all add: fs_machine_def slstate.defs dstate.defs lstate.defs pipestate.defs)

lemma fs_machine_alone: "alone 0 (fs_machine bs d l)"
proof -
  have "locks (fs_machine bs d l) = (\<lambda>_. free_lock)" "hart (fs_machine bs d l) = 0"
    "cpus (fs_machine bs d l) = (\<lambda>h. \<lparr>cproc = (if h = 0 then Some 0 else None), noff = 0, intena = False, sie = False\<rparr>)"
    "procs (fs_machine bs d l) 0 = blank_proc\<lparr>p_state := RUNNING, p_pid := 1, p_chan := NoChan\<rparr>"
    by (simp_all add: fs_machine_def slstate.defs dstate.defs lstate.defs empty_pipe_def terminal_def machine_def pstate.defs cstate.defs pipestate.defs)
  then show ?thesis by (simp add: alone_def cpu_ok_def NPROC_def bumped_def fun_eq_iff)
qed

lemma path_up: "n \<le> NBUF \<Longrightarrow> k < n \<Longrightarrow> path (\<lambda>i. if i = NBUF then 0 else Suc i) k [Suc k..<n] n"
proof (induction "n - k" arbitrary: k)
  case (Suc j)
  then show ?case by (cases "Suc k = n") (simp_all add: upt_rec [of "Suc k"])
qed simp

lemma path_down: "path (\<lambda>i. if i = 0 then NBUF else i - 1) n (rev [0..<n]) NBUF"
  by (induction n) simp_all

lemma chain_lru:
  assumes "\<And>i. b_next (bs i) = b_next (chain_buf i)" and "\<And>i. b_prev (bs i) = b_prev (chain_buf i)"
  shows "lru (fs_machine bs d l) [0..<NBUF]"
proof -
  have "path (\<lambda>i. if i = NBUF then 0 else Suc i) NBUF (0 # [Suc 0..<NBUF]) NBUF"
    using path_up [of NBUF 0] by (simp add: NBUF_def MAXOPBLOCKS_def)
  moreover have "0 # [Suc 0..<NBUF] = [0..<NBUF]" by (simp add: upt_conv_Cons NBUF_def MAXOPBLOCKS_def)
  ultimately show ?thesis using path_down [of NBUF] by (auto simp: lru_def assms chain_buf_def)
qed

section \<open>An empty cache, and a cache with one dirty block\<close>

lemma idle_vd_idle: "disk_idle idle_vd"
  by (simp add: disk_idle_def idle_vd_def)

lemma empty_cache:
  assumes "\<And>sec. length (d sec) = 512"
  shows "boots 0 d (fs_machine chain_buf d l)"
proof -
  let ?s = "fs_machine chain_buf d l"
  have n: "buf_of ?s n = None" for n by (auto simp: buf_of_def find_None_iff chain_buf_def ROOTDEV_def)
  have "\<exists>xs. lru ?s xs" using chain_lru [of chain_buf] by blast
  then have "cache_ok ?s"
    using assms idle_vd_idle by (auto simp: cache_ok_def buf_ok_def chain_buf_def ROOTDEV_def free_sleeplock_def)
  then show ?thesis using n fs_machine_alone by (simp add: boots_def calm_def locked_blk_def rc_def used_def)
qed

definition dirty_buf :: "u8 list \<Rightarrow> nat \<Rightarrow> buf" where
  "dirty_buf dat i = (if i = 0 then (chain_buf i)\<lparr>b_valid := True, b_dev := 1, b_blockno := 100, b_refcnt := 1, b_data := dat\<rparr> else chain_buf i)"

lemma dirty_buf_of: "buf_of (fs_machine (dirty_buf dat) d l) n = (if n = 100 then Some 0 else None)"
proof -
  have e: "[0..<NBUF] = 0 # [1..<NBUF]" by (simp add: upt_conv_Cons NBUF_def MAXOPBLOCKS_def)
  have "find (\<lambda>i. b_dev (dirty_buf dat i) = ROOTDEV \<and> b_blockno (dirty_buf dat i) = n) [1..<NBUF] = None"
    by (auto simp: find_None_iff dirty_buf_def chain_buf_def ROOTDEV_def)
  then show ?thesis unfolding buf_of_def e by (auto simp: dirty_buf_def chain_buf_def ROOTDEV_def)
qed

lemma dirty_cache:
  assumes "\<And>sec. length (d sec) = 512" and "length dat = BSIZE"
  shows "calm 0 (fs_machine (dirty_buf dat) d l)" "rc (fs_machine (dirty_buf dat) d l) n = (if n = 100 then 1 else 0)"
    "blk (fs_machine (dirty_buf dat) d l) 100 = dat"
proof -
  let ?s = "fs_machine (dirty_buf dat) d l"
  show r: "rc ?s n = (if n = 100 then 1 else 0)" for n by (simp add: rc_def dirty_buf_of) (simp add: dirty_buf_def)
  show "blk ?s 100 = dat" by (simp add: blk_def dirty_buf_of) (simp add: dirty_buf_def)
  have "lru ?s [0..<NBUF]" by (rule chain_lru) (simp_all add: dirty_buf_def)
  then have "\<exists>xs. lru ?s xs" ..
  moreover have "buf_ok ?s i" for i
    using assms(2) by (auto simp: buf_ok_def dirty_buf_def chain_buf_def ROOTDEV_def free_sleeplock_def)
  moreover have "i = j" if "b_dev (dirty_buf dat i) = ROOTDEV" "b_dev (dirty_buf dat j) = ROOTDEV" for i j
    using that by (auto simp: dirty_buf_def chain_buf_def ROOTDEV_def split: if_splits)
  ultimately have "cache_ok ?s" using assms(1) idle_vd_idle by (auto simp: cache_ok_def)
  then show "calm 0 ?s" using fs_machine_alone r by (auto simp: calm_def locked_blk_def dirty_buf_of free_sleeplock_def)
qed

definition sample_log :: log where
  "sample_log = \<lparr>l_start = 2, l_size = 30, l_outstanding = 0, l_committing = True, l_dev = 1, l_n = 1, l_block = (\<lambda>_. 100)\<rparr>"

definition sample_sb :: superblock where
  "sample_sb = \<lparr>sb_magic = 0x10203040, sb_size = 1000, sb_nblocks = 954, sb_ninodes = 200, sb_nlog = 30, sb_logstart = 2,
     sb_inodestart = 32, sb_bmapstart = 45\<rparr>"

lemma region_log: "100 \<notin> region 2 30"
proof
  assume "100 \<in> region 2 30"
  then obtain k where "(100::u32) = of_nat k" "k < 32" by (auto simp: region_def)
  then have "unat (100::u32) = unat (of_nat k :: u32)" by metis
  then show False using \<open>k < 32\<close> by (simp add: unat_of_nat)
qed

lemma get32_zero: "get32 0 (replicate 512 0) = 0"
  by (simp add: get32_def numeral_3_eq_3 numeral_2_eq_2)

section \<open>A crash during the commit of block 100\<close>

lemma length_torn: "length bs = BSIZE \<Longrightarrow> (\<forall>sec. length (d sec) = 512) \<Longrightarrow> length (torn h1 h2 sec0 bs d sec) = 512"
  by (simp add: torn_def Let_def BSIZE_def)

lemma length_put_trace:
  "(\<forall>w\<in>set ws. length (snd w) = BSIZE) \<Longrightarrow> (\<forall>sec. length (d sec) = 512) \<Longrightarrow>
   length (fold (\<lambda>(sec, bs). put_block sec bs) ws d sec) = 512"
proof (induction ws arbitrary: d)
  case (Cons w ws)
  then show ?case by (cases w) (simp add: length_put)
qed simp

lemma length_crash_at:
  assumes "\<forall>w\<in>set ws. length (snd w) = BSIZE" and "\<forall>sec. length (d sec) = 512"
  shows "length (crash_at k h1 h2 ws d sec) = 512"
proof -
  have "\<forall>sec. length (fold (\<lambda>(sec, bs). put_block sec bs) (take k ws) d sec) = 512"
    using assms by (intro allI length_put_trace) (auto dest: in_set_takeD)
  then show ?thesis using assms(1) length_torn [of "snd (ws ! k)"] by (cases "k < length ws") (simp_all add: crash_at_def Let_def)
qed

lemma length_commit_writes:
  assumes "logged st sz ns l" and "\<And>n. n < 2 ^ 31 \<Longrightarrow> length (f n) = BSIZE"
  shows "\<forall>w\<in>set (trace_of (commit_writes st ns f)). length (snd w) = BSIZE"
proof -
  have x: "length (f (of_nat st)) = BSIZE" using assms head_region by blast
  have "length (head_data st ns f) = BSIZE" unfolding head_bytes_def
    by (rule fold_invariant [where Q = "\<lambda>_. True"]) (use x in auto)
  moreover have "length (f (ns ! i)) = BSIZE" if "i < length ns" for i using assms that by (simp add: logged_def)
  ultimately show ?thesis by (auto simp: trace_of_def commit_writes_def Let_def)
qed

definition dirty :: lstate where
  "dirty = fs_machine (dirty_buf (replicate BSIZE 7)) zero_disk sample_log"

lemma length_zero_disk: "length (zero_disk sec) = 512"
  by (simp add: zero_disk_def)

lemma dirty_simps:
  "calm 0 dirty" "used dirty = {100}" "blk dirty 100 = replicate BSIZE 7" "rc dirty 100 = 1" "sectors dirty = zero_disk" "dtrace dirty = []"
  "logged 2 30 [100] (logs dirty)" "head_says [] (sectors dirty (sector_of (of_nat 2)))"
proof -
  note dc = dirty_cache [where d = zero_disk and dat = "replicate BSIZE 7", OF length_zero_disk length_replicate]
  show "calm 0 dirty" "blk dirty 100 = replicate BSIZE 7" "rc dirty 100 = 1" "sectors dirty = zero_disk" "dtrace dirty = []"
    using dc by (simp_all add: dirty_def)
  show "used dirty = {100}" by (auto simp: used_def dirty_def dc(2))
  show "logged 2 30 [100] (logs dirty)"
    using region_log by (simp add: dirty_def logged_def sample_log_def LOGSIZE_def MAXOPBLOCKS_def word_less_nat_alt)
  show "head_says [] (sectors dirty (sector_of (of_nat 2)))" by (simp add: dirty_def head_says_def get32_zero zero_disk_def)
qed

lemma commit_crash_safe_witness:
  "\<exists>s' ws t'. commit (disk_switch (\<lambda>_ _. 0)) 1 dirty = Ok s' \<and> dtrace s' = ws \<and>
     initlog (disk_switch (\<lambda>_ _. 0)) 1 1 sample_sb (fs_machine chain_buf (crash_at 1 True False ws zero_disk) sample_log) = Ok t' \<and>
     (dblock (sectors t') 100 = dblock zero_disk 100 \<or> dblock (sectors t') 100 = replicate BSIZE 7)"
proof -
  let ?sw = "disk_switch (\<lambda>_ _. 0)"
  have n: "[100::u32] \<noteq> []" "\<forall>n\<in>set [100]. 0 < rc dirty n" "card (used dirty) < NBUF" "log_sb 2 30 sample_sb"
    by (simp_all add: dirty_simps NBUF_def MAXOPBLOCKS_def log_sb_def sample_sb_def)
  from commit_crash_safe [OF disk_switch_serves [of "\<lambda>_ _. 0"] dirty_simps(1,7) n(1-3) dirty_simps(8) n(4), of 0]
  obtain s' ws where c: "commit ?sw 1 dirty = Ok s'" "dtrace s' = ws"
    and r: "\<forall>k h1 h2 q (t::lstate). boots q (crash_at k h1 h2 ws zero_disk) t \<longrightarrow> (\<exists>t'. initlog ?sw 1 1 sample_sb t = Ok t' \<and>
        ((\<forall>n. n \<notin> region 2 30 \<longrightarrow> dblock (sectors t') n = dblock zero_disk n) \<or>
         (\<forall>n. n \<notin> region 2 30 \<longrightarrow> dblock (sectors t') n = (if n \<in> set [100] then blk dirty n else dblock zero_disk n))))"
    unfolding One_nat_def [symmetric] dirty_simps(5,6) append_Nil by (elim exE conjE) (rule that)
  have ws: "ws = trace_of (commit_writes 2 [100] (blk dirty))"
    using commit_ok [OF disk_switch_serves [of "\<lambda>_ _. 0"] dirty_simps(1,7) n(1-3), of 0] c dirty_simps(6) by simp
  have "\<forall>w\<in>set ws. length (snd w) = BSIZE"
    unfolding ws by (rule length_commit_writes [OF dirty_simps(7)], rule blk_length) (use dirty_simps(1) in \<open>simp_all add: calm_def\<close>)
  then have "boots 0 (crash_at 1 True False ws zero_disk) (fs_machine chain_buf (crash_at 1 True False ws zero_disk) sample_log)"
    by (intro empty_cache length_crash_at) (simp_all add: length_zero_disk)
  from r [rule_format, OF this] c show ?thesis using region_log dirty_simps(3) by auto
qed

section \<open>Instances of the properties of the driver and the cache\<close>

lemma virtio_disk_rw_transfers_witness:
  "\<exists>s'. virtio_disk_rw (disk_switch (\<lambda>_ _. 0)) 1 0 True dirty = Ok s' \<and> sectors s' = put_block 200 (replicate BSIZE 7) zero_disk"
proof -
  have a: "alone 0 dirty" "disk_idle (vd dirty)" using dirty_simps(1) by (auto simp: calm_def dest: cache_okD)
  have "b_blockno (bufs dirty 0) = 100" "b_data (bufs dirty 0) = replicate BSIZE 7" by (simp_all add: dirty_def dirty_buf_def)
  moreover have "sector_of 100 = 200" by (simp add: sector_of_def)
  ultimately show ?thesis
    using virtio_disk_rw_transfers [OF disk_switch_serves [of "\<lambda>_ _. 0"] a, of 0 0 True] dirty_simps(5) by auto
qed

lemma bread_returns_block_witness:
  "\<exists>i s'. bread (disk_switch (\<lambda>_ _. 0)) 1 ROOTDEV 100 dirty = Ok (i, s') \<and> b_data (bufs s' i) = replicate BSIZE 7 \<and> rc s' 100 = 2"
proof -
  have a: "alone 0 dirty" "cache_ok dirty" "\<not> locked_blk dirty 100" using dirty_simps(1) by (auto simp: calm_def)
  have b: "(100::u32) < 2 ^ 31" "rc dirty 100 < 2 ^ 32 - 1" "100 \<in> used dirty \<or> card (used dirty) < NBUF"
    by (simp_all add: dirty_simps word_less_nat_alt)
  from bread_returns_block [OF disk_switch_serves [of "\<lambda>_ _. 0"] a(1,2) b(1) a(3) b(2,3), of 0] dirty_simps(3,4)
  show ?thesis by auto
qed

definition one_done :: lstate where
  "one_done = (fs_machine (\<lambda>i. (chain_buf i)\<lparr>b_disk := True\<rparr>) zero_disk sample_log)\<lparr>vd := idle_vd\<lparr>used_idx := 1, info_b := (\<lambda>_. Some 3)\<rparr>\<rparr>"

lemma intr_loop_drains_witness:
  "\<exists>s'. intr_loop one_done = Ok s' \<and> seen_idx (vd s') = 1 \<and> b_disk (bufs one_done 3) \<and> \<not> b_disk (bufs s' 3)"
proof -
  have "procs_quiet (fs_machine (\<lambda>i. (chain_buf i)\<lparr>b_disk := True\<rparr>) zero_disk sample_log)"
    using fs_machine_alone by (auto simp: procs_quiet_def alone_def)
  then have "procs_quiet one_done" by (simp add: one_done_def procs_quiet_def)
  moreover have "completions_ok (vd one_done)"
    by (simp add: one_done_def completions_ok_def published_def idle_vd_def NUM_def)
  moreover have "b_disk (bufs one_done 3)" by (simp add: one_done_def)
  ultimately show ?thesis
    using intr_loop_drains [of one_done] by (force simp: one_done_def idle_vd_def)
qed

end
