(* ===== verification/Txn.thy ===== *)
theory Txn
  imports Crash
begin

text \<open>
  Running a file system operation inside a transaction: the process runs alone, the blocks written so far are
  in the log and pinned in the cache, and the process holds some buffers. Contracts of \<open>bread\<close>, \<open>log_write\<close>
  and \<open>brelse\<close> for the code of kernel/fs.c, in terms of the contents of the blocks.
\<close>

section \<open>State of a transaction\<close>

definition txn :: "nat \<Rightarrow> nat \<Rightarrow> nat \<Rightarrow> u32 list \<Rightarrow> 'a lstate_scheme \<Rightarrow> bool" where
  "txn p st sz ns s \<longleftrightarrow> alone p s \<and> cache_ok s \<and> logged st sz ns (logs s) \<and> l_size (logs s) = int sz \<and> \<not> l_committing (logs s) \<and>
     (\<forall>n. rc s n = (if n \<in> set ns then 1 else 0) + (if locked_blk s n then 1 else 0))"

lemma txnD:
  assumes "txn p st sz ns s"
  shows "alone p s" "cache_ok s" "logged st sz ns (logs s)" "l_size (logs s) = int sz" "\<not> l_committing (logs s)"
    "rc s n = (if n \<in> set ns then 1 else 0) + (if locked_blk s n then 1 else 0)"
  using assms by (simp_all add: txn_def)

text \<open>What an operation leaves alone: everything but the cache, the log and other processes.\<close>

definition lsame :: "nat \<Rightarrow> 'a lstate_scheme \<Rightarrow> 'a lstate_scheme \<Rightarrow> bool" where
  "lsame p s s' \<longleftrightarrow> procs s' p = procs s p \<and> (\<forall>j\<ge>NBUF. slocks s' j = slocks s j) \<and>
     s' = s\<lparr>procs := procs s', vd := vd s', vwrites := vwrites s', bufs := bufs s', slocks := slocks s', sectors := sectors s',
       dtrace := dtrace s', logs := logs s'\<rparr>"

lemma lsame_refl [simp]: "lsame p s s"
  by (simp add: lsame_def)

lemma lsame_trans: "lsame p s s1 \<Longrightarrow> lsame p s1 s2 \<Longrightarrow> lsame p s s2"
proof -
  assume a: "lsame p s s1" "lsame p s1 s2"
  have 1: "s1 = s\<lparr>procs := procs s1, vd := vd s1, vwrites := vwrites s1, bufs := bufs s1,
     slocks := slocks s1, sectors := sectors s1, dtrace := dtrace s1, logs := logs s1\<rparr>" using a(1) by (simp add: lsame_def)
  have 2: "s2 = s1\<lparr>procs := procs s2, vd := vd s2, vwrites := vwrites s2, bufs := bufs s2,
     slocks := slocks s2, sectors := sectors s2, dtrace := dtrace s2, logs := logs s2\<rparr>" using a(2) by (simp add: lsame_def)
  have "s2 = s\<lparr>procs := procs s2, vd := vd s2, vwrites := vwrites s2, bufs := bufs s2,
     slocks := slocks s2, sectors := sectors s2, dtrace := dtrace s2, logs := logs s2\<rparr>"
    using 2 by (subst (asm) 1) simp
  then show ?thesis using a by (simp add: lsame_def)
qed

lemma same_lsame: "same p s s' \<Longrightarrow> (\<And>j. NBUF \<le> j \<Longrightarrow> slocks s' j = slocks s j) \<Longrightarrow> lsame p s s'"
  for s s' :: "'a lstate_scheme"
proof -
  assume a: "same p s s'" "\<And>j. NBUF \<le> j \<Longrightarrow> slocks s' j = slocks s j"
  have 1: "s' = s\<lparr>procs := procs s', vd := vd s', vwrites := vwrites s', bufs := bufs s',
     slocks := slocks s', sectors := sectors s', dtrace := dtrace s'\<rparr>" using a(1) by (simp add: same_def)
  have "s' = s\<lparr>procs := procs s', vd := vd s', vwrites := vwrites s', bufs := bufs s',
     slocks := slocks s', sectors := sectors s', dtrace := dtrace s', logs := logs s'\<rparr>"
    unfolding same_logs [OF a(1)] by (subst 1) simp
  then show ?thesis using a by (simp add: lsame_def same_def)
qed

lemma lsame_fields:
  assumes "lsame p s s'"
  shows "locks s' = locks s" "cpus s' = cpus s" "hart s' = hart s" "mem s' = mem s" "procs s' p = procs s p"
    "lstate.more s' = lstate.more s" "NBUF \<le> j \<Longrightarrow> slocks s' j = slocks s j"
proof -
  have e: "s' = s\<lparr>procs := procs s', vd := vd s', vwrites := vwrites s', bufs := bufs s',
     slocks := slocks s', sectors := sectors s', dtrace := dtrace s', logs := logs s'\<rparr>" using assms by (simp add: lsame_def)
  show "locks s' = locks s" "cpus s' = cpus s" "hart s' = hart s" "mem s' = mem s" by (subst e, simp)+
  show "lstate.more s' = lstate.more s" by (subst e) simp
  show "procs s' p = procs s p" "NBUF \<le> j \<Longrightarrow> slocks s' j = slocks s j" using assms by (simp_all add: lsame_def)
qed

text \<open>
  A step of the transaction: the blocks now read \<open>B\<close>, the blocks \<open>L\<close> are held, \<open>ns\<close> is the log; buffers that are still held are
  the same buffers, and nothing has reached the disk.
\<close>

definition moves :: "nat \<Rightarrow> nat \<Rightarrow> nat \<Rightarrow> u32 list \<Rightarrow> (u32 \<Rightarrow> u8 list) \<Rightarrow> (u32 \<Rightarrow> bool) \<Rightarrow> 'a lstate_scheme \<Rightarrow> 'a lstate_scheme \<Rightarrow> bool" where
  "moves p st sz ns B L s s' \<longleftrightarrow> txn p st sz ns s' \<and> lsame p s s' \<and> blk s' = B \<and> locked_blk s' = L \<and>
     sectors s' = sectors s \<and> dtrace s' = dtrace s \<and> l_outstanding (logs s') = l_outstanding (logs s) \<and> (\<forall>k i. holds p s k i \<and> L k \<longrightarrow> holds p s' k i)"

lemma movesD:
  assumes "moves p st sz ns B L s s'"
  shows "txn p st sz ns s'" "lsame p s s'" "blk s' = B" "locked_blk s' = L" "sectors s' = sectors s" "dtrace s' = dtrace s"
    "holds p s k i \<Longrightarrow> L k \<Longrightarrow> holds p s' k i" "l_outstanding (logs s') = l_outstanding (logs s)"
  using assms by (simp_all add: moves_def)

lemma moves_trans:
  assumes "moves p st sz ns B L s s1" and "moves p st sz ns' B' L' s1 s2" and "\<And>k i. holds p s k i \<Longrightarrow> L' k \<Longrightarrow> L k"
  shows "moves p st sz ns' B' L' s s2"
  using assms lsame_trans [of p s s1 s2] by (auto simp: moves_def)

lemma moves_refl: "txn p st sz ns s \<Longrightarrow> moves p st sz ns (blk s) (locked_blk s) s s"
  by (simp add: moves_def)

lemma used_txn:
  assumes "txn p st sz ns s"
  shows "used s = set ns \<union> {n. locked_blk s n}"
  unfolding used_def using txnD(6) [OF assms] by (auto split: if_splits)

section \<open>Reading, changing and releasing a block\<close>

lemma txn_bread:
  assumes "serves sw" and t: "txn p st sz ns s" and "n < 2 ^ 31" and nl: "\<not> locked_blk s n"
    and "n \<in> set ns \<or> card (set ns \<union> {n. locked_blk s n}) < NBUF"
  shows "\<exists>i s'. bread sw (Suc m) ROOTDEV n s = Ok (i, s') \<and> moves p st sz ns (blk s) ((locked_blk s)(n := True)) s s' \<and>
    holds p s' n i \<and> b_data (bufs s' i) = blk s n"
proof -
  have "rc s n < 2 ^ 32 - 1" using txnD(6) [OF t, of n] nl by simp
  moreover have "n \<in> used s \<or> card (used s) < NBUF" using assms(5) used_txn [OF t] by auto
  ultimately obtain i s' where r: "bread sw (Suc m) ROOTDEV n s = Ok (i, s')" and g: "got p n i s s'"
    using bread_ok [OF assms(1) txnD(1,2) [OF t] assms(3) nl, of m] by blast
  note gd = gotD [OF g]
  have sl: "\<forall>j\<ge>NBUF. slocks s' j = slocks s j" using g by (simp add: got_def)
  have ls: "lsame p s s'" by (rule same_lsame [OF gd(1)]) (use sl in blast)
  have lg: "logs s' = logs s" by (rule same_logs [OF gd(1)])
  have "txn p st sz ns s'"
    using t same_alone [OF gd(1)] gd(2,5,6) lg nl by (auto simp: txn_def)
  moreover have "holds p s' k j" if "holds p s k j" for k j
  proof -
    have "k \<noteq> n" using that nl by (auto simp: holds_def locked_blk_def holds_sleep_def)
    then show ?thesis using gd(9) that by blast
  qed
  ultimately have "moves p st sz ns (blk s) ((locked_blk s)(n := True)) s s'" using ls gd(4,6,7,8) lg by (simp add: moves_def)
  moreover have "b_data (bufs s' i) = blk s n" using gd(3,4) by (metis holdsD(5) gd(2))
  ultimately show ?thesis using r gd(3) by blast
qed

lemma holds_locked: "holds p s n i \<Longrightarrow> locked_blk s n"
  by (auto simp: holds_def locked_blk_def holds_sleep_def)

lemma txn_brelse:
  assumes t: "txn p st sz ns s" and h: "holds p s n i" and cl: "n \<in> set ns \<or> blk s n = dblock (sectors s) n"
  shows "\<exists>s'. brelse i s = Ok s' \<and> moves p st sz ns (blk s) ((locked_blk s)(n := False)) s s'"
proof -
  have l: "locked_blk s n" by (rule holds_locked [OF h])
  have rn: "rc s n = 1 \<longrightarrow> blk s n = dblock (sectors s) n" using txnD(6) [OF t, of n] l cl by auto
  obtain s' where r: "brelse i s = Ok s'" and pt: "put p n (blk s n) (rc s n - 1) s s'"
    and sl: "slocks s' = (slocks s)(i := free_sleeplock)" and sd: "sectors s' = sectors s" "dtrace s' = dtrace s"
    using brelse_ok [OF txnD(1,2) [OF t] h rn] by blast
  note pd = putD [OF pt]
  have i: "i < NBUF" and bo: "buf_of s n = Some i" using holdsD(1) [OF h txnD(2) [OF t]] h by (auto simp: holds_def)
  have inj: "buf_of s k = Some i \<Longrightarrow> k = n" for k using buf_of_SomeD [of s k i] buf_of_SomeD [OF bo] by simp
  have lb: "locked_blk s' = (locked_blk s)(n := False)"
    using bo by (auto simp: locked_blk_def pd(5) sl free_sleeplock_def fun_eq_iff dest: inj split: option.splits)
  have ls: "lsame p s s'" by (rule same_lsame [OF pd(1)]) (use sl i in auto)
  have "txn p st sz ns s'"
    using t same_alone [OF pd(1)] pd(2,4) lb same_logs [OF pd(1)] l by (auto simp: txn_def)
  moreover have "holds p s' k j" if "holds p s k j" "k \<noteq> n" for k j
    using that inj same_fields(5) [OF pd(1)] by (auto simp: holds_def pd(5) holds_sleep_def sl)
  ultimately have "moves p st sz ns (blk s) ((locked_blk s)(n := False)) s s'"
    using ls pd(3) lb sd same_logs [OF pd(1)] by (auto simp: moves_def)
  then show ?thesis using r by blast
qed

section \<open>Writing a block\<close>

text \<open>\<open>bpin\<close> while another spinlock is held.\<close>

lemma bpin_nested:
  assumes "alone p s" and "l \<noteq> BcacheLock" and "cpus t = cpus (locked_in l s)" and "locks t = locks (locked_in l s)" and "hart t = hart s"
  shows "bpin i t = Ok (upd_buf i (\<lambda>bf. bf\<lparr>b_refcnt := b_refcnt bf + 1\<rparr>) t)"
proof -
  have u: "unlocked BcacheLock t" using assms by (simp add: locked_in_def alone_simps)
  have c: "cpu_ok (cpus t (hart t))" using assms by (simp add: locked_in_def alone_simps)
  have b: "bumped (cpus t) (hart t) = cpus t" using assms by (simp add: locked_in_def alone_simps)
  have lk: "(locks t)(BcacheLock := free_lock) = locks t" using u by auto
  have "release BcacheLock (t\<lparr>cpus := pushed (cpus t) (hart t), locks := (locks t)(BcacheLock := held_by (hart t)), bufs := B\<rparr>) = Ok (t\<lparr>bufs := B\<rparr>)" for B
    by (subst release_pushed [where cs = "cpus t"]) (use c b lk in simp_all)
  then show ?thesis using u unfolding bpin_def by (simp add: upd_buf_def)
qed

definition log_add :: "u32 \<Rightarrow> u32 list \<Rightarrow> u32 list" where
  "log_add n ns = (if n \<in> set ns then ns else ns @ [n])"

lemma log_slot_logged:
  assumes "logged st sz ns l"
  shows "n \<in> set ns \<Longrightarrow> log_slot n l < length ns \<and> ns ! log_slot n l = n" "n \<notin> set ns \<Longrightarrow> log_slot n l = length ns"
proof -
  have k: "nat (l_n l) = length ns" "\<And>i. i < length ns \<Longrightarrow> l_block l i = ns ! i" using assms by (auto simp: logged_def)
  show "log_slot n l < length ns \<and> ns ! log_slot n l = n" if "n \<in> set ns"
  proof (cases "find (\<lambda>i. l_block l i = n) [0..<length ns]")
    case None
    then show ?thesis using that k(2) by (auto simp: find_None_iff in_set_conv_nth)
  next
    case (Some i)
    then have "log_slot n l = i" by (simp add: log_slot_def k(1))
    then show ?thesis using find_SomeD [OF Some] k(2) [of i] by simp
  qed
  show "log_slot n l = length ns" if "n \<notin> set ns"
  proof -
    have "find (\<lambda>i. l_block l i = n) [0..<length ns] = None" using that k(2) by (auto simp: find_None_iff)
    then show ?thesis by (simp add: log_slot_def k(1))
  qed
qed

lemma logged_add:
  assumes "logged st sz ns l" and "n < 2 ^ 31" "n \<notin> region st sz" and "length ns < LOGSIZE" "length ns + 1 < sz"
  shows "logged st sz (log_add n ns) (l\<lparr>l_block := (l_block l)(log_slot n l := n), l_n := int (length (log_add n ns))\<rparr>)"
proof (cases "n \<in> set ns")
  case True
  then show ?thesis using assms log_slot_logged(1) [OF assms(1) True] by (auto simp: logged_def log_add_def)
next
  case False
  then show ?thesis using assms log_slot_logged(2) [OF assms(1) False] by (auto simp: logged_def log_add_def nth_append)
qed

text \<open>The buffer and the log after \<open>log_write\<close> of a buffer that got new data.\<close>

definition log_entry :: "u32 \<Rightarrow> u32 list \<Rightarrow> log \<Rightarrow> log" where
  "log_entry n ns l = l\<lparr>l_block := (l_block l)(log_slot n l := n), l_n := int (length (log_add n ns))\<rparr>"

definition pin_count :: "u32 \<Rightarrow> u32 list \<Rightarrow> u32 \<Rightarrow> u32" where
  "pin_count n ns r = (if n \<in> set ns then r else r + 1)"

lemma log_write_eq:
  assumes t: "txn p st sz ns s" and h: "holds p s n i" and room: "length ns < LOGSIZE" "length ns + 1 < sz" "0 < l_outstanding (logs s)"
  shows "log_write i (upd_buf i (\<lambda>bf. bf\<lparr>b_data := d\<rparr>) s) =
    Ok (upd_log (log_entry n ns) (upd_buf i (\<lambda>bf. bf\<lparr>b_data := d, b_refcnt := pin_count n ns (b_refcnt bf)\<rparr>) s))"
proof -
  let ?s0 = "upd_buf i (\<lambda>bf. bf\<lparr>b_data := d\<rparr>) s"
  define s1 where "s1 = locked_in LogLock ?s0"
  define s2 where "s2 = upd_log (\<lambda>l. l\<lparr>l_block := (l_block l)(log_slot n l := n)\<rparr>) s1"
  have lg: "logged st sz ns (logs s)" by (rule txnD(3) [OF t])
  have a0: "alone p ?s0" using txnD(1) [OF t] by (subst alone_cong [of _ s]) (simp_all add: upd_buf_def)
  have bn: "b_blockno (bufs s i) = n" by (rule holdsD(3) [OF h txnD(2) [OF t]])
  have v1: "logs s1 = logs s" "b_blockno (bufs s1 i) = n" using bn by (simp_all add: s1_def locked_in_def upd_buf_def)
  have ln: "l_n (logs s) = int (length ns)" using lg by (simp add: logged_def)
  have v2: "cpus s2 = cpus (locked_in LogLock ?s0)" "locks s2 = locks (locked_in LogLock ?s0)" "hart s2 = hart ?s0"
    by (simp_all add: s2_def s1_def upd_log_def locked_in_def)
  have e: "log_write i ?s0 = bnd (if int (log_slot n (logs s)) = l_n (logs s)
      then bnd (bpin i s2) (\<lambda>s3. Ok (upd_log (\<lambda>l. l\<lparr>l_n := l_n l + 1\<rparr>) s3)) else Ok s2) (release LogLock)"
    unfolding log_write_def alone_acquire [OF a0] bnd.simps s1_def [symmetric] v1 s2_def [symmetric]
    using room ln txnD(4) [OF t] v1 by (simp add: Let_def s2_def upd_log_def)
  show ?thesis
  proof (cases "n \<in> set ns")
    case True
    have "int (log_slot n (logs s)) \<noteq> l_n (logs s)" using log_slot_logged(1) [OF lg True] ln by simp
    then have "log_write i ?s0 = Ok (s2\<lparr>cpus := cpus ?s0, locks := locks ?s0\<rparr>)" using e alone_release [OF a0 v2] by simp
    moreover have "s2\<lparr>cpus := cpus ?s0, locks := locks ?s0\<rparr> = upd_log (\<lambda>l. l\<lparr>l_block := (l_block l)(log_slot n l := n)\<rparr>) ?s0"
      by (simp add: s2_def s1_def upd_log_def locked_in_def)
    ultimately show ?thesis using True ln by (simp add: pin_count_def log_entry_def log_add_def upd_log_def upd_buf_def)
  next
    case False
    let ?s3 = "upd_buf i (\<lambda>bf. bf\<lparr>b_refcnt := b_refcnt bf + 1\<rparr>) s2"
    let ?s4 = "upd_log (\<lambda>l. l\<lparr>l_n := l_n l + 1\<rparr>) ?s3"
    have "bpin i s2 = Ok ?s3" by (rule bpin_nested [OF a0 _ v2]) simp
    moreover have "release LogLock ?s4 = Ok (?s4\<lparr>cpus := cpus ?s0, locks := locks ?s0\<rparr>)"
      by (rule alone_release [OF a0]) (simp_all add: v2 upd_log_def upd_buf_def [of _ _ s2])
    ultimately have "log_write i ?s0 = Ok (?s4\<lparr>cpus := cpus ?s0, locks := locks ?s0\<rparr>)"
      using e log_slot_logged(2) [OF lg False] ln by simp
    moreover have "?s4\<lparr>cpus := cpus ?s0, locks := locks ?s0\<rparr> =
        upd_log (log_entry n ns) (upd_buf i (\<lambda>bf. bf\<lparr>b_data := d, b_refcnt := b_refcnt bf + 1\<rparr>) s)"
      using False ln by (simp add: s2_def s1_def upd_log_def locked_in_def upd_buf_def log_entry_def log_add_def)
    ultimately show ?thesis using False by (simp add: pin_count_def)
  qed
qed

lemma txn_log_write:
  assumes t: "txn p st sz ns s" and h: "holds p s n i" and reg: "n \<notin> region st sz" and d: "length d = BSIZE"
    and room: "length ns < LOGSIZE" "length ns + 1 < sz" "0 < l_outstanding (logs s)"
  shows "\<exists>s'. log_write i (upd_buf i (\<lambda>bf. bf\<lparr>b_data := d\<rparr>) s) = Ok s' \<and>
    moves p st sz (log_add n ns) ((blk s)(n := d)) (locked_blk s) s s'"
proof -
  let ?r = "pin_count n ns (b_refcnt (bufs s i))"
  define u where "u = upd_buf i (\<lambda>bf. bf\<lparr>b_data := d, b_refcnt := ?r\<rparr>) s"
  define s' where "s' = upd_log (log_entry n ns) u"
  have w: "log_write i (upd_buf i (\<lambda>bf. bf\<lparr>b_data := d\<rparr>) s) = Ok s'"
    unfolding log_write_eq [OF t h room] s'_def u_def by (simp add: upd_buf_def)
  note ok = txnD(2) [OF t] and hd = holdsD [OF h txnD(2) [OF t]]
  have l: "locked_blk s n" by (rule holds_locked [OF h])
  have rs: "unat (b_refcnt (bufs s i)) = (if n \<in> set ns then 2 else 1)" using hd(6) txnD(6) [OF t, of n] l by (simp split: if_splits)
  have rn: "unat ?r = (if n \<in> set ns then rc s n else rc s n + 1)"
    using rs hd(6) by (simp add: pin_count_def unat_word_ariths)
  have bo: "buf_of s n = Some i" using h by (simp add: holds_def)
  have nz: "?r \<noteq> 0"
  proof
    assume "?r = 0"
    then show False using rn hd(7) by (simp split: if_splits)
  qed
  have eu: "set_slock i (slocks s i) u = u" by (simp add: u_def upd_buf_def set_slock_def)
  have pt: "put p n d (unat ?r) s u"
    using upd_put [OF ok bo d, of ?r "slocks s i" p] nz eu unfolding u_def by simp
  note pd = putD [OF pt]
  have su: "slocks u = slocks s" "sectors u = sectors s" "dtrace u = dtrace s" "procs u = procs s" "logs u = logs s"
    by (simp_all add: u_def upd_buf_def)
  have lb: "locked_blk u = locked_blk s" by (rule locked_blk_cong [OF pd(5) su(1)])
  have lg: "logged st sz (log_add n ns) (log_entry n ns (logs s))"
    unfolding log_entry_def by (rule logged_add [OF txnD(3) [OF t] hd(8) reg room(1,2)])
  have "txn p st sz (log_add n ns) s'"
    unfolding txn_def s'_def
  proof (intro conjI allI)
    show "alone p (upd_log (log_entry n ns) u)" using same_alone [OF pd(1)] txnD(1) [OF t] by simp
    show "rc (upd_log (log_entry n ns) u) k =
      (if k \<in> set (log_add n ns) then 1 else 0) + (if locked_blk (upd_log (log_entry n ns) u) k then 1 else 0)" for k
      using txnD(6) [OF t, of k] rn lb pd(4) by (auto simp: log_add_def)
  qed (use t pd(2) lg su in \<open>simp_all add: txn_def log_entry_def\<close>)
  moreover have "lsame p s s'" unfolding s'_def by (simp add: lsame_def u_def upd_log_def upd_buf_def)
  moreover have "holds p s' k j" if "holds p s k j" for k j
    using that by (simp add: s'_def holds_def pd(5) holds_sleep_def su)
  ultimately have "moves p st sz (log_add n ns) ((blk s)(n := d)) (locked_blk s) s s'"
    using pd(3) lb su by (simp add: moves_def s'_def log_entry_def)
  then show ?thesis using w by blast
qed

section \<open>Whole accesses\<close>

text \<open>A block that can be used: it exists, is not part of the log, and nobody holds it.\<close>

definition usable :: "nat \<Rightarrow> nat \<Rightarrow> 'a lstate_scheme \<Rightarrow> u32 \<Rightarrow> bool" where
  "usable st sz s n \<longleftrightarrow> n < 2 ^ 31 \<and> n \<notin> region st sz \<and> \<not> locked_blk s n"

text \<open>Room for \<open>k\<close> more buffers, and for \<open>k\<close> more log entries of an operation that has begun.\<close>

definition cache_room :: "nat \<Rightarrow> u32 list \<Rightarrow> (u32 \<Rightarrow> bool) \<Rightarrow> bool" where
  "cache_room k ns L \<longleftrightarrow> card (set ns \<union> {n. L n}) + k \<le> NBUF"

definition log_room :: "nat \<Rightarrow> nat \<Rightarrow> u32 list \<Rightarrow> 'a lstate_scheme \<Rightarrow> bool" where
  "log_room k sz ns s \<longleftrightarrow> length ns + k \<le> LOGSIZE \<and> length ns + k < sz \<and> 0 < l_outstanding (logs s)"

lemma length_log_add: "length (log_add n ns) \<le> Suc (length ns)"
  by (simp add: log_add_def)

lemma cache_room_add: "cache_room (Suc k) ns L \<Longrightarrow> cache_room k (log_add n ns) L"
proof -
  have e: "set (log_add n ns) \<union> {n. L n} \<subseteq> insert n (set ns \<union> {n. L n})" by (auto simp: log_add_def)
  have "card (set (log_add n ns) \<union> {n. L n}) \<le> Suc (card (set ns \<union> {n. L n}))"
  proof (cases "finite {n. L n}")
    case True
    then show ?thesis using card_mono [OF _ e] card_insert_le_m1 [of "Suc (card (set ns \<union> {n. L n}))"] by (auto simp: card_insert_if split: if_splits)
  qed simp
  then show "cache_room (Suc k) ns L \<Longrightarrow> cache_room k (log_add n ns) L" by (simp add: cache_room_def)
qed

lemma cache_room_lock: "cache_room (Suc k) ns L \<Longrightarrow> cache_room k ns (L(n := True))"
proof -
  have e: "set ns \<union> {k. (L(n := True)) k} = insert n (set ns \<union> {n. L n})" by auto
  have "card (insert n (set ns \<union> {n. L n})) \<le> Suc (card (set ns \<union> {n. L n}))"
    by (cases "finite (set ns \<union> {n. L n})") (simp_all add: card_insert_if)
  then show "cache_room (Suc k) ns L \<Longrightarrow> cache_room k ns (L(n := True))" unfolding cache_room_def e by linarith
qed

lemma cache_room_mono: "cache_room k ns L \<Longrightarrow> j \<le> k \<Longrightarrow> cache_room j ns L"
  by (simp add: cache_room_def)

lemma log_room_mono: "log_room k sz ns s \<Longrightarrow> j \<le> k \<Longrightarrow> log_room j sz ns s"
  by (simp add: log_room_def)

lemma log_room_add: "log_room (Suc k) sz ns s \<Longrightarrow> log_room k sz (log_add n ns) s"
  using length_log_add [of n ns] by (simp add: log_room_def)

lemma log_room_moves: "moves p st sz ns' B L s s' \<Longrightarrow> log_room k sz ns s' = log_room k sz ns s"
  by (simp add: log_room_def moves_def)

text \<open>Reading a block: the continuation sees its content and gives it back unchanged.\<close>

lemma unlock_twice: "\<not> L n \<Longrightarrow> (L(n := True))(n := False) = L" for L :: "u32 \<Rightarrow> bool"
  by (rule ext) simp

lemma not_locked_holds: "\<not> locked_blk s n \<Longrightarrow> \<not> holds p s n i"
  using holds_locked by blast

lemma read_block:
  assumes "serves sw" and t: "txn p st sz ns s" and "n < 2 ^ 31" and nl: "\<not> locked_blk s n" and "n \<in> set ns \<or> cache_room 1 ns (locked_blk s)"
  shows "\<exists>i s1 s2. bread sw (Suc m) ROOTDEV n s = Ok (i, s1) \<and> b_data (bufs s1 i) = blk s n \<and>
    moves p st sz ns (blk s) ((locked_blk s)(n := True)) s s1 \<and> holds p s1 n i \<and>
    brelse i s1 = Ok s2 \<and> moves p st sz ns (blk s) (locked_blk s) s s2"
proof -
  obtain i s1 where r: "bread sw (Suc m) ROOTDEV n s = Ok (i, s1)" "b_data (bufs s1 i) = blk s n" "holds p s1 n i"
    and m1: "moves p st sz ns (blk s) ((locked_blk s)(n := True)) s s1"
    using txn_bread [OF assms(1-4), of m] assms(5) by (auto simp: cache_room_def)
  have "n \<in> set ns \<or> blk s1 n = dblock (sectors s1) n"
  proof (cases "n \<in> set ns")
    case False
    then have "blk s n = dblock (sectors s) n" using rc0_clean [OF txnD(2) [OF t]] txnD(6) [OF t, of n] nl by simp
    then show ?thesis using movesD(3,5) [OF m1] by simp
  qed simp
  from txn_brelse [OF movesD(1) [OF m1] r(3) this] obtain s2 where s2: "brelse i s1 = Ok s2"
    "moves p st sz ns (blk s) (locked_blk s) s1 s2" unfolding movesD(3,4) [OF m1] unlock_twice [where L = "locked_blk s", OF nl] by blast
  have "moves p st sz ns (blk s) (locked_blk s) s s2"
    by (rule moves_trans [OF m1 s2(2)]) (use not_locked_holds [OF nl] in auto)
  then show ?thesis using r m1 s2(1) by blast
qed

text \<open>Changing a block: read it, store new data, log it, release it.\<close>

lemma update_block:
  assumes "serves sw" and t: "txn p st sz ns s" and u: "usable st sz s n" and c: "n \<in> set ns \<or> cache_room 1 ns (locked_blk s)" and room: "log_room 1 sz ns s"
    and d: "length (f (blk s n)) = BSIZE"
  shows "\<exists>i s1 s2 s3. bread sw (Suc m) ROOTDEV n s = Ok (i, s1) \<and> b_data (bufs s1 i) = blk s n \<and>
    moves p st sz ns (blk s) ((locked_blk s)(n := True)) s s1 \<and>
    log_write i (upd_buf i (\<lambda>bf. bf\<lparr>b_data := f (b_data bf)\<rparr>) s1) = Ok s2 \<and> brelse i s2 = Ok s3 \<and>
    moves p st sz (log_add n ns) ((blk s)(n := f (blk s n))) (locked_blk s) s s3"
proof -
  have n: "n < 2 ^ 31" "n \<notin> region st sz" "\<not> locked_blk s n" using u by (auto simp: usable_def)
  obtain i s1 where r: "bread sw (Suc m) ROOTDEV n s = Ok (i, s1)" "b_data (bufs s1 i) = blk s n" and h: "holds p s1 n i"
    and m1: "moves p st sz ns (blk s) ((locked_blk s)(n := True)) s s1"
    using txn_bread [OF assms(1) t n(1,3), of m] c by (auto simp: cache_room_def)
  note md = movesD [OF m1]
  have lr: "length ns < LOGSIZE" "length ns + 1 < sz" "0 < l_outstanding (logs s1)" using room md(8) by (auto simp: log_room_def)
  obtain s2 where w: "log_write i (upd_buf i (\<lambda>bf. bf\<lparr>b_data := f (blk s n)\<rparr>) s1) = Ok s2"
    and m2: "moves p st sz (log_add n ns) ((blk s)(n := f (blk s n))) ((locked_blk s)(n := True)) s1 s2"
    using txn_log_write [OF md(1) h n(2) d lr] unfolding md(3,4) by blast
  have eq: "upd_buf i (\<lambda>bf. bf\<lparr>b_data := f (b_data bf)\<rparr>) s1 = upd_buf i (\<lambda>bf. bf\<lparr>b_data := f (blk s n)\<rparr>) s1"
    using r(2) by (simp add: upd_buf_def)
  have h2: "holds p s2 n i" using movesD(7) [OF m2 h] by simp
  have "n \<in> set (log_add n ns)" by (simp add: log_add_def)
  then obtain s3 where b: "brelse i s2 = Ok s3"
    and m3: "moves p st sz (log_add n ns) ((blk s)(n := f (blk s n))) (locked_blk s) s2 s3"
    using txn_brelse [OF movesD(1) [OF m2] h2] unfolding movesD(3,4) [OF m2] unlock_twice [where L = "locked_blk s", OF n(3)] by blast
  have m13: "moves p st sz (log_add n ns) ((blk s)(n := f (blk s n))) (locked_blk s) s1 s3"
    by (rule moves_trans [OF m2 m3]) simp
  have "moves p st sz (log_add n ns) ((blk s)(n := f (blk s n))) (locked_blk s) s s3"
    by (rule moves_trans [OF m1 m13]) simp
  moreover have "log_write i (upd_buf i (\<lambda>bf. bf\<lparr>b_data := f (b_data bf)\<rparr>) s1) = Ok s2" unfolding eq by (rule w)
  ultimately show ?thesis using r m1 b by blast
qed

end
