(* ===== verification/Fs.thy ===== *)
theory Fs
  imports Log
begin

unbundle bit_operations_syntax

text \<open>
  kernel/fs.c: allocation of blocks and inodes, the inode table, the content of inodes, directories and
  path names. Definitions of the operations; block allocation, inode contents and paths have their
  lemmas in theories of their own. An inode in memory is its index in \<open>itable.inode[]\<close>; its sleep lock has the
  number \<open>NBUF\<close> plus the index. A pointer that may be null is an \<open>option\<close>.
\<close>

section \<open>Data\<close>

definition ROOTINO :: u32 where "ROOTINO = 1"
definition FSMAGIC :: u32 where "FSMAGIC = 0x10203040"
definition NDIRECT :: nat where "NDIRECT = 12"
definition NINDIRECT :: nat where "NINDIRECT = BSIZE div 4"
definition MAXFILE :: nat where "MAXFILE = NDIRECT + NINDIRECT"
definition IPB :: nat where "IPB = BSIZE div 64"
definition BPB :: nat where "BPB = BSIZE * 8"
definition DIRSIZ :: nat where "DIRSIZ = 14"
definition NINODE :: nat where "NINODE = 50"
definition T_DIR :: u16 where "T_DIR = 1"
definition T_FILE :: u16 where "T_FILE = 2"
definition T_DEVICE :: u16 where "T_DEVICE = 3"

definition IBLOCK :: "u32 \<Rightarrow> superblock \<Rightarrow> u32" where
  "IBLOCK i sb = i div of_nat IPB + sb_inodestart sb"

definition BBLOCK :: "u32 \<Rightarrow> superblock \<Rightarrow> u32" where
  "BBLOCK b sb = b div of_nat BPB + sb_bmapstart sb"

record inode =
  i_dev :: u32
  i_inum :: u32
  i_ref :: int
  i_valid :: bool
  i_type :: u16
  i_major :: u16
  i_minor :: u16
  i_nlink :: u16
  i_size :: u32
  i_addrs :: "nat \<Rightarrow> u32"      \<comment> \<open>\<open>NDIRECT\<close> blocks and the indirect block\<close>

record istate = lstate +
  fssb :: superblock
  itable :: "nat \<Rightarrow> inode"

definition upd_inode :: "nat \<Rightarrow> (inode \<Rightarrow> inode) \<Rightarrow> 'a istate_scheme \<Rightarrow> 'a istate_scheme" where
  "upd_inode ip f s = s\<lparr>itable := (itable s)(ip := f (itable s ip))\<rparr>"

definition upd_data :: "nat \<Rightarrow> (u8 list \<Rightarrow> u8 list) \<Rightarrow> 'a dstate_scheme \<Rightarrow> 'a dstate_scheme" where
  "upd_data b f s = upd_buf b (\<lambda>bf. bf\<lparr>b_data := f (b_data bf)\<rparr>) s"

abbreviation bdata :: "'a dstate_scheme \<Rightarrow> nat \<Rightarrow> u8 list" where
  "bdata s b \<equiv> b_data (bufs s b)"

abbreviation inode_lock :: "nat \<Rightarrow> nat" where
  "inode_lock ip \<equiv> NBUF + ip"

type_synonym 'a switch = "'a istate_scheme \<Rightarrow> ('a istate_scheme) res"

section \<open>Super block\<close>

definition sb_of_bytes :: "u8 list \<Rightarrow> superblock" where
  "sb_of_bytes bs = \<lparr>sb_magic = get32 0 bs, sb_size = get32 4 bs, sb_nblocks = get32 8 bs, sb_ninodes = get32 12 bs,
     sb_nlog = get32 16 bs, sb_logstart = get32 20 bs, sb_inodestart = get32 24 bs, sb_bmapstart = get32 28 bs\<rparr>"

definition readsb :: "'a switch \<Rightarrow> nat \<Rightarrow> u32 \<Rightarrow> 'a istate_scheme \<Rightarrow> (superblock \<times> 'a istate_scheme) res" where
  "readsb sw m dev s =
     bnd (bread sw m dev 1 s) (\<lambda>(bp, s1).
     let sb = sb_of_bytes (bdata s1 bp) in bnd (brelse bp s1) (\<lambda>s2. Ok (sb, s2)))"

definition fsinit :: "'a switch \<Rightarrow> nat \<Rightarrow> int \<Rightarrow> 'a istate_scheme \<Rightarrow> ('a istate_scheme) res" where
  "fsinit sw m dev s =
     bnd (readsb sw m (of_int dev) s) (\<lambda>(sb, s1).
     if sb_magic sb \<noteq> FSMAGIC then Err (Panic ''invalid file system'')
     else initlog sw m dev sb (s1\<lparr>fssb := sb\<rparr>))"

section \<open>Blocks\<close>

definition bzero :: "'a switch \<Rightarrow> nat \<Rightarrow> u32 \<Rightarrow> u32 \<Rightarrow> 'a istate_scheme \<Rightarrow> ('a istate_scheme) res" where
  "bzero sw m dev bno s =
     bnd (bread sw m dev bno s) (\<lambda>(bp, s1).
     bnd (log_write bp (upd_data bp (\<lambda>_. replicate BSIZE 0) s1)) (brelse bp))"

definition bit_mask :: "nat \<Rightarrow> u8" where
  "bit_mask bi = push_bit (bi mod 8) 1"

definition bit_free :: "u8 list \<Rightarrow> nat \<Rightarrow> bool" where
  "bit_free bs bi \<longleftrightarrow> bs ! (bi div 8) AND bit_mask bi = 0"

text \<open>
  The outer loop of \<open>balloc\<close> runs over the blocks of the bitmap, the inner loop over the bits of one. The counter
  is an \<open>int\<close>; it overflows on a disk of more than \<open>2^31\<close> blocks.
\<close>

fun balloc_loop :: "'a switch \<Rightarrow> nat \<Rightarrow> u32 \<Rightarrow> nat list \<Rightarrow> 'a istate_scheme \<Rightarrow> (u32 \<times> 'a istate_scheme) res" where
  "balloc_loop sw m dev [] s =
     bnd (printf (''balloc: out of blocks'' @ [CHR 0x0A]) [] s) (\<lambda>s1. Ok (0, s1))"
| "balloc_loop sw m dev (g # gs) s =
     (let b = g * BPB
      in if b \<ge> 2 ^ 31 then Err (Undef ''balloc: overflow'')
         else bnd (bread sw m dev (BBLOCK (of_nat b) (fssb s)) s) (\<lambda>(bp, s1).
           case find (\<lambda>bi. b + bi < unat (sb_size (fssb s1)) \<and> bit_free (bdata s1 bp) bi) [0..<BPB] of
             Some bi \<Rightarrow>
               let s2 = upd_data bp (\<lambda>bs. bs[bi div 8 := bs ! (bi div 8) OR bit_mask bi]) s1
               in bnd (log_write bp s2) (\<lambda>s3.
                  bnd (brelse bp s3) (\<lambda>s4.
                  bnd (bzero sw m dev (of_nat (b + bi)) s4) (\<lambda>s5. Ok (of_nat (b + bi), s5))))
           | None \<Rightarrow> bnd (brelse bp s1) (balloc_loop sw m dev gs)))"

definition balloc :: "'a switch \<Rightarrow> nat \<Rightarrow> u32 \<Rightarrow> 'a istate_scheme \<Rightarrow> (u32 \<times> 'a istate_scheme) res" where
  "balloc sw m dev s = balloc_loop sw m dev [0..<(unat (sb_size (fssb s)) + BPB - 1) div BPB] s"

definition bfree :: "'a switch \<Rightarrow> nat \<Rightarrow> u32 \<Rightarrow> u32 \<Rightarrow> 'a istate_scheme \<Rightarrow> ('a istate_scheme) res" where
  "bfree sw m dev b s =
     bnd (bread sw m dev (BBLOCK b (fssb s)) s) (\<lambda>(bp, s1).
     let bi = unat b mod BPB
     in if bit_free (bdata s1 bp) bi then Err (Panic ''freeing free block'')
        else bnd (log_write bp (upd_data bp (\<lambda>bs. bs[bi div 8 := bs ! (bi div 8) AND NOT (bit_mask bi)]) s1)) (brelse bp))"

section \<open>Inodes\<close>

definition iinit :: "'a istate_scheme \<Rightarrow> 'a istate_scheme" where
  "iinit s = fold (\<lambda>i. initsleeplock (inode_lock i)) [0..<NINODE] (initlock ItableLock s)"

text \<open>The entry of the table: the inode itself if it is there, otherwise the first free one.\<close>

definition iget :: "u32 \<Rightarrow> u32 \<Rightarrow> 'a istate_scheme \<Rightarrow> (nat \<times> 'a istate_scheme) res" where
  "iget dev inum s =
     bnd (acquire ItableLock s) (\<lambda>s1.
     case find (\<lambda>i. i_ref (itable s1 i) > 0 \<and> i_dev (itable s1 i) = dev \<and> i_inum (itable s1 i) = inum) [0..<NINODE] of
       Some ip \<Rightarrow> bnd (release ItableLock (upd_inode ip (\<lambda>n. n\<lparr>i_ref := i_ref n + 1\<rparr>) s1)) (\<lambda>s2. Ok (ip, s2))
     | None \<Rightarrow> (case find (\<lambda>i. i_ref (itable s1 i) = 0) [0..<NINODE] of
         None \<Rightarrow> Err (Panic ''iget: no inodes'')
       | Some ip \<Rightarrow> bnd (release ItableLock (upd_inode ip (\<lambda>n. n\<lparr>i_dev := dev, i_inum := inum, i_ref := 1, i_valid := False\<rparr>) s1))
           (\<lambda>s2. Ok (ip, s2))))"

text \<open>Offset of an inode in its block.\<close>

definition dinode_off :: "u32 \<Rightarrow> nat" where
  "dinode_off inum = 64 * (unat inum mod IPB)"

fun ialloc_loop :: "'a switch \<Rightarrow> nat \<Rightarrow> u32 \<Rightarrow> u16 \<Rightarrow> nat list \<Rightarrow> 'a istate_scheme \<Rightarrow> (nat option \<times> 'a istate_scheme) res" where
  "ialloc_loop sw m dev type [] s =
     bnd (printf (''ialloc: no inodes'' @ [CHR 0x0A]) [] s) (\<lambda>s1. Ok (None, s1))"
| "ialloc_loop sw m dev type (k # ks) s =
     (let inum = of_nat k; o' = dinode_off inum
      in bnd (bread sw m dev (IBLOCK inum (fssb s)) s) (\<lambda>(bp, s1).
         if get16 o' (bdata s1 bp) = 0 then
           bnd (log_write bp (upd_data bp (\<lambda>bs. put16 o' type (put_bytes o' (replicate 64 0) bs)) s1)) (\<lambda>s2.
           bnd (brelse bp s2) (\<lambda>s3.
           bnd (iget dev inum s3) (\<lambda>(ip, s4). Ok (Some ip, s4))))
         else bnd (brelse bp s1) (ialloc_loop sw m dev type ks)))"

definition ialloc :: "'a switch \<Rightarrow> nat \<Rightarrow> u32 \<Rightarrow> u16 \<Rightarrow> 'a istate_scheme \<Rightarrow> (nat option \<times> 'a istate_scheme) res" where
  "ialloc sw m dev type s = ialloc_loop sw m dev type [1..<unat (sb_ninodes (fssb s))] s"

definition put_dinode :: "nat \<Rightarrow> inode \<Rightarrow> u8 list \<Rightarrow> u8 list" where
  "put_dinode o' n bs =
     fold (\<lambda>k bs. put32 (o' + 12 + 4 * k) (i_addrs n k) bs) [0..<NDIRECT + 1]
       (put32 (o' + 8) (i_size n) (put16 (o' + 6) (i_nlink n) (put16 (o' + 4) (i_minor n) (put16 (o' + 2) (i_major n)
         (put16 o' (i_type n) bs)))))"

definition iupdate :: "'a switch \<Rightarrow> nat \<Rightarrow> nat \<Rightarrow> 'a istate_scheme \<Rightarrow> ('a istate_scheme) res" where
  "iupdate sw m ip s =
     bnd (bread sw m (i_dev (itable s ip)) (IBLOCK (i_inum (itable s ip)) (fssb s)) s) (\<lambda>(bp, s1).
     bnd (log_write bp (upd_data bp (put_dinode (dinode_off (i_inum (itable s1 ip))) (itable s1 ip)) s1)) (brelse bp))"

definition idup :: "nat \<Rightarrow> 'a istate_scheme \<Rightarrow> (nat \<times> 'a istate_scheme) res" where
  "idup ip s =
     bnd (acquire ItableLock s) (\<lambda>s1.
     bnd (release ItableLock (upd_inode ip (\<lambda>n. n\<lparr>i_ref := i_ref n + 1\<rparr>) s1)) (\<lambda>s2. Ok (ip, s2)))"

definition get_dinode :: "nat \<Rightarrow> u8 list \<Rightarrow> inode \<Rightarrow> inode" where
  "get_dinode o' bs n = n\<lparr>i_type := get16 o' bs, i_major := get16 (o' + 2) bs, i_minor := get16 (o' + 4) bs,
     i_nlink := get16 (o' + 6) bs, i_size := get32 (o' + 8) bs,
     i_addrs := (\<lambda>k. if k \<le> NDIRECT then get32 (o' + 12 + 4 * k) bs else i_addrs n k)\<rparr>"

definition ilock :: "'a switch \<Rightarrow> nat \<Rightarrow> nat option \<Rightarrow> 'a istate_scheme \<Rightarrow> ('a istate_scheme) res" where
  "ilock sw m ipp s =
     (case ipp of None \<Rightarrow> Err (Panic ''ilock'')
      | Some ip \<Rightarrow>
        if i_ref (itable s ip) < 1 then Err (Panic ''ilock'')
        else bnd (acquiresleep sw m (inode_lock ip) s) (\<lambda>s1.
          if \<not> i_valid (itable s1 ip) then
            bnd (bread sw m (i_dev (itable s1 ip)) (IBLOCK (i_inum (itable s1 ip)) (fssb s1)) s1) (\<lambda>(bp, s2).
            let s3 = upd_inode ip (get_dinode (dinode_off (i_inum (itable s2 ip))) (bdata s2 bp)) s2
            in bnd (brelse bp s3) (\<lambda>s4.
               let s5 = upd_inode ip (\<lambda>n. n\<lparr>i_valid := True\<rparr>) s4
               in if i_type (itable s5 ip) = 0 then Err (Panic ''ilock: no type'') else Ok s5))
          else Ok s1))"

definition iunlock :: "nat option \<Rightarrow> 'a istate_scheme \<Rightarrow> ('a istate_scheme) res" where
  "iunlock ipp s =
     (case ipp of None \<Rightarrow> Err (Panic ''iunlock'')
      | Some ip \<Rightarrow>
        bnd (holdingsleep (inode_lock ip) s) (\<lambda>(h, s1).
        if \<not> h \<or> i_ref (itable s1 ip) < 1 then Err (Panic ''iunlock'') else releasesleep (inode_lock ip) s1))"

section \<open>Content of inodes\<close>

definition bmap :: "'a switch \<Rightarrow> nat \<Rightarrow> nat \<Rightarrow> u32 \<Rightarrow> 'a istate_scheme \<Rightarrow> (u32 \<times> 'a istate_scheme) res" where
  "bmap sw m ip bn s =
     (if unat bn < NDIRECT then
        let addr = i_addrs (itable s ip) (unat bn)
        in if addr = 0 then
             bnd (balloc sw m (i_dev (itable s ip)) s) (\<lambda>(addr, s1).
             if addr = 0 then Ok (0, s1)
             else Ok (addr, upd_inode ip (\<lambda>n. n\<lparr>i_addrs := (i_addrs n)(unat bn := addr)\<rparr>) s1))
           else Ok (addr, s)
      else let k = unat bn - NDIRECT
      in if k < NINDIRECT then
           bnd (if i_addrs (itable s ip) NDIRECT = 0 then
                  bnd (balloc sw m (i_dev (itable s ip)) s) (\<lambda>(addr, s1).
                  if addr = 0 then Ok (0, s1)
                  else Ok (addr, upd_inode ip (\<lambda>n. n\<lparr>i_addrs := (i_addrs n)(NDIRECT := addr)\<rparr>) s1))
                else Ok (i_addrs (itable s ip) NDIRECT, s)) (\<lambda>(ind, s1).
           if ind = 0 then Ok (0, s1)
           else bnd (bread sw m (i_dev (itable s1 ip)) ind s1) (\<lambda>(bp, s2).
             let addr = get32 (4 * k) (bdata s2 bp)
             in bnd (if addr = 0 then
                       bnd (balloc sw m (i_dev (itable s2 ip)) s2) (\<lambda>(addr, s3).
                       if addr \<noteq> 0 then bnd (log_write bp (upd_data bp (put32 (4 * k) addr) s3)) (\<lambda>s4. Ok (addr, s4))
                       else Ok (addr, s3))
                     else Ok (addr, s2)) (\<lambda>(addr, s3).
                bnd (brelse bp s3) (\<lambda>s4. Ok (addr, s4)))))
         else Err (Panic ''bmap: out of range''))"

definition itrunc :: "'a switch \<Rightarrow> nat \<Rightarrow> nat \<Rightarrow> 'a istate_scheme \<Rightarrow> ('a istate_scheme) res" where
  "itrunc sw m ip s =
     bnd (for_each [0..<NDIRECT] (\<lambda>i s.
            if i_addrs (itable s ip) i \<noteq> 0 then
              bnd (bfree sw m (i_dev (itable s ip)) (i_addrs (itable s ip) i) s) (\<lambda>s1.
              Ok (upd_inode ip (\<lambda>n. n\<lparr>i_addrs := (i_addrs n)(i := 0)\<rparr>) s1))
            else Ok s) s) (\<lambda>s1.
     bnd (if i_addrs (itable s1 ip) NDIRECT \<noteq> 0 then
            bnd (bread sw m (i_dev (itable s1 ip)) (i_addrs (itable s1 ip) NDIRECT) s1) (\<lambda>(bp, s2).
            bnd (for_each [0..<NINDIRECT] (\<lambda>j s.
                   let a = get32 (4 * j) (bdata s bp)
                   in if a \<noteq> 0 then bfree sw m (i_dev (itable s ip)) a s else Ok s) s2) (\<lambda>s3.
            bnd (brelse bp s3) (\<lambda>s4.
            bnd (bfree sw m (i_dev (itable s4 ip)) (i_addrs (itable s4 ip) NDIRECT) s4) (\<lambda>s5.
            Ok (upd_inode ip (\<lambda>n. n\<lparr>i_addrs := (i_addrs n)(NDIRECT := 0)\<rparr>) s5)))))
          else Ok s1) (\<lambda>s6.
     iupdate sw m ip (upd_inode ip (\<lambda>n. n\<lparr>i_size := 0\<rparr>) s6)))"

definition iput :: "'a switch \<Rightarrow> nat \<Rightarrow> nat \<Rightarrow> 'a istate_scheme \<Rightarrow> ('a istate_scheme) res" where
  "iput sw m ip s =
     bnd (acquire ItableLock s) (\<lambda>s1.
     bnd (if i_ref (itable s1 ip) = 1 \<and> i_valid (itable s1 ip) \<and> i_nlink (itable s1 ip) = 0 then
            bnd (acquiresleep sw m (inode_lock ip) s1) (\<lambda>s2.
            bnd (release ItableLock s2) (\<lambda>s3.
            bnd (itrunc sw m ip s3) (\<lambda>s4.
            bnd (iupdate sw m ip (upd_inode ip (\<lambda>n. n\<lparr>i_type := 0\<rparr>) s4)) (\<lambda>s5.
            bnd (releasesleep (inode_lock ip) (upd_inode ip (\<lambda>n. n\<lparr>i_valid := False\<rparr>) s5)) (acquire ItableLock)))))
          else Ok s1) (\<lambda>s6.
     release ItableLock (upd_inode ip (\<lambda>n. n\<lparr>i_ref := i_ref n - 1\<rparr>) s6)))"

definition iunlockput :: "'a switch \<Rightarrow> nat \<Rightarrow> nat \<Rightarrow> 'a istate_scheme \<Rightarrow> ('a istate_scheme) res" where
  "iunlockput sw m ip s = bnd (iunlock (Some ip) s) (iput sw m ip)"

text \<open>What \<open>stati\<close> stores; the structure as bytes has four bytes of padding that are not stored.\<close>

record stat =
  st_dev :: u32
  st_ino :: u32
  st_type :: u16
  st_nlink :: u16
  st_size :: u64

definition stati :: "nat \<Rightarrow> 'a istate_scheme \<Rightarrow> stat" where
  "stati ip s = \<lparr>st_dev = i_dev (itable s ip), st_ino = i_inum (itable s ip), st_type = i_type (itable s ip),
     st_nlink = i_nlink (itable s ip), st_size = ucast (i_size (itable s ip))\<rparr>"

text \<open>
  Where \<open>readi\<close> puts the bytes: a user address, a kernel address, or a local variable of the caller, whose new
  content is the list of bytes that \<open>readi\<close> also returns. Where \<open>writei\<close> takes them from, likewise.
\<close>

datatype target = ToUser u64 | ToKernel u64 | ToLocal

datatype source = FromUser u64 | FromKernel u64 | FromLocal "u8 list"

definition copy_to :: "target \<Rightarrow> nat \<Rightarrow> u8 list \<Rightarrow> 'a pstate_scheme \<Rightarrow> (int \<times> 'a pstate_scheme) res" where
  "copy_to dst o' bs s =
     (case dst of ToUser a \<Rightarrow> either_copyout True (a + of_nat o') bs s
      | ToKernel a \<Rightarrow> either_copyout False (a + of_nat o') bs s
      | ToLocal \<Rightarrow> bnd (myproc s) (\<lambda>(_, s1). Ok (0, s1)))"

definition copy_from :: "source \<Rightarrow> nat \<Rightarrow> nat \<Rightarrow> 'a pstate_scheme \<Rightarrow> ((int \<times> u8 list) \<times> 'a pstate_scheme) res" where
  "copy_from src o' len s =
     (case src of FromUser a \<Rightarrow> either_copyin True (a + of_nat o') len s
      | FromKernel a \<Rightarrow> either_copyin False (a + of_nat o') len s
      | FromLocal bs \<Rightarrow> bnd (myproc s) (\<lambda>(_, s1). Ok ((0, get_bytes o' len bs), s1)))"

text \<open>
  The loops of \<open>readi\<close> and \<open>writei\<close>: \<open>k\<close> bytes are left, \<open>tot\<close> are done. The sum of offset and length has been
  checked, so that the counters do not wrap around. The offset reached is part of the result of the second.
\<close>

abbreviation chunk :: "nat \<Rightarrow> nat \<Rightarrow> nat" where
  "chunk k off \<equiv> min k (BSIZE - off mod BSIZE)"

lemma chunk_less: "0 < k \<Longrightarrow> k - chunk k off < k"
proof -
  assume "0 < k"
  moreover have "off mod BSIZE < BSIZE" by (simp add: BSIZE_def)
  ultimately show ?thesis by linarith
qed

function readi_loop :: "'a switch \<Rightarrow> nat \<Rightarrow> nat \<Rightarrow> target \<Rightarrow> nat \<Rightarrow> nat \<Rightarrow> nat \<Rightarrow> u8 list \<Rightarrow> 'a istate_scheme \<Rightarrow>
    ((int \<times> u8 list) \<times> 'a istate_scheme) res" where
  "readi_loop sw m ip dst k tot off acc s =
     (if k = 0 then Ok ((int tot, acc), s)
      else bnd (bmap sw m ip (of_nat (off div BSIZE)) s) (\<lambda>(addr, s1).
        if addr = 0 then Ok ((int tot, acc), s1)
        else bnd (bread sw m (i_dev (itable s1 ip)) addr s1) (\<lambda>(bp, s2).
          let bs = get_bytes (off mod BSIZE) (chunk k off) (bdata s2 bp)
          in bnd (copy_to dst tot bs s2) (\<lambda>(r, s3).
             if r = -1 then bnd (brelse bp s3) (\<lambda>s4. Ok ((-1, acc), s4))
             else bnd (brelse bp s3) (readi_loop sw m ip dst (k - chunk k off) (tot + chunk k off) (off + chunk k off) (acc @ bs))))))"
  by pat_completeness auto
termination
  by (relation "measure (\<lambda>(_, _, _, _, k, _). k)") (simp_all add: chunk_less)

function writei_loop :: "'a switch \<Rightarrow> nat \<Rightarrow> nat \<Rightarrow> source \<Rightarrow> nat \<Rightarrow> nat \<Rightarrow> nat \<Rightarrow> 'a istate_scheme \<Rightarrow>
    ((nat \<times> nat) \<times> 'a istate_scheme) res" where
  "writei_loop sw m ip src k tot off s =
     (if k = 0 then Ok ((tot, off), s)
      else bnd (bmap sw m ip (of_nat (off div BSIZE)) s) (\<lambda>(addr, s1).
        if addr = 0 then Ok ((tot, off), s1)
        else bnd (bread sw m (i_dev (itable s1 ip)) addr s1) (\<lambda>(bp, s2).
          bnd (copy_from src tot (chunk k off) s2) (\<lambda>((r, bs), s3).
            let s4 = upd_data bp (put_bytes (off mod BSIZE) bs) s3
            in if r = -1 then bnd (brelse bp s4) (\<lambda>s5. Ok ((tot, off), s5))
               else bnd (log_write bp s4) (\<lambda>s5.
                    bnd (brelse bp s5) (writei_loop sw m ip src (k - chunk k off) (tot + chunk k off) (off + chunk k off)))))))"
  by pat_completeness auto
termination
  by (relation "measure (\<lambda>(_, _, _, _, k, _). k)") (simp_all add: chunk_less)

declare readi_loop.simps [simp del] writei_loop.simps [simp del]

definition readi :: "'a switch \<Rightarrow> nat \<Rightarrow> nat \<Rightarrow> target \<Rightarrow> u32 \<Rightarrow> u32 \<Rightarrow> 'a istate_scheme \<Rightarrow>
    ((int \<times> u8 list) \<times> 'a istate_scheme) res" where
  "readi sw m ip dst off n s =
     (let size = i_size (itable s ip)
      in if off > size \<or> off + n < off then Ok ((0, []), s)
         else let n' = (if off + n > size then size - off else n)
              in readi_loop sw m ip dst (unat n') 0 (unat off) [] s)"

definition writei :: "'a switch \<Rightarrow> nat \<Rightarrow> nat \<Rightarrow> source \<Rightarrow> u32 \<Rightarrow> u32 \<Rightarrow> 'a istate_scheme \<Rightarrow>
    (int \<times> 'a istate_scheme) res" where
  "writei sw m ip src off n s =
     (if off > i_size (itable s ip) \<or> off + n < off then Ok (-1, s)
      else if unat (off + n) > MAXFILE * BSIZE then Ok (-1, s)
      else bnd (writei_loop sw m ip src (unat n) 0 (unat off) s) (\<lambda>((tot, off'), s1).
        let s2 = (if off' > unat (i_size (itable s1 ip)) then upd_inode ip (\<lambda>nd. nd\<lparr>i_size := of_nat off'\<rparr>) s1 else s1)
        in bnd (iupdate sw m ip s2) (\<lambda>s3. Ok (int tot, s3))))"

section \<open>Directories\<close>

text \<open>
  A name is an array of \<open>DIRSIZ\<close> bytes, a directory entry an inode number of two bytes and a name. The
  comparison is that of \<open>strncmp\<close>; a byte list ends like a string where it ends.
\<close>

primrec strncmp_bytes :: "nat \<Rightarrow> u8 list \<Rightarrow> u8 list \<Rightarrow> int" where
  "strncmp_bytes 0 p q = 0"
| "strncmp_bytes (Suc k) p q =
     (let a = (case p of [] \<Rightarrow> 0 | c # _ \<Rightarrow> c); b = (case q of [] \<Rightarrow> 0 | c # _ \<Rightarrow> c)
      in if a \<noteq> 0 \<and> a = b then strncmp_bytes k (tl p) (tl q) else uint a - uint b)"

definition namecmp :: "u8 list \<Rightarrow> u8 list \<Rightarrow> int" where
  "namecmp s t = strncmp_bytes DIRSIZ s t"

text \<open>\<open>strncpy\<close> of a name: the bytes up to the first NUL, padded with NULs.\<close>

definition strncpy_bytes :: "nat \<Rightarrow> u8 list \<Rightarrow> u8 list" where
  "strncpy_bytes n t = (let c = take n (takeWhile (\<lambda>b. b \<noteq> 0) t) in c @ replicate (n - length c) 0)"

fun dirlookup_loop :: "'a switch \<Rightarrow> nat \<Rightarrow> nat \<Rightarrow> u8 list \<Rightarrow> nat list \<Rightarrow> 'a istate_scheme \<Rightarrow>
    ((nat \<times> u32) option \<times> 'a istate_scheme) res" where
  "dirlookup_loop sw m dp name [] s = Ok (None, s)"
| "dirlookup_loop sw m dp name (k # ks) s =
     (let off = of_nat (16 * k)
      in bnd (readi sw m dp ToLocal off 16 s) (\<lambda>((r, de), s1).
         if r \<noteq> 16 then Err (Panic ''dirlookup read'')
         else if get16 0 de = 0 then dirlookup_loop sw m dp name ks s1
         else if namecmp name (drop 2 de) = 0 then
           bnd (iget (i_dev (itable s1 dp)) (ucast (get16 0 de)) s1) (\<lambda>(ip, s2). Ok (Some (ip, off), s2))
         else dirlookup_loop sw m dp name ks s1))"

text \<open>The inode found and the offset of its entry.\<close>

definition dirlookup :: "'a switch \<Rightarrow> nat \<Rightarrow> nat \<Rightarrow> u8 list \<Rightarrow> 'a istate_scheme \<Rightarrow> ((nat \<times> u32) option \<times> 'a istate_scheme) res" where
  "dirlookup sw m dp name s =
     (if i_type (itable s dp) \<noteq> T_DIR then Err (Panic ''dirlookup not DIR'')
      else dirlookup_loop sw m dp name [0..<(unat (i_size (itable s dp)) + 15) div 16] s)"

text \<open>The offset of the first free entry, or the end of the directory.\<close>

fun dirlink_loop :: "'a switch \<Rightarrow> nat \<Rightarrow> nat \<Rightarrow> nat list \<Rightarrow> nat \<Rightarrow> 'a istate_scheme \<Rightarrow> (nat \<times> 'a istate_scheme) res" where
  "dirlink_loop sw m dp [] off s = Ok (off, s)"
| "dirlink_loop sw m dp (k # ks) off s =
     bnd (readi sw m dp ToLocal (of_nat off) 16 s) (\<lambda>((r, de), s1).
     if r \<noteq> 16 then Err (Panic ''dirlink read'')
     else if get16 0 de = 0 then Ok (off, s1)
     else dirlink_loop sw m dp ks (off + 16) s1)"

definition dirent_bytes :: "u32 \<Rightarrow> u8 list \<Rightarrow> u8 list" where
  "dirent_bytes inum name = put16 0 (ucast inum) (replicate 2 0) @ strncpy_bytes DIRSIZ name"

definition dirlink :: "'a switch \<Rightarrow> nat \<Rightarrow> nat \<Rightarrow> u8 list \<Rightarrow> u32 \<Rightarrow> 'a istate_scheme \<Rightarrow> (int \<times> 'a istate_scheme) res" where
  "dirlink sw m dp name inum s =
     bnd (dirlookup sw m dp name s) (\<lambda>(found, s1).
     case found of Some (ip, _) \<Rightarrow> bnd (iput sw m ip s1) (\<lambda>s2. Ok (-1, s2))
     | None \<Rightarrow>
       bnd (dirlink_loop sw m dp [0..<(unat (i_size (itable s1 dp)) + 15) div 16] 0 s1) (\<lambda>(off, s2).
       bnd (writei sw m dp (FromLocal (dirent_bytes inum name)) (of_nat off) 16 s2) (\<lambda>(r, s3).
       if r \<noteq> 16 then Ok (-1, s3) else Ok (0, s3))))"

section \<open>Paths\<close>

definition slash :: u8 where "slash = 47"

text \<open>
  A path ends at its first NUL or at the end of the list. \<open>skipelem\<close> returns the rest of the path and the name buffer; of a
  short name the bytes after its NUL are left as they were.
\<close>

definition c_str :: "u8 list \<Rightarrow> u8 list" where
  "c_str bs = takeWhile (\<lambda>b. b \<noteq> 0) bs"

definition skipelem :: "u8 list \<Rightarrow> u8 list \<Rightarrow> (u8 list \<times> u8 list) option" where
  "skipelem pth name =
     (let pth = dropWhile (\<lambda>b. b = slash) (c_str pth)
      in if pth = [] then None
         else let elem = takeWhile (\<lambda>b. b \<noteq> slash) pth; rest = dropWhile (\<lambda>b. b \<noteq> slash) pth;
                  name = (if length elem \<ge> DIRSIZ then put_bytes 0 (take DIRSIZ elem) name else put_bytes 0 (elem @ [0]) name)
              in Some (dropWhile (\<lambda>b. b = slash) rest, name))"

lemma skipelem_shorter: "skipelem pth name = Some (pth', name') \<Longrightarrow> length pth' < length pth"
proof -
  assume a: "skipelem pth name = Some (pth', name')"
  let ?p = "dropWhile (\<lambda>b. b = slash) (c_str pth)"
  have ne: "?p \<noteq> []" using a by (auto simp: skipelem_def Let_def split: if_splits)
  have "pth' = dropWhile (\<lambda>b. b = slash) (dropWhile (\<lambda>b. b \<noteq> slash) ?p)" using a unfolding skipelem_def Let_def if_not_P [OF ne] by simp
  then have "length pth' \<le> length (dropWhile (\<lambda>b. b \<noteq> slash) ?p)" by (simp add: length_dropWhile_le)
  moreover have "hd ?p \<noteq> slash" using hd_dropWhile [OF ne] by simp
  then have "length (dropWhile (\<lambda>b. b \<noteq> slash) ?p) < length ?p"
    using ne by (cases ?p) (auto simp: less_Suc_eq_le length_dropWhile_le)
  moreover have "length ?p \<le> length pth"
    using length_dropWhile_le [of "\<lambda>b. b = slash" "c_str pth"] length_takeWhile_le [of "\<lambda>b. b \<noteq> 0" pth] by (simp add: c_str_def)
  ultimately show ?thesis by linarith
qed

function namex_loop :: "'a switch \<Rightarrow> nat \<Rightarrow> u8 list \<Rightarrow> bool \<Rightarrow> u8 list \<Rightarrow> nat \<Rightarrow> 'a istate_scheme \<Rightarrow>
    ((nat option \<times> u8 list) \<times> 'a istate_scheme) res" where
  "namex_loop sw m pth parent name ip s =
     (case skipelem pth name of
        None \<Rightarrow> if parent then bnd (iput sw m ip s) (\<lambda>s1. Ok ((None, name), s1)) else Ok ((Some ip, name), s)
      | Some (pth', name') \<Rightarrow>
        bnd (ilock sw m (Some ip) s) (\<lambda>s1.
        if i_type (itable s1 ip) \<noteq> T_DIR then bnd (iunlockput sw m ip s1) (\<lambda>s2. Ok ((None, name'), s2))
        else if parent \<and> pth' = [] then bnd (iunlock (Some ip) s1) (\<lambda>s2. Ok ((Some ip, name'), s2))
        else bnd (dirlookup sw m ip name' s1) (\<lambda>(found, s2).
          case found of None \<Rightarrow> bnd (iunlockput sw m ip s2) (\<lambda>s3. Ok ((None, name'), s3))
          | Some (next', _) \<Rightarrow> bnd (iunlockput sw m ip s2) (namex_loop sw m pth' parent name' next'))))"
  by pat_completeness auto
termination
  by (relation "measure (\<lambda>(_, _, pth, _). length pth)") (auto intro: skipelem_shorter)

declare namex_loop.simps [simp del]

definition namex :: "'a switch \<Rightarrow> nat \<Rightarrow> u8 list \<Rightarrow> bool \<Rightarrow> u8 list \<Rightarrow> 'a istate_scheme \<Rightarrow>
    ((nat option \<times> u8 list) \<times> 'a istate_scheme) res" where
  "namex sw m pth parent name s =
     bnd (if c_str pth \<noteq> [] \<and> hd pth = slash then iget ROOTDEV ROOTINO s
          else bnd (current s) (\<lambda>(p, s1).
            case p_cwd (procs s1 p) of None \<Rightarrow> Err (Undef ''namex: no current directory'')
            | Some cwd \<Rightarrow> idup cwd s1)) (\<lambda>(ip, s2).
     namex_loop sw m pth parent name ip s2)"

text \<open>The name buffer of \<open>namei\<close> is never read before it is written.\<close>

definition namei :: "'a switch \<Rightarrow> nat \<Rightarrow> u8 list \<Rightarrow> 'a istate_scheme \<Rightarrow> (nat option \<times> 'a istate_scheme) res" where
  "namei sw m pth s =
     bnd (namex sw m pth False (replicate DIRSIZ 0) s) (\<lambda>((ip, _), s1). Ok (ip, s1))"

definition nameiparent :: "'a switch \<Rightarrow> nat \<Rightarrow> u8 list \<Rightarrow> u8 list \<Rightarrow> 'a istate_scheme \<Rightarrow>
    ((nat option \<times> u8 list) \<times> 'a istate_scheme) res" where
  "nameiparent sw m pth name s = namex sw m pth True name s"

end
