(* ===== verification/Balloc.thy ===== *)
theory Balloc
  imports Txn Fs
begin

unbundle bit_operations_syntax

text \<open>
  Allocation of disk blocks in kernel/fs.c: the bitmap as a set of free blocks, \<open>balloc\<close> takes the first of them
  and zeroes it, \<open>bfree\<close> gives a block back.
\<close>

section \<open>Bits of a block\<close>

lemma bit_free_iff: "bit_free bs bi \<longleftrightarrow> \<not> bit (bs ! (bi div 8)) (bi mod 8)"
proof -
  have m: "bi mod 8 < 8" by simp
  have "bs ! (bi div 8) AND bit_mask bi = 0 \<longleftrightarrow> \<not> bit (bs ! (bi div 8)) (bi mod 8)"
  proof
    assume "bs ! (bi div 8) AND bit_mask bi = 0"
    then have "\<not> bit (bs ! (bi div 8) AND bit_mask bi) (bi mod 8)" by simp
    then show "\<not> bit (bs ! (bi div 8)) (bi mod 8)" using m by (simp add: bit_mask_def bit_simps)
  next
    assume "\<not> bit (bs ! (bi div 8)) (bi mod 8)"
    then show "bs ! (bi div 8) AND bit_mask bi = 0"
      by (intro bit_word_eqI) (auto simp: bit_mask_def bit_simps)
  qed
  then show ?thesis by (simp add: bit_free_def)
qed

lemma same_bit: "bi div 8 = bj div 8 \<Longrightarrow> bi mod 8 = bj mod 8 \<Longrightarrow> bi = (bj::nat)"
  by (metis div_mult_mod_eq)

lemma bit_mask_bit: "bit (bit_mask bi) k \<longleftrightarrow> k = bi mod 8" if "k < 8"
  using that by (auto simp: bit_mask_def bit_simps)

lemma bit_free_upd:
  assumes "bi div 8 < length bs" and "\<And>k. k < 8 \<Longrightarrow> bit v k \<longleftrightarrow> (if k = bi mod 8 then x else bit (bs ! (bi div 8)) k)"
  shows "bit_free (bs[bi div 8 := v]) bj \<longleftrightarrow> (if bj = bi then \<not> x else bit_free bs bj)"
proof (cases "bj div 8 = bi div 8")
  case True
  then have "bj mod 8 = bi mod 8 \<longleftrightarrow> bj = bi" using same_bit [of bj bi] by auto
  moreover have "bj mod 8 < 8" by simp
  ultimately show ?thesis using assms True by (simp add: bit_free_iff)
next
  case False
  then show ?thesis by (auto simp: bit_free_iff)
qed

lemma bit_free_set:
  assumes "bi div 8 < length bs"
  shows "bit_free (bs[bi div 8 := bs ! (bi div 8) OR bit_mask bi]) bj \<longleftrightarrow> bit_free bs bj \<and> bj \<noteq> bi"
  by (subst bit_free_upd [OF assms, where x = True]) (auto simp: bit_or_iff bit_mask_bit)

lemma bit_free_clear:
  assumes "bi div 8 < length bs"
  shows "bit_free (bs[bi div 8 := bs ! (bi div 8) AND NOT (bit_mask bi)]) bj \<longleftrightarrow> bit_free bs bj \<or> bj = bi"
  by (subst bit_free_upd [OF assms, where x = False]) (auto simp: bit_and_iff bit_not_iff bit_mask_bit)

section \<open>The bitmap\<close>

abbreviation nblocks :: "'a istate_scheme \<Rightarrow> nat" where
  "nblocks s \<equiv> unat (sb_size (fssb s))"

definition bitmap_blk :: "'a istate_scheme \<Rightarrow> nat \<Rightarrow> u32" where
  "bitmap_blk s b = BBLOCK (of_nat b) (fssb s)"

definition block_free :: "'a istate_scheme \<Rightarrow> nat \<Rightarrow> bool" where
  "block_free s b \<longleftrightarrow> bit_free (blk s (bitmap_blk s b)) (b mod BPB)"

lemma BPB_eq: "BPB = 8192"
  by (simp add: BPB_def BSIZE_def)

lemma div_BPB: "b < 2 ^ 32 \<Longrightarrow> (of_nat b :: u32) div of_nat BPB = of_nat (b div BPB)"
proof -
  assume "b < 2 ^ 32"
  then have "unat ((of_nat b :: u32) div of_nat BPB) = unat (of_nat (b div BPB) :: u32)"
    by (simp add: unat_div unat_of_nat BPB_eq take_bit_nat_eq_self)
  then show ?thesis by (simp add: word_unat_eq_iff)
qed

lemma bitmap_blk_eq: "b < 2 ^ 32 \<Longrightarrow> bitmap_blk s b = of_nat (b div BPB) + sb_bmapstart (fssb s)"
  by (simp add: bitmap_blk_def BBLOCK_def div_BPB)

lemma bitmap_blk_inj:
  assumes "b < 2 ^ 32" and "c < 2 ^ 32" and "bitmap_blk s b = bitmap_blk s c"
  shows "b div BPB = c div BPB"
proof -
  have "(of_nat (b div BPB) :: u32) = of_nat (c div BPB)" using assms by (simp add: bitmap_blk_eq)
  then have "unat (of_nat (b div BPB) :: u32) = unat (of_nat (c div BPB) :: u32)" by simp
  moreover have "b div BPB < 2 ^ 32" "c div BPB < 2 ^ 32" using assms(1,2) div_le_dividend [of b BPB] div_le_dividend [of c BPB] by linarith+
  ultimately show ?thesis by (simp add: unat_of_nat take_bit_nat_eq_self)
qed

lemma lsame_istate:
  fixes s s' :: "'a istate_scheme"
  assumes "lsame p s s'"
  shows "fssb s' = fssb s" "itable s' = itable s"
proof -
  have e: "s' = s\<lparr>procs := procs s', vd := vd s', vwrites := vwrites s', bufs := bufs s',
     slocks := slocks s', sectors := sectors s', dtrace := dtrace s', logs := logs s'\<rparr>" using assms by (simp add: lsame_def)
  show "fssb s' = fssb s" "itable s' = itable s" by (subst e, simp)+
qed

text \<open>
  The layout that \<open>balloc\<close> relies on: bitmap blocks can be used, and a block that the bitmap says is free is neither
  part of the log nor of the bitmap, nor held by anyone.
\<close>

definition bitmap_ok :: "nat \<Rightarrow> nat \<Rightarrow> 'a istate_scheme \<Rightarrow> bool" where
  "bitmap_ok st sz s \<longleftrightarrow> nblocks s < 2 ^ 31 \<and> (\<forall>b<nblocks s. usable st sz s (bitmap_blk s b)) \<and>
     (\<forall>b<nblocks s. block_free s b \<longrightarrow> usable st sz s (of_nat b) \<and> (\<forall>c<nblocks s. bitmap_blk s c \<noteq> of_nat b))"

lemma block_free_cong: "blk s' = blk s \<Longrightarrow> fssb s' = fssb s \<Longrightarrow> block_free s' = block_free s"
  by (simp add: block_free_def bitmap_blk_def fun_eq_iff)

lemma bitmap_ok_cong:
  assumes "blk s' = blk s" "fssb s' = fssb s" "locked_blk s' = locked_blk s"
  shows "bitmap_ok st sz s' = bitmap_ok st sz s"
  using block_free_cong [OF assms(1,2)] assms by (simp add: bitmap_ok_def bitmap_blk_def usable_def)

text \<open>The effect on the free blocks of changing one bit.\<close>

lemma block_free_upd:
  assumes "b < 2 ^ 31" "c < 2 ^ 31" "fssb s' = fssb s" and d: "blk s' (bitmap_blk s c) = ((blk s)(bitmap_blk s b := d)) (bitmap_blk s c)"
    and bit: "\<And>k. bit_free d k \<longleftrightarrow> (if k = b mod BPB then x else bit_free (blk s (bitmap_blk s b)) k)"
  shows "block_free s' c \<longleftrightarrow> (if c = b then x else block_free s c)"
proof -
  have e: "bitmap_blk s' c = bitmap_blk s c" using assms(3) by (simp add: bitmap_blk_def)
  show ?thesis
  proof (cases "bitmap_blk s c = bitmap_blk s b")
    case True
    then have "c div BPB = b div BPB" using bitmap_blk_inj [of c b s] assms(1,2) by simp
    then have "c mod BPB = b mod BPB \<longleftrightarrow> c = b" by (metis div_mult_mod_eq)
    then show ?thesis using bit True d e by (simp add: block_free_def)
  next
    case False
    then show ?thesis using d e by (auto simp: block_free_def)
  qed
qed

section \<open>Searching the bitmap\<close>

lemma find_shift: "find P [a..<a + k] = map_option ((+) a) (find (\<lambda>i. P (a + i)) [0..<k])"
proof -
  have "[a..<a + k] = map ((+) a) [0..<k]" by (induction k) auto
  moreover have "find P (map f xs) = map_option f (find (P \<circ> f) xs)" for f and xs :: "nat list" by (induction xs) auto
  ultimately show ?thesis by (simp add: comp_def)
qed

lemma find_append: "find P (xs @ ys) = (case find P xs of Some x \<Rightarrow> Some x | None \<Rightarrow> find P ys)"
  by (induction xs) auto

lemma find_cong_on: "(\<And>x. x \<in> set xs \<Longrightarrow> P x = Q x) \<Longrightarrow> find P xs = find Q xs"
  by (induction xs) auto

lemma find_group:
  "find P [a..<n] = (case find (\<lambda>i. a + i < n \<and> P (a + i)) [0..<k] of Some i \<Rightarrow> Some (a + i) | None \<Rightarrow> find P [a + k..<n])"
proof (cases "a + k \<le> n")
  case True
  then have "[a..<n] = [a..<a + k] @ [a + k..<n]" by (metis le_add1 upt_add_eq_append le_add_diff_inverse)
  moreover have "find (\<lambda>i. P (a + i)) [0..<k] = find (\<lambda>i. a + i < n \<and> P (a + i)) [0..<k]"
    by (rule find_cong_on) (use True in auto)
  ultimately show ?thesis by (simp add: find_append find_shift split: option.splits)
next
  case False
  then obtain l where l: "l \<le> k" "a + l = n \<or> l = 0 \<and> n < a" by (metis le_add_diff_inverse nat_le_linear nat_less_le add_le_cancel_left not_le zero_le)
  have r: "[0..<k] = [0..<l] @ [l..<k]" using l(1) by (metis le0 upt_add_eq_append le_add_diff_inverse)
  have "find (\<lambda>i. a + i < n \<and> P (a + i)) [l..<k] = None" using l by (auto simp: find_None_iff)
  moreover have "find (\<lambda>i. P (a + i)) [0..<l] = find (\<lambda>i. a + i < n \<and> P (a + i)) [0..<l]"
    by (rule find_cong_on) (use l in auto)
  moreover have "find P [a..<n] = map_option ((+) a) (find (\<lambda>i. P (a + i)) [0..<l])"
    using l(2) find_shift [of P a l] by auto
  ultimately show ?thesis unfolding r using False by (simp add: find_append split: option.splits)
qed

lemma find_block_group:
  assumes "nblocks s < 2 ^ 31" and "g * BPB < nblocks s"
  shows "find (block_free s) [g * BPB..<nblocks s] =
    (case find (\<lambda>bi. g * BPB + bi < nblocks s \<and> bit_free (blk s (bitmap_blk s (g * BPB))) bi) [0..<BPB] of
       Some bi \<Rightarrow> Some (g * BPB + bi) | None \<Rightarrow> find (block_free s) [Suc g * BPB..<nblocks s])"
proof -
  have "find (\<lambda>bi. g * BPB + bi < nblocks s \<and> bit_free (blk s (bitmap_blk s (g * BPB))) bi) [0..<BPB] =
    find (\<lambda>bi. g * BPB + bi < nblocks s \<and> block_free s (g * BPB + bi)) [0..<BPB]"
  proof (rule find_cong_on)
    fix bi assume b: "bi \<in> set [0..<BPB]"
    then have k: "(g * BPB + bi) div BPB = g" "(g * BPB + bi) mod BPB = bi" by auto
    have "bitmap_blk s (g * BPB + bi) = bitmap_blk s (g * BPB)" if "g * BPB + bi < nblocks s"
    proof -
      have "g * BPB + bi < 2 ^ 32" "g * BPB < 2 ^ 32" using that assms by auto
      then show ?thesis using k by (simp add: bitmap_blk_eq BPB_eq)
    qed
    then show "(g * BPB + bi < nblocks s \<and> bit_free (blk s (bitmap_blk s (g * BPB))) bi) =
      (g * BPB + bi < nblocks s \<and> block_free s (g * BPB + bi))" using k by (auto simp: block_free_def)
  qed
  moreover have e: "Suc g * BPB = g * BPB + BPB" by simp
  ultimately show ?thesis unfolding e using find_group [of "block_free s" "g * BPB" "nblocks s" BPB] by simp
qed

section \<open>Allocation\<close>

text \<open>The pattern of \<open>bzero\<close>, \<open>bfree\<close> and \<open>iupdate\<close>: one block is changed.\<close>

lemma modify_block:
  assumes "serves sw" "txn p st sz ns s" "usable st sz s n" "n \<in> set ns \<or> cache_room 1 ns (locked_blk s)" "log_room 1 sz ns s" "length (f (blk s n)) = BSIZE"
  shows "\<exists>s'. bnd (bread sw (Suc m) ROOTDEV n s) (\<lambda>(bp, s1). bnd (log_write bp (upd_data bp f s1)) (brelse bp)) = Ok s' \<and>
    moves p st sz (log_add n ns) ((blk s)(n := f (blk s n))) (locked_blk s) s s'"
  using update_block [where f = f, OF assms, of m] by (auto simp: upd_data_def)

lemma bzero_ok:
  assumes "serves sw" "txn p st sz ns s" "usable st sz s n" "cache_room 1 ns (locked_blk s)" "log_room 1 sz ns s"
  shows "\<exists>s'. bzero sw (Suc m) ROOTDEV n s = Ok s' \<and> moves p st sz (log_add n ns) ((blk s)(n := replicate BSIZE 0)) (locked_blk s) s s'"
  unfolding bzero_def using modify_block [where f = "\<lambda>_. replicate BSIZE 0" and m = m, OF assms(1-3) _ assms(5)] assms(4) by simp

text \<open>The blocks after block \<open>b\<close> was allocated.\<close>

definition bitmap_set :: "nat \<Rightarrow> u8 list \<Rightarrow> u8 list" where
  "bitmap_set bi bs = bs[bi div 8 := bs ! (bi div 8) OR bit_mask bi]"

definition allocated :: "'a istate_scheme \<Rightarrow> nat \<Rightarrow> u32 \<Rightarrow> u8 list" where
  "allocated s b = (blk s)(bitmap_blk s b := bitmap_set (b mod BPB) (blk s (bitmap_blk s b)), of_nat b := replicate BSIZE 0)"

abbreviation alloc_log :: "'a istate_scheme \<Rightarrow> nat \<Rightarrow> u32 list \<Rightarrow> u32 list" where
  "alloc_log s b ns \<equiv> log_add (of_nat b) (log_add (bitmap_blk s b) ns)"

lemma length_bitmap_set [simp]: "length (bitmap_set bi bs) = length bs"
  by (simp add: bitmap_set_def)

lemma group_of:
  assumes "g * BPB + bi < nblocks s" and "bi < BPB" and "nblocks s < 2 ^ 31"
  shows "bitmap_blk s (g * BPB + bi) = bitmap_blk s (g * BPB)" "(g * BPB + bi) mod BPB = bi"
proof -
  have "(g * BPB + bi) div BPB = g" using assms(2) by simp
  moreover have "g * BPB + bi < 2 ^ 32" "g * BPB < 2 ^ 32" using assms by auto
  ultimately show "bitmap_blk s (g * BPB + bi) = bitmap_blk s (g * BPB)" by (simp add: bitmap_blk_eq BPB_eq)
  show "(g * BPB + bi) mod BPB = bi" using assms(2) by simp
qed

lemma balloc_found:
  assumes sv: "serves sw" and t: "txn p st sz ns s" and ok: "bitmap_ok st sz s" and c: "cache_room 2 ns (locked_blk s)" and r: "log_room 2 sz ns s"
    and g: "g * BPB < nblocks s"
    and f: "find (\<lambda>bi. g * BPB + bi < nblocks s \<and> bit_free (blk s (bitmap_blk s (g * BPB))) bi) [0..<BPB] = Some bi"
  shows "\<exists>s'. balloc_loop sw (Suc m) ROOTDEV (g # gs) s = Ok (of_nat (g * BPB + bi), s') \<and>
    moves p st sz (alloc_log s (g * BPB + bi) ns) (allocated s (g * BPB + bi)) (locked_blk s) s s'"
proof -
  let ?b = "g * BPB + bi" and ?n = "bitmap_blk s (g * BPB)"
  have N: "nblocks s < 2 ^ 31" using ok by (simp add: bitmap_ok_def)
  have bi: "bi < BPB" "?b < nblocks s" "bit_free (blk s ?n) bi" using find_SomeD [OF f] by auto
  note go = group_of [OF bi(2,1) N]
  have un: "usable st sz s ?n" using ok g by (simp add: bitmap_ok_def)
  have fb: "block_free s ?b" using bi(3) go by (simp add: block_free_def)
  have ub: "usable st sz s (of_nat ?b)" "?n \<noteq> of_nat ?b" using ok bi(2) fb g unfolding bitmap_ok_def by blast+
  have len': "length (bitmap_set bi (blk s ?n)) = BSIZE" using blk_length [OF txnD(2) [OF t]] un by (simp add: usable_def)
  have pr: "?n \<in> set ns \<or> cache_room 1 ns (locked_blk s)" using cache_room_mono [OF c, of 1] by simp
  obtain i s1 s2 s3 where
    b1: "bread sw (Suc m) ROOTDEV ?n s = Ok (i, s1)" "b_data (bufs s1 i) = blk s ?n" and m1: "moves p st sz ns (blk s) ((locked_blk s)(?n := True)) s s1"
    and w: "log_write i (upd_buf i (\<lambda>bf. bf\<lparr>b_data := bitmap_set bi (b_data bf)\<rparr>) s1) = Ok s2" and b3: "brelse i s2 = Ok s3"
    and m3: "moves p st sz (log_add ?n ns) ((blk s)(?n := bitmap_set bi (blk s ?n))) (locked_blk s) s s3"
    using update_block [where f = "bitmap_set bi" and m = m, OF sv t un pr _ len'] log_room_mono [OF r, of 1] by auto
  have fs1: "fssb s1 = fssb s" by (rule lsame_istate(1) [OF movesD(2) [OF m1]])
  have u3: "usable st sz s3 (of_nat ?b)" using ub(1) by (simp add: usable_def movesD(4) [OF m3])
  have room: "cache_room 1 (log_add ?n ns) (locked_blk s)" "log_room 1 sz (log_add ?n ns) s3"
    using cache_room_add [of 1 ns] log_room_add [of 1 sz ns s] log_room_moves [OF m3] c r by (simp_all add: numeral_2_eq_2)
  obtain s4 where z: "bzero sw (Suc m) ROOTDEV (of_nat ?b) s3 = Ok s4"
    and m4: "moves p st sz (log_add (of_nat ?b) (log_add ?n ns)) (((blk s)(?n := bitmap_set bi (blk s ?n)))(of_nat ?b := replicate BSIZE 0)) (locked_blk s) s3 s4"
    using bzero_ok [OF sv movesD(1) [OF m3] u3, of m] room unfolding movesD(3,4) [OF m3] by blast
  have bl: "\<not> 2 ^ 31 \<le> g * BPB" using g N by simp
  have "balloc_loop sw (Suc m) ROOTDEV (g # gs) s = Ok (of_nat ?b, s4)"
    using bl b1 fs1 f w b3 z by (simp add: Let_def bitmap_blk_def [symmetric] upd_data_def bitmap_set_def del: of_nat_mult of_nat_add)
  moreover have "moves p st sz (alloc_log s ?b ns) (allocated s ?b) (locked_blk s) s s4"
    using moves_trans [OF m3 m4] unfolding allocated_def go by simp
  ultimately show ?thesis by blast
qed

lemma balloc_skip:
  assumes sv: "serves sw" and t: "txn p st sz ns s" and ok: "bitmap_ok st sz s" and c: "cache_room 2 ns (locked_blk s)"
    and g: "g * BPB < nblocks s"
    and f: "find (\<lambda>bi. g * BPB + bi < nblocks s \<and> bit_free (blk s (bitmap_blk s (g * BPB))) bi) [0..<BPB] = None"
  shows "\<exists>s'. balloc_loop sw (Suc m) ROOTDEV (g # gs) s = balloc_loop sw (Suc m) ROOTDEV gs s' \<and> moves p st sz ns (blk s) (locked_blk s) s s'"
proof -
  let ?n = "bitmap_blk s (g * BPB)"
  have u: "?n < 2 ^ 31" "\<not> locked_blk s ?n" "nblocks s < 2 ^ 31" using ok g by (auto simp: bitmap_ok_def usable_def)
  obtain i s1 s2 where b1: "bread sw (Suc m) ROOTDEV ?n s = Ok (i, s1)" "b_data (bufs s1 i) = blk s ?n"
    and m1: "moves p st sz ns (blk s) ((locked_blk s)(?n := True)) s s1" and b2: "brelse i s1 = Ok s2" and m2: "moves p st sz ns (blk s) (locked_blk s) s s2"
    using read_block [OF sv t u(1,2), of m] cache_room_mono [OF c, of 1] by auto
  have fs1: "fssb s1 = fssb s" by (rule lsame_istate(1) [OF movesD(2) [OF m1]])
  have "balloc_loop sw (Suc m) ROOTDEV (g # gs) s = balloc_loop sw (Suc m) ROOTDEV gs s2"
    using g u(3) b1 fs1 f b2 by (simp add: Let_def bitmap_blk_def [symmetric] del: of_nat_mult)
  then show ?thesis using m2 by blast
qed

definition ngroups :: "'a istate_scheme \<Rightarrow> nat" where
  "ngroups s = (nblocks s + BPB - 1) div BPB"

lemma ngroups_less: "g < ngroups s \<longleftrightarrow> g * BPB < nblocks s"
proof -
  have "g < (n + 8192 - 1) div 8192 \<longleftrightarrow> g * 8192 < n" for n :: nat by linarith
  then show ?thesis by (simp add: ngroups_def BPB_eq)
qed

lemma balloc_loop_spec:
  assumes sv: "serves sw" and "txn p st sz ns s" "bitmap_ok st sz s" "cache_room 2 ns (locked_blk s)" "log_room 2 sz ns s"
  shows "case find (block_free s) [g * BPB..<nblocks s] of
      Some b \<Rightarrow> \<exists>s'. balloc_loop sw (Suc m) ROOTDEV [g..<ngroups s] s = Ok (of_nat b, s') \<and>
        moves p st sz (alloc_log s b ns) (allocated s b) (locked_blk s) s s'
    | None \<Rightarrow> \<exists>s'. balloc_loop sw (Suc m) ROOTDEV [g..<ngroups s] s = balloc_loop sw (Suc m) ROOTDEV [] s' \<and>
        moves p st sz ns (blk s) (locked_blk s) s s'"
  using assms(2-)
proof (induction "ngroups s - g" arbitrary: g s)
  case 0
  then have "[g..<ngroups s] = []" "[g * BPB..<nblocks s] = []" using ngroups_less [of g s] by auto
  then show ?case using moves_refl [OF 0(2)] by auto
next
  case (Suc k)
  then have l: "g < ngroups s" by simp
  then have g: "g * BPB < nblocks s" and gs: "[g..<ngroups s] = g # [Suc g..<ngroups s]" by (simp_all add: ngroups_less upt_conv_Cons)
  have N: "nblocks s < 2 ^ 31" using Suc.prems(2) by (simp add: bitmap_ok_def)
  note sp = find_block_group [OF N g]
  show ?case
  proof (cases "find (\<lambda>bi. g * BPB + bi < nblocks s \<and> bit_free (blk s (bitmap_blk s (g * BPB))) bi) [0..<BPB]")
    case (Some bi)
    then show ?thesis using balloc_found [OF sv Suc.prems g Some, of m] gs sp by (simp del: of_nat_mult of_nat_add balloc_loop.simps)
  next
    case None
    then obtain s1 where s1: "balloc_loop sw (Suc m) ROOTDEV (g # [Suc g..<ngroups s]) s = balloc_loop sw (Suc m) ROOTDEV [Suc g..<ngroups s] s1"
      and m1: "moves p st sz ns (blk s) (locked_blk s) s s1"
      using balloc_skip [OF sv Suc.prems(1-3) g None] by blast
    note md = movesD [OF m1] and fs = lsame_istate(1) [OF movesD(2) [OF m1]]
    have same: "ngroups s1 = ngroups s" "nblocks s1 = nblocks s" "block_free s1 = block_free s" "allocated s1 = allocated s" "bitmap_blk s1 = bitmap_blk s"
      using block_free_cong [OF md(3) fs] fs md(3) by (simp_all add: ngroups_def bitmap_blk_def allocated_def fun_eq_iff)
    have ok1: "bitmap_ok st sz s1" using Suc.prems(2) bitmap_ok_cong [OF md(3) fs md(4)] by simp
    have k: "k = ngroups s1 - Suc g" using Suc.hyps(2) same by simp
    have tr: "moves p st sz ns' B (locked_blk s) s s2" if "moves p st sz ns' B (locked_blk s) s1 s2" for ns' B s2
      by (rule moves_trans [OF m1 that]) simp
    have "find (block_free s) [g * BPB..<nblocks s] = find (block_free s) [Suc g * BPB..<nblocks s]" using sp None by simp
    then show ?thesis
      using Suc.hyps(1) [OF k md(1) ok1] Suc.prems(3,4) unfolding md(3,4) same gs s1 log_room_moves [OF m1] by (auto split: option.splits dest!: tr)
  qed
qed

lemma balloc_ok:
  assumes "serves sw" and "txn p st sz ns s" and "bitmap_ok st sz s" and "cache_room 2 ns (locked_blk s)" and "log_room 2 sz ns s"
    and "find (block_free s) [0..<nblocks s] = Some b"
  shows "\<exists>s'. balloc sw (Suc m) ROOTDEV s = Ok (of_nat b, s') \<and> moves p st sz (alloc_log s b ns) (allocated s b) (locked_blk s) s s'"
  using balloc_loop_spec [where g = 0 and m = m, OF assms(1-5)] assms(6) by (simp add: balloc_def ngroups_def)

definition out_of_blocks :: "u8 list" where
  "out_of_blocks = bytes (''balloc: out of blocks'' @ [CHR 0x0A])"

lemma render_out_of_blocks: "render out_of_blocks [] = Some out_of_blocks"
  by (simp add: out_of_blocks_def bytes_def)

lemma blk_said: "blk (s\<lparr>uart_out := x\<rparr>) = blk s"
  by (rule ext) (simp add: blk_def buf_of_def cong: option.case_cong)

lemma balloc_full:
  assumes "serves sw" and "txn p st sz ns s" and "bitmap_ok st sz s" and "cache_room 2 ns (locked_blk s)" and "log_room 2 sz ns s"
    and "find (block_free s) [0..<nblocks s] = None" and "\<not> panicked s" "pr_locking s"
  shows "\<exists>s1. balloc sw (Suc m) ROOTDEV s = Ok (0, s1\<lparr>uart_out := uart_out s @ out_of_blocks\<rparr>) \<and> moves p st sz ns (blk s) (locked_blk s) s s1"
proof -
  obtain s1 where r: "balloc sw (Suc m) ROOTDEV s = balloc_loop sw (Suc m) ROOTDEV [] s1" and m: "moves p st sz ns (blk s) (locked_blk s) s s1"
    using balloc_loop_spec [where g = 0 and m = m, OF assms(1-5)] assms(6) by (auto simp: balloc_def ngroups_def)
  have e: "s1 = s\<lparr>procs := procs s1, vd := vd s1, vwrites := vwrites s1, bufs := bufs s1,
     slocks := slocks s1, sectors := sectors s1, dtrace := dtrace s1, logs := logs s1\<rparr>" using movesD(2) [OF m] by (simp add: lsame_def)
  have o: "panicked s1 = panicked s" "pr_locking s1 = pr_locking s" "uart_out s1 = uart_out s" by (subst e, simp)+
  note al = alone_simps [OF txnD(1) [OF movesD(1) [OF m]]]
  have "printf (''balloc: out of blocks'' @ [CHR 0x0A]) [] s1 = Ok (s1\<lparr>cpus := bumped (cpus s1) (hart s1), uart_out := uart_out s1 @ out_of_blocks\<rparr>)"
    by (rule printf_locked) (use render_out_of_blocks al o assms(7,8) in \<open>simp_all add: out_of_blocks_def\<close>)
  then show ?thesis using r m al(6) o(3) by auto
qed

text \<open>What the allocation means for the bitmap.\<close>

lemma allocated_free:
  assumes ok: "bitmap_ok st sz s" "cache_ok s" and b: "b < nblocks s" "block_free s b" and c: "c < nblocks s"
    and s': "blk s' = allocated s b" "fssb s' = fssb s"
  shows "block_free s' c \<longleftrightarrow> block_free s c \<and> c \<noteq> b"
proof -
  have n: "b < 2 ^ 31" "c < 2 ^ 31" using ok(1) b c by (auto simp: bitmap_ok_def)
  have "bitmap_blk s b < 2 ^ 31" "bitmap_blk s c \<noteq> of_nat b" using ok(1) b c by (auto simp: bitmap_ok_def usable_def)
  then have "b mod BPB div 8 < length (blk s (bitmap_blk s b))" and
    e: "blk s' (bitmap_blk s c) = ((blk s)(bitmap_blk s b := bitmap_set (b mod BPB) (blk s (bitmap_blk s b)))) (bitmap_blk s c)"
    using blk_length [OF ok(2), of "bitmap_blk s b"] s'(1) by (simp_all add: allocated_def BPB_def BSIZE_def less_mult_imp_div_less)
  from bit_free_set [OF this(1)] have "block_free s' c \<longleftrightarrow> (if c = b then False else block_free s c)"
    by (intro block_free_upd [OF n s'(2) e]) (auto simp: bitmap_set_def)
  then show ?thesis by auto
qed

text \<open>C12: \<open>balloc\<close> returns the first block that the bitmap says is free. Afterwards exactly this block is no longer free and it
  holds zeroes; no other block has changed, apart from the bitmap block that records the allocation.
  If no block is free, it returns 0, changes no block and says so on the console.\<close>

theorem balloc_allocates:
  assumes "serves sw" and "txn p st sz ns s" and "bitmap_ok st sz s" and "cache_room 2 ns (locked_blk s)" and "log_room 2 sz ns s"
    and "\<not> panicked s" and "pr_locking s"
  shows "case find (block_free s) [0..<nblocks s] of
      Some b \<Rightarrow> \<exists>s'. balloc sw (Suc m) ROOTDEV s = Ok (of_nat b, s') \<and> blk s' (of_nat b) = replicate BSIZE 0 \<and>
        (\<forall>c<nblocks s. block_free s' c \<longleftrightarrow> block_free s c \<and> c \<noteq> b) \<and>
        (\<forall>n. n \<noteq> of_nat b \<and> n \<noteq> bitmap_blk s b \<longrightarrow> blk s' n = blk s n) \<and> itable s' = itable s
    | None \<Rightarrow> \<exists>s'. balloc sw (Suc m) ROOTDEV s = Ok (0, s') \<and> blk s' = blk s \<and> itable s' = itable s \<and>
        uart_out s' = uart_out s @ bytes (''balloc: out of blocks'' @ [CHR 0x0A])"
proof (cases "find (block_free s) [0..<nblocks s]")
  case (Some b)
  then have b: "b < nblocks s" "block_free s b" by (auto dest: find_SomeD)
  obtain s' where r: "balloc sw (Suc m) ROOTDEV s = Ok (of_nat b, s')" and m: "moves p st sz (alloc_log s b ns) (allocated s b) (locked_blk s) s s'"
    using balloc_ok [OF assms(1-5) Some] by blast
  note md = movesD [OF m] and ls = lsame_istate [OF movesD(2) [OF m]]
  have "block_free s' c \<longleftrightarrow> block_free s c \<and> c \<noteq> b" if "c < nblocks s" for c
    by (rule allocated_free [OF assms(3) txnD(2) [OF assms(2)] b that md(3) ls(1)])
  then show ?thesis using Some r ls(2) md(3) by (auto simp: allocated_def)
next
  case None
  obtain s1 where r: "balloc sw (Suc m) ROOTDEV s = Ok (0, s1\<lparr>uart_out := uart_out s @ out_of_blocks\<rparr>)" and m: "moves p st sz ns (blk s) (locked_blk s) s s1"
    using balloc_full [OF assms(1-5) None assms(6,7)] by blast
  then show ?thesis using None lsame_istate(2) [OF movesD(2) [OF m]] movesD(3) [OF m] by (simp add: blk_said out_of_blocks_def)
qed

end
