(* ===== verification/Content.thy ===== *)
theory Content
  imports Balloc
begin

unbundle bit_operations_syntax

text \<open>
  The content of a file in kernel/fs.c: the blocks an inode names, directly and through its indirect block, and the bytes in them.
  \<open>readi\<close> returns exactly the bytes of the file in the range asked for.
\<close>

section \<open>Blocks of a file\<close>

definition fblock :: "'a istate_scheme \<Rightarrow> nat \<Rightarrow> nat \<Rightarrow> u32" where
  "fblock s ip k = (if k < NDIRECT then i_addrs (itable s ip) k
     else if i_addrs (itable s ip) NDIRECT = 0 then 0
     else get32 (4 * (k - NDIRECT)) (blk s (i_addrs (itable s ip) NDIRECT)))"

abbreviation fsize :: "'a istate_scheme \<Rightarrow> nat \<Rightarrow> nat" where
  "fsize s ip \<equiv> unat (i_size (itable s ip))"

text \<open>Byte \<open>i\<close> of the file is byte \<open>i mod BSIZE\<close> of its block \<open>i div BSIZE\<close>.\<close>

definition file_byte :: "'a istate_scheme \<Rightarrow> nat \<Rightarrow> nat \<Rightarrow> u8" where
  "file_byte s ip i = blk s (fblock s ip (i div BSIZE)) ! (i mod BSIZE)"

definition file_bytes :: "'a istate_scheme \<Rightarrow> nat \<Rightarrow> u8 list" where
  "file_bytes s ip = map (file_byte s ip) [0..<fsize s ip]"

text \<open>A block that can be read, and an inode all of whose blocks up to its size are there.\<close>

definition readable_blk :: "'a istate_scheme \<Rightarrow> u32 \<Rightarrow> bool" where
  "readable_blk s a \<longleftrightarrow> a \<noteq> 0 \<and> a < 2 ^ 31 \<and> \<not> locked_blk s a"

definition mapped :: "'a istate_scheme \<Rightarrow> nat \<Rightarrow> nat \<Rightarrow> bool" where
  "mapped s ip k \<longleftrightarrow> k < MAXFILE \<and> readable_blk s (fblock s ip k) \<and> (NDIRECT \<le> k \<longrightarrow> readable_blk s (i_addrs (itable s ip) NDIRECT))"

definition file_ok :: "'a istate_scheme \<Rightarrow> nat \<Rightarrow> bool" where
  "file_ok s ip \<longleftrightarrow> i_dev (itable s ip) = ROOTDEV \<and> (\<forall>k. k * BSIZE < fsize s ip \<longrightarrow> mapped s ip k)"

lemma moves_fs:
  fixes s s' :: "'a istate_scheme"
  assumes "moves p st sz ns (blk s) (locked_blk s) s s'"
  shows "itable s' = itable s" "fssb s' = fssb s" "fblock s' = fblock s" "mapped s' = mapped s" "file_ok s' = file_ok s" "file_bytes s' = file_bytes s" "file_byte s' = file_byte s"
proof -
  note md = movesD [OF assms] and ls = lsame_istate [OF movesD(2) [OF assms]]
  show i: "itable s' = itable s" "fssb s' = fssb s" by (simp_all add: ls)
  show f: "fblock s' = fblock s" by (simp add: fblock_def i md(3) fun_eq_iff)
  show m: "mapped s' = mapped s" by (simp add: mapped_def readable_blk_def f i md(4) fun_eq_iff)
  show "file_ok s' = file_ok s" by (simp add: file_ok_def m i fun_eq_iff)
  show "file_bytes s' = file_bytes s" "file_byte s' = file_byte s" by (simp_all add: file_bytes_def file_byte_def f i md(3) fun_eq_iff)
qed

lemma blk_itable [simp]: "blk (s\<lparr>itable := it\<rparr>) = blk s"
  by (rule ext) (simp add: blk_def buf_of_def cong: option.case_cong)

lemma bmap_mapped:
  assumes sv: "serves sw" and t: "txn p st sz ns s" and c: "cache_room 1 ns (locked_blk s)" and mp: "mapped s ip k" and d: "i_dev (itable s ip) = ROOTDEV"
  shows "\<exists>s'. bmap sw (Suc m) ip (of_nat k) s = Ok (fblock s ip k, s') \<and> moves p st sz ns (blk s) (locked_blk s) s s'"
proof -
  have k: "k < MAXFILE" "fblock s ip k \<noteq> 0" using mp by (auto simp: mapped_def readable_blk_def)
  have u: "unat (of_nat k :: u32) = k" using k(1) by (simp add: MAXFILE_def NDIRECT_def NINDIRECT_def BSIZE_def unat_of_nat take_bit_nat_eq_self)
  show ?thesis
  proof (cases "k < NDIRECT")
    case True
    then show ?thesis using k u moves_refl [OF t] by (auto simp: bmap_def fblock_def Let_def)
  next
    case False
    let ?a = "i_addrs (itable s ip) NDIRECT"
    have a: "?a \<noteq> 0" "?a < 2 ^ 31" "\<not> locked_blk s ?a" using mp False by (auto simp: mapped_def readable_blk_def)
    have ki: "k - NDIRECT < NINDIRECT" using k(1) False by (simp add: MAXFILE_def)
    obtain i s1 s2 where b: "bread sw (Suc m) ROOTDEV ?a s = Ok (i, s1)" "b_data (bufs s1 i) = blk s ?a" "brelse i s1 = Ok s2"
      and m: "moves p st sz ns (blk s) (locked_blk s) s s2"
      using read_block [OF sv t a(2,3), of m] c by auto
    have "bmap sw (Suc m) ip (of_nat k) s = Ok (fblock s ip k, s2)"
      using False ki a(1) b k(2) d by (simp add: bmap_def u fblock_def Let_def)
    then show ?thesis using m by blast
  qed
qed

section \<open>Reading\<close>

text \<open>A chunk of a block is a range of the file.\<close>

lemma div_mod_chunk:
  assumes "i < chunk k off"
  shows "(off + i) div BSIZE = off div BSIZE" "(off + i) mod BSIZE = off mod BSIZE + i"
proof -
  have l: "off mod BSIZE + i < BSIZE" using assms by linarith
  have "off + i = off div BSIZE * BSIZE + (off mod BSIZE + i)" by simp
  then show "(off + i) div BSIZE = off div BSIZE" "(off + i) mod BSIZE = off mod BSIZE + i"
    using l by (metis div_less add.right_neutral div_mult_self3 gr_implies_not0, metis mod_less mod_mult_self3)
qed

lemma chunk_bytes:
  assumes "length (blk s (fblock s ip (off div BSIZE))) = BSIZE"
  shows "get_bytes (off mod BSIZE) (chunk k off) (blk s (fblock s ip (off div BSIZE))) = map (file_byte s ip) [off..<off + chunk k off]"
  by (rule nth_equalityI) (auto simp: get_bytes_def assms file_byte_def div_mod_chunk)

lemma copy_local: "alone p s \<Longrightarrow> copy_to ToLocal o' bs s = Ok (0, s)"
  by (simp add: copy_to_def alone_simps)

lemma readi_loop_spec:
  assumes sv: "serves sw"
  shows "\<lbrakk>txn p st sz ns s; cache_room 1 ns (locked_blk s); file_ok s ip; off + k \<le> fsize s ip\<rbrakk> \<Longrightarrow>
    \<exists>s'. readi_loop sw (Suc m) ip ToLocal k tot off acc s = Ok ((int (tot + k), acc @ map (file_byte s ip) [off..<off + k]), s') \<and>
      moves p st sz ns (blk s) (locked_blk s) s s'"
proof (induction k arbitrary: tot off acc s rule: less_induct)
  case (less k)
  show ?case
  proof (cases "k = 0")
    case True
    then show ?thesis using moves_refl [OF less.prems(1)] by (simp add: readi_loop.simps)
  next
    case False
    let ?c = "chunk k off" and ?n = "fblock s ip (off div BSIZE)"
    have "off div BSIZE * BSIZE < fsize s ip" using less.prems(4) False by (metis add_less_cancel_left div_times_less_eq_dividend gr0I le_trans less_add_same_cancel1 order_le_less_trans order_less_le_trans)
    then have mp: "mapped s ip (off div BSIZE)" and d: "i_dev (itable s ip) = ROOTDEV" using less.prems(3) by (auto simp: file_ok_def)
    have n: "?n \<noteq> 0" "?n < 2 ^ 31" "\<not> locked_blk s ?n" using mp by (auto simp: mapped_def readable_blk_def)
    obtain s1 where b: "bmap sw (Suc m) ip (of_nat (off div BSIZE)) s = Ok (?n, s1)" and m1: "moves p st sz ns (blk s) (locked_blk s) s s1"
      using bmap_mapped [OF sv less.prems(1,2) mp d, of m] by blast
    note e1 = moves_fs [OF m1] movesD(3,4) [OF m1]
    obtain bp s2 s3 where r: "bread sw (Suc m) ROOTDEV ?n s1 = Ok (bp, s2)" "b_data (bufs s2 bp) = blk s ?n" "brelse bp s2 = Ok s3"
      and m2: "moves p st sz ns (blk s1) ((locked_blk s1)(?n := True)) s1 s2" and m3: "moves p st sz ns (blk s1) (locked_blk s1) s1 s3"
      using read_block [OF sv movesD(1) [OF m1] n(2), of m] n(3) less.prems(2) by (auto simp: e1)
    have a2: "alone p s2" using txnD(1) [OF movesD(1) [OF m2]] .
    have m13: "moves p st sz ns (blk s) (locked_blk s) s s3"
      using moves_trans [OF m1 m3] by (simp add: e1)
    note e3 = moves_fs [OF m13] movesD(3,4) [OF m13]
    have len: "length (blk s ?n) = BSIZE" using blk_length [of s ?n] txnD(2) [OF less.prems(1)] n(2) by simp
    have k: "?c + (k - ?c) = k" by simp
    have lt: "k - ?c < k" using chunk_less [of k off] False by simp
    obtain s' where l: "readi_loop sw (Suc m) ip ToLocal (k - ?c) (tot + ?c) (off + ?c) (acc @ map (file_byte s ip) [off..<off + ?c]) s3
        = Ok ((int (tot + ?c + (k - ?c)), (acc @ map (file_byte s ip) [off..<off + ?c]) @ map (file_byte s ip) [off + ?c..<off + ?c + (k - ?c)]), s')"
      and m4: "moves p st sz ns (blk s) (locked_blk s) s3 s'"
      using less.IH [OF lt, of s3 "off + ?c" "tot + ?c" "acc @ map (file_byte s ip) [off..<off + ?c]"] movesD(1) [OF m13] less.prems(2-4)
      by (auto simp: e3)
    have up: "[off..<off + k] = [off..<off + ?c] @ [off + ?c..<off + k]" using upt_add_eq_append [of off "off + ?c" "k - ?c"] by (simp add: add.assoc)
    have "readi_loop sw (Suc m) ip ToLocal k tot off acc s = Ok ((int (tot + k), acc @ map (file_byte s ip) [off..<off + k]), s')"
      unfolding readi_loop.simps [of _ _ _ _ k]
      using False l by (simp add: b n r e1 d copy_local [OF a2] chunk_bytes [OF len] up Let_def add.assoc)
    then show ?thesis using moves_trans [OF m13 m4] by blast
  qed
qed

lemma file_slice: "take k (drop off (file_bytes s ip)) = map (file_byte s ip) [off..<min (off + k) (fsize s ip)]"
  by (rule nth_equalityI) (auto simp: file_bytes_def)

definition file_range :: "'a istate_scheme \<Rightarrow> nat \<Rightarrow> u32 \<Rightarrow> u32 \<Rightarrow> u8 list" where
  "file_range s ip off n = (if unat off + unat n < 2 ^ 32 then take (unat n) (drop (unat off) (file_bytes s ip)) else [])"

lemma readi_local:
  assumes sv: "serves sw" and t: "txn p st sz ns s" and c: "cache_room 1 ns (locked_blk s)" and f: "file_ok s ip"
  shows "\<exists>s'. readi sw (Suc m) ip ToLocal off n s = Ok ((int (length (file_range s ip off n)), file_range s ip off n), s') \<and>
    moves p st sz ns (blk s) (locked_blk s) s s'"
proof -
  have nw: "off + n < off \<longleftrightarrow> \<not> unat off + unat n < 2 ^ 32" using no_olen_add_nat [of off n] linorder_not_le [of off "off + n"] by simp
  show ?thesis
  proof (cases "off > i_size (itable s ip) \<or> off + n < off")
    case True
    then have e: "file_range s ip off n = []" using nw by (auto simp: file_range_def file_slice word_less_nat_alt)
    show ?thesis unfolding e using True moves_refl [OF t] by (auto simp: readi_def)
  next
    case False
    then have u: "unat off \<le> fsize s ip" "unat off + unat n < 2 ^ 32" "unat (off + n) = unat off + unat n"
      using nw unat_add_lem [of off n] by (auto simp: word_less_nat_alt)
    define n' where "n' = (if off + n > i_size (itable s ip) then i_size (itable s ip) - off else n)"
    have n': "unat n' = min (unat off + unat n) (fsize s ip) - unat off"
      using u by (auto simp: n'_def word_less_nat_alt unat_sub word_le_nat_alt)
    have "file_range s ip off n = map (file_byte s ip) [unat off..<unat off + unat n']" using u by (simp add: file_range_def file_slice n')
    moreover obtain s' where "readi_loop sw (Suc m) ip ToLocal (unat n') 0 (unat off) [] s =
        Ok ((int (0 + unat n'), [] @ map (file_byte s ip) [unat off..<unat off + unat n']), s')" "moves p st sz ns (blk s) (locked_blk s) s s'"
      using readi_loop_spec [OF sv t c f, of "unat off" "unat n'" m 0 "[]"] u n' by auto
    ultimately show ?thesis using False unfolding readi_def Let_def n'_def [symmetric] by auto
  qed
qed


end
