(* ===== verification/Dir.thy ===== *)
theory Dir
  imports Content
begin

unbundle bit_operations_syntax

text \<open>
  Directories and paths of kernel/fs.c: \<open>dirlookup\<close> finds the first entry with the name and gives a reference to its inode, and
  \<open>skipelem\<close> takes a path apart into its components.
\<close>

section \<open>References to inodes\<close>

text \<open>The slot \<open>iget\<close> uses: the one that holds the inode, otherwise the first free one.\<close>

definition inode_slot :: "u32 \<Rightarrow> u32 \<Rightarrow> (nat \<Rightarrow> inode) \<Rightarrow> nat option" where
  "inode_slot dev inum it =
     (case find (\<lambda>i. i_ref (it i) > 0 \<and> i_dev (it i) = dev \<and> i_inum (it i) = inum) [0..<NINODE] of
        Some i \<Rightarrow> Some i | None \<Rightarrow> find (\<lambda>i. i_ref (it i) = 0) [0..<NINODE])"

definition referenced :: "u32 \<Rightarrow> u32 \<Rightarrow> inode \<Rightarrow> inode" where
  "referenced dev inum nd = (if i_ref nd > 0 then nd\<lparr>i_ref := i_ref nd + 1\<rparr>
     else nd\<lparr>i_dev := dev, i_inum := inum, i_ref := 1, i_valid := False\<rparr>)"

lemma iget_slot:
  assumes a: "alone p s" and sl: "inode_slot dev inum (itable s) = Some ip"
  shows "iget dev inum s = Ok (ip, s\<lparr>itable := (itable s)(ip := referenced dev inum (itable s ip))\<rparr>)"
proof -
  have i: "itable (locked_in ItableLock s) = itable s" by (simp add: locked_in_def)
  have r: "release ItableLock (upd_inode ip f (locked_in ItableLock s)) = Ok (s\<lparr>itable := (itable s)(ip := f (itable s ip))\<rparr>)" for f
    by (subst alone_release [OF a]) (simp_all add: upd_inode_def locked_in_def)
  show ?thesis
  proof (cases "find (\<lambda>i. i_ref (itable s i) > 0 \<and> i_dev (itable s i) = dev \<and> i_inum (itable s i) = inum) [0..<NINODE]")
    case None
    then have "find (\<lambda>i. i_ref (itable s i) = 0) [0..<NINODE] = Some ip" using sl by (simp add: inode_slot_def)
    then show ?thesis using None r find_SomeD(1) [of "\<lambda>i. i_ref (itable s i) = 0"]
      by (simp add: iget_def alone_acquire [OF a] i referenced_def)
  next
    case (Some j)
    then have "j = ip" using sl by (simp add: inode_slot_def)
    then show ?thesis using Some r find_SomeD(1) [OF Some] by (simp add: iget_def alone_acquire [OF a] i referenced_def)
  qed
qed

section \<open>Looking up a name\<close>

definition dir_entry :: "'a istate_scheme \<Rightarrow> nat \<Rightarrow> nat \<Rightarrow> u8 list" where
  "dir_entry s dp k = take 16 (drop (16 * k) (file_bytes s dp))"

definition entry_is :: "u8 list \<Rightarrow> u8 list \<Rightarrow> bool" where
  "entry_is name de \<longleftrightarrow> get16 0 de \<noteq> 0 \<and> namecmp name (drop 2 de) = 0"

lemma read_entry:
  assumes "serves sw" and "txn p st sz ns s" and "cache_room 1 ns (locked_blk s)" and "file_ok s dp" and "16 * k + 16 \<le> fsize s dp"
  shows "\<exists>s'. readi sw (Suc m) dp ToLocal (of_nat (16 * k)) 16 s = Ok ((16, dir_entry s dp k), s') \<and>
    moves p st sz ns (blk s) (locked_blk s) s s'"
proof -
  have b: "16 * k + 16 < 2 ^ 32" using assms(5) unsigned_less [of "i_size (itable s dp)", where 'a = nat] by simp
  then have u: "unat (of_nat (16 * k) :: u32) = 16 * k" by (simp add: unat_of_nat take_bit_nat_eq_self del: of_nat_mult)
  have "file_range s dp (of_nat (16 * k)) 16 = dir_entry s dp k" using b u by (simp add: file_range_def dir_entry_def)
  moreover have "length (dir_entry s dp k) = 16" using assms(5) by (simp add: dir_entry_def file_bytes_def)
  ultimately show ?thesis using readi_local [OF assms(1-4), of m "of_nat (16 * k)" 16] by simp
qed

lemma dirlookup_loop_spec:
  assumes sv: "serves sw"
  shows "\<lbrakk>txn p st sz ns s; cache_room 1 ns (locked_blk s); file_ok s dp; \<forall>k\<in>set ks. 16 * k + 16 \<le> fsize s dp\<rbrakk> \<Longrightarrow>
    \<exists>s'. moves p st sz ns (blk s) (locked_blk s) s s' \<and> dirlookup_loop sw (Suc m) dp name ks s =
      (case find (\<lambda>k. entry_is name (dir_entry s dp k)) ks of None \<Rightarrow> Ok (None, s')
       | Some k \<Rightarrow> bnd (iget (i_dev (itable s dp)) (ucast (get16 0 (dir_entry s dp k))) s') (\<lambda>(ip, s2). Ok (Some (ip, of_nat (16 * k)), s2)))"
proof (induction ks arbitrary: s)
  case Nil
  then show ?case using moves_refl by auto
next
  case (Cons k ks)
  obtain s1 where r: "readi sw (Suc m) dp ToLocal (of_nat (16 * k)) 16 s = Ok ((16, dir_entry s dp k), s1)"
    and m1: "moves p st sz ns (blk s) (locked_blk s) s s1"
    using read_entry [OF sv Cons.prems(1-3), of k m] Cons.prems(4) by auto
  note e1 = moves_fs [OF m1] movesD(3,4) [OF m1]
  have d1: "dir_entry s1 dp = dir_entry s dp" by (simp add: dir_entry_def e1 fun_eq_iff)
  show ?case
  proof (cases "entry_is name (dir_entry s dp k)")
    case True
    then show ?thesis using r m1 by (auto simp: entry_is_def Let_def e1)
  next
    case False
    obtain s' where "moves p st sz ns (blk s1) (locked_blk s1) s1 s'" and l: "dirlookup_loop sw (Suc m) dp name ks s1 =
      (case find (\<lambda>k. entry_is name (dir_entry s1 dp k)) ks of None \<Rightarrow> Ok (None, s')
       | Some k \<Rightarrow> bnd (iget (i_dev (itable s1 dp)) (ucast (get16 0 (dir_entry s1 dp k))) s') (\<lambda>(ip, s2). Ok (Some (ip, of_nat (16 * k)), s2)))"
      using Cons.IH [of s1] movesD(1) [OF m1] Cons.prems(2-4) by (auto simp: e1)
    then have "moves p st sz ns (blk s) (locked_blk s) s s'" using moves_trans [OF m1] by (simp add: e1)
    moreover note l [unfolded e1 d1]
    moreover have "dirlookup_loop sw (Suc m) dp name (k # ks) s = dirlookup_loop sw (Suc m) dp name ks s1"
      using False r by (auto simp: entry_is_def Let_def)
    ultimately show ?thesis using False by (intro exI [of _ s']) simp
  qed
qed

definition lookup_result :: "'a istate_scheme \<Rightarrow> nat \<Rightarrow> u8 list \<Rightarrow> (nat \<times> u32) option" where
  "lookup_result s dp name =
     map_option (\<lambda>k. (k, ucast (get16 0 (dir_entry s dp k)))) (find (\<lambda>k. entry_is name (dir_entry s dp k)) [0..<fsize s dp div 16])"

text \<open>C37: \<open>dirlookup\<close> finds the first entry of the directory that is in use and has the name, gives its offset and a reference
  to its inode: the slot of the inode table that already holds this inode, with one more reference,
  or else the first free slot, not yet valid. If no entry has the name, the result is the null pointer.
  No block and no other inode changes.\<close>

theorem dirlookup_finds:
  assumes "serves sw" and "txn p st sz ns s" and "cache_room 1 ns (locked_blk s)" and "file_ok s dp"
    and "i_type (itable s dp) = T_DIR" and "16 dvd fsize s dp"
    and "\<And>k inum. lookup_result s dp name = Some (k, inum) \<Longrightarrow> inode_slot ROOTDEV inum (itable s) \<noteq> None"
  shows "\<exists>s'. blk s' = blk s \<and> (case lookup_result s dp name of
      None \<Rightarrow> dirlookup sw (Suc m) dp name s = Ok (None, s') \<and> itable s' = itable s
    | Some (k, inum) \<Rightarrow> (\<exists>ip. inode_slot ROOTDEV inum (itable s) = Some ip \<and>
        dirlookup sw (Suc m) dp name s = Ok (Some (ip, of_nat (16 * k)), s') \<and>
        itable s' = (itable s)(ip := referenced ROOTDEV inum (itable s ip))))"
proof -
  have dv: "i_dev (itable s dp) = ROOTDEV" using assms(4) by (simp add: file_ok_def)
  obtain q where q: "fsize s dp = 16 * q" using assms(6) by (elim dvdE)
  have e: "(fsize s dp + 15) div 16 = q" "fsize s dp div 16 = q" by (simp_all add: q)
  have ks: "\<forall>k\<in>set [0..<q]. 16 * k + 16 \<le> fsize s dp" by (simp add: q)
  obtain s1 where m: "moves p st sz ns (blk s) (locked_blk s) s s1" and l: "dirlookup_loop sw (Suc m) dp name [0..<q] s =
      (case find (\<lambda>k. entry_is name (dir_entry s dp k)) [0..<q] of None \<Rightarrow> Ok (None, s1)
       | Some k \<Rightarrow> bnd (iget (i_dev (itable s dp)) (ucast (get16 0 (dir_entry s dp k))) s1) (\<lambda>(ip, s2). Ok (Some (ip, of_nat (16 * k)), s2)))"
    using dirlookup_loop_spec [OF assms(1-4) ks, of m name] by blast
  have d: "dirlookup sw (Suc m) dp name s = dirlookup_loop sw (Suc m) dp name [0..<q] s" using assms(5) by (simp add: dirlookup_def e)
  note e1 = moves_fs(1) [OF m] movesD(3) [OF m]
  show ?thesis
  proof (cases "find (\<lambda>k. entry_is name (dir_entry s dp k)) [0..<q]")
    case None
    then show ?thesis using l d e1 by (auto simp: lookup_result_def e)
  next
    case (Some k)
    let ?n = "ucast (get16 0 (dir_entry s dp k)) :: u32"
    have r: "lookup_result s dp name = Some (k, ?n)" using Some by (simp add: lookup_result_def e)
    then obtain ip where ip: "inode_slot ROOTDEV ?n (itable s) = Some ip" using assms(7) by auto
    define s2 where "s2 = s1\<lparr>itable := (itable s)(ip := referenced ROOTDEV ?n (itable s ip))\<rparr>"
    have "iget ROOTDEV ?n s1 = Ok (ip, s2)"
      using iget_slot [OF txnD(1) [OF movesD(1) [OF m]], of ROOTDEV ?n ip] ip by (simp add: e1 s2_def)
    then have "dirlookup sw (Suc m) dp name s = Ok (Some (ip, of_nat (16 * k)), s2)" using l d Some dv by simp
    moreover have "blk s2 = blk s" "itable s2 = (itable s)(ip := referenced ROOTDEV ?n (itable s ip))"
      using e1 by (simp_all add: s2_def)
    ultimately show ?thesis using ip unfolding r by (intro exI [of _ s2]) simp
  qed
qed

section \<open>Path components\<close>

text \<open>The components of a path: the maximal runs of bytes other than slashes.\<close>

function components :: "u8 list \<Rightarrow> u8 list list" where
  "components [] = []"
| "components (c # cs) = (if c = slash then components cs
     else takeWhile (\<lambda>b. b \<noteq> slash) (c # cs) # components (dropWhile (\<lambda>b. b \<noteq> slash) (c # cs)))"
  by pat_completeness auto
termination
  by (relation "measure length") (auto simp: less_Suc_eq_le length_dropWhile_le)

declare components.simps(2) [simp del]

lemma components_slash [simp]: "components (dropWhile (\<lambda>b. b = slash) p) = components p"
  by (induction p) (simp_all add: components.simps(2))

text \<open>Taking one component after the other with \<open>skipelem\<close>, each read as a string from the name buffer.\<close>

definition buf_str :: "u8 list \<Rightarrow> u8 list" where
  "buf_str name = c_str (take DIRSIZ name)"

function elems :: "u8 list \<Rightarrow> u8 list \<Rightarrow> u8 list list" where
  "elems pth name = (case skipelem pth name of None \<Rightarrow> [] | Some (pth', name') \<Rightarrow> buf_str name' # elems pth' name')"
  by pat_completeness auto
termination
  by (relation "measure (\<lambda>(pth, _). length pth)") (auto intro: skipelem_shorter)

declare elems.simps [simp del]

lemma c_str_id: "0 \<notin> set xs \<Longrightarrow> c_str xs = xs"
  by (auto simp: c_str_def takeWhile_eq_all_conv)

lemma c_str_nul: "0 \<notin> set xs \<Longrightarrow> c_str (xs @ 0 # ys) = xs"
  by (induction xs) (auto simp: c_str_def)

lemma name_reads_back:
  assumes "0 \<notin> set elem" and "length name = DIRSIZ"
  shows "buf_str (if length elem \<ge> DIRSIZ then put_bytes 0 (take DIRSIZ elem) name else put_bytes 0 (elem @ [0]) name) = take DIRSIZ elem"
proof (cases "length elem \<ge> DIRSIZ")
  case True
  moreover have "0 \<notin> set (take DIRSIZ elem)" using assms(1) by (auto dest: in_set_takeD)
  ultimately show ?thesis using assms(2) by (simp add: buf_str_def put_bytes_def c_str_id)
next
  case False
  then show ?thesis using assms by (simp add: buf_str_def put_bytes_def c_str_nul)
qed

lemma skipelem_eq:
  assumes "dropWhile (\<lambda>b. b = slash) (c_str pth) = c # cs"
  shows "skipelem pth name = Some (dropWhile (\<lambda>b. b = slash) (dropWhile (\<lambda>b. b \<noteq> slash) (c # cs)),
    let elem = takeWhile (\<lambda>b. b \<noteq> slash) (c # cs)
    in if length elem \<ge> DIRSIZ then put_bytes 0 (take DIRSIZ elem) name else put_bytes 0 (elem @ [0]) name)"
  using assms by (simp add: skipelem_def Let_def)

text \<open>C38: Splitting a path with \<open>skipelem\<close> until it returns the null pointer gives exactly the components of the path up to its NUL,
  each cut to \<open>DIRSIZ\<close> bytes, whatever the name buffer held before.\<close>

theorem skipelem_components:
  "length name = DIRSIZ \<Longrightarrow> elems pth name = map (take DIRSIZ) (components (c_str pth))"
proof (induction pth name rule: elems.induct)
  case (1 pth name)
  let ?p = "dropWhile (\<lambda>b. b = slash) (c_str pth)"
  have cp: "components (c_str pth) = components ?p" by simp
  show ?case
  proof (cases ?p)
    case Nil
    then have "skipelem pth name = None" by (simp add: skipelem_def)
    then show ?thesis unfolding cp Nil by (simp add: elems.simps)
  next
    case (Cons c cs)
    let ?e = "takeWhile (\<lambda>b. b \<noteq> slash) (c # cs)" and ?r = "dropWhile (\<lambda>b. b \<noteq> slash) (c # cs)"
    define name' where "name' = (if length ?e \<ge> DIRSIZ then put_bytes 0 (take DIRSIZ ?e) name else put_bytes 0 (?e @ [0]) name)"
    have sk: "skipelem pth name = Some (dropWhile (\<lambda>b. b = slash) ?r, name')" using skipelem_eq [OF Cons] by (simp add: name'_def)
    have z: "0 \<notin> set (c_str pth)" by (auto simp: c_str_def dest: set_takeWhileD)
    then have zc: "0 \<notin> set (c # cs)" unfolding Cons [symmetric] by (auto dest: set_dropWhileD)
    then have ze: "0 \<notin> set ?e" and zr: "0 \<notin> set (dropWhile (\<lambda>b. b = slash) ?r)" by (meson set_takeWhileD, meson set_dropWhileD)
    have cs: "c \<noteq> slash" using hd_dropWhile [of "\<lambda>b. b = slash" "c_str pth"] Cons by simp
    have ln: "length name' = DIRSIZ" using 1(2) by (simp add: name'_def)
    have "elems pth name = buf_str name' # elems (dropWhile (\<lambda>b. b = slash) ?r) name'" using sk by (simp add: elems.simps [of pth])
    also have "\<dots> = take DIRSIZ ?e # map (take DIRSIZ) (components ?r)"
      using 1(1) [OF sk refl ln] name_reads_back [OF ze 1(2)] c_str_id [OF zr] by (simp add: name'_def)
    also have "\<dots> = map (take DIRSIZ) (components (c # cs))" using cs by (simp add: components.simps(2) [of c cs])
    finally show ?thesis unfolding cp Cons .
  qed
qed

lemma skipelem_components_witness:
  "elems [47, 97, 47, 47, 98, 99, 0, 100] (replicate DIRSIZ 7) = [[97], [98, 99]]"
proof -
  have "c_str [47, 97, 47, 47, 98, 99, 0, 100] = [47, 97, 47, 47, 98, 99]" by (simp add: c_str_def)
  moreover have "components [47, 97, 47, 47, 98, 99] = [[97], [98, 99]]" by (simp add: components.simps(2) slash_def)
  ultimately show ?thesis using skipelem_components [of "replicate DIRSIZ 7" "[47, 97, 47, 47, 98, 99, 0, 100]"] by (simp add: DIRSIZ_def)
qed

end
