(* ===== verification/Write.thy ===== *)
theory Write
  imports Dir
begin

unbundle bit_operations_syntax

text \<open>
  Writing files in kernel/fs.c: \<open>writei\<close> into blocks the file has already replaces exactly the bytes written, \<open>iupdate\<close> stores the
  inode, and a later \<open>readi\<close> returns what was written.
\<close>

section \<open>The inode on disk\<close>

lemma length_put_dinode [simp]: "length (put_dinode o' n bs) = length bs"
proof -
  have "length (fold (\<lambda>k bs. put32 (o' + 12 + 4 * k) (i_addrs n k) bs) ks bs') = length bs'" for ks and bs' :: "u8 list"
    by (induction ks arbitrary: bs') simp_all
  then show ?thesis by (simp add: put_dinode_def)
qed

lemma fold_put_addrs:
  assumes "o' + 12 + 4 * j \<le> length bs"
  shows "k < j \<Longrightarrow> get32 (o' + 12 + 4 * k) (fold (\<lambda>k bs. put32 (o' + 12 + 4 * k) (a k) bs) [0..<j] bs) = a k"
    and "i + 1 < o' + 12 \<Longrightarrow> get16 i (fold (\<lambda>k bs. put32 (o' + 12 + 4 * k) (a k) bs) [0..<j] bs) = get16 i bs"
    and "i + 3 < o' + 12 \<Longrightarrow> get32 i (fold (\<lambda>k bs. put32 (o' + 12 + 4 * k) (a k) bs) [0..<j] bs) = get32 i bs"
    and "length (fold (\<lambda>k bs. put32 (o' + 12 + 4 * k) (a k) bs) [0..<j] bs) = length bs"
  using assms
proof (induction j)
  case (Suc j)
  {
    case 1
    then show ?case using Suc(1,4) by (cases "k = j") (simp_all add: get32_put32_other)
  next
    case 2
    then show ?case using Suc(2) by (simp add: get16_put32_other)
  next
    case 3
    then show ?case using Suc(3) by (simp add: get32_put32_other)
  next
    case 4
    then show ?case using Suc(4) by simp
  }
qed simp_all

lemma dinode_reads_back:
  assumes "o' + 64 \<le> length bs"
  shows "get_dinode o' (put_dinode o' n bs) n = n"
proof -
  define b0 where "b0 = put32 (o' + 8) (i_size n) (put16 (o' + 6) (i_nlink n) (put16 (o' + 4) (i_minor n) (put16 (o' + 2) (i_major n) (put16 o' (i_type n) bs))))"
  have p: "put_dinode o' n bs = fold (\<lambda>k bs. put32 (o' + 12 + 4 * k) (i_addrs n k) bs) [0..<NDIRECT + 1] b0" by (simp add: put_dinode_def b0_def)
  have l: "length b0 = length bs" by (simp add: b0_def)
  have a: "o' + 12 + 4 * (NDIRECT + 1) \<le> length b0" using assms by (simp add: l NDIRECT_def)
  note f = fold_put_addrs [where a = "i_addrs n", OF a, folded p]
  have b: "get16 o' b0 = i_type n" "get16 (o' + 2) b0 = i_major n" "get16 (o' + 4) b0 = i_minor n" "get16 (o' + 6) b0 = i_nlink n" "get32 (o' + 8) b0 = i_size n"
    using assms by (simp_all add: b0_def get16_put16_other get16_put32_other)
  have ad: "(\<lambda>k. if k \<le> NDIRECT then get32 (o' + 12 + 4 * k) (put_dinode o' n bs) else i_addrs n k) = i_addrs n"
    using f(1) by (simp add: fun_eq_iff less_Suc_eq_le)
  show ?thesis unfolding get_dinode_def ad by (simp add: f b b(2) [simplified])
qed

section \<open>Blocks written\<close>

text \<open>The blocks of the first \<open>N\<close> positions of a file are its own and can be changed.\<close>

definition writable_file :: "nat \<Rightarrow> nat \<Rightarrow> 'a istate_scheme \<Rightarrow> nat \<Rightarrow> nat \<Rightarrow> bool" where
  "writable_file st sz s ip N \<longleftrightarrow> i_dev (itable s ip) = ROOTDEV \<and> inj_on (fblock s ip) {..<N} \<and>
     (\<forall>k<N. mapped s ip k \<and> usable st sz s (fblock s ip k) \<and> fblock s ip k \<noteq> i_addrs (itable s ip) NDIRECT)"

definition chunks :: "nat \<Rightarrow> nat \<Rightarrow> nat" where
  "chunks k off = (if k = 0 then 0 else (off mod BSIZE + k + BSIZE - 1) div BSIZE)"

lemma chunks_step: "k \<noteq> 0 \<Longrightarrow> chunks k off = Suc (chunks (k - chunk k off) (off + chunk k off))"
proof -
  assume k: "k \<noteq> 0"
  let ?r = "off mod BSIZE"
  have r: "?r < BSIZE" "0 < BSIZE" by (simp_all add: BSIZE_def)
  show ?thesis
  proof (cases "k \<le> BSIZE - ?r")
    case True
    then have "(?r + k + BSIZE - 1) div BSIZE = 1" using k r by (intro div_nat_eqI) simp_all
    then show ?thesis using True k by (simp add: chunks_def)
  next
    case False
    then have c: "chunk k off = BSIZE - ?r" by simp
    have z: "(off + (BSIZE - ?r)) mod BSIZE = 0" using r by (metis add.commute add_diff_inverse_nat less_or_eq_imp_le linorder_not_le mod_add_left_eq mod_self)
    have "?r + k + BSIZE - 1 = (k - (BSIZE - ?r) + BSIZE - 1) + BSIZE" using False r by linarith
    then have "(?r + k + BSIZE - 1) div BSIZE = Suc ((k - (BSIZE - ?r) + BSIZE - 1) div BSIZE)" using r(2) by (metis add.commute div_add_self1 plus_1_eq_Suc nat_less_le)
    then show ?thesis using False k unfolding c by (simp add: chunks_def z)
  qed
qed

text \<open>Changing block \<open>j\<close> of a file changes its bytes and nothing else of the file.\<close>

lemma file_after_write:
  fixes s s' :: "'a istate_scheme"
  assumes w: "writable_file st sz s ip N" and j: "j < N" and b: "blk s' = (blk s)(fblock s ip j := d)" and i: "itable s' ip = itable s ip"
  shows "fblock s' ip = fblock s ip" and "i div BSIZE < N \<Longrightarrow> file_byte s' ip i = (if i div BSIZE = j then d ! (i mod BSIZE) else file_byte s ip i)"
proof -
  have n: "fblock s ip j \<noteq> i_addrs (itable s ip) NDIRECT" and inj: "inj_on (fblock s ip) {..<N}" using w j by (auto simp: writable_file_def)
  show f: "fblock s' ip = fblock s ip" using n by (simp add: fblock_def b i fun_eq_iff)
  show "file_byte s' ip i = (if i div BSIZE = j then d ! (i mod BSIZE) else file_byte s ip i)" if "i div BSIZE < N"
    using that j inj_onD [OF inj, of "i div BSIZE" j] by (auto simp: file_byte_def f b)
qed

lemma writable_file_cong:
  fixes s s' :: "'a istate_scheme"
  assumes "fblock s' ip = fblock s ip" "itable s' ip = itable s ip" "locked_blk s' = locked_blk s"
  shows "writable_file st sz s' ip N = writable_file st sz s ip N"
  using assms by (simp add: writable_file_def mapped_def readable_blk_def usable_def)

section \<open>The loop\<close>

lemma copy_from_local: "alone p s \<Longrightarrow> copy_from (FromLocal bs) o' k s = Ok ((0, get_bytes o' k bs), s)"
  by (simp add: copy_from_def alone_simps)

lemma write_step:
  assumes sv: "serves sw" and t: "txn p st sz ns s" and w: "writable_file st sz s ip N" and j: "off div BSIZE < N"
    and c: "cache_room 1 ns (locked_blk s)" and l: "log_room 1 sz ns s" and len: "tot + k \<le> length bs" and k: "k \<noteq> 0"
  shows "\<exists>s'. writei_loop sw (Suc m) ip (FromLocal bs) k tot off s =
      writei_loop sw (Suc m) ip (FromLocal bs) (k - chunk k off) (tot + chunk k off) (off + chunk k off) s' \<and>
    moves p st sz (log_add (fblock s ip (off div BSIZE)) ns)
      ((blk s)(fblock s ip (off div BSIZE) := put_bytes (off mod BSIZE) (get_bytes tot (chunk k off) bs) (blk s (fblock s ip (off div BSIZE)))))
      (locked_blk s) s s'"
proof -
  let ?n = "fblock s ip (off div BSIZE)" and ?f = "put_bytes (off mod BSIZE) (get_bytes tot (chunk k off) bs)"
  have mp: "mapped s ip (off div BSIZE)" and d: "i_dev (itable s ip) = ROOTDEV" and u: "usable st sz s ?n" using w j by (auto simp: writable_file_def)
  have n: "?n \<noteq> 0" "?n < 2 ^ 31" using mp by (auto simp: mapped_def readable_blk_def)
  obtain s1 where b: "bmap sw (Suc m) ip (of_nat (off div BSIZE)) s = Ok (?n, s1)" and m1: "moves p st sz ns (blk s) (locked_blk s) s s1"
    using bmap_mapped [OF sv t c mp d, of m] by blast
  note e1 = moves_fs [OF m1] movesD(3,4) [OF m1]
  have u1: "usable st sz s1 ?n" using u by (simp add: usable_def e1)
  have c1: "?n \<in> set ns \<or> cache_room 1 ns (locked_blk s1)" using c by (simp add: e1)
  have l1: "log_room 1 sz ns s1" using l log_room_moves [OF m1] by simp
  have lb: "length (blk s ?n) = BSIZE" using blk_length [of s ?n] txnD(2) [OF t] n(2) by simp
  have lc: "length (get_bytes tot (chunk k off) bs) = chunk k off" using len by (simp add: get_bytes_def)
  have "off mod BSIZE < BSIZE" by (simp add: BSIZE_def)
  then have "off mod BSIZE + chunk k off \<le> BSIZE" by linarith
  then have lf: "length (?f (blk s1 ?n)) = BSIZE" using lb lc by (subst length_put_bytes) (simp_all add: e1)
  obtain i s2 s3 s4 where r: "bread sw (Suc m) ROOTDEV ?n s1 = Ok (i, s2)" and m2: "moves p st sz ns (blk s1) ((locked_blk s1)(?n := True)) s1 s2"
    and lw: "log_write i (upd_buf i (\<lambda>bf. bf\<lparr>b_data := ?f (b_data bf)\<rparr>) s2) = Ok s3" "brelse i s3 = Ok s4"
    and m4: "moves p st sz (log_add ?n ns) ((blk s1)(?n := ?f (blk s1 ?n))) (locked_blk s1) s1 s4"
    using update_block [where f = ?f, OF sv movesD(1) [OF m1] u1 c1 l1 lf, of m] by blast
  have a2: "alone p s2" using txnD(1) [OF movesD(1) [OF m2]] .
  have "moves p st sz (log_add ?n ns) ((blk s)(?n := ?f (blk s ?n))) (locked_blk s) s s4"
    using moves_trans [OF m1 m4] by (simp add: e1)
  moreover have "writei_loop sw (Suc m) ip (FromLocal bs) k tot off s =
      writei_loop sw (Suc m) ip (FromLocal bs) (k - chunk k off) (tot + chunk k off) (off + chunk k off) s4"
    unfolding writei_loop.simps [of _ _ _ _ k]
    using k by (simp add: b n e1 d r copy_from_local [OF a2] lw upd_data_def Let_def)
  ultimately show ?thesis by blast
qed

lemma nth_put_bytes: "o' + length new \<le> length xs \<Longrightarrow> i < length xs \<Longrightarrow>
    put_bytes o' new xs ! i = (if o' \<le> i \<and> i < o' + length new then new ! (i - o') else xs ! i)"
  by (auto simp: put_bytes_def nth_append)

lemma chunk_byte:
  assumes "length (blk s (fblock s ip (off div BSIZE))) = BSIZE" and "tot + k \<le> length bs" and "i div BSIZE = off div BSIZE"
  shows "put_bytes (off mod BSIZE) (get_bytes tot (chunk k off) bs) (blk s (fblock s ip (off div BSIZE))) ! (i mod BSIZE) =
    (if off \<le> i \<and> i < off + chunk k off then bs ! (tot + (i - off)) else file_byte s ip i)"
proof -
  have B: "off mod BSIZE < BSIZE" "i mod BSIZE < BSIZE" by (simp_all add: BSIZE_def)
  have l: "length (get_bytes tot (chunk k off) bs) = chunk k off" using assms(2) by (simp add: get_bytes_def)
  have c: "off mod BSIZE + chunk k off \<le> BSIZE" using B(1) by linarith
  have i: "i = off div BSIZE * BSIZE + i mod BSIZE" "off = off div BSIZE * BSIZE + off mod BSIZE" using assms(3) by (metis div_mult_mod_eq, simp)
  then have r: "off mod BSIZE \<le> i mod BSIZE \<and> i mod BSIZE < off mod BSIZE + chunk k off \<longleftrightarrow> off \<le> i \<and> i < off + chunk k off" "i mod BSIZE - off mod BSIZE = i - off"
    by linarith+
  show ?thesis
  proof (cases "off \<le> i \<and> i < off + chunk k off")
    case True
    then have "i - off < chunk k off" by linarith
    then have "get_bytes tot (chunk k off) bs ! (i - off) = bs ! (tot + (i - off))" using assms(2) by (simp add: get_bytes_def)
    then show ?thesis using True r c l assms(1) B(2) by (subst nth_put_bytes) simp_all
  next
    case False
    then have "\<not> (off mod BSIZE \<le> i mod BSIZE \<and> i mod BSIZE < off mod BSIZE + chunk k off)" by (simp only: r not_False_eq_True)
    then show ?thesis using False c l assms B(2) by (subst nth_put_bytes) (auto simp: file_byte_def)
  qed
qed

lemma writei_loop_spec:
  assumes sv: "serves sw"
  shows "\<lbrakk>txn p st sz ns s; writable_file st sz s ip N; off + k \<le> N * BSIZE; tot + k \<le> length bs;
     cache_room (chunks k off + Suc j) ns (locked_blk s); log_room (chunks k off + j) sz ns s\<rbrakk> \<Longrightarrow>
    \<exists>ns' s'. writei_loop sw (Suc m) ip (FromLocal bs) k tot off s = Ok ((tot + k, off + k), s') \<and>
      moves p st sz ns' (blk s') (locked_blk s) s s' \<and> cache_room (Suc j) ns' (locked_blk s) \<and> log_room j sz ns' s \<and> fblock s' ip = fblock s ip \<and>
      (\<forall>i<N * BSIZE. file_byte s' ip i = (if off \<le> i \<and> i < off + k then bs ! (tot + (i - off)) else file_byte s ip i)) \<and>
      (\<forall>n. n \<notin> fblock s ip ` {..<N} \<longrightarrow> blk s' n = blk s n)"
proof (induction k arbitrary: tot off s ns rule: less_induct)
  case (less k)
  show ?case
  proof (cases "k = 0")
    case True
    then show ?thesis using less.prems moves_refl [OF less.prems(1)]
      by (intro exI [of _ ns] exI [of _ s]) (auto simp: writei_loop.simps chunks_def)
  next
    case False
    let ?c = "chunk k off" and ?n = "fblock s ip (off div BSIZE)"
    have B: "0 < BSIZE" by (simp add: BSIZE_def)
    have j: "off div BSIZE < N" using less.prems(3) False by (metis add_less_cancel_left less_add_same_cancel1 less_mult_imp_div_less less_or_eq_imp_le neq0_conv order_less_le_trans)
    have ch: "chunks k off = Suc (chunks (k - ?c) (off + ?c))" by (rule chunks_step [OF False])
    have r: "cache_room 1 ns (locked_blk s)" "log_room 1 sz ns s" using cache_room_mono [OF less.prems(5)] log_room_mono [OF less.prems(6)] by (simp_all add: ch)
    obtain s1 where e: "writei_loop sw (Suc m) ip (FromLocal bs) k tot off s = writei_loop sw (Suc m) ip (FromLocal bs) (k - ?c) (tot + ?c) (off + ?c) s1"
      and m1: "moves p st sz (log_add ?n ns) ((blk s)(?n := put_bytes (off mod BSIZE) (get_bytes tot ?c bs) (blk s ?n))) (locked_blk s) s s1"
      using write_step [OF sv less.prems(1,2) j r less.prems(4) False] by blast
    note b1 = movesD(3,4) [OF m1] and i1 = lsame_istate(2) [OF movesD(2) [OF m1]]
    note fw = file_after_write [OF less.prems(2) j b1(1)]
    have f1: "fblock s1 ip = fblock s ip" by (rule fw(1)) (simp add: i1)
    have n: "?n < 2 ^ 31" using less.prems(2) j by (auto simp: writable_file_def mapped_def readable_blk_def)
    have lb: "length (blk s ?n) = BSIZE" using blk_length [of s ?n] txnD(2) [OF less.prems(1)] n by simp
    have by1: "file_byte s1 ip i = (if off \<le> i \<and> i < off + ?c then bs ! (tot + (i - off)) else file_byte s ip i)" if "i < N * BSIZE" for i
    proof (cases "i div BSIZE = off div BSIZE")
      case True
      then show ?thesis using fw(2) [of i] chunk_byte [OF lb less.prems(4) True] less_mult_imp_div_less [OF that] by (simp add: i1)
    next
      case False
      have "\<not> (off \<le> i \<and> i < off + ?c)"
      proof
        assume "off \<le> i \<and> i < off + ?c"
        then have "i - off < ?c" "off + (i - off) = i" by linarith+
        then show False using div_mod_chunk(1) [of "i - off" k off] False by simp
      qed
      then show ?thesis using fw(2) [of i] False less_mult_imp_div_less [OF that] by (auto simp: i1)
    qed
    have w1: "writable_file st sz s1 ip N" using less.prems(2) writable_file_cong [of s1 ip s] f1 i1 b1(2) by simp
    have k: "k - ?c < k" "off + ?c + (k - ?c) \<le> N * BSIZE" "tot + ?c + (k - ?c) \<le> length bs" using chunk_less [of k off] False less.prems(3,4) by simp_all
    have cr: "cache_room (chunks (k - ?c) (off + ?c) + Suc j) (log_add ?n ns) (locked_blk s1)" "log_room (chunks (k - ?c) (off + ?c) + j) sz (log_add ?n ns) s1"
      using less.prems(5,6) cache_room_add [of "chunks (k - ?c) (off + ?c) + Suc j" ns "locked_blk s"] log_room_add [of "chunks (k - ?c) (off + ?c) + j" sz ns s]
        log_room_moves [OF m1] by (simp_all add: ch b1)
    obtain ns' s' where l: "writei_loop sw (Suc m) ip (FromLocal bs) (k - ?c) (tot + ?c) (off + ?c) s1 = Ok ((tot + ?c + (k - ?c), off + ?c + (k - ?c)), s')"
      and m2: "moves p st sz ns' (blk s') (locked_blk s1) s1 s'" and c2: "cache_room (Suc j) ns' (locked_blk s1)" "log_room j sz ns' s1" and f2: "fblock s' ip = fblock s1 ip"
      and by2: "\<forall>i<N * BSIZE. file_byte s' ip i = (if off + ?c \<le> i \<and> i < off + ?c + (k - ?c) then bs ! (tot + ?c + (i - (off + ?c))) else file_byte s1 ip i)"
      and o2: "\<forall>n. n \<notin> fblock s1 ip ` {..<N} \<longrightarrow> blk s' n = blk s1 n"
      using less.IH [OF k(1) movesD(1) [OF m1] w1 k(2,3) cr] by (elim exE conjE) (rule that)
    have kk: "tot + ?c + (k - ?c) = tot + k" "off + ?c + (k - ?c) = off + k" by simp_all
    have "moves p st sz ns' (blk s') (locked_blk s) s s'" using moves_trans [OF m1 m2] by (simp add: b1)
    moreover have "file_byte s' ip i = (if off \<le> i \<and> i < off + k then bs ! (tot + (i - off)) else file_byte s ip i)" if "i < N * BSIZE" for i
      using by1 [OF that] by2 that unfolding kk by auto
    moreover have "blk s' n = blk s n" if "n \<notin> fblock s ip ` {..<N}" for n
    proof -
      have "n \<noteq> ?n" using that j by auto
      then show ?thesis using o2 that by (simp add: f1 b1)
    qed
    ultimately show ?thesis using l c2 f1 f2 log_room_moves [OF m1, of j ns'] unfolding e kk b1(2)
      by (intro exI [of _ ns'] exI [of _ s'] conjI allI impI) simp_all
  qed
qed

section \<open>Writing and reading back\<close>

definition inode_blk :: "'a istate_scheme \<Rightarrow> nat \<Rightarrow> u32" where
  "inode_blk s ip = IBLOCK (i_inum (itable s ip)) (fssb s)"

text \<open>The block of the inode is not one of the file's.\<close>

definition inode_apart :: "nat \<Rightarrow> nat \<Rightarrow> 'a istate_scheme \<Rightarrow> nat \<Rightarrow> nat \<Rightarrow> bool" where
  "inode_apart st sz s ip N \<longleftrightarrow> usable st sz s (inode_blk s ip) \<and> inode_blk s ip \<noteq> i_addrs (itable s ip) NDIRECT \<and>
     inode_blk s ip \<notin> fblock s ip ` {..<N}"

lemma iupdate_ok:
  assumes "serves sw" and t: "txn p st sz ns s" and u: "usable st sz s (inode_blk s ip)" and c: "cache_room 1 ns (locked_blk s)" and l: "log_room 1 sz ns s"
    and d: "i_dev (itable s ip) = ROOTDEV"
  shows "\<exists>s'. iupdate sw (Suc m) ip s = Ok s' \<and> moves p st sz (log_add (inode_blk s ip) ns)
    ((blk s)(inode_blk s ip := put_dinode (dinode_off (i_inum (itable s ip))) (itable s ip) (blk s (inode_blk s ip)))) (locked_blk s) s s'"
proof -
  let ?n = "inode_blk s ip" and ?f = "put_dinode (dinode_off (i_inum (itable s ip))) (itable s ip)"
  have n: "?n < 2 ^ 31" using u by (simp add: usable_def)
  have len: "length (?f (blk s ?n)) = BSIZE" using blk_length [of s ?n] txnD(2) [OF t] n by simp
  have c': "?n \<in> set ns \<or> cache_room 1 ns (locked_blk s)" using c by simp
  obtain i s1 s2 s3 where r: "bread sw (Suc m) ROOTDEV ?n s = Ok (i, s1)" and m1: "moves p st sz ns (blk s) ((locked_blk s)(?n := True)) s s1"
    and lw: "log_write i (upd_buf i (\<lambda>bf. bf\<lparr>b_data := ?f (b_data bf)\<rparr>) s1) = Ok s2" "brelse i s2 = Ok s3"
    and m3: "moves p st sz (log_add ?n ns) ((blk s)(?n := ?f (blk s ?n))) (locked_blk s) s s3"
    using update_block [where f = ?f, OF assms(1) t u c' l len, of m] by blast
  have i: "itable s1 = itable s" using lsame_istate(2) [OF movesD(2) [OF m1]] .
  have "iupdate sw (Suc m) ip s = Ok s3" using r lw d by (simp add: iupdate_def inode_blk_def [symmetric] i upd_data_def)
  then show ?thesis using m3 by blast
qed

lemma dinode_fits: "dinode_off inum + 64 \<le> BSIZE"
proof -
  have "unat inum mod 16 < 16" by simp
  then show ?thesis unfolding dinode_off_def IPB_def BSIZE_def by simp
qed

text \<open>A change of the inode table alone.\<close>

lemma locked_itable [simp]: "locked_blk (s\<lparr>itable := it\<rparr>) = locked_blk s"
  by (rule ext) (simp add: locked_blk_def buf_of_def cong: option.case_cong)

lemma rc_itable [simp]: "rc (s\<lparr>itable := it\<rparr>) = rc s"
  by (rule ext) (simp add: rc_def buf_of_def cong: option.case_cong)

lemma txn_itable [simp]: "txn p st sz ns (s\<lparr>itable := it\<rparr>) = txn p st sz ns s"
proof -
  have "cache_ok (s\<lparr>itable := it\<rparr>) = cache_ok s" by (simp add: cache_ok_def lru_def buf_ok_def)
  moreover have "alone p (s\<lparr>itable := it\<rparr>) = alone p s" by (simp add: alone_def)
  ultimately show ?thesis by (simp add: txn_def)
qed

definition grown :: "nat \<Rightarrow> nat \<Rightarrow> 'a istate_scheme \<Rightarrow> 'a istate_scheme" where
  "grown ip off s = (if off > fsize s ip then upd_inode ip (\<lambda>nd. nd\<lparr>i_size := of_nat off\<rparr>) s else s)"

lemma grown_simps:
  assumes "off < 2 ^ 32"
  shows "blk (grown ip off s) = blk s" "locked_blk (grown ip off s) = locked_blk s" "txn p st sz ns (grown ip off s) = txn p st sz ns s"
    "log_room k sz ns (grown ip off s) = log_room k sz ns s" "fssb (grown ip off s) = fssb s" "fsize (grown ip off s) ip = max off (fsize s ip)"
    "i_addrs (itable (grown ip off s) ip) = i_addrs (itable s ip)" "i_dev (itable (grown ip off s) ip) = i_dev (itable s ip)"
    "i_inum (itable (grown ip off s) ip) = i_inum (itable s ip)" "fblock (grown ip off s) ip = fblock s ip"
  using assms by (simp_all add: grown_def upd_inode_def log_room_def fblock_def fun_eq_iff unat_of_nat take_bit_nat_eq_self)

lemma put_slice:
  assumes "\<And>i. i < n \<Longrightarrow> g i = (if off \<le> i \<and> i < off + length bs then bs ! (i - off) else h i)" and "off \<le> m" and "n = max (off + length bs) m"
  shows "map g [0..<n] = take off (map h [0..<m]) @ bs @ drop (off + length bs) (map h [0..<m])"
  using assms by (intro nth_equalityI) (auto simp: nth_append)

lemma writable_bound:
  assumes "writable_file st sz s ip N"
  shows "N \<le> MAXFILE" "N * BSIZE < 2 ^ 32"
proof -
  show "N \<le> MAXFILE"
  proof (cases N)
    case (Suc k)
    then show ?thesis using assms by (auto simp: writable_file_def mapped_def dest!: spec [of _ k])
  qed simp
  then have "N * BSIZE \<le> MAXFILE * BSIZE" by simp
  also have "\<dots> < 2 ^ 32" by (simp add: MAXFILE_def NDIRECT_def NINDIRECT_def BSIZE_def)
  finally show "N * BSIZE < 2 ^ 32" .
qed

text \<open>What a write leaves behind: the blocks of the file as the loop left them, the size, and the inode on disk.\<close>

definition wrote :: "nat \<Rightarrow> nat \<Rightarrow> nat \<Rightarrow> nat \<Rightarrow> u8 list \<Rightarrow> 'a istate_scheme \<Rightarrow> 'a istate_scheme \<Rightarrow> bool" where
  "wrote ip N len off bs s s' \<longleftrightarrow> fsize s' ip = len \<and> fblock s' ip = fblock s ip \<and> locked_blk s' = locked_blk s \<and>
     i_addrs (itable s' ip) = i_addrs (itable s ip) \<and> i_dev (itable s' ip) = i_dev (itable s ip) \<and> inode_blk s' ip = inode_blk s ip \<and>
     (\<forall>i<N * BSIZE. file_byte s' ip i = (if off \<le> i \<and> i < off + length bs then bs ! (i - off) else file_byte s ip i)) \<and>
     get_dinode (dinode_off (i_inum (itable s' ip))) (blk s' (inode_blk s' ip)) (itable s' ip) = itable s' ip \<and>
     (\<forall>n. n \<notin> fblock s ip ` {..<N} \<and> n \<noteq> inode_blk s ip \<longrightarrow> blk s' n = blk s n)"

lemma finish_write:
  assumes sv: "serves sw" and t: "txn p st sz ns s1" and c: "cache_room 1 ns (locked_blk s)" and l: "log_room 1 sz ns s1"
    and ap: "inode_apart st sz s ip N" and d: "i_dev (itable s ip) = ROOTDEV" and off: "off + length bs < 2 ^ 32"
    and s1: "itable s1 = itable s" "fssb s1 = fssb s" "locked_blk s1 = locked_blk s" "fblock s1 ip = fblock s ip"
    and by1: "\<forall>i<N * BSIZE. file_byte s1 ip i = (if off \<le> i \<and> i < off + length bs then bs ! (i - off) else file_byte s ip i)"
    and o1: "\<forall>n. n \<notin> fblock s ip ` {..<N} \<longrightarrow> blk s1 n = blk s n"
  shows "\<exists>ns' s'. iupdate sw (Suc m) ip (grown ip (off + length bs) s1) = Ok s' \<and> txn p st sz ns' s' \<and>
    (\<forall>j. cache_room (Suc j) ns (locked_blk s) \<longrightarrow> cache_room j ns' (locked_blk s)) \<and> wrote ip N (max (off + length bs) (fsize s ip)) off bs s s'"
proof -
  define s2 where "s2 = grown ip (off + length bs) s1"
  note g = grown_simps [OF off, where s = s1 and ip = ip, folded s2_def]
  have ib: "inode_blk s2 ip = inode_blk s ip" by (simp add: inode_blk_def g s1)
  have u: "usable st sz s2 (inode_blk s2 ip)" using ap unfolding ib by (simp add: inode_apart_def usable_def g s1)
  obtain s' where r: "iupdate sw (Suc m) ip s2 = Ok s'" and m: "moves p st sz (log_add (inode_blk s2 ip) ns)
      ((blk s2)(inode_blk s2 ip := put_dinode (dinode_off (i_inum (itable s2 ip))) (itable s2 ip) (blk s2 (inode_blk s2 ip)))) (locked_blk s2) s2 s'"
    using iupdate_ok [OF sv _ u, of p ns m] t c l d by (auto simp: g s1)
  note md = movesD [OF m] and ls = lsame_istate [OF movesD(2) [OF m]]
  have nb: "inode_blk s ip \<noteq> i_addrs (itable s ip) NDIRECT" "inode_blk s ip \<notin> fblock s ip ` {..<N}" using ap by (auto simp: inode_apart_def)
  have n31: "inode_blk s2 ip < 2 ^ 31" using u by (simp add: usable_def)
  have len: "length (blk s2 (inode_blk s2 ip)) = BSIZE" using blk_length [of s2] txnD(2) [of p st sz ns s2] t n31 by (simp add: g)
  have "fblock s' ip = fblock s1 ip" unfolding fblock_def md(3) ls ib using nb(1) by (simp add: fun_eq_iff g s1(1-3))
  then have f: "fblock s' ip = fblock s ip" by (simp add: s1(4))
  have fb: "file_byte s' ip i = file_byte s1 ip i" if "i < N * BSIZE" for i
  proof -
    have "fblock s ip (i div BSIZE) \<noteq> inode_blk s ip" using nb(2) less_mult_imp_div_less [OF that] by (metis imageI lessThan_iff)
    then show ?thesis by (simp add: file_byte_def f s1 md(3) ib g)
  qed
  have dn: "get_dinode (dinode_off (i_inum (itable s' ip))) (blk s' (inode_blk s' ip)) (itable s' ip) = itable s' ip"
    using dinode_reads_back [of "dinode_off (i_inum (itable s2 ip))"] dinode_fits len by (simp add: ls md(3) inode_blk_def)
  have "wrote ip N (max (off + length bs) (fsize s ip)) off bs s s'"
    unfolding wrote_def using f dn by1 o1 fb by (auto simp: md(3,4) ls g s1 ib inode_blk_def)
  moreover have "cache_room (Suc j) ns (locked_blk s) \<Longrightarrow> cache_room j (log_add (inode_blk s2 ip) ns) (locked_blk s)" for j by (rule cache_room_add)
  ultimately show ?thesis using r md(1) unfolding s2_def [symmetric] by blast
qed

lemma writei_wrote:
  assumes sv: "serves sw" and t: "txn p st sz ns s" and w: "writable_file st sz s ip N" and ap: "inode_apart st sz s ip N"
    and n: "length bs = unat n" and off: "unat off \<le> fsize s ip" "unat off + length bs \<le> N * BSIZE"
    and c: "cache_room (chunks (length bs) (unat off) + 2) ns (locked_blk s)" and l: "log_room (chunks (length bs) (unat off) + 1) sz ns s"
  shows "\<exists>ns' s'. writei sw (Suc m) ip (FromLocal bs) off n s = Ok (int (length bs), s') \<and> txn p st sz ns' s' \<and> cache_room 1 ns' (locked_blk s) \<and>
    wrote ip N (max (unat off + length bs) (fsize s ip)) (unat off) bs s s'"
proof -
  have d: "i_dev (itable s ip) = ROOTDEV" using w by (simp add: writable_file_def)
  note bd = writable_bound [OF w]
  have o32: "unat off + length bs < 2 ^ 32" using off(2) bd(2) by linarith
  then have un: "unat (off + n) = unat off + length bs" using unat_add_lem [of off n] n by simp
  have b0: "tot + length bs \<le> length bs" if "tot = 0" for tot using that by simp
  obtain ns1 s1 where lp: "writei_loop sw (Suc m) ip (FromLocal bs) (length bs) 0 (unat off) s = Ok ((length bs, unat off + length bs), s1)"
    and m1: "moves p st sz ns1 (blk s1) (locked_blk s) s s1" and c1: "cache_room 2 ns1 (locked_blk s)" "log_room 1 sz ns1 s"
    and f1: "fblock s1 ip = fblock s ip"
    and by1: "\<forall>i<N * BSIZE. file_byte s1 ip i = (if unat off \<le> i \<and> i < unat off + length bs then bs ! (i - unat off) else file_byte s ip i)"
    and o1: "\<forall>n. n \<notin> fblock s ip ` {..<N} \<longrightarrow> blk s1 n = blk s n"
    using writei_loop_spec [OF sv t w off(2) b0, of 0 1 m] c l by (auto simp: numeral_2_eq_2)
  have i1: "itable s1 = itable s" "fssb s1 = fssb s" using lsame_istate [OF movesD(2) [OF m1]] by simp_all
  have l1: "log_room 1 sz ns1 s1" using c1(2) log_room_moves [OF m1] by simp
  obtain ns' s' where r: "iupdate sw (Suc m) ip (grown ip (unat off + length bs) s1) = Ok s'" "txn p st sz ns' s'"
    and c': "\<forall>j. cache_room (Suc j) ns1 (locked_blk s) \<longrightarrow> cache_room j ns' (locked_blk s)"
    and wr: "wrote ip N (max (unat off + length bs) (fsize s ip)) (unat off) bs s s'"
    using finish_write [OF sv movesD(1) [OF m1] cache_room_mono [OF c1(1)] l1 ap d o32 i1 movesD(4) [OF m1] f1 by1 o1, of m] by auto
  have "writei sw (Suc m) ip (FromLocal bs) off n s = Ok (int (length bs), s')"
  proof -
    have g: "\<not> (off > i_size (itable s ip) \<or> off + n < off)" using off(1) un by (auto simp: word_less_nat_alt)
    have "unat (off + n) \<le> N * BSIZE" using off(2) un by simp
    also have "\<dots> \<le> MAXFILE * BSIZE" using bd(1) by simp
    finally show ?thesis using g lp r unfolding writei_def n [symmetric] by (simp add: Let_def grown_def i1)
  qed
  then show ?thesis using r(2) c' c1(1) wr by (auto simp: numeral_2_eq_2)
qed


end
