(* ===== verification/Fsdisk.thy ===== *)
theory Fsdisk
  imports Fssample Write
begin

unbundle bit_operations_syntax

text \<open>
  A small file system on which the hypotheses of the block allocator, file and directory theorems are checked: 48 blocks, the
  bitmap in block 45, the root directory in block 46, block 47 free. An operation has begun and has logged nothing yet.
\<close>

definition root_entries :: "u8 list" where
  "root_entries = [1, 0, 46, 0, 0, 0, 0, 0, 0, 0, 0, 0, 0, 0, 0, 0, 2, 0, 97, 0, 0, 0, 0, 0, 0, 0, 0, 0, 0, 0, 0, 0]"

definition bitmap_bytes :: "u8 list" where
  "bitmap_bytes = [255, 255, 255, 255, 255, 127]"

definition padded :: "u8 list \<Rightarrow> u8 list" where
  "padded bs = bs @ replicate (512 - length bs) 0"

definition small_disk :: "u64 \<Rightarrow> u8 list" where
  "small_disk sec = (if sec = 90 then padded bitmap_bytes else if sec = 92 then padded root_entries else replicate 512 0)"

definition begun_log :: log where
  "begun_log = \<lparr>l_start = 2, l_size = 30, l_outstanding = 1, l_committing = False, l_dev = 1, l_n = 0, l_block = (\<lambda>_. 0)\<rparr>"

definition small_sb :: superblock where
  "small_sb = sample_sb\<lparr>sb_size := 48\<rparr>"

definition no_inode :: inode where
  "no_inode = \<lparr>i_dev = 0, i_inum = 0, i_ref = 0, i_valid = False, i_type = 0, i_major = 0, i_minor = 0, i_nlink = 0, i_size = 0, i_addrs = (\<lambda>_. 0)\<rparr>"

definition root_inode :: inode where
  "root_inode = no_inode\<lparr>i_dev := 1, i_inum := 1, i_ref := 1, i_valid := True, i_type := T_DIR, i_nlink := 1, i_size := 32, i_addrs := (\<lambda>_. 0)(0 := 46)\<rparr>"

definition small_fs :: istate where
  "small_fs = lstate.extend (fs_machine chain_buf small_disk begun_log) (istate.fields small_sb ((\<lambda>_. no_inode)(0 := root_inode)))"

lemma small_fs_simps [simp]:
  "bufs small_fs = chain_buf" "sectors small_fs = small_disk" "logs small_fs = begun_log" "fssb small_fs = small_sb"
  "itable small_fs = (\<lambda>_. no_inode)(0 := root_inode)" "vd small_fs = idle_vd" "slocks small_fs = (\<lambda>_. free_sleeplock)"
  by (simp_all add: small_fs_def lstate.defs istate.defs)

lemma length_small_disk: "length (small_disk sec) = 512"
  by (simp add: small_disk_def padded_def bitmap_bytes_def root_entries_def)

lemma small_fs_base:
  "alone 0 small_fs" "cache_ok small_fs" "rc small_fs n = 0" "locked_blk small_fs n = False" "blk small_fs n = dblock small_disk n"
proof -
  let ?s = "fs_machine chain_buf small_disk begun_log"
  have b: "boots 0 small_disk ?s" by (rule empty_cache) (rule length_small_disk)
  show "alone 0 small_fs" using fs_machine_alone [of chain_buf small_disk begun_log] by (simp add: small_fs_def lstate.defs istate.defs alone_def)
  have "cache_ok ?s" using b by (simp add: boots_def calm_def)
  then show "cache_ok small_fs" by (simp add: cache_ok_def lru_def buf_ok_def)
  have n: "buf_of small_fs k = None" for k by (auto simp: buf_of_def find_None_iff chain_buf_def ROOTDEV_def)
  then show "rc small_fs n = 0" "locked_blk small_fs n = False" "blk small_fs n = dblock small_disk n"
    by (simp_all add: rc_def locked_blk_def blk_def)
qed

lemma small_fs_txn: "txn 0 2 30 [] small_fs" "cache_room 2 [] (locked_blk small_fs)" "log_room 2 30 [] small_fs"
  using small_fs_base by (auto simp: txn_def logged_def begun_log_def LOGSIZE_def MAXOPBLOCKS_def NBUF_def cache_room_def log_room_def)

lemma small_fs_room: "cache_room 1 [] (locked_blk small_fs)"
  by (rule cache_room_mono [OF small_fs_txn(2)]) simp

lemma small_blocks:
  "dblock small_disk 46 = padded root_entries @ replicate 512 0" "dblock small_disk 45 = padded bitmap_bytes @ replicate 512 0"
  by (simp_all add: dblock_def get_block_def sector_of_def small_disk_def word_less_nat_alt)

section \<open>The allocator\<close>

lemma small_bitmap_blk: "b < 48 \<Longrightarrow> bitmap_blk small_fs b = 45"
  using div_BPB [of b] by (simp add: bitmap_blk_def BBLOCK_def small_sb_def sample_sb_def) (simp add: BPB_eq)

lemma small_bitmap_length: "length bitmap_bytes = 6"
  by (simp add: bitmap_bytes_def)

lemma small_bits: "\<forall>b\<in>set [0..<48]. bit_free bitmap_bytes b \<longleftrightarrow> b = 47"
  by code_simp

lemma small_free: "b < 48 \<Longrightarrow> block_free small_fs b \<longleftrightarrow> b = 47"
proof -
  assume b: "b < 48"
  have "block_free small_fs b = bit_free (padded bitmap_bytes @ replicate 512 0) b"
    unfolding block_free_def small_bitmap_blk [OF b] small_fs_base small_blocks using b by (simp add: BPB_eq)
  also have "\<dots> = bit_free bitmap_bytes b"
    using b small_bitmap_length by (simp add: bit_free_def padded_def nth_append less_mult_imp_div_less)
  also have "\<dots> \<longleftrightarrow> b = 47" using small_bits b by simp
  finally show ?thesis .
qed

lemma not_in_region: "32 \<le> n \<Longrightarrow> n < 2 ^ 31 \<Longrightarrow> (of_nat n :: u32) \<notin> region 2 30"
proof
  assume n: "32 \<le> n" "n < 2 ^ 31" and "(of_nat n :: u32) \<in> region 2 30"
  then obtain k where "(of_nat n :: u32) = of_nat k" "k < 32" by (auto simp: region_def)
  then have "unat (of_nat n :: u32) = unat (of_nat k :: u32)" by metis
  then show False using n \<open>k < 32\<close> by (simp add: unat_of_nat take_bit_nat_eq_self)
qed

lemma small_usable: "n < 48 \<Longrightarrow> 32 \<le> n \<Longrightarrow> usable 2 30 small_fs (of_nat n)"
  using not_in_region [of n] u32_small(1) [of n] by (simp add: usable_def small_fs_base)

lemma small_nblocks: "nblocks small_fs = 48"
  by (simp add: small_sb_def)

lemma small_bitmap_ok: "bitmap_ok 2 30 small_fs"
  using small_usable [of 45] small_usable [of 47]
  by (auto simp: bitmap_ok_def small_nblocks small_bitmap_blk small_free simp del: small_fs_simps)

lemma balloc_allocates_witness:
  "\<exists>s'. balloc (disk_switch (\<lambda>_ _. 0)) 1 ROOTDEV small_fs = Ok (47, s') \<and> \<not> block_free s' 47 \<and> blk s' 46 = blk small_fs 46"
proof -
  have f: "find (block_free small_fs) [0..<nblocks small_fs] = Some 47"
    unfolding small_nblocks find_Some_iff by (rule exI [of _ 47]) (auto simp: small_free)
  have q: "\<not> panicked small_fs" "pr_locking small_fs"
    by (simp_all add: small_fs_def fs_machine_def lstate.defs istate.defs slstate.defs dstate.defs empty_pipe_def terminal_def machine_def pstate.defs cstate.defs pipestate.defs)
  from balloc_allocates [OF disk_switch_serves [of "\<lambda>_ _. 0"] small_fs_txn(1) small_bitmap_ok small_fs_txn(2,3) q, of 0] f
  show ?thesis by (force simp: small_nblocks small_bitmap_blk simp del: small_fs_simps)
qed

section \<open>The root directory\<close>

lemma root_file_ok: "file_ok small_fs 0"
  by (auto simp: file_ok_def root_inode_def mapped_def readable_blk_def fblock_def small_fs_base ROOTDEV_def BSIZE_def
      MAXFILE_def NDIRECT_def NINDIRECT_def word_less_nat_alt)

lemma root_bytes: "file_bytes small_fs 0 = root_entries"
proof -
  have l: "length root_entries = 32" by (simp add: root_entries_def)
  then have "i < 32 \<Longrightarrow> file_byte small_fs 0 i = root_entries ! i" for i
    by (simp add: file_byte_def fblock_def root_inode_def NDIRECT_def BSIZE_def small_fs_base small_blocks padded_def nth_append)
  then show ?thesis by (intro nth_equalityI) (simp_all add: file_bytes_def root_inode_def l)
qed


lemma root_lookup: "lookup_result small_fs 0 [97, 0] = Some (1, 2)"
proof -
  have D: "strncmp_bytes DIRSIZ = strncmp_bytes (Suc (Suc (Suc 11)))" by (simp add: DIRSIZ_def)
  have "get16 0 (dir_entry small_fs 0 1) = 2" "get16 0 (dir_entry small_fs 0 0) = 1" "entry_is [97, 0] (dir_entry small_fs 0 1)" "\<not> entry_is [97, 0] (dir_entry small_fs 0 0)"
    by (simp_all add: entry_is_def dir_entry_def root_bytes root_entries_def get16_def namecmp_def D del: Suc_numeral)
  then show ?thesis by (simp add: lookup_result_def root_inode_def upt_rec)
qed

lemma dirlookup_finds_witness:
  "\<exists>s'. dirlookup (disk_switch (\<lambda>_ _. 0)) 1 0 [97, 0] small_fs = Ok (Some (1, 16), s') \<and> i_inum (itable s' 1) = 2 \<and> i_ref (itable s' 1) = 1"
proof -
  have e: "[0..<NINODE] = 0 # 1 # [2..<NINODE]" by (simp add: NINODE_def upt_conv_Cons)
  have sl: "inode_slot ROOTDEV 2 (itable small_fs) = Some 1"
    unfolding inode_slot_def e by (auto simp: find_None_iff root_inode_def no_inode_def split: option.splits dest!: find_SomeD)
  have n1: "i_ref (itable small_fs (Suc 0)) = 0" by (simp add: no_inode_def)
  have h: "i_type (itable small_fs 0) = T_DIR" "16 dvd fsize small_fs 0" by (simp_all add: root_inode_def)
  from dirlookup_finds [OF disk_switch_serves [of "\<lambda>_ _. 0"] small_fs_txn(1) small_fs_room root_file_ok h, of "[97, 0]" 0] sl root_lookup
  show ?thesis by (auto simp: referenced_def n1 simp del: small_fs_simps(5))
qed

section \<open>Writing an entry\<close>

lemma root_fblock: "fblock small_fs 0 k = (if k = 0 then 46 else 0)"
  by (auto simp: fblock_def root_inode_def NDIRECT_def)

lemma root_writable: "writable_file 2 30 small_fs 0 1" "inode_apart 2 30 small_fs 0 1"
proof -
  have "mapped small_fs 0 0" using root_file_ok by (simp add: file_ok_def root_inode_def)
  then show "writable_file 2 30 small_fs 0 1"
    using small_usable [of 46] by (simp add: inj_on_def writable_file_def root_fblock root_inode_def ROOTDEV_def NDIRECT_def)
  have "inode_blk small_fs 0 = 32" by (simp add: inode_blk_def IBLOCK_def root_inode_def small_sb_def sample_sb_def IPB_def BSIZE_def)
  then show "inode_apart 2 30 small_fs 0 1"
    using small_usable [of 32] by (auto simp: inode_apart_def root_fblock root_inode_def NDIRECT_def)
qed


end
