(* ===== verification/Mkfs.thy ===== *)
theory Mkfs
  imports Fs
begin

unbundle bit_operations_syntax

text \<open>
  The program that builds the file system image, mkfs/mkfs.c. The image is a file of blocks, whose unwritten blocks read as zeroes up to
  its length; a \<open>struct dinode\<close> is its 64 bytes. \<open>die\<close> and a failed \<open>assert\<close> are \<open>Err (Panic _)\<close>. The files to be
  copied are given with their contents, \<open>None\<close> for one that cannot be opened; writing the image file itself is taken to
  succeed. What is printed is left out.
\<close>

section \<open>Layout\<close>

definition FSSIZE :: nat where "FSSIZE = 2000"
definition NINODES :: nat where "NINODES = 200"

definition nbitmap :: nat where "nbitmap = FSSIZE div (BSIZE * 8) + 1"
definition ninodeblocks :: nat where "ninodeblocks = NINODES div IPB + 1"
definition nlog :: nat where "nlog = LOGSIZE"
definition nmeta :: nat where "nmeta = 2 + nlog + ninodeblocks + nbitmap"

record mstate =
  img :: "nat \<Rightarrow> u8 list"
  img_len :: nat
  m_sb :: superblock
  freeinode :: u32
  freeblock :: u32

definition zeroes :: "u8 list" where
  "zeroes = replicate BSIZE 0"

text \<open>The host is little endian.\<close>

definition xshort :: "u16 \<Rightarrow> u16" where
  "xshort x = get16 0 [ucast x, ucast (drop_bit 8 x)]"

definition xint :: "u32 \<Rightarrow> u32" where
  "xint x = get32 0 [ucast x, ucast (drop_bit 8 x), ucast (drop_bit 16 x), ucast (drop_bit 24 x)]"

section \<open>Blocks and inodes\<close>

text \<open>The block at the offset \<open>sec * BSIZE\<close>, computed with 32 bits.\<close>

definition at_sec :: "u32 \<Rightarrow> nat" where
  "at_sec sec = unat (sec * of_nat BSIZE) div BSIZE"

definition wsect :: "u32 \<Rightarrow> u8 list \<Rightarrow> mstate \<Rightarrow> mstate" where
  "wsect sec buf s = s\<lparr>img := (img s)(at_sec sec := buf), img_len := max (img_len s) (Suc (at_sec sec))\<rparr>"

definition rsect :: "u32 \<Rightarrow> mstate \<Rightarrow> u8 list res" where
  "rsect sec s = (if at_sec sec < img_len s then Ok (img s (at_sec sec)) else Err (Panic ''read''))"

definition winode :: "u32 \<Rightarrow> u8 list \<Rightarrow> mstate \<Rightarrow> mstate res" where
  "winode inum ip s =
     (let bn = IBLOCK inum (m_sb s)
      in bnd (rsect bn s) (\<lambda>buf. Ok (wsect bn (put_bytes (dinode_off inum) ip buf) s)))"

definition rinode :: "u32 \<Rightarrow> mstate \<Rightarrow> u8 list res" where
  "rinode inum s =
     (let bn = IBLOCK inum (m_sb s) in bnd (rsect bn s) (\<lambda>buf. Ok (get_bytes (dinode_off inum) 64 buf)))"

text \<open>Fields of a \<open>struct dinode\<close>.\<close>

abbreviation d_type :: "u8 list \<Rightarrow> u16" where "d_type din \<equiv> get16 0 din"
abbreviation d_nlink :: "u8 list \<Rightarrow> u16" where "d_nlink din \<equiv> get16 6 din"
abbreviation d_size :: "u8 list \<Rightarrow> u32" where "d_size din \<equiv> get32 8 din"
abbreviation d_addr :: "u8 list \<Rightarrow> nat \<Rightarrow> u32" where "d_addr din k \<equiv> get32 (12 + 4 * k) din"

definition ialloc :: "u16 \<Rightarrow> mstate \<Rightarrow> (u32 \<times> mstate) res" where
  "ialloc type s =
     (let inum = freeinode s; s1 = s\<lparr>freeinode := freeinode s + 1\<rparr>;
          din = put32 8 (xint 0) (put16 6 (xshort 1) (put16 0 (xshort type) (replicate 64 0)))
      in bnd (winode inum din s1) (\<lambda>s2. Ok (inum, s2)))"

definition set_bit8 :: "nat \<Rightarrow> u8 list \<Rightarrow> u8 list" where
  "set_bit8 i buf = buf[i div 8 := buf ! (i div 8) OR push_bit (i mod 8) 1]"

definition balloc :: "int \<Rightarrow> mstate \<Rightarrow> mstate res" where
  "balloc n s =
     (if \<not> n < int (BSIZE * 8) then Err (Panic ''assert'')
      else Ok (wsect (sb_bmapstart (m_sb s)) (fold set_bit8 [0..<nat n] (replicate BSIZE 0)) s))"

section \<open>Appending\<close>

definition new_block :: "mstate \<Rightarrow> u32 \<times> mstate" where
  "new_block s = (freeblock s, s\<lparr>freeblock := freeblock s + 1\<rparr>)"

text \<open>The block for position \<open>fbn\<close> of the file, allocated if need be, with the inode and the state.\<close>

definition block_for :: "nat \<Rightarrow> u8 list \<Rightarrow> mstate \<Rightarrow> (u32 \<times> u8 list \<times> mstate) res" where
  "block_for fbn din s =
     (if fbn < NDIRECT then
        let (din, s) = (if xint (d_addr din fbn) = 0 then let (b, s) = new_block s in (put32 (12 + 4 * fbn) (xint b) din, s) else (din, s))
        in Ok (xint (d_addr din fbn), din, s)
      else
        let (din, s) = (if xint (d_addr din NDIRECT) = 0 then let (b, s) = new_block s in (put32 (12 + 4 * NDIRECT) (xint b) din, s) else (din, s));
            k = 4 * (fbn - NDIRECT)
        in bnd (rsect (xint (d_addr din NDIRECT)) s) (\<lambda>indirect.
           let (indirect, s) = (if get32 k indirect = 0
                 then let (b, s) = new_block s; indirect = put32 k (xint b) indirect in (indirect, wsect (xint (d_addr din NDIRECT)) indirect s)
                 else (indirect, s))
           in Ok (xint (get32 k indirect), din, s)))"

function iappend_loop :: "u8 list \<Rightarrow> nat \<Rightarrow> u8 list \<Rightarrow> mstate \<Rightarrow> (u8 list \<times> nat \<times> mstate) res" where
  "iappend_loop din off p s =
     (if p = [] then Ok (din, off, s)
      else let fbn = off div BSIZE
      in if \<not> fbn < MAXFILE then Err (Panic ''assert'')
         else bnd (block_for fbn din s) (\<lambda>(x, din, s).
           let n1 = min (length p) ((fbn + 1) * BSIZE - off)
           in bnd (rsect x s) (\<lambda>buf.
              iappend_loop din (off + n1) (drop n1 p) (wsect x (put_bytes (off - fbn * BSIZE) (take n1 p) buf) s))))"
  by pat_completeness auto
termination
proof (relation "measure (\<lambda>(_, _, p, _). length p)", goal_cases)
  case (2 din off p s fbn)
  have "off mod BSIZE < BSIZE" by (simp add: BSIZE_def)
  then have "off < (off div BSIZE + 1) * BSIZE" using div_mult_mod_eq [of off BSIZE] unfolding add_mult_distrib by linarith
  then show ?case using 2 by auto
qed simp

declare iappend_loop.simps [simp del]

definition iappend :: "u32 \<Rightarrow> u8 list \<Rightarrow> mstate \<Rightarrow> mstate res" where
  "iappend inum p s =
     bnd (rinode inum s) (\<lambda>din.
     bnd (iappend_loop din (unat (xint (d_size din))) p s) (\<lambda>(din, off, s).
     winode inum (put32 8 (xint (of_nat off)) din) s))"

section \<open>The program\<close>

text \<open>Names and contents are bytes. The text \<open>user/\<close>, the byte of \<open>/\<close> and of the underscore.\<close>

definition user_prefix :: "u8 list" where "user_prefix = [117, 115, 101, 114, 47]"
definition underscore :: u8 where "underscore = 95"

definition shortname :: "u8 list \<Rightarrow> u8 list res" where
  "shortname arg =
     (let n = (if take 5 arg = user_prefix then drop 5 arg else arg)
      in if slash \<in> set n then Err (Panic ''assert'') else Ok n)"

definition skip_underscore :: "u8 list \<Rightarrow> u8 list" where
  "skip_underscore n = (if n \<noteq> [] \<and> hd n = underscore then tl n else n)"

text \<open>\<open>read\<close> of a file in pieces of the size of the buffer.\<close>

function copy_loop :: "u32 \<Rightarrow> u8 list \<Rightarrow> mstate \<Rightarrow> mstate res" where
  "copy_loop inum content s =
     (if content = [] then Ok s
      else bnd (iappend inum (take BSIZE content) s) (copy_loop inum (drop BSIZE content)))"
  by pat_completeness auto
termination
  by (relation "measure (\<lambda>(_, c, _). length c)") (simp_all add: BSIZE_def)

declare copy_loop.simps [simp del]

definition add_file :: "u32 \<Rightarrow> u8 list \<times> u8 list option \<Rightarrow> mstate \<Rightarrow> mstate res" where
  "add_file rootino = (\<lambda>(arg, file) s.
     bnd (shortname arg) (\<lambda>n.
     case file of None \<Rightarrow> Err (Panic ''open'')
     | Some content \<Rightarrow>
       bnd (ialloc T_FILE s) (\<lambda>(inum, s).
       bnd (iappend rootino (dirent_bytes inum (skip_underscore n)) s) (copy_loop inum content))))"

definition sb_bytes :: "superblock \<Rightarrow> u8 list" where
  "sb_bytes sb =
     fold (\<lambda>(i, v). put32 i v)
       [(0, sb_magic sb), (4, sb_size sb), (8, sb_nblocks sb), (12, sb_ninodes sb), (16, sb_nlog sb), (20, sb_logstart sb),
        (24, sb_inodestart sb), (28, sb_bmapstart sb)] (replicate BSIZE 0)"

definition mkfs_sb :: superblock where
  "mkfs_sb = \<lparr>sb_magic = FSMAGIC, sb_size = xint (of_nat FSSIZE), sb_nblocks = xint (of_nat (FSSIZE - nmeta)), sb_ninodes = xint (of_nat NINODES),
     sb_nlog = xint (of_nat nlog), sb_logstart = xint 2, sb_inodestart = xint (of_nat (2 + nlog)),
     sb_bmapstart = xint (of_nat (2 + nlog + ninodeblocks))\<rparr>"

definition mkfs_start :: mstate where
  "mkfs_start =
     wsect 1 (sb_bytes mkfs_sb)
       (fold (\<lambda>i. wsect (of_nat i) zeroes) [0..<FSSIZE]
         \<lparr>img = (\<lambda>_. zeroes), img_len = 0, m_sb = mkfs_sb, freeinode = 1, freeblock = of_nat nmeta\<rparr>)"

definition fix_root :: "u32 \<Rightarrow> mstate \<Rightarrow> mstate res" where
  "fix_root rootino s =
     bnd (rinode rootino s) (\<lambda>din.
     let off = xint (d_size din); off = (off div of_nat BSIZE + 1) * of_nat BSIZE in winode rootino (put32 8 (xint off) din) s)"

definition mkfs_main :: "(u8 list \<times> u8 list option) list \<Rightarrow> mstate res" where
  "mkfs_main files =
     bnd (ialloc T_DIR mkfs_start) (\<lambda>(rootino, s).
     if rootino \<noteq> ROOTINO then Err (Panic ''assert'')
     else bnd (iappend rootino (dirent_bytes rootino [46]) s) (\<lambda>s.
       bnd (iappend rootino (dirent_bytes rootino [46, 46]) s) (\<lambda>s.
       bnd (for_each files (add_file rootino) s) (\<lambda>s.
       bnd (fix_root rootino s) (\<lambda>s.
       balloc (uint (freeblock s)) s)))))"

end
