(* ===== verification/Mkimage.thy ===== *)
theory Mkimage
  imports Mkfs
begin

unbundle bit_operations_syntax

text \<open>
  What mkfs writes: the image holds exactly the files it was given. The state of the program represents a list of inodes, each with
  its type and its bytes; \<open>ialloc\<close> adds an empty one to the list and \<open>iappend\<close> appends to one of them.
\<close>

section \<open>Words and blocks\<close>

lemma xint_id [simp]: "xint x = x"
  by (simp add: xint_def get32_def split32)

lemma xshort_id [simp]: "xshort x = x"
  by (simp add: xshort_def get16_def split16)

lemma nmeta_eq: "nmeta = 46"
  by (simp add: nmeta_def nlog_def ninodeblocks_def nbitmap_def LOGSIZE_def MAXOPBLOCKS_def NINODES_def IPB_def FSSIZE_def BSIZE_def)

lemma unat_blk: "b < FSSIZE \<Longrightarrow> unat (of_nat b :: u32) = b"
  by (simp add: FSSIZE_def unat_of_nat take_bit_nat_eq_self)

lemma of_nat_blk_0: "b < FSSIZE \<Longrightarrow> (of_nat b :: u32) = 0 \<longleftrightarrow> b = 0"
proof
  assume "b < FSSIZE" "(of_nat b :: u32) = 0"
  then show "b = 0" using unat_blk [of b] by simp
qed simp

lemma at_sec_blk: "b < FSSIZE \<Longrightarrow> at_sec (of_nat b) = b"
proof -
  assume b: "b < FSSIZE"
  have "(of_nat b :: u32) * of_nat BSIZE = of_nat (b * BSIZE)" by simp
  moreover have "b * BSIZE < 2 ^ LENGTH(32)" using b by (simp add: FSSIZE_def BSIZE_def)
  then have "unat (of_nat (b * BSIZE) :: u32) = b * BSIZE" by (simp only: unat_of_nat mod_less)
  ultimately have "at_sec (of_nat b) = b * BSIZE div BSIZE" by (simp only: at_sec_def)
  then show ?thesis by (simp add: BSIZE_def)
qed

lemma inode_sb [simp]: "sb_inodestart mkfs_sb = 32" "sb_bmapstart mkfs_sb = 45"
  by (simp_all add: mkfs_sb_def nlog_def ninodeblocks_def LOGSIZE_def MAXOPBLOCKS_def NINODES_def IPB_def BSIZE_def)

text \<open>The block of an inode.\<close>

definition iblk :: "nat \<Rightarrow> nat" where
  "iblk i = 32 + i div 16"

lemma iblk_range: "i < 200 \<Longrightarrow> 32 \<le> iblk i \<and> iblk i < 45"
  by (auto simp: iblk_def)

lemma iblk_eq: "i < 200 \<Longrightarrow> IBLOCK (of_nat i) mkfs_sb = of_nat (iblk i)"
proof -
  assume i: "i < 200"
  have u: "unat (of_nat i :: u32) = i" using i by (simp add: unat_of_nat take_bit_nat_eq_self)
  have "unat ((of_nat i :: u32) div 16) = i div 16" by (simp add: unat_div u)
  then have "(of_nat i :: u32) div 16 = of_nat (i div 16)" by (metis of_nat_unat ucast_id)
  then show ?thesis by (simp add: IBLOCK_def IPB_def BSIZE_def iblk_def)
qed

lemma dinode_off_eq: "i < 200 \<Longrightarrow> dinode_off (of_nat i) = 64 * (i mod 16)"
  by (simp add: dinode_off_def IPB_def BSIZE_def unat_of_nat take_bit_nat_eq_self)

section \<open>The blocks of a file\<close>

text \<open>The block number in position \<open>k\<close>, as \<open>bmap\<close> of kernel/fs.c finds it.\<close>

definition addr_of :: "mstate \<Rightarrow> u8 list \<Rightarrow> nat \<Rightarrow> u32" where
  "addr_of s din k = (if k < NDIRECT then d_addr din k else if d_addr din NDIRECT = 0 then 0
     else get32 (4 * (k - NDIRECT)) (img s (unat (d_addr din NDIRECT))))"

text \<open>The inode names exactly the blocks \<open>bs\<close>, those from position \<open>NDIRECT\<close> on through the block \<open>ind\<close> (0 if there is none).\<close>

definition names :: "mstate \<Rightarrow> u8 list \<Rightarrow> nat list \<Rightarrow> nat \<Rightarrow> bool" where
  "names s din bs ind \<longleftrightarrow> length din = 64 \<and> d_addr din NDIRECT = of_nat ind \<and> (ind = 0 \<longleftrightarrow> length bs \<le> NDIRECT) \<and> length bs \<le> MAXFILE \<and>
     (\<forall>k<MAXFILE. addr_of s din k = (if k < length bs then of_nat (bs ! k) else 0))"

definition blocks_in :: "nat list \<Rightarrow> nat \<Rightarrow> nat list" where
  "blocks_in bs ind = (if ind = 0 then bs else ind # bs)"

text \<open>The blocks in use are \<open>B\<close>, those from \<open>nmeta\<close> to \<open>freeblock\<close>; the others are still zero.\<close>

definition pool :: "mstate \<Rightarrow> nat set \<Rightarrow> bool" where
  "pool s B \<longleftrightarrow> nmeta + card B \<le> FSSIZE \<and> B = {nmeta..<nmeta + card B} \<and> freeblock s = of_nat (nmeta + card B) \<and> img_len s = FSSIZE \<and>
     m_sb s = mkfs_sb \<and> (\<forall>p<FSSIZE. length (img s p) = BSIZE) \<and> (\<forall>p<FSSIZE. nmeta + card B \<le> p \<longrightarrow> img s p = zeroes)"

lemma poolD:
  assumes "pool s B"
  shows "nmeta + card B \<le> FSSIZE" "B = {nmeta..<nmeta + card B}" "freeblock s = of_nat (nmeta + card B)" "img_len s = FSSIZE" "m_sb s = mkfs_sb"
    "\<And>p. p < FSSIZE \<Longrightarrow> length (img s p) = BSIZE" "\<And>p. p < FSSIZE \<Longrightarrow> nmeta + card B \<le> p \<Longrightarrow> img s p = zeroes" "finite B"
proof -
  show b: "B = {nmeta..<nmeta + card B}" using assms by (simp add: pool_def)
  show "finite B" by (subst b) simp
qed (use assms in \<open>simp_all add: pool_def\<close>)

lemma pool_mem: "pool s B \<Longrightarrow> b \<in> B \<longleftrightarrow> nmeta \<le> b \<and> b < nmeta + card B"
  using poolD(2) [of s B] by (metis atLeastLessThan_iff)

lemma pool_range: "pool s B \<Longrightarrow> b \<in> B \<Longrightarrow> nmeta \<le> b \<and> b < FSSIZE \<and> b \<noteq> 0"
  using pool_mem [of s B b] poolD(1) [of s B] by (auto simp: nmeta_eq)

text \<open>The next block.\<close>

lemma pool_new:
  assumes p: "pool s B" and room: "nmeta + card B < FSSIZE"
  shows "fst (new_block s) = of_nat (nmeta + card B)" "pool (snd (new_block s)) (insert (nmeta + card B) B)" "nmeta + card B \<notin> B"
    "img (snd (new_block s)) = img s" "freeinode (snd (new_block s)) = freeinode s" "card (insert (nmeta + card B) B) = Suc (card B)"
proof -
  let ?b = "nmeta + card B"
  show nb: "?b \<notin> B" by (subst poolD(2) [OF p]) simp
  show c: "card (insert ?b B) = Suc (card B)" using nb poolD(8) [OF p] by simp
  show "fst (new_block s) = of_nat ?b" "img (snd (new_block s)) = img s" "freeinode (snd (new_block s)) = freeinode s"
    using poolD(3) [OF p] by (simp_all add: new_block_def)
  have e: "insert ?b B = {nmeta..<nmeta + Suc (card B)}"
  proof (rule set_eqI)
    show "x \<in> insert ?b B \<longleftrightarrow> x \<in> {nmeta..<nmeta + Suc (card B)}" for x using pool_mem [OF p, of x] by auto
  qed
  let ?s = "snd (new_block s)"
  have "freeblock ?s = of_nat (nmeta + Suc (card B))" "img_len ?s = FSSIZE" "m_sb ?s = mkfs_sb" "img ?s = img s"
    using poolD(3-5) [OF p] by (simp_all add: new_block_def)
  moreover have "\<forall>p<FSSIZE. length (img s p) = BSIZE" "\<forall>p<FSSIZE. nmeta + Suc (card B) \<le> p \<longrightarrow> img s p = zeroes"
    using poolD(6,7) [OF p] by simp_all
  ultimately show "pool ?s (insert ?b B)" using e room unfolding pool_def c by (metis Suc_leI add_Suc_right)
qed

lemma rsect_blk: "pool s B \<Longrightarrow> b < FSSIZE \<Longrightarrow> rsect (of_nat b) s = Ok (img s b)"
  by (simp add: rsect_def at_sec_blk pool_def)

lemma wsect_blk: "pool s B \<Longrightarrow> b < FSSIZE \<Longrightarrow> wsect (of_nat b) buf s = s\<lparr>img := (img s)(b := buf)\<rparr>"
  by (simp add: wsect_def at_sec_blk pool_def max_def)

lemma pool_write: "pool s B \<Longrightarrow> b < nmeta + card B \<Longrightarrow> length buf = BSIZE \<Longrightarrow> pool (s\<lparr>img := (img s)(b := buf)\<rparr>) B"
  by (auto simp: pool_def)
section \<open>Allocating a block of a file\<close>

lemma dims: "NDIRECT = 12" "MAXFILE = 268" "BSIZE = 1024" "FSSIZE = 2000" "NINDIRECT = 256"
  by (simp_all add: NDIRECT_def MAXFILE_def NINDIRECT_def BSIZE_def FSSIZE_def)

lemma namesD:
  assumes "names s din bs ind"
  shows "length din = 64" "d_addr din NDIRECT = of_nat ind" "ind = 0 \<longleftrightarrow> length bs \<le> NDIRECT" "length bs \<le> MAXFILE"
    "\<And>k. k < MAXFILE \<Longrightarrow> addr_of s din k = (if k < length bs then of_nat (bs ! k) else 0)"
  using assms by (simp_all add: names_def)

lemma addr_indirect: "NDIRECT \<le> k \<Longrightarrow> d_addr din NDIRECT = of_nat ind \<Longrightarrow> ind \<noteq> 0 \<Longrightarrow> ind < FSSIZE \<Longrightarrow> addr_of s din k = get32 (4 * (k - NDIRECT)) (img s ind)"
  by (simp add: addr_of_def unat_blk of_nat_blk_0 del: One_nat_def)

lemma block_for_old:
  assumes n: "names s din bs ind" and p: "pool s B" and sub: "set (blocks_in bs ind) \<subseteq> B" and k: "k < length bs"
  shows "block_for k din s = Ok (of_nat (bs ! k), din, s)"
proof -
  have km: "k < MAXFILE" using k namesD(4) [OF n] by simp
  have a: "addr_of s din k = of_nat (bs ! k)" using namesD(5) [OF n km] k by simp
  have "bs ! k \<in> B" using k sub nth_mem [OF k] by (auto simp: blocks_in_def split: if_splits)
  then have nz: "(of_nat (bs ! k) :: u32) \<noteq> 0" using pool_range [OF p] of_nat_blk_0 by blast
  show ?thesis
  proof (cases "k < NDIRECT")
    case True
    then show ?thesis using a nz by (simp add: block_for_def addr_of_def)
  next
    case False
    then have i0: "ind \<noteq> 0" using k namesD(3) [OF n] by simp
    then have "ind \<in> B" using sub by (simp add: blocks_in_def)
    then have i: "ind < FSSIZE" using pool_range [OF p] by blast
    then have "get32 (4 * (k - NDIRECT)) (img s ind) = of_nat (bs ! k)" using a addr_indirect [OF _ namesD(2) [OF n] i0] False by simp
    then show ?thesis using False namesD(2) [OF n] i i0 nz rsect_blk [OF p i] by (simp add: block_for_def of_nat_blk_0)
  qed
qed

definition extends :: "mstate \<Rightarrow> nat set \<Rightarrow> u8 list \<Rightarrow> nat list \<Rightarrow> nat \<Rightarrow> mstate \<Rightarrow> nat set \<Rightarrow> u8 list \<Rightarrow> nat list \<Rightarrow> nat \<Rightarrow> bool" where
  "extends s B din bs ind s' B' din' bs' ind' \<longleftrightarrow> take 12 din' = take 12 din \<and> freeinode s' = freeinode s \<and> pool s' B' \<and> names s' din' bs' ind' \<and>
     distinct (blocks_in bs' ind') \<and> set (blocks_in bs' ind') \<inter> B = set (blocks_in bs ind) \<and> B' = B \<union> set (blocks_in bs' ind') \<and>
     (\<forall>p. p \<notin> set (blocks_in bs' ind') \<longrightarrow> img s' p = img s p)"

lemma addr_put_other: "j \<noteq> k \<Longrightarrow> d_addr (put32 (12 + 4 * k) v din) j = d_addr din j"
  by (cases "j < k") (auto intro: get32_put32_other)

lemma take12_put: "take 12 (put32 (12 + 4 * k) v din) = take 12 din"
  by (simp add: put32_def)

lemma block_for_direct:
  assumes n: "names s din bs ind" and p: "pool s B" and sub: "set (blocks_in bs ind) \<subseteq> B" "distinct (blocks_in bs ind)"
    and k: "length bs < NDIRECT" and room: "nmeta + card B < FSSIZE"
  defines "b \<equiv> nmeta + card B"
  shows "\<exists>s' B' din'. block_for (length bs) din s = Ok (of_nat b, din', s') \<and> extends s B din bs ind s' B' din' (bs @ [b]) ind \<and> img s' = img s"
proof -
  let ?k = "length bs" and ?s = "snd (new_block s)"
  let ?d = "put32 (12 + 4 * ?k) (of_nat b) din"
  note pn = pool_new [OF p room, folded b_def]
  have i0: "ind = 0" using k namesD(3) [OF n] by simp
  have z: "d_addr din ?k = 0" using namesD(5) [OF n, of ?k] k by (simp add: addr_of_def dims)
  have g: "d_addr ?d ?k = of_nat b" using k namesD(1) [OF n] by (simp add: dims)
  have bf: "block_for ?k din s = Ok (of_nat b, ?d, ?s)" using k z pn(1) g by (simp add: block_for_def case_prod_unfold Let_def)
  have nd: "d_addr ?d NDIRECT = d_addr din NDIRECT" using k by (intro addr_put_other) simp
  have "addr_of ?s ?d j = (if j < Suc ?k then of_nat ((bs @ [b]) ! j) else 0)" if j: "j < MAXFILE" for j
  proof (cases "j = ?k")
    case True
    then show ?thesis using k g by (simp add: addr_of_def)
  next
    case False
    then have "addr_of ?s ?d j = addr_of s din j" using nd addr_put_other [OF False] pn(4) by (simp add: addr_of_def)
    then show ?thesis using namesD(5) [OF n j] False by (simp add: nth_append)
  qed
  then have "names ?s ?d (bs @ [b]) ind" using namesD(1-3) [OF n] nd k i0 unfolding names_def by (simp add: dims)
  moreover have "b \<notin> set bs" using pn(3) sub(1) i0 by (auto simp: blocks_in_def)
  ultimately have "extends s B din bs ind ?s (insert b B) ?d (bs @ [b]) ind"
    using pn sub i0 take12_put by (auto simp: extends_def blocks_in_def)
  then show ?thesis using bf pn(4) by blast
qed
text \<open>A new entry of the indirect block.\<close>

lemma get32_zeroes: "i + 3 < BSIZE \<Longrightarrow> get32 i zeroes = 0"
  by (simp add: get32_def zeroes_def)

lemma indirect_entry:
  assumes p: "pool s B" and i: "ind \<in> B" and k: "NDIRECT \<le> length bs" "length bs < MAXFILE" and d: "d_addr din NDIRECT = of_nat ind"
    and a: "\<And>j. j < MAXFILE \<Longrightarrow> addr_of s din j = (if j < length bs then of_nat (bs ! j) else 0)" and room: "nmeta + card B < FSSIZE"
  defines "b \<equiv> nmeta + card B" and "o' \<equiv> 4 * (length bs - NDIRECT)"
  defines "buf \<equiv> put32 o' (of_nat b) (img s ind)"
  defines "s2 \<equiv> (snd (new_block s))\<lparr>img := (img s)(ind := buf)\<rparr>"
  shows "get32 o' (img s ind) = 0" "get32 o' buf = of_nat b" "wsect (of_nat ind) buf (snd (new_block s)) = s2" "pool s2 (insert b B)" "freeinode s2 = freeinode s"
    "\<And>j. j < MAXFILE \<Longrightarrow> addr_of s2 din j = (if j < Suc (length bs) then of_nat ((bs @ [b]) ! j) else 0)"
proof -
  let ?k = "length bs" and ?s1 = "snd (new_block s)"
  note pn = pool_new [OF p room, folded b_def]
  have r: "ind < FSSIZE" "ind \<noteq> 0" "ind < nmeta + card B" using pool_range [OF p i] pool_mem [OF p] i by auto
  note ad = addr_indirect [OF _ d r(2,1)]
  show "get32 o' (img s ind) = 0" using a [OF k(2)] ad [OF k(1), of s] by (simp add: o'_def)
  have l: "length (img s ind) = BSIZE" by (rule poolD(6) [OF p r(1)])
  have ob: "o' + 3 < BSIZE" using k by (simp add: o'_def dims)
  show g: "get32 o' buf = of_nat b" using l ob by (simp add: buf_def)
  show "wsect (of_nat ind) buf ?s1 = s2" using wsect_blk [OF pn(2) r(1), of buf] pn(4) by (simp add: s2_def)
  have lb: "length buf = BSIZE" using l by (simp add: buf_def)
  have "ind < nmeta + card (insert b B)" using r(3) pn(6) by simp
  from pool_write [OF pn(2) this lb] show "pool s2 (insert b B)" by (simp add: s2_def pn(4))
  show "freeinode s2 = freeinode s" using pn(5) by (simp add: s2_def)
  fix j assume j: "j < MAXFILE"
  show "addr_of s2 din j = (if j < Suc ?k then of_nat ((bs @ [b]) ! j) else 0)"
  proof (cases "j < NDIRECT")
    case True
    then have "addr_of s2 din j = addr_of s din j" by (simp add: addr_of_def)
    then show ?thesis using a [OF j] True k by (simp add: nth_append)
  next
    case False
    then have e: "addr_of s2 din j = get32 (4 * (j - NDIRECT)) buf" using ad [of j s2] by (simp add: s2_def)
    show ?thesis
    proof (cases "j = ?k")
      case True
      then show ?thesis using e g by (simp add: o'_def)
    next
      case jk: False
      have "get32 (4 * (j - NDIRECT)) buf = get32 (4 * (j - NDIRECT)) (img s ind)" unfolding buf_def o'_def
        by (rule get32_put32_other) (use jk False k in auto)
      then show ?thesis using e a [OF j] ad [of j s] False jk by (simp add: nth_append)
    qed
  qed
qed

lemma block_for_indirect:
  assumes n: "names s din bs ind" and p: "pool s B" and sub: "set (blocks_in bs ind) \<subseteq> B" "distinct (blocks_in bs ind)"
    and k: "NDIRECT < length bs" "length bs < MAXFILE" and room: "nmeta + card B < FSSIZE"
  defines "b \<equiv> nmeta + card B"
  shows "\<exists>s' B' din'. block_for (length bs) din s = Ok (of_nat b, din', s') \<and> extends s B din bs ind s' B' din' (bs @ [b]) ind \<and>
    (\<forall>q. q \<noteq> ind \<longrightarrow> img s' q = img s q)"
proof -
  have i0: "ind \<noteq> 0" using k namesD(3) [OF n] by simp
  then have i: "ind \<in> B" using sub(1) by (simp add: blocks_in_def)
  have r: "ind < FSSIZE" using pool_range [OF p i] by blast
  have k': "NDIRECT \<le> length bs" using k by simp
  note ie = indirect_entry [OF p i k' k(2) namesD(2) [OF n] namesD(5) [OF n] room, folded b_def]
  note pn = pool_new [OF p room, folded b_def]
  let ?buf = "put32 (4 * (length bs - NDIRECT)) (of_nat b) (img s ind)"
  let ?s2 = "(snd (new_block s))\<lparr>img := (img s)(ind := ?buf)\<rparr>"
  have bf: "block_for (length bs) din s = Ok (of_nat b, din, ?s2)"
    using k i0 r namesD(2) [OF n] rsect_blk [OF p r] ie(1-3) pn(1) by (simp add: block_for_def of_nat_blk_0 case_prod_unfold Let_def)
  have "names ?s2 din (bs @ [b]) ind" using namesD(1-4) [OF n] ie(6) k i0 unfolding names_def by simp
  moreover have "b \<notin> set (blocks_in bs ind)" using pn(3) sub(1) by blast
  ultimately have "extends s B din bs ind ?s2 (insert b B) din (bs @ [b]) ind"
    using ie(4,5) pn(3) sub i0 i by (auto simp: extends_def blocks_in_def)
  then show ?thesis using bf by (intro exI [of _ ?s2] exI [of _ "insert b B"] exI [of _ din]) simp
qed

lemma block_for_first_indirect:
  assumes n: "names s din bs ind" and p: "pool s B" and sub: "set (blocks_in bs ind) \<subseteq> B" "distinct (blocks_in bs ind)"
    and k: "length bs = NDIRECT" and room: "Suc (nmeta + card B) < FSSIZE"
  defines "b \<equiv> Suc (nmeta + card B)" and "ind' \<equiv> nmeta + card B"
  shows "\<exists>s' B' din'. block_for (length bs) din s = Ok (of_nat b, din', s') \<and> extends s B din bs ind s' B' din' (bs @ [b]) ind' \<and>
    (\<forall>q. q \<noteq> ind' \<longrightarrow> img s' q = img s q)"
proof -
  have i0: "ind = 0" using k namesD(3) [OF n] by simp
  have rm: "nmeta + card B < FSSIZE" using room by simp
  note p1 = pool_new [OF p rm, folded ind'_def]
  let ?s1 = "snd (new_block s)" and ?B1 = "insert ind' B"
  let ?d = "put32 (12 + 4 * NDIRECT) (of_nat ind') din"
  have room1: "nmeta + card ?B1 < FSSIZE" "nmeta + card ?B1 = b" using room p1(6) by (simp_all add: b_def)
  have i: "ind' \<in> ?B1" by simp
  have r: "ind' < FSSIZE" "ind' \<noteq> 0" using rm by (simp_all add: ind'_def nmeta_eq)
  have g: "d_addr ?d NDIRECT = of_nat ind'" using namesD(1) [OF n] by (simp add: dims)
  have z: "img ?s1 ind' = zeroes" using poolD(7) [OF p r(1)] p1(4) by (simp add: ind'_def)
  have ad: "addr_of ?s1 ?d j = (if j < length bs then of_nat (bs ! j) else 0)" if j: "j < MAXFILE" for j
  proof (cases "j < NDIRECT")
    case True
    then have "addr_of ?s1 ?d j = addr_of s din j" using addr_put_other [of j NDIRECT] by (simp add: addr_of_def)
    then show ?thesis using namesD(5) [OF n j] by simp
  next
    case False
    then show ?thesis using addr_indirect [OF _ g r(2,1), of j ?s1] z j k get32_zeroes [of "4 * (j - NDIRECT)"] by (simp add: dims)
  qed
  have k': "NDIRECT \<le> length bs" "length bs < MAXFILE" using k by (simp_all add: dims)
  note ie = indirect_entry [OF p1(2) i k' g ad room1(1), unfolded room1(2) p1(4)]
  note p2 = pool_new [OF p1(2) room1(1), unfolded room1(2)]
  let ?buf = "put32 (4 * (length bs - NDIRECT)) (of_nat b) (img s ind')"
  let ?s2 = "(snd (new_block ?s1))\<lparr>img := (img s)(ind' := ?buf)\<rparr>"
  have "d_addr din NDIRECT = 0" using namesD(2) [OF n] i0 by simp
  then have bf: "block_for (length bs) din s = Ok (of_nat b, ?d, ?s2)"
    using k g r rsect_blk [OF p1(2) r(1)] ie(1-3) p1(1,4) p2(1) by (simp add: block_for_def of_nat_blk_0 case_prod_unfold Let_def)
  have "names ?s2 ?d (bs @ [b]) ind'" using namesD(1) [OF n] g ie(6) k r unfolding names_def by (simp add: dims)
  moreover have "b \<notin> insert ind' B" "ind' \<notin> B" using p2(3) p1(3) by blast+
  ultimately have "extends s B din bs ind ?s2 (insert b ?B1) ?d (bs @ [b]) ind'"
    using ie(4,5) p1(5) sub i0 r take12_put [of NDIRECT] by (auto simp: extends_def blocks_in_def)
  then show ?thesis using bf by (intro exI [of _ ?s2] exI [of _ "insert b ?B1"] exI [of _ ?d]) simp
qed
section \<open>Appending to a file\<close>

definition cost :: "nat \<Rightarrow> nat" where
  "cost n = (if n \<le> NDIRECT then n else Suc n)"

definition nblk :: "nat \<Rightarrow> nat" where
  "nblk off = (off + BSIZE - 1) div BSIZE"

definition flat :: "mstate \<Rightarrow> nat list \<Rightarrow> u8 list" where
  "flat s bs = concat (map (img s) bs)"

lemma length_blocks_in: "names s din bs ind \<Longrightarrow> length (blocks_in bs ind) = cost (length bs)"
  using namesD(3) [of s din bs ind] by (auto simp: blocks_in_def cost_def)

lemma cost_mono: "m \<le> n \<Longrightarrow> cost m \<le> cost n"
  by (auto simp: cost_def)

lemma extendsD:
  assumes "extends s B din bs ind s' B' din' bs' ind'"
  shows "take 12 din' = take 12 din" "freeinode s' = freeinode s" "pool s' B'" "names s' din' bs' ind'" "distinct (blocks_in bs' ind')"
    "set (blocks_in bs' ind') \<inter> B = set (blocks_in bs ind)" "B' = B \<union> set (blocks_in bs' ind')" "\<And>p. p \<notin> set (blocks_in bs' ind') \<Longrightarrow> img s' p = img s p"
    "set (blocks_in bs' ind') \<subseteq> B'" "set (blocks_in bs ind) \<subseteq> set (blocks_in bs' ind')"
  using assms by (auto simp: extends_def)

lemma extends_refl:
  "names s din bs ind \<Longrightarrow> pool s B \<Longrightarrow> set (blocks_in bs ind) \<subseteq> B \<Longrightarrow> distinct (blocks_in bs ind) \<Longrightarrow> extends s B din bs ind s B din bs ind"
  by (auto simp: extends_def)

lemma extends_trans:
  assumes a: "extends s B din bs ind s1 B1 d1 bs1 i1" and b: "extends s1 B1 d1 bs1 i1 s2 B2 d2 bs2 i2"
  shows "extends s B din bs ind s2 B2 d2 bs2 i2"
proof -
  note x = extendsD [OF a] and y = extendsD [OF b]
  have "img s2 p = img s p" if "p \<notin> set (blocks_in bs2 i2)" for p using y(8) [OF that] x(8) [of p] that y(10) by auto
  moreover have "set (blocks_in bs2 i2) \<inter> B = set (blocks_in bs ind)" "B2 = B \<union> set (blocks_in bs2 i2)" using x(6,7) y(6,7) by blast+
  ultimately show ?thesis using x(1,2) y(1-5) unfolding extends_def by auto
qed

lemma extends_card:
  assumes e: "extends s B din bs ind s' B' din' bs' ind'" and n: "names s din bs ind" and p: "pool s B" and d: "distinct (blocks_in bs ind)"
  shows "card B' + cost (length bs) = card B + cost (length bs')"
proof -
  note x = extendsD [OF e]
  let ?X = "set (blocks_in bs' ind')"
  have "card B' + card (B \<inter> ?X) = card B + card ?X" unfolding x(7) using card_Un_Int [of B ?X] poolD(8) [OF p] by simp
  moreover have "B \<inter> ?X = set (blocks_in bs ind)" using x(6) by blast
  ultimately show ?thesis using distinct_card [OF d] distinct_card [OF x(5)] length_blocks_in [OF n] length_blocks_in [OF x(4)] by simp
qed

lemma extends_write:
  assumes e: "extends s B din bs ind s' B' din' bs' ind'" and b: "b \<in> set bs'" and l: "length buf = BSIZE"
  shows "extends s B din bs ind (s'\<lparr>img := (img s')(b := buf)\<rparr>) B' din' bs' ind'"
proof -
  note x = extendsD [OF e]
  let ?s = "s'\<lparr>img := (img s')(b := buf)\<rparr>"
  have bb: "b \<in> set (blocks_in bs' ind')" using b by (simp add: blocks_in_def)
  then have "b < nmeta + card B'" using x(9) pool_mem [OF x(3)] by blast
  then have "pool ?s B'" by (rule pool_write [OF x(3) _ l])
  moreover have "addr_of ?s din' k = addr_of s' din' k" for k
  proof (cases "ind' = 0")
    case True
    then show ?thesis using namesD(2) [OF x(4)] by (simp add: addr_of_def)
  next
    case False
    then have "ind' \<in> B'" "b \<noteq> ind'" using x(5,9) b by (auto simp: blocks_in_def)
    then have "unat (d_addr din' NDIRECT) \<noteq> b" using namesD(2) [OF x(4)] unat_blk [of ind'] pool_range [OF x(3)] by auto
    then show ?thesis by (simp add: addr_of_def)
  qed
  then have "names ?s din' bs' ind'" using x(4) by (simp add: names_def)
  ultimately show ?thesis using e bb by (auto simp: extends_def)
qed

lemma block_for_new:
  assumes n: "names s din bs ind" and p: "pool s B" and sub: "set (blocks_in bs ind) \<subseteq> B" "distinct (blocks_in bs ind)"
    and k: "length bs < MAXFILE" and room: "nmeta + card B + cost (Suc (length bs)) \<le> FSSIZE + cost (length bs)"
  shows "\<exists>b s' B' din' ind'. block_for (length bs) din s = Ok (of_nat b, din', s') \<and> extends s B din bs ind s' B' din' (bs @ [b]) ind' \<and>
    (\<forall>q. q \<noteq> ind' \<longrightarrow> img s' q = img s q)"
proof -
  consider "length bs < NDIRECT" | "length bs = NDIRECT" | "NDIRECT < length bs" by linarith
  then show ?thesis
  proof cases
    case 1
    then have "nmeta + card B < FSSIZE" using room by (simp add: cost_def)
    from block_for_direct [OF n p sub 1 this] show ?thesis by metis
  next
    case 2
    then have "Suc (nmeta + card B) < FSSIZE" using room by (simp add: cost_def)
    from block_for_first_indirect [OF n p sub 2 this] show ?thesis by blast
  next
    case 3
    then have "nmeta + card B < FSSIZE" using room by (simp add: cost_def)
    from block_for_indirect [OF n p sub 3 k this] show ?thesis by blast
  qed
qed

lemma nblk_split: "nblk (q * BSIZE + r) = (if r = 0 then q else Suc q)" if "r \<le> BSIZE"
proof -
  have "nblk (q * BSIZE + r) = (r + 1023 + q * 1024) div 1024" by (simp add: nblk_def dims add.commute add.left_commute)
  also have "\<dots> = q + (r + 1023) div 1024" by (simp only: div_mult_self3 [OF zero_neq_numeral [symmetric]])
  also have "(r + 1023) div 1024 = (if r = 0 then 0 else 1)" using that by (auto intro!: div_nat_eqI simp: dims)
  finally show ?thesis by simp
qed

lemma nblk_simps:
  "off mod BSIZE = 0 \<Longrightarrow> nblk off = off div BSIZE" "off mod BSIZE \<noteq> 0 \<Longrightarrow> nblk off = Suc (off div BSIZE)"
  "0 < n \<Longrightarrow> n \<le> BSIZE - off mod BSIZE \<Longrightarrow> nblk (off + n) = Suc (off div BSIZE)"
proof -
  have l: "off mod BSIZE \<le> BSIZE" by (simp add: dims)
  have o: "off = off div BSIZE * BSIZE + off mod BSIZE" by simp
  show "off mod BSIZE = 0 \<Longrightarrow> nblk off = off div BSIZE" "off mod BSIZE \<noteq> 0 \<Longrightarrow> nblk off = Suc (off div BSIZE)"
    using nblk_split [OF l, of "off div BSIZE"] o by simp_all
  assume "0 < n" "n \<le> BSIZE - off mod BSIZE"
  then show "nblk (off + n) = Suc (off div BSIZE)" using nblk_split [of "off mod BSIZE + n" "off div BSIZE"] l
    by (simp add: add.assoc [symmetric])
qed

lemma nblk_mono: "x \<le> y \<Longrightarrow> nblk x \<le> nblk y"
  unfolding nblk_def by (intro div_le_mono) simp

lemma length_flat: "(\<And>b. b \<in> set bs \<Longrightarrow> length (img s b) = BSIZE) \<Longrightarrow> length (flat s bs) = length bs * BSIZE"
  by (induction bs) (auto simp: flat_def)

lemma flat_cong: "(\<And>b. b \<in> set bs \<Longrightarrow> img s' b = img s b) \<Longrightarrow> flat s' bs = flat s bs"
  unfolding flat_def by (metis (no_types, lifting) map_eq_conv)

lemma flat_append [simp]: "flat s (xs @ ys) = flat s xs @ flat s ys" "flat s [b] = img s b"
  by (simp_all add: flat_def)
text \<open>The block that the next bytes go to is the last of the file.\<close>

lemma reach_block:
  assumes n: "names s din bs ind" and p: "pool s B" and sub: "set (blocks_in bs ind) \<subseteq> B" "distinct (blocks_in bs ind)"
    and l: "length bs = nblk off" and k: "off div BSIZE < MAXFILE" and room: "nmeta + card B + cost (Suc (off div BSIZE)) \<le> FSSIZE + cost (length bs)"
  shows "\<exists>xs b s1 B1 d1 i1. block_for (off div BSIZE) din s = Ok (of_nat b, d1, s1) \<and> extends s B din bs ind s1 B1 d1 (xs @ [b]) i1 \<and>
    length xs = off div BSIZE \<and> take off (flat s1 (xs @ [b])) = take off (flat s bs)"
proof (cases "off mod BSIZE = 0")
  case True
  then have lb: "length bs = off div BSIZE" using l nblk_simps(1) by simp
  have k': "length bs < MAXFILE" and room': "nmeta + card B + cost (Suc (length bs)) \<le> FSSIZE + cost (length bs)" using k room lb by simp_all
  obtain b s1 B1 d1 i1 where b: "block_for (length bs) din s = Ok (of_nat b, d1, s1)" "extends s B din bs ind s1 B1 d1 (bs @ [b]) i1"
      "\<forall>q. q \<noteq> i1 \<longrightarrow> img s1 q = img s q" using block_for_new [OF n p sub k' room'] by blast
  have "i1 \<notin> set bs" using extendsD(5) [OF b(2)] pool_range [OF p, of i1] sub(1) by (auto simp: blocks_in_def split: if_splits)
  then have "flat s1 bs = flat s bs" using b(3) by (intro flat_cong) auto
  moreover have "length (flat s bs) = off"
  proof -
    have "length (flat s bs) = length bs * BSIZE"
      using sub(1) pool_range [OF p] poolD(6) [OF p] by (intro length_flat) (auto simp: blocks_in_def split: if_splits)
    then show ?thesis using lb True by (metis add.right_neutral div_mult_mod_eq)
  qed
  ultimately have "take off (flat s1 (bs @ [b])) = take off (flat s bs)" by simp
  then show ?thesis using b(1,2) lb by metis
next
  case False
  then have lb: "length bs = Suc (off div BSIZE)" using l nblk_simps(2) by simp
  then obtain xs b where bs: "bs = xs @ [b]" by (metis Zero_neq_Suc list.size(3) rev_exhaust)
  have "off div BSIZE < length bs" using lb by simp
  from block_for_old [OF n p sub(1) this] have "block_for (off div BSIZE) din s = Ok (of_nat b, din, s)" using lb bs by (simp add: nth_append)
  then show ?thesis using extends_refl [OF n p sub] lb bs by auto
qed

text \<open>Bytes written to the last block, from the end of the file on.\<close>

lemma flat_write:
  assumes d: "distinct (xs @ [b])" and l: "\<And>x. x \<in> set (xs @ [b]) \<Longrightarrow> length (img s x) = BSIZE" and k: "length xs = off div BSIZE"
    and c: "off mod BSIZE + length c \<le> BSIZE"
  shows "take (off + length c) (flat (s\<lparr>img := (img s)(b := put_bytes (off mod BSIZE) c (img s b))\<rparr>) (xs @ [b])) = take off (flat s (xs @ [b])) @ c"
proof -
  let ?o = "off mod BSIZE" and ?X = "flat s xs"
  have "flat (s\<lparr>img := (img s)(b := put_bytes ?o c (img s b))\<rparr>) xs = ?X" using d by (intro flat_cong) auto
  then have f: "flat (s\<lparr>img := (img s)(b := put_bytes ?o c (img s b))\<rparr>) (xs @ [b]) = ?X @ put_bytes ?o c (img s b)" by simp
  have "length ?X = off div BSIZE * BSIZE" using length_flat [of xs s] l k by simp
  then have x: "off = length ?X + ?o" by simp
  have lb: "length (img s b) = BSIZE" using l by simp
  have "take (off + length c) (?X @ put_bytes ?o c (img s b)) = ?X @ take (?o + length c) (put_bytes ?o c (img s b))"
    by (subst x) (simp add: add.assoc)
  also have "take (?o + length c) (put_bytes ?o c (img s b)) = take ?o (img s b) @ c" using lb c by (cases c) (simp_all add: put_bytes_def min_def)
  also have "?X @ take ?o (img s b) @ c = take off (?X @ img s b) @ c" by (subst x) simp
  finally show ?thesis unfolding f by simp
qed

lemma iappend_step:
  assumes n: "names s din bs ind" and p: "pool s B" and sub: "set (blocks_in bs ind) \<subseteq> B" "distinct (blocks_in bs ind)"
    and l: "length bs = nblk off" and k: "off div BSIZE < MAXFILE" and room: "nmeta + card B + cost (Suc (off div BSIZE)) \<le> FSSIZE + cost (length bs)"
    and c: "c \<noteq> []" "c = take (min (length d) (BSIZE - off mod BSIZE)) d"
  shows "\<exists>s1 B1 d1 bs1 i1. iappend_loop din off d s = iappend_loop d1 (off + length c) (drop (length c) d) s1 \<and> extends s B din bs ind s1 B1 d1 bs1 i1 \<and>
    length bs1 = nblk (off + length c) \<and> take (off + length c) (flat s1 bs1) = take off (flat s bs) @ c"
proof -
  obtain xs b s1 B1 d1 i1 where r: "block_for (off div BSIZE) din s = Ok (of_nat b, d1, s1)" "extends s B din bs ind s1 B1 d1 (xs @ [b]) i1"
      "length xs = off div BSIZE" "take off (flat s1 (xs @ [b])) = take off (flat s bs)" using reach_block [OF n p sub l k room] by blast
  note x = extendsD [OF r(2)]
  have o: "off mod BSIZE < BSIZE" by (simp add: dims)
  have cl: "length c = min (length d) (BSIZE - off mod BSIZE)" "off mod BSIZE + length c \<le> BSIZE" using c(2) o by auto
  have bB: "xx < FSSIZE" "length (img s1 xx) = BSIZE" if "xx \<in> set (xs @ [b])" for xx
    using that x(9) pool_range [OF x(3)] poolD(6) [OF x(3)] by (auto simp: blocks_in_def split: if_splits)
  let ?buf = "put_bytes (off mod BSIZE) c (img s1 b)"
  let ?s = "s1\<lparr>img := (img s1)(b := ?buf)\<rparr>"
  have bl: "length ?buf = BSIZE" using bB(2) [of b] cl(2) by simp
  have bx: "b \<in> set (xs @ [b])" by simp
  have dis: "distinct (xs @ [b])" using x(5) by (auto simp: blocks_in_def split: if_splits)
  have e: "BSIZE + off div BSIZE * BSIZE - off = BSIZE - off mod BSIZE" "off - off div BSIZE * BSIZE = off mod BSIZE"
    using div_mult_mod_eq [of off BSIZE] by linarith+
  have "d \<noteq> []" using c by auto
  then have go: "iappend_loop din off d s = iappend_loop d1 (off + length c) (drop (length c) d) ?s"
    using k r(1) rsect_blk [OF x(3) bB(1) [OF bx]] wsect_blk [OF x(3) bB(1) [OF bx]] cl(1) c(2)
    by (subst iappend_loop.simps) (simp add: e Let_def)
  have "take (off + length c) (flat ?s (xs @ [b])) = take off (flat s bs) @ c"
    using flat_write [OF dis bB(2) r(3) cl(2)] r(4) by simp
  moreover have "length (xs @ [b]) = nblk (off + length c)" using nblk_simps(3) [of "length c" off] c(1) cl(2) r(3) by simp
  ultimately show ?thesis using go extends_write [OF r(2) bx bl] by blast
qed

lemma iappend_loop_ok:
  "names s din bs ind \<Longrightarrow> pool s B \<Longrightarrow> set (blocks_in bs ind) \<subseteq> B \<Longrightarrow> distinct (blocks_in bs ind) \<Longrightarrow> length bs = nblk off \<Longrightarrow>
   off + length d \<le> MAXFILE * BSIZE \<Longrightarrow> nmeta + card B + cost (nblk (off + length d)) \<le> FSSIZE + cost (length bs) \<Longrightarrow>
   \<exists>s' B' din' bs' ind'. iappend_loop din off d s = Ok (din', off + length d, s') \<and> extends s B din bs ind s' B' din' bs' ind' \<and>
     length bs' = nblk (off + length d) \<and> take (off + length d) (flat s' bs') = take off (flat s bs) @ d"
proof (induction "length d" arbitrary: s B din bs ind off d rule: less_induct)
  case less
  show ?case
  proof (cases "d = []")
    case True
    then show ?thesis using extends_refl [OF less.prems(1-4)] less.prems(5) by (simp add: iappend_loop.simps) blast
  next
    case False
    define c where "c = take (min (length d) (BSIZE - off mod BSIZE)) d"
    have o: "off mod BSIZE < BSIZE" by (simp add: dims)
    have c: "c \<noteq> []" "length c \<le> length d" "length c \<le> BSIZE - off mod BSIZE" using False o by (auto simp: c_def)
    have k: "off div BSIZE < MAXFILE" using less.prems(6) False
      by (metis add_less_cancel_left length_greater_0_conv less_mult_imp_div_less nat_add_left_cancel_le order_less_le_trans add.right_neutral)
    have nb: "nblk (off + length c) = Suc (off div BSIZE)" using nblk_simps(3) c by simp
    have "cost (Suc (off div BSIZE)) \<le> cost (nblk (off + length d))" unfolding nb [symmetric] using c(2) by (intro cost_mono nblk_mono) simp
    then have "nmeta + card B + cost (Suc (off div BSIZE)) \<le> FSSIZE + cost (length bs)" using less.prems(7) by simp
    from iappend_step [OF less.prems(1-5) k this c(1) c_def] obtain s1 B1 d1 bs1 i1 where
      r: "iappend_loop din off d s = iappend_loop d1 (off + length c) (drop (length c) d) s1" "extends s B din bs ind s1 B1 d1 bs1 i1"
        "length bs1 = nblk (off + length c)" "take (off + length c) (flat s1 bs1) = take off (flat s bs) @ c" by blast
    note x = extendsD [OF r(2)]
    have q: "off + length c + length (drop (length c) d) = off + length d" using c(2) by simp
    have cd: "c @ drop (length c) d = d" by (simp add: c_def)
    have "length (drop (length c) d) < length d" using c(1,2) False by simp
    moreover have "nmeta + card B1 + cost (nblk (off + length d)) \<le> FSSIZE + cost (length bs1)"
      using extends_card [OF r(2) less.prems(1,2,4)] less.prems(7) by simp
    ultimately obtain s' B' din' bs' ind' where y: "iappend_loop d1 (off + length c) (drop (length c) d) s1 = Ok (din', off + length d, s')"
        "extends s1 B1 d1 bs1 i1 s' B' din' bs' ind'" "length bs' = nblk (off + length d)"
        "take (off + length d) (flat s' bs') = take (off + length c) (flat s1 bs1) @ drop (length c) d"
      using less.hyps [of "drop (length c) d" s1 d1 bs1 i1 B1 "off + length c"] x(3-5,9) r(3) less.prems(6) unfolding q by auto
    have "take (off + length d) (flat s' bs') = take off (flat s bs) @ d" unfolding y(4) r(4) append_assoc cd ..
    then show ?thesis using r(1) y(1,3) extends_trans [OF r(2) y(2)] by (metis (no_types, lifting))
  qed
qed

section \<open>Inodes\<close>

definition din_of :: "mstate \<Rightarrow> nat \<Rightarrow> u8 list" where
  "din_of s i = get_bytes (64 * (i mod 16)) 64 (img s (iblk i))"

lemma rinode_ok: "pool s B \<Longrightarrow> i < 200 \<Longrightarrow> rinode (of_nat i) s = Ok (din_of s i)"
  using rsect_blk [of s B "iblk i"] iblk_range [of i] poolD(5) [of s B]
  by (simp add: rinode_def iblk_eq dinode_off_eq din_of_def dims)

definition set_din :: "nat \<Rightarrow> u8 list \<Rightarrow> mstate \<Rightarrow> mstate" where
  "set_din i din s = s\<lparr>img := (img s)(iblk i := put_bytes (64 * (i mod 16)) din (img s (iblk i)))\<rparr>"

lemma winode_ok: "pool s B \<Longrightarrow> i < 200 \<Longrightarrow> winode (of_nat i) din s = Ok (set_din i din s)"
  using rsect_blk [of s B "iblk i"] wsect_blk [of s B "iblk i"] iblk_range [of i] poolD(5) [of s B]
  by (simp add: winode_def iblk_eq dinode_off_eq set_din_def dims)

lemma pool_set_din: "pool s B \<Longrightarrow> i < 200 \<Longrightarrow> length din = 64 \<Longrightarrow> pool (set_din i din s) B"
proof -
  assume p: "pool s B" and i: "i < 200" and l: "length din = 64"
  have "64 * (i mod 16) + 64 \<le> BSIZE" "length (img s (iblk i)) = BSIZE" using poolD(6) [OF p] iblk_range [OF i] by (auto simp: dims)
  then show ?thesis unfolding set_din_def using iblk_range [OF i] l by (intro pool_write [OF p]) (auto simp: nmeta_eq)
qed

lemma set_din_img: "b \<noteq> iblk i \<Longrightarrow> img (set_din i din s) b = img s b"
  by (simp add: set_din_def)

lemma nth_put_bytes_out: "j < i \<or> i + length new \<le> j \<Longrightarrow> i + length new \<le> length bs \<Longrightarrow> j < length bs \<Longrightarrow> put_bytes i new bs ! j = bs ! j"
  by (auto simp: put_bytes_def nth_append)

lemma get_bytes_other:
  assumes "i + length new \<le> length bs" and "j + n \<le> length bs" and "j + n \<le> i \<or> i + length new \<le> j"
  shows "get_bytes j n (put_bytes i new bs) = get_bytes j n bs"
proof (rule nth_equalityI)
  show "length (get_bytes j n (put_bytes i new bs)) = length (get_bytes j n bs)" using assms by (simp add: get_bytes_def)
  fix k assume "k < length (get_bytes j n (put_bytes i new bs))"
  then have "k < n" by (simp add: get_bytes_def)
  then show "get_bytes j n (put_bytes i new bs) ! k = get_bytes j n bs ! k"
    using assms nth_put_bytes_out [of "j + k" i new bs] by (auto simp: get_bytes_def)
qed

lemma din_of_set:
  assumes p: "pool s B" and i: "i < 200" "j < 200" and l: "length din = 64"
  shows "din_of (set_din i din s) j = (if j = i then din else din_of s j)"
proof -
  have li: "length (img s (iblk i)) = BSIZE" using poolD(6) [OF p] iblk_range [OF i(1)] by (simp add: dims)
  have r: "64 * (x mod 16) + 64 \<le> BSIZE" for x :: nat by (simp add: dims)
  show ?thesis
  proof (cases "iblk j = iblk i \<and> j \<noteq> i")
    case True
    then have "j mod 16 \<noteq> i mod 16" unfolding iblk_def by (metis add_left_cancel div_mult_mod_eq)
    then have "get_bytes (64 * (j mod 16)) 64 (put_bytes (64 * (i mod 16)) din (img s (iblk i))) = get_bytes (64 * (j mod 16)) 64 (img s (iblk i))"
      using li l r [of i] r [of j] by (intro get_bytes_other) auto
    then show ?thesis using True by (simp add: din_of_def set_din_def)
  next
    case False
    then show ?thesis using get_put_bytes [of "64 * (i mod 16)" din "img s (iblk i)"] l li r [of i] by (auto simp: din_of_def set_din_def)
  qed
qed

section \<open>The list of files\<close>

definition own :: "nat list \<times> nat \<Rightarrow> nat set" where
  "own w = set (blocks_in (fst w) (snd w))"

text \<open>Inode \<open>i\<close> has the type and the bytes \<open>f\<close>, in the blocks \<open>w\<close>.\<close>

definition inode_is :: "mstate \<Rightarrow> nat \<Rightarrow> u16 \<times> u8 list \<Rightarrow> nat list \<times> nat \<Rightarrow> bool" where
  "inode_is s i f w \<longleftrightarrow> names s (din_of s i) (fst w) (snd w) \<and> distinct (blocks_in (fst w) (snd w)) \<and>
     d_type (din_of s i) = fst f \<and> d_nlink (din_of s i) = 1 \<and> unat (d_size (din_of s i)) = length (snd f) \<and>
     length (fst w) = nblk (length (snd f)) \<and> take (length (snd f)) (flat s (fst w)) = snd f"

definition rep :: "mstate \<Rightarrow> (u16 \<times> u8 list) list \<Rightarrow> bool" where
  "rep s fl \<longleftrightarrow> length fl < NINODES \<and> freeinode s = of_nat (Suc (length fl)) \<and>
     (\<exists>W. pool s (\<Union>j<length fl. own (W j)) \<and> (\<forall>j<length fl. inode_is s (Suc j) (fl ! j) (W j)) \<and>
        (\<forall>j<length fl. \<forall>k<length fl. j \<noteq> k \<longrightarrow> own (W j) \<inter> own (W k) = {}))"

definition total :: "(u16 \<times> u8 list) list \<Rightarrow> nat" where
  "total fl = (\<Sum>j<length fl. cost (nblk (length (snd (fl ! j)))))"

lemma inode_isD:
  assumes "inode_is s i f w"
  shows "names s (din_of s i) (fst w) (snd w)" "distinct (blocks_in (fst w) (snd w))" "d_type (din_of s i) = fst f" "d_nlink (din_of s i) = 1"
    "unat (d_size (din_of s i)) = length (snd f)" "length (fst w) = nblk (length (snd f))" "take (length (snd f)) (flat s (fst w)) = snd f"
  using assms by (simp_all add: inode_is_def)

lemma names_cong:
  assumes n: "names s din bs ind" and a: "\<And>k. k \<le> NDIRECT \<Longrightarrow> d_addr din' k = d_addr din k" "length din' = 64"
    and i: "ind < FSSIZE" "ind \<noteq> 0 \<Longrightarrow> img s' ind = img s ind"
  shows "names s' din' bs ind"
proof -
  have "addr_of s' din' k = addr_of s din k" for k
  proof (cases "ind = 0")
    case True
    then show ?thesis using namesD(2) [OF n] a(1) by (simp add: addr_of_def)
  next
    case False
    then show ?thesis using namesD(2) [OF n] a(1) i unat_blk [OF i(1)] by (simp add: addr_of_def)
  qed
  then show ?thesis using n a by (simp add: names_def)
qed

lemma own_ind: "w = (bs, ind) \<Longrightarrow> ind \<noteq> 0 \<Longrightarrow> ind \<in> own w" "w = (bs, ind) \<Longrightarrow> set bs \<subseteq> own w"
  by (auto simp: own_def blocks_in_def)

lemma inode_keep:
  assumes f: "inode_is s i f w" and p: "pool s B" "own w \<subseteq> B" and d: "din_of s' i = din_of s i" and k: "\<And>b. b \<in> own w \<Longrightarrow> img s' b = img s b"
  shows "inode_is s' i f w"
proof -
  obtain bs ind where w: "w = (bs, ind)" by (cases w)
  note x = inode_isD [OF f, unfolded w fst_conv snd_conv]
  have "ind < FSSIZE" using pool_range [OF p(1)] own_ind(1) [OF w] p(2) by (cases "ind = 0") (auto simp: dims)
  then have "names s' (din_of s i) bs ind" using namesD(1) [OF x(1)] k own_ind(1) [OF w] by (intro names_cong [OF x(1)]) auto
  moreover have "flat s' bs = flat s bs" using k own_ind(2) [OF w] by (intro flat_cong) auto
  ultimately show ?thesis using f d w by (simp add: inode_is_def)
qed

lemma card_own:
  assumes "\<forall>j<n. inode_is s (Suc j) (fl ! j) (W j)" and "\<forall>j<n. \<forall>k<n. j \<noteq> k \<longrightarrow> own (W j) \<inter> own (W k) = {}"
  shows "card (\<Union>j<n. own (W j)) = (\<Sum>j<n. cost (nblk (length (snd (fl ! j)))))"
proof -
  have "card (\<Union>j<n. own (W j)) = (\<Sum>j<n. card (own (W j)))" by (rule card_UN_disjoint) (use assms(2) in \<open>auto simp: own_def\<close>)
  also have "\<dots> = (\<Sum>j<n. cost (nblk (length (snd (fl ! j)))))"
  proof (rule sum.cong)
    fix j assume "j \<in> {..<n}"
    then have f: "inode_is s (Suc j) (fl ! j) (W j)" using assms(1) by simp
    show "card (own (W j)) = cost (nblk (length (snd (fl ! j))))"
      using distinct_card [OF inode_isD(2) [OF f]] length_blocks_in [OF inode_isD(1) [OF f]] inode_isD(6) [OF f] by (simp add: own_def)
  qed simp
  finally show ?thesis .
qed

lemma total_update:
  assumes "j < length fl"
  shows "total (fl[j := f]) + cost (nblk (length (snd (fl ! j)))) = total fl + cost (nblk (length (snd f)))"
proof -
  let ?g = "\<lambda>fl k. cost (nblk (length (snd (fl ! k))))"
  have s: "sum h {..<length fl} = h j + sum h ({..<length fl} - {j})" for h :: "nat \<Rightarrow> nat" using assms by (simp add: sum.remove)
  have "sum (?g (fl[j := f])) ({..<length fl} - {j}) = sum (?g fl) ({..<length fl} - {j})" by (rule sum.cong) auto
  then show ?thesis using s [of "?g (fl[j := f])"] s [of "?g fl"] assms by (simp add: total_def)
qed
lemma get16_take: "i + 1 < k \<Longrightarrow> get16 i (take k bs) = get16 i bs"
  by (simp add: get16_def)

lemma iblk_outside: "pool s B \<Longrightarrow> X \<subseteq> B \<Longrightarrow> i < 200 \<Longrightarrow> iblk i \<notin> X"
  using pool_range [of s B "iblk i"] iblk_range [of i] by (auto simp: nmeta_eq)

lemma iappend_inode:
  assumes f: "inode_is s i (t, c) w" and p: "pool s B" "own w \<subseteq> B" and i: "i < 200" and l: "length c + length d \<le> MAXFILE * BSIZE"
    and room: "nmeta + card B + cost (nblk (length c + length d)) \<le> FSSIZE + cost (nblk (length c))"
  shows "\<exists>s' w'. iappend (of_nat i) d s = Ok s' \<and> inode_is s' i (t, c @ d) w' \<and> pool s' (B \<union> own w') \<and> own w' \<inter> B = own w \<and>
    freeinode s' = freeinode s \<and> (\<forall>j<200. j \<noteq> i \<longrightarrow> din_of s' j = din_of s j) \<and> (\<forall>b. b \<notin> own w' \<longrightarrow> b \<noteq> iblk i \<longrightarrow> img s' b = img s b)"
proof -
  obtain bs ind where w: "w = (bs, ind)" by (cases w)
  note x = inode_isD [OF f, unfolded w fst_conv snd_conv]
  have sub: "set (blocks_in bs ind) \<subseteq> B" using p(2) by (simp add: own_def w)
  have room': "nmeta + card B + cost (nblk (length c + length d)) \<le> FSSIZE + cost (length bs)" using room x(6) by simp
  obtain s1 B1 d1 bs1 i1 where r: "iappend_loop (din_of s i) (length c) d s = Ok (d1, length c + length d, s1)"
      "extends s B (din_of s i) bs ind s1 B1 d1 bs1 i1" "length bs1 = nblk (length c + length d)"
      "take (length c + length d) (flat s1 bs1) = take (length c) (flat s bs) @ d"
    using iappend_loop_ok [OF x(1) p(1) sub x(2,6) l room'] by blast
  note e = extendsD [OF r(2)]
  let ?w = "(bs1, i1)" and ?d = "put32 8 (of_nat (length c + length d)) d1"
  let ?s = "set_din i ?d s1"
  have ow: "own ?w = set (blocks_in bs1 i1)" by (simp add: own_def)
  have ld: "length d1 = 64" "length ?d = 64" using namesD(1) [OF e(4)] by simp_all
  have ib: "iblk j \<notin> own ?w" if "j < 200" for j using iblk_outside [OF e(3) e(9) that] unfolding ow .
  have keep: "img ?s b = img s b" if "b \<notin> own ?w" "b \<noteq> iblk i" for b using that e(8) by (simp add: set_din_img ow)
  have dj: "din_of ?s j = din_of s j" if j: "j < 200" "j \<noteq> i" for j
  proof -
    have "din_of s1 j = din_of s j" using e(8) [of "iblk j"] ib [OF j(1)] by (simp add: din_of_def ow)
    then show ?thesis using din_of_set [OF e(3) i j(1) ld(2)] j(2) by simp
  qed
  have di: "din_of ?s i = ?d" using din_of_set [OF e(3) i i ld(2)] by simp
  have "iappend (of_nat i) d s = Ok ?s"
    using rinode_ok [OF p(1) i] x(5) r(1) winode_ok [OF e(3) i, of ?d] by (simp add: iappend_def)
  moreover have "inode_is ?s i (t, c @ d) ?w"
  proof -
    have im: "img ?s b = img s1 b" if "b \<in> own ?w" for b using that ib [OF i] by (metis set_din_img)
    have "i1 < FSSIZE" using pool_range [OF e(3)] e(9) own_ind(1) [of ?w bs1 i1] ow by (cases "i1 = 0") (auto simp: dims)
    then have n: "names ?s ?d bs1 i1" using ld im own_ind(1) [of ?w bs1 i1]
      by (intro names_cong [OF e(4)]) (auto intro: get32_put32_other)
    have h: "get16 k d1 = get16 k (din_of s i)" if "k + 1 < 12" for k
      using e(1) get16_take [OF that, of d1] get16_take [OF that, of "din_of s i"] by simp
    have "d_type ?d = t" "d_nlink ?d = 1" using x(3,4) h [of 0] h [of 6] by (simp_all add: get16_put32_other)
    moreover have "unat (d_size ?d) = length c + length d"
    proof -
      have "d_size ?d = of_nat (length c + length d)" using ld(1) by simp
      moreover have "length c + length d < 2 ^ LENGTH(32)" using l by (simp add: dims)
      ultimately show ?thesis by (simp only: unat_of_nat mod_less)
    qed
    moreover have "flat ?s bs1 = flat s1 bs1" using im own_ind(2) [of ?w bs1 i1] by (intro flat_cong) auto
    then have "take (length (c @ d)) (flat ?s bs1) = c @ d" using r(4) x(7) by simp
    ultimately show ?thesis using n e(5) r(3) unfolding inode_is_def di by simp
  qed
  moreover have "pool ?s (B \<union> own ?w)" using pool_set_din [OF e(3) i ld(2)] e(7) ow by simp
  moreover have "own ?w \<inter> B = own w" using e(6) by (simp add: own_def w)
  moreover have "freeinode ?s = freeinode s" using e(2) by (simp add: set_din_def)
  ultimately show ?thesis using keep dj by blast
qed

lemma iappend_rep:
  assumes r: "rep s fl" and j: "j < length fl" and f: "fl ! j = (t, c)" and l: "length c + length d \<le> MAXFILE * BSIZE"
    and room: "nmeta + total (fl[j := (t, c @ d)]) \<le> FSSIZE"
  shows "\<exists>s'. iappend (of_nat (Suc j)) d s = Ok s' \<and> rep s' (fl[j := (t, c @ d)]) \<and> (\<forall>b<32. img s' b = img s b)"
proof -
  let ?n = "length fl"
  obtain W where W: "pool s (\<Union>j<?n. own (W j))" "\<forall>j<?n. inode_is s (Suc j) (fl ! j) (W j)"
      "\<forall>j<?n. \<forall>k<?n. j \<noteq> k \<longrightarrow> own (W j) \<inter> own (W k) = {}" using r by (auto simp: rep_def)
  let ?B = "\<Union>j<?n. own (W j)"
  have n: "?n < 200" using r by (simp add: rep_def NINODES_def)
  have ij: "inode_is s (Suc j) (t, c) (W j)" "own (W j) \<subseteq> ?B" "Suc j < 200" using W(2) j f n by auto
  have cb: "card ?B = total fl" using card_own [OF W(2,3)] by (simp add: total_def)
  have "nmeta + card ?B + cost (nblk (length c + length d)) \<le> FSSIZE + cost (nblk (length c))"
    using room total_update [OF j, of "(t, c @ d)"] f unfolding cb by simp
  from iappend_inode [OF ij(1) W(1) ij(2,3) l this] obtain s' w where
    a: "iappend (of_nat (Suc j)) d s = Ok s'" "inode_is s' (Suc j) (t, c @ d) w" "pool s' (?B \<union> own w)" "own w \<inter> ?B = own (W j)"
      "freeinode s' = freeinode s" "\<forall>k<200. k \<noteq> Suc j \<longrightarrow> din_of s' k = din_of s k" "\<forall>b. b \<notin> own w \<longrightarrow> b \<noteq> iblk (Suc j) \<longrightarrow> img s' b = img s b" by blast
  let ?W = "W(j := w)"
  have dis: "own w \<inter> own (W k) = {}" if "k < ?n" "k \<noteq> j" for k
  proof -
    have "own w \<inter> own (W k) \<subseteq> own (W j) \<inter> own (W k)" using a(4) that(1) by blast
    then show ?thesis using W(3) that j by blast
  qed
  have "(\<Union>k<?n. own (?W k)) = ?B \<union> own w"
  proof -
    have "own (W j) \<subseteq> own w" using a(4) by blast
    then have "x \<in> (\<Union>k<?n. own (?W k)) \<longleftrightarrow> x \<in> ?B \<union> own w" for x using j by (cases "x \<in> own w") (auto split: if_splits)
    then show ?thesis by blast
  qed
  moreover have "inode_is s' (Suc k) (fl[j := (t, c @ d)] ! k) (?W k)" if k: "k < ?n" for k
  proof (cases "k = j")
    case False
    have f: "inode_is s (Suc k) (fl ! k) (W k)" and sub: "own (W k) \<subseteq> ?B" using W(2) k by auto
    have "iblk (Suc j) \<notin> own (W k)" by (rule iblk_outside [OF W(1) sub ij(3)])
    then have "img s' b = img s b" if "b \<in> own (W k)" for b using that a(7) dis [OF k False] by blast
    moreover have "din_of s' (Suc k) = din_of s (Suc k)" using a(6) k n False by simp
    ultimately show ?thesis using inode_keep [OF f W(1) sub] False by simp
  qed (use a(2) j in simp)
  moreover have "\<forall>i<?n. \<forall>k<?n. i \<noteq> k \<longrightarrow> own (?W i) \<inter> own (?W k) = {}" using W(3) dis by (auto simp: Int_commute)
  ultimately have "rep s' (fl[j := (t, c @ d)])" using a(3,5) r unfolding rep_def by (intro conjI exI [of _ ?W]) simp_all
  moreover have "img s' b = img s b" if "b < 32" for b
  proof -
    have "own w \<subseteq> ?B \<union> own w" by blast
    then have "b \<notin> own w" using pool_range [OF a(3), of b] that by (auto simp: nmeta_eq)
    then show ?thesis using a(7) iblk_range [OF ij(3)] that by fastforce
  qed
  ultimately show ?thesis using a(1) by blast
qed
section \<open>New inodes\<close>

definition new_din :: "u16 \<Rightarrow> u8 list" where
  "new_din t = put32 8 0 (put16 6 1 (put16 0 t (replicate 64 0)))"

lemma new_din_fields: "length (new_din t) = 64" "d_type (new_din t) = t" "d_nlink (new_din t) = 1" "d_size (new_din t) = 0"
    "k \<le> NDIRECT \<Longrightarrow> d_addr (new_din t) k = 0"
proof -
  show "length (new_din t) = 64" "d_type (new_din t) = t" "d_nlink (new_din t) = 1" "d_size (new_din t) = 0"
    by (simp_all add: new_din_def get16_put32_other get16_put16_other)
  assume k: "k \<le> NDIRECT"
  have "d_addr (new_din t) k = d_addr (replicate 64 0) k" by (simp add: new_din_def get32_put32_other get32_put16_other)
  then show "d_addr (new_din t) k = 0" using k by (simp add: get32_def dims)
qed

lemma nblk_0 [simp]: "nblk 0 = 0" "cost 0 = 0"
  by (simp_all add: nblk_def cost_def dims)

lemma new_inode_is: "din_of s i = new_din t \<Longrightarrow> inode_is s i (t, []) ([], 0)"
  using new_din_fields(1-4) [of t] new_din_fields(5) [of _ t] by (simp add: inode_is_def names_def addr_of_def blocks_in_def)

lemma ialloc_rep:
  assumes r: "rep s fl" and n: "Suc (length fl) < NINODES"
  shows "\<exists>s'. ialloc t s = Ok (of_nat (Suc (length fl)), s') \<and> rep s' (fl @ [(t, [])]) \<and> (\<forall>b<32. img s' b = img s b)"
proof -
  let ?n = "length fl" and ?i = "Suc (length fl)"
  obtain W where W: "pool s (\<Union>j<?n. own (W j))" "\<forall>j<?n. inode_is s (Suc j) (fl ! j) (W j)"
      "\<forall>j<?n. \<forall>k<?n. j \<noteq> k \<longrightarrow> own (W j) \<inter> own (W k) = {}" using r by (auto simp: rep_def)
  let ?B = "\<Union>j<?n. own (W j)" and ?s1 = "s\<lparr>freeinode := freeinode s + 1\<rparr>" and ?d = "new_din t" and ?W = "W(?n := ([], 0))"
  let ?s = "set_din ?i ?d ?s1"
  have fi: "freeinode s = of_nat ?i" using r by (simp add: rep_def)
  have i: "?i < 200" using n by (simp add: NINODES_def)
  have p1: "pool ?s1 ?B" using W(1) by (simp add: pool_def)
  have "ialloc t s = Ok (of_nat ?i, ?s)" using fi winode_ok [OF p1 i, of ?d] by (simp add: ialloc_def new_din_def)
  moreover have ld: "length ?d = 64" by (rule new_din_fields(1))
  note ds = din_of_set [OF p1 i _ ld]
  have o: "own ([], 0) = {}" by (simp add: own_def blocks_in_def)
  have "inode_is ?s (Suc k) ((fl @ [(t, [])]) ! k) (?W k)" if k: "k < Suc ?n" for k
  proof (cases "k = ?n")
    case True
    then show ?thesis using new_inode_is ds [of ?i] i by simp
  next
    case False
    have f: "inode_is s (Suc k) (fl ! k) (W k)" and sub: "own (W k) \<subseteq> ?B" using W(2) k False by (simp_all add: less_Suc_eq) blast
    have "img ?s b = img s b" if "b \<in> own (W k)" for b using that iblk_outside [OF W(1) sub i] set_din_img [of b ?i ?d ?s1] by auto
    moreover have "din_of ?s (Suc k) = din_of s (Suc k)" using ds [of "Suc k"] k False i by (simp add: din_of_def)
    ultimately show ?thesis using inode_keep [OF f W(1) sub] k False by (simp add: nth_append)
  qed
  moreover have "(\<Union>k<Suc ?n. own (?W k)) = ?B" using o by (auto simp: less_Suc_eq split: if_splits)
  moreover have "\<forall>j<Suc ?n. \<forall>k<Suc ?n. j \<noteq> k \<longrightarrow> own (?W j) \<inter> own (?W k) = {}" using W(3) o by (auto simp: less_Suc_eq)
  moreover have "pool ?s ?B" by (rule pool_set_din [OF p1 i ld])
  moreover have "freeinode ?s = of_nat (Suc ?i)" using fi by (simp add: set_din_def)
  ultimately have "ialloc t s = Ok (of_nat ?i, ?s)" "rep ?s (fl @ [(t, [])])" using n unfolding rep_def
    by (simp, intro conjI exI [of _ ?W]) simp_all
  moreover have "\<forall>b<32. img ?s b = img s b" using iblk_range [OF i] set_din_img [of _ ?i ?d ?s1] by fastforce
  ultimately show ?thesis by blast
qed

lemma total_list: "total fl = (\<Sum>f\<leftarrow>fl. cost (nblk (length (snd f))))"
  by (simp add: total_def sum_list_sum_nth atLeast0LessThan)

lemma total_simps [simp]: "total [] = 0" "total (f # fl) = cost (nblk (length (snd f))) + total fl" "total (xs @ ys) = total xs + total ys"
  by (simp_all add: total_list)

lemma total_grow: "j < length fl \<Longrightarrow> m \<le> length d \<Longrightarrow> total (fl[j := (t, c @ take m d)]) \<le> total (fl[j := (t, c @ d)])"
  using total_update [of j fl "(t, c @ take m d)"] total_update [of j fl "(t, c @ d)"]
    cost_mono [OF nblk_mono, of "length c + length (take m d)" "length c + length d"] by simp

lemma copy_loop_rep:
  "rep s fl \<Longrightarrow> j < length fl \<Longrightarrow> fl ! j = (t, c) \<Longrightarrow> length c + length d \<le> MAXFILE * BSIZE \<Longrightarrow>
   nmeta + total (fl[j := (t, c @ d)]) \<le> FSSIZE \<Longrightarrow>
   \<exists>s'. copy_loop (of_nat (Suc j)) d s = Ok s' \<and> rep s' (fl[j := (t, c @ d)]) \<and> (\<forall>b<32. img s' b = img s b)"
proof (induction "length d" arbitrary: s fl c d rule: less_induct)
  case less
  show ?case
  proof (cases "d = []")
    case True
    then show ?thesis using less.prems by (simp add: copy_loop.simps) (metis list_update_id)
  next
    case False
    let ?m = "min BSIZE (length d)"
    let ?c = "take BSIZE d"
    have tk: "take ?m d = ?c" by (simp add: min_def)
    have "nmeta + total (fl[j := (t, c @ ?c)]) \<le> FSSIZE" using less.prems(5) total_grow [OF less.prems(2), of ?m d t c] tk by simp
    moreover have l1: "length c + length ?c \<le> MAXFILE * BSIZE" using less.prems(4) by simp
    ultimately obtain s1 where a: "iappend (of_nat (Suc j)) ?c s = Ok s1" "rep s1 (fl[j := (t, c @ ?c)])" "\<forall>b<32. img s1 b = img s b"
      using iappend_rep [OF less.prems(1-3) l1] by blast
    have lt: "length (drop BSIZE d) < length d" using False by (simp add: dims)
    have j: "j < length (fl[j := (t, c @ ?c)])" "fl[j := (t, c @ ?c)] ! j = (t, c @ ?c)" using less.prems(2) by simp_all
    have l: "length (c @ ?c) + length (drop BSIZE d) \<le> MAXFILE * BSIZE" using less.prems(4) by simp
    have e: "(fl[j := (t, c @ ?c)])[j := (t, (c @ ?c) @ drop BSIZE d)] = fl[j := (t, c @ d)]" by simp
    obtain s' where b: "copy_loop (of_nat (Suc j)) (drop BSIZE d) s1 = Ok s'" "rep s' (fl[j := (t, c @ d)])" "\<forall>b<32. img s' b = img s1 b"
      using less.hyps [OF lt a(2) j l] less.prems(5) unfolding e by blast
    have "copy_loop (of_nat (Suc j)) d s = Ok s'" by (subst copy_loop.simps) (simp add: False a(1) b(1) del: of_nat_Suc)
    then show ?thesis using a(3) b(2,3) by auto
  qed
qed
section \<open>The files of the image\<close>

definition strip_dir :: "u8 list \<Rightarrow> u8 list" where
  "strip_dir arg = (if take 5 arg = user_prefix then drop 5 arg else arg)"

text \<open>The root directory and the files, for the arguments of mkfs.\<close>

definition entries :: "nat \<Rightarrow> (u8 list \<times> u8 list) list \<Rightarrow> u8 list" where
  "entries k files = concat (map (\<lambda>(i, (a, _)). dirent_bytes (of_nat i) (skip_underscore (strip_dir a))) (enumerate k files))"

definition root_bytes :: "(u8 list \<times> u8 list) list \<Rightarrow> u8 list" where
  "root_bytes files = dirent_bytes 1 [46] @ dirent_bytes 1 [46, 46] @ entries 2 files"

definition image_of :: "(u8 list \<times> u8 list) list \<Rightarrow> (u16 \<times> u8 list) list" where
  "image_of files = (T_DIR, root_bytes files) # map (\<lambda>(_, c). (T_FILE, c)) files"

definition mkfs_args :: "(u8 list \<times> u8 list) list \<Rightarrow> (u8 list \<times> u8 list option) list" where
  "mkfs_args files = map (\<lambda>(a, c). (a, Some c)) files"

lemma length_dirent [simp]: "length (dirent_bytes i n) = 16"
  by (simp add: dirent_bytes_def strncpy_bytes_def Let_def DIRSIZ_def)

lemma entries_simps: "entries k [] = []" "entries k (files @ [(a, c)]) = entries k files @ dirent_bytes (of_nat (k + length files)) (skip_underscore (strip_dir a))"
  by (simp_all add: entries_def enumerate_append_eq)

lemma length_entries: "length (entries k files) = 16 * length files"
  by (induction files rule: rev_induct) (auto simp: entries_simps)

lemma length_root: "length (root_bytes files) = 16 * (length files + 2)"
  by (simp add: root_bytes_def length_entries)

lemma image_of_simps: "length (image_of files) = Suc (length files)" "image_of files ! 0 = (T_DIR, root_bytes files)"
  by (simp_all add: image_of_def)

text \<open>One more file.\<close>

lemma image_snoc:
  "image_of (files @ [(a, c)]) = (T_DIR, root_bytes files @ dirent_bytes (of_nat (length files + 2)) (skip_underscore (strip_dir a))) #
     map (\<lambda>(_, c). (T_FILE, c)) files @ [(T_FILE, c)]"
  by (simp add: image_of_def root_bytes_def entries_simps add.commute)

lemma total_image_mono: "total (image_of files) \<le> total (image_of (files @ gs))"
proof (induction gs rule: rev_induct)
  case (snoc g gs)
  obtain a c where g: "g = (a, c)" by (cases g)
  have "total (image_of (files @ gs)) \<le> total (image_of ((files @ gs) @ [(a, c)]))"
    unfolding image_snoc unfolding image_of_def
    using cost_mono [OF nblk_mono, of "length (root_bytes (files @ gs))" "length (root_bytes (files @ gs)) + 16"] by simp
  then show ?case using snoc g by simp
qed simp

lemma add_file_rep:
  assumes r: "rep s (image_of files)" and v: "slash \<notin> set (strip_dir a)" and n: "length files + 2 < NINODES" and l: "length c \<le> MAXFILE * BSIZE"
    and room: "nmeta + total (image_of (files @ [(a, c)])) \<le> FSSIZE"
  shows "\<exists>s'. add_file 1 (a, Some c) s = Ok s' \<and> rep s' (image_of (files @ [(a, c)])) \<and> (\<forall>b<32. img s' b = img s b)"
proof -
  let ?k = "length files" and ?fs = "map (\<lambda>(_, c). (T_FILE, c)) files"
  let ?e = "dirent_bytes (of_nat (?k + 2)) (skip_underscore (strip_dir a))"
  obtain s1 where s1: "ialloc T_FILE s = Ok (of_nat (?k + 2), s1)" "rep s1 (image_of files @ [(T_FILE, [])])" "\<forall>b<32. img s1 b = img s b"
    using ialloc_rep [OF r, of T_FILE] n by (auto simp: image_of_simps)
  have i0: "(image_of files @ [(T_FILE, [])]) ! 0 = (T_DIR, root_bytes files)" "0 < length (image_of files @ [(T_FILE, [])])" by (simp_all add: image_of_def)
  have u: "(image_of files @ [(T_FILE, [])])[0 := (T_DIR, root_bytes files @ ?e)] = (T_DIR, root_bytes files @ ?e) # ?fs @ [(T_FILE, [])]" by (simp add: image_of_def)
  have "length (root_bytes files) + length ?e \<le> MAXFILE * BSIZE" using n by (simp add: length_root NINODES_def dims)
  moreover have "nmeta + total ((T_DIR, root_bytes files @ ?e) # ?fs @ [(T_FILE, [])]) \<le> FSSIZE" using room unfolding image_snoc by simp
  ultimately obtain s2 where s2: "iappend (of_nat (Suc 0)) ?e s1 = Ok s2" "rep s2 ((T_DIR, root_bytes files @ ?e) # ?fs @ [(T_FILE, [])])" "\<forall>b<32. img s2 b = img s1 b"
    using iappend_rep [OF s1(2) i0(2,1), of ?e] unfolding u by blast
  let ?fl = "(T_DIR, root_bytes files @ ?e) # ?fs @ [(T_FILE, [])]"
  have j: "Suc ?k < length ?fl" "?fl ! Suc ?k = (T_FILE, [])" by (simp_all add: nth_append)
  have up: "?fl[Suc ?k := (T_FILE, [] @ c)] = image_of (files @ [(a, c)])" unfolding image_snoc by (simp add: list_update_append)
  obtain s3 where s3: "copy_loop (of_nat (Suc (Suc ?k))) c s2 = Ok s3" "rep s3 (image_of (files @ [(a, c)]))" "\<forall>b<32. img s3 b = img s2 b"
    using copy_loop_rep [OF s2(2) j, of c] l room unfolding up by auto
  have "add_file 1 (a, Some c) s = Ok s3" using v s1(1) s2(1) s3(1) by (simp add: add_file_def shortname_def strip_dir_def Let_def)
  then show ?thesis using s3(2,3) s2(3) s1(3) by auto
qed

lemma add_files_rep:
  "rep s (image_of old) \<Longrightarrow> \<forall>(a, c)\<in>set files. slash \<notin> set (strip_dir a) \<and> length c \<le> MAXFILE * BSIZE \<Longrightarrow>
   length old + length files + 1 < NINODES \<Longrightarrow> nmeta + total (image_of (old @ files)) \<le> FSSIZE \<Longrightarrow>
   \<exists>s'. for_each (mkfs_args files) (add_file 1) s = Ok s' \<and> rep s' (image_of (old @ files)) \<and> (\<forall>b<32. img s' b = img s b)"
proof (induction files arbitrary: s old)
  case (Cons f files)
  obtain a c where f: "f = (a, c)" by (cases f)
  have "nmeta + total (image_of (old @ [(a, c)])) \<le> FSSIZE" using Cons.prems(4) total_image_mono [of "old @ [(a, c)]" files] f by simp
  then obtain s1 where s1: "add_file 1 (a, Some c) s = Ok s1" "rep s1 (image_of (old @ [(a, c)]))" "\<forall>b<32. img s1 b = img s b"
    using add_file_rep [OF Cons.prems(1), of a c] Cons.prems(2,3) f by auto
  obtain s' where "for_each (mkfs_args files) (add_file 1) s1 = Ok s'" "rep s' (image_of ((old @ [(a, c)]) @ files))" "\<forall>b<32. img s' b = img s1 b"
    using Cons.IH [OF s1(2)] Cons.prems(2-4) f by auto
  then show ?case using s1 f by (auto simp: mkfs_args_def)
qed (auto simp: mkfs_args_def)
section \<open>The whole program\<close>

lemma zero_blocks: "n \<le> FSSIZE \<Longrightarrow> img s = (\<lambda>_. zeroes) \<Longrightarrow> img_len s = 0 \<Longrightarrow>
    fold (\<lambda>i. wsect (of_nat i) zeroes) [0..<n] s = s\<lparr>img_len := n\<rparr>"
proof (induction n)
  case (Suc n)
  then have "at_sec (of_nat n) = n" by (intro at_sec_blk) simp
  then show ?case using Suc by (simp add: wsect_def) (simp add: fun_eq_iff)
qed simp

lemma length_sb_bytes: "length (sb_bytes sb) = BSIZE"
  by (simp add: sb_bytes_def)

lemma sb_reads_back: "sb_of_bytes (sb_bytes sb) = sb"
  by (simp add: sb_of_bytes_def sb_bytes_def get32_put32_other dims)

lemma mkfs_start_eq:
  "mkfs_start = \<lparr>img = (\<lambda>_. zeroes)(1 := sb_bytes mkfs_sb), img_len = FSSIZE, m_sb = mkfs_sb, freeinode = 1, freeblock = of_nat nmeta\<rparr>"
proof -
  have "at_sec 1 = 1" using at_sec_blk [of 1] by (simp add: dims)
  then show ?thesis by (simp add: mkfs_start_def zero_blocks wsect_def dims)
qed

lemma mkfs_start_rep: "rep mkfs_start []" "img mkfs_start 1 = sb_bytes mkfs_sb"
proof -
  show "img mkfs_start 1 = sb_bytes mkfs_sb" by (simp add: mkfs_start_eq)
  have "pool mkfs_start {}" by (auto simp: pool_def mkfs_start_eq length_sb_bytes zeroes_def nmeta_eq dims)
  then show "rep mkfs_start []" by (simp add: rep_def NINODES_def mkfs_start_eq)
qed

text \<open>The root directory with its first two entries, and then the files.\<close>

lemma root_rep:
  assumes n: "nmeta + total (image_of files) \<le> FSSIZE"
  shows "\<exists>s1 s2 s3. ialloc T_DIR mkfs_start = Ok (1, s1) \<and> iappend 1 (dirent_bytes 1 [46]) s1 = Ok s2 \<and> iappend 1 (dirent_bytes 1 [46, 46]) s2 = Ok s3 \<and>
    rep s3 (image_of []) \<and> img s3 1 = sb_bytes mkfs_sb"
proof -
  let ?a = "dirent_bytes 1 [46]" and ?b = "dirent_bytes 1 [46, 46]"
  obtain s1 where s1: "ialloc T_DIR mkfs_start = Ok (1, s1)" "rep s1 [(T_DIR, [])]" "\<forall>b<32. img s1 b = img mkfs_start b"
    using ialloc_rep [OF mkfs_start_rep(1), of T_DIR] by (auto simp: NINODES_def)
  have m: "total [(T_DIR, x)] \<le> total (image_of files)" if "length x \<le> 32" for x
    using that cost_mono [OF nblk_mono, of "length x" "length (root_bytes files)"] by (simp add: image_of_def length_root)
  obtain s2 where s2: "iappend 1 ?a s1 = Ok s2" "rep s2 [(T_DIR, ?a)]" "\<forall>b<32. img s2 b = img s1 b"
    using iappend_rep [OF s1(2), of 0 T_DIR "[]" ?a] m [of ?a] n by (auto simp: dims)
  have "nmeta + total [(T_DIR, ?a @ ?b)] \<le> FSSIZE" using m [of "?a @ ?b"] n by simp
  then obtain s3 where s3: "iappend 1 ?b s2 = Ok s3" "rep s3 [(T_DIR, ?a @ ?b)]" "\<forall>b<32. img s3 b = img s2 b"
    using iappend_rep [OF s2(2), of 0 T_DIR ?a ?b] by (auto simp: dims)
  have "image_of [] = [(T_DIR, ?a @ ?b)]" by (simp add: image_of_def root_bytes_def entries_simps)
  then show ?thesis using s1 s2 s3 mkfs_start_rep(2) by (intro exI [of _ s1] exI [of _ s2] exI [of _ s3]) simp
qed

lemma files_rep:
  assumes v: "\<forall>(a, c)\<in>set files. slash \<notin> set (strip_dir a) \<and> length c \<le> MAXFILE * BSIZE" and n: "length files + 1 < NINODES"
    and room: "nmeta + total (image_of files) \<le> FSSIZE"
  shows "\<exists>s. mkfs_main (mkfs_args files) = bnd (fix_root 1 s) (\<lambda>s. Mkfs.balloc (uint (freeblock s)) s) \<and> rep s (image_of files) \<and> img s 1 = sb_bytes mkfs_sb"
proof -
  obtain s1 s2 s3 where r: "ialloc T_DIR mkfs_start = Ok (1, s1)" "iappend 1 (dirent_bytes 1 [46]) s1 = Ok s2" "iappend 1 (dirent_bytes 1 [46, 46]) s2 = Ok s3"
      "rep s3 (image_of [])" "img s3 1 = sb_bytes mkfs_sb" using root_rep [OF room] by blast
  obtain s where "for_each (mkfs_args files) (add_file 1) s3 = Ok s" "rep s (image_of files)" "\<forall>b<32. img s b = img s3 b"
    using add_files_rep [OF r(4) v] n room by auto
  then show ?thesis using r by (intro exI [of _ s]) (simp add: mkfs_main_def ROOTINO_def)
qed
section \<open>What is in the image\<close>

text \<open>The blocks and the bytes of a file, read as the kernel does.\<close>

definition file_blocks :: "mstate \<Rightarrow> nat \<Rightarrow> nat list" where
  "file_blocks s i = map (\<lambda>k. unat (addr_of s (din_of s i) k)) [0..<nblk (unat (d_size (din_of s i)))]"

definition image_file :: "mstate \<Rightarrow> nat \<Rightarrow> u8 list" where
  "image_file s i = take (unat (d_size (din_of s i))) (flat s (file_blocks s i))"

lemma addr_blocks:
  assumes n: "names s din bs ind" and p: "pool s B" "set (blocks_in bs ind) \<subseteq> B" and k: "k < length bs"
  shows "unat (addr_of s din k) = bs ! k"
proof -
  have "bs ! k \<in> B" using p(2) nth_mem [OF k] by (auto simp: blocks_in_def split: if_splits)
  then show ?thesis using namesD(4,5) [OF n] k unat_blk pool_range [OF p(1)] by fastforce
qed

lemma file_blocks_eq:
  assumes f: "inode_is s i f w" and p: "pool s B" "own w \<subseteq> B"
  shows "file_blocks s i = fst w"
proof -
  note x = inode_isD [OF f]
  have l: "nblk (unat (d_size (din_of s i))) = length (fst w)" using x(5,6) by simp
  have "set (blocks_in (fst w) (snd w)) \<subseteq> B" using p(2) by (simp add: own_def)
  from addr_blocks [OF x(1) p(1) this] show ?thesis by (intro nth_equalityI) (simp_all add: file_blocks_def l)
qed

lemma image_file_eq: "inode_is s i f w \<Longrightarrow> pool s B \<Longrightarrow> own w \<subseteq> B \<Longrightarrow> image_file s i = snd f"
  using file_blocks_eq [of s i f w B] by (simp add: image_file_def inode_isD)

text \<open>The bits of the map.\<close>

lemma set_bits: "n \<le> BSIZE * 8 \<Longrightarrow> length (fold set_bit8 [0..<n] (replicate BSIZE 0)) = BSIZE \<and>
    (\<forall>b<BSIZE * 8. bit (fold set_bit8 [0..<n] (replicate BSIZE 0) ! (b div 8)) (b mod 8) \<longleftrightarrow> b < n)"
proof (induction n)
  case 0
  have "b div 8 < BSIZE" if "b < BSIZE * 8" for b using that by (simp add: less_mult_imp_div_less)
  then show ?case by simp
next
  case (Suc n)
  let ?f = "fold set_bit8 [0..<n] (replicate BSIZE 0)"
  have l: "length ?f = BSIZE" and ih: "\<And>b. b < BSIZE * 8 \<Longrightarrow> bit (?f ! (b div 8)) (b mod 8) \<longleftrightarrow> b < n" using Suc by simp_all
  have n: "n div 8 < BSIZE" using Suc.prems by (intro less_mult_imp_div_less) simp
  have "bit (set_bit8 n ?f ! (b div 8)) (b mod 8) \<longleftrightarrow> b < Suc n" if b: "b < BSIZE * 8" for b
  proof (cases "b div 8 = n div 8")
    case True
    then have "b = n \<longleftrightarrow> b mod 8 = n mod 8" by (metis div_mult_mod_eq)
    then show ?thesis using True ih [OF b] n l by (auto simp: set_bit8_def bit_simps)
  next
    case False
    then show ?thesis using ih [OF b] by (auto simp: set_bit8_def)
  qed
  moreover have "length (set_bit8 n ?f) = BSIZE" using l by (simp add: set_bit8_def)
  ultimately show ?case by simp
qed

lemma round_size:
  fixes x :: u32
  assumes "unat x < 2 ^ 20"
  shows "unat ((x div of_nat BSIZE + 1) * of_nat BSIZE) = (unat x div BSIZE + 1) * BSIZE"
proof -
  have "x div of_nat BSIZE = of_nat (unat x div BSIZE)" by (rule word_unat_eq_iff [THEN iffD2]) (use assms in \<open>simp add: unat_div dims unat_of_nat take_bit_nat_eq_self\<close>)
  then have "(x div of_nat BSIZE + 1) * of_nat BSIZE = of_nat ((unat x div BSIZE + 1) * BSIZE)" by (simp add: algebra_simps)
  moreover have "unat x div BSIZE + 1 \<le> 1024" using assms div_le_mono [of "unat x" "2 ^ 20 - 1" 1024] by (simp add: dims)
  then have "(unat x div BSIZE + 1) * BSIZE < 2 ^ LENGTH(32)" by (simp add: dims)
  ultimately show ?thesis by (simp only: unat_of_nat mod_less)
qed

text \<open>The last two steps: the size of the root directory is rounded up and the map of used blocks is written.\<close>

lemma finish_rep:
  assumes r: "rep s fl" and f: "fl ! 0 = (T_DIR, c)" "fl \<noteq> []" "length c < 2 ^ 20"
  shows "\<exists>s'. bnd (fix_root 1 s) (\<lambda>s. Mkfs.balloc (uint (freeblock s)) s) = Ok s' \<and>
    s' = (set_din 1 (put32 8 ((d_size (din_of s 1) div of_nat BSIZE + 1) * of_nat BSIZE) (din_of s 1)) s)\<lparr>img :=
      (img (set_din 1 (put32 8 ((d_size (din_of s 1) div of_nat BSIZE + 1) * of_nat BSIZE) (din_of s 1)) s))
        (45 := fold set_bit8 [0..<nmeta + total fl] (replicate BSIZE 0))\<rparr>"
proof -
  obtain W where W: "pool s (\<Union>j<length fl. own (W j))" "\<forall>j<length fl. inode_is s (Suc j) (fl ! j) (W j)"
      "\<forall>j<length fl. \<forall>k<length fl. j \<noteq> k \<longrightarrow> own (W j) \<inter> own (W k) = {}" using r by (auto simp: rep_def)
  let ?B = "\<Union>j<length fl. own (W j)"
  have cb: "card ?B = total fl" using card_own [OF W(2,3)] by (simp add: total_def)
  have i: "inode_is s 1 (T_DIR, c) (W 0)" using W(2) f by (metis One_nat_def length_greater_0_conv)
  have ld: "length (din_of s 1) = 64" using namesD(1) [OF inode_isD(1) [OF i]] .
  let ?d = "put32 8 ((d_size (din_of s 1) div of_nat BSIZE + 1) * of_nat BSIZE) (din_of s 1)"
  have "fix_root 1 s = Ok (set_din 1 ?d s)" using rinode_ok [OF W(1), of 1] winode_ok [OF W(1), of 1 ?d] by (simp add: fix_root_def Let_def)
  moreover have p: "pool (set_din 1 ?d s) ?B" using pool_set_din [OF W(1), of 1 ?d] ld by simp
  moreover have b: "nmeta + total fl \<le> FSSIZE" using poolD(1) [OF W(1)] cb by simp
  moreover have fb: "uint (freeblock (set_din 1 ?d s)) = int (nmeta + total fl)"
  proof -
    have "unat (of_nat (nmeta + total fl) :: u32) = nmeta + total fl" using b unat_blk [of "nmeta + total fl"]
      by (cases "nmeta + total fl = FSSIZE") (simp_all add: dims unat_of_nat take_bit_nat_eq_self)
    then show ?thesis using poolD(3) [OF p] cb by (metis uint_nat)
  qed
  moreover have "(45::u32) = of_nat 45" by simp
  ultimately show ?thesis using wsect_blk [OF p, of 45] poolD(5) [OF p] by (simp add: Mkfs.balloc_def dims nat_int_add)
qed
definition holds_files :: "mstate \<Rightarrow> (u16 \<times> u8 list) list \<Rightarrow> bool" where
  "holds_files s fl \<longleftrightarrow> (\<forall>j<length fl. 0 < j \<longrightarrow> image_file s (Suc j) = snd (fl ! j) \<and> d_type (din_of s (Suc j)) = fst (fl ! j) \<and>
     d_nlink (din_of s (Suc j)) = 1 \<and> set (file_blocks s (Suc j)) \<subseteq> {nmeta..<nmeta + total fl} \<and>
     (\<forall>k<length fl. 0 < k \<longrightarrow> k \<noteq> j \<longrightarrow> set (file_blocks s (Suc j)) \<inter> set (file_blocks s (Suc k)) = {}))"

definition holds_root :: "mstate \<Rightarrow> u8 list \<Rightarrow> bool" where
  "holds_root s c \<longleftrightarrow> d_type (din_of s 1) = T_DIR \<and> d_nlink (din_of s 1) = 1 \<and> unat (d_size (din_of s 1)) = (length c div BSIZE + 1) * BSIZE \<and>
     take (length c) (image_file s 1) = c"

definition holds_map :: "mstate \<Rightarrow> nat \<Rightarrow> bool" where
  "holds_map s n \<longleftrightarrow> (\<forall>b<BSIZE * 8. bit (img s 45 ! (b div 8)) (b mod 8) \<longleftrightarrow> b < n)"

lemma holds_filesI:
  assumes p: "pool s (\<Union>j<length fl. own (W j))" and c: "card (\<Union>j<length fl. own (W j)) = total fl"
    and f: "\<And>j. j < length fl \<Longrightarrow> 0 < j \<Longrightarrow> inode_is s (Suc j) (fl ! j) (W j)"
    and d: "\<forall>j<length fl. \<forall>k<length fl. j \<noteq> k \<longrightarrow> own (W j) \<inter> own (W k) = {}"
  shows "holds_files s fl"
proof -
  let ?B = "\<Union>j<length fl. own (W j)"
  have sub: "own (W j) \<subseteq> ?B" if "j < length fl" for j using that by auto
  have fb: "set (file_blocks s (Suc j)) \<subseteq> own (W j)" if "j < length fl" "0 < j" for j
    using file_blocks_eq [OF f [OF that] p sub [OF that(1)]] own_ind(2) [of "W j" "fst (W j)" "snd (W j)"] by simp
  have "set (file_blocks s (Suc j)) \<subseteq> {nmeta..<nmeta + total fl}" if "j < length fl" "0 < j" for j
    using fb [OF that] sub [OF that(1)] poolD(2) [OF p] unfolding c by blast
  moreover have "set (file_blocks s (Suc j)) \<inter> set (file_blocks s (Suc k)) = {}" if "j < length fl" "0 < j" "k < length fl" "0 < k" "k \<noteq> j" for j k
    using fb [OF that(1,2)] fb [OF that(3,4)] d that by blast
  ultimately show ?thesis using f image_file_eq [OF f p sub] inode_isD(3,4) [OF f] unfolding holds_files_def by simp
qed

lemma holds_rootI:
  assumes i: "inode_is s 1 (T_DIR, c) w" and p: "pool s B" "own w \<subseteq> B" and l: "length c < 2 ^ 20"
    and d: "din_of s' 1 = put32 8 ((d_size (din_of s 1) div of_nat BSIZE + 1) * of_nat BSIZE) (din_of s 1)"
    and k: "\<And>b. b \<in> own w \<Longrightarrow> img s' b = img s b"
  shows "holds_root s' c"
proof -
  note x = inode_isD [OF i, unfolded fst_conv snd_conv]
  let ?d = "din_of s' 1" and ?n = "(length c div BSIZE + 1) * BSIZE"
  have ld: "length (din_of s 1) = 64" using namesD(1) [OF x(1)] .
  have sz: "unat (d_size ?d) = ?n" using round_size [of "d_size (din_of s 1)"] x(5) l ld unfolding d by simp
  have h: "d_type ?d = T_DIR" "d_nlink ?d = 1" using x(3,4) unfolding d by (simp_all add: get16_put32_other)
  have sub: "set (blocks_in (fst w) (snd w)) \<subseteq> B" using p(2) by (simp add: own_def)
  have "snd w < FSSIZE" using pool_range [OF p(1)] own_ind(1) [of w "fst w" "snd w"] p(2) by (cases "snd w = 0") (auto simp: dims)
  then have n: "names s' ?d (fst w) (snd w)" using ld k own_ind(1) [of w "fst w" "snd w"] unfolding d
    by (intro names_cong [OF x(1)]) (auto intro: get32_put32_other)
  have "bs ! j \<in> B" if "j < length bs" "bs = fst w" for j bs
    using that sub nth_mem [of j bs] by (auto simp: blocks_in_def split: if_splits)
  then have ad: "unat (addr_of s' ?d j) = fst w ! j" if "j < length (fst w)" for j
    using namesD(4,5) [OF n] that unat_blk pool_range [OF p(1)] by fastforce
  let ?g = "\<lambda>k. unat (addr_of s' ?d k)"
  have le: "length c \<le> ?n" using div_mult_mod_eq [of "length c" BSIZE] mod_less_divisor [of BSIZE "length c"] by (simp add: dims)
  have up: "[0..<nblk ?n] = [0..<length (fst w)] @ [length (fst w)..<nblk ?n]" using x(6) nblk_mono [OF le] by (metis le0 le_add_diff_inverse upt_add_eq_append)
  have "map ?g [0..<length (fst w)] = fst w" by (intro nth_equalityI) (use ad in simp_all)
  then have "file_blocks s' 1 = fst w @ map ?g [length (fst w)..<nblk ?n]" unfolding file_blocks_def sz up by simp
  moreover have "flat s' (fst w) = flat s (fst w)" using k own_ind(2) [of w "fst w" "snd w"] by (intro flat_cong) auto
  moreover have "length c \<le> length (flat s (fst w))" using arg_cong [OF x(7), of length] by simp
  ultimately have "take (length c) (image_file s' 1) = take (length c) (flat s (fst w))" using le unfolding image_file_def sz by simp
  then have "take (length c) (image_file s' 1) = c" using x(7) by simp
  then show ?thesis using h sz by (simp add: holds_root_def)
qed

lemma finish_image:
  assumes r: "rep s fl" and f: "fl ! 0 = (T_DIR, c)" "fl \<noteq> []" and l: "length c < 2 ^ 20"
  shows "\<exists>s'. bnd (fix_root 1 s) (\<lambda>s. Mkfs.balloc (uint (freeblock s)) s) = Ok s' \<and> holds_files s' fl \<and> holds_root s' c \<and>
    holds_map s' (nmeta + total fl) \<and> img s' 1 = img s 1"
proof -
  obtain W where W: "pool s (\<Union>j<length fl. own (W j))" "\<forall>j<length fl. inode_is s (Suc j) (fl ! j) (W j)"
      "\<forall>j<length fl. \<forall>k<length fl. j \<noteq> k \<longrightarrow> own (W j) \<inter> own (W k) = {}" using r by (auto simp: rep_def)
  let ?B = "\<Union>j<length fl. own (W j)"
  have cb: "card ?B = total fl" using card_own [OF W(2,3)] by (simp add: total_def)
  have n: "length fl < 200" using r by (simp add: rep_def NINODES_def)
  have z: "0 < length fl" using f(2) by simp
  have i1: "inode_is s 1 (T_DIR, c) (W 0)" using W(2) z f(1) by (metis One_nat_def)
  define d where "d = put32 8 ((d_size (din_of s 1) div of_nat BSIZE + 1) * of_nat BSIZE) (din_of s 1)"
  define bm where "bm = fold set_bit8 [0..<nmeta + total fl] (replicate BSIZE (0::u8))"
  let ?s1 = "set_din 1 d s"
  let ?s = "?s1\<lparr>img := (img ?s1)(45 := bm)\<rparr>"
  have ld: "length d = 64" using namesD(1) [OF inode_isD(1) [OF i1]] by (simp add: d_def)
  have p1: "pool ?s1 ?B" by (rule pool_set_din [OF W(1) _ ld]) simp
  have tb: "nmeta + total fl \<le> BSIZE * 8" using poolD(1) [OF W(1)] cb by (simp add: dims)
  have p: "pool ?s ?B" by (rule pool_write [OF p1]) (use set_bits [OF tb] in \<open>simp_all add: bm_def nmeta_eq\<close>)
  have one: "(1::nat) < 200" by simp
  have dd: "din_of ?s i = (if i = 1 then d else din_of s i)" if "i < 200" for i
    using din_of_set [OF W(1) one that ld] iblk_range [OF that] by (simp add: din_of_def)
  have im: "img ?s b = img s b" if "b \<noteq> 45" "b \<noteq> iblk 1" for b using that by (simp add: set_din_img)
  have keep: "img ?s b = img s b" if "b \<in> own (W j)" "j < length fl" for b j
  proof -
    have "nmeta \<le> b" using that pool_range [OF W(1), of b] by blast
    then show ?thesis using iblk_range [OF one] by (intro im) (simp_all add: nmeta_eq)
  qed
  have "inode_is ?s (Suc j) (fl ! j) (W j)" if "j < length fl" "0 < j" for j
    by (rule inode_keep [OF _ W(1)]) (use W(2) that dd [of "Suc j"] n keep in auto)
  then have "holds_files ?s fl" by (rule holds_filesI [OF p cb _ W(3)])
  moreover have "holds_root ?s c" by (rule holds_rootI [OF i1 W(1) _ l]) (use z dd [of 1] keep in \<open>auto simp: d_def\<close>)
  moreover have "holds_map ?s (nmeta + total fl)" using set_bits [OF tb] by (simp add: holds_map_def bm_def)
  moreover have "img ?s 1 = img s 1" using iblk_range [OF one] by (intro im) simp_all
  moreover have "bnd (fix_root 1 s) (\<lambda>s. Mkfs.balloc (uint (freeblock s)) s) = Ok ?s"
    using finish_rep [OF r f l] unfolding d_def bm_def by blast
  ultimately show ?thesis by blast
qed

text \<open>C6: mkfs builds the file system it is asked for. When the names hold no slash, no file is longer than a file can be and
  everything fits into the image, it ends without an error, and the image has the super block the kernel expects, every file with its
  exact content, type and link count under the inode its directory entry names, the root directory with \<open>.\<close>, \<open>..\<close> and one entry for each file in order,
  and a map in which exactly the blocks in use are marked; the blocks of the files are marked and no two files share one.\<close>

theorem mkfs_builds:
  assumes "\<forall>(a, c)\<in>set files. slash \<notin> set (strip_dir a) \<and> length c \<le> MAXFILE * BSIZE" and "length files + 1 < NINODES"
    and "nmeta + total (image_of files) \<le> FSSIZE"
  shows "\<exists>s. mkfs_main (mkfs_args files) = Ok s \<and> sb_of_bytes (img s 1) = mkfs_sb \<and> holds_files s (image_of files) \<and>
    holds_root s (root_bytes files) \<and> holds_map s (nmeta + total (image_of files))"
proof -
  obtain s where s: "mkfs_main (mkfs_args files) = bnd (fix_root 1 s) (\<lambda>s. Mkfs.balloc (uint (freeblock s)) s)" "rep s (image_of files)"
      "img s 1 = sb_bytes mkfs_sb" using files_rep [OF assms] by blast
  have "length (root_bytes files) < 2 ^ 20" using assms(2) by (simp add: length_root NINODES_def)
  from finish_image [OF s(2) image_of_simps(2) _ this] show ?thesis using s(1,3) sb_reads_back by (auto simp: image_of_def)
qed

text \<open>One file called \<open>_a\<close>, with one byte.\<close>

theorem mkfs_builds_witness:
  "\<exists>s. mkfs_main (mkfs_args [([95, 97], [7])]) = Ok s \<and> sb_of_bytes (img s 1) = mkfs_sb \<and> holds_files s (image_of [([95, 97], [7])]) \<and>
    holds_root s (root_bytes [([95, 97], [7])]) \<and> holds_map s (nmeta + total (image_of [([95, 97], [7])]))"
proof (rule mkfs_builds)
  show "\<forall>(a, c)\<in>set [([95, 97], [7])]. slash \<notin> set (strip_dir a) \<and> length c \<le> MAXFILE * BSIZE"
    by (simp add: slash_def strip_dir_def user_prefix_def dims)
  show "nmeta + total (image_of [([95, 97], [7])]) \<le> FSSIZE" by (simp add: image_of_def length_root nmeta_eq dims nblk_def cost_def)
qed (simp add: NINODES_def)

end
