(* ===== verification/File.thy ===== *)
theory File
  imports Fs
begin

unbundle bit_operations_syntax

text \<open>
  kernel/file.c and \<open>pipealloc\<close> of kernel/pipe.c: the table of open files and the operations that dispatch on
  pipes, devices and inodes. A file is its index in \<open>ftable.file[]\<close>.
\<close>

section \<open>Data\<close>

datatype fdtype = FD_NONE | FD_PIPE | FD_INODE | FD_DEVICE

record kfile =
  f_type :: fdtype
  f_ref :: int
  f_readable :: bool
  f_writable :: bool
  f_pipe :: u64
  f_ip :: "nat option"
  f_off :: u32
  f_major :: u16

record fstate = istate +
  ftable :: "nat \<Rightarrow> kfile"
  readCount :: int

type_synonym 'a fswitch = "'a fstate_scheme \<Rightarrow> ('a fstate_scheme) res"

definition NDEV :: nat where "NDEV = 10"
definition CONSOLE :: nat where "CONSOLE = 1"

definition upd_file :: "nat \<Rightarrow> (kfile \<Rightarrow> kfile) \<Rightarrow> 'a fstate_scheme \<Rightarrow> 'a fstate_scheme" where
  "upd_file f g s = s\<lparr>ftable := (ftable s)(f := g (ftable s f))\<rparr>"

text \<open>A pointer that must not be null.\<close>

definition deref :: "nat option \<Rightarrow> nat res" where
  "deref p = (case p of None \<Rightarrow> Err (Undef ''null pointer'') | Some i \<Rightarrow> Ok i)"

section \<open>The table\<close>

definition fileinit :: "'a fstate_scheme \<Rightarrow> 'a fstate_scheme" where
  "fileinit s = initlock FtableLock s"

definition filealloc :: "'a fstate_scheme \<Rightarrow> (nat option \<times> 'a fstate_scheme) res" where
  "filealloc s =
     bnd (acquire FtableLock s) (\<lambda>s1.
     case find (\<lambda>f. f_ref (ftable s1 f) = 0) [0..<NFILE] of
       Some f \<Rightarrow> bnd (release FtableLock (upd_file f (\<lambda>x. x\<lparr>f_ref := 1\<rparr>) s1)) (\<lambda>s2. Ok (Some f, s2))
     | None \<Rightarrow> bnd (release FtableLock s1) (\<lambda>s2. Ok (None, s2)))"

definition filedup :: "nat \<Rightarrow> 'a fstate_scheme \<Rightarrow> (nat \<times> 'a fstate_scheme) res" where
  "filedup f s =
     bnd (acquire FtableLock s) (\<lambda>s1.
     if f_ref (ftable s1 f) < 1 then Err (Panic ''filedup'')
     else bnd (release FtableLock (upd_file f (\<lambda>x. x\<lparr>f_ref := f_ref x + 1\<rparr>) s1)) (\<lambda>s2. Ok (f, s2)))"

definition fileclose :: "'a fswitch \<Rightarrow> nat \<Rightarrow> nat \<Rightarrow> 'a fstate_scheme \<Rightarrow> ('a fstate_scheme) res" where
  "fileclose sw m f s =
     bnd (acquire FtableLock s) (\<lambda>s1.
     if f_ref (ftable s1 f) < 1 then Err (Panic ''fileclose'')
     else let s2 = upd_file f (\<lambda>x. x\<lparr>f_ref := f_ref x - 1\<rparr>) s1
     in if f_ref (ftable s2 f) > 0 then release FtableLock s2
        else let ff = ftable s2 f
        in bnd (release FtableLock (upd_file f (\<lambda>x. x\<lparr>f_ref := 0, f_type := FD_NONE\<rparr>) s2)) (\<lambda>s3.
           if f_type ff = FD_PIPE then pipeclose (f_pipe ff) (f_writable ff) s3
           else if f_type ff = FD_INODE \<or> f_type ff = FD_DEVICE then
             bnd (begin_op sw m s3) (\<lambda>s4. bnd (deref (f_ip ff)) (\<lambda>ip. bnd (iput sw m ip s4) (end_op sw m)))
           else Ok s3))"

text \<open>\<open>struct stat\<close> as bytes; \<open>pad\<close> stands for the four bytes of the stack that no field covers.\<close>

definition stat_bytes :: "stat \<Rightarrow> u8 list \<Rightarrow> u8 list" where
  "stat_bytes st pad = put32 20 (ucast (drop_bit 32 (st_size st))) (put32 16 (ucast (st_size st)) (put_bytes 12 (take 4 pad)
     (put16 10 (st_nlink st) (put16 8 (st_type st) (put32 4 (st_ino st) (put32 0 (st_dev st) (replicate 24 0)))))))"

definition filestat :: "'a fswitch \<Rightarrow> nat \<Rightarrow> u8 list \<Rightarrow> nat \<Rightarrow> u64 \<Rightarrow> 'a fstate_scheme \<Rightarrow> (int \<times> 'a fstate_scheme) res" where
  "filestat sw m pad f addr s =
     bnd (current s) (\<lambda>(p, s0).
     if f_type (ftable s0 f) = FD_INODE \<or> f_type (ftable s0 f) = FD_DEVICE then
       bnd (ilock sw m (f_ip (ftable s0 f)) s0) (\<lambda>s1.
       bnd (deref (f_ip (ftable s1 f))) (\<lambda>ip.
       let st = stati ip s1
       in bnd (iunlock (Some ip) s1) (\<lambda>s2.
          bnd (copyout (p_pagetable (procs s2 p)) addr (stat_bytes st pad) s2) (\<lambda>(r, s3).
          Ok (if r < 0 then -1 else 0, s3)))))
     else Ok (-1, s0))"

text \<open>The device switch: the console is its only entry, once \<open>consoleinit\<close> has run.\<close>

definition dev_present :: "u16 \<Rightarrow> 'a cstate_scheme \<Rightarrow> bool" where
  "dev_present mj s \<longleftrightarrow> 0 \<le> sint mj \<and> sint mj < int NDEV \<and> nat (sint mj) = CONSOLE \<and> console_dev s"

definition fileread :: "'a fswitch \<Rightarrow> nat \<Rightarrow> nat \<Rightarrow> u64 \<Rightarrow> int \<Rightarrow> 'a fstate_scheme \<Rightarrow> (int \<times> 'a fstate_scheme) res" where
  "fileread sw m f addr n s =
     (let x = ftable s f
      in if \<not> f_readable x then Ok (-1, s)
         else case f_type x of
           FD_PIPE \<Rightarrow> piperead sw m (f_pipe x) addr n s
         | FD_DEVICE \<Rightarrow> if \<not> dev_present (f_major x) s then Ok (-1, s) else consoleread sw m True addr n s
         | FD_INODE \<Rightarrow>
             bnd (ilock sw m (f_ip x) s) (\<lambda>s1.
             bnd (deref (f_ip (ftable s1 f))) (\<lambda>ip.
             bnd (readi sw m ip (ToUser addr) (f_off (ftable s1 f)) (of_int n) s1) (\<lambda>((r, _), s2).
             let s3 = (if r > 0 then upd_file f (\<lambda>y. y\<lparr>f_off := f_off y + of_int r\<rparr>) s2 else s2)
             in bnd (iunlock (Some ip) s3) (\<lambda>s4. Ok (r, s4)))))
         | FD_NONE \<Rightarrow> Err (Panic ''fileread''))"

text \<open>A write to an inode is split into transactions of at most \<open>maxwrite\<close> bytes; \<open>k\<close> bytes are left.\<close>

definition maxwrite :: nat where
  "maxwrite = ((MAXOPBLOCKS - 1 - 1 - 2) div 2) * BSIZE"

lemma maxwrite_pos: "0 < maxwrite"
  by (simp add: maxwrite_def MAXOPBLOCKS_def BSIZE_def)

function filewrite_loop :: "'a fswitch \<Rightarrow> nat \<Rightarrow> nat \<Rightarrow> u64 \<Rightarrow> nat \<Rightarrow> nat \<Rightarrow> 'a fstate_scheme \<Rightarrow> (nat \<times> 'a fstate_scheme) res" where
  "filewrite_loop sw m f addr k i s =
     (if k = 0 then Ok (i, s)
      else let n1 = min k maxwrite
      in bnd (begin_op sw m s) (\<lambda>s1.
         bnd (ilock sw m (f_ip (ftable s1 f)) s1) (\<lambda>s2.
         bnd (deref (f_ip (ftable s2 f))) (\<lambda>ip.
         bnd (writei sw m ip (FromUser (addr + of_nat i)) (f_off (ftable s2 f)) (of_nat n1) s2) (\<lambda>(r, s3).
         let s4 = (if r > 0 then upd_file f (\<lambda>y. y\<lparr>f_off := f_off y + of_int r\<rparr>) s3 else s3)
         in bnd (iunlock (Some ip) s4) (\<lambda>s5.
            bnd (end_op sw m s5) (\<lambda>s6.
            if r \<noteq> int n1 then Ok (i, s6) else filewrite_loop sw m f addr (k - n1) (i + n1) s6)))))))"
  by pat_completeness auto
termination
  by (relation "measure (\<lambda>(_, _, _, _, k, _). k)") (simp_all add: maxwrite_pos)

declare filewrite_loop.simps [simp del]

definition filewrite :: "'a fswitch \<Rightarrow> nat \<Rightarrow> nat \<Rightarrow> u64 \<Rightarrow> int \<Rightarrow> 'a fstate_scheme \<Rightarrow> (int \<times> 'a fstate_scheme) res" where
  "filewrite sw m f addr n s =
     (let x = ftable s f
      in if \<not> f_writable x then Ok (-1, s)
         else case f_type x of
           FD_PIPE \<Rightarrow> pipewrite sw m (f_pipe x) addr n s
         | FD_DEVICE \<Rightarrow> if \<not> dev_present (f_major x) s then Ok (-1, s) else consolewrite sw m True addr n s
         | FD_INODE \<Rightarrow> bnd (filewrite_loop sw m f addr (nat n) 0 s) (\<lambda>(i, s1). Ok (if int i = n then n else -1, s1))
         | FD_NONE \<Rightarrow> Err (Panic ''filewrite''))"

section \<open>Making a pipe\<close>

text \<open>The two files, when the call succeeds. The bytes of a fresh pipe are whatever was in its page.\<close>

definition pipealloc :: "'a fswitch \<Rightarrow> nat \<Rightarrow> 'a fstate_scheme \<Rightarrow> ((nat \<times> nat) option \<times> 'a fstate_scheme) res" where
  "pipealloc sw m s =
     bnd (filealloc s) (\<lambda>(f0, s1).
     case f0 of None \<Rightarrow> Ok (None, s1)
     | Some r \<Rightarrow>
       bnd (filealloc s1) (\<lambda>(f1, s2).
       case f1 of None \<Rightarrow> bnd (fileclose sw m r s2) (\<lambda>s3. Ok (None, s3))
       | Some w \<Rightarrow>
         bnd (kalloc s2) (\<lambda>(pi, s3).
         if pi = 0 then bnd (fileclose sw m r s3) (\<lambda>s4. bnd (fileclose sw m w s4) (\<lambda>s5. Ok (None, s5)))
         else let s4 = initlock (PipeLock pi) (upd_pipe pi (\<lambda>p. p\<lparr>readopen := True, writeopen := True, nwrite := 0, nread := 0\<rparr>) s3);
                  s5 = upd_file r (\<lambda>x. x\<lparr>f_type := FD_PIPE, f_readable := True, f_writable := False, f_pipe := pi\<rparr>) s4;
                  s6 = upd_file w (\<lambda>x. x\<lparr>f_type := FD_PIPE, f_readable := False, f_writable := True, f_pipe := pi\<rparr>) s5
              in Ok (Some (r, w), s6))))"

end
