(* ===== verification/Exec.thy ===== *)
theory Exec
  imports File
begin

unbundle bit_operations_syntax

text \<open>
  kernel/exec.c: replacing the memory image of a process by the program in a file. The argument vector is given as
  the list of its strings.
\<close>

section \<open>ELF headers\<close>

definition ELF_MAGIC :: u32 where "ELF_MAGIC = 0x464C457F"
definition ELF_PROG_LOAD :: u32 where "ELF_PROG_LOAD = 1"
definition MAXARG :: nat where "MAXARG = 32"

definition get64 :: "nat \<Rightarrow> u8 list \<Rightarrow> u64" where
  "get64 i bs = ucast (get32 i bs) OR push_bit 32 (ucast (get32 (i + 4) bs))"

record elfhdr =
  e_magic :: u32
  e_entry :: u64
  e_phoff :: u64
  e_phnum :: u16

record proghdr =
  ph_type :: u32
  ph_flags :: u32
  ph_off :: u64
  ph_vaddr :: u64
  ph_filesz :: u64
  ph_memsz :: u64

definition elf_of_bytes :: "u8 list \<Rightarrow> elfhdr" where
  "elf_of_bytes bs = \<lparr>e_magic = get32 0 bs, e_entry = get64 24 bs, e_phoff = get64 32 bs, e_phnum = get16 56 bs\<rparr>"

definition ph_of_bytes :: "u8 list \<Rightarrow> proghdr" where
  "ph_of_bytes bs = \<lparr>ph_type = get32 0 bs, ph_flags = get32 4 bs, ph_off = get64 8 bs, ph_vaddr = get64 16 bs,
     ph_filesz = get64 32 bs, ph_memsz = get64 40 bs\<rparr>"

definition flags2perm :: "u32 \<Rightarrow> u64" where
  "flags2perm flags =
     (let perm = (if flags AND 1 \<noteq> 0 then PTE_X else 0) in if flags AND 2 \<noteq> 0 then perm OR PTE_W else perm)"

section \<open>Loading\<close>

text \<open>One page after the other; \<open>k\<close> is the number of the page.\<close>

fun loadseg_loop :: "'a fswitch \<Rightarrow> nat \<Rightarrow> u64 \<Rightarrow> u64 \<Rightarrow> nat \<Rightarrow> u32 \<Rightarrow> nat \<Rightarrow> nat list \<Rightarrow> 'a fstate_scheme \<Rightarrow>
    (int \<times> 'a fstate_scheme) res" where
  "loadseg_loop sw m pagetable va ip offset sz [] s = Ok (0, s)"
| "loadseg_loop sw m pagetable va ip offset sz (k # ks) s =
     (let i = 4096 * k; n = min (sz - i) 4096
      in bnd (walkaddr pagetable (va + of_nat i) s) (\<lambda>(pa, s1).
         if pa = 0 then Err (Panic ''loadseg: address should exist'')
         else bnd (readi sw m ip (ToKernel pa) (offset + of_nat i) (of_nat n) s1) (\<lambda>((r, _), s2).
           if r \<noteq> int n then Ok (-1, s2) else loadseg_loop sw m pagetable va ip offset sz ks s2)))"

definition loadseg :: "'a fswitch \<Rightarrow> nat \<Rightarrow> u64 \<Rightarrow> u64 \<Rightarrow> nat \<Rightarrow> u32 \<Rightarrow> u32 \<Rightarrow> 'a fstate_scheme \<Rightarrow>
    (int \<times> 'a fstate_scheme) res" where
  "loadseg sw m pagetable va ip offset sz s =
     loadseg_loop sw m pagetable va ip offset (unat sz) [0..<(unat sz + 4095) div 4096] s"

text \<open>
  The loop over the program headers returns the size reached and whether it came to its end. The file
  offset, an \<open>int\<close> in the source, is kept modulo \<open>2^32\<close>.
\<close>

primrec exec_load :: "'a fswitch \<Rightarrow> nat \<Rightarrow> nat \<Rightarrow> u64 \<Rightarrow> nat \<Rightarrow> u32 \<Rightarrow> u64 \<Rightarrow> 'a fstate_scheme \<Rightarrow>
    ((bool \<times> u64) \<times> 'a fstate_scheme) res" where
  "exec_load sw m ip pagetable 0 off sz s = Ok ((True, sz), s)"
| "exec_load sw m ip pagetable (Suc n) off sz s =
     bnd (readi sw m ip ToLocal off 56 s) (\<lambda>((r, bs), s1).
     let ph = ph_of_bytes bs
     in if r \<noteq> 56 then Ok ((False, sz), s1)
        else if ph_type ph \<noteq> ELF_PROG_LOAD then exec_load sw m ip pagetable n (off + 56) sz s1
        else if ph_memsz ph < ph_filesz ph \<or> ph_vaddr ph + ph_memsz ph < ph_vaddr ph \<or> ph_vaddr ph mod PGSIZE \<noteq> 0
        then Ok ((False, sz), s1)
        else bnd (uvmalloc pagetable sz (ph_vaddr ph + ph_memsz ph) (flags2perm (ph_flags ph)) s1) (\<lambda>(sz1, s2).
          if sz1 = 0 then Ok ((False, sz), s2)
          else bnd (loadseg sw m pagetable (ph_vaddr ph) ip (ucast (ph_off ph)) (ucast (ph_filesz ph)) s2) (\<lambda>(r, s3).
            if r < 0 then Ok ((False, sz1), s3) else exec_load sw m ip pagetable n (off + 56) sz1 s3)))"

section \<open>Arguments\<close>

definition u64_bytes :: "u64 \<Rightarrow> u8 list" where
  "u64_bytes v = map (\<lambda>i. ucast (drop_bit (8 * i) v)) [0..<8]"

text \<open>Pushing the strings; the addresses they got, or \<open>None\<close> when they do not fit.\<close>

fun push_args :: "u64 \<Rightarrow> u64 \<Rightarrow> u8 list list \<Rightarrow> u64 \<Rightarrow> u64 list \<Rightarrow> 'a fstate_scheme \<Rightarrow>
    ((u64 \<times> u64 list) option \<times> 'a fstate_scheme) res" where
  "push_args pagetable stackbase [] sp0 ustack s = Ok (Some (sp0, ustack), s)"
| "push_args pagetable stackbase (a # argv) sp0 ustack s =
     (if length ustack \<ge> MAXARG then Ok (None, s)
      else let sp1 = sp0 - of_nat (length a + 1); sp2 = sp1 - sp1 mod 16
      in if sp2 < stackbase then Ok (None, s)
         else bnd (copyout pagetable sp2 (a @ [0]) s) (\<lambda>(r, s1).
           if r < 0 then Ok (None, s1) else push_args pagetable stackbase argv sp2 (ustack @ [sp2]) s1))"

text \<open>The array of pointers below the strings.\<close>

definition push_ustack :: "u64 \<Rightarrow> u64 \<Rightarrow> u64 \<Rightarrow> u64 list \<Rightarrow> 'a fstate_scheme \<Rightarrow> (u64 option \<times> 'a fstate_scheme) res" where
  "push_ustack pagetable stackbase sp0 ustack s =
     (let sp1 = sp0 - of_nat (8 * (length ustack + 1)); sp2 = sp1 - sp1 mod 16
      in if sp2 < stackbase then Ok (None, s)
         else bnd (copyout pagetable sp2 (concat (map u64_bytes (ustack @ [0]))) s) (\<lambda>(r, s1).
           Ok (if r < 0 then None else Some sp2, s1)))"

text \<open>\<open>safestrcpy\<close> of the last element of the path into the 16 bytes of the process name.\<close>

definition set_name :: "u8 list \<Rightarrow> u8 list \<Rightarrow> u8 list" where
  "set_name pth name =
     (let lst = rev (takeWhile (\<lambda>b. b \<noteq> slash) (rev (c_str pth))) in put_bytes 0 (take 15 (lst @ [0]) @ [0]) name)"

section \<open>exec\<close>

text \<open>The exits after a failure, with the inode held and without.\<close>

definition exec_bad :: "'a fswitch \<Rightarrow> nat \<Rightarrow> u64 \<Rightarrow> u64 \<Rightarrow> nat option \<Rightarrow> 'a fstate_scheme \<Rightarrow> (int \<times> 'a fstate_scheme) res" where
  "exec_bad sw m pagetable sz ipp s =
     bnd (if pagetable \<noteq> 0 then proc_freepagetable pagetable sz s else Ok s) (\<lambda>s1.
     case ipp of None \<Rightarrow> Ok (-1, s1)
     | Some ip \<Rightarrow> bnd (iunlockput sw m ip s1) (\<lambda>s2. bnd (end_op sw m s2) (\<lambda>s3. Ok (-1, s3))))"

text \<open>The second half: stack, arguments, and the new image put in place of the old one.\<close>

definition exec_commit :: "'a fswitch \<Rightarrow> nat \<Rightarrow> nat \<Rightarrow> u8 list \<Rightarrow> u8 list list \<Rightarrow> elfhdr \<Rightarrow> u64 \<Rightarrow> u64 \<Rightarrow> 'a fstate_scheme \<Rightarrow>
    (int \<times> 'a fstate_scheme) res" where
  "exec_commit sw m p pth argv elf pagetable sz0 s =
     (let oldsz = p_sz (procs s p); sz = PGROUNDUP sz0
      in bnd (uvmalloc pagetable sz (sz + 2 * PGSIZE) PTE_W s) (\<lambda>(sz1, s1).
         if sz1 = 0 then exec_bad sw m pagetable sz None s1
         else bnd (uvmclear pagetable (sz1 - 2 * PGSIZE) s1) (\<lambda>s2.
           let stackbase = sz1 - PGSIZE
           in bnd (push_args pagetable stackbase argv sz1 [] s2) (\<lambda>(pushed, s3).
              case pushed of None \<Rightarrow> exec_bad sw m pagetable sz1 None s3
              | Some (sp0, ustack) \<Rightarrow>
                bnd (push_ustack pagetable stackbase sp0 ustack s3) (\<lambda>(spo, s4).
                case spo of None \<Rightarrow> exec_bad sw m pagetable sz1 None s4
                | Some sp0' \<Rightarrow>
                  let s5 = upd_proc p (\<lambda>pr. pr\<lparr>p_name := set_name pth (p_name pr)\<rparr>) (tf_set (TfA 1) sp0' p s4);
                      oldpagetable = p_pagetable (procs s5 p);
                      s6 = tf_set TfSp sp0' p (tf_set Epc (e_entry elf) p (upd_proc p (\<lambda>pr. pr\<lparr>p_pagetable := pagetable, p_sz := sz1\<rparr>) s5))
                  in bnd (proc_freepagetable oldpagetable oldsz s6) (\<lambda>s7. Ok (int (length ustack), s7)))))))"

definition exec :: "'a fswitch \<Rightarrow> nat \<Rightarrow> u8 list \<Rightarrow> u8 list list \<Rightarrow> 'a fstate_scheme \<Rightarrow> (int \<times> 'a fstate_scheme) res" where
  "exec sw m pth argv s =
     bnd (current s) (\<lambda>(p, s0).
     bnd (begin_op sw m s0) (\<lambda>s1.
     bnd (namei sw m pth s1) (\<lambda>(ipp, s2).
     case ipp of None \<Rightarrow> bnd (end_op sw m s2) (\<lambda>s3. Ok (-1, s3))
     | Some ip \<Rightarrow>
       bnd (ilock sw m (Some ip) s2) (\<lambda>s3.
       bnd (readi sw m ip ToLocal 0 64 s3) (\<lambda>((r, bs), s4).
       let elf = elf_of_bytes bs
       in if r \<noteq> 64 \<or> e_magic elf \<noteq> ELF_MAGIC then exec_bad sw m 0 0 (Some ip) s4
          else bnd (proc_pagetable p s4) (\<lambda>(pagetable, s5).
            if pagetable = 0 then exec_bad sw m 0 0 (Some ip) s5
            else bnd (exec_load sw m ip pagetable (unat (e_phnum elf)) (ucast (e_phoff elf)) 0 s5) (\<lambda>((ok, sz), s6).
              if \<not> ok then exec_bad sw m pagetable sz (Some ip) s6
              else bnd (iunlockput sw m ip s6) (\<lambda>s7.
                   bnd (end_op sw m s7) (\<lambda>s8.
                   bnd (current s8) (\<lambda>(p', s9). exec_commit sw m p' pth argv elf pagetable sz s9))))))))))"

end
