(* ===== verification/Sysfile.thy ===== *)
theory Sysfile
  imports Exec Fcntl
begin

unbundle bit_operations_syntax

text \<open>
  kernel/sysfile.c: the system calls on files. Each fetches its arguments from the trapframe, brackets what it does to
  the file system in a transaction and releases what it took on every way out.
\<close>

definition MAXPATH :: nat where "MAXPATH = 128"

type_synonym 'a syscall = "(u64 \<times> 'a fstate_scheme) res"

section \<open>Descriptors\<close>

text \<open>The descriptor and the file, when the argument is a descriptor of an open file.\<close>

definition argfd :: "int \<Rightarrow> 'a fstate_scheme \<Rightarrow> ((nat \<times> nat) option \<times> 'a fstate_scheme) res" where
  "argfd n s =
     bnd (argint n s) (\<lambda>(fd, s1).
     if fd < 0 \<or> fd \<ge> int NOFILE then Ok (None, s1)
     else bnd (current s1) (\<lambda>(p, s2).
       case p_ofile (procs s2 p) (nat fd) of None \<Rightarrow> Ok (None, s2) | Some f \<Rightarrow> Ok (Some (nat fd, f), s2)))"

definition fdalloc :: "nat \<Rightarrow> 'a fstate_scheme \<Rightarrow> (int \<times> 'a fstate_scheme) res" where
  "fdalloc f s =
     bnd (current s) (\<lambda>(p, s1).
     case find (\<lambda>fd. p_ofile (procs s1 p) fd = None) [0..<NOFILE] of
       Some fd \<Rightarrow> Ok (int fd, upd_proc p (\<lambda>pr. pr\<lparr>p_ofile := (p_ofile pr)(fd := Some f)\<rparr>) s1)
     | None \<Rightarrow> Ok (-1, s1))"

definition sys_dup :: "'a fstate_scheme \<Rightarrow> 'a syscall" where
  "sys_dup s =
     bnd (argfd 0 s) (\<lambda>(a, s1).
     case a of None \<Rightarrow> Ok (-1, s1)
     | Some (_, f) \<Rightarrow>
       bnd (fdalloc f s1) (\<lambda>(fd, s2).
       if fd < 0 then Ok (-1, s2) else bnd (filedup f s2) (\<lambda>(_, s3). Ok (of_int fd, s3))))"

definition sys_getreadcount :: "'a fstate_scheme \<Rightarrow> 'a syscall" where
  "sys_getreadcount s = Ok (of_int (readCount s), s)"

definition sys_read :: "'a fswitch \<Rightarrow> nat \<Rightarrow> 'a fstate_scheme \<Rightarrow> 'a syscall" where
  "sys_read sw m s =
     bnd (argaddr 1 (s\<lparr>readCount := wrap32 (readCount s + 1)\<rparr>)) (\<lambda>(a, s1).
     bnd (argint 2 s1) (\<lambda>(n, s2).
     bnd (argfd 0 s2) (\<lambda>(x, s3).
     case x of None \<Rightarrow> Ok (-1, s3)
     | Some (_, f) \<Rightarrow> bnd (fileread sw m f a n s3) (\<lambda>(r, s4). Ok (of_int r, s4)))))"

definition sys_write :: "'a fswitch \<Rightarrow> nat \<Rightarrow> 'a fstate_scheme \<Rightarrow> 'a syscall" where
  "sys_write sw m s =
     bnd (argaddr 1 s) (\<lambda>(a, s1).
     bnd (argint 2 s1) (\<lambda>(n, s2).
     bnd (argfd 0 s2) (\<lambda>(x, s3).
     case x of None \<Rightarrow> Ok (-1, s3)
     | Some (_, f) \<Rightarrow> bnd (filewrite sw m f a n s3) (\<lambda>(r, s4). Ok (of_int r, s4)))))"

definition sys_close :: "'a fswitch \<Rightarrow> nat \<Rightarrow> 'a fstate_scheme \<Rightarrow> 'a syscall" where
  "sys_close sw m s =
     bnd (argfd 0 s) (\<lambda>(x, s1).
     case x of None \<Rightarrow> Ok (-1, s1)
     | Some (fd, f) \<Rightarrow>
       bnd (current s1) (\<lambda>(p, s2).
       bnd (fileclose sw m f (upd_proc p (\<lambda>pr. pr\<lparr>p_ofile := (p_ofile pr)(fd := None)\<rparr>) s2)) (\<lambda>s3. Ok (0, s3))))"

definition sys_fstat :: "'a fswitch \<Rightarrow> nat \<Rightarrow> u8 list \<Rightarrow> 'a fstate_scheme \<Rightarrow> 'a syscall" where
  "sys_fstat sw m pad s =
     bnd (argaddr 1 s) (\<lambda>(st, s1).
     bnd (argfd 0 s1) (\<lambda>(x, s2).
     case x of None \<Rightarrow> Ok (-1, s2)
     | Some (_, f) \<Rightarrow> bnd (filestat sw m pad f st s2) (\<lambda>(r, s3). Ok (of_int r, s3))))"

section \<open>Links\<close>

text \<open>A transaction that ends without success.\<close>

definition end_fail :: "'a fswitch \<Rightarrow> nat \<Rightarrow> 'a fstate_scheme \<Rightarrow> 'a syscall" where
  "end_fail sw m s = bnd (end_op sw m s) (\<lambda>s1. Ok (-1, s1))"

definition put_fail :: "'a fswitch \<Rightarrow> nat \<Rightarrow> nat \<Rightarrow> 'a fstate_scheme \<Rightarrow> 'a syscall" where
  "put_fail sw m ip s = bnd (iunlockput sw m ip s) (end_fail sw m)"

text \<open>A name buffer that is written before it is read.\<close>

abbreviation name0 :: "u8 list" where
  "name0 \<equiv> replicate DIRSIZ 0"

definition link_bad :: "'a fswitch \<Rightarrow> nat \<Rightarrow> nat \<Rightarrow> 'a fstate_scheme \<Rightarrow> 'a syscall" where
  "link_bad sw m ip s =
     bnd (ilock sw m (Some ip) s) (\<lambda>s1.
     bnd (iupdate sw m ip (upd_inode ip (\<lambda>n. n\<lparr>i_nlink := i_nlink n - 1\<rparr>) s1)) (put_fail sw m ip))"

definition sys_link :: "'a fswitch \<Rightarrow> nat \<Rightarrow> 'a fstate_scheme \<Rightarrow> 'a syscall" where
  "sys_link sw m s =
     bnd (argstr 0 (int MAXPATH) s) (\<lambda>((r, old), s1).
     if r < 0 then Ok (-1, s1)
     else bnd (argstr 1 (int MAXPATH) s1) (\<lambda>((r, new), s2).
     if r < 0 then Ok (-1, s2)
     else bnd (begin_op sw m s2) (\<lambda>s3.
     bnd (namei sw m old s3) (\<lambda>(ipp, s4).
     case ipp of None \<Rightarrow> end_fail sw m s4
     | Some ip \<Rightarrow>
       bnd (ilock sw m (Some ip) s4) (\<lambda>s5.
       if i_type (itable s5 ip) = T_DIR then put_fail sw m ip s5
       else bnd (iupdate sw m ip (upd_inode ip (\<lambda>n. n\<lparr>i_nlink := i_nlink n + 1\<rparr>) s5)) (\<lambda>s6.
       bnd (iunlock (Some ip) s6) (\<lambda>s7.
       bnd (nameiparent sw m new name0 s7) (\<lambda>((dpp, name), s8).
       case dpp of None \<Rightarrow> link_bad sw m ip s8
       | Some dp \<Rightarrow>
         bnd (ilock sw m (Some dp) s8) (\<lambda>s9.
         bnd (if i_dev (itable s9 dp) \<noteq> i_dev (itable s9 ip) then Ok (-1, s9)
              else dirlink sw m dp name (i_inum (itable s9 ip)) s9) (\<lambda>(r, s10).
         if r < 0 then bnd (iunlockput sw m dp s10) (link_bad sw m ip)
         else bnd (iunlockput sw m dp s10) (\<lambda>s11.
              bnd (iput sw m ip s11) (\<lambda>s12. bnd (end_op sw m s12) (\<lambda>s13. Ok (0, s13))))))))))))))"

fun isdirempty_loop :: "'a fswitch \<Rightarrow> nat \<Rightarrow> nat \<Rightarrow> nat list \<Rightarrow> 'a fstate_scheme \<Rightarrow> (bool \<times> 'a fstate_scheme) res" where
  "isdirempty_loop sw m dp [] s = Ok (True, s)"
| "isdirempty_loop sw m dp (k # ks) s =
     bnd (readi sw m dp ToLocal (of_nat (16 * k)) 16 s) (\<lambda>((r, de), s1).
     if r \<noteq> 16 then Err (Panic ''isdirempty: readi'')
     else if get16 0 de \<noteq> 0 then Ok (False, s1)
     else isdirempty_loop sw m dp ks s1)"

definition isdirempty :: "'a fswitch \<Rightarrow> nat \<Rightarrow> nat \<Rightarrow> 'a fstate_scheme \<Rightarrow> (bool \<times> 'a fstate_scheme) res" where
  "isdirempty sw m dp s = isdirempty_loop sw m dp [2..<(unat (i_size (itable s dp)) + 15) div 16] s"

definition dot :: "u8 list" where "dot = [46]"
definition dotdot :: "u8 list" where "dotdot = [46, 46]"

text \<open>The part of \<open>sys_unlink\<close> after the entry was found: \<open>dp\<close> and \<open>ip\<close> are locked.\<close>

definition unlink_entry :: "'a fswitch \<Rightarrow> nat \<Rightarrow> nat \<Rightarrow> nat \<Rightarrow> u32 \<Rightarrow> 'a fstate_scheme \<Rightarrow> 'a syscall" where
  "unlink_entry sw m dp ip off s =
     bnd (writei sw m dp (FromLocal (replicate 16 0)) off 16 s) (\<lambda>(r, s1).
     if r \<noteq> 16 then Err (Panic ''unlink: writei'')
     else bnd (if i_type (itable s1 ip) = T_DIR then iupdate sw m dp (upd_inode dp (\<lambda>n. n\<lparr>i_nlink := i_nlink n - 1\<rparr>) s1)
               else Ok s1) (\<lambda>s2.
          bnd (iunlockput sw m dp s2) (\<lambda>s3.
          bnd (iupdate sw m ip (upd_inode ip (\<lambda>n. n\<lparr>i_nlink := i_nlink n - 1\<rparr>) s3)) (\<lambda>s4.
          bnd (iunlockput sw m ip s4) (\<lambda>s5. bnd (end_op sw m s5) (\<lambda>s6. Ok (0, s6)))))))"

definition sys_unlink :: "'a fswitch \<Rightarrow> nat \<Rightarrow> 'a fstate_scheme \<Rightarrow> 'a syscall" where
  "sys_unlink sw m s =
     bnd (argstr 0 (int MAXPATH) s) (\<lambda>((r, pth), s1).
     if r < 0 then Ok (-1, s1)
     else bnd (begin_op sw m s1) (\<lambda>s2.
     bnd (nameiparent sw m pth name0 s2) (\<lambda>((dpp, name), s3).
     case dpp of None \<Rightarrow> end_fail sw m s3
     | Some dp \<Rightarrow>
       bnd (ilock sw m (Some dp) s3) (\<lambda>s4.
       if namecmp name dot = 0 \<or> namecmp name dotdot = 0 then put_fail sw m dp s4
       else bnd (dirlookup sw m dp name s4) (\<lambda>(found, s5).
       case found of None \<Rightarrow> put_fail sw m dp s5
       | Some (ip, off) \<Rightarrow>
         bnd (ilock sw m (Some ip) s5) (\<lambda>s6.
         if sint (i_nlink (itable s6 ip)) < 1 then Err (Panic ''unlink: nlink < 1'')
         else bnd (if i_type (itable s6 ip) = T_DIR then isdirempty sw m ip s6 else Ok (True, s6)) (\<lambda>(empty, s7).
           if \<not> empty then bnd (iunlockput sw m ip s7) (put_fail sw m dp)
           else unlink_entry sw m dp ip off s7)))))))"

section \<open>Creating and opening\<close>

text \<open>The exit of \<open>create\<close> after a directory entry could not be written.\<close>

definition create_fail :: "'a fswitch \<Rightarrow> nat \<Rightarrow> nat \<Rightarrow> nat \<Rightarrow> 'a fstate_scheme \<Rightarrow> (nat option \<times> 'a fstate_scheme) res" where
  "create_fail sw m dp ip s =
     bnd (iupdate sw m ip (upd_inode ip (\<lambda>n. n\<lparr>i_nlink := 0\<rparr>) s)) (\<lambda>s1.
     bnd (iunlockput sw m ip s1) (\<lambda>s2. bnd (iunlockput sw m dp s2) (\<lambda>s3. Ok (None, s3))))"

definition create_new :: "'a fswitch \<Rightarrow> nat \<Rightarrow> u8 list \<Rightarrow> u16 \<Rightarrow> u16 \<Rightarrow> u16 \<Rightarrow> nat \<Rightarrow> nat \<Rightarrow> 'a fstate_scheme \<Rightarrow>
    (nat option \<times> 'a fstate_scheme) res" where
  "create_new sw m name type mj mn dp ip s =
     bnd (ilock sw m (Some ip) s) (\<lambda>s1.
     bnd (iupdate sw m ip (upd_inode ip (\<lambda>n. n\<lparr>i_major := mj, i_minor := mn, i_nlink := 1\<rparr>) s1)) (\<lambda>s2.
     bnd (if type = T_DIR then
            bnd (dirlink sw m ip dot (i_inum (itable s2 ip)) s2) (\<lambda>(r, s3).
            if r < 0 then Ok (r, s3) else dirlink sw m ip dotdot (i_inum (itable s3 dp)) s3)
          else Ok (0, s2)) (\<lambda>(r, s4).
     if r < 0 then create_fail sw m dp ip s4
     else bnd (dirlink sw m dp name (i_inum (itable s4 ip)) s4) (\<lambda>(r, s5).
     if r < 0 then create_fail sw m dp ip s5
     else bnd (if type = T_DIR then iupdate sw m dp (upd_inode dp (\<lambda>n. n\<lparr>i_nlink := i_nlink n + 1\<rparr>) s5) else Ok s5) (\<lambda>s6.
          bnd (iunlockput sw m dp s6) (\<lambda>s7. Ok (Some ip, s7)))))))"

definition create :: "'a fswitch \<Rightarrow> nat \<Rightarrow> u8 list \<Rightarrow> u16 \<Rightarrow> u16 \<Rightarrow> u16 \<Rightarrow> 'a fstate_scheme \<Rightarrow>
    (nat option \<times> 'a fstate_scheme) res" where
  "create sw m pth type mj mn s =
     bnd (nameiparent sw m pth name0 s) (\<lambda>((dpp, name), s1).
     case dpp of None \<Rightarrow> Ok (None, s1)
     | Some dp \<Rightarrow>
       bnd (ilock sw m (Some dp) s1) (\<lambda>s2.
       bnd (dirlookup sw m dp name s2) (\<lambda>(found, s3).
       case found of
         Some (ip, _) \<Rightarrow>
           bnd (iunlockput sw m dp s3) (\<lambda>s4.
           bnd (ilock sw m (Some ip) s4) (\<lambda>s5.
           if type = T_FILE \<and> (i_type (itable s5 ip) = T_FILE \<or> i_type (itable s5 ip) = T_DEVICE) then Ok (Some ip, s5)
           else bnd (iunlockput sw m ip s5) (\<lambda>s6. Ok (None, s6))))
       | None \<Rightarrow>
           bnd (ialloc sw m (i_dev (itable s3 dp)) type s3) (\<lambda>(ipp, s4).
           case ipp of None \<Rightarrow> bnd (iunlockput sw m dp s4) (\<lambda>s5. Ok (None, s5))
           | Some ip \<Rightarrow> create_new sw m name type mj mn dp ip s4))))"

text \<open>The second half of \<open>sys_open\<close>: a file and a descriptor for the locked inode.\<close>

definition open_inode :: "'a fswitch \<Rightarrow> nat \<Rightarrow> u32 \<Rightarrow> nat \<Rightarrow> 'a fstate_scheme \<Rightarrow> 'a syscall" where
  "open_inode sw m omode ip s =
     (let mj = i_major (itable s ip)
      in if i_type (itable s ip) = T_DEVICE \<and> (sint mj < 0 \<or> sint mj \<ge> int NDEV) then put_fail sw m ip s
         else bnd (filealloc s) (\<lambda>(fo, s1).
           case fo of None \<Rightarrow> put_fail sw m ip s1
           | Some f \<Rightarrow>
             bnd (fdalloc f s1) (\<lambda>(fd, s2).
             if fd < 0 then bnd (fileclose sw m f s2) (put_fail sw m ip)
             else let s3 = upd_file f (\<lambda>x. if i_type (itable s2 ip) = T_DEVICE
                         then x\<lparr>f_type := FD_DEVICE, f_major := i_major (itable s2 ip)\<rparr>
                         else x\<lparr>f_type := FD_INODE, f_off := 0\<rparr>) s2;
                      s4 = upd_file f (\<lambda>x. x\<lparr>f_ip := Some ip, f_readable := (omode AND O_WRONLY = 0),
                         f_writable := (omode AND O_WRONLY \<noteq> 0 \<or> omode AND O_RDWR \<noteq> 0)\<rparr>) s3
             in bnd (if omode AND O_TRUNC \<noteq> 0 \<and> i_type (itable s4 ip) = T_FILE then itrunc sw m ip s4 else Ok s4) (\<lambda>s5.
                bnd (iunlock (Some ip) s5) (\<lambda>s6. bnd (end_op sw m s6) (\<lambda>s7. Ok (of_int fd, s7)))))))"

definition sys_open :: "'a fswitch \<Rightarrow> nat \<Rightarrow> 'a fstate_scheme \<Rightarrow> 'a syscall" where
  "sys_open sw m s =
     bnd (argint 1 s) (\<lambda>(om, s1).
     bnd (argstr 0 (int MAXPATH) s1) (\<lambda>((r, pth), s2).
     if r < 0 then Ok (-1, s2)
     else let omode = of_int om :: u32
     in bnd (begin_op sw m s2) (\<lambda>s3.
        if omode AND O_CREATE \<noteq> 0 then
          bnd (create sw m pth T_FILE 0 0 s3) (\<lambda>(ipp, s4).
          case ipp of None \<Rightarrow> end_fail sw m s4 | Some ip \<Rightarrow> open_inode sw m omode ip s4)
        else
          bnd (namei sw m pth s3) (\<lambda>(ipp, s4).
          case ipp of None \<Rightarrow> end_fail sw m s4
          | Some ip \<Rightarrow>
            bnd (ilock sw m (Some ip) s4) (\<lambda>s5.
            if i_type (itable s5 ip) = T_DIR \<and> omode \<noteq> O_RDONLY then put_fail sw m ip s5
            else open_inode sw m omode ip s5)))))"

text \<open>The common end of \<open>sys_mkdir\<close> and \<open>sys_mknod\<close>.\<close>

definition make_node :: "'a fswitch \<Rightarrow> nat \<Rightarrow> u16 \<Rightarrow> u16 \<Rightarrow> u16 \<Rightarrow> 'a fstate_scheme \<Rightarrow> 'a syscall" where
  "make_node sw m type mj mn s =
     bnd (argstr 0 (int MAXPATH) s) (\<lambda>((r, pth), s1).
     if r < 0 then end_fail sw m s1
     else bnd (create sw m pth type mj mn s1) (\<lambda>(ipp, s2).
       case ipp of None \<Rightarrow> end_fail sw m s2
       | Some ip \<Rightarrow> bnd (iunlockput sw m ip s2) (\<lambda>s3. bnd (end_op sw m s3) (\<lambda>s4. Ok (0, s4)))))"

definition sys_mkdir :: "'a fswitch \<Rightarrow> nat \<Rightarrow> 'a fstate_scheme \<Rightarrow> 'a syscall" where
  "sys_mkdir sw m s = bnd (begin_op sw m s) (make_node sw m T_DIR 0 0)"

definition sys_mknod :: "'a fswitch \<Rightarrow> nat \<Rightarrow> 'a fstate_scheme \<Rightarrow> 'a syscall" where
  "sys_mknod sw m s =
     bnd (begin_op sw m s) (\<lambda>s1.
     bnd (argint 1 s1) (\<lambda>(mj, s2).
     bnd (argint 2 s2) (\<lambda>(mn, s3). make_node sw m T_DEVICE (of_int mj) (of_int mn) s3)))"

definition sys_chdir :: "'a fswitch \<Rightarrow> nat \<Rightarrow> 'a fstate_scheme \<Rightarrow> 'a syscall" where
  "sys_chdir sw m s =
     bnd (current s) (\<lambda>(p, s0).
     bnd (begin_op sw m s0) (\<lambda>s1.
     bnd (argstr 0 (int MAXPATH) s1) (\<lambda>((r, pth), s2).
     if r < 0 then end_fail sw m s2
     else bnd (namei sw m pth s2) (\<lambda>(ipp, s3).
       case ipp of None \<Rightarrow> end_fail sw m s3
       | Some ip \<Rightarrow>
         bnd (ilock sw m (Some ip) s3) (\<lambda>s4.
         if i_type (itable s4 ip) \<noteq> T_DIR then put_fail sw m ip s4
         else bnd (iunlock (Some ip) s4) (\<lambda>s5.
              bnd (deref (p_cwd (procs s5 p))) (\<lambda>cwd.
              bnd (iput sw m cwd s5) (\<lambda>s6.
              bnd (end_op sw m s6) (\<lambda>s7.
              Ok (0, upd_proc p (\<lambda>pr. pr\<lparr>p_cwd := Some ip\<rparr>) s7))))))))))"

section \<open>Programs and pipes\<close>

text \<open>Fetching the argument vector: the pages taken, the strings in them, and whether all went well.\<close>

primrec fetch_args :: "nat \<Rightarrow> u64 \<Rightarrow> (u64 \<times> u8 list) list \<Rightarrow> 'a fstate_scheme \<Rightarrow>
    ((bool \<times> (u64 \<times> u8 list) list) \<times> 'a fstate_scheme) res" where
  "fetch_args 0 ua args s = Ok ((False, args), s)"
| "fetch_args (Suc n) ua args s =
     bnd (fetchaddr ua s) (\<lambda>((_, uarg), s1).
     case uarg of None \<Rightarrow> Ok ((False, args), s1)
     | Some v \<Rightarrow> if v = 0 then Ok ((True, args), s1)
     else bnd (kalloc s1) (\<lambda>(pg, s2).
       if pg = 0 then Ok ((False, args), s2)
       else bnd (fetchstr v 4096 s2) (\<lambda>((r, bs), s3).
         let s4 = s3\<lparr>mem := write_bytes pg bs (mem s3)\<rparr>
         in if r < 0 then Ok ((False, args @ [(pg, bs)]), s4)
            else fetch_args n (ua + 8) (args @ [(pg, bs)]) s4)))"

definition sys_exec :: "'a fswitch \<Rightarrow> nat \<Rightarrow> 'a fstate_scheme \<Rightarrow> 'a syscall" where
  "sys_exec sw m s =
     bnd (argaddr 1 s) (\<lambda>(uargv, s1).
     bnd (argstr 0 (int MAXPATH) s1) (\<lambda>((r, pth), s2).
     if r < 0 then Ok (-1, s2)
     else bnd (fetch_args MAXARG uargv [] s2) (\<lambda>((ok, args), s3).
     bnd (if ok then exec sw m pth (map (\<lambda>(_, bs). c_str bs) args) s3 else Ok (-1, s3)) (\<lambda>(ret, s4).
     bnd (for_each args (\<lambda>(pg, _). kfree pg) s4) (\<lambda>s5. Ok (of_int ret, s5))))))"

definition close_both :: "'a fswitch \<Rightarrow> nat \<Rightarrow> nat \<Rightarrow> nat \<Rightarrow> 'a fstate_scheme \<Rightarrow> 'a syscall" where
  "close_both sw m rdf wrf s = bnd (fileclose sw m rdf s) (\<lambda>s1. bnd (fileclose sw m wrf s1) (\<lambda>s2. Ok (-1, s2)))"

definition drop_fd :: "nat \<Rightarrow> int \<Rightarrow> 'a fstate_scheme \<Rightarrow> 'a fstate_scheme" where
  "drop_fd p fd s = upd_proc p (\<lambda>pr. pr\<lparr>p_ofile := (p_ofile pr)(nat fd := None)\<rparr>) s"

definition sys_pipe :: "'a fswitch \<Rightarrow> nat \<Rightarrow> 'a fstate_scheme \<Rightarrow> 'a syscall" where
  "sys_pipe sw m s =
     bnd (current s) (\<lambda>(p, s0).
     bnd (argaddr 0 s0) (\<lambda>(fdarray, s1).
     bnd (pipealloc sw m s1) (\<lambda>(fs, s2).
     case fs of None \<Rightarrow> Ok (-1, s2)
     | Some (rdf, wrf) \<Rightarrow>
       bnd (fdalloc rdf s2) (\<lambda>(fd0, s3).
       if fd0 < 0 then close_both sw m rdf wrf s3
       else bnd (fdalloc wrf s3) (\<lambda>(fd1, s4).
       if fd1 < 0 then close_both sw m rdf wrf (drop_fd p fd0 s4)
       else bnd (copyout (p_pagetable (procs s4 p)) fdarray (int_bytes fd0) s4) (\<lambda>(r, s5).
       bnd (if r < 0 then Ok (r, s5) else copyout (p_pagetable (procs s5 p)) (fdarray + 4) (int_bytes fd1) s5) (\<lambda>(r, s6).
       if r < 0 then close_both sw m rdf wrf (drop_fd p fd1 (drop_fd p fd0 s6)) else Ok (0, s6))))))))"

end
