(* ===== verification/Fork.thy ===== *)
theory Fork
  imports Sysfile
begin

unbundle bit_operations_syntax

text \<open>
  The operations of kernel/proc.c that reach the file system: \<open>userinit\<close>, \<open>fork\<close> and \<open>exit\<close>, with their system
  calls in kernel/sysproc.c.
\<close>

text \<open>\<open>safestrcpy\<close> into a process name of 16 bytes.\<close>

definition copy_name :: "u8 list \<Rightarrow> u8 list \<Rightarrow> u8 list" where
  "copy_name src name = put_bytes 0 (take 15 (c_str src @ [0]) @ [0]) name"

definition initcode :: "u8 list" where
  "initcode = [
    0x17, 0x05, 0x00, 0x00, 0x13, 0x05, 0x45, 0x02,
    0x97, 0x05, 0x00, 0x00, 0x93, 0x85, 0x35, 0x02,
    0x93, 0x08, 0x70, 0x00, 0x73, 0x00, 0x00, 0x00,
    0x93, 0x08, 0x20, 0x00, 0x73, 0x00, 0x00, 0x00,
    0xef, 0xf0, 0x9f, 0xff, 0x2f, 0x69, 0x6e, 0x69,
    0x74, 0x00, 0x00, 0x24, 0x00, 0x00, 0x00, 0x00,
    0x00, 0x00, 0x00, 0x00]"

definition userinit :: "'a fswitch \<Rightarrow> nat \<Rightarrow> 'a fstate_scheme \<Rightarrow> ('a fstate_scheme) res" where
  "userinit sw m s =
     bnd (allocproc s) (\<lambda>(po, s1).
     bnd (deref po) (\<lambda>p.
     let s2 = s1\<lparr>initproc := Some p\<rparr>
     in bnd (uvmfirst (p_pagetable (procs s2 p)) initcode s2) (\<lambda>s3.
        let s4 = upd_proc p (\<lambda>pr. pr\<lparr>p_sz := PGSIZE\<rparr>) s3;
            s5 = tf_set TfSp PGSIZE p (tf_set Epc 0 p s4);
            s6 = upd_proc p (\<lambda>pr. pr\<lparr>p_name := copy_name (bytes ''initcode'') (p_name pr)\<rparr>) s5
        in bnd (namei sw m [slash] s6) (\<lambda>(cwd, s7).
           release (ProcLock p) (upd_proc p (\<lambda>pr. pr\<lparr>p_cwd := cwd, p_state := RUNNABLE\<rparr>) s7)))))"

text \<open>The trapframe is 36 registers of 8 bytes.\<close>

definition copy_trapframe :: "nat \<Rightarrow> nat \<Rightarrow> 'a pstate_scheme \<Rightarrow> 'a pstate_scheme" where
  "copy_trapframe p np s =
     s\<lparr>mem := write_bytes (p_trapframe (procs s np)) (read_bytes (p_trapframe (procs s p)) 288 (mem s)) (mem s)\<rparr>"

definition fork :: "'a fstate_scheme \<Rightarrow> (int \<times> 'a fstate_scheme) res" where
  "fork s =
     bnd (current s) (\<lambda>(p, s0).
     bnd (allocproc s0) (\<lambda>(npo, s1).
     case npo of None \<Rightarrow> Ok (-1, s1)
     | Some np \<Rightarrow>
       bnd (uvmcopy (p_pagetable (procs s1 p)) (p_pagetable (procs s1 np)) (p_sz (procs s1 p)) s1) (\<lambda>(r, s2).
       if r < 0 then bnd (freeproc np s2) (\<lambda>s3. bnd (release (ProcLock np) s3) (\<lambda>s4. Ok (-1, s4)))
       else
         let s3 = copy_trapframe p np (upd_proc np (\<lambda>pr. pr\<lparr>p_sz := p_sz (procs s2 p)\<rparr>) s2);
             s4 = tf_set (TfA 0) 0 np s3
         in bnd (for_each [0..<NOFILE] (\<lambda>i s.
                   case p_ofile (procs s p) i of None \<Rightarrow> Ok s
                   | Some f \<Rightarrow> bnd (filedup f s) (\<lambda>(f', s'). Ok (upd_proc np (\<lambda>pr. pr\<lparr>p_ofile := (p_ofile pr)(i := Some f')\<rparr>) s'))) s4) (\<lambda>s5.
            bnd (deref (p_cwd (procs s5 p))) (\<lambda>cwd.
            bnd (idup cwd s5) (\<lambda>(cwd', s6).
            let s7 = upd_proc np (\<lambda>pr. pr\<lparr>p_cwd := Some cwd', p_name := copy_name (p_name (procs s6 p)) (p_name pr)\<rparr>) s6;
                pid = p_pid (procs s7 np)
            in bnd (release (ProcLock np) s7) (\<lambda>s8.
               bnd (acquire WaitLock s8) (\<lambda>s9.
               bnd (release WaitLock (upd_proc np (\<lambda>pr. pr\<lparr>p_parent := Some p\<rparr>) s9)) (\<lambda>s10.
               bnd (acquire (ProcLock np) s10) (\<lambda>s11.
               bnd (release (ProcLock np) (upd_proc np (\<lambda>pr. pr\<lparr>p_state := RUNNABLE\<rparr>) s11)) (\<lambda>s12.
               Ok (pid, s12)))))))))))) "

text \<open>Up to the last switch: the state in which the scheduler finds the dead process.\<close>

definition exit_zombie :: "'a fswitch \<Rightarrow> nat \<Rightarrow> int \<Rightarrow> 'a fstate_scheme \<Rightarrow> ('a fstate_scheme) res" where
  "exit_zombie sw m status s =
     bnd (current s) (\<lambda>(p, s0).
     if initproc s0 = Some p then Err (Panic ''init exiting'')
     else bnd (for_each [0..<NOFILE] (\<lambda>fd s.
            case p_ofile (procs s p) fd of None \<Rightarrow> Ok s
            | Some f \<Rightarrow> bnd (fileclose sw m f s) (\<lambda>s'. Ok (upd_proc p (\<lambda>pr. pr\<lparr>p_ofile := (p_ofile pr)(fd := None)\<rparr>) s'))) s0) (\<lambda>s1.
          bnd (begin_op sw m s1) (\<lambda>s2.
          bnd (deref (p_cwd (procs s2 p))) (\<lambda>cwd.
          bnd (iput sw m cwd s2) (\<lambda>s3.
          bnd (end_op sw m s3) (\<lambda>s4.
          bnd (acquire WaitLock (upd_proc p (\<lambda>pr. pr\<lparr>p_cwd := None\<rparr>) s4)) (\<lambda>s5.
          bnd (reparent p s5) (\<lambda>s6.
          bnd (wakeup (case p_parent (procs s6 p) of None \<Rightarrow> NoChan | Some q \<Rightarrow> ProcCh q) s6) (\<lambda>s7.
          bnd (acquire (ProcLock p) s7) (\<lambda>s8.
          release WaitLock (upd_proc p (\<lambda>pr. pr\<lparr>p_xstate := status, p_state := ZOMBIE, p_etime := ticks s8\<rparr>) s8)))))))))))"

definition exit :: "'a fswitch \<Rightarrow> nat \<Rightarrow> int \<Rightarrow> 'a fstate_scheme \<Rightarrow> 'b res" where
  "exit sw m status s = bnd (exit_zombie sw m status s) (\<lambda>s1. bnd (sched sw s1) (\<lambda>_. Err (Panic ''zombie exit'')))"

definition sys_exit :: "'a fswitch \<Rightarrow> nat \<Rightarrow> 'a fstate_scheme \<Rightarrow> 'a syscall" where
  "sys_exit sw m s = bnd (argint 0 s) (\<lambda>(n, s1). exit sw m n s1)"

definition sys_fork :: "'a fstate_scheme \<Rightarrow> 'a syscall" where
  "sys_fork s = bnd (fork s) (\<lambda>(pid, s1). Ok (of_int pid, s1))"

end
