(* ===== verification/Trap.thy ===== *)
theory Trap
  imports Fork
begin

unbundle bit_operations_syntax

text \<open>
  kernel/syscall.c (the dispatch), kernel/plic.c and the entry points of kernel/trap.c. The trap registers of
  each hart are part of the state; the interrupt controller and the disk are parameters that say what their
  registers read. Addresses of assembly code are constants of the state. Coming back to user space is a value: the page
  table register and the address that \<open>usertrapret\<close> jumps to.
\<close>

section \<open>State\<close>

definition SSTATUS_SPP :: u64 where "SSTATUS_SPP = push_bit 8 1"
definition SSTATUS_SPIE :: u64 where "SSTATUS_SPIE = push_bit 5 1"
definition SSTATUS_SIE :: u64 where "SSTATUS_SIE = push_bit 1 1"
definition UART0_IRQ :: int where "UART0_IRQ = 10"
definition VIRTIO0_IRQ :: int where "VIRTIO0_IRQ = 1"

record csrs =
  scause :: u64
  sepc :: u64
  stval :: u64
  sstat :: u64      \<comment> \<open>\<open>sstatus\<close> without its SIE bit, which is \<open>sie\<close> of the hart\<close>
  stvec :: u64
  satp :: u64
  sip :: u64

record tstate = fstate +
  csr :: "nat \<Rightarrow> csrs"
  plic_writes :: "(u64 \<times> u32) list"
  first :: bool
  kernelvec_addr :: u64
  usertrap_addr :: u64
  uservec_addr :: u64
  userret_addr :: u64

type_synonym 'a tswitch = "'a tstate_scheme \<Rightarrow> ('a tstate_scheme) res"

definition my_csr :: "'a tstate_scheme \<Rightarrow> csrs" where
  "my_csr s = csr s (hart s)"

definition upd_csr :: "(csrs \<Rightarrow> csrs) \<Rightarrow> 'a tstate_scheme \<Rightarrow> 'a tstate_scheme" where
  "upd_csr f s = s\<lparr>csr := (csr s)(hart s := f (csr s (hart s)))\<rparr>"

definition r_sstatus :: "'a tstate_scheme \<Rightarrow> u64" where
  "r_sstatus s = sstat (my_csr s) OR (if intr_get s then SSTATUS_SIE else 0)"

definition w_sstatus :: "u64 \<Rightarrow> 'a tstate_scheme \<Rightarrow> 'a tstate_scheme" where
  "w_sstatus x s =
     (let s1 = upd_csr (\<lambda>c. c\<lparr>sstat := x AND NOT SSTATUS_SIE\<rparr>) s in if x AND SSTATUS_SIE \<noteq> 0 then intr_on s1 else intr_off s1)"

section \<open>Interrupt controller\<close>

type_synonym mmio = "(u64 \<times> u32) list \<Rightarrow> u64 \<Rightarrow> u32"

definition PLIC_SENABLE :: "nat \<Rightarrow> u64" where "PLIC_SENABLE h = PLIC + 0x2080 + of_nat h * 0x100"
definition PLIC_SPRIORITY :: "nat \<Rightarrow> u64" where "PLIC_SPRIORITY h = PLIC + 0x201000 + of_nat h * 0x2000"
definition PLIC_SCLAIM :: "nat \<Rightarrow> u64" where "PLIC_SCLAIM h = PLIC + 0x201004 + of_nat h * 0x2000"

definition plic_write :: "u64 \<Rightarrow> u32 \<Rightarrow> 'a tstate_scheme \<Rightarrow> 'a tstate_scheme" where
  "plic_write a v s = s\<lparr>plic_writes := plic_writes s @ [(a, v)]\<rparr>"

definition plicinit :: "'a tstate_scheme \<Rightarrow> 'a tstate_scheme" where
  "plicinit s = plic_write (PLIC + of_int (VIRTIO0_IRQ * 4)) 1 (plic_write (PLIC + of_int (UART0_IRQ * 4)) 1 s)"

definition plicinithart :: "'a tstate_scheme \<Rightarrow> 'a tstate_scheme" where
  "plicinithart s = plic_write (PLIC_SPRIORITY (cpuid s)) 0
     (plic_write (PLIC_SENABLE (cpuid s)) (push_bit (nat UART0_IRQ) 1 OR push_bit (nat VIRTIO0_IRQ) 1) s)"

definition plic_claim :: "mmio \<Rightarrow> 'a tstate_scheme \<Rightarrow> int" where
  "plic_claim plic s = sint (plic (plic_writes s) (PLIC_SCLAIM (cpuid s)))"

definition plic_complete :: "int \<Rightarrow> 'a tstate_scheme \<Rightarrow> 'a tstate_scheme" where
  "plic_complete irq s = plic_write (PLIC_SCLAIM (cpuid s)) (of_int irq) s"

section \<open>Dispatch of system calls\<close>

text \<open>
  The table \<open>syscalls[]\<close>. \<open>junk\<close> and \<open>pad\<close> are what the uninitialised variables of \<open>sys_waitx\<close> and \<open>sys_fstat\<close> hold.
\<close>

definition syscalls :: "'a tswitch \<Rightarrow> nat \<Rightarrow> u32 \<times> u32 \<Rightarrow> u8 list \<Rightarrow> int \<Rightarrow>
    ('a tstate_scheme \<Rightarrow> (u64 \<times> 'a tstate_scheme) res) option" where
  "syscalls sw m junk pad num =
     (if num = 1 then Some sys_fork
      else if num = 2 then Some (sys_exit sw m)
      else if num = 3 then Some (sys_wait sw m)
      else if num = 4 then Some (sys_pipe sw m)
      else if num = 5 then Some (sys_read sw m)
      else if num = 6 then Some sys_kill
      else if num = 7 then Some (sys_exec sw m)
      else if num = 8 then Some (sys_fstat sw m pad)
      else if num = 9 then Some (sys_chdir sw m)
      else if num = 10 then Some sys_dup
      else if num = 11 then Some sys_getpid
      else if num = 12 then Some sys_sbrk
      else if num = 13 then Some (sys_sleep sw m)
      else if num = 14 then Some sys_uptime
      else if num = 15 then Some (sys_open sw m)
      else if num = 16 then Some (sys_write sw m)
      else if num = 17 then Some (sys_mknod sw m)
      else if num = 18 then Some (sys_unlink sw m)
      else if num = 19 then Some (sys_link sw m)
      else if num = 20 then Some (sys_mkdir sw m)
      else if num = 21 then Some (sys_close sw m)
      else if num = 22 then Some (sys_waitx sw m junk)
      else if num = 23 then Some sys_getreadcount
      else if num = 24 then Some (sys_setpriority sw)
      else None)"

definition syscall :: "'a tswitch \<Rightarrow> nat \<Rightarrow> u32 \<times> u32 \<Rightarrow> u8 list \<Rightarrow> 'a tstate_scheme \<Rightarrow> ('a tstate_scheme) res" where
  "syscall sw m junk pad s =
     bnd (current s) (\<lambda>(p, s1).
     let num = sint (ucast (tf_get (TfA 7) p s1) :: u32)
     in case syscalls sw m junk pad num of
          Some f \<Rightarrow> bnd (f s1) (\<lambda>(r, s2). Ok (tf_set (TfA 0) r p s2))
        | None \<Rightarrow>
            bnd (printf (''%d %s: unknown sys call %d'' @ [CHR 0x0A])
              [pint (p_pid (procs s1 p)), PStr (Some (p_name (procs s1 p))), pint num] s1) (\<lambda>s2.
            Ok (tf_set (TfA 0) (-1) p s2)))"

section \<open>Device interrupts\<close>

text \<open>1 for a device, 2 for the clock, 0 if it was no interrupt.\<close>

definition devintr :: "mmio \<Rightarrow> device \<Rightarrow> 'a tstate_scheme \<Rightarrow> (int \<times> 'a tstate_scheme) res" where
  "devintr plic dev s =
     (let cause = scause (my_csr s)
      in if cause AND 0x8000000000000000 \<noteq> 0 \<and> cause AND 0xff = 9 then
           let irq = plic_claim plic s
           in bnd (if irq = UART0_IRQ then uartintr s
                   else if irq = VIRTIO0_IRQ then virtio_disk_intr dev s
                   else if irq \<noteq> 0 then printf (''unexpected interrupt irq=%d'' @ [CHR 0x0A]) [pint irq] s
                   else Ok s) (\<lambda>s1.
              Ok (1, if irq \<noteq> 0 then plic_complete irq s1 else s1))
         else if cause = 0x8000000000000001 then
           bnd (if cpuid s = 0 then clockintr s else Ok s) (\<lambda>s1. Ok (2, upd_csr (\<lambda>c. c\<lparr>sip := sip c AND NOT 2\<rparr>) s1))
         else Ok (0, s))"

section \<open>Traps\<close>

definition trapinithart :: "'a tstate_scheme \<Rightarrow> 'a tstate_scheme" where
  "trapinithart s = upd_csr (\<lambda>c. c\<lparr>stvec := kernelvec_addr s\<rparr>) s"

text \<open>The values that \<open>sret\<close> and the trampoline use: \<open>satp\<close>, and where to jump.\<close>

definition usertrapret :: "'a tstate_scheme \<Rightarrow> ((u64 \<times> u64) \<times> 'a tstate_scheme) res" where
  "usertrapret s =
     bnd (current s) (\<lambda>(p, s0).
     let s1 = intr_off s0;
         s2 = upd_csr (\<lambda>c. c\<lparr>stvec := TRAMPOLINE + (uservec_addr s1 - trampoline s1)\<rparr>) s1;
         s3 = tf_set KernelSatp (satp (my_csr s2)) p s2;
         s4 = tf_set KernelSp (p_kstack (procs s3 p) + PGSIZE) p s3;
         s5 = tf_set KernelTrap (usertrap_addr s4) p s4;
         s6 = tf_set KernelHartid (of_nat (hart s5)) p s5;
         s7 = w_sstatus ((r_sstatus s6 AND NOT SSTATUS_SPP) OR SSTATUS_SPIE) s6;
         s8 = upd_csr (\<lambda>c. c\<lparr>sepc := tf_get Epc p s7\<rparr>) s7
     in Ok ((MAKE_SATP (p_pagetable (procs s8 p)), TRAMPOLINE + (userret_addr s8 - trampoline s8)), s8))"

text \<open>What \<open>usertrap\<close> does about the cause of the trap; the value is that of \<open>which_dev\<close>.\<close>

definition handle_trap :: "'a tswitch \<Rightarrow> nat \<Rightarrow> mmio \<Rightarrow> device \<Rightarrow> u32 \<times> u32 \<Rightarrow> u8 list \<Rightarrow> nat \<Rightarrow> 'a tstate_scheme \<Rightarrow>
    (int \<times> 'a tstate_scheme) res" where
  "handle_trap sw m plic dev junk pad p s =
     (if scause (my_csr s) = 8 then
        bnd (killed p s) (\<lambda>(k, s1).
        bnd (if k \<noteq> 0 then exit sw m (-1) s1 else Ok s1) (\<lambda>s2.
        bnd (syscall sw m junk pad (intr_on (tf_set Epc (tf_get Epc p s2 + 4) p s2))) (\<lambda>s3. Ok (0, s3))))
      else bnd (devintr plic dev s) (\<lambda>(which_dev, s1).
        if which_dev \<noteq> 0 then Ok (which_dev, s1)
        else if scause (my_csr s1) = 15 then
          bnd (write_trap (stval (my_csr s1)) (p_pagetable (procs s1 p)) s1) (\<lambda>(r, s2).
          Ok (0, if r \<noteq> 0 then upd_proc p (\<lambda>pr. pr\<lparr>p_killed := 1\<rparr>) s2 else s2))
        else
          bnd (printf (''usertrap(): unexpected scause %p pid=%d'' @ [CHR 0x0A])
            [PPtr (scause (my_csr s1)), pint (p_pid (procs s1 p))] s1) (\<lambda>s2.
          bnd (printf (''            sepc=%p stval=%p'' @ [CHR 0x0A]) [PPtr (sepc (my_csr s2)), PPtr (stval (my_csr s2))] s2) (\<lambda>s3.
          bnd (setkilled p s3) (\<lambda>s4. Ok (0, s4))))))"

definition usertrap :: "'a tswitch \<Rightarrow> nat \<Rightarrow> mmio \<Rightarrow> device \<Rightarrow> u32 \<times> u32 \<Rightarrow> u8 list \<Rightarrow> 'a tstate_scheme \<Rightarrow>
    ((u64 \<times> u64) \<times> 'a tstate_scheme) res" where
  "usertrap sw m plic dev junk pad s =
     (if r_sstatus s AND SSTATUS_SPP \<noteq> 0 then Err (Panic ''usertrap: not from user mode'')
      else bnd (current (trapinithart s)) (\<lambda>(p, s1).
        bnd (handle_trap sw m plic dev junk pad p (tf_set Epc (sepc (my_csr s1)) p s1)) (\<lambda>(which_dev, s2).
        bnd (killed p s2) (\<lambda>(k, s3).
        bnd (if k \<noteq> 0 then exit sw m (-1) s3 else Ok s3) (\<lambda>s4.
        bnd (if which_dev = 2 then yield sw s4 else Ok s4) usertrapret)))))"

definition kerneltrap :: "'a tswitch \<Rightarrow> mmio \<Rightarrow> device \<Rightarrow> 'a tstate_scheme \<Rightarrow> ('a tstate_scheme) res" where
  "kerneltrap sw plic dev s =
     (let epc = sepc (my_csr s); sstatus = r_sstatus s; cause = scause (my_csr s)
      in if sstatus AND SSTATUS_SPP = 0 then Err (Panic ''kerneltrap: not from supervisor mode'')
         else if intr_get s then Err (Panic ''kerneltrap: interrupts enabled'')
         else bnd (devintr plic dev s) (\<lambda>(which_dev, s1).
           if which_dev = 0 then
             bnd (printf (''scause %p'' @ [CHR 0x0A]) [PPtr cause] s1) (\<lambda>s2.
             bnd (printf (''sepc=%p stval=%p'' @ [CHR 0x0A]) [PPtr (sepc (my_csr s2)), PPtr (stval (my_csr s2))] s2) (\<lambda>_.
             Err (Panic ''kerneltrap'')))
           else bnd (if which_dev = 2 then
                       bnd (myproc s1) (\<lambda>(me, s2).
                       case me of None \<Rightarrow> Ok s2
                       | Some _ \<Rightarrow> bnd (current s2) (\<lambda>(p, s3).
                           if p_state (procs s3 p) = RUNNING then yield sw s3 else Ok s3))
                     else Ok s1) (\<lambda>s4.
             Ok (w_sstatus sstatus (upd_csr (\<lambda>c. c\<lparr>sepc := epc\<rparr>) s4)))))"

definition forkret :: "'a tswitch \<Rightarrow> nat \<Rightarrow> 'a tstate_scheme \<Rightarrow> ((u64 \<times> u64) \<times> 'a tstate_scheme) res" where
  "forkret sw m s =
     bnd (current s) (\<lambda>(p, s1).
     bnd (release (ProcLock p) s1) (\<lambda>s2.
     bnd (if first s2 then fsinit sw m 1 (s2\<lparr>first := False\<rparr>) else Ok s2) usertrapret))"

end
