(* ===== verification/Boot.thy ===== *)
theory Boot
  imports Trap Bio
begin

unbundle bit_operations_syntax

text \<open>
  kernel/main.c with the kernel page table of kernel/vm.c and the kernel stacks of kernel/proc.c: what the first
  hart does before it enters the scheduler, in its order, and what the other harts do.
\<close>

record bstate = tstate +
  kernel_pagetable :: u64
  etext :: u64
  started :: bool

definition proc_mapstacks :: "u64 \<Rightarrow> 'a kstate_scheme \<Rightarrow> ('a kstate_scheme) res" where
  "proc_mapstacks kpgtbl = for_each [0..<NPROC] (\<lambda>p s.
     bnd (kalloc s) (\<lambda>(pa, s1).
     if pa = 0 then Err (Panic ''kalloc'') else kvmmap kpgtbl (KSTACK p) pa PGSIZE (PTE_R OR PTE_W) s1))"

text \<open>A page table that cannot be allocated is a null pointer that \<open>memset\<close> writes through.\<close>

definition kvmmake :: "'a bstate_scheme \<Rightarrow> (u64 \<times> 'a bstate_scheme) res" where
  "kvmmake s =
     bnd (kalloc s) (\<lambda>(kpgtbl, s0).
     if kpgtbl = 0 then Err (Undef ''kvmmake: null page table'')
     else
       bnd (kvmmap kpgtbl UART0 UART0 PGSIZE (PTE_R OR PTE_W) (memset_pg kpgtbl 0 s0)) (\<lambda>s1.
       bnd (kvmmap kpgtbl VIRTIO0 VIRTIO0 PGSIZE (PTE_R OR PTE_W) s1) (\<lambda>s2.
       bnd (kvmmap kpgtbl PLIC PLIC 0x400000 (PTE_R OR PTE_W) s2) (\<lambda>s3.
       bnd (kvmmap kpgtbl KERNBASE KERNBASE (etext s3 - KERNBASE) (PTE_R OR PTE_X) s3) (\<lambda>s4.
       bnd (kvmmap kpgtbl (etext s4) (etext s4) (PHYSTOP - etext s4) (PTE_R OR PTE_W) s4) (\<lambda>s5.
       bnd (kvmmap kpgtbl TRAMPOLINE (trampoline s5) PGSIZE (PTE_R OR PTE_X) s5) (\<lambda>s6.
       bnd (proc_mapstacks kpgtbl s6) (\<lambda>s7. Ok (kpgtbl, s7)))))))))"

definition kvminit :: "'a bstate_scheme \<Rightarrow> ('a bstate_scheme) res" where
  "kvminit s = bnd (kvmmake s) (\<lambda>(pt, s1). Ok (s1\<lparr>kernel_pagetable := pt\<rparr>))"

definition kvminithart :: "'a bstate_scheme \<Rightarrow> 'a bstate_scheme" where
  "kvminithart s = upd_csr (\<lambda>c. c\<lparr>satp := MAKE_SATP (kernel_pagetable s)\<rparr>) s"

text \<open>\<open>main\<close> on hart 0, up to the call of the scheduler.\<close>

definition main_hart0 :: "('a bstate_scheme \<Rightarrow> ('a bstate_scheme) res) \<Rightarrow> nat \<Rightarrow> device \<Rightarrow> 'a bstate_scheme \<Rightarrow> ('a bstate_scheme) res" where
  "main_hart0 sw m dev s =
     bnd (printf [CHR 0x0A] [] (printfinit (consoleinit s))) (\<lambda>s1.
     bnd (printf (''xv6 kernel is booting'' @ [CHR 0x0A]) [] s1) (\<lambda>s2.
     bnd (printf [CHR 0x0A] [] s2) (\<lambda>s3.
     bnd (kinit s3) (\<lambda>s4.
     bnd (kvminit s4) (\<lambda>s5.
     bnd (procinit (kvminithart s5)) (\<lambda>s6.
     let s7 = plicinithart (plicinit (trapinithart (trapinit s6)))
     in bnd (virtio_disk_init dev (fileinit (iinit (binit s7)))) (\<lambda>s8.
        bnd (userinit sw m s8) (\<lambda>s9. Ok (s9\<lparr>started := True\<rparr>)))))))))"

text \<open>On another hart: nothing happens before hart 0 has finished.\<close>

definition main_other :: "'a bstate_scheme \<Rightarrow> ('a bstate_scheme) res" where
  "main_other s =
     (if \<not> started s then Err Spin
      else bnd (printf (''hart %d starting'' @ [CHR 0x0A]) [PInt (of_nat (cpuid s))] s) (\<lambda>s1.
        Ok (plicinithart (trapinithart (kvminithart s1)))))"

definition main :: "('a bstate_scheme \<Rightarrow> ('a bstate_scheme) res) \<Rightarrow> nat \<Rightarrow> device \<Rightarrow> 'a bstate_scheme \<Rightarrow> ('a bstate_scheme) res" where
  "main sw m dev s = (if cpuid s = 0 then main_hart0 sw m dev s else main_other s)"

end
