(* ===== verification/Start.thy ===== *)
theory Start
  imports Boot
begin

unbundle bit_operations_syntax

text \<open>
  kernel/start.c: what a hart does in machine mode before it enters \<open>main\<close>, with the machine-mode registers of kernel/riscv.h and
  the timer registers of kernel/memlayout.h. The addresses of \<open>main\<close>, \<open>timervec\<close> and \<open>timer_scratch\<close> are parameters.
\<close>

definition CLINT :: u64 where "CLINT = 0x2000000"
definition CLINT_MTIMECMP :: "int \<Rightarrow> u64" where "CLINT_MTIMECMP hartid = CLINT + 0x4000 + 8 * of_int hartid"
definition CLINT_MTIME :: u64 where "CLINT_MTIME = CLINT + 0xBFF8"

definition MSTATUS_MPP_MASK :: u64 where "MSTATUS_MPP_MASK = push_bit 11 3"
definition MSTATUS_MPP_S :: u64 where "MSTATUS_MPP_S = push_bit 11 1"
definition MSTATUS_MIE :: u64 where "MSTATUS_MIE = push_bit 3 1"
definition SIE_SEIE :: u64 where "SIE_SEIE = push_bit 9 1"
definition SIE_STIE :: u64 where "SIE_STIE = push_bit 5 1"
definition SIE_SSIE :: u64 where "SIE_SSIE = push_bit 1 1"
definition MIE_MTIE :: u64 where "MIE_MTIE = push_bit 7 1"

record mach =
  mhartid :: u64
  mstatus :: u64
  mepc :: u64
  m_satp :: u64
  medeleg :: u64
  mideleg :: u64
  m_sie :: u64
  pmpaddr0 :: u64
  pmpcfg0 :: u64
  mscratch :: u64
  mtvec :: u64
  mie :: u64
  tp :: u64
  pc :: u64
  mode :: u64                                   \<comment> \<open>3 machine, 1 supervisor, 0 user\<close>
  clint :: "u64 \<Rightarrow> u64"                         \<comment> \<open>the 64-bit timer registers at their addresses\<close>
  timer_scratch :: "int \<Rightarrow> nat \<Rightarrow> u64"

definition r_mhartid :: "mach \<Rightarrow> u64" where "r_mhartid s = mhartid s"
definition r_mstatus :: "mach \<Rightarrow> u64" where "r_mstatus s = mstatus s"
definition w_mstatus :: "u64 \<Rightarrow> mach \<Rightarrow> mach" where "w_mstatus x s = s\<lparr>mstatus := x\<rparr>"
definition w_mepc :: "u64 \<Rightarrow> mach \<Rightarrow> mach" where "w_mepc x s = s\<lparr>mepc := x\<rparr>"
definition w_satp :: "u64 \<Rightarrow> mach \<Rightarrow> mach" where "w_satp x s = s\<lparr>m_satp := x\<rparr>"
definition w_medeleg :: "u64 \<Rightarrow> mach \<Rightarrow> mach" where "w_medeleg x s = s\<lparr>medeleg := x\<rparr>"
definition w_mideleg :: "u64 \<Rightarrow> mach \<Rightarrow> mach" where "w_mideleg x s = s\<lparr>mideleg := x\<rparr>"
definition r_sie :: "mach \<Rightarrow> u64" where "r_sie s = m_sie s"
definition w_sie :: "u64 \<Rightarrow> mach \<Rightarrow> mach" where "w_sie x s = s\<lparr>m_sie := x\<rparr>"
definition w_pmpaddr0 :: "u64 \<Rightarrow> mach \<Rightarrow> mach" where "w_pmpaddr0 x s = s\<lparr>pmpaddr0 := x\<rparr>"
definition w_pmpcfg0 :: "u64 \<Rightarrow> mach \<Rightarrow> mach" where "w_pmpcfg0 x s = s\<lparr>pmpcfg0 := x\<rparr>"
definition w_mscratch :: "u64 \<Rightarrow> mach \<Rightarrow> mach" where "w_mscratch x s = s\<lparr>mscratch := x\<rparr>"
definition w_mtvec :: "u64 \<Rightarrow> mach \<Rightarrow> mach" where "w_mtvec x s = s\<lparr>mtvec := x\<rparr>"
definition r_mie :: "mach \<Rightarrow> u64" where "r_mie s = mie s"
definition w_mie :: "u64 \<Rightarrow> mach \<Rightarrow> mach" where "w_mie x s = s\<lparr>mie := x\<rparr>"
definition w_tp :: "u64 \<Rightarrow> mach \<Rightarrow> mach" where "w_tp x s = s\<lparr>tp := x\<rparr>"

lemmas csr_defs = r_mhartid_def r_mstatus_def w_mstatus_def w_mepc_def w_satp_def w_medeleg_def w_mideleg_def r_sie_def w_sie_def
  w_pmpaddr0_def w_pmpcfg0_def w_mscratch_def w_mtvec_def r_mie_def w_mie_def w_tp_def

text \<open>The instruction \<open>mret\<close>: execution goes on at \<open>mepc\<close> in the previous mode.\<close>

definition mret :: "mach \<Rightarrow> mach" where
  "mret s = s\<lparr>pc := mepc s, mode := drop_bit 11 (mstatus s AND MSTATUS_MPP_MASK)\<rparr>"

definition hart_int :: "mach \<Rightarrow> int" where
  "hart_int s = wrap32 (uint (r_mhartid s))"

definition timerinit :: "u64 \<Rightarrow> (int \<Rightarrow> u64) \<Rightarrow> mach \<Rightarrow> mach" where
  "timerinit timervec scratch s =
     (let id = hart_int s; interval = 1000000;
          s1 = s\<lparr>clint := (clint s)(CLINT_MTIMECMP id := clint s CLINT_MTIME + interval)\<rparr>;
          s2 = s1\<lparr>timer_scratch := (timer_scratch s1)(id := (timer_scratch s1 id)(3 := CLINT_MTIMECMP id, 4 := interval))\<rparr>;
          s3 = w_mtvec timervec (w_mscratch (scratch id) s2);
          s4 = w_mstatus (r_mstatus s3 OR MSTATUS_MIE) s3
      in w_mie (r_mie s4 OR MIE_MTIE) s4)"

definition start :: "u64 \<Rightarrow> u64 \<Rightarrow> (int \<Rightarrow> u64) \<Rightarrow> mach \<Rightarrow> mach" where
  "start main_addr timervec scratch s =
     (let x = r_mstatus s AND NOT MSTATUS_MPP_MASK OR MSTATUS_MPP_S;
          s1 = w_satp 0 (w_mepc main_addr (w_mstatus x s));
          s2 = w_mideleg 0xffff (w_medeleg 0xffff s1);
          s3 = w_sie (r_sie s2 OR SIE_SEIE OR SIE_STIE OR SIE_SSIE) s2;
          s4 = w_pmpcfg0 0xf (w_pmpaddr0 0x3fffffffffffff s3);
          s5 = timerinit timervec scratch s4;
          id = hart_int s5
      in mret (w_tp (of_int id) s5))"

text \<open>
  After \<open>start\<close> the hart is at \<open>main\<close> in supervisor mode, without paging and with all traps delegated; \<open>tp\<close> holds its number, and the next timer
  interrupt goes to \<open>timervec\<close>, an interval from now, with the scratch area of the hart.
\<close>

lemma mstatus_bits: "bit MSTATUS_MPP_MASK n \<longleftrightarrow> n = 11 \<or> n = 12" "bit MSTATUS_MPP_S n \<longleftrightarrow> n = 11" "bit MSTATUS_MIE n \<longleftrightarrow> n = 3"
proof -
  have m: "MSTATUS_MPP_MASK = push_bit 11 (mask 2)" by (simp add: MSTATUS_MPP_MASK_def mask_eq_exp_minus_1)
  show "bit MSTATUS_MPP_MASK n \<longleftrightarrow> n = 11 \<or> n = 12" unfolding m bit_push_bit_iff bit_mask_iff possible_bit_word by auto
  have e: "MSTATUS_MPP_S = 2 ^ 11" "MSTATUS_MIE = 2 ^ 3" by (simp_all add: MSTATUS_MPP_S_def MSTATUS_MIE_def)
  show "bit MSTATUS_MPP_S n \<longleftrightarrow> n = 11" "bit MSTATUS_MIE n \<longleftrightarrow> n = 3" unfolding e bit_exp_iff possible_bit_word by auto
qed

lemma mpp_mode: "drop_bit 11 ((x AND NOT MSTATUS_MPP_MASK OR MSTATUS_MPP_S OR MSTATUS_MIE) AND MSTATUS_MPP_MASK) = 1"
proof (rule bit_word_eqI)
  show "bit (drop_bit 11 ((x AND NOT MSTATUS_MPP_MASK OR MSTATUS_MPP_S OR MSTATUS_MIE) AND MSTATUS_MPP_MASK)) n = bit (1::u64) n" for n
    by (simp only: bit_drop_bit_eq bit_and_iff bit_or_iff bit_not_iff mstatus_bits bit_1_iff comp_apply) auto
qed

lemma start_enters_main:
  fixes main_addr timervec :: u64 and scratch :: "int \<Rightarrow> u64" and s :: mach
  assumes "unat (mhartid s) < NCPU"
  defines "t \<equiv> start main_addr timervec scratch s" and "h \<equiv> uint (mhartid s)"
  shows "mode t = 1" "pc t = main_addr" "m_satp t = 0" "medeleg t = 0xffff" "mideleg t = 0xffff" "tp t = mhartid s" "mtvec t = timervec"
    "mscratch t = scratch h" "clint t (CLINT_MTIMECMP h) = clint s CLINT_MTIME + 1000000" "timer_scratch t h 3 = CLINT_MTIMECMP h"
    "timer_scratch t h 4 = 1000000"
proof -
  have e: "h = int (unat (mhartid s))" by (simp add: h_def)
  have "unat (mhartid s) < 8" using assms(1) by (simp add: NCPU_def)
  then have "0 \<le> h" "h < 8" unfolding e by linarith+
  then have "wrap32 h = h" by (intro wrap32_id) simp_all
  then have w: "hart_int s = h" by (simp add: hart_int_def r_mhartid_def h_def)
  define m where "m = mstatus s AND NOT MSTATUS_MPP_MASK OR MSTATUS_MPP_S"
  define u where "u = s\<lparr>mstatus := m, mepc := main_addr, m_satp := 0, medeleg := 0xffff, mideleg := 0xffff,
    m_sie := m_sie s OR SIE_SEIE OR SIE_STIE OR SIE_SSIE, pmpaddr0 := 0x3fffffffffffff, pmpcfg0 := 0xf\<rparr>"
  have hu: "hart_int u = h" using w by (simp add: hart_int_def r_mhartid_def u_def)
  have t: "t = mret (w_tp (of_int (hart_int (timerinit timervec scratch u))) (timerinit timervec scratch u))"
    unfolding t_def start_def Let_def csr_defs u_def m_def by simp
  have ti: "timerinit timervec scratch u = u\<lparr>clint := (clint s)(CLINT_MTIMECMP h := clint s CLINT_MTIME + 1000000),
      timer_scratch := (timer_scratch s)(h := (timer_scratch s h)(3 := CLINT_MTIMECMP h, 4 := 1000000)), mscratch := scratch h, mtvec := timervec,
      mstatus := m OR MSTATUS_MIE, mie := mie s OR MIE_MTIE\<rparr>"
    unfolding timerinit_def hu Let_def csr_defs by (simp add: u_def)
  have th: "hart_int (timerinit timervec scratch u) = h" using w unfolding ti by (simp add: hart_int_def r_mhartid_def u_def)
  have "of_int h = mhartid s" by (simp add: h_def)
  then have te: "t = mret ((timerinit timervec scratch u)\<lparr>tp := mhartid s\<rparr>)" unfolding t th by (simp add: w_tp_def)
  show "mode t = 1" unfolding te ti mret_def using mpp_mode [of "mstatus s"] by (simp add: m_def or.assoc)
  show "pc t = main_addr" "m_satp t = 0" "medeleg t = 0xffff" "mideleg t = 0xffff" "tp t = mhartid s" "mtvec t = timervec"
    "mscratch t = scratch h" "clint t (CLINT_MTIMECMP h) = clint s CLINT_MTIME + 1000000" "timer_scratch t h 3 = CLINT_MTIMECMP h"
    "timer_scratch t h 4 = 1000000" unfolding te ti mret_def by (simp_all add: u_def)
qed

end
