(* ===== verification/Grep.thy ===== *)
theory Grep
  imports Main
begin

text \<open>
  user/grep.c: the pattern matcher and the loop over the lines of the input. A C string is the list
  of its characters before the terminating NUL. What \<open>read\<close> returns, call by call, is the list of
  chunks; what is written is a list of lines.
\<close>

section \<open>The matcher\<close>

function (sequential) matchhere :: "string \<Rightarrow> string \<Rightarrow> bool"
  and matchstar :: "char \<Rightarrow> string \<Rightarrow> string \<Rightarrow> bool" where
  "matchhere [] tx = True"
| "matchhere (c # re) tx =
     (if re \<noteq> [] \<and> hd re = CHR ''*'' then matchstar c (tl re) tx
      else if c = CHR ''$'' \<and> re = [] then tx = []
      else (case tx of [] \<Rightarrow> False
            | t # tx' \<Rightarrow> (c = CHR ''.'' \<or> c = t) \<and> matchhere re tx'))"
| "matchstar c re tx =
     (if matchhere re tx then True
      else (case tx of [] \<Rightarrow> False
            | t # tx' \<Rightarrow> (t = c \<or> c = CHR ''.'') \<and> matchstar c re tx'))"
  by pat_completeness auto
termination
  by (relation "measure (\<lambda>x. case x of Inl (re, tx) \<Rightarrow> 2 * length re + length tx
        | Inr (c, re, tx) \<Rightarrow> 2 * length re + length tx + 1)") auto

fun match_from :: "string \<Rightarrow> string \<Rightarrow> bool" where
  "match_from re [] = matchhere re []"
| "match_from re (t # tx) = (if matchhere re (t # tx) then True else match_from re tx)"

definition match :: "string \<Rightarrow> string \<Rightarrow> bool" where
  "match re tx =
     (if re \<noteq> [] \<and> hd re = CHR ''^'' then matchhere (tl re) tx else match_from re tx)"

section \<open>The loop over lines\<close>

definition BUFSIZE :: nat where "BUFSIZE = 1024"

definition NUL :: char where "NUL = CHR 0x00"

text \<open>\<open>strchr(p, '\n')\<close>: the characters before the newline and those after it.\<close>

fun strchr_nl :: "string \<Rightarrow> (string \<times> string) option" where
  "strchr_nl [] = None"
| "strchr_nl (x # xs) =
     (if x = NUL then None
      else if x = CHR 0x0A then Some ([], xs)
      else map_option (\<lambda>(l, r). (x # l, r)) (strchr_nl xs))"

lemma strchr_nl_length: "strchr_nl p = Some (l, r) \<Longrightarrow> length r < length p"
  by (induction p arbitrary: l) (auto split: if_splits)

text \<open>The inner loop: what is written for the lines of the buffer, and what is left of it.\<close>

function grep_lines :: "string \<Rightarrow> string \<Rightarrow> string list \<times> string" where
  "grep_lines pat p =
     (case strchr_nl p of
        None \<Rightarrow> ([], p)
      | Some (l, r) \<Rightarrow>
          (let (out, rest) = grep_lines pat r
           in (if match pat l then (l @ [CHR 0x0A]) # out else out, rest)))"
  by pat_completeness auto
termination
  by (relation "measure (\<lambda>(pat, p). length p)") (auto dest: strchr_nl_length)

declare grep_lines.simps [simp del]

text \<open>
  \<open>buf\<close> is the incomplete line carried over. When it fills the buffer nothing can be read and the
  loop ends; so it does at the end of the input (no chunk, or an empty one).
\<close>

fun grep :: "string \<Rightarrow> string list \<Rightarrow> string \<Rightarrow> string list" where
  "grep pat [] buf = []"
| "grep pat (c # cs) buf =
     (if BUFSIZE - length buf - 1 = 0 \<or> c = [] then []
      else let (out, rest) = grep_lines pat (buf @ c) in out @ grep pat cs rest)"

section \<open>What a pattern means\<close>

text \<open>
  A pattern is a sequence of single characters and starred characters, the dot standing for any
  character, with an optional anchor at each end.
\<close>

datatype item = One char | Star char

definition accepts :: "char \<Rightarrow> char \<Rightarrow> bool" where
  "accepts c t \<longleftrightarrow> c = CHR ''.'' \<or> c = t"

primrec lang :: "item list \<Rightarrow> string set" where
  "lang [] = {[]}"
| "lang (i # is) = {u @ v | u v. (case i of One c \<Rightarrow> \<exists>t. u = [t] \<and> accepts c t
     | Star c \<Rightarrow> \<forall>t\<in>set u. accepts c t) \<and> v \<in> lang is}"

fun items :: "string \<Rightarrow> item list \<times> bool" where
  "items [] = ([], False)"
| "items [c] = (if c = CHR ''$'' then ([], True) else ([One c], False))"
| "items (c # d # re) =
     (if d = CHR ''*'' then let (is, e) = items re in (Star c # is, e)
      else let (is, e) = items (d # re) in (One c # is, e))"

definition prefix_match :: "item list \<times> bool \<Rightarrow> string \<Rightarrow> bool" where
  "prefix_match ie tx \<longleftrightarrow> (\<exists>u v. tx = u @ v \<and> u \<in> lang (fst ie) \<and> (snd ie \<longrightarrow> v = []))"

lemma prefix_matchI: "u \<in> lang is \<Longrightarrow> (e \<longrightarrow> v = []) \<Longrightarrow> prefix_match (is, e) (u @ v)"
  by (auto simp: prefix_match_def)

lemma prefix_matchE:
  assumes "prefix_match (is, e) tx"
  obtains u v where "tx = u @ v" "u \<in> lang is" "e \<longrightarrow> v = []"
  using assms by (auto simp: prefix_match_def)

lemma lang_One: "accepts c t \<Longrightarrow> v \<in> lang is \<Longrightarrow> t # v \<in> lang (One c # is)"
  by (simp, rule exI [of _ "[t]"], simp)

lemma lang_Star: "\<forall>t\<in>set u. accepts c t \<Longrightarrow> v \<in> lang is \<Longrightarrow> u @ v \<in> lang (Star c # is)"
  by auto

lemma prefix_match_One:
  "prefix_match (One c # is, e) tx \<longleftrightarrow> (\<exists>t tx'. tx = t # tx' \<and> accepts c t \<and> prefix_match (is, e) tx')"
proof
  assume "prefix_match (One c # is, e) tx"
  then obtain x w where x: "tx = x @ w" "x \<in> lang (One c # is)" "e \<longrightarrow> w = []" by (rule prefix_matchE)
  then obtain t v where v: "x = t # v" "accepts c t" "v \<in> lang is" by auto
  then have "prefix_match (is, e) (v @ w)" using x(3) by (intro prefix_matchI)
  then show "\<exists>t tx'. tx = t # tx' \<and> accepts c t \<and> prefix_match (is, e) tx'" using x(1) v(1,2) by simp
next
  assume "\<exists>t tx'. tx = t # tx' \<and> accepts c t \<and> prefix_match (is, e) tx'"
  then obtain t tx' where t: "tx = t # tx'" "accepts c t" "prefix_match (is, e) tx'" by blast
  from t(3) obtain v w where "tx' = v @ w" "v \<in> lang is" "e \<longrightarrow> w = []" by (rule prefix_matchE)
  then show "prefix_match (One c # is, e) tx"
    using prefix_matchI [OF lang_One [OF t(2)], of v "is" e w] t(1) by simp
qed

lemma prefix_match_Star:
  "prefix_match (Star c # is, e) tx \<longleftrightarrow>
     prefix_match (is, e) tx \<or> (\<exists>t tx'. tx = t # tx' \<and> accepts c t \<and> prefix_match (Star c # is, e) tx')"
proof
  assume "prefix_match (Star c # is, e) tx"
  then obtain x w where x: "tx = x @ w" "x \<in> lang (Star c # is)" "e \<longrightarrow> w = []" by (rule prefix_matchE)
  then obtain u v where t: "x = u @ v" "\<forall>t\<in>set u. accepts c t" "v \<in> lang is" by auto
  show "prefix_match (is, e) tx \<or> (\<exists>t tx'. tx = t # tx' \<and> accepts c t \<and> prefix_match (Star c # is, e) tx')"
  proof (cases u)
    case Nil
    then show ?thesis using prefix_matchI [OF t(3), of e w] x t(1) by simp
  next
    case (Cons a u')
    then have "prefix_match (Star c # is, e) ((u' @ v) @ w)"
      using t x(3) by (intro prefix_matchI lang_Star) auto
    then show ?thesis using Cons x(1) t(1,2) by simp
  qed
next
  assume "prefix_match (is, e) tx \<or> (\<exists>t tx'. tx = t # tx' \<and> accepts c t \<and> prefix_match (Star c # is, e) tx')"
  then show "prefix_match (Star c # is, e) tx"
  proof (elim disjE exE conjE)
    assume "prefix_match (is, e) tx"
    then obtain v w where "tx = v @ w" "v \<in> lang is" "e \<longrightarrow> w = []" by (rule prefix_matchE)
    then show ?thesis using prefix_matchI [OF lang_Star [of "[]" c v "is"], of e w] by simp
  next
    fix t tx' assume t: "tx = t # tx'" "accepts c t" "prefix_match (Star c # is, e) tx'"
    from t(3) obtain x w where x: "tx' = x @ w" "x \<in> lang (Star c # is)" "e \<longrightarrow> w = []" by (rule prefix_matchE)
    then obtain u v where "x = u @ v" "\<forall>t\<in>set u. accepts c t" "v \<in> lang is" by auto
    then show ?thesis using prefix_matchI [OF lang_Star [of "t # u" c v "is"], of e w] t(1,2) x by simp
  qed
qed

lemma items_cons: "c \<noteq> CHR ''$'' \<or> re \<noteq> [] \<Longrightarrow> re = [] \<or> hd re \<noteq> CHR ''*'' \<Longrightarrow>
   items (c # re) = (One c # fst (items re), snd (items re))"
  by (cases re) (auto split: prod.splits)

lemma items_star: "items (c # CHR ''*'' # re) = (Star c # fst (items re), snd (items re))"
  by (simp split: prod.splits)

lemma match_meaning:
  "matchhere re tx \<longleftrightarrow> prefix_match (items re) tx"
  "matchstar c re tx \<longleftrightarrow> prefix_match (Star c # fst (items re), snd (items re)) tx"
proof (induction re tx and c re tx rule: matchhere_matchstar.induct)
  case (1 tx)
  then show ?case by (simp add: prefix_match_def)
next
  case (2 c re tx)
  show ?case
  proof (cases "re \<noteq> [] \<and> hd re = CHR ''*''")
    case True
    then obtain re' where "re = CHR ''*'' # re'" by (cases re) auto
    then show ?thesis using 2(1) items_star [of c re'] by simp
  next
    case nostar: False
    show ?thesis
    proof (cases "c = CHR ''$'' \<and> re = []")
      case True
      then show ?thesis by (auto simp: prefix_match_def)
    next
      case False
      then have i: "items (c # re) = (One c # fst (items re), snd (items re))" using nostar by (intro items_cons) auto
      show ?thesis
      proof (cases tx)
        case Nil
        then show ?thesis using False nostar by (simp add: i prefix_match_One)
      next
        case (Cons t tx')
        then show ?thesis using False nostar 2(2) [OF nostar False Cons]
          by (auto simp: i prefix_match_One accepts_def)
      qed
    qed
  qed
next
  case (3 c re tx)
  show ?case
  proof (cases "matchhere re tx")
    case True
    then show ?thesis using 3(1) prefix_match_Star [of c "fst (items re)" "snd (items re)" tx] by simp
  next
    case False
    then show ?thesis using 3(1) 3(2) [OF False] prefix_match_Star [of c "fst (items re)" "snd (items re)" tx]
      by (cases tx) (auto simp: accepts_def)
  qed
qed

lemma match_from_meaning: "match_from re tx \<longleftrightarrow> (\<exists>pre rest. tx = pre @ rest \<and> matchhere re rest)"
proof (induction tx)
  case (Cons t tx)
  show ?case
  proof
    assume "match_from re (t # tx)"
    then have "matchhere re (t # tx) \<or> match_from re tx" by (auto split: if_splits)
    then show "\<exists>pre rest. t # tx = pre @ rest \<and> matchhere re rest"
      using Cons by (metis append_Cons append_Nil)
  next
    assume "\<exists>pre rest. t # tx = pre @ rest \<and> matchhere re rest"
    then obtain pre rest where "t # tx = pre @ rest" "matchhere re rest" by blast
    then show "match_from re (t # tx)" using Cons by (cases pre) auto
  qed
qed simp

text \<open>C33: the matcher agrees with the meaning of the pattern: it succeeds exactly when some part of
  the text is a word of the language of its items, at the start of the text if the pattern begins
  with \<open>^\<close>, and up to its end if it ends with \<open>$\<close>.\<close>

theorem match_correct:
  "match re tx \<longleftrightarrow>
     (let (anchored, body) = (if re \<noteq> [] \<and> hd re = CHR ''^'' then (True, tl re) else (False, re))
      in \<exists>pre u post. tx = pre @ u @ post \<and> u \<in> lang (fst (items body)) \<and>
           (anchored \<longrightarrow> pre = []) \<and> (snd (items body) \<longrightarrow> post = []))"
  by (auto simp: match_def match_from_meaning match_meaning prefix_match_def Let_def)

theorem match_correct_witness: "\<exists>pre u post. ''xab'' = pre @ u @ post \<and> u \<in> lang [One (CHR ''a''), Star (CHR ''b'')]"
  using match_correct [of "''ab*''" "''xab''"] by (simp add: match_def)

section \<open>What grep prints\<close>

text \<open>The complete lines of a text, and what follows the last newline.\<close>

fun split_lines :: "string \<Rightarrow> string list \<times> string" where
  "split_lines [] = ([], [])"
| "split_lines (x # xs) =
     (let (ls, r) = split_lines xs
      in if x = CHR 0x0A then ([] # ls, r) else (case ls of [] \<Rightarrow> ([], x # r) | l # ls' \<Rightarrow> ((x # l) # ls', r)))"

lemma split_lines_strchr:
  "NUL \<notin> set p \<Longrightarrow> split_lines p = (case strchr_nl p of None \<Rightarrow> ([], p)
     | Some (l, r) \<Rightarrow> (l # fst (split_lines r), snd (split_lines r)))"
  by (induction p) (auto simp: Let_def split: option.splits prod.splits list.splits)

lemma strchr_nl_set: "strchr_nl p = Some (l, r) \<Longrightarrow> set r \<subseteq> set p"
  by (induction p arbitrary: l) (auto split: if_splits)

definition hits :: "string \<Rightarrow> string list \<Rightarrow> string list" where
  "hits pat ls = map (\<lambda>l. l @ [CHR 0x0A]) (filter (match pat) ls)"

lemma grep_lines_spec: "NUL \<notin> set p \<Longrightarrow> grep_lines pat p = (hits pat (fst (split_lines p)), snd (split_lines p))"
proof (induction pat p rule: grep_lines.induct)
  case (1 pat p)
  show ?case
  proof (cases "strchr_nl p")
    case None
    then show ?thesis using 1(2) by (subst grep_lines.simps) (simp add: split_lines_strchr hits_def)
  next
    case (Some lr)
    then obtain l r where lr: "strchr_nl p = Some (l, r)" by (cases lr) auto
    have r: "NUL \<notin> set r" using strchr_nl_set [OF lr] 1(2) by auto
    have "grep_lines pat r = (hits pat (fst (split_lines r)), snd (split_lines r))" using 1(1) [OF lr refl r] .
    then show ?thesis using 1(2) lr
      by (subst grep_lines.simps) (simp add: split_lines_strchr [of p] hits_def)
  qed
qed

lemma split_lines_append:
  "split_lines (a @ b) = (fst (split_lines a) @ fst (split_lines (snd (split_lines a) @ b)),
     snd (split_lines (snd (split_lines a) @ b)))"
proof (induction a)
  case (Cons x a)
  show ?case
  proof (cases "split_lines a")
    case (Pair ls r)
    then show ?thesis using Cons by (cases ls) (auto simp: Let_def split: prod.splits list.splits)
  qed
qed simp

lemma split_lines_rest: "CHR 0x0A \<notin> set (snd (split_lines p)) \<and> set (snd (split_lines p)) \<subseteq> set p"
  by (induction p) (auto simp: Let_def split: prod.splits list.splits)

lemma split_lines_none: "CHR 0x0A \<notin> set p \<Longrightarrow> split_lines p = ([], p)"
  by (induction p) auto

text \<open>The first line of \<open>p @ b\<close>, or all of it, begins with \<open>p\<close> when \<open>p\<close> has no newline.\<close>

lemma split_lines_head:
  "CHR 0x0A \<notin> set p \<Longrightarrow> (\<exists>l ls. fst (split_lines (p @ b)) = (p @ l) # ls) \<or> (\<exists>l. snd (split_lines (p @ b)) = p @ l \<and> fst (split_lines (p @ b)) = [])"
proof (induction p)
  case Nil
  then show ?case by (cases "fst (split_lines b)") auto
next
  case (Cons x p)
  then show ?case by (auto simp: Let_def split: prod.splits list.splits)
qed

definition short_lines :: "string \<Rightarrow> bool" where
  "short_lines tx \<longleftrightarrow> (\<forall>l\<in>set (fst (split_lines tx)). length l < BUFSIZE - 1) \<and> length (snd (split_lines tx)) < BUFSIZE - 1"

lemma short_carry: "CHR 0x0A \<notin> set p \<Longrightarrow> short_lines (p @ b) \<Longrightarrow> length p < BUFSIZE - 1"
  using split_lines_head [of p b] by (auto simp: short_lines_def)

lemma grep_spec:
  "CHR 0x0A \<notin> set buf \<Longrightarrow> \<forall>c\<in>set cs. c \<noteq> [] \<Longrightarrow> NUL \<notin> set (buf @ concat cs) \<Longrightarrow> short_lines (buf @ concat cs) \<Longrightarrow>
   grep pat cs buf = hits pat (fst (split_lines (buf @ concat cs)))"
proof (induction cs arbitrary: buf)
  case Nil
  then show ?case by (simp add: split_lines_none hits_def)
next
  case (Cons c cs)
  let ?b = "buf @ c" and ?all = "buf @ concat (c # cs)"
  let ?ls = "fst (split_lines ?b)" and ?r = "snd (split_lines ?b)"
  have all: "?all = ?b @ concat cs" by simp
  have room: "\<not> (BUFSIZE - length buf - 1 = 0 \<or> c = [])" using short_carry [OF Cons.prems(1,4)] Cons.prems(2) by auto
  have g: "grep_lines pat ?b = (hits pat ?ls, ?r)" using Cons.prems(3) by (intro grep_lines_spec) auto
  have sp: "fst (split_lines ?all) = ?ls @ fst (split_lines (?r @ concat cs))"
    "snd (split_lines ?all) = snd (split_lines (?r @ concat cs))"
    unfolding all by (subst split_lines_append, simp)+
  have "grep pat cs ?r = hits pat (fst (split_lines (?r @ concat cs)))"
  proof (rule Cons.IH)
    show "CHR 0x0A \<notin> set ?r" using split_lines_rest [of ?b] by blast
    show "\<forall>c\<in>set cs. c \<noteq> []" using Cons.prems(2) by simp
    show "NUL \<notin> set (?r @ concat cs)" using split_lines_rest [of ?b] Cons.prems(3) by auto
    show "short_lines (?r @ concat cs)" using Cons.prems(4) unfolding short_lines_def sp by auto
  qed
  then show ?case unfolding sp(1) using room g by (simp add: hits_def)
qed

text \<open>C34: grep prints exactly the complete lines of its input that match the pattern, in order and
  with their newline, however the input is cut into chunks by \<open>read\<close>, provided every line fits into
  its buffer and the input has no NUL character. Characters after the last newline are never
  matched.\<close>

theorem grep_prints_matches:
  assumes "\<forall>c\<in>set chunks. c \<noteq> []" and "NUL \<notin> set (concat chunks)" and "short_lines (concat chunks)"
  shows "grep pat chunks [] =
    map (\<lambda>l. l @ [CHR 0x0A]) (filter (match pat) (fst (split_lines (concat chunks))))"
  using grep_spec [of "[]" chunks pat] assms by (simp add: hits_def)

theorem grep_prints_matches_witness:
  "grep ''^a*b'' [''aa'', ''b'' @ [CHR 0x0A] @ ''ca'', ''b'' @ [CHR 0x0A] @ ''b''] [] = [''aab'' @ [CHR 0x0A]]"
proof -
  let ?cs = "[''aa'', ''b'' @ [CHR 0x0A] @ ''ca'', ''b'' @ [CHR 0x0A] @ ''b'']"
  have "\<forall>c\<in>set ?cs. c \<noteq> []" "NUL \<notin> set (concat ?cs)" "short_lines (concat ?cs)"
    by (simp_all add: NUL_def short_lines_def BUFSIZE_def)
  from grep_prints_matches [OF this, of "''^a*b''"] show ?thesis by (simp add: match_def)
qed

end
