(* ===== verification/Sh.thy ===== *)
theory Sh
  imports Fcntl
begin

unbundle bit_operations_syntax

text \<open>
  The command language of the shell, user/sh.c: tokens, the recursive-descent parser and the termination of its strings.
  The line is the list of its characters before the NUL, a pointer into it an offset. A command tree is a value: that \<open>malloc\<close>
  succeeds is assumed. \<open>panic\<close>, which prints its message and exits, is the result \<open>Err (Panic _)\<close>.
\<close>

section \<open>Commands\<close>

definition MAXARGS :: nat where "MAXARGS = 10"

datatype cmd =
    EXEC "(nat \<times> nat) list"                 \<comment> \<open>begin and end of each argument\<close>
  | REDIR cmd nat nat u32 int               \<comment> \<open>begin and end of the file name, mode, descriptor\<close>
  | PIPE cmd cmd
  | LIST cmd cmd
  | BACK cmd

definition execcmd :: cmd where
  "execcmd = EXEC []"

definition redircmd :: "cmd \<Rightarrow> nat \<Rightarrow> nat \<Rightarrow> u32 \<Rightarrow> int \<Rightarrow> cmd" where
  "redircmd subcmd file' efile mode fd = REDIR subcmd file' efile mode fd"

definition pipecmd :: "cmd \<Rightarrow> cmd \<Rightarrow> cmd" where
  "pipecmd left right = PIPE left right"

definition listcmd :: "cmd \<Rightarrow> cmd \<Rightarrow> cmd" where
  "listcmd left right = LIST left right"

definition backcmd :: "cmd \<Rightarrow> cmd" where
  "backcmd subcmd = BACK subcmd"

lemmas cmd_constructors [simp] = execcmd_def redircmd_def pipecmd_def listcmd_def backcmd_def

section \<open>Tokens\<close>

definition NUL :: char where "NUL = CHR 0x00"

definition whitespace :: string where
  "whitespace = [CHR '' '', CHR 0x09, CHR 0x0D, CHR 0x0A, CHR 0x0B]"

definition symbols :: string where
  "symbols = ''<|>&;()''"

definition chr_at :: "string \<Rightarrow> nat \<Rightarrow> char" where
  "chr_at b s = (if s < length b then b ! s else NUL)"

text \<open>The loops \<open>while(s < es && ...) s++\<close>.\<close>

definition skip :: "(char \<Rightarrow> bool) \<Rightarrow> string \<Rightarrow> nat \<Rightarrow> nat" where
  "skip P b s = s + length (takeWhile P (drop s b))"

abbreviation skip_ws :: "string \<Rightarrow> nat \<Rightarrow> nat" where
  "skip_ws \<equiv> skip (\<lambda>c. c \<in> set whitespace)"

text \<open>The token, where it begins and ends, and the position of the next.\<close>

definition gettoken :: "string \<Rightarrow> nat \<Rightarrow> char \<times> nat \<times> nat \<times> nat" where
  "gettoken b s =
     (let q = skip_ws b s; c = chr_at b q;
          (ret, e) = (if c = NUL then (c, q)
            else if c \<in> set ''|();&<'' then (c, Suc q)
            else if c = CHR ''>'' then (if chr_at b (Suc q) = CHR ''>'' then (CHR ''+'', Suc (Suc q)) else (c, Suc q))
            else (CHR ''a'', skip (\<lambda>c. c \<notin> set whitespace \<and> c \<notin> set symbols) b q))
      in (ret, q, e, skip_ws b e))"

definition peek :: "string \<Rightarrow> nat \<Rightarrow> string \<Rightarrow> bool \<times> nat" where
  "peek b s toks = (let q = skip_ws b s in (chr_at b q \<noteq> NUL \<and> chr_at b q \<in> set toks, q))"

abbreviation next_pos :: "string \<Rightarrow> nat \<Rightarrow> nat" where
  "next_pos b s \<equiv> snd (snd (snd (gettoken b s)))"

lemma skip_le: "s \<le> skip P b s"
  by (simp add: skip_def)

lemma skip_bound: "s \<le> length b \<Longrightarrow> skip P b s \<le> length b"
  using length_takeWhile_le [of P "drop s b"] by (simp add: skip_def)

lemma peek_lt: "peek b s toks = (True, q) \<Longrightarrow> s \<le> q \<and> q < length b"
  by (auto simp: peek_def Let_def chr_at_def skip_le split: if_splits)

text \<open>A token other than the end of the line is not empty.\<close>

lemma gettoken_advances:
  assumes "gettoken b s = (tok, q, e, n)" and "tok \<noteq> NUL"
  shows "s \<le> q" "q < e" "e \<le> n" "q < length b"
proof -
  let ?q = "skip_ws b s"
  have q: "q = ?q" "n = skip_ws b e" using assms(1) by (auto simp: gettoken_def Let_def split: if_splits prod.splits)
  have c: "chr_at b q \<noteq> NUL" using assms by (auto simp: gettoken_def Let_def q(1) split: if_splits)
  then show l: "q < length b" by (auto simp: chr_at_def split: if_splits)
  show "s \<le> q" "e \<le> n" by (simp_all add: q skip_le)
  have "chr_at b q \<notin> set whitespace"
  proof
    assume "chr_at b q \<in> set whitespace"
    then have "drop q b \<noteq> []" "hd (drop q b) \<in> set whitespace" using l by (simp_all add: chr_at_def hd_drop_conv_nth)
    moreover have "drop q b = dropWhile (\<lambda>c. c \<in> set whitespace) (drop s b)"
      by (simp add: q skip_def dropWhile_eq_drop add.commute)
    ultimately show False by (metis hd_dropWhile)
  qed
  moreover have "q < skip P b q" if "P (b ! q)" for P
    using l that by (simp add: skip_def Cons_nth_drop_Suc [symmetric])
  ultimately show "q < e"
    using assms(1) c l by (auto simp: gettoken_def Let_def q [symmetric] chr_at_def symbols_def split: if_splits)
qed

lemma gettoken_le:
  assumes "gettoken b s = (tok, q, e, n)"
  shows "s \<le> q" "q \<le> e" "e \<le> n" "s \<le> n" "s \<le> length b \<Longrightarrow> n \<le> length b"
proof -
  have q: "q = skip_ws b s" "n = skip_ws b e" using assms by (auto simp: gettoken_def Let_def split: if_splits prod.splits)
  show l: "s \<le> q" "e \<le> n" by (simp_all add: q skip_le)
  show m: "q \<le> e" using assms gettoken_advances(2) [OF assms] by (cases "tok = NUL") (auto simp: gettoken_def Let_def q(1) NUL_def skip_le split: if_splits prod.splits)
  show "s \<le> n" using l m by linarith
  assume "s \<le> length b"
  then have ql: "q \<le> length b" by (simp add: q skip_bound)
  have "e \<le> length b"
  proof (cases "chr_at b q = NUL")
    case True
    then show ?thesis using assms ql by (auto simp: gettoken_def Let_def q(1))
  next
    case False
    then have "q < length b" "chr_at b (Suc q) \<noteq> NUL \<Longrightarrow> Suc q < length b" by (auto simp: chr_at_def split: if_splits)
    then show ?thesis using assms False skip_bound [OF ql] by (auto simp: gettoken_def Let_def q(1) NUL_def split: if_splits)
  qed
  then show "n \<le> length b" by (simp add: q skip_bound)
qed

lemma gettoken_word: "gettoken b s = (CHR ''a'', q, e, n) \<Longrightarrow> s < n"
  using gettoken_advances [of b s "CHR ''a''" q e n] by (simp add: NUL_def)

lemma drop_skip: "drop (skip P b s) b = dropWhile P (drop s b)"
  by (simp add: skip_def dropWhile_eq_drop add.commute)

lemma skip_skip [simp]: "skip P b (skip P b s) = skip P b s"
proof -
  have "takeWhile P (dropWhile P xs) = []" for xs by (induction xs) simp_all
  then show ?thesis by (simp add: skip_def [of P b "skip P b s"] drop_skip)
qed

lemma peek_next:
  assumes "peek b s toks = (True, q)"
  shows "fst (gettoken b q) \<noteq> NUL" "q < next_pos b q"
proof -
  have q: "q = skip_ws b q" and c: "chr_at b q \<noteq> NUL" using assms by (auto simp: peek_def Let_def)
  show t: "fst (gettoken b q) \<noteq> NUL" using c by (auto simp: gettoken_def Let_def q [symmetric] NUL_def split: prod.splits)
  obtain tok q' e n where g: "gettoken b q = (tok, q', e, n)" by (metis prod_cases4)
  show "q < next_pos b q" using gettoken_advances [OF g] t g by simp
qed

section \<open>The parser\<close>

lemma redir_advances:
  assumes "peek b s ''<>'' = (True, s1)" and "gettoken b s1 = (tok, q1, e1, s2)" and "gettoken b s2 = (CHR ''a'', q, eq, s3)"
  shows "length b - s3 < length b - s"
  using peek_lt [OF assms(1)] gettoken_le(4) [OF assms(2)] gettoken_word [OF assms(3)] by linarith

function parseredirs :: "string \<Rightarrow> cmd \<Rightarrow> nat \<Rightarrow> (cmd \<times> nat) res" where
  "parseredirs b c s =
     (let (p, s1) = peek b s ''<>''
      in if \<not> p then Ok (c, s1)
         else let (tok, _, _, s2) = gettoken b s1; (t2, q, eq, s3) = gettoken b s2
              in if t2 \<noteq> CHR ''a'' then Err (Panic ''missing file for redirection'')
                 else parseredirs b
                   (if tok = CHR ''<'' then redircmd c q eq O_RDONLY 0
                    else if tok = CHR ''>'' then redircmd c q eq (O_WRONLY OR O_CREATE OR O_TRUNC) 1
                    else if tok = CHR ''+'' then redircmd c q eq (O_WRONLY OR O_CREATE) 1
                    else c) s3)"
  by pat_completeness auto
termination
  by (relation "measure (\<lambda>(b, _, s). length b - s)") (auto intro: redir_advances [OF sym sym sym])

declare parseredirs.simps [simp del]

text \<open>
  \<open>parseexec\<close> keeps a pointer to the command under the redirections and appends the arguments to it.
\<close>

fun add_arg :: "nat \<times> nat \<Rightarrow> cmd \<Rightarrow> cmd" where
  "add_arg a (EXEC args) = EXEC (args @ [a])"
| "add_arg a (REDIR c q eq mode fd) = REDIR (add_arg a c) q eq mode fd"
| "add_arg a c = c"

function args_loop :: "string \<Rightarrow> nat \<Rightarrow> cmd \<Rightarrow> nat \<Rightarrow> (cmd \<times> nat) res" where
  "args_loop b argc ret s =
     (let (p, s1) = peek b s ''|)&;''
      in if p then Ok (ret, s1)
         else let (tok, q, eq, s2) = gettoken b s1
              in if tok = NUL then Ok (ret, s2)
                 else if tok \<noteq> CHR ''a'' then Err (Panic ''syntax'')
                 else if Suc argc \<ge> MAXARGS then Err (Panic ''too many args'')
                 else bnd (parseredirs b (add_arg (q, eq) ret) s2) (\<lambda>(ret', s3). args_loop b (Suc argc) ret' s3))"
  by pat_completeness auto
termination
  by (relation "measure (\<lambda>(_, argc, _). MAXARGS - argc)") auto

declare args_loop.simps [simp del]

text \<open>The call back to \<open>parseline\<close> is the parameter \<open>pl\<close>.\<close>

definition parseblock :: "(nat \<Rightarrow> (cmd \<times> nat) res) \<Rightarrow> string \<Rightarrow> nat \<Rightarrow> (cmd \<times> nat) res" where
  "parseblock pl b s =
     (let (p, s1) = peek b s ''(''
      in if \<not> p then Err (Panic ''parseblock'')
         else bnd (pl (next_pos b s1)) (\<lambda>(c, s2).
           let (p', s3) = peek b s2 '')''
           in if \<not> p' then Err (Panic ''syntax - missing )'')
              else parseredirs b c (next_pos b s3)))"

definition parseexec :: "(nat \<Rightarrow> (cmd \<times> nat) res) \<Rightarrow> string \<Rightarrow> nat \<Rightarrow> (cmd \<times> nat) res" where
  "parseexec pl b s =
     (let (p, s1) = peek b s ''(''
      in if p then parseblock pl b s1
         else bnd (parseredirs b execcmd s1) (\<lambda>(ret, s2). args_loop b 0 ret s2))"

primrec parsepipe :: "nat \<Rightarrow> (nat \<Rightarrow> (cmd \<times> nat) res) \<Rightarrow> string \<Rightarrow> nat \<Rightarrow> (cmd \<times> nat) res" where
  "parsepipe 0 pl b s = Err Spin"
| "parsepipe (Suc n) pl b s =
     bnd (parseexec pl b s) (\<lambda>(c, s1).
     let (p, s2) = peek b s1 ''|''
     in if p then bnd (parsepipe n pl b (next_pos b s2)) (\<lambda>(c2, s3). Ok (pipecmd c c2, s3))
        else Ok (c, s2))"

function back_loop :: "string \<Rightarrow> cmd \<Rightarrow> nat \<Rightarrow> cmd \<times> nat" where
  "back_loop b c s =
     (let (p, s1) = peek b s ''&'' in if p then back_loop b (backcmd c) (next_pos b s1) else (c, s1))"
  by pat_completeness auto
termination
proof (relation "measure (\<lambda>(b, _, s). length b - s)", goal_cases)
  case (2 b c s x p s1)
  then show ?case using peek_lt [of b s "''&''" s1] peek_next(2) [of b s "''&''" s1] by auto
qed simp

declare back_loop.simps [simp del]

primrec parseline :: "nat \<Rightarrow> string \<Rightarrow> nat \<Rightarrow> (cmd \<times> nat) res" where
  "parseline 0 b s = Err Spin"
| "parseline (Suc n) b s =
     bnd (parsepipe (Suc (length b - s)) (parseline n b) b s) (\<lambda>(c, s1).
     let (c', s2) = back_loop b c s1; (p, s3) = peek b s2 '';''
     in if p then bnd (parseline n b (next_pos b s3)) (\<lambda>(c2, s4). Ok (listcmd c' c2, s4))
        else Ok (c', s3))"

text \<open>A NUL in place of the character after each string. The buffer includes the NUL of the line.\<close>

primrec nulterminate :: "cmd \<Rightarrow> string \<Rightarrow> string" where
  "nulterminate (EXEC args) buf = fold (\<lambda>(q, eq) buf. buf[eq := NUL]) args buf"
| "nulterminate (REDIR c q eq mode fd) buf = (nulterminate c buf)[eq := NUL]"
| "nulterminate (PIPE l r) buf = nulterminate r (nulterminate l buf)"
| "nulterminate (LIST l r) buf = nulterminate r (nulterminate l buf)"
| "nulterminate (BACK c) buf = nulterminate c buf"

text \<open>The command and the buffer its strings are in.\<close>

definition parsecmd :: "string \<Rightarrow> (cmd \<times> string) res" where
  "parsecmd b =
     bnd (parseline (Suc (length b)) b 0) (\<lambda>(c, s).
     let (_, s1) = peek b s []
     in if s1 \<noteq> length b then Err (Panic ''syntax'') else Ok (c, nulterminate c (b @ [NUL])))"

end
