(* ===== verification/Shparse.thy ===== *)
theory Shparse
  imports Sh
begin

unbundle bit_operations_syntax

text \<open>
  What the parser of the shell does: it always ends, and it reads back every command that is written out, with the
  strings of the command NUL-terminated in the line.
\<close>

section \<open>The parser ends\<close>

text \<open>A syntax error, or a result at a position from \<open>lo\<close> to the end of the line.\<close>

definition fine :: "nat \<Rightarrow> string \<Rightarrow> (cmd \<times> nat) res \<Rightarrow> bool" where
  "fine lo b r \<longleftrightarrow> (case r of Ok (c, s') \<Rightarrow> lo \<le> s' \<and> s' \<le> length b | Err e \<Rightarrow> (\<exists>msg. e = Panic msg))"

lemma fine_simps [simp]: "fine lo b (Ok (c, s)) \<longleftrightarrow> lo \<le> s \<and> s \<le> length b" "fine lo b (Err e) \<longleftrightarrow> (\<exists>msg. e = Panic msg)"
  by (simp_all add: fine_def)

lemma fine_bnd:
  assumes "fine lo b r" and "\<And>c s. r = Ok (c, s) \<Longrightarrow> lo \<le> s \<Longrightarrow> s \<le> length b \<Longrightarrow> fine lo' b (f (c, s))"
  shows "fine lo' b (bnd r f)"
  using assms by (cases r) (auto simp: fine_def)

lemma fine_mono: "fine lo b r \<Longrightarrow> lo' \<le> lo \<Longrightarrow> fine lo' b r"
  by (auto simp: fine_def split: res.splits)

lemma peek_bound: "peek b s toks = (p, q) \<Longrightarrow> s \<le> length b \<Longrightarrow> s \<le> q \<and> q \<le> length b"
  by (auto simp: peek_def Let_def skip_le skip_bound)

lemma next_pos_bound: "s \<le> length b \<Longrightarrow> s \<le> next_pos b s \<and> next_pos b s \<le> length b"
  using gettoken_le(4,5) [of b s] by (metis prod.collapse)

lemma parseredirs_fine: "s \<le> length b \<Longrightarrow> fine s b (parseredirs b c s)"
proof (induction b c s rule: parseredirs.induct)
  case (1 b c s)
  obtain p s1 where p: "peek b s ''<>'' = (p, s1)" by fastforce
  obtain tok q1 e1 s2 where t: "gettoken b s1 = (tok, q1, e1, s2)" by (metis prod_cases4)
  obtain t2 q eq s3 where t2: "gettoken b s2 = (t2, q, eq, s3)" by (metis prod_cases4)
  have l: "s \<le> s1" "s1 \<le> length b" using peek_bound [OF p] 1(2) by auto
  have l2: "s1 \<le> s2" "s2 \<le> length b" "s2 \<le> s3" "s3 \<le> length b" using gettoken_le(4,5) [OF t] gettoken_le(4,5) [OF t2] l by auto
  show ?case
  proof (cases "p \<and> t2 = CHR ''a''")
    case True
    have "fine s3 b (parseredirs b (if tok = CHR ''<'' then redircmd c q eq O_RDONLY 0
                    else if tok = CHR ''>'' then redircmd c q eq (O_WRONLY OR O_CREATE OR O_TRUNC) 1
                    else if tok = CHR ''+'' then redircmd c q eq (O_WRONLY OR O_CREATE) 1 else c) s3)"
      using 1(1) [OF p [symmetric] refl _ t [symmetric] refl refl refl t2 [symmetric] refl refl refl] True l2 by simp
    then have "fine s b (parseredirs b (if tok = CHR ''<'' then redircmd c q eq O_RDONLY 0
                    else if tok = CHR ''>'' then redircmd c q eq (O_WRONLY OR O_CREATE OR O_TRUNC) 1
                    else if tok = CHR ''+'' then redircmd c q eq (O_WRONLY OR O_CREATE) 1 else c) s3)" by (rule fine_mono) (use l l2 in linarith)
    then show ?thesis using True by (simp add: parseredirs.simps [of b c s] p t t2)
  next
    case False
    then show ?thesis using l by (auto simp: parseredirs.simps [of b c s] p t t2 Let_def)
  qed
qed

lemma args_loop_fine: "s \<le> length b \<Longrightarrow> fine s b (args_loop b argc ret s)"
proof (induction b argc ret s rule: args_loop.induct)
  case (1 b argc ret s)
  obtain p s1 where p: "peek b s ''|)&;'' = (p, s1)" by fastforce
  obtain tok q e s2 where t: "gettoken b s1 = (tok, q, e, s2)" by (metis prod_cases4)
  have l: "s \<le> s1" "s1 \<le> length b" "s1 \<le> s2" "s2 \<le> length b" using peek_bound [OF p] gettoken_le(4,5) [OF t] 1(2) by auto
  have "fine s b (bnd (parseredirs b (add_arg (q, e) ret) s2) (\<lambda>(ret', s3). args_loop b (Suc argc) ret' s3))"
    if "\<not> p" "tok \<noteq> NUL" "tok = CHR ''a''" "\<not> MAXARGS \<le> Suc argc"
  proof (rule fine_bnd [OF parseredirs_fine [OF l(4)]])
    fix c s3 assume r: "parseredirs b (add_arg (q, e) ret) s2 = Ok (c, s3)" and "s2 \<le> s3" "s3 \<le> length b"
    then have "fine s3 b (args_loop b (Suc argc) c s3)"
      using 1(1) [OF p [symmetric] refl that(1) t [symmetric] refl refl refl that(2) _ that(4) r refl] that(3) by blast
    then show "fine s b (case (c, s3) of (ret', s3) \<Rightarrow> args_loop b (Suc argc) ret' s3)" using fine_mono [of s3 b _ s] l \<open>s2 \<le> s3\<close> by simp
  qed
  then show ?case using l by (auto simp: args_loop.simps [of b argc ret s] p t Let_def)
qed

lemma back_loop_bound: "s \<le> length b \<Longrightarrow> back_loop b c s = (c', s') \<Longrightarrow> s \<le> s' \<and> s' \<le> length b"
proof (induction b c s rule: back_loop.induct)
  case (1 b c s)
  obtain p s1 where p: "peek b s ''&'' = (p, s1)" by fastforce
  have l: "s \<le> s1" "s1 \<le> length b" using peek_bound [OF p] 1(2) by auto
  show ?case
  proof (cases p)
    case True
    have "next_pos b s1 \<le> s' \<and> s' \<le> length b"
      by (rule 1(1) [OF p [symmetric] refl True]) (use 1(3) True p next_pos_bound [OF l(2)] in \<open>simp_all add: back_loop.simps [of b c s]\<close>)
    then show ?thesis using l next_pos_bound [OF l(2)] by linarith
  next
    case False
    then show ?thesis using 1(3) p l by (auto simp: back_loop.simps [of b c s])
  qed
qed

lemma parseblock_fine:
  assumes "s \<le> length b" and "\<And>t. s < t \<Longrightarrow> t \<le> length b \<Longrightarrow> fine t b (pl t)"
  shows "fine s b (parseblock pl b s)"
proof -
  obtain p s1 where p: "peek b s ''('' = (p, s1)" by fastforce
  have l: "s \<le> s1" "s1 \<le> length b" using peek_bound [OF p assms(1)] by auto
  have "fine s b (bnd (pl (next_pos b s1)) (\<lambda>(c, s2). let (p', s3) = peek b s2 '')'' in
      if \<not> p' then Err (Panic ''syntax - missing )'') else parseredirs b c (next_pos b s3)))" if p
  proof (rule fine_bnd)
    show "fine (next_pos b s1) b (pl (next_pos b s1))"
      using assms(2) [of "next_pos b s1"] peek_next(2) [of b s "''(''" s1] p that l next_pos_bound [of s1 b] by simp
    fix c s2 assume s2: "next_pos b s1 \<le> s2" "s2 \<le> length b"
    obtain p' s3 where p': "peek b s2 '')'' = (p', s3)" by fastforce
    have "s2 \<le> next_pos b s3" "next_pos b s3 \<le> length b" using peek_bound [OF p' s2(2)] next_pos_bound [of s3 b] by auto
    then have "fine s b (parseredirs b c (next_pos b s3))"
      using fine_mono [OF parseredirs_fine] s2 l next_pos_bound [of s1 b] by (meson order_trans)
    then show "fine s b (case (c, s2) of (c, s2) \<Rightarrow> let (p', s3) = peek b s2 '')'' in
      if \<not> p' then Err (Panic ''syntax - missing )'') else parseredirs b c (next_pos b s3))" by (simp add: p')
  qed
  then show ?thesis by (simp add: parseblock_def p)
qed

lemma parseexec_fine:
  assumes "s \<le> length b" and "\<And>t. s < t \<Longrightarrow> t \<le> length b \<Longrightarrow> fine t b (pl t)"
  shows "fine s b (parseexec pl b s)"
proof -
  obtain p s1 where p: "peek b s ''('' = (p, s1)" by fastforce
  have l: "s \<le> s1" "s1 \<le> length b" using peek_bound [OF p assms(1)] by auto
  have "fine s1 b (parseblock pl b s1)" by (rule parseblock_fine) (use l assms(2) in auto)
  moreover have "fine s1 b (bnd (parseredirs b execcmd s1) (\<lambda>(ret, s2). args_loop b 0 ret s2))"
    by (rule fine_bnd [OF parseredirs_fine [OF l(2)]]) (auto intro: fine_mono [OF args_loop_fine])
  ultimately have "fine s1 b (parseexec pl b s1)" if "peek b s1 ''('' = (p, s1)" using that by (simp add: parseexec_def)
  moreover have "parseexec pl b s = parseexec pl b s1" "peek b s1 ''('' = (p, s1)" using p by (auto simp: parseexec_def peek_def Let_def)
  ultimately show ?thesis using fine_mono l by simp
qed

lemma parsepipe_fine:
  assumes "\<And>t. lo < t \<Longrightarrow> t \<le> length b \<Longrightarrow> fine t b (pl t)"
  shows "lo \<le> s \<Longrightarrow> s \<le> length b \<Longrightarrow> length b - s < n \<Longrightarrow> fine s b (parsepipe n pl b s)"
proof (induction n arbitrary: s)
  case (Suc n)
  have "fine s b (parseexec pl b s)" by (rule parseexec_fine) (use Suc.prems assms in auto)
  then show ?case unfolding parsepipe.simps
  proof (rule fine_bnd)
    fix c s1 assume s1: "s \<le> s1" "s1 \<le> length b"
    obtain p s2 where p: "peek b s1 ''|'' = (p, s2)" by fastforce
    have l: "s1 \<le> s2" "s2 \<le> length b" using peek_bound [OF p s1(2)] by auto
    have "fine s b (bnd (parsepipe n pl b (next_pos b s2)) (\<lambda>(c2, s3). Ok (pipecmd c c2, s3)))" if p
    proof (rule fine_bnd)
      have "s2 < next_pos b s2" "s2 < length b" using peek_next(2) [of b s1 "''|''" s2] peek_lt [of b s1 "''|''" s2] p that by auto
      then show "fine (next_pos b s2) b (parsepipe n pl b (next_pos b s2))"
        using Suc.IH [of "next_pos b s2"] Suc.prems s1 l next_pos_bound [of s2 b] by auto
    qed (use s1 l next_pos_bound [of s2 b] in auto)
    then show "fine s b (case (c, s1) of (c, s1) \<Rightarrow> let (p, s2) = peek b s1 ''|'' in
      if p then bnd (parsepipe n pl b (next_pos b s2)) (\<lambda>(c2, s3). Ok (pipecmd c c2, s3)) else Ok (c, s2))" using l s1 by (auto simp: p)
  qed
qed simp

lemma parseline_fine: "s \<le> length b \<Longrightarrow> length b - s < n \<Longrightarrow> fine s b (parseline n b s)"
proof (induction n arbitrary: s)
  case (Suc n)
  have "fine s b (parsepipe (Suc (length b - s)) (parseline n b) b s)"
    by (rule parsepipe_fine [where lo = s]) (use Suc in auto)
  then show ?case unfolding parseline.simps
  proof (rule fine_bnd)
    fix c s1 assume s1: "s \<le> s1" "s1 \<le> length b"
    obtain c' s2 where c': "back_loop b c s1 = (c', s2)" by fastforce
    obtain p s3 where p: "peek b s2 '';'' = (p, s3)" by fastforce
    have l: "s1 \<le> s2" "s2 \<le> s3" "s3 \<le> length b" using back_loop_bound [OF s1(2) c'] peek_bound [OF p] by auto
    have "fine s b (bnd (parseline n b (next_pos b s3)) (\<lambda>(c2, s4). Ok (listcmd c' c2, s4)))" if p
    proof (rule fine_bnd)
      have "s3 < next_pos b s3" "s3 < length b" using peek_next(2) [of b s2 "'';''" s3] peek_lt [of b s2 "'';''" s3] p that by auto
      then show "fine (next_pos b s3) b (parseline n b (next_pos b s3))"
        using Suc.IH [of "next_pos b s3"] Suc.prems s1 l next_pos_bound [of s3 b] by auto
    qed (use s1 l next_pos_bound [of s3 b] in auto)
    then show "fine s b (case (c, s1) of (c, s1) \<Rightarrow> let (c', s2) = back_loop b c s1; (p, s3) = peek b s2 '';'' in
      if p then bnd (parseline n b (next_pos b s3)) (\<lambda>(c2, s4). Ok (listcmd c' c2, s4)) else Ok (c', s3))" using l s1 by (auto simp: p c')
  qed
qed simp

text \<open>C39: The parser of the shell ends on every line: with a command, or with the message of a syntax error.\<close>

theorem parsecmd_ends: "(\<exists>c buf. parsecmd b = Ok (c, buf)) \<or> (\<exists>msg. parsecmd b = Err (Panic msg))"
proof -
  define r where "r = parseline (Suc (length b)) b 0"
  have "fine 0 b r" unfolding r_def by (rule parseline_fine) simp_all
  then show ?thesis unfolding parsecmd_def r_def [symmetric] by (auto simp: fine_def Let_def split: res.splits prod.splits)
qed

section \<open>Writing commands\<close>

datatype redir = In | Out | Append

datatype acmd = AExec "string list" | ARedir acmd redir string | APipe acmd acmd | AList acmd acmd | ABack acmd

fun redir_sym :: "redir \<Rightarrow> string" where
  "redir_sym In = ''< ''"
| "redir_sym Out = ''> ''"
| "redir_sym Append = ''>> ''"

fun redir_mode :: "redir \<Rightarrow> u32" where
  "redir_mode In = O_RDONLY"
| "redir_mode Out = O_WRONLY OR O_CREATE OR O_TRUNC"
| "redir_mode Append = O_WRONLY OR O_CREATE"

fun redir_fd :: "redir \<Rightarrow> int" where
  "redir_fd In = 0"
| "redir_fd Out = 1"
| "redir_fd Append = 1"

definition paren :: "bool \<Rightarrow> string \<Rightarrow> string" where
  "paren p str = (if p then ''( '' @ str @ '') '' else str)"

text \<open>
  A command written at a level of the grammar: 0 a line, 1 a part of a list, 2 a pipeline, 3 a part of a
  pipeline. Parentheses where the level needs them.
\<close>

primrec unparse :: "nat \<Rightarrow> acmd \<Rightarrow> string" where
  "unparse lv (AExec ws) = concat (map (\<lambda>w. w @ '' '') ws)"
| "unparse lv (ARedir c r w) = unparse 3 c @ redir_sym r @ w @ '' ''"
| "unparse lv (APipe l r) = paren (lv > 2) (unparse 3 l @ ''| '' @ unparse 2 r)"
| "unparse lv (ABack c) = paren (lv > 1) (unparse 1 c @ ''& '')"
| "unparse lv (AList l r) = paren (lv > 0) (unparse 1 l @ ''; '' @ unparse 0 r)"

definition word_char :: "char \<Rightarrow> bool" where
  "word_char c \<longleftrightarrow> c \<noteq> NUL \<and> c \<notin> set whitespace \<and> c \<notin> set symbols"

definition is_word :: "string \<Rightarrow> bool" where
  "is_word w \<longleftrightarrow> w \<noteq> [] \<and> (\<forall>c\<in>set w. word_char c)"

primrec writable :: "acmd \<Rightarrow> bool" where
  "writable (AExec ws) \<longleftrightarrow> length ws < MAXARGS \<and> (\<forall>w\<in>set ws. is_word w)"
| "writable (ARedir c r w) \<longleftrightarrow> writable c \<and> is_word w"
| "writable (APipe l r) \<longleftrightarrow> writable l \<and> writable r"
| "writable (ABack c) \<longleftrightarrow> writable c"
| "writable (AList l r) \<longleftrightarrow> writable l \<and> writable r"

text \<open>The string at a position of a buffer, and the command a tree with its buffer stands for.\<close>

definition str_at :: "string \<Rightarrow> nat \<Rightarrow> string" where
  "str_at buf q = takeWhile (\<lambda>c. c \<noteq> NUL) (drop q buf)"

fun denotes :: "string \<Rightarrow> cmd \<Rightarrow> acmd \<Rightarrow> bool" where
  "denotes buf (EXEC args) (AExec ws) \<longleftrightarrow> map (\<lambda>(q, e). str_at buf q) args = ws"
| "denotes buf (REDIR c q e mode fd) (ARedir a r w) \<longleftrightarrow> denotes buf c a \<and> str_at buf q = w \<and> mode = redir_mode r \<and> fd = redir_fd r"
| "denotes buf (PIPE l r) (APipe al ar) \<longleftrightarrow> denotes buf l al \<and> denotes buf r ar"
| "denotes buf (LIST l r) (AList al ar) \<longleftrightarrow> denotes buf l al \<and> denotes buf r ar"
| "denotes buf (BACK c) (ABack a) \<longleftrightarrow> denotes buf c a"
| "denotes buf _ _ \<longleftrightarrow> False"

section \<open>Tokens of a line\<close>

text \<open>What is left of the line from a position on, without leading white space.\<close>

definition left :: "string \<Rightarrow> nat \<Rightarrow> string" where
  "left b s = dropWhile (\<lambda>c. c \<in> set whitespace) (drop s b)"

lemma left_skip: "left b s = drop (skip_ws b s) b" "left b (skip_ws b s) = left b s"
  by (simp_all add: left_def drop_skip dropWhile_idem)

lemma chr_left: "chr_at b (skip_ws b s) = (case left b s of [] \<Rightarrow> NUL | c # _ \<Rightarrow> c)"
proof (cases "left b s")
  case Nil
  then show ?thesis by (simp add: left_skip(1) chr_at_def)
next
  case (Cons c cs)
  then have "skip_ws b s < length b" by (metis left_skip(1) drop_eq_Nil linorder_not_le list.discI)
  then show ?thesis using Cons by (simp add: left_skip(1) chr_at_def) (metis Cons_nth_drop_Suc list.inject)
qed

lemma peek_left: "peek b s toks = ((case left b s of [] \<Rightarrow> False | c # _ \<Rightarrow> c \<noteq> NUL \<and> c \<in> set toks), skip_ws b s)"
  by (auto simp: peek_def Let_def chr_left split: list.splits)

text \<open>A symbol followed by a space.\<close>

lemma symbol_next:
  assumes "left b s = c # '' '' @ rest" and "c \<in> set ''|();&<''"
  shows "gettoken b s = (c, skip_ws b s, Suc (skip_ws b s), next_pos b s)" "left b (next_pos b s) = dropWhile (\<lambda>c. c \<in> set whitespace) rest"
proof -
  have c: "chr_at b (skip_ws b s) = c" "c \<noteq> NUL" using assms by (auto simp: chr_left NUL_def)
  show g: "gettoken b s = (c, skip_ws b s, Suc (skip_ws b s), next_pos b s)" using c assms(2) by (auto simp: gettoken_def Let_def)
  have "next_pos b s = skip_ws b (Suc (skip_ws b s))" using c assms(2) by (auto simp: gettoken_def Let_def)
  moreover have "drop (Suc (skip_ws b s)) b = '' '' @ rest" using assms(1) unfolding left_skip(1) by (metis drop_Suc list.sel(3) tl_drop)
  ultimately show "left b (next_pos b s) = dropWhile (\<lambda>c. c \<in> set whitespace) rest" by (simp add: left_skip(2)) (simp add: left_def whitespace_def)
qed

text \<open>A word of the line: it begins at \<open>q\<close>, and \<open>e\<close> is the position behind it.\<close>

definition token :: "string \<Rightarrow> nat \<Rightarrow> nat \<Rightarrow> string \<Rightarrow> bool" where
  "token b q e w \<longleftrightarrow> is_word w \<and> (\<exists>rest. drop q b = w @ rest \<and> (rest \<noteq> [] \<longrightarrow> \<not> word_char (hd rest))) \<and> e = q + length w"

lemma word_next:
  assumes "left b s = w @ '' '' @ rest" and "is_word w"
  shows "\<exists>q e n. gettoken b s = (CHR ''a'', q, e, n) \<and> token b q e w \<and> left b n = dropWhile (\<lambda>c. c \<in> set whitespace) rest"
proof -
  let ?q = "skip_ws b s"
  obtain c cs where w: "w = c # cs" using assms(2) by (cases w) (auto simp: is_word_def)
  have c: "word_char c" "\<forall>c\<in>set w. word_char c" using assms(2) by (auto simp: is_word_def w)
  have d: "drop ?q b = w @ '' '' @ rest" using assms(1) by (simp add: left_skip(1))
  have "takeWhile (\<lambda>c. c \<notin> set whitespace \<and> c \<notin> set symbols) (w @ '' '' @ rest) = w"
    using c(2) by (subst takeWhile_append2) (auto simp: word_char_def whitespace_def)
  then have e: "skip (\<lambda>c. c \<notin> set whitespace \<and> c \<notin> set symbols) b ?q = ?q + length w" by (simp add: skip_def [of _ b ?q] d)
  have "chr_at b ?q = c" by (simp add: chr_left assms(1) w)
  then have "gettoken b s = (CHR ''a'', ?q, ?q + length w, skip_ws b (?q + length w))"
    using c(1) e by (auto simp: gettoken_def Let_def word_char_def symbols_def)
  moreover have "token b ?q (?q + length w) w" using assms(2) d by (auto simp: token_def word_char_def whitespace_def)
  moreover have "drop (?q + length w) b = '' '' @ rest" using d by (metis add.commute append_eq_conv_conj drop_drop)
  then have "left b (skip_ws b (?q + length w)) = dropWhile (\<lambda>c. c \<in> set whitespace) rest"
    by (simp add: left_skip(2)) (simp add: left_def whitespace_def)
  ultimately show ?thesis by blast
qed

lemma gettoken_skip [simp]: "gettoken b (skip_ws b s) = gettoken b s"
  by (simp add: gettoken_def)

definition clean :: "string \<Rightarrow> bool" where
  "clean xs \<longleftrightarrow> dropWhile (\<lambda>c. c \<in> set whitespace) xs = xs"

definition follows :: "string \<Rightarrow> string \<Rightarrow> bool" where
  "follows F rest \<longleftrightarrow> (case rest of [] \<Rightarrow> True | c # _ \<Rightarrow> c \<in> set F)"

lemma clean_simps [simp]: "clean []" "clean (c # cs) \<longleftrightarrow> c \<notin> set whitespace"
proof -
  show "clean []" by (simp add: clean_def)
  have "length (dropWhile P cs) \<noteq> length (c # cs)" for P using length_dropWhile_le [of P cs] by simp
  then have "dropWhile P cs \<noteq> c # cs" for P by metis
  then show "clean (c # cs) \<longleftrightarrow> c \<notin> set whitespace" by (simp add: clean_def)
qed

lemma follows_clean: "follows F rest \<Longrightarrow> set F \<inter> set whitespace = {} \<Longrightarrow> clean rest"
  by (cases rest) (auto simp: follows_def)

lemma follows_mono: "follows F rest \<Longrightarrow> set F \<subseteq> set F' \<Longrightarrow> follows F' rest"
  by (cases rest) (auto simp: follows_def)

lemma clean_symbols [simp]: "follows ''|)&;<>'' rest \<Longrightarrow> clean rest" "follows ''|)&;'' rest \<Longrightarrow> clean rest" "follows '')&;'' rest \<Longrightarrow> clean rest" "follows '')'' rest \<Longrightarrow> clean rest"
  by (auto intro!: follows_clean simp: whitespace_def)

lemma clean_word: "is_word w \<Longrightarrow> clean (w @ xs)"
  by (cases w) (auto simp: is_word_def word_char_def)

lemma clean_unparse: "writable a \<Longrightarrow> clean rest \<Longrightarrow> clean (unparse lv a @ rest)"
proof (induction a arbitrary: lv rest)
  case (AExec ws)
  then show ?case by (cases ws) (auto simp: clean_word)
next
  case (ARedir c r w)
  then show ?case by (cases r) (auto simp: whitespace_def)
qed (auto simp: paren_def whitespace_def)

fun redir_tok :: "redir \<Rightarrow> char" where
  "redir_tok In = CHR ''<''"
| "redir_tok Out = CHR ''>''"
| "redir_tok Append = CHR ''+''"

lemma redir_next:
  assumes "left b s = redir_sym r @ rest" and "clean rest"
  shows "\<exists>q e n. gettoken b s = (redir_tok r, q, e, n) \<and> left b n = rest"
proof -
  let ?q = "skip_ws b s"
  have d: "drop ?q b = redir_sym r @ rest" using assms(1) by (simp add: left_skip(1))
  have c: "chr_at b ?q = hd (redir_sym r)" using assms(1) by (cases r) (simp_all add: chr_left)
  have c1: "chr_at b (Suc ?q) = redir_sym r ! 1"
  proof -
    have "Suc ?q < length b" using arg_cong [OF d, of length] by (cases r) auto
    moreover have "b ! Suc ?q = drop ?q b ! 1" using calculation by simp
    ultimately show ?thesis unfolding d by (cases r) (simp_all add: chr_at_def)
  qed
  have n: "left b (skip_ws b (?q + length (redir_sym r) - 1)) = rest"
  proof -
    have "drop (?q + length (redir_sym r) - 1) b = drop (length (redir_sym r) - 1) (redir_sym r @ rest)" unfolding d [symmetric] by (cases r) (simp_all add: add.commute)
    then show ?thesis using assms(2) by (cases r) (simp_all add: left_skip(2), simp_all add: left_def whitespace_def clean_def)
  qed
  show ?thesis using c c1 n by (cases r) (simp_all add: gettoken_def Let_def NUL_def)
qed

section \<open>Reading a command back\<close>

fun means :: "string \<Rightarrow> cmd \<Rightarrow> acmd \<Rightarrow> bool" where
  "means b (EXEC args) (AExec ws) \<longleftrightarrow> list_all2 (\<lambda>(q, e) w. token b q e w) args ws"
| "means b (REDIR c q e mode fd) (ARedir a r w) \<longleftrightarrow> means b c a \<and> token b q e w \<and> mode = redir_mode r \<and> fd = redir_fd r"
| "means b (PIPE l r) (APipe al ar) \<longleftrightarrow> means b l al \<and> means b r ar"
| "means b (LIST l r) (AList al ar) \<longleftrightarrow> means b l al \<and> means b r ar"
| "means b (BACK c) (ABack a) \<longleftrightarrow> means b c a"
| "means b _ _ \<longleftrightarrow> False"

lemma parseredirs_none: "follows ''|)&;'' (left b s) \<Longrightarrow> parseredirs b c s = Ok (c, skip_ws b s)"
  by (auto simp: parseredirs.simps [of b c s] peek_left follows_def split: list.splits)

lemma parseredirs_word: "left b s = w @ xs \<Longrightarrow> is_word w \<Longrightarrow> parseredirs b c s = Ok (c, skip_ws b s)"
  by (cases w) (auto simp: parseredirs.simps [of b c s] peek_left is_word_def word_char_def symbols_def)

lemma parseredirs_one:
  assumes "left b s = redir_sym r @ w @ '' '' @ rest" and "is_word w" and "clean rest"
  shows "\<exists>q e s'. parseredirs b c s = parseredirs b (REDIR c q e (redir_mode r) (redir_fd r)) s' \<and> token b q e w \<and> left b s' = rest"
proof -
  obtain q1 e1 s2 where t: "gettoken b s = (redir_tok r, q1, e1, s2)" "left b s2 = w @ '' '' @ rest"
    using redir_next [OF assms(1) clean_word [OF assms(2)]] by blast
  obtain q e s3 where t2: "gettoken b s2 = (CHR ''a'', q, e, s3)" "token b q e w" "left b s3 = rest"
    using word_next [OF t(2) assms(2)] assms(3) by (auto simp: clean_def)
  have "fst (peek b s ''<>'')" using assms(1) by (cases r) (simp_all add: peek_left NUL_def)
  then have "peek b s ''<>'' = (True, skip_ws b s)" by (simp add: peek_left)
  then have "parseredirs b c s = parseredirs b (REDIR c q e (redir_mode r) (redir_fd r)) s3"
    by (cases r) (simp_all add: parseredirs.simps [of b c s] t t2)
  then show ?thesis using t2 by blast
qed

text \<open>
  Reading at each level, for enough fuel \<open>n\<close>. After a part of a pipeline come its redirections; after a pipeline, the ampersands.
\<close>

definition exec_ok :: "nat \<Rightarrow> acmd \<Rightarrow> bool" where
  "exec_ok n a \<longleftrightarrow> (\<forall>b s rest. left b s = unparse 3 a @ rest \<and> follows ''|)&;<>'' rest \<longrightarrow>
     (\<exists>c1 s1 K. parseexec (parseline n b) b s = bnd (parseredirs b c1 s1) K \<and> left b s1 = rest \<and> means b c1 a \<and>
       (\<forall>c s. follows ''|)&;'' (left b s) \<longrightarrow> K (c, skip_ws b s) = Ok (c, skip_ws b s))))"

definition pipe_ok :: "nat \<Rightarrow> nat \<Rightarrow> acmd \<Rightarrow> bool" where
  "pipe_ok n k a \<longleftrightarrow> (\<forall>b s rest. left b s = unparse 2 a @ rest \<and> follows '')&;'' rest \<longrightarrow>
     (\<exists>c s'. parsepipe k (parseline n b) b s = Ok (c, s') \<and> left b s' = rest \<and> means b c a))"

definition back_ok :: "nat \<Rightarrow> nat \<Rightarrow> acmd \<Rightarrow> bool" where
  "back_ok n k a \<longleftrightarrow> (\<forall>b s rest. left b s = unparse 1 a @ rest \<and> follows '')&;'' rest \<longrightarrow>
     (\<exists>c0 s0 c s'. parsepipe k (parseline n b) b s = Ok (c0, s0) \<and> back_loop b c0 s0 = back_loop b c s' \<and> left b s' = rest \<and> means b c a))"

definition line_ok :: "nat \<Rightarrow> acmd \<Rightarrow> bool" where
  "line_ok n a \<longleftrightarrow> (\<forall>b s rest. left b s = unparse 0 a @ rest \<and> follows '')'' rest \<longrightarrow>
     (\<exists>c s'. parseline n b s = Ok (c, s') \<and> left b s' = rest \<and> means b c a))"

lemma exec_done:
  assumes "exec_ok n a" and "left b s = unparse 3 a @ rest" and "follows ''|)&;'' rest"
  shows "\<exists>c s'. parseexec (parseline n b) b s = Ok (c, s') \<and> left b s' = rest \<and> means b c a"
proof -
  have "follows ''|)&;<>'' rest" using assms(3) by (rule follows_mono) auto
  then obtain c1 s1 K where e: "parseexec (parseline n b) b s = bnd (parseredirs b c1 s1) K" "left b s1 = rest" "means b c1 a"
    and K: "\<forall>c s. follows ''|)&;'' (left b s) \<longrightarrow> K (c, skip_ws b s) = Ok (c, skip_ws b s)"
    using assms(1,2) unfolding exec_ok_def by blast
  then show ?thesis using assms(3) by (auto simp: parseredirs_none left_skip(2))
qed

subsection \<open>Parts of a pipeline\<close>

lemma args_end: "follows ''|)&;'' (left b s) \<Longrightarrow> args_loop b k c (skip_ws b s) = Ok (c, skip_ws b s)"
proof (cases "left b s")
  case Nil
  then have "chr_at b (skip_ws b s) = NUL" by (simp add: chr_left)
  then have "gettoken b s = (NUL, skip_ws b s, skip_ws b s, skip_ws b s)" by (simp add: gettoken_def Let_def)
  then show ?thesis using Nil by (simp add: args_loop.simps [of b k] peek_left left_skip(2))
next
  case (Cons x xs)
  assume "follows ''|)&;'' (left b s)"
  then show ?thesis using Cons by (auto simp: args_loop.simps [of b k] peek_left left_skip(2) follows_def NUL_def)
qed

lemma read_args:
  assumes "follows ''|)&;<>'' rest"
  shows "\<lbrakk>left b s = concat (map (\<lambda>w. w @ '' '') ws) @ rest; \<forall>w\<in>set ws. is_word w; length args + length ws < MAXARGS\<rbrakk> \<Longrightarrow>
    \<exists>new s'. bnd (parseredirs b (EXEC args) s) (\<lambda>(ret, s'). args_loop b (length args) ret s') =
        bnd (parseredirs b (EXEC (args @ new)) s') (\<lambda>(ret, s'). args_loop b (length args + length ws) ret s') \<and>
      left b s' = rest \<and> list_all2 (\<lambda>(q, e) w. token b q e w) new ws"
proof (induction ws arbitrary: args s)
  case Nil
  then show ?case by (intro exI [of _ "[]"] exI [of _ s]) simp
next
  case (Cons w ws)
  let ?rest = "concat (map (\<lambda>w. w @ '' '') ws) @ rest"
  have w: "is_word w" and l: "left b s = w @ '' '' @ ?rest" using Cons.prems by simp_all
  have cl: "clean ?rest" using assms Cons.prems(2) by (cases ws) (auto simp: clean_word)
  obtain q e s2 where t: "gettoken b s = (CHR ''a'', q, e, s2)" "token b q e w" "left b s2 = ?rest"
    using word_next [OF l w] cl by (auto simp: clean_def)
  have "\<not> fst (peek b s ''|)&;'')" using l w by (cases w) (auto simp: peek_left is_word_def word_char_def symbols_def)
  then have "args_loop b (length args) (EXEC args) (skip_ws b s) =
      bnd (parseredirs b (EXEC (args @ [(q, e)])) s2) (\<lambda>(ret, s'). args_loop b (length (args @ [(q, e)])) ret s')"
    using t(1) Cons.prems(3) by (simp add: args_loop.simps [of b "length args"] peek_left left_skip(2) NUL_def)
  moreover obtain new s' where "bnd (parseredirs b (EXEC (args @ [(q, e)])) s2) (\<lambda>(ret, s'). args_loop b (length (args @ [(q, e)])) ret s') =
        bnd (parseredirs b (EXEC ((args @ [(q, e)]) @ new)) s') (\<lambda>(ret, s'). args_loop b (length (args @ [(q, e)]) + length ws) ret s')"
      "left b s' = rest" "list_all2 (\<lambda>(q, e) w. token b q e w) new ws"
    using Cons.IH [OF t(3), of "args @ [(q, e)]"] Cons.prems by auto
  ultimately show ?case using parseredirs_word [OF l w] t(2) by (intro exI [of _ "(q, e) # new"] exI [of _ s']) simp
qed

lemma exec_args: "writable (AExec ws) \<Longrightarrow> exec_ok n (AExec ws)"
proof (unfold exec_ok_def, intro allI impI, elim conjE)
  fix b s rest assume w: "writable (AExec ws)" and l: "left b s = unparse 3 (AExec ws) @ rest" and f: "follows ''|)&;<>'' rest"
  have np: "\<not> fst (peek b s ''('')"
    using l f w by (cases ws; cases rest; cases "hd ws") (auto simp: peek_left follows_def is_word_def word_char_def symbols_def)
  obtain new s' where "bnd (parseredirs b (EXEC []) (skip_ws b s)) (\<lambda>(ret, s'). args_loop b 0 ret s') =
        bnd (parseredirs b (EXEC new) s') (\<lambda>(ret, s'). args_loop b (length ws) ret s')"
      "left b s' = rest" "list_all2 (\<lambda>(q, e) w. token b q e w) new ws"
    using read_args [OF f, of b "skip_ws b s" ws "[]"] l w by (auto simp: left_skip(2))
  then show "\<exists>c1 s1 K. parseexec (parseline n b) b s = bnd (parseredirs b c1 s1) K \<and> left b s1 = rest \<and> means b c1 (AExec ws) \<and>
       (\<forall>c s. follows ''|)&;'' (left b s) \<longrightarrow> K (c, skip_ws b s) = Ok (c, skip_ws b s))"
    using np by (intro exI [of _ "EXEC new"] exI [of _ s'] exI [of _ "\<lambda>(ret, s'). args_loop b (length ws) ret s'"]) (simp add: parseexec_def peek_left args_end)
qed

lemma exec_redir:
  assumes "exec_ok n c" and "is_word w"
  shows "exec_ok n (ARedir c r w)"
proof (unfold exec_ok_def, intro allI impI, elim conjE)
  fix b s rest assume l: "left b s = unparse 3 (ARedir c r w) @ rest" and f: "follows ''|)&;<>'' rest"
  have "follows ''|)&;<>'' (redir_sym r @ w @ '' '' @ rest)" by (cases r) (simp_all add: follows_def)
  then obtain c1 s1 K where e: "parseexec (parseline n b) b s = bnd (parseredirs b c1 s1) K" "left b s1 = redir_sym r @ w @ '' '' @ rest" "means b c1 c"
    and K: "\<forall>c s. follows ''|)&;'' (left b s) \<longrightarrow> K (c, skip_ws b s) = Ok (c, skip_ws b s)"
    using assms(1) l unfolding exec_ok_def by fastforce
  obtain q e' s2 where "parseredirs b c1 s1 = parseredirs b (REDIR c1 q e' (redir_mode r) (redir_fd r)) s2" "token b q e' w" "left b s2 = rest"
    using parseredirs_one [OF e(2) assms(2) clean_symbols(1) [OF f], of c1] by blast
  then show "\<exists>c1 s1 K. parseexec (parseline n b) b s = bnd (parseredirs b c1 s1) K \<and> left b s1 = rest \<and> means b c1 (ARedir c r w) \<and>
       (\<forall>c s. follows ''|)&;'' (left b s) \<longrightarrow> K (c, skip_ws b s) = Ok (c, skip_ws b s))"
    using e K by (intro exI [of _ "REDIR c1 q e' (redir_mode r) (redir_fd r)"] exI [of _ s2] exI [of _ K]) simp
qed

lemma symbol_peek:
  assumes "left b s = c # '' '' @ rest" and "c \<in> set ''|();&<''" and "clean rest"
  shows "peek b s [c] = (True, skip_ws b s)" "left b (next_pos b (skip_ws b s)) = rest"
proof -
  show "peek b s [c] = (True, skip_ws b s)" using assms(1,2) by (auto simp: peek_left NUL_def)
  show "left b (next_pos b (skip_ws b s)) = rest" using symbol_next(2) [OF assms(1,2)] assms(3) by (simp add: clean_def)
qed

lemma no_peek: "follows F (left b s) \<Longrightarrow> c \<notin> set F \<Longrightarrow> peek b s [c] = (False, skip_ws b s)"
  by (auto simp: peek_left follows_def split: list.splits)

lemma exec_block:
  assumes "line_ok n a" and "writable a" and u: "unparse 3 a = ''( '' @ unparse 0 a @ '') ''"
  shows "exec_ok n a"
proof (unfold exec_ok_def, intro allI impI, elim conjE)
  fix b s rest assume l: "left b s = unparse 3 a @ rest" and f: "follows ''|)&;<>'' rest"
  have l1: "left b s = CHR ''('' # '' '' @ (unparse 0 a @ '') '' @ rest)" using l u by simp
  note p1 = symbol_peek [OF l1 _ clean_unparse [OF assms(2)]]
  have "follows '')'' ('') '' @ rest)" by (simp add: follows_def)
  moreover have p: "peek b s ''('' = (True, skip_ws b s)" "left b (next_pos b (skip_ws b s)) = unparse 0 a @ '') '' @ rest"
    using p1 by (simp_all add: whitespace_def)
  ultimately obtain c s2 where c: "parseline n b (next_pos b (skip_ws b s)) = Ok (c, s2)" "left b s2 = CHR '')'' # '' '' @ rest" "means b c a"
    using assms(1) unfolding line_ok_def by fastforce
  have p2: "peek b s2 '')'' = (True, skip_ws b s2)" "left b (next_pos b (skip_ws b s2)) = rest"
    using symbol_peek [OF c(2)] f by simp_all
  have "parseexec (parseline n b) b s = bnd (parseredirs b c (next_pos b (skip_ws b s2))) Ok"
  proof -
    have "peek b (skip_ws b s) ''('' = (True, skip_ws b s)" using p(1) by (simp add: peek_left left_skip(2))
    moreover have "bnd r Ok = r" for r :: "(cmd \<times> nat) res" by (cases r) simp_all
    ultimately show ?thesis using p c p2 by (simp add: parseexec_def parseblock_def)
  qed
  then show "\<exists>c1 s1 K. parseexec (parseline n b) b s = bnd (parseredirs b c1 s1) K \<and> left b s1 = rest \<and> means b c1 a \<and>
       (\<forall>c s. follows ''|)&;'' (left b s) \<longrightarrow> K (c, skip_ws b s) = Ok (c, skip_ws b s))"
    using p2(2) c(3) by (intro exI [of _ c] exI [of _ "next_pos b (skip_ws b s2)"] exI [of _ Ok]) simp
qed

subsection \<open>Pipelines, lists and lines\<close>

lemma pipe_exec:
  assumes "exec_ok n a" and "unparse 2 a = unparse 3 a"
  shows "pipe_ok n (Suc k) a"
proof (unfold pipe_ok_def, intro allI impI, elim conjE)
  fix b s rest assume l: "left b s = unparse 2 a @ rest" and f: "follows '')&;'' rest"
  have "follows ''|)&;'' rest" using f by (rule follows_mono) auto
  then obtain c s' where "parseexec (parseline n b) b s = Ok (c, s')" "left b s' = rest" "means b c a"
    using exec_done [OF assms(1)] l assms(2) by metis
  then show "\<exists>c s'. parsepipe (Suc k) (parseline n b) b s = Ok (c, s') \<and> left b s' = rest \<and> means b c a"
    using no_peek [of "'')&;''" b s' "CHR ''|''"] f by (simp add: left_skip(2))
qed

lemma pipe_step:
  assumes "exec_ok n l" and "pipe_ok n k r" and "writable r"
  shows "pipe_ok n (Suc k) (APipe l r)"
proof (unfold pipe_ok_def, intro allI impI, elim conjE)
  fix b s rest assume lf: "left b s = unparse 2 (APipe l r) @ rest" and f: "follows '')&;'' rest"
  have "left b s = unparse 3 l @ (''| '' @ unparse 2 r @ rest)" using lf by (simp add: paren_def)
  moreover have "follows ''|)&;'' (''| '' @ unparse 2 r @ rest)" by (simp add: follows_def)
  ultimately obtain c s1 where c: "parseexec (parseline n b) b s = Ok (c, s1)" "left b s1 = CHR ''|'' # '' '' @ (unparse 2 r @ rest)" "means b c l"
    using exec_done [OF assms(1)] by fastforce
  have p: "peek b s1 ''|'' = (True, skip_ws b s1)" "left b (next_pos b (skip_ws b s1)) = unparse 2 r @ rest"
    using symbol_peek [OF c(2) _ clean_unparse [OF assms(3)]] f by simp_all
  obtain c2 s' where "parsepipe k (parseline n b) b (next_pos b (skip_ws b s1)) = Ok (c2, s')" "left b s' = rest" "means b c2 r"
    using assms(2) p(2) f unfolding pipe_ok_def by blast
  then show "\<exists>c s'. parsepipe (Suc k) (parseline n b) b s = Ok (c, s') \<and> left b s' = rest \<and> means b c (APipe l r)"
    using c p(1) by simp
qed

lemma back_pipe: "pipe_ok n k a \<Longrightarrow> unparse 1 a = unparse 2 a \<Longrightarrow> back_ok n k a"
  unfolding pipe_ok_def back_ok_def by metis

lemma back_step:
  assumes "back_ok n k c"
  shows "back_ok n k (ABack c)"
proof (unfold back_ok_def, intro allI impI, elim conjE)
  fix b s rest assume lf: "left b s = unparse 1 (ABack c) @ rest" and f: "follows '')&;'' rest"
  have "left b s = unparse 1 c @ (''& '' @ rest)" using lf by (simp add: paren_def)
  moreover have "follows '')&;'' (''& '' @ rest)" by (simp add: follows_def)
  ultimately obtain c0 s0 c1 s1 where c: "parsepipe k (parseline n b) b s = Ok (c0, s0)" "back_loop b c0 s0 = back_loop b c1 s1"
      "left b s1 = CHR ''&'' # '' '' @ rest" "means b c1 c"
    using assms unfolding back_ok_def by fastforce
  have "peek b s1 ''&'' = (True, skip_ws b s1)" "left b (next_pos b (skip_ws b s1)) = rest"
    using symbol_peek [OF c(3)] f by simp_all
  then show "\<exists>c0 s0 c1 s'. parsepipe k (parseline n b) b s = Ok (c0, s0) \<and> back_loop b c0 s0 = back_loop b c1 s' \<and> left b s' = rest \<and> means b c1 (ABack c)"
    using c by (intro exI [of _ c0] exI [of _ s0] exI [of _ "BACK c1"] exI [of _ "next_pos b (skip_ws b s1)"]) (simp add: back_loop.simps [of b c1 s1])
qed

primrec depth :: "acmd \<Rightarrow> nat" where
  "depth (AExec ws) = 1"
| "depth (ARedir c r w) = Suc (depth c)"
| "depth (APipe l r) = Suc (max (depth l) (depth r))"
| "depth (ABack c) = Suc (depth c)"
| "depth (AList l r) = Suc (max (depth l) (depth r))"

lemma depth_length: "depth a \<le> Suc (length (unparse lv a))"
proof (induction a arbitrary: lv)
  case (ARedir c r w)
  show ?case using ARedir [of 3] by (cases r) simp_all
next
  case (APipe l r)
  show ?case using APipe(1) [of 3] APipe(2) [of 2] by (simp add: paren_def)
next
  case (ABack c)
  show ?case using ABack [of 1] by (simp add: paren_def)
next
  case (AList l r)
  show ?case using AList(1) [of 1] AList(2) [of 0] by (simp add: paren_def)
qed simp

lemma left_length: "length (left b s) \<le> length b - s"
  using length_dropWhile_le [of "\<lambda>c. c \<in> set whitespace" "drop s b"] by (simp add: left_def)

lemma back_end: "follows F (left b s) \<Longrightarrow> CHR ''&'' \<notin> set F \<Longrightarrow> back_loop b c s = (c, skip_ws b s)"
  by (simp add: back_loop.simps [of b c s] no_peek)

lemma line_back:
  assumes "\<And>k. depth a \<le> k \<Longrightarrow> back_ok n k a" and "unparse 0 a = unparse 1 a"
  shows "line_ok (Suc n) a"
proof (unfold line_ok_def, intro allI impI, elim conjE)
  fix b s rest assume lf: "left b s = unparse 0 a @ rest" and f: "follows '')'' rest"
  have "depth a \<le> Suc (length b - s)" using depth_length [of a 0] left_length [of b s] lf by simp
  moreover have "follows '')&;'' rest" using f by (rule follows_mono) auto
  ultimately obtain c0 s0 c s' where c: "parsepipe (Suc (length b - s)) (parseline n b) b s = Ok (c0, s0)" "back_loop b c0 s0 = back_loop b c s'"
      "left b s' = rest" "means b c a"
    using assms(1) [of "Suc (length b - s)"] lf assms(2) unfolding back_ok_def by metis
  have "peek b (skip_ws b s') '';'' = (False, skip_ws b s')" using no_peek [of "'')''" b s' "CHR '';''"] c(3) f by (simp add: peek_left left_skip(2))
  then have "parseline (Suc n) b s = Ok (c, skip_ws b s')"
    using c back_end [of "'')''" b s'] f by (simp del: parsepipe.simps)
  then show "\<exists>c s'. parseline (Suc n) b s = Ok (c, s') \<and> left b s' = rest \<and> means b c a" using c(3,4) left_skip(2) [of b s'] by blast
qed

lemma line_step:
  assumes "\<And>k. depth l \<le> k \<Longrightarrow> back_ok n k l" and "line_ok n r" and "writable r"
  shows "line_ok (Suc n) (AList l r)"
proof (unfold line_ok_def, intro allI impI, elim conjE)
  fix b s rest assume lf: "left b s = unparse 0 (AList l r) @ rest" and f: "follows '')'' rest"
  have l1: "left b s = unparse 1 l @ ''; '' @ unparse 0 r @ rest" using lf by (simp add: paren_def)
  have "depth l \<le> Suc (length b - s)" using depth_length [of l 1] left_length [of b s] l1 by simp
  moreover have "follows '')&;'' (''; '' @ unparse 0 r @ rest)" by (simp add: follows_def)
  ultimately obtain c0 s0 c s1 where c: "parsepipe (Suc (length b - s)) (parseline n b) b s = Ok (c0, s0)" "back_loop b c0 s0 = back_loop b c s1"
      "left b s1 = CHR '';'' # '' '' @ (unparse 0 r @ rest)" "means b c l"
    using assms(1) [of "Suc (length b - s)"] l1 unfolding back_ok_def by fastforce
  have "left b (skip_ws b s1) = CHR '';'' # '' '' @ (unparse 0 r @ rest)" using c(3) by (simp add: left_skip(2))
  note p = symbol_peek [OF this _ clean_unparse [OF assms(3)]]
  have nx: "left b (next_pos b (skip_ws b s1)) = unparse 0 r @ rest" using p(2) f by simp
  have "back_loop b c s1 = (c, skip_ws b s1)" by (rule back_end [where F = "'';''"]) (simp_all add: c(3) follows_def)
  moreover obtain c2 s' where "parseline n b (next_pos b (skip_ws b s1)) = Ok (c2, s')" "left b s' = rest" "means b c2 r"
    using assms(2) nx f unfolding line_ok_def by blast
  ultimately show "\<exists>c s'. parseline (Suc n) b s = Ok (c, s') \<and> left b s' = rest \<and> means b c (AList l r)"
    using c(1,2,4) p(1) f by (auto simp del: parsepipe.simps)
qed

text \<open>All levels together, by induction on the command.\<close>

definition all_ok :: "acmd \<Rightarrow> bool" where
  "all_ok a \<longleftrightarrow> (\<forall>n\<ge>depth a. line_ok n a \<and> exec_ok n a \<and> (\<forall>k\<ge>depth a. pipe_ok n k a \<and> back_ok n k a))"

lemma all_okD:
  assumes "all_ok a" and "depth a \<le> n"
  shows "line_ok n a" "exec_ok n a" "depth a \<le> k \<Longrightarrow> pipe_ok n k a" "depth a \<le> k \<Longrightarrow> back_ok n k a"
  using assms by (auto simp: all_ok_def)

lemma all_okI:
  assumes "\<And>n. depth a \<le> Suc n \<Longrightarrow> line_ok (Suc n) a" and "\<And>n. depth a \<le> n \<Longrightarrow> exec_ok n a"
    and "\<And>n k. depth a \<le> n \<Longrightarrow> depth a \<le> k \<Longrightarrow> pipe_ok n k a" and "\<And>n k. depth a \<le> n \<Longrightarrow> depth a \<le> k \<Longrightarrow> back_ok n k a"
  shows "all_ok a"
proof -
  have "0 < depth a" by (cases a) simp_all
  then have "line_ok n a" if "depth a \<le> n" for n using assms(1) [of "n - 1"] that by (cases n) simp_all
  then show ?thesis using assms(2-4) by (simp add: all_ok_def)
qed

lemma depth_pos: "depth a \<le> k \<Longrightarrow> \<exists>j. k = Suc j"
  by (cases a; cases k) simp_all

lemma all_ok_simple:
  assumes "\<And>n. depth a \<le> Suc n \<Longrightarrow> exec_ok n a" and "\<And>lv lv'. unparse lv a = unparse lv' a"
  shows "all_ok a"
proof -
  have e: "exec_ok n a" if "depth a \<le> n" for n using assms(1) [of n] that by simp
  have p: "pipe_ok n k a" if "depth a \<le> Suc n" "depth a \<le> k" for n k
    using depth_pos [OF that(2)] pipe_exec [OF assms(1) [OF that(1)] assms(2)] by auto
  have b: "back_ok n k a" if "depth a \<le> Suc n" "depth a \<le> k" for n k by (rule back_pipe [OF p [OF that] assms(2)])
  have l: "line_ok (Suc n) a" if "depth a \<le> Suc n" for n by (rule line_back [OF b [OF that] assms(2)])
  show ?thesis by (rule all_okI) (use e p b l in auto)
qed

lemma parse_all: "writable a \<Longrightarrow> all_ok a"
proof (induction a)
  case (AExec ws)
  then show ?case using exec_args by (intro all_ok_simple) auto
next
  case (ARedir c r w)
  then show ?case by (intro all_ok_simple exec_redir) (auto intro: all_okD(2))
next
  case (APipe l r)
  then have w: "all_ok l" "all_ok r" "writable r" by auto
  have p: "pipe_ok n k (APipe l r)" if "depth (APipe l r) \<le> Suc n" "depth (APipe l r) \<le> k" for n k
    using that depth_pos [OF that(2)] pipe_step [OF all_okD(2) [OF w(1)] all_okD(3) [OF w(2)] w(3), of n] by auto
  have b: "back_ok n k (APipe l r)" if "depth (APipe l r) \<le> Suc n" "depth (APipe l r) \<le> k" for n k by (rule back_pipe [OF p [OF that]]) (simp add: paren_def)
  have li: "line_ok (Suc n) (APipe l r)" if "depth (APipe l r) \<le> Suc n" for n by (rule line_back [OF b [OF that]]) (simp_all add: paren_def)
  have "exec_ok n (APipe l r)" if "depth (APipe l r) \<le> n" for n
    using li depth_pos [OF that] that APipe.prems by (intro exec_block) (auto simp: paren_def)
  then show ?case using p b le_SucI by (intro all_okI li) blast+
next
  case (AList l r)
  then have w: "all_ok l" "all_ok r" "writable r" by auto
  have li: "line_ok (Suc n) (AList l r)" if "depth (AList l r) \<le> Suc n" for n
    using that w by (intro line_step) (auto intro: all_okD)
  have e: "exec_ok n (AList l r)" if "depth (AList l r) \<le> n" for n
    using li depth_pos [OF that] that AList.prems by (intro exec_block) (auto simp: paren_def)
  have p: "pipe_ok n k (AList l r)" if "depth (AList l r) \<le> n" "depth (AList l r) \<le> k" for n k
    using depth_pos [OF that(2)] pipe_exec [OF e [OF that(1)]] by (auto simp: paren_def)
  then have "back_ok n k (AList l r)" if "depth (AList l r) \<le> n" "depth (AList l r) \<le> k" for n k using that by (intro back_pipe) (simp_all add: paren_def)
  then show ?case using e p li by (intro all_okI) auto
next
  case (ABack c)
  then have w: "all_ok c" by auto
  have b: "back_ok n k (ABack c)" if "depth (ABack c) \<le> Suc n" "depth (ABack c) \<le> k" for n k
    using that w by (intro back_step) (auto intro: all_okD)
  have li: "line_ok (Suc n) (ABack c)" if "depth (ABack c) \<le> Suc n" for n by (rule line_back [OF b [OF that]]) (simp_all add: paren_def)
  have e: "exec_ok n (ABack c)" if "depth (ABack c) \<le> n" for n
    using li depth_pos [OF that] that ABack.prems by (intro exec_block) (auto simp: paren_def)
  have "pipe_ok n k (ABack c)" if "depth (ABack c) \<le> n" "depth (ABack c) \<le> k" for n k
    using depth_pos [OF that(2)] pipe_exec [OF e [OF that(1)]] by (auto simp: paren_def)
  then show ?case using e b li by (intro all_okI) auto
qed

section \<open>Strings of the command\<close>

text \<open>The positions that \<open>nulterminate\<close> overwrites.\<close>

primrec ends :: "cmd \<Rightarrow> nat set" where
  "ends (EXEC args) = snd ` set args"
| "ends (REDIR c q e mode fd) = insert e (ends c)"
| "ends (PIPE l r) = ends l \<union> ends r"
| "ends (LIST l r) = ends l \<union> ends r"
| "ends (BACK c) = ends c"

definition cut :: "nat set \<Rightarrow> string \<Rightarrow> string" where
  "cut E buf = map (\<lambda>i. if i \<in> E then NUL else buf ! i) [0..<length buf]"

lemma length_cut [simp]: "length (cut E buf) = length buf"
  by (simp add: cut_def)

lemma nth_cut: "i < length buf \<Longrightarrow> cut E buf ! i = (if i \<in> E then NUL else buf ! i)"
  by (simp add: cut_def)

lemma cut_update: "(cut E buf)[e := NUL] = cut (insert e E) buf"
proof (rule nth_equalityI)
  fix i assume "i < length ((cut E buf)[e := NUL])"
  then show "(cut E buf)[e := NUL] ! i = cut (insert e E) buf ! i" by (cases "i = e") (simp_all add: nth_cut)
qed simp

lemma cut_args: "fold (\<lambda>(q, eq) buf. buf[eq := NUL]) args (cut E buf) = cut (snd ` set args \<union> E) buf"
  by (induction args arbitrary: E) (auto simp: cut_update)

lemma nulterminate_cut: "nulterminate c (cut E buf) = cut (ends c \<union> E) buf"
  by (induction c arbitrary: E) (simp_all add: cut_update cut_args Un_assoc Un_left_commute)

lemma cut_empty: "cut {} buf = buf"
  by (simp add: cut_def map_nth)

text \<open>A word keeps its characters and gets a NUL behind it.\<close>

definition ends_words :: "string \<Rightarrow> nat set \<Rightarrow> bool" where
  "ends_words b E \<longleftrightarrow> (\<forall>e\<in>E. e < length b \<longrightarrow> \<not> word_char (b ! e))"

lemma token_end: "token b q e w \<Longrightarrow> e < length b \<Longrightarrow> \<not> word_char (b ! e)"
proof -
  assume t: "token b q e w" and l: "e < length b"
  then obtain rest where d: "drop q b = w @ rest" "rest \<noteq> [] \<Longrightarrow> \<not> word_char (hd rest)" "e = q + length w" by (auto simp: token_def)
  then have "drop e b = rest" by (metis add.commute append_eq_conv_conj drop_drop)
  then show ?thesis using d(2) l by (auto simp: hd_drop_conv_nth [symmetric])
qed

lemma ends_words_simps [simp]: "ends_words b {}" "ends_words b (A \<union> B) \<longleftrightarrow> ends_words b A \<and> ends_words b B" "ends_words b (insert e A) \<longleftrightarrow> (e < length b \<longrightarrow> \<not> word_char (b ! e)) \<and> ends_words b A"
  by (auto simp: ends_words_def)

lemma args_ends: "list_all2 (\<lambda>(q, e) w. token b q e w) args ws \<Longrightarrow> ends_words b (snd ` set args)"
proof (induction args ws rule: list_all2_induct)
  case (Cons x xs y ys)
  then show ?case by (cases x) (simp add: token_end)
qed simp

lemma means_ends: "means b c a \<Longrightarrow> ends_words b (ends c)"
  by (induction b c a rule: means.induct) (auto simp: args_ends token_end)

lemma str_at_token:
  assumes "token b q e w" and "ends_words b E" and "e \<in> E"
  shows "str_at (cut E (b @ [NUL])) q = w"
proof -
  obtain rest where d: "drop q b = w @ rest" and e: "e = q + length w" and w: "is_word w" using assms(1) by (auto simp: token_def)
  have wc: "word_char (w ! i)" if "i < length w" for i using w that by (simp add: is_word_def)
  have q: "q + length w \<le> length b" using arg_cong [OF d, of length] w by (cases "q \<le> length b") (auto simp: is_word_def)
  have bi: "b ! (q + i) = w ! i" if "i < length w" for i using d that q by (metis nth_append nth_drop order_trans less_imp_le add_leE)
  let ?buf = "cut E (b @ [NUL])"
  have l: "length ?buf = Suc (length b)" by simp
  have ci: "?buf ! (q + i) = w ! i" if "i < length w" for i
    using assms(2) that bi [OF that] wc [OF that] q by (auto simp: nth_cut ends_words_def nth_append)
  have ce: "?buf ! e = NUL" using assms(3) q e by (simp add: nth_cut)
  have "take (length w) (drop q ?buf) = w" by (rule nth_equalityI) (use l q ci in auto)
  moreover have "drop (length w) (drop q ?buf) = NUL # drop (Suc e) ?buf"
    using ce l q e Cons_nth_drop_Suc [of e ?buf] by (simp add: add.commute)
  ultimately have "drop q ?buf = w @ NUL # drop (Suc e) ?buf" by (metis append_take_drop_id)
  moreover have "\<forall>c\<in>set w. c \<noteq> NUL" using w by (auto simp: is_word_def word_char_def)
  ultimately show ?thesis by (simp add: str_at_def takeWhile_append2)
qed

lemma args_strings:
  "list_all2 (\<lambda>(q, e) w. token b q e w) args ws \<Longrightarrow> ends_words b E \<Longrightarrow> snd ` set args \<subseteq> E \<Longrightarrow>
   map (\<lambda>(q, e). str_at (cut E (b @ [NUL])) q) args = ws"
  by (induction args ws rule: list_all2_induct) (auto simp: str_at_token)

lemma means_denotes: "means b c a \<Longrightarrow> ends_words b E \<Longrightarrow> ends c \<subseteq> E \<Longrightarrow> denotes (cut E (b @ [NUL])) c a"
  by (induction b c a rule: means.induct) (auto simp: args_strings str_at_token)

lemma parse_denotes:
  assumes "writable a"
  shows "\<exists>c buf. parsecmd (unparse 0 a) = Ok (c, buf) \<and> denotes buf c a"
proof -
  let ?b = "unparse 0 a"
  have "line_ok (Suc (length ?b)) a" using all_okD(1) [OF parse_all [OF assms]] depth_length [of a 0] by blast
  moreover have "left ?b 0 = ?b @ []" using clean_unparse [OF assms, of "[]" 0] by (simp add: left_def clean_def)
  ultimately obtain c s' where c: "parseline (Suc (length ?b)) ?b 0 = Ok (c, s')" "left ?b s' = []" "means ?b c a"
    unfolding line_ok_def follows_def by fastforce
  have "s' \<le> length ?b" using parseline_fine [of 0 ?b "Suc (length ?b)"] c(1) by (simp del: parseline.simps)
  then have "skip_ws ?b s' = length ?b" using c(2) skip_bound [of s' ?b "\<lambda>c. c \<in> set whitespace"] by (simp add: left_skip(1))
  then have "parsecmd ?b = Ok (c, nulterminate c (?b @ [NUL]))" using c(1) by (simp add: parsecmd_def peek_left del: parseline.simps)
  moreover have "nulterminate c (?b @ [NUL]) = cut (ends c) (?b @ [NUL])" using nulterminate_cut [of c "{}"] by (simp add: cut_empty)
  ultimately show ?thesis using means_denotes [OF c(3) means_ends [OF c(3)]] by auto
qed

text \<open>C14: Every command, written out with its words and parentheses, is read back by the parser: the tree it builds has
  the structure of the command, the redirections their mode and descriptor, and each argument and file name is a NUL-terminated
  string in the buffer.\<close>

theorem parsecmd_reads_back:
  "writable a \<Longrightarrow> \<exists>c buf. parsecmd (unparse 0 a) = Ok (c, buf) \<and> denotes buf c a"
  by (rule parse_denotes)

lemma parsecmd_reads_back_witness:
  "\<exists>c buf. parsecmd ''( ls | wc ) > out & '' = Ok (c, buf) \<and> denotes buf c (ABack (ARedir (APipe (AExec [''ls'']) (AExec [''wc''])) Out ''out''))"
proof -
  let ?a = "ABack (ARedir (APipe (AExec [''ls'']) (AExec [''wc''])) Out ''out'')"
  have "writable ?a" by (simp add: is_word_def word_char_def whitespace_def symbols_def NUL_def MAXARGS_def)
  moreover have "unparse 0 ?a = ''( ls | wc ) > out & ''" by (simp add: paren_def)
  ultimately show ?thesis using parsecmd_reads_back [of ?a] by simp
qed

end
