(* ===== verification/Ulib.thy ===== *)
theory Ulib
  imports Prelude
begin

text \<open>
  The C library of user programs: the string functions of user/ulib.c and the formatted output of
  user/printf.c. A C string is the list of its bytes before the terminating NUL; what is written to
  the file descriptor is a list of bytes.
\<close>

section \<open>Strings\<close>

fun strcpy :: "u8 list \<Rightarrow> u8 list" where
  "strcpy [] = [0]"
| "strcpy (t # ts) = t # strcpy ts"

fun strcmp :: "u8 list \<Rightarrow> u8 list \<Rightarrow> int" where
  "strcmp [] [] = 0"
| "strcmp [] (q # qs) = 0 - uint q"
| "strcmp (p # ps) [] = uint p"
| "strcmp (p # ps) (q # qs) = (if p = q then strcmp ps qs else uint p - uint q)"

text \<open>The position of the first \<open>c\<close>, or \<open>None\<close> for the null pointer.\<close>

fun strchr :: "u8 list \<Rightarrow> u8 \<Rightarrow> nat option" where
  "strchr [] c = None"
| "strchr (s # ss) c = (if s = c then Some 0 else map_option Suc (strchr ss c))"

text \<open>
  \<open>inp\<close> is what standard input still has; \<open>read\<close> of one byte returns 0 at its end. The result is the
  buffer up to and including the NUL, and the rest of the input.
\<close>

fun gets_loop :: "nat \<Rightarrow> u8 list \<Rightarrow> u8 list \<times> u8 list" where
  "gets_loop 0 inp = ([], inp)"
| "gets_loop (Suc k) [] = ([], [])"
| "gets_loop (Suc k) (c # inp) =
     (if c = 10 \<or> c = 13 then ([c], inp)
      else let (b, rest) = gets_loop k inp in (c # b, rest))"

definition gets :: "int \<Rightarrow> u8 list \<Rightarrow> u8 list \<times> u8 list" where
  "gets mx inp = (let (b, rest) = gets_loop (nat (mx - 1)) inp in (b @ [0], rest))"

fun atoi_loop :: "int \<Rightarrow> u8 list \<Rightarrow> int" where
  "atoi_loop n [] = n"
| "atoi_loop n (s # ss) =
     (if 48 \<le> s \<and> s \<le> 57 then atoi_loop (wrap32 (wrap32 (wrap32 (n * 10) + uint s) - 48)) ss else n)"

definition atoi :: "u8 list \<Rightarrow> int" where
  "atoi s = atoi_loop 0 s"

fun memcmp :: "nat \<Rightarrow> u8 list \<Rightarrow> u8 list \<Rightarrow> int" where
  "memcmp 0 p1 p2 = 0"
| "memcmp (Suc n) (a # p1) (b # p2) = (if a \<noteq> b then uint a - uint b else memcmp n p1 p2)"
| "memcmp (Suc n) _ _ = 0"

section \<open>Formatted output\<close>

definition digits :: "u8 list" where
  "digits = map (\<lambda>c. of_nat (of_char c)) ''0123456789ABCDEF''"

text \<open>The do-while loop: digits of \<open>x\<close>, least significant first. Callers pass 10 and 16.\<close>

function digit_loop :: "nat \<Rightarrow> nat \<Rightarrow> u8 list" where
  "digit_loop b x =
     (if b < 2 then [] else digits ! (x mod b) # (if x div b \<noteq> 0 then digit_loop b (x div b) else []))"
  by pat_completeness auto
termination
  by (relation "measure snd") (auto simp: div_greater_zero_iff intro: div_less_dividend)

declare digit_loop.simps [simp del]

definition printint :: "u32 \<Rightarrow> nat \<Rightarrow> bool \<Rightarrow> u8 list" where
  "printint xx b sg =
     (let neg = (sg \<and> sint xx < 0);
          x = (if neg then - xx else xx);
          buf = digit_loop b (unat x)
      in rev (if neg then buf @ [45] else buf))"

primrec ptr_loop :: "nat \<Rightarrow> u64 \<Rightarrow> u8 list" where
  "ptr_loop 0 x = []"
| "ptr_loop (Suc n) x = digits ! unat (drop_bit 60 x) # ptr_loop n (push_bit 4 x)"

definition printptr :: "u64 \<Rightarrow> u8 list" where
  "printptr x = 48 # 120 # ptr_loop 16 x"

datatype varg = VInt u32 | VLong u64 | VPtr u64 | VStr "u8 list option"

text \<open>
  The loop over the format with its two states. An argument that is missing or of another type than
  the conversion asks for is undefined behaviour.
\<close>

fun vprintf_loop :: "bool \<Rightarrow> u8 list \<Rightarrow> varg list \<Rightarrow> u8 list res" where
  "vprintf_loop pct [] ap = Ok []"
| "vprintf_loop False (c # fmt) ap =
     (if c = 37 then vprintf_loop True fmt ap
      else bnd (vprintf_loop False fmt ap) (\<lambda>out. Ok (c # out)))"
| "vprintf_loop True (c # fmt) ap =
     (if c = 100 then (case ap of VInt x # ap' \<Rightarrow> bnd (vprintf_loop False fmt ap') (\<lambda>out. Ok (printint x 10 True @ out))
                       | _ \<Rightarrow> Err (Undef ''va_arg''))
      else if c = 108 then (case ap of VLong x # ap' \<Rightarrow> bnd (vprintf_loop False fmt ap') (\<lambda>out. Ok (printint (ucast x) 10 False @ out))
                       | _ \<Rightarrow> Err (Undef ''va_arg''))
      else if c = 120 then (case ap of VInt x # ap' \<Rightarrow> bnd (vprintf_loop False fmt ap') (\<lambda>out. Ok (printint x 16 False @ out))
                       | _ \<Rightarrow> Err (Undef ''va_arg''))
      else if c = 112 then (case ap of VPtr x # ap' \<Rightarrow> bnd (vprintf_loop False fmt ap') (\<lambda>out. Ok (printptr x @ out))
                       | _ \<Rightarrow> Err (Undef ''va_arg''))
      else if c = 115 then (case ap of VStr s # ap' \<Rightarrow> bnd (vprintf_loop False fmt ap')
                         (\<lambda>out. Ok ((case s of None \<Rightarrow> [40, 110, 117, 108, 108, 41] | Some cs \<Rightarrow> cs) @ out))
                       | _ \<Rightarrow> Err (Undef ''va_arg''))
      else if c = 99 then (case ap of VInt x # ap' \<Rightarrow> bnd (vprintf_loop False fmt ap') (\<lambda>out. Ok (ucast x # out))
                       | _ \<Rightarrow> Err (Undef ''va_arg''))
      else if c = 37 then bnd (vprintf_loop False fmt ap) (\<lambda>out. Ok (c # out))
      else bnd (vprintf_loop False fmt ap) (\<lambda>out. Ok (37 # c # out)))"

definition vprintf :: "u8 list \<Rightarrow> varg list \<Rightarrow> u8 list res" where
  "vprintf fmt ap = vprintf_loop False fmt ap"

section \<open>Comparison is a linear order\<close>

definition byte_less :: "(u8 \<times> u8) set" where
  "byte_less = {(a, b). a < b}"

lemma uint_bytes: "uint (a :: u8) < uint b \<longleftrightarrow> a < b" "uint (a :: u8) = uint b \<longleftrightarrow> a = b"
  by (simp_all add: word_less_def word_uint_eq_iff)

text \<open>\<open>strcmp\<close> is zero exactly on equal strings, changes sign when its arguments are swapped and
  is negative exactly when the first string comes before the second in the dictionary order of
  bytes.\<close>

theorem strcmp_order:
  assumes "0 \<notin> set p" and "0 \<notin> set q"
  shows "(strcmp p q = 0 \<longleftrightarrow> p = q) \<and> strcmp q p = - strcmp p q \<and> (strcmp p q < 0 \<longleftrightarrow> (p, q) \<in> lexord byte_less)"
  using assms
proof (induction p q rule: strcmp.induct)
  case (2 q qs)
  then have "0 < uint q" using uint_bytes(1) [of 0 q] by (simp add: word_neq_0_conv [symmetric])
  then show ?case by simp
next
  case (3 p ps)
  then have "0 < uint p" using uint_bytes(1) [of 0 p] by (simp add: word_neq_0_conv [symmetric])
  then show ?case by simp
next
  case (4 p ps q qs)
  then show ?case using uint_bytes [of p q] by (cases "p = q") (auto simp: byte_less_def)
qed simp

theorem strcmp_order_witness: "strcmp [97, 98] [97, 99] < 0"
proof -
  have "([97, 98], [97, 99]) \<in> lexord byte_less" by (simp add: byte_less_def)
  then show ?thesis using strcmp_order [of "[97, 98]" "[97, 99]"] by simp
qed

section \<open>Printing and reading numbers\<close>

lemma digit_value: "d < 10 \<Longrightarrow> digits ! d = of_nat (48 + d)"
  by (simp add: digits_def numeral_eq_Suc less_Suc_eq) auto

lemma digit_byte:
  assumes "d < 10"
  shows "48 \<le> digits ! d" "digits ! d \<le> 57" "uint (digits ! d) = 48 + int d"
proof -
  have "uint (digits ! d) = 48 + int d"
    unfolding digit_value [OF assms] unsigned_of_nat using assms by (simp add: take_bit_nat_eq_self)
  then show "uint (digits ! d) = 48 + int d" "48 \<le> digits ! d" "digits ! d \<le> 57"
    using assms by (simp_all add: word_le_def)
qed

lemma atoi_loop_digit:
  assumes "0 \<le> n" "n * 10 + int d < 2 ^ 31" "d < 10"
  shows "atoi_loop n (digits ! d # ss) = atoi_loop (n * 10 + int d) ss"
proof -
  have "wrap32 (n * 10) = n * 10" using assms by (intro wrap32_id) auto
  moreover have "wrap32 (wrap32 (n * 10 + (48 + int d)) - 48) = n * 10 + int d"
  proof -
    have "wrap32 (wrap32 x - 48) = wrap32 (x - 48)" for x
      using signed_take_bit_diff [of 31 x 48] by (simp add: wrap32_def)
    then show ?thesis using assms by (simp add: wrap32_id)
  qed
  ultimately show ?thesis using digit_byte [OF assms(3)] by simp
qed

lemma digit_loop_append:
  "x < 2 ^ 31 \<Longrightarrow> 0 \<le> n \<Longrightarrow> n * 10 ^ length (digit_loop 10 x) + int x < 2 ^ 31 \<Longrightarrow>
   atoi_loop n (rev (digit_loop 10 x) @ ss) = atoi_loop (n * 10 ^ length (digit_loop 10 x) + int x) ss"
proof (induction x arbitrary: n ss rule: less_induct)
  case (less x)
  show ?case
  proof (cases "x div 10 = 0")
    case True
    then have d: "x < 10" "digit_loop 10 x = [digits ! x]" by (auto, subst digit_loop.simps, auto)
    then show ?thesis using less.prems atoi_loop_digit [of n x ss] by simp
  next
    case False
    let ?q = "x div 10" and ?r = "x mod 10"
    have d: "digit_loop 10 x = digits ! ?r # digit_loop 10 ?q" using False by (subst digit_loop.simps) simp
    let ?m = "n * 10 ^ length (digit_loop 10 ?q) + int ?q"
    have x: "int x = 10 * int ?q + int ?r" by presburger
    have e: "n * 10 ^ length (digit_loop 10 x) + int x = ?m * 10 + int ?r" using x by (simp add: d algebra_simps)
    have m: "0 \<le> ?m" "?m * 10 + int ?r < 2 ^ 31" using less.prems e by simp_all
    have "?q < x" using False by simp
    then have "atoi_loop n (rev (digit_loop 10 ?q) @ digits ! ?r # ss) = atoi_loop ?m (digits ! ?r # ss)"
      using less.prems m by (intro less.IH) simp_all
    also have "\<dots> = atoi_loop (?m * 10 + int ?r) ss" using m by (intro atoi_loop_digit) simp_all
    finally show ?thesis unfolding e by (simp add: d)
  qed
qed

text \<open>\<open>atoi\<close> reads back what \<open>printf("%d")\<close> prints for every number that is not negative.\<close>

theorem atoi_printint:
  assumes "0 \<le> sint (x :: u32)"
  shows "atoi (printint x 10 True) = sint x"
proof -
  have s: "sint x = int (unat x)"
    using assms unsigned_less [of x, where ?'a = int] by (auto simp: sint_u32 split: if_splits)
  have "unat x < 2 ^ 31"
    using assms unsigned_less [of x, where ?'a = int] by (auto simp: sint_u32 split: if_splits)
  then have "atoi_loop 0 (rev (digit_loop 10 (unat x)) @ []) = atoi_loop (int (unat x)) []"
    using s sint_less [of x] by (subst digit_loop_append) simp_all
  then show ?thesis using assms s by (simp add: atoi_def printint_def Let_def)
qed

theorem atoi_printint_witness: "atoi (printint 1729 10 True) = 1729"
  using atoi_printint [of 1729] by simp

end
