(* ===== verification/Shrun.thy ===== *)
theory Shrun
  imports Shparse Ulib Riscv
begin

text \<open>
  Running commands, user/sh.c. A user program is the tree of its system calls: each branches on what the call returns. What
  is printed with \<open>fprintf\<close> is one write.
\<close>

section \<open>Programs\<close>

datatype uprog =
    Exit int
  | Fork "int \<Rightarrow> uprog"                     \<comment> \<open>0 in the child, the process id or -1 in the parent\<close>
  | Wait uprog
  | Exec string "string list" uprog          \<comment> \<open>goes on only if it fails\<close>
  | Open string u32 "int \<Rightarrow> uprog"
  | Close int uprog
  | Dup int uprog
  | Pipe "(int \<times> int) option \<Rightarrow> uprog"
  | Write int string uprog
  | Chdir string "int \<Rightarrow> uprog"

definition nl :: string where "nl = [CHR 0x0A]"

definition sh_panic :: "string \<Rightarrow> uprog" where
  "sh_panic s = Write 2 (s @ nl) (Exit 1)"

definition fork1 :: "(int \<Rightarrow> uprog) \<Rightarrow> uprog" where
  "fork1 k = Fork (\<lambda>pid. if pid = -1 then sh_panic ''fork'' else k pid)"

primrec runcmd :: "string \<Rightarrow> cmd \<Rightarrow> uprog" where
  "runcmd buf (EXEC args) =
     (let argv = map (\<lambda>(q, e). str_at buf q) args
      in if argv = [] then Exit 1
         else Exec (hd argv) argv (Write 2 (''exec '' @ hd argv @ '' failed'' @ nl) (Exit 0)))"
| "runcmd buf (REDIR c q e mode fd) =
     Close fd (Open (str_at buf q) mode (\<lambda>r.
       if r < 0 then Write 2 (''open '' @ str_at buf q @ '' failed'' @ nl) (Exit 1) else runcmd buf c))"
| "runcmd buf (LIST l r) = fork1 (\<lambda>pid. if pid = 0 then runcmd buf l else Wait (runcmd buf r))"
| "runcmd buf (PIPE l r) =
     Pipe (\<lambda>p. case p of None \<Rightarrow> sh_panic ''pipe''
       | Some (p0, p1) \<Rightarrow>
         fork1 (\<lambda>pid. if pid = 0 then Close 1 (Dup p1 (Close p0 (Close p1 (runcmd buf l))))
         else fork1 (\<lambda>pid. if pid = 0 then Close 0 (Dup p0 (Close p0 (Close p1 (runcmd buf r))))
         else Close p0 (Close p1 (Wait (Wait (Exit 0)))))))"
| "runcmd buf (BACK c) = fork1 (\<lambda>pid. if pid = 0 then runcmd buf c else Exit 0)"

section \<open>The loop\<close>

text \<open>
  \<open>inp\<close> is what standard input still has. \<open>getcmd\<close> returns the line up to its NUL, or \<open>None\<close> at the end of the input, and the rest.
\<close>

definition getcmd :: "int \<Rightarrow> u8 list \<Rightarrow> string option \<times> u8 list" where
  "getcmd nbuf inp =
     (let (bs, rest) = gets nbuf inp; line = takeWhile (\<lambda>c. c \<noteq> NUL) (map (\<lambda>b. char_of (unat b)) bs)
      in (if line = [] then None else Some line, rest))"

lemma gets_length: "gets_loop k inp = (b, rest) \<Longrightarrow> length b + length rest = length inp"
  by (induction k inp arbitrary: b rest rule: gets_loop.induct) (auto split: if_splits prod.splits)

lemma getcmd_shorter: "getcmd nbuf inp = (Some line, rest) \<Longrightarrow> length rest < length inp"
proof -
  assume g: "getcmd nbuf inp = (Some line, rest)"
  obtain b r where l: "gets_loop (nat (nbuf - 1)) inp = (b, r)" by fastforce
  have "rest = r" "b \<noteq> []" using g l by (auto simp: getcmd_def gets_def Let_def NUL_def char_of_def split: if_splits)
  then show ?thesis using gets_length [OF l] by (cases b) auto
qed

text \<open>
  The commands of the input, one after the other. A line that begins with \<open>cd\<close> is run by
  the shell itself. A syntax error of the child is a panic.
\<close>

function sh_loop :: "u8 list \<Rightarrow> uprog" where
  "sh_loop inp =
     Write 2 ''$ '' (case getcmd 100 inp of
       (None, _) \<Rightarrow> Exit 0
     | (Some line, rest) \<Rightarrow>
       if take 3 line = ''cd '' then
         Chdir (drop 3 (butlast line)) (\<lambda>r.
           if r < 0 then Write 2 (''cannot cd '' @ drop 3 (butlast line) @ nl) (sh_loop rest) else sh_loop rest)
       else fork1 (\<lambda>pid. if pid = 0 then (case parsecmd line of Ok (c, buf) \<Rightarrow> runcmd buf c | Err (Panic m) \<Rightarrow> sh_panic m | Err _ \<Rightarrow> Exit 1)
         else Wait (sh_loop rest)))"
  by pat_completeness auto
termination
  by (relation "measure length") (auto dest: getcmd_shorter [OF sym])

declare sh_loop.simps [simp del]

text \<open>
  The loop that opens the console until three descriptors are open. It takes fuel; four rounds are enough (\<open>sh_main_opens\<close>),
  since descriptors are given out from the lowest.
\<close>

primrec console_loop :: "nat \<Rightarrow> uprog \<Rightarrow> uprog" where
  "console_loop 0 k = Exit 1"
| "console_loop (Suc n) k =
     Open ''console'' O_RDWR (\<lambda>fd. if fd \<ge> 0 then if fd \<ge> 3 then Close fd k else console_loop n k else k)"

definition sh_main :: "u8 list \<Rightarrow> uprog" where
  "sh_main inp = console_loop 4 (sh_loop inp)"

section \<open>Running a program when all calls succeed\<close>

text \<open>
  What a descriptor refers to. A pipe is named by the place in the tree of processes where it was made. Descriptors are
  given out as \<open>fdalloc\<close> of the kernel does: the lowest that is free.
\<close>

datatype obj = Tty | FileObj string u32 | PipeR "nat list" | PipeW "nat list"

type_synonym fdtable = "nat \<Rightarrow> obj option"

type_synonym launch = "string \<times> string list \<times> fdtable"

definition lowest :: "fdtable \<Rightarrow> nat option" where
  "lowest F = find (\<lambda>i. F i = None) [0..<NOFILE]"

definition install :: "obj option \<Rightarrow> fdtable \<Rightarrow> (int \<times> fdtable)" where
  "install x F = (case lowest F of None \<Rightarrow> (-1, F) | Some i \<Rightarrow> (int i, F(i := x)))"

text \<open>The programs that are started, with their arguments and descriptors.\<close>

primrec execute :: "uprog \<Rightarrow> fdtable \<Rightarrow> nat list \<Rightarrow> launch list" where
  "execute (Exit n) = (\<lambda>F ns. [])"
| "execute (Fork k) = (\<lambda>F ns. execute (k 0) F (0 # ns) @ execute (k 1) F (1 # ns))"
| "execute (Wait p) = (\<lambda>F ns. execute p F ns)"
| "execute (Exec prg argv p) = (\<lambda>F ns. [(prg, argv, F)])"
| "execute (Open f mode k) = (\<lambda>F ns. let (fd, F') = install (Some (FileObj f mode)) F in execute (k fd) F' ns)"
| "execute (Close fd p) = (\<lambda>F ns. execute p (F(nat fd := None)) ns)"
| "execute (Dup fd p) = (\<lambda>F ns. execute p (snd (install (F (nat fd)) F)) ns)"
| "execute (Pipe k) = (\<lambda>F ns.
     let (p0, F1) = install (Some (PipeR ns)) F; (p1, F2) = install (Some (PipeW ns)) F1
     in if p0 < 0 \<or> p1 < 0 then execute (k None) F (2 # ns) else execute (k (Some (p0, p1))) F2 (2 # ns))"
| "execute (Write fd s p) = (\<lambda>F ns. execute p F ns)"
| "execute (Chdir d k) = (\<lambda>F ns. execute (k 0) F ns)"

text \<open>What a command asks for: a redirection replaces one descriptor, a pipe connects output and input.\<close>

primrec asked :: "acmd \<Rightarrow> fdtable \<Rightarrow> nat list \<Rightarrow> launch list" where
  "asked (AExec ws) = (\<lambda>F ns. if ws = [] then [] else [(hd ws, ws, F)])"
| "asked (ARedir c r w) = (\<lambda>F ns. asked c (F(nat (redir_fd r) := Some (FileObj w (redir_mode r)))) ns)"
| "asked (APipe l r) = (\<lambda>F ns. asked l (F(1 := Some (PipeW ns))) (0 # 2 # ns) @ asked r (F(0 := Some (PipeR ns))) (0 # 1 # 2 # ns))"
| "asked (AList l r) = (\<lambda>F ns. asked l F (0 # ns) @ asked r F (1 # ns))"
| "asked (ABack c) = (\<lambda>F ns. asked c F (0 # ns))"

text \<open>Standard input and output are open and two more descriptors are free.\<close>

definition std_open :: "fdtable \<Rightarrow> bool" where
  "std_open F \<longleftrightarrow> F 0 \<noteq> None \<and> F 1 \<noteq> None \<and> (\<exists>i j. i < j \<and> j < NOFILE \<and> F i = None \<and> F j = None)"

lemma lowest_cases: "lowest F = Some i \<longleftrightarrow> i < NOFILE \<and> F i = None \<and> (\<forall>j<i. F j \<noteq> None)"
  by (auto simp: lowest_def find_Some_iff)

lemma lowest_small: "F 0 = None \<Longrightarrow> lowest F = Some 0" "F 0 \<noteq> None \<Longrightarrow> F 1 = None \<Longrightarrow> lowest F = Some 1"
  by (simp_all add: lowest_cases NOFILE_def less_Suc_eq)

lemma lowest_free: "F i = None \<Longrightarrow> i < NOFILE \<Longrightarrow> \<exists>j\<le>i. lowest F = Some j"
proof -
  assume "F i = None" "i < NOFILE"
  then have "lowest F \<noteq> None" by (auto simp: lowest_def find_None_iff)
  then obtain j where j: "lowest F = Some j" by blast
  then have "\<not> i < j" using \<open>F i = None\<close> by (auto simp: lowest_cases)
  then show ?thesis using j by auto
qed

lemma std_open_upd: "std_open F \<Longrightarrow> i < 2 \<Longrightarrow> std_open (F(i := Some x))"
proof -
  assume F: "std_open F" and i: "i < 2"
  obtain j k where "j < k" "k < NOFILE" "F j = None" "F k = None" using F by (auto simp: std_open_def)
  moreover have "F i \<noteq> None" using F i by (auto simp: std_open_def less_2_cases_iff)
  ultimately have "(F(i := Some x)) j = None" "(F(i := Some x)) k = None" by auto
  then show ?thesis using F \<open>j < k\<close> \<open>k < NOFILE\<close> unfolding std_open_def by (metis fun_upd_apply option.discI)
qed

definition opened :: "fdtable \<Rightarrow> nat \<Rightarrow> fdtable" where
  "opened F j = (\<lambda>i. if i < j \<and> F i = None then Some (FileObj ''console'' O_RDWR) else F i)"

lemma console_loop_opens: "(\<forall>i<j. F i \<noteq> None) \<Longrightarrow> j \<le> 3 \<Longrightarrow> n + j = 4 \<Longrightarrow> execute (console_loop n k) F ns = execute k (opened F 3) ns"
proof (induction n arbitrary: F j)
  case (Suc n)
  show ?case
  proof (cases "lowest F")
    case None
    then have "F i \<noteq> None" if "i < 3" for i using that by (auto simp: lowest_def find_None_iff NOFILE_def)
    then have "opened F 3 = F" by (auto simp: opened_def fun_eq_iff)
    then show ?thesis using None by (simp add: install_def)
  next
    case (Some i)
    then have i: "i < NOFILE" "F i = None" "\<forall>j<i. F j \<noteq> None" by (simp_all add: lowest_cases)
    show ?thesis
    proof (cases "i < 3")
      case True
      let ?F = "F(i := Some (FileObj ''console'' O_RDWR))"
      have "j \<le> i" using Suc.prems(1) i(2) by (meson not_le)
      then have "\<forall>l<Suc j. ?F l \<noteq> None" "Suc j \<le> 3" "n + Suc j = 4" using Suc.prems i True by (auto simp: less_Suc_eq)
      then have "execute (console_loop n k) ?F ns = execute k (opened ?F 3) ns" by (rule Suc.IH)
      moreover have "opened ?F 3 = opened F 3" using True i by (auto simp: opened_def fun_eq_iff)
      ultimately show ?thesis using Some True by (simp add: install_def)
    next
      case False
      then have "opened F 3 = F" using i by (auto simp: opened_def fun_eq_iff)
      moreover have "F(i := None) = F" using i(2) by (simp add: fun_eq_iff)
      ultimately show ?thesis using Some False by (simp add: install_def)
    qed
  qed
qed simp

text \<open>Whatever descriptors the shell is started with, its commands are read with the first three open.\<close>

lemma sh_main_opens: "execute (sh_main inp) F ns = execute (sh_loop inp) (opened F 3) ns"
  unfolding sh_main_def by (rule console_loop_opens [of 0]) auto

text \<open>The two descriptors of a new pipe.\<close>

lemma install_pipe:
  assumes "std_open F"
  obtains p0 p1 where "install a F = (int p0, F(p0 := a))" "install b (F(p0 := Some a')) = (int p1, F(p0 := Some a', p1 := b))"
    "1 < p0" "1 < p1" "p0 \<noteq> p1" "F p0 = None" "F p1 = None"
proof -
  obtain i j where ij: "i < j" "j < NOFILE" "F i = None" "F j = None" using assms by (auto simp: std_open_def)
  obtain p0 where p0: "lowest F = Some p0" "p0 \<le> i" using lowest_free [of F i] ij by auto
  have "(F(p0 := Some a')) j = None" using ij p0 by auto
  then obtain p1 where p1: "lowest (F(p0 := Some a')) = Some p1" using lowest_free [of "F(p0 := Some a')" j] ij(2) by blast
  have f: "F p0 = None" "F p1 = None" "p0 \<noteq> p1" using p0(1) p1 by (auto simp: lowest_cases split: if_splits)
  moreover have "1 < p0" "1 < p1" using f assms by (auto simp: std_open_def intro!: Suc_lessI gr0I)
  ultimately show ?thesis using p0(1) p1 by (intro that [of p0 p1]) (simp_all add: install_def)
qed

lemma close_pipe: "F p0 = None \<Longrightarrow> F p1 = None \<Longrightarrow> p0 \<noteq> i \<Longrightarrow> p1 \<noteq> i \<Longrightarrow> F(p0 := a, p1 := b, i := x, p0 := None, p1 := None) = F(i := x)"
  by (rule ext) (simp add: fun_upd_apply)

lemma execute_asked: "denotes buf c a \<Longrightarrow> std_open F \<Longrightarrow> execute (runcmd buf c) F ns = asked a F ns"
proof (induction buf c a arbitrary: F ns rule: denotes.induct)
  case (1 buf args ws)
  then show ?case by (cases args) (auto simp: Let_def)
next
  case (2 buf c q e mode fd a r w)
  have "lowest (F(nat fd := None)) = Some (nat fd)"
    using 2(2,3) lowest_small [of "F(nat fd := None)"] by (cases r) (auto simp: std_open_def)
  then have "install (Some (FileObj w mode)) (F(nat fd := None)) = (int (nat fd), F(nat fd := Some (FileObj w mode)))" by (simp add: install_def)
  moreover have "std_open (F(nat fd := Some (FileObj w mode)))" by (rule std_open_upd [OF 2(3)]) (use 2(2) in \<open>cases r; simp\<close>)
  ultimately show ?case using 2 by simp
next
  case (3 buf l r al ar)
  obtain p0 p1 where p: "install (Some (PipeR ns)) F = (int p0, F(p0 := Some (PipeR ns)))"
      "install (Some (PipeW ns)) (F(p0 := Some (PipeR ns))) = (int p1, F(p0 := Some (PipeR ns), p1 := Some (PipeW ns)))"
    and n: "1 < p0" "1 < p1" "p0 \<noteq> p1" "F p0 = None" "F p1 = None"
    by (rule install_pipe [OF 3(4)])
  let ?F = "F(p0 := Some (PipeR ns), p1 := Some (PipeW ns))"
  have "F 0 \<noteq> None" using 3(4) by (simp add: std_open_def)
  then have lo: "lowest (?F(1 := None)) = Some 1" "lowest (?F(0 := None)) = Some 0" using n lowest_small by simp_all
  have cl: "(?F(1 := x))(p0 := None, p1 := None) = F(1 := x)" "(?F(0 := x))(p0 := None, p1 := None) = F(0 := x)" for x by (rule close_pipe; use n in simp)+
  have "std_open (F(1 := Some (PipeW ns)))" "std_open (F(0 := Some (PipeR ns)))" using std_open_upd [OF 3(4)] by simp_all
  moreover have "install (Some x) (?F(1 := None)) = (1, ?F(1 := Some x))" "install (Some x) (?F(0 := None)) = (0, ?F(0 := Some x))" for x
    using lo by (simp_all add: install_def)
  ultimately show ?case using 3(1-3) n cl by (simp add: p fork1_def)
qed (auto simp: fork1_def)

text \<open>C7: When the system calls succeed, the shell starts exactly the programs a command line asks for, with their arguments, and each with the
  right descriptors: those of the shell, changed by the redirections around it and by the pipe it is a part of;
  no end of a pipe stays open in a program that does not use it.\<close>

theorem shell_runs:
  assumes "writable a" and "std_open F"
  shows "\<exists>c buf. parsecmd (unparse 0 a) = Ok (c, buf) \<and> execute (runcmd buf c) F ns = asked a F ns"
proof -
  have "\<exists>c buf. parsecmd (unparse 0 a) = Ok (c, buf) \<and> denotes buf c a" by (rule parse_denotes [OF assms(1)])
  then show ?thesis using execute_asked [OF _ assms(2)] by blast
qed

lemma shell_runs_witness:
  "\<exists>c buf. parsecmd ''a | b > f '' = Ok (c, buf) \<and> execute (runcmd buf c) ((\<lambda>_. None)(0 := Some Tty, 1 := Some Tty)) [] =
    [(''a'', [''a''], (\<lambda>_. None)(0 := Some Tty, 1 := Some (PipeW []))),
     (''b'', [''b''], (\<lambda>_. None)(0 := Some (PipeR []), 1 := Some (FileObj ''f'' 0x601)))]"
proof -
  let ?a = "APipe (AExec [''a'']) (ARedir (AExec [''b'']) Out ''f'')"
  have w: "writable ?a" by (simp add: is_word_def word_char_def whitespace_def symbols_def NUL_def MAXARGS_def)
  have o: "std_open ((\<lambda>_. None)(0 := Some Tty, 1 := Some Tty))" 
    unfolding std_open_def by (rule conjI, simp, rule conjI, simp, rule exI [of _ 2], rule exI [of _ 3]) (simp add: NOFILE_def)
  have u: "unparse 0 ?a = ''a | b > f ''" by (simp add: paren_def)
  have "asked ?a ((\<lambda>_. None)(0 := Some Tty, 1 := Some Tty)) [] =
    [(''a'', [''a''], (\<lambda>_. None)(0 := Some Tty, 1 := Some (PipeW []))), (''b'', [''b''], (\<lambda>_. None)(0 := Some (PipeR []), 1 := Some (FileObj ''f'' 0x601)))]"
    by (simp add: O_WRONLY_def O_CREATE_def O_TRUNC_def)
  then show ?thesis using shell_runs [OF w o, of "[]"] unfolding u by simp
qed

end
