(* ===== verification/Umalloc.thy ===== *)
theory Umalloc
  imports Prelude
begin

text \<open>
  The allocator of user programs, user/umalloc.c. A header is 16 bytes; its address is a natural number, 0 the null pointer, and its
  fields are those of \<open>union header\<close>. The search loops take fuel, the number of headers they may visit. What
  \<open>sbrk\<close> returns is the parameter \<open>sb\<close>, with \<open>None\<close> for -1.
\<close>

section \<open>The code\<close>

record ustate =
  h_ptr :: "nat \<Rightarrow> nat"
  h_size :: "nat \<Rightarrow> nat"
  freep :: nat

text \<open>The address of the static header \<open>base\<close>.\<close>

definition set_ptr :: "nat \<Rightarrow> nat \<Rightarrow> ustate \<Rightarrow> ustate" where
  "set_ptr a v s = s\<lparr>h_ptr := (h_ptr s)(a := v)\<rparr>"

definition set_size :: "nat \<Rightarrow> nat \<Rightarrow> ustate \<Rightarrow> ustate" where
  "set_size a v s = s\<lparr>h_size := (h_size s)(a := v mod 2 ^ 32)\<rparr>"

definition free_stops :: "nat \<Rightarrow> nat \<Rightarrow> ustate \<Rightarrow> bool" where
  "free_stops bp p s \<longleftrightarrow> bp > p \<and> bp < h_ptr s p \<or> p \<ge> h_ptr s p \<and> (bp > p \<or> bp < h_ptr s p)"

primrec free_search :: "nat \<Rightarrow> nat \<Rightarrow> nat \<Rightarrow> ustate \<Rightarrow> nat option" where
  "free_search 0 bp p s = None"
| "free_search (Suc n) bp p s = (if free_stops bp p s then Some p else free_search n bp (h_ptr s p) s)"

definition join_next :: "nat \<Rightarrow> nat \<Rightarrow> ustate \<Rightarrow> ustate" where
  "join_next bp p s =
     (if bp + 16 * h_size s bp = h_ptr s p
      then let s1 = set_size bp (h_size s bp + h_size s (h_ptr s p)) s in set_ptr bp (h_ptr s1 (h_ptr s1 p)) s1
      else set_ptr bp (h_ptr s p) s)"

definition join_prev :: "nat \<Rightarrow> nat \<Rightarrow> ustate \<Rightarrow> ustate" where
  "join_prev bp p s =
     (if p + 16 * h_size s p = bp
      then let s1 = set_size p (h_size s p + h_size s bp) s in set_ptr p (h_ptr s1 bp) s1
      else set_ptr p bp s)"

definition free :: "nat \<Rightarrow> nat \<Rightarrow> ustate \<Rightarrow> ustate option" where
  "free n ap s =
     (let bp = ap - 16
      in case free_search n bp (freep s) s of None \<Rightarrow> None
         | Some p \<Rightarrow> Some ((join_prev bp p (join_next bp p s))\<lparr>freep := p\<rparr>))"

text \<open>The argument of \<open>sbrk\<close> is an \<open>int\<close>. The null pointer is \<open>Some (0, _)\<close>, too little fuel \<open>None\<close>.\<close>

definition morecore :: "nat \<Rightarrow> (int \<Rightarrow> nat option) \<Rightarrow> nat \<Rightarrow> ustate \<Rightarrow> (nat \<times> ustate) option" where
  "morecore n sb nu s =
     (let nu = (if nu < 4096 then 4096 else nu)
      in case sb (wrap32 (int (nu * 16))) of None \<Rightarrow> Some (0, s)
         | Some hp \<Rightarrow> (case free n (hp + 16) (set_size hp nu s) of None \<Rightarrow> None
             | Some s1 \<Rightarrow> Some (freep s1, s1)))"

definition carve :: "nat \<Rightarrow> nat \<Rightarrow> nat \<Rightarrow> ustate \<Rightarrow> nat \<times> ustate" where
  "carve nunits prevp p s =
     (let (p', s1) = (if h_size s p = nunits then (p, set_ptr prevp (h_ptr s p) s)
            else let s1 = set_size p (h_size s p - nunits) s; p' = p + 16 * h_size s1 p in (p', set_size p' nunits s1))
      in (p' + 16, s1\<lparr>freep := prevp\<rparr>))"

primrec malloc_loop :: "nat \<Rightarrow> (int \<Rightarrow> nat option) \<Rightarrow> nat \<Rightarrow> nat \<Rightarrow> nat \<Rightarrow> ustate \<Rightarrow> (nat \<times> ustate) option" where
  "malloc_loop 0 sb nunits prevp p s = None"
| "malloc_loop (Suc n) sb nunits prevp p s =
     (if h_size s p \<ge> nunits then Some (carve nunits prevp p s)
      else if p = freep s then
        (case morecore n sb nunits s of None \<Rightarrow> None
         | Some (p', s1) \<Rightarrow> if p' = 0 then Some (0, s1) else malloc_loop n sb nunits p' (h_ptr s1 p') s1)
      else malloc_loop n sb nunits p (h_ptr s p) s)"

definition units_for :: "nat \<Rightarrow> nat" where
  "units_for nbytes = (nbytes + 16 - 1) div 16 + 1"

definition malloc :: "nat \<Rightarrow> nat \<Rightarrow> (int \<Rightarrow> nat option) \<Rightarrow> nat \<Rightarrow> ustate \<Rightarrow> (nat \<times> ustate) option" where
  "malloc base n sb nbytes s =
     (let nunits = units_for nbytes;
          s1 = (if freep s = 0 then set_size base 0 (set_ptr base base (s\<lparr>freep := base\<rparr>)) else s)
      in malloc_loop n sb nunits (freep s1) (h_ptr s1 (freep s1)) s1)"

section \<open>The ring of free blocks\<close>

text \<open>The headers of the free list in the order of their addresses, linked up to \<open>z\<close>, the blocks not overlapping and below \<open>hi\<close>.\<close>

fun links :: "ustate \<Rightarrow> nat list \<Rightarrow> nat \<Rightarrow> bool" where
  "links s [] z \<longleftrightarrow> True"
| "links s (x # xs) z \<longleftrightarrow> h_ptr s x = hd (xs @ [z]) \<and> links s xs z"

fun laid :: "ustate \<Rightarrow> nat list \<Rightarrow> nat \<Rightarrow> bool" where
  "laid s [] hi \<longleftrightarrow> True"
| "laid s (x # xs) hi \<longleftrightarrow> x < hd (xs @ [hi]) \<and> x + 16 * h_size s x \<le> hd (xs @ [hi]) \<and> laid s xs hi"

definition heap :: "nat \<Rightarrow> ustate \<Rightarrow> nat list \<Rightarrow> nat \<Rightarrow> bool" where
  "heap base s xs hi \<longleftrightarrow> links s (base # xs) base \<and> laid s (base # xs) hi \<and> h_size s base = 0 \<and> 0 < base \<and>
     (\<forall>x\<in>set xs. 0 < h_size s x) \<and> freep s \<in> set (base # xs) \<and> hi \<le> 2 ^ 36"

definition block :: "ustate \<Rightarrow> nat \<Rightarrow> nat set" where
  "block s x = {x..<x + 16 * h_size s x}"

definition space :: "ustate \<Rightarrow> nat list \<Rightarrow> nat set" where
  "space s xs = (\<Union>x\<in>set xs. block s x)"

lemma links_append [simp]: "links s (xs @ ys) z \<longleftrightarrow> links s xs (hd (ys @ [z])) \<and> links s ys z"
  by (induction xs) (auto simp: hd_append)

lemma laid_append [simp]: "laid s (xs @ ys) hi \<longleftrightarrow> laid s xs (hd (ys @ [hi])) \<and> laid s ys hi"
  by (induction xs) (auto simp: hd_append)

lemma laid_less: "laid s (x # xs) hi \<Longrightarrow> y \<in> set xs \<Longrightarrow> x < y \<and> x + 16 * h_size s x \<le> y"
proof (induction xs arbitrary: x)
  case (Cons z xs)
  then show ?case using Cons.IH [of z] by fastforce
qed simp

lemma laid_bound: "laid s xs hi \<Longrightarrow> hd (xs @ [hi]) \<le> hi \<and> (\<forall>x\<in>set xs. x < hi \<and> x + 16 * h_size s x \<le> hi)"
proof (induction xs)
  case (Cons x xs)
  then have "hd (xs @ [hi]) \<le> hi" "\<forall>x\<in>set xs. x < hi \<and> x + 16 * h_size s x \<le> hi" by simp_all
  then show ?case using Cons.prems by auto
qed simp

lemma laid_distinct: "laid s xs hi \<Longrightarrow> distinct xs"
proof (induction xs)
  case (Cons x xs)
  then show ?case using laid_less [of s x xs hi x] by auto
qed simp

lemma laid_order: "laid s (C @ y # D) hi \<Longrightarrow> (\<forall>c\<in>set C. c < y) \<and> (\<forall>d\<in>set D. y < d)"
proof (induction C)
  case Nil
  then have "laid s (y # D) hi" by (simp only: append_Nil)
  then have "y < d" if "d \<in> set D" for d using laid_less [OF _ that] by blast
  then show ?case by simp
next
  case (Cons c C)
  then have l: "laid s (c # (C @ y # D)) hi" by (simp only: append_Cons)
  have "c < y" by (rule laid_less [OF l, THEN conjunct1]) simp
  moreover have "laid s (C @ y # D) hi" using l by (simp only: laid.simps)
  ultimately show ?case using Cons.IH by simp
qed

lemma links_cong: "(\<And>x. x \<in> set xs \<Longrightarrow> h_ptr s' x = h_ptr s x) \<Longrightarrow> links s' xs z = links s xs z"
  by (induction xs) auto

lemma laid_cong: "(\<And>x. x \<in> set xs \<Longrightarrow> h_size s' x = h_size s x) \<Longrightarrow> laid s' xs hi = laid s xs hi"
  by (induction xs) auto

lemma field_simps_u [simp]:
  "h_ptr (set_ptr a v s) = (h_ptr s)(a := v)" "h_size (set_ptr a v s) = h_size s" "freep (set_ptr a v s) = freep s"
  "h_ptr (set_size a v s) = h_ptr s" "h_size (set_size a v s) = (h_size s)(a := v mod 2 ^ 32)" "freep (set_size a v s) = freep s"
  by (simp_all add: set_ptr_def set_size_def)

lemma space_simps [simp]: "space s [] = {}" "space s (x # xs) = block s x \<union> space s xs" "space s (xs @ ys) = space s xs \<union> space s ys"
  by (auto simp: space_def)

lemma space_cong: "(\<And>x. x \<in> set xs \<Longrightarrow> h_size s' x = h_size s x) \<Longrightarrow> space s' xs = space s xs"
  by (simp add: space_def block_def)

lemma size_fits: "0 < a \<Longrightarrow> a + 16 * x + 16 * y \<le> hi \<Longrightarrow> hi \<le> 2 ^ 36 \<Longrightarrow> (x + y) mod 2 ^ 32 = (x + y :: nat)"
  by (intro mod_less) simp

lemma block_next [simp]: "block s base = {}" if "h_size s base = 0"
  using that by (simp add: block_def)

section \<open>Where a block belongs\<close>

lemma find_chain:
  "links s ys z \<Longrightarrow> ys \<noteq> [] \<Longrightarrow> \<exists>y\<in>set ys. free_stops bp y s \<Longrightarrow> length ys \<le> n \<Longrightarrow>
   free_search n bp (hd ys) s = find (\<lambda>y. free_stops bp y s) ys"
proof (induction ys arbitrary: n)
  case (Cons y ys)
  obtain k where n: "n = Suc k" using Cons.prems(4) by (cases n) auto
  show ?case
  proof (cases "free_stops bp y s")
    case False
    then have ne: "ys \<noteq> []" using Cons.prems(3) by auto
    then have "h_ptr s y = hd ys" using Cons.prems(1) by (cases ys) auto
    then show ?thesis using Cons.IH [of k] Cons.prems ne False n by auto
  qed (simp add: n)
qed simp

text \<open>The ring read from any of its headers.\<close>

lemma links_rotate: "links s (base # xs) base \<Longrightarrow> base # xs = A @ f # B \<Longrightarrow> links s (f # B @ A) f"
  by (cases A) (auto simp: hd_append)

definition place :: "nat \<Rightarrow> nat \<Rightarrow> nat list \<Rightarrow> nat list \<Rightarrow> nat \<Rightarrow> nat list \<Rightarrow> bool" where
  "place base bp xs A p B \<longleftrightarrow> base # xs = A @ p # B \<and> p < bp \<and> (\<forall>y\<in>set B. bp < y)"

lemma place_exists:
  assumes "laid s (base # xs) hi" and "base < bp" and "bp \<notin> set xs"
  shows "\<exists>A p B. place base bp xs A p B"
proof -
  let ?T = "takeWhile (\<lambda>y. y < bp) (base # xs)" and ?B = "dropWhile (\<lambda>y. y < bp) (base # xs)"
  have t: "?T \<noteq> []" using assms(2) by simp
  then have "?T = butlast ?T @ [last ?T]" by simp
  moreover have "last ?T < bp" using t set_takeWhileD [of "last ?T" "\<lambda>y. y < bp" "base # xs"] last_in_set by blast
  moreover have "bp < y" if y: "y \<in> set ?B" for y
  proof -
    obtain d D where d: "?B = d # D" using y by (cases ?B) auto
    have l: "laid s (?T @ ?B) hi" using assms(1) by (simp only: takeWhile_dropWhile_id)
    have "\<not> d < bp" using d hd_dropWhile [of "\<lambda>y. y < bp" "base # xs"] by (metis list.discI list.sel(1))
    moreover have "d \<noteq> bp" using d assms(2,3) set_dropWhileD [of d "\<lambda>y. y < bp" "base # xs"] by (metis list.set_intros(1) set_ConsD less_irrefl)
    moreover have "y = d \<or> d < y" using y l laid_less [of s d D hi y] unfolding d laid_append by auto
    ultimately show ?thesis by auto
  qed
  moreover have "base # xs = ?T @ ?B" by simp
  ultimately have "place base bp xs (butlast ?T) (last ?T) ?B" unfolding place_def by (metis append.assoc append_Cons append_Nil)
  then show ?thesis by blast
qed

lemma place_stops:
  assumes "links s (base # xs) base" and l: "laid s (base # xs) hi" and "base < bp" and pl: "place base bp xs A p B" and y: "y \<in> set (base # xs)"
  shows "free_stops bp y s \<longleftrightarrow> y = p"
proof -
  obtain C D where cd: "base # xs = C @ y # D" using y by (meson split_list)
  have hp: "h_ptr s y = hd (D @ [base])" using assms(1) unfolding cd by simp
  have ld: "laid s (C @ y # D) hi" using l cd by simp
  have "free_stops bp y s \<longleftrightarrow> y < bp \<and> (\<forall>d\<in>set D. bp < d)"
  proof (cases D)
    case Nil
    have "base \<le> y" using laid_less [OF l, of y] y by fastforce
    then show ?thesis using Nil hp assms(3) by (auto simp: free_stops_def)
  next
    case (Cons d D')
    have lo: "laid s ((C @ [y]) @ d # D') hi" using ld by (metis Cons append.assoc append_Cons append_Nil)
    have "y < d" "\<forall>e\<in>set D'. d < e" using laid_order [OF lo] by simp_all
    then show ?thesis using Cons hp by (auto simp: free_stops_def)
  qed
  moreover have "y < bp \<and> (\<forall>d\<in>set D. bp < d) \<longleftrightarrow> y = p"
  proof -
    have pd: "base # xs = A @ p # B" "p < bp" "\<forall>y\<in>set B. bp < y" using pl by (simp_all add: place_def)
    have lp: "laid s (A @ p # B) hi" using l unfolding pd(1) .
    have e: "set (C @ y # D) = set (A @ p # B)" using cd pd(1) by simp
    note o1 = laid_order [OF ld] and o2 = laid_order [OF lp]
    have "p \<in> set C \<or> p = y \<or> p \<in> set D" "y \<in> set A \<or> y = p \<or> y \<in> set B" using e by auto
    moreover have m: "d \<in> set A \<or> d = p \<or> d \<in> set B" if "d \<in> set D" for d using e that by auto
    moreover have "\<not> p \<in> set D" if "\<forall>d\<in>set D. bp < d" using that pd(2) by auto
    moreover have "\<not> (y \<in> set A \<and> p \<in> set C)" using o1 o2 less_asym [of y p] by blast
    moreover have "\<not> y \<in> set B" if "y < bp" using that pd(3) by auto
    ultimately have "y = p" if "y < bp \<and> (\<forall>d\<in>set D. bp < d)" using that by blast
    moreover have "bp < d" if "y = p" "d \<in> set D" for d
    proof -
      have "y < d" using o1 that(2) by blast
      then have "\<not> d \<in> set A" "d \<noteq> p" using o2 that(1) less_asym [of d p] by blast+
      then show ?thesis using m [OF that(2)] pd(3) by blast
    qed
    ultimately show ?thesis using pd(2) by blast
  qed
  ultimately show ?thesis by simp
qed

lemma heapD:
  assumes "heap base s xs hi"
  shows "links s (base # xs) base" "laid s (base # xs) hi" "h_size s base = 0" "0 < base" "\<And>x. x \<in> set xs \<Longrightarrow> 0 < h_size s x"
    "freep s \<in> set (base # xs)" "hi \<le> 2 ^ 36"
  using assms by (simp_all add: heap_def)

lemma search_finds:
  assumes h: "heap base s xs hi" and "base < bp" and pl: "place base bp xs A p B" and n: "length xs < n"
  shows "free_search n bp (freep s) s = Some p"
proof -
  obtain C D where cd: "base # xs = C @ freep s # D" using split_list [OF heapD(6) [OF h]] by blast
  let ?ys = "freep s # D @ C"
  have "set (base # xs) = set (C @ freep s # D)" "length (base # xs) = length (C @ freep s # D)" by (simp_all only: cd)
  then have e: "set ?ys = set (base # xs)" "length ?ys = Suc (length xs)" by auto
  have st: "free_stops bp y s \<longleftrightarrow> y = p" if "y \<in> set ?ys" for y
    using place_stops [OF heapD(1,2) [OF h] assms(2) pl, of y] that unfolding e(1) by blast
  have p: "p \<in> set ?ys" using pl unfolding e(1) by (simp add: place_def)
  then have "free_search n bp (hd ?ys) s = find (\<lambda>y. free_stops bp y s) ?ys"
    using st n e(2) by (intro find_chain [OF links_rotate [OF heapD(1) [OF h] cd]]) auto
  moreover have "find (\<lambda>y. free_stops bp y s) ?ys = find (\<lambda>y. y = p) ?ys" by (rule find_cong) (use st in auto)
  moreover have "find (\<lambda>y. y = p) ys = Some p" if "p \<in> set ys" for ys using that by (induction ys) auto
  ultimately show ?thesis using p by (metis list.sel(1))
qed

section \<open>Giving a block back\<close>

text \<open>The block lies between two neighbours of the list.\<close>

lemma place_between:
  assumes h: "heap base s xs hi" and pl: "place base bp xs A p B" and n: "0 < h_size s bp" and dj: "block s bp \<inter> space s xs = {}"
    and hi: "bp + 16 * h_size s bp \<le> hi"
  shows "p + 16 * h_size s p \<le> bp" "bp + 16 * h_size s bp \<le> hd (B @ [hi])"
proof -
  have e: "base # xs = A @ p # B" "p < bp" "\<forall>y\<in>set B. bp < y" using pl by (simp_all add: place_def)
  have sp: "block s x \<inter> block s bp = {}" if "x \<in> set (base # xs)" for x
    using that dj heapD(3) [OF h] by (auto simp: space_def)
  have "p \<in> set (base # xs)" unfolding e(1) by simp
  then have "bp \<notin> block s p" using sp [of p] n by (auto simp: block_def)
  then show "p + 16 * h_size s p \<le> bp" using e(2) by (auto simp: block_def)
  show "bp + 16 * h_size s bp \<le> hd (B @ [hi])"
  proof (cases B)
    case (Cons q B')
    have q: "q \<in> set (base # xs)" unfolding e(1) Cons by simp
    have "p \<in> set (base # xs)" unfolding e(1) by simp
    then have "base \<le> p" using laid_less [OF heapD(2) [OF h], of p] by auto
    then have "q \<noteq> base" using e(2,3) Cons by auto
    then have "0 < h_size s q" "q \<notin> block s bp" using heapD(5) [OF h, of q] sp [OF q] q by (auto simp: block_def)
    then show ?thesis using e(3) Cons by (auto simp: block_def)
  qed (use hi in simp)
qed

text \<open>After joining with the block behind: the rest of the list is \<open>B'\<close>.\<close>

lemma join_next_ok:
  assumes l: "links s B base" "laid s (bp # B) hi" and hp: "h_ptr s p = hd (B @ [base])" and bp: "base < bp" "bp \<noteq> p" "bp \<notin> set B"
    and hi: "hi \<le> 2 ^ 36" and n: "0 < h_size s bp" and szB: "\<forall>x\<in>set B. 0 < h_size s x"
  shows "\<exists>B'. links (join_next bp p s) (bp # B') base \<and> laid (join_next bp p s) (bp # B') hi \<and>
    space (join_next bp p s) (bp # B') = space s (bp # B) \<and> set B' \<subseteq> set B \<and> h_size s bp \<le> h_size (join_next bp p s) bp \<and>
    (\<forall>x. x \<noteq> bp \<longrightarrow> h_size (join_next bp p s) x = h_size s x \<and> h_ptr (join_next bp p s) x = h_ptr s x)"
proof (cases "bp + 16 * h_size s bp = h_ptr s p")
  case True
  then obtain q B' where B: "B = q # B'" using bp(1) hp by (cases B) auto
  have q: "bp + 16 * h_size s bp = q" using True hp B by simp
  have e: "q + 16 * h_size s q \<le> hi" using laid_bound [OF l(2)] B by simp
  have m: "(h_size s bp + h_size s q) mod 2 ^ 32 = h_size s bp + h_size s q" using e q hi bp(1) by (intro size_fits [of bp]) auto
  let ?s = "join_next bp p s"
  have s': "?s = set_ptr bp (h_ptr s q) (set_size bp (h_size s bp + h_size s q) s)" using True hp B bp by (simp add: join_next_def Let_def)
  have o: "\<forall>x. x \<noteq> bp \<longrightarrow> h_size ?s x = h_size s x \<and> h_ptr ?s x = h_ptr s x" by (simp add: s')
  have c: "links ?s B' base = links s B' base" "laid ?s B' hi = laid s B' hi" "space ?s B' = space s B'"
    using bp(3) B o by (intro links_cong laid_cong space_cong; auto)+
  have "block ?s bp = block s bp \<union> block s q" using q m by (auto simp: s' block_def)
  then have "space ?s (bp # B') = space s (bp # B)" using c(3) B by auto
  moreover have "laid ?s (bp # B') hi" using l(2) c(2) B q m by (auto simp: s')
  moreover have "links ?s (bp # B') base" using l(1) c(1) B by (auto simp: s')
  moreover have "h_size s bp \<le> h_size ?s bp" using m by (simp add: s')
  ultimately show ?thesis using o B by (intro exI [of _ B']) auto
next
  case False
  let ?s = "join_next bp p s"
  have s': "?s = set_ptr bp (hd (B @ [base])) s" using False hp by (simp add: join_next_def)
  have c: "links ?s B base = links s B base" "laid ?s B hi = laid s B hi" "space ?s B = space s B"
    using bp(3) by (intro links_cong laid_cong space_cong; auto simp: s')+
  have "space ?s (bp # B) = space s (bp # B)" using c(3) by (simp add: block_def s')
  then show ?thesis using l c n by (intro exI [of _ B]) (simp add: s')
qed

lemma join_prev_ok:
  assumes s: "links s A p" "laid s (A @ [p]) bp" and b: "links s (bp # B) base" "laid s (bp # B) hi" "0 < h_size s bp"
    and nb: "bp \<notin> set A" "p \<notin> set A" "p \<notin> set (bp # B)" "hi \<le> 2 ^ 36" "0 < p"
  shows "\<exists>C. links (join_prev bp p s) (A @ p # C) base \<and> laid (join_prev bp p s) (A @ p # C) hi \<and>
    space (join_prev bp p s) (A @ p # C) = space s (A @ p # bp # B) \<and> set C \<subseteq> set (bp # B) \<and>
    (\<forall>x. x \<noteq> p \<longrightarrow> h_size (join_prev bp p s) x = h_size s x) \<and> h_size s p \<le> h_size (join_prev bp p s) p \<and>
    (p + 16 * h_size s p < bp \<longrightarrow> h_size (join_prev bp p s) p = h_size s p) \<and>
    (\<exists>x\<in>set (p # C). h_size s bp \<le> h_size (join_prev bp p s) x)"
proof (cases "p + 16 * h_size s p = bp")
  case True
  let ?s = "join_prev bp p s"
  have e: "bp + 16 * h_size s bp \<le> hi" using laid_bound [OF b(2)] by simp
  have m: "(h_size s p + h_size s bp) mod 2 ^ 32 = h_size s p + h_size s bp" using e True nb(4,5) by (intro size_fits [of p]) auto
  have s': "?s = set_ptr p (h_ptr s bp) (set_size p (h_size s p + h_size s bp) s)" using True by (simp add: join_prev_def Let_def)
  have o: "x \<noteq> p \<Longrightarrow> h_size ?s x = h_size s x \<and> h_ptr ?s x = h_ptr s x" for x by (simp add: s')
  have cA: "links ?s A p = links s A p" "laid ?s A p = laid s A p" "space ?s A = space s A"
    using nb(2) o by (intro links_cong laid_cong space_cong; metis)+
  have cB: "links ?s B base = links s B base" "laid ?s B hi = laid s B hi" "space ?s B = space s B"
    using nb(3) o by (intro links_cong laid_cong space_cong; metis list.set_intros(2))+
  have "block ?s p = block s p \<union> block s bp" using True m by (auto simp: s' block_def)
  then have "space ?s (A @ p # B) = space s (A @ p # bp # B)" using cA cB by auto
  moreover have "p < hd (B @ [hi])" "bp + 16 * h_size s bp \<le> hd (B @ [hi])" using s(2) b(2) by auto
  then have "laid ?s (A @ p # B) hi" using s(2) b(2) cA(2) cB(2) True m by (auto simp: s')
  moreover have "links ?s (A @ p # B) base" using s(1) b(1) cA(1) cB(1) by (auto simp: s')
  ultimately show ?thesis using o True m by (intro exI [of _ B]) (auto simp: s')
next
  case False
  let ?s = "join_prev bp p s"
  have s': "?s = set_ptr p bp s" using False by (simp add: join_prev_def)
  have o: "x \<noteq> p \<Longrightarrow> h_ptr ?s x = h_ptr s x" "h_size ?s = h_size s" for x by (simp_all add: s')
  have "links ?s A p = links s A p" "links ?s (bp # B) base = links s (bp # B) base" using nb(2,3) o by (intro links_cong; metis)+
  moreover have "laid ?s xs k = laid s xs k" "space ?s xs = space s xs" for xs k using o(2) by (intro laid_cong space_cong; simp)+
  moreover have "h_ptr ?s p = bp" by (simp add: s')
  moreover have "block ?s = block s" by (simp add: block_def o(2) fun_eq_iff)
  ultimately show ?thesis using s b by (intro exI [of _ "bp # B"]) (simp add: o(2))
qed

lemma heapI_freed:
  assumes e: "base # xs = A @ p # B" and l: "links s (A @ p # C) base" "laid s (A @ p # C) hi" and b: "h_size s base = 0" "0 < base"
    and z: "\<forall>x\<in>set (A @ p # C) - {base}. 0 < h_size s x" and hi: "hi \<le> 2 ^ 36"
  shows "\<exists>ys. base # ys = A @ p # C \<and> heap base (s\<lparr>freep := p\<rparr>) ys hi"
proof -
  obtain ys where ys: "base # ys = A @ p # C" using e by (cases A) auto
  let ?s = "s\<lparr>freep := p\<rparr>"
  have "links ?s (base # ys) base = links s (base # ys) base" "laid ?s (base # ys) hi = laid s (base # ys) hi"
    by (intro links_cong laid_cong; simp)+
  then have l': "links ?s (base # ys) base" "laid ?s (base # ys) hi" using l unfolding ys by simp_all
  have "distinct (base # ys)" using laid_distinct [OF l(2)] unfolding ys .
  then have "0 < h_size ?s x" if "x \<in> set ys" for x using z that unfolding ys [symmetric] by auto
  moreover have "p \<in> set (base # ys)" unfolding ys by simp
  ultimately have "heap base ?s ys hi" unfolding heap_def using l' b hi by auto
  then show ?thesis using ys by blast
qed

text \<open>\<open>free\<close> keeps the ring and grows the free space by exactly the block.\<close>

lemma free_heap:
  assumes h: "heap base s xs hi" and bp: "base < bp" and n: "0 < h_size s bp" and dj: "block s bp \<inter> space s xs = {}"
    and hi: "bp + 16 * h_size s bp \<le> hi" and fuel: "length xs < n"
  shows "\<exists>s' xs'. free n (bp + 16) s = Some s' \<and> heap base s' xs' hi \<and> space s' xs' = space s xs \<union> block s bp \<and>
    set xs' \<subseteq> set xs \<union> {bp} \<and> (\<exists>x\<in>set xs'. h_size s bp \<le> h_size s' x) \<and>
    (\<forall>x. x \<notin> set (base # xs) \<union> {bp} \<longrightarrow> h_size s' x = h_size s x)"
proof -
  have "bp \<in> block s bp" using n by (simp add: block_def)
  then have nbx: "bp \<notin> set xs" using dj unfolding space_def by blast
  obtain A p B where pl: "place base bp xs A p B" using place_exists [OF heapD(2) [OF h] bp nbx] by blast
  have e: "base # xs = A @ p # B" "p < bp" using pl by (simp_all add: place_def)
  have nb: "bp \<notin> set (A @ p # B)" using nbx bp unfolding e(1) [symmetric] by simp
  have l: "links s (A @ p # B) base" "laid s (A @ p # B) hi" using heapD(1,2) [OF h] unfolding e(1) .
  have dis: "distinct (A @ p # B)" by (rule laid_distinct [OF l(2)])
  have base: "base \<in> set (A @ [p])" "base \<le> p" using e(1) laid_less [OF heapD(2) [OF h], of p] by (cases A; auto)+
  have z: "0 < h_size s x" if "x \<in> set (A @ p # B)" "x \<noteq> base" for x
    using heapD(5) [OF h, of x] that unfolding e(1) [symmetric] by simp
  note bt = place_between [OF h pl n dj hi]
  let ?s1 = "join_next bp p s"
  have "laid s (bp # B) hi" "\<forall>x\<in>set B. 0 < h_size s x" using l(2) bt(2) n z dis base(1) by auto
  then obtain B' where B': "links ?s1 (bp # B') base" "laid ?s1 (bp # B') hi" "space ?s1 (bp # B') = space s (bp # B)"
      "set B' \<subseteq> set B" "h_size s bp \<le> h_size ?s1 bp" and o: "\<And>x. x \<noteq> bp \<Longrightarrow> h_size ?s1 x = h_size s x \<and> h_ptr ?s1 x = h_ptr s x"
    using join_next_ok [of s B base bp hi p] l nb bp heapD(7) [OF h] n by auto
  have n1: "0 < h_size ?s1 bp" using B'(5) n by simp
  have c: "links ?s1 A p = links s A p" "laid ?s1 (A @ [p]) bp = laid s (A @ [p]) bp" "space ?s1 (A @ [p]) = space s (A @ [p])"
  proof -
    have "h_size ?s1 x = h_size s x \<and> h_ptr ?s1 x = h_ptr s x" if "x \<in> set (A @ [p])" for x using o [of x] that nb by auto
    then show "links ?s1 A p = links s A p" "laid ?s1 (A @ [p]) bp = laid s (A @ [p]) bp" "space ?s1 (A @ [p]) = space s (A @ [p])"
      by (intro links_cong laid_cong space_cong; simp)+
  qed
  have s1: "links ?s1 A p" "laid ?s1 (A @ [p]) bp" using c l bt(1) e(2) by auto
  let ?s2 = "join_prev bp p ?s1"
  have pr: "bp \<notin> set A" "p \<notin> set A" "p \<notin> set (bp # B')" "0 < p" using nb dis B'(4) heapD(4) [OF h] base(2) by auto
  obtain C where C: "links ?s2 (A @ p # C) base" "laid ?s2 (A @ p # C) hi" "space ?s2 (A @ p # C) = space ?s1 (A @ p # bp # B')"
      "set C \<subseteq> set (bp # B')" and o2: "\<And>x. x \<noteq> p \<Longrightarrow> h_size ?s2 x = h_size ?s1 x" and p2: "h_size ?s1 p \<le> h_size ?s2 p"
      "p + 16 * h_size ?s1 p < bp \<Longrightarrow> h_size ?s2 p = h_size ?s1 p" and big: "\<exists>x\<in>set (p # C). h_size ?s1 bp \<le> h_size ?s2 x"
    using join_prev_ok [OF s1 B'(1,2) n1 pr(1-3) heapD(7) [OF h] pr(4)] by blast
  have hp: "h_size ?s1 p = h_size s p" using o [of p] e(2) by simp
  have "h_size ?s2 base = 0" using o2 [of base] p2(2) hp o [of base] bp heapD(3) [OF h] by (cases "p = base") auto
  moreover have "0 < h_size ?s2 x" if "x \<in> set (A @ p # C) - {base}" for x
    using that z [of x] o2 [of x] o [of x] p2(1) hp C(4) B'(4) n1 by (cases "x = p"; cases "x = bp") auto
  ultimately obtain ys where ys: "base # ys = A @ p # C" "heap base (?s2\<lparr>freep := p\<rparr>) ys hi"
    using heapI_freed [OF e(1) C(1,2) _ heapD(4) [OF h] _ heapD(7) [OF h]] by blast
  have "free n (bp + 16) s = Some (?s2\<lparr>freep := p\<rparr>)" using search_finds [OF h bp pl fuel] by (simp add: free_def)
  moreover have "space (?s2\<lparr>freep := p\<rparr>) ys = space s xs \<union> block s bp"
  proof -
    have b: "block (?s2\<lparr>freep := p\<rparr>) = block ?s2" by (simp add: block_def fun_eq_iff)
    have "space ?s2 (base # ys) = space s (A @ [p]) \<union> space s (bp # B)" using C(3) c(3) B'(3) unfolding ys(1) by auto
    also have "\<dots> = space s (base # xs) \<union> block s bp" unfolding e(1) by auto
    finally show ?thesis using heapD(3) [OF h] heapD(3) [OF ys(2)] b by (simp add: space_def block_def)
  qed
  moreover have "set ys \<subseteq> set xs \<union> {bp}"
  proof -
    have "set (base # ys) \<subseteq> set (base # xs) \<union> {bp}" using C(4) B'(4) unfolding ys(1) e(1) by auto
    moreover have "base \<notin> set ys" using laid_distinct [OF heapD(2) [OF ys(2)]] by simp
    ultimately show ?thesis by auto
  qed
  moreover have "\<exists>x\<in>set ys. h_size s bp \<le> h_size (?s2\<lparr>freep := p\<rparr>) x"
  proof -
    obtain x where x: "x \<in> set (base # ys)" "h_size ?s1 bp \<le> h_size ?s2 x" using big unfolding ys(1) by auto
    then have "x \<noteq> base" using heapD(3) [OF ys(2)] n1 by auto
    then show ?thesis using x B'(5) by (intro bexI [of _ x]) auto
  qed
  moreover have "h_size (?s2\<lparr>freep := p\<rparr>) x = h_size s x" if "x \<notin> set (base # xs) \<union> {bp}" for x
    using that o [of x] o2 [of x] unfolding e(1) by simp
  ultimately show ?thesis using ys(2) by blast
qed
section \<open>Taking a block\<close>

lemma laid_mono: "laid s xs hi \<Longrightarrow> (\<And>x. x \<in> set xs \<Longrightarrow> h_size s' x \<le> h_size s x) \<Longrightarrow> hi \<le> hi' \<Longrightarrow> laid s' xs hi'"
proof (induction xs)
  case (Cons x xs)
  then have "laid s' xs hi'" "hd (xs @ [hi]) \<le> hd (xs @ [hi'])" "h_size s' x \<le> h_size s x" by (auto simp: hd_append)
  then show ?case using Cons.prems(1) by auto
qed simp

lemma laid_disjoint: "laid s (A @ p # B) hi \<Longrightarrow> block s p \<inter> (space s A \<union> space s B) = {}"
proof -
  assume l: "laid s (A @ p # B) hi"
  then have "laid s (p # B) hi" unfolding laid_append by blast
  then have "p + 16 * h_size s p \<le> y" if "y \<in> set B" for y using laid_less that by blast
  moreover have "x + 16 * h_size s x \<le> p" if x: "x \<in> set A" for x
  proof -
    obtain A1 A2 where "A = A1 @ x # A2" using split_list [OF x] by blast
    then have "laid s (A1 @ x # (A2 @ p # B)) hi" using l by (simp only: append_assoc append_Cons)
    then have "laid s (x # (A2 @ p # B)) hi" unfolding laid_append [of s A1] by blast
    then show ?thesis by (rule laid_less [THEN conjunct2]) simp
  qed
  ultimately have "block s p \<inter> block s y = {}" if "y \<in> set A \<or> y \<in> set B" for y using that unfolding block_def by fastforce
  then show ?thesis unfolding space_def by blast
qed

text \<open>The headers before \<open>p\<close> in the ring is the one whose link is \<open>p\<close>.\<close>

lemma ring_before:
  assumes h: "heap base s xs hi" and q: "q \<in> set (base # xs)" "h_ptr s q = p" and p: "p \<noteq> base"
  shows "\<exists>A B. base # xs = A @ q # p # B"
proof -
  obtain A B where ab: "base # xs = A @ q # B" using split_list [OF q(1)] by blast
  then have "hd (B @ [base]) = p" using heapD(1) [OF h] q(2) unfolding ab by simp
  then have "B = p # tl B" using p by (cases B) auto
  then show ?thesis using ab by metis
qed

lemma block_bound:
  assumes h: "heap base s xs hi" and p: "p \<in> set (base # xs)"
  shows "base \<le> p" "p + 16 * h_size s p \<le> hi" "h_size s p < 2 ^ 32"
proof -
  show "base \<le> p" using laid_less [OF heapD(2) [OF h], of p] p by auto
  show e: "p + 16 * h_size s p \<le> hi" using laid_bound [OF heapD(2) [OF h]] p by blast
  show "h_size s p < 2 ^ 32" using e \<open>base \<le> p\<close> heapD(4,7) [OF h] by simp
qed

lemma carve_whole:
  assumes h: "heap base s xs hi" and e: "base # xs = A @ q # p # B"
  shows "\<exists>ys. heap base ((set_ptr q (h_ptr s p) s)\<lparr>freep := q\<rparr>) ys hi \<and> set ys \<subseteq> set xs \<and> block s p \<inter> space s ys = {} \<and>
    block s p \<union> space s ys = space s xs"
proof -
  have l: "links s (A @ q # p # B) base" "laid s (A @ q # p # B) hi" using heapD(1,2) [OF h] unfolding e .
  have dis: "distinct (A @ q # p # B)" by (rule laid_distinct [OF l(2)])
  have z: "0 < h_size s x" if "x \<in> set (A @ q # p # B)" "x \<noteq> base" for x
    using heapD(5) [OF h, of x] that unfolding e [symmetric] by simp
  let ?s = "set_ptr q (h_ptr s p) s"
  have "links ?s A q = links s A q" "links ?s B base = links s B base" "\<And>xs k. laid ?s xs k = laid s xs k"
    using dis by (intro links_cong laid_cong; auto)+
  then have "links ?s (A @ q # B) base" "laid ?s (A @ q # B) hi" using l by (auto simp: hd_append)
  moreover have "0 < h_size ?s x" if "x \<in> set (A @ q # B) - {base}" for x using z [of x] that by auto
  moreover have "h_size ?s base = 0" using heapD(3) [OF h] by simp
  ultimately obtain ys where ys: "base # ys = A @ q # B" "heap base (?s\<lparr>freep := q\<rparr>) ys hi"
    using heapI_freed [OF e _ _ _ heapD(4) [OF h] _ heapD(7) [OF h]] by blast
  have "laid s ((A @ [q]) @ p # B) hi" using l(2) by (simp only: append_assoc append_Cons append_Nil)
  from laid_disjoint [OF this] have "block s p \<inter> space s (base # ys) = {}" unfolding ys(1) by auto
  moreover have "block s p \<union> space s (base # ys) = space s (base # xs)" unfolding ys(1) e by auto
  moreover have "set (base # ys) \<subseteq> set (base # xs)" unfolding ys(1) e by auto
  moreover have "base \<notin> set ys" using laid_distinct [OF heapD(2) [OF ys(2)]] by simp
  ultimately show ?thesis using ys(2) heapD(3) [OF h] by (intro exI [of _ ys]) auto
qed

lemma carve_tail:
  assumes h: "heap base s xs hi" and p: "p \<in> set xs" and q: "q \<in> set (base # xs)" and nu: "0 < nu" "nu < h_size s p"
  defines "k \<equiv> h_size s p - nu"
  defines "s' \<equiv> (set_size (p + 16 * k) nu (set_size p k s))\<lparr>freep := q\<rparr>"
  shows "heap base s' xs hi \<and> h_size s' (p + 16 * k) = nu \<and> block s' (p + 16 * k) \<inter> space s' xs = {} \<and>
    block s' (p + 16 * k) \<union> space s' xs = space s xs"
proof -
  obtain A B where e: "xs = A @ p # B" using split_list [OF p] by blast
  let ?h = "p + 16 * k"
  have k: "0 < k" "k + nu = h_size s p" using nu by (auto simp: k_def)
  have l: "laid s ((base # A) @ p # B) hi" using heapD(2) [OF h] unfolding e by (simp only: append_Cons)
  have m: "h_size s p < 2 ^ 32" using block_bound(3) [OF h, of p] p by simp
  have out: "?h \<notin> set (base # xs)"
  proof
    assume "?h \<in> set (base # xs)"
    moreover have "?h \<noteq> p" "p < ?h" using k by auto
    moreover have "?h < y" if "y \<in> set B" for y
    proof -
      have "laid s (p # B) hi" using l unfolding laid_append [of s "base # A"] by blast
      then have "p + 16 * h_size s p \<le> y" using laid_less that by blast
      then show ?thesis using k nu(1) by auto
    qed
    moreover have "\<forall>y\<in>set (base # A). y < p" using laid_order [OF l] by blast
    ultimately show False unfolding e by fastforce
  qed
  have hs: "h_size s' x = (if x = ?h then nu else if x = p then k else h_size s x)" for x
    using k m by (simp add: s'_def)
  have hp: "h_ptr s' = h_ptr s" "freep s' = q" by (simp_all add: s'_def)
  have "h_size s' x \<le> h_size s x" if "x \<in> set (base # xs)" for x using that out k by (auto simp: hs)
  then have "laid s' (base # xs) hi" using laid_mono [OF heapD(2) [OF h]] by blast
  moreover have "links s' (base # xs) base" using heapD(1) [OF h] links_cong [of "base # xs" s' s base] hp by simp
  moreover have "base \<noteq> p" using l laid_order [OF l] by auto
  ultimately have "heap base s' xs hi" using heapD(3-7) [OF h] q k nu hp out by (auto simp: heap_def hs)
  moreover have "block s' ?h \<union> block s' p = block s p" "block s' ?h \<inter> block s' p = {}" using k by (auto simp: block_def hs)
  moreover have "space s' A = space s A" "space s' B = space s B" using out laid_distinct [OF l] unfolding e
    by (intro space_cong; auto simp: hs)+
  moreover have "block s p \<inter> (space s A \<union> space s B) = {}" using laid_disjoint [OF l] by auto
  ultimately show ?thesis unfolding e by (auto simp: hs)
qed
lemma carve_heap:
  assumes h: "heap base s xs hi" and q: "q \<in> set (base # xs)" "h_ptr s q = p" and nu: "0 < nu" "nu \<le> h_size s p"
    and p: "p \<in> set (base # xs)" and c: "carve nu q p s = (a, s')"
  shows "\<exists>ys. heap base s' ys hi \<and> base + 16 < a \<and> h_size s' (a - 16) = nu \<and> block s' (a - 16) \<inter> space s' ys = {} \<and>
    block s' (a - 16) \<union> space s' ys = space s xs \<and> (\<forall>x. x \<notin> space s xs \<longrightarrow> h_size s' x = h_size s x)"
proof -
  have nb: "p \<noteq> base" using nu heapD(3) [OF h] by auto
  then have px: "p \<in> set xs" using p by simp
  then have lt: "base < p" using laid_less [OF heapD(2) [OF h]] by blast
  show ?thesis
  proof (cases "h_size s p = nu")
    case True
    obtain A B where e: "base # xs = A @ q # p # B" using ring_before [OF h q nb] by blast
    have s': "s' = (set_ptr q (h_ptr s p) s)\<lparr>freep := q\<rparr>" "a = p + 16" using c True by (simp_all add: carve_def)
    then have "block s' = block s" "space s' = space s" "h_size s' = h_size s" by (simp_all add: block_def space_def fun_eq_iff)
    then show ?thesis using carve_whole [OF h e] lt True s' by auto
  next
    case False
    let ?k = "h_size s p - nu"
    have "?k mod 2 ^ 32 = ?k" using block_bound(3) [OF h p] by (intro mod_less) simp
    then have s': "s' = (set_size (p + 16 * ?k) nu (set_size p ?k s))\<lparr>freep := q\<rparr>" "a = p + 16 * ?k + 16"
      using c False by (auto simp: carve_def Let_def)
    have sm: "nu < h_size s p" using nu False by simp
    then have "p + 16 * ?k \<in> block s p" "p \<in> block s p" using nu(1) by (auto simp: block_def)
    then have "p + 16 * ?k \<in> space s xs" "p \<in> space s xs" using px by (auto simp: space_def)
    then have "x \<notin> space s xs \<Longrightarrow> h_size s' x = h_size s x" for x by (auto simp: s'(1))
    moreover note carve_tail [OF h px q(1) nu(1) sm, folded s'(1)]
    moreover have "a - 16 = p + 16 * ?k" "base + 16 < a" using lt by (auto simp: s'(2))
    ultimately show ?thesis by (intro exI [of _ xs]) simp
  qed
qed

text \<open>The search over the ring, from the header after \<open>freep\<close> to \<open>freep\<close> itself.\<close>

lemma scan_finds:
  "links s (q # ys) z \<Longrightarrow> ys \<noteq> [] \<Longrightarrow> freep s \<notin> set (butlast ys) \<Longrightarrow> \<exists>y\<in>set ys. nu \<le> h_size s y \<Longrightarrow> length ys \<le> n \<Longrightarrow>
   \<exists>r y. r \<in> set (q # ys) \<and> y \<in> set ys \<and> h_ptr s r = y \<and> nu \<le> h_size s y \<and> malloc_loop n sb nu q (hd ys) s = Some (carve nu r y s)"
proof (induction ys arbitrary: q n)
  case (Cons y ys)
  obtain k where n: "n = Suc k" using Cons.prems(5) by (cases n) auto
  have hq: "h_ptr s q = y" using Cons.prems(1) by simp
  show ?case
  proof (cases "nu \<le> h_size s y")
    case True
    then have "malloc_loop n sb nu q (hd (y # ys)) s = Some (carve nu q y s)" by (simp add: n)
    then show ?thesis using hq True by (metis list.set_intros(1))
  next
    case False
    then have ne: "ys \<noteq> []" using Cons.prems(4) by auto
    then have "y \<noteq> freep s" "h_ptr s y = hd ys" using Cons.prems(1,3) by (auto simp: neq_Nil_conv)
    then show ?thesis using Cons.IH [of y k] Cons.prems ne False n by (auto split: if_splits)
  qed
qed simp

lemma scan_none:
  "links s (q # ys) z \<Longrightarrow> ys \<noteq> [] \<Longrightarrow> freep s \<notin> set (butlast ys) \<Longrightarrow> last ys = freep s \<Longrightarrow> \<forall>y\<in>set ys. h_size s y < nu \<Longrightarrow> length ys \<le> n \<Longrightarrow>
   malloc_loop n sb nu q (hd ys) s = (case morecore (n - length ys) sb nu s of None \<Rightarrow> None
     | Some (p', s1) \<Rightarrow> if p' = 0 then Some (0, s1) else malloc_loop (n - length ys) sb nu p' (h_ptr s1 p') s1)"
proof (induction ys arbitrary: q n)
  case (Cons y ys)
  obtain k where n: "n = Suc k" using Cons.prems(6) by (cases n) auto
  show ?case
  proof (cases "ys = []")
    case False
    then have "y \<noteq> freep s" "h_ptr s y = hd ys" using Cons.prems(1,3) by (auto simp: neq_Nil_conv)
    then have e: "malloc_loop n sb nu q (hd (y # ys)) s = malloc_loop k sb nu y (hd ys) s" using Cons.prems(5) n by simp
    have k: "n - length (y # ys) = k - length ys" by (simp add: n)
    show ?thesis unfolding e k by (rule Cons.IH) (use Cons.prems False n in auto)
  next
    case True
    have k: "n - length (y # ys) = k" by (simp add: n True)
    show ?thesis unfolding k using Cons.prems n True by simp
  qed
qed simp

lemma ring_from:
  assumes h: "heap base s xs hi"
  shows "\<exists>ys z. links s (freep s # ys) z \<and> ys \<noteq> [] \<and> freep s \<notin> set (butlast ys) \<and> last ys = freep s \<and> set ys = set (base # xs) \<and>
    length ys = Suc (length xs) \<and> h_ptr s (freep s) = hd ys"
proof -
  obtain C D where cd: "base # xs = C @ freep s # D" using split_list [OF heapD(6) [OF h]] by blast
  have l: "links s (freep s # D @ C) (freep s)" by (rule links_rotate [OF heapD(1) [OF h] cd])
  have "distinct (C @ freep s # D)" using laid_distinct [OF heapD(2) [OF h]] unfolding cd .
  moreover have "set (base # xs) = set (C @ freep s # D)" "length (base # xs) = length (C @ freep s # D)" by (simp_all only: cd)
  moreover have "links s ((freep s # D @ C) @ [freep s]) (h_ptr s (freep s))" by (rule links_append [THEN iffD2]) (use l in simp)
  ultimately show ?thesis using l
    by (intro exI [of _ "D @ C @ [freep s]"] exI [of _ "h_ptr s (freep s)"]) (auto simp: butlast_append hd_append)
qed
section \<open>More core\<close>

text \<open>What is relied on of \<open>sbrk\<close>: a positive request that succeeds gives the bytes from the old end of the memory, above the heap.\<close>

definition core_ok :: "(int \<Rightarrow> nat option) \<Rightarrow> nat \<Rightarrow> bool" where
  "core_ok sb hi \<longleftrightarrow> (\<forall>m a. 0 < m \<longrightarrow> sb m = Some a \<longrightarrow> hi \<le> a \<and> int a + m \<le> 2 ^ 36)"

definition core_units :: "nat \<Rightarrow> nat" where
  "core_units nu = max nu 4096"

definition core_bytes :: "nat \<Rightarrow> nat" where
  "core_bytes nu = 16 * core_units nu"

lemma heap_set_size:
  assumes h: "heap base s xs hi" and a: "hi \<le> a" "hi \<le> hi'" "hi' \<le> 2 ^ 36"
  shows "heap base (set_size a k s) xs hi'" "space (set_size a k s) xs = space s xs"
proof -
  have o: "x \<noteq> a" if "x \<in> set (base # xs)" for x using laid_bound [OF heapD(2) [OF h]] that a(1) by fastforce
  have l: "laid (set_size a k s) (base # xs) hi'" by (rule laid_mono [OF heapD(2) [OF h] _ a(2)]) (use o in auto)
  have "links (set_size a k s) (base # xs) base = links s (base # xs) base" by (rule links_cong) simp
  then have "links (set_size a k s) (base # xs) base" using heapD(1) [OF h] by blast
  then show "heap base (set_size a k s) xs hi'" using l heapD(3-6) [OF h] o a(3) by (auto simp: heap_def)
  show "space (set_size a k s) xs = space s xs" by (rule space_cong) (use o in auto)
qed

lemma morecore_ok:
  assumes h: "heap base s xs hi" and sb: "core_ok sb hi" and nu: "16 * nu < 2 ^ 31" and fuel: "length xs < n"
    and some: "sb (int (core_bytes nu)) = Some a"
  shows "\<exists>s' ys. morecore n sb nu s = Some (freep s', s') \<and> heap base s' ys (a + core_bytes nu) \<and>
    space s' ys = space s xs \<union> {a..<a + core_bytes nu} \<and> set ys \<subseteq> set xs \<union> {a} \<and> {a..<a + core_bytes nu} \<inter> space s xs = {} \<and>
    (\<exists>x\<in>set ys. nu \<le> h_size s' x) \<and> (\<forall>x. x \<notin> set (base # xs) \<union> {a} \<longrightarrow> h_size s' x = h_size s x)"
proof -
  let ?nu = "core_units nu" and ?hi = "a + core_bytes nu"
  have n: "(if nu < 4096 then 4096 else nu) = ?nu" "0 < ?nu" "16 * ?nu < 2 ^ 31" using nu by (auto simp: core_units_def)
  have "0 < int (core_bytes nu)" using n by (simp add: core_bytes_def)
  then have b: "hi \<le> a" "int a + int (core_bytes nu) \<le> 2 ^ 36" using sb some unfolding core_ok_def by blast+
  have bb: "?hi \<le> 2 ^ 36" using b(2) by simp
  let ?s = "set_size a ?nu s"
  have w: "wrap32 (int ?nu * 16) = int (core_bytes nu)" using n(3) by (subst wrap32_id) (simp_all add: core_bytes_def)
  have sz: "h_size ?s a = ?nu" using n(3) by simp
  have bl: "block ?s a = {a..<a + core_bytes nu}" unfolding block_def sz core_bytes_def ..
  have "base < hi" using laid_bound [OF heapD(2) [OF h]] by simp
  have up: "y < hi" if y: "y \<in> space s xs" for y
    using y block_bound(2) [OF h] by (fastforce simp: space_def block_def)
  have dj: "{a..<a + core_bytes nu} \<inter> space s xs = {}" using up b(1) by fastforce
  have hh: "heap base ?s xs ?hi" "space ?s xs = space s xs" using heap_set_size [OF h b(1) _ bb] b(1) by simp_all
  obtain s' ys where "free n (a + 16) ?s = Some s'" "heap base s' ys ?hi" "space s' ys = space ?s xs \<union> block ?s a" "set ys \<subseteq> set xs \<union> {a}"
      "\<exists>x\<in>set ys. ?nu \<le> h_size s' x" "\<forall>x. x \<notin> set (base # xs) \<union> {a} \<longrightarrow> h_size s' x = h_size ?s x"
    using free_heap [OF hh(1), of a n] \<open>base < hi\<close> b(1) sz n(2) dj bl hh(2) fuel by (auto simp: core_bytes_def)
  moreover from this(5) have "\<exists>x\<in>set ys. nu \<le> h_size s' x" by (auto simp: core_units_def)
  moreover have "morecore n sb nu s = Some (freep s', s')" using calculation(1) some by (simp add: morecore_def Let_def n(1) w)
  ultimately show ?thesis using dj by (intro exI [of _ s'] exI [of _ ys]) (auto simp: bl hh(2))
qed
section \<open>What malloc promises\<close>

definition uheap :: "nat \<Rightarrow> ustate \<Rightarrow> nat list \<Rightarrow> nat \<Rightarrow> bool" where
  "uheap base s xs hi \<longleftrightarrow> (if freep s = 0 then xs = [] \<and> 0 < base \<and> base < hi \<and> hi \<le> 2 ^ 36 else heap base s xs hi)"

text \<open>\<open>a\<close> points behind the header of a block of \<open>nu\<close> units cut out of \<open>S\<close>; the rest of \<open>S\<close> is free, and the
  headers outside \<open>S\<close> keep their sizes.\<close>

definition cut :: "nat \<Rightarrow> nat \<Rightarrow> nat set \<Rightarrow> ustate \<Rightarrow> nat \<Rightarrow> ustate \<Rightarrow> nat list \<Rightarrow> nat \<Rightarrow> bool" where
  "cut base nu S s a s' ys hi \<longleftrightarrow> uheap base s' ys hi \<and> base + 16 < a \<and> h_size s' (a - 16) = nu \<and> block s' (a - 16) \<inter> space s' ys = {} \<and>
     block s' (a - 16) \<union> space s' ys = S \<and> (\<forall>x. x \<noteq> base \<longrightarrow> x \<notin> S \<longrightarrow> h_size s' x = h_size s x)"

lemma heap_uheap: "heap base s xs hi \<Longrightarrow> uheap base s xs hi"
proof -
  assume h: "heap base s xs hi"
  have "base \<le> freep s" by (rule block_bound(1) [OF h heapD(6) [OF h]])
  then show ?thesis using h heapD(4) [OF h] by (simp add: uheap_def)
qed

lemma heap_start:
  assumes "uheap base s xs hi"
  defines "s1 \<equiv> (if freep s = 0 then set_size base 0 (set_ptr base base (s\<lparr>freep := base\<rparr>)) else s)"
  shows "heap base s1 xs hi \<and> space s1 xs = space s xs \<and> (\<forall>x\<in>set xs. h_size s1 x = h_size s x)"
  using assms by (auto simp: uheap_def heap_def)

lemma loop_finds:
  assumes h: "heap base s xs hi" and big: "\<exists>x\<in>set xs. nu \<le> h_size s x" and nu: "0 < nu" and fuel: "length xs < n"
  shows "\<exists>a s' ys. malloc_loop n sb nu (freep s) (h_ptr s (freep s)) s = Some (a, s') \<and> cut base nu (space s xs) s a s' ys hi"
proof -
  obtain ys z where ys: "links s (freep s # ys) z" "ys \<noteq> []" "freep s \<notin> set (butlast ys)" "last ys = freep s" "set ys = set (base # xs)"
      "length ys = Suc (length xs)" "h_ptr s (freep s) = hd ys" using ring_from [OF h] by blast
  have "\<exists>y\<in>set ys. nu \<le> h_size s y" using big ys(5) by auto
  then obtain r y where r: "r \<in> set (freep s # ys)" "y \<in> set ys" "h_ptr s r = y" "nu \<le> h_size s y"
      "malloc_loop n sb nu (freep s) (hd ys) s = Some (carve nu r y s)"
    using scan_finds [OF ys(1-3), of nu n sb] ys(6) fuel by auto
  obtain a s' where c: "carve nu r y s = (a, s')" by (cases "carve nu r y s")
  have "r \<in> set (base # xs)" "y \<in> set (base # xs)" using r(1,2) ys(5) heapD(6) [OF h] by auto
  from carve_heap [OF h this(1) r(3) nu r(4) this(2) c] show ?thesis
    using r(5) c ys(7) heap_uheap unfolding cut_def by metis
qed

lemma loop_grows:
  assumes h: "heap base s xs hi" and small: "\<forall>x\<in>set xs. h_size s x < nu" and nu: "0 < nu" "16 * nu < 2 ^ 31" and sb: "core_ok sb hi"
    and fuel: "2 * length xs + 3 \<le> n"
  shows "\<exists>a s'. malloc_loop n sb nu (freep s) (h_ptr s (freep s)) s = Some (a, s') \<and>
    (case sb (int (core_bytes nu)) of None \<Rightarrow> a = 0 \<and> s' = s
     | Some c \<Rightarrow> {c..<c + core_bytes nu} \<inter> space s xs = {} \<and>
         (\<exists>ys. cut base nu (space s xs \<union> {c..<c + core_bytes nu}) s a s' ys (c + core_bytes nu)))"
proof -
  obtain ys z where ys: "links s (freep s # ys) z" "ys \<noteq> []" "freep s \<notin> set (butlast ys)" "last ys = freep s" "set ys = set (base # xs)"
      "length ys = Suc (length xs)" "h_ptr s (freep s) = hd ys" using ring_from [OF h] by blast
  have all: "\<forall>y\<in>set ys. h_size s y < nu" using small ys(5) heapD(3) [OF h] nu by auto
  let ?n = "n - length ys"
  have fn: "length ys \<le> n" "length xs < ?n" "Suc (length xs) < ?n" using ys(6) fuel by auto
  note go = scan_none [OF ys(1-4) all fn(1), of sb]
  show ?thesis
  proof (cases "sb (int (core_bytes nu))")
    case None
    have "wrap32 (int ((if nu < 4096 then 4096 else nu) * 16)) = int (core_bytes nu)"
      using nu(2) by (subst wrap32_id) (simp_all add: core_bytes_def core_units_def max_def)
    then have "morecore ?n sb nu s = Some (0, s)" using None by (simp add: morecore_def Let_def)
    then show ?thesis using go ys(7) None by simp
  next
    case (Some c)
    obtain s' zs where m: "morecore ?n sb nu s = Some (freep s', s')" "heap base s' zs (c + core_bytes nu)"
        "space s' zs = space s xs \<union> {c..<c + core_bytes nu}" "set zs \<subseteq> set xs \<union> {c}" "{c..<c + core_bytes nu} \<inter> space s xs = {}"
        "\<exists>x\<in>set zs. nu \<le> h_size s' x" "\<forall>x. x \<notin> set (base # xs) \<union> {c} \<longrightarrow> h_size s' x = h_size s x"
      using morecore_ok [OF h sb nu(2) fn(2) Some] by blast
    have "distinct zs" using laid_distinct [OF heapD(2) [OF m(2)]] by simp
    then have "length zs = card (set zs)" by (simp add: distinct_card)
    also have "\<dots> \<le> card (set xs \<union> {c})" by (rule card_mono) (use m(4) in auto)
    also have "\<dots> \<le> Suc (length xs)" using card_length [of xs] card_insert_le_m1 [of "Suc (length xs)" "set xs" c] by simp
    finally have "length zs < ?n" using fn(3) by simp
    from loop_finds [OF m(2,6) nu(1) this] obtain a s2 ws where
      a: "malloc_loop ?n sb nu (freep s') (h_ptr s' (freep s')) s' = Some (a, s2)" "cut base nu (space s' zs) s' a s2 ws (c + core_bytes nu)" by blast
    have "base \<le> freep s'" by (rule block_bound(1) [OF m(2) heapD(6) [OF m(2)]])
    then have "freep s' \<noteq> 0" using heapD(4) [OF h] by simp
    then have "malloc_loop n sb nu (freep s) (h_ptr s (freep s)) s = Some (a, s2)" using go ys(7) m(1) a(1) by simp
    moreover have "cut base nu (space s xs \<union> {c..<c + core_bytes nu}) s a s2 ws (c + core_bytes nu)"
    proof -
      have "set xs \<subseteq> space s xs" using heapD(5) [OF h] by (auto simp: space_def block_def)
      moreover have "c \<in> {c..<c + core_bytes nu}" by (simp add: core_bytes_def core_units_def)
      ultimately have sub: "set xs \<union> {c} \<subseteq> space s xs \<union> {c..<c + core_bytes nu}" by blast
      have "h_size s' x = h_size s x" if "x \<noteq> base" "x \<notin> space s xs \<union> {c..<c + core_bytes nu}" for x
      proof -
        have "x \<notin> set (base # xs) \<union> {c}" using sub that by auto
        then show ?thesis using m(7) by blast
      qed
      then show ?thesis using a(2) unfolding cut_def m(3) by metis
    qed
    ultimately show ?thesis using m(5) Some by auto
  qed
qed
lemma units_room: "nbytes + 16 \<le> 16 * units_for nbytes" "0 < units_for nbytes" "16 * units_for nbytes \<le> nbytes + 31"
  by (simp_all add: units_for_def)

text \<open>C8: \<open>malloc\<close> on a well-formed heap always ends. It returns the null pointer only when no free block is large enough and \<open>sbrk\<close>
  fails, leaving the free blocks as they were; otherwise it returns a block with room for the bytes asked for and its header, cut out of
  the free space or of what \<open>sbrk\<close> just gave: the block overlaps no free block that is left, what is left is exactly the rest, and the
  list of free blocks is well formed again. The request stays below \<open>2 ^ 31\<close> bytes, since \<open>sbrk\<close> takes an \<open>int\<close>.\<close>

theorem malloc_allocates:
  assumes h: "uheap base s xs hi" and sb: "core_ok sb hi" and nb: "nbytes + 31 < 2 ^ 31" and fuel: "2 * length xs + 3 \<le> n"
  shows "\<exists>a s'. malloc base n sb nbytes s = Some (a, s') \<and>
    (if a = 0 then sb (int (core_bytes (units_for nbytes))) = None \<and> (\<forall>x\<in>set xs. h_size s x < units_for nbytes) \<and>
       uheap base s' xs hi \<and> space s' xs = space s xs
     else nbytes + 16 \<le> 16 * units_for nbytes \<and>
       ((\<exists>ys. cut base (units_for nbytes) (space s xs) s a s' ys hi) \<or>
        (\<exists>c ys. sb (int (core_bytes (units_for nbytes))) = Some c \<and> {c..<c + core_bytes (units_for nbytes)} \<inter> space s xs = {} \<and>
          cut base (units_for nbytes) (space s xs \<union> {c..<c + core_bytes (units_for nbytes)}) s a s' ys (c + core_bytes (units_for nbytes)))))"
proof -
  let ?nu = "units_for nbytes"
  define s1 where "s1 = (if freep s = 0 then set_size base 0 (set_ptr base base (s\<lparr>freep := base\<rparr>)) else s)"
  have s1: "heap base s1 xs hi" "space s1 xs = space s xs" "\<forall>x\<in>set xs. h_size s1 x = h_size s x"
    using heap_start [OF h] unfolding s1_def by blast+
  have m: "malloc base n sb nbytes s = malloc_loop n sb ?nu (freep s1) (h_ptr s1 (freep s1)) s1" by (simp add: malloc_def Let_def s1_def)
  have nu: "0 < ?nu" "16 * ?nu < 2 ^ 31" "nbytes + 16 \<le> 16 * ?nu" using units_room [of nbytes] nb by simp_all
  have az: "a \<noteq> 0" if "cut base ?nu S t a s' ys k" for S t a s' ys k using that by (auto simp: cut_def)
  have cs: "cut base ?nu S s1 a s' ys k \<longleftrightarrow> cut base ?nu S s a s' ys k" "space s1 xs = space s xs" for S a s' ys k
    using s1(2) by (auto simp: cut_def s1_def)
  show ?thesis
  proof (cases "\<exists>x\<in>set xs. ?nu \<le> h_size s1 x")
    case True
    obtain a s' ys where "malloc_loop n sb ?nu (freep s1) (h_ptr s1 (freep s1)) s1 = Some (a, s')" "cut base ?nu (space s1 xs) s1 a s' ys hi"
      using loop_finds [OF s1(1) True nu(1), of n sb] fuel by auto
    then show ?thesis using az [of "space s1 xs" s1 a s' ys hi] m nu(3) cs by auto
  next
    case False
    then have small: "\<forall>x\<in>set xs. h_size s1 x < ?nu" by auto
    obtain a s' where r: "malloc base n sb nbytes s = Some (a, s')" and c: "case sb (int (core_bytes ?nu)) of None \<Rightarrow> a = 0 \<and> s' = s1
         | Some c \<Rightarrow> {c..<c + core_bytes ?nu} \<inter> space s1 xs = {} \<and>
             (\<exists>ys. cut base ?nu (space s1 xs \<union> {c..<c + core_bytes ?nu}) s1 a s' ys (c + core_bytes ?nu))"
      using loop_grows [OF s1(1) small nu(1,2) sb fuel] unfolding m by blast
    show ?thesis
    proof (cases "sb (int (core_bytes ?nu))")
      case None
      then show ?thesis using r c small s1 heap_uheap [OF s1(1)] by simp
    next
      case (Some d)
      then obtain ys where ys: "cut base ?nu (space s xs \<union> {d..<d + core_bytes ?nu}) s a s' ys (d + core_bytes ?nu)"
        "{d..<d + core_bytes ?nu} \<inter> space s xs = {}" using c s1(2) cs by auto
      then have "a \<noteq> 0" using az by blast
      then show ?thesis using r ys Some nu(3) by auto
    qed
  qed
qed

text \<open>A first call, on a program of one page, and one that takes the tail of a free block.\<close>

definition heap0 :: ustate where
  "heap0 = \<lparr>h_ptr = (\<lambda>_. 0), h_size = (\<lambda>_. 0), freep = 0\<rparr>"

definition sbrk0 :: "nat \<Rightarrow> int \<Rightarrow> nat option" where
  "sbrk0 brk m = (if m < 2 ^ 20 then Some brk else None)"

theorem malloc_allocates_witness:
  "\<exists>a s'. malloc 4080 3 (sbrk0 8192) 100 heap0 = Some (a, s') \<and>
    (if a = 0 then sbrk0 8192 (int (core_bytes (units_for 100))) = None \<and> (\<forall>x\<in>set []. h_size heap0 x < units_for 100) \<and>
       uheap 4080 s' [] 8192 \<and> space s' [] = space heap0 []
     else (100 :: nat) + 16 \<le> 16 * units_for 100 \<and>
       ((\<exists>ys. cut 4080 (units_for 100) (space heap0 []) heap0 a s' ys 8192) \<or>
        (\<exists>c ys. sbrk0 8192 (int (core_bytes (units_for 100))) = Some c \<and> {c..<c + core_bytes (units_for 100)} \<inter> space heap0 [] = {} \<and>
          cut 4080 (units_for 100) (space heap0 [] \<union> {c..<c + core_bytes (units_for 100)}) heap0 a s' ys (c + core_bytes (units_for 100)))))"
  by (rule malloc_allocates [of 4080 heap0 "[]" 8192]) (simp_all add: uheap_def heap0_def core_ok_def sbrk0_def)

text \<open>C15: \<open>free\<close> puts back a block that overlaps no free block: the search of its place in the ring of headers ends from any \<open>freep\<close>, the list
  of free blocks stays sorted by address, linked in a ring and without overlaps, whether or not the block is joined with its neighbours,
  the free space grows by exactly the block, and the sizes in the headers of the other blocks stay.\<close>

theorem free_returns_block:
  assumes "heap base s xs hi" and "base < bp" and "0 < h_size s bp" and "block s bp \<inter> space s xs = {}" and "bp + 16 * h_size s bp \<le> hi"
    and "length xs < n"
  shows "\<exists>s' ys. free n (bp + 16) s = Some s' \<and> heap base s' ys hi \<and> space s' ys = space s xs \<union> block s bp \<and>
    (\<forall>x. x \<notin> space s xs \<union> block s bp \<longrightarrow> x \<noteq> base \<longrightarrow> h_size s' x = h_size s x)"
proof -
  obtain s' ys where f: "free n (bp + 16) s = Some s'" "heap base s' ys hi" "space s' ys = space s xs \<union> block s bp"
    "\<forall>x. x \<notin> set (base # xs) \<union> {bp} \<longrightarrow> h_size s' x = h_size s x" using free_heap [OF assms] by blast
  have "set xs \<subseteq> space s xs" "bp \<in> block s bp" using heapD(5) [OF assms(1)] assms(3) by (auto simp: space_def block_def)
  then show ?thesis using f by (intro exI [of _ s'] exI [of _ ys]) auto
qed

definition heap1 :: ustate where
  "heap1 = \<lparr>h_ptr = (\<lambda>_. 0)(4080 := 8192, 8192 := 12288, 12288 := 4080),
            h_size = (\<lambda>_. 0)(8192 := 4, 8256 := 6, 12288 := 10), freep = 12288\<rparr>"

theorem free_returns_block_witness:
  "heap 4080 heap1 [8192, 12288] 20480 \<and> block heap1 8256 \<inter> space heap1 [8192, 12288] = {} \<and>
   (\<exists>s' ys. free 3 (8256 + 16) heap1 = Some s' \<and> heap 4080 s' ys 20480 \<and> space s' ys = space heap1 [8192, 12288] \<union> block heap1 8256 \<and>
      (\<forall>x. x \<notin> space heap1 [8192, 12288] \<union> block heap1 8256 \<longrightarrow> x \<noteq> 4080 \<longrightarrow> h_size s' x = h_size heap1 x))"
proof -
  have h: "heap 4080 heap1 [8192, 12288] 20480" by (simp add: heap_def heap1_def)
  have b: "block heap1 8256 \<inter> space heap1 [8192, 12288] = {}" by (auto simp: block_def heap1_def)
  have "(4080 :: nat) < 8256" "0 < h_size heap1 8256" "8256 + 16 * h_size heap1 8256 \<le> 20480" "length [8192, 12288 :: nat] < 3"
    by (simp_all add: heap1_def)
  then show ?thesis using free_returns_block [OF h _ _ b] h b by blast
qed

end
