(* ===== verification/Utils.thy ===== *)
theory Utils
  imports Ulib Fs
begin

unbundle bit_operations_syntax

text \<open>
  The small user programs: user/cat.c, user/wc.c, user/echo.c, user/kill.c, user/ln.c, user/mkdir.c, user/rm.c, user/ls.c, user/setpriority.c and
  user/getreadcount.c. A program is the tree of its system calls, which branches on what a call returns: its value, and the bytes it stores
  into the caller's buffer. One \<open>fprintf\<close> is one write. A loop that reads until the end of a file takes the number of reads as
  fuel; a run that needs more ends in \<open>Fuel\<close>.
\<close>

section \<open>Programs\<close>

type_synonym bytes = "u8 list"

datatype call =
    Read int nat
  | Write int bytes
  | Open bytes u32
  | Close int
  | Fstat int
  | Link bytes bytes
  | Unlink bytes
  | Mkdir bytes
  | Kill int
  | Setpriority int int
  | Getreadcount

datatype prog = Exit int | Fuel | Call call "int \<times> bytes \<Rightarrow> prog"

definition chars :: "string \<Rightarrow> bytes" where
  "chars cs = map (\<lambda>c. of_nat (of_char c)) cs"

definition newline :: u8 where "newline = 10"

text \<open>\<open>fprintf\<close>; the programs pass arguments of the types their formats ask for.\<close>

definition fprintf :: "int \<Rightarrow> string \<Rightarrow> varg list \<Rightarrow> prog \<Rightarrow> prog" where
  "fprintf fd fmt args k = (case vprintf (chars fmt @ [newline]) args of Ok bs \<Rightarrow> Call (Write fd bs) (\<lambda>_. k) | Err _ \<Rightarrow> k)"

section \<open>cat\<close>

primrec cat :: "nat \<Rightarrow> int \<Rightarrow> prog \<Rightarrow> prog" where
  "cat 0 fd k = Fuel"
| "cat (Suc n) fd k =
     Call (Read fd 512) (\<lambda>(r, buf).
       if r > 0 then Call (Write 1 (take (nat r) buf)) (\<lambda>(w, _). if w \<noteq> r then fprintf 2 ''cat: write error'' [] (Exit 1) else cat n fd k)
       else if r < 0 then fprintf 2 ''cat: read error'' [] (Exit 1)
       else k)"

primrec cat_files :: "nat \<Rightarrow> bytes list \<Rightarrow> prog" where
  "cat_files n [] = Exit 0"
| "cat_files n (a # args) =
     Call (Open a 0) (\<lambda>(fd, _).
       if fd < 0 then fprintf 2 ''cat: cannot open %s'' [VStr (Some a)] (Exit 1)
       else cat n fd (Call (Close fd) (\<lambda>_. cat_files n args)))"

definition cat_main :: "nat \<Rightarrow> bytes list \<Rightarrow> prog" where
  "cat_main n args = (if args = [] then cat n 0 (Exit 0) else cat_files n args)"

section \<open>wc\<close>

record wcount =
  wl :: int
  ww :: int
  wc :: int
  inword :: bool

definition spaces :: bytes where "spaces = [32, 13, 9, 10, 11]"

definition wc_byte :: "u8 \<Rightarrow> wcount \<Rightarrow> wcount" where
  "wc_byte b s =
     (let s = s\<lparr>wc := wrap32 (wc s + 1)\<rparr>;
          s = (if b = newline then s\<lparr>wl := wrap32 (wl s + 1)\<rparr> else s)
      in if strchr spaces b \<noteq> None then s\<lparr>inword := False\<rparr>
         else if \<not> inword s then s\<lparr>ww := wrap32 (ww s + 1), inword := True\<rparr>
         else s)"

primrec wc_loop :: "nat \<Rightarrow> int \<Rightarrow> wcount \<Rightarrow> (wcount \<Rightarrow> prog) \<Rightarrow> prog" where
  "wc_loop 0 fd s k = Fuel"
| "wc_loop (Suc n) fd s k =
     Call (Read fd 512) (\<lambda>(r, buf).
       if r > 0 then wc_loop n fd (fold wc_byte (take (nat r) buf) s) k
       else if r < 0 then fprintf 1 ''wc: read error'' [] (Exit 1)
       else k s)"

definition wc_fd :: "nat \<Rightarrow> int \<Rightarrow> bytes \<Rightarrow> prog \<Rightarrow> prog" where
  "wc_fd n fd name k =
     wc_loop n fd \<lparr>wl = 0, ww = 0, wc = 0, inword = False\<rparr> (\<lambda>s.
       fprintf 1 ''%d %d %d %s'' [VInt (of_int (wl s)), VInt (of_int (ww s)), VInt (of_int (wc s)), VStr (Some name)] k)"

primrec wc_files :: "nat \<Rightarrow> bytes list \<Rightarrow> prog" where
  "wc_files n [] = Exit 0"
| "wc_files n (a # args) =
     Call (Open a 0) (\<lambda>(fd, _).
       if fd < 0 then fprintf 1 ''wc: cannot open %s'' [VStr (Some a)] (Exit 1)
       else wc_fd n fd a (Call (Close fd) (\<lambda>_. wc_files n args)))"

definition wc_main :: "nat \<Rightarrow> bytes list \<Rightarrow> prog" where
  "wc_main n args = (if args = [] then wc_fd n 0 [] (Exit 0) else wc_files n args)"

section \<open>Programs without reads\<close>

primrec echo_main :: "bytes list \<Rightarrow> prog" where
  "echo_main [] = Exit 0"
| "echo_main (a # args) =
     Call (Write 1 a) (\<lambda>_. Call (Write 1 (if args \<noteq> [] then [32] else [newline])) (\<lambda>_. echo_main args))"

primrec kill_all :: "bytes list \<Rightarrow> prog" where
  "kill_all [] = Exit 0"
| "kill_all (a # args) = Call (Kill (atoi a)) (\<lambda>_. kill_all args)"

definition kill_main :: "bytes list \<Rightarrow> prog" where
  "kill_main args = (if args = [] then fprintf 2 ''usage: kill pid...'' [] (Exit 1) else kill_all args)"

fun ln_main :: "bytes list \<Rightarrow> prog" where
  "ln_main [a, b] =
     Call (Link a b) (\<lambda>(r, _). if r < 0 then fprintf 2 ''link %s %s: failed'' [VStr (Some a), VStr (Some b)] (Exit 0) else Exit 0)"
| "ln_main args = fprintf 2 ''Usage: ln old new'' [] (Exit 1)"

primrec mkdir_all :: "bytes list \<Rightarrow> prog" where
  "mkdir_all [] = Exit 0"
| "mkdir_all (a # args) =
     Call (Mkdir a) (\<lambda>(r, _). if r < 0 then fprintf 2 ''mkdir: %s failed to create'' [VStr (Some a)] (Exit 0) else mkdir_all args)"

definition mkdir_main :: "bytes list \<Rightarrow> prog" where
  "mkdir_main args = (if args = [] then fprintf 2 ''Usage: mkdir files...'' [] (Exit 1) else mkdir_all args)"

primrec rm_all :: "bytes list \<Rightarrow> prog" where
  "rm_all [] = Exit 0"
| "rm_all (a # args) =
     Call (Unlink a) (\<lambda>(r, _). if r < 0 then fprintf 2 ''rm: %s failed to delete'' [VStr (Some a)] (Exit 0) else rm_all args)"

definition rm_main :: "bytes list \<Rightarrow> prog" where
  "rm_main args = (if args = [] then fprintf 2 ''Usage: rm files...'' [] (Exit 1) else rm_all args)"

text \<open>The comparison with -1 is inside the call.\<close>

fun setpriority_main :: "bytes list \<Rightarrow> prog" where
  "setpriority_main [a, b] =
     (let priority = atoi b; pid = atoi a
      in Call (Setpriority pid (if priority = -1 then 1 else 0)) (\<lambda>(r, _).
           if r \<noteq> 0 then fprintf 2 ''set priority error'' [] (Exit 1) else Exit 0))"
| "setpriority_main args = fprintf 2 ''invalid input'' [] (Exit 1)"

definition getreadcount_main :: prog where
  "getreadcount_main = Call Getreadcount (\<lambda>(r, _). fprintf 1 ''Current read count is %d'' [VInt (of_int r)] (Exit 0))"

section \<open>ls\<close>

text \<open>The name behind the last slash, padded with blanks to \<open>DIRSIZ\<close>.\<close>

definition fmtname :: "bytes \<Rightarrow> bytes" where
  "fmtname pth = (let p = rev (takeWhile (\<lambda>c. c \<noteq> slash) (rev pth))
     in if length p \<ge> DIRSIZ then p else p @ replicate (DIRSIZ - length p) 32)"

text \<open>The line of a file from the bytes of its \<open>struct stat\<close>; the size is passed for \<open>%d\<close> and cut to 32 bits.\<close>

definition ls_line :: "string \<Rightarrow> bytes \<Rightarrow> bytes \<Rightarrow> prog \<Rightarrow> prog" where
  "ls_line conv pth st k =
     fprintf 1 (''%s %d %d %'' @ conv)
       [VStr (Some (fmtname pth)), VInt (scast (get16 8 st)), VInt (get32 4 st), (if conv = ''l'' then VLong (ucast (get32 16 st) OR push_bit 32 (ucast (get32 20 st))) else VInt (get32 16 st))] k"

text \<open>\<open>stat\<close> of user/ulib.c.\<close>

definition ustat :: "bytes \<Rightarrow> (int \<Rightarrow> bytes \<Rightarrow> prog) \<Rightarrow> prog" where
  "ustat n k = Call (Open n 0) (\<lambda>(fd, _).
     if fd < 0 then k (-1) [] else Call (Fstat fd) (\<lambda>(r, st). Call (Close fd) (\<lambda>_. k r st)))"

primrec ls_dir :: "nat \<Rightarrow> int \<Rightarrow> bytes \<Rightarrow> prog \<Rightarrow> prog" where
  "ls_dir 0 fd pth k = Fuel"
| "ls_dir (Suc n) fd pth k =
     Call (Read fd 16) (\<lambda>(r, de).
       if r \<noteq> 16 then k
       else if get16 0 de = 0 then ls_dir n fd pth k
       else let buf = pth @ [slash] @ takeWhile (\<lambda>c. c \<noteq> 0) (take DIRSIZ (drop 2 de))
            in ustat buf (\<lambda>r st.
                 if r < 0 then fprintf 1 ''ls: cannot stat %s'' [VStr (Some buf)] (ls_dir n fd pth k)
                 else ls_line ''d'' buf st (ls_dir n fd pth k)))"

definition ls :: "nat \<Rightarrow> bytes \<Rightarrow> prog \<Rightarrow> prog" where
  "ls n pth k =
     Call (Open pth 0) (\<lambda>(fd, _).
       if fd < 0 then fprintf 2 ''ls: cannot open %s'' [VStr (Some pth)] k
       else Call (Fstat fd) (\<lambda>(r, st).
         let close = Call (Close fd) (\<lambda>_. k)
         in if r < 0 then fprintf 2 ''ls: cannot stat %s'' [VStr (Some pth)] close
            else if get16 8 st = T_DEVICE \<or> get16 8 st = T_FILE then ls_line ''l'' pth st close
            else if get16 8 st = T_DIR then
              (if length pth + 1 + DIRSIZ + 1 > 512 then fprintf 1 ''ls: path too long'' [] close else ls_dir n fd pth close)
            else close))"

primrec ls_all :: "nat \<Rightarrow> bytes list \<Rightarrow> prog" where
  "ls_all n [] = Exit 0"
| "ls_all n (a # args) = ls n a (ls_all n args)"

definition ls_main :: "nat \<Rightarrow> bytes list \<Rightarrow> prog" where
  "ls_main n args = (if args = [] then ls n [46] (Exit 0) else ls_all n args)"

section \<open>Running a program\<close>

text \<open>The calls of a run with their results, and how it ends, when \<open>K\<close> is what the kernel does.\<close>

primrec run :: "('s \<Rightarrow> call \<Rightarrow> (int \<times> bytes) \<times> 's) \<Rightarrow> prog \<Rightarrow> 's \<Rightarrow> (call \<times> int \<times> bytes) list \<times> int option \<times> 's" where
  "run K (Exit c) s = ([], Some c, s)"
| "run K Fuel s = ([], None, s)"
| "run K (Call c k) s = (let (r, s') = K s c; (t, e, s'') = run K (k r) s' in ((c, r) # t, e, s''))"

text \<open>
  A kernel with readable files. A read returns at least one byte and at most what is asked for, unless the file is at its end;
  how many is the parameter \<open>amount\<close>. Writes to descriptor 1 are collected.
\<close>

record kst =
  rest :: "int \<Rightarrow> bytes"
  shown :: bytes

definition serve :: "(bytes \<Rightarrow> bytes option) \<Rightarrow> (bytes \<Rightarrow> nat) \<Rightarrow> kst \<Rightarrow> call \<Rightarrow> (int \<times> bytes) \<times> kst" where
  "serve files amount s c =
     (case c of
        Read fd n \<Rightarrow> let bs = take (min n (max 1 (amount (rest s fd)))) (rest s fd)
          in ((int (length bs), bs), s\<lparr>rest := (rest s)(fd := drop (length bs) (rest s fd))\<rparr>)
      | Write fd bs \<Rightarrow> ((int (length bs), []), if fd = 1 then s\<lparr>shown := shown s @ bs\<rparr> else s)
      | Open name m \<Rightarrow> (case files name of None \<Rightarrow> ((-1, []), s) | Some bs \<Rightarrow> ((3, []), s\<lparr>rest := (rest s)(3 := bs)\<rparr>))
      | _ \<Rightarrow> ((0, []), s))"

abbreviation final :: "(call \<times> int \<times> bytes) list \<times> int option \<times> kst \<Rightarrow> int option \<times> kst" where
  "final \<equiv> snd"

lemma run_call: "final (run K (Call c k) s) = final (run K (k (fst (K s c))) (snd (K s c)))"
  by (simp add: case_prod_unfold Let_def)

lemma run_fprintf:
  assumes "vprintf (chars fmt @ [newline]) args = Ok bs"
  shows "final (run (serve files amount) (fprintf 1 fmt args k) s) = final (run (serve files amount) k (s\<lparr>shown := shown s @ bs\<rparr>))"
  using assms by (simp add: fprintf_def serve_def case_prod_unfold Let_def)

text \<open>What is left after a read, and the pieces it is read in.\<close>

lemma serve_read:
  assumes "rest s fd \<noteq> []"
  obtains bs rs s' where "serve files amount s (Read fd 512) = ((int (length bs), bs), s')" "bs \<noteq> []" "rest s fd = bs @ rs"
    "s' = s\<lparr>rest := (rest s)(fd := rs)\<rparr>"
proof -
  let ?bs = "take (min 512 (max 1 (amount (rest s fd)))) (rest s fd)"
  have "?bs \<noteq> []" using assms by simp
  moreover have "rest s fd = ?bs @ drop (length ?bs) (rest s fd)" by (metis append_eq_conv_conj append_take_drop_id)
  ultimately show ?thesis by (rule that [rotated]) (simp_all add: serve_def Let_def)
qed

lemma serve_write: "serve files amount s (Write 1 bs) = ((int (length bs), []), s\<lparr>shown := shown s @ bs\<rparr>)"
  by (simp add: serve_def)

lemma serve_end: "rest s fd = [] \<Longrightarrow> serve files amount s (Read fd 512) = ((0, []), s)"
  by (simp add: serve_def Let_def fun_upd_idem)

lemma cat_copies:
  "length (rest s fd) < n \<Longrightarrow> final (run (serve files amount) (cat n fd k) s) =
     final (run (serve files amount) k (s\<lparr>rest := (rest s)(fd := []), shown := shown s @ rest s fd\<rparr>))"
proof (induction n arbitrary: s)
  case (Suc n)
  show ?case
  proof (cases "rest s fd = []")
    case True
    then show ?thesis using serve_end [OF True, of files amount] by (simp add: fun_upd_idem case_prod_unfold Let_def)
  next
    case False
    obtain bs rs s' where r: "serve files amount s (Read fd 512) = ((int (length bs), bs), s')" "bs \<noteq> []" "rest s fd = bs @ rs"
      "s' = s\<lparr>rest := (rest s)(fd := rs)\<rparr>" by (rule serve_read [OF False])
    note w = serve_write [of files amount s' bs]
    have l: "length (rest (s'\<lparr>shown := shown s' @ bs\<rparr>) fd) < n" using Suc.prems r(2,3,4) by (cases bs) auto
    let ?s = "s'\<lparr>shown := shown s' @ bs\<rparr>"
    have "final (run (serve files amount) (cat (Suc n) fd k) s) = final (run (serve files amount) (cat n fd k) ?s)"
      using r(1,2) w by (simp add: case_prod_unfold Let_def)
    also have "\<dots> = final (run (serve files amount) k (?s\<lparr>rest := (rest ?s)(fd := []), shown := shown ?s @ rest ?s fd\<rparr>))" by (rule Suc.IH [OF l])
    also have "?s\<lparr>rest := (rest ?s)(fd := []), shown := shown ?s @ rest ?s fd\<rparr> = s\<lparr>rest := (rest s)(fd := []), shown := shown s @ rest s fd\<rparr>"
      using r(3,4) by simp
    finally show ?thesis .
  qed
qed simp

lemma cat_main_copies:
  assumes "\<forall>a\<in>set args. \<exists>bs. files a = Some bs \<and> length bs < n" and "args \<noteq> []"
  shows "\<exists>s'. final (run (serve files amount) (cat_main n args) s) = (Some 0, s') \<and> shown s' = shown s @ concat (map (\<lambda>a. the (files a)) args)"
proof -
  have "\<exists>s'. final (run (serve files amount) (cat_files n args) s) = (Some 0, s') \<and> shown s' = shown s @ concat (map (\<lambda>a. the (files a)) args)"
    using assms(1)
  proof (induction args arbitrary: s)
    case (Cons a args)
    obtain bs where b: "files a = Some bs" "length bs < n" using Cons.prems by auto
    let ?s1 = "s\<lparr>rest := (rest s)(3 := bs)\<rparr>" and ?k = "Call (Close 3) (\<lambda>_. cat_files n args)"
    let ?s2 = "?s1\<lparr>rest := (rest ?s1)(3 := []), shown := shown ?s1 @ rest ?s1 3\<rparr>"
    have "final (run (serve files amount) (cat_files n (a # args)) s) = final (run (serve files amount) (cat n 3 ?k) ?s1)"
      using b(1) by (simp add: serve_def case_prod_unfold Let_def)
    also have "\<dots> = final (run (serve files amount) ?k ?s2)" by (rule cat_copies) (use b in simp)
    also have "\<dots> = final (run (serve files amount) (cat_files n args) ?s2)" by (simp add: serve_def case_prod_unfold Let_def)
    finally have e: "final (run (serve files amount) (cat_files n (a # args)) s) = final (run (serve files amount) (cat_files n args) ?s2)" .
    have "\<forall>x\<in>set args. \<exists>bs. files x = Some bs \<and> length bs < n" using Cons.prems by simp
    from Cons.IH [OF this, of ?s2] show ?case unfolding e using b(1) by auto
  qed simp
  then show ?thesis using assms(2) by (simp add: cat_main_def)
qed

section \<open>Counting words\<close>

abbreviation is_space :: "u8 \<Rightarrow> bool" where
  "is_space b \<equiv> b \<in> set spaces"

lemma strchr_set: "strchr cs b \<noteq> None \<longleftrightarrow> b \<in> set cs"
  by (induction cs) (auto split: if_splits)

text \<open>The words of a text: its maximal runs of bytes that are not white space.\<close>

function words :: "bytes \<Rightarrow> bytes list" where
  "words xs = (case dropWhile is_space xs of [] \<Rightarrow> []
     | y # ys \<Rightarrow> takeWhile (\<lambda>b. \<not> is_space b) (y # ys) # words (dropWhile (\<lambda>b. \<not> is_space b) (y # ys)))"
  by pat_completeness auto
termination
proof (relation "measure length", goal_cases)
  case (2 xs y ys)
  then have "\<not> is_space y" "length (y # ys) \<le> length xs" using hd_dropWhile [of is_space xs] length_dropWhile_le [of is_space xs] by auto
  then show ?case using length_dropWhile_le [of "\<lambda>b. \<not> is_space b" ys] by simp
qed simp

declare words.simps [simp del]

lemma words_simps: "words [] = []" "is_space b \<Longrightarrow> words (b # xs) = words xs"
    "\<not> is_space b \<Longrightarrow> words (b # xs) = takeWhile (\<lambda>b. \<not> is_space b) (b # xs) # words (dropWhile (\<lambda>b. \<not> is_space b) xs)"
  by (simp_all add: words.simps [of "[]"] words.simps [of "b # xs"] words.simps [of xs])

text \<open>Words that begin in a text, when the byte before it is part of a word or not.\<close>

definition begins :: "bool \<Rightarrow> bytes \<Rightarrow> nat" where
  "begins w xs = length (words (if w then dropWhile (\<lambda>b. \<not> is_space b) xs else xs))"

lemma begins_simps: "begins w [] = 0" "is_space b \<Longrightarrow> begins w (b # xs) = begins False xs"
    "\<not> is_space b \<Longrightarrow> begins w (b # xs) = (if w then 0 else 1) + begins True xs"
  by (auto simp: begins_def words_simps)

lemma wc_counts:
  assumes "inword s = w" "wl s \<ge> 0" "ww s \<ge> 0" "wc s \<ge> 0"
    "wl s + int (length xs) < 2 ^ 31" "ww s + int (length xs) < 2 ^ 31" "wc s + int (length xs) < 2 ^ 31"
  shows "wl (fold wc_byte xs s) = wl s + int (count_list xs newline) \<and> ww (fold wc_byte xs s) = ww s + int (begins w xs) \<and>
    wc (fold wc_byte xs s) = wc s + int (length xs)"
  using assms
proof (induction xs arbitrary: s w)
  case (Cons b xs)
  have w: "wrap32 (wl s + 1) = wl s + 1" "wrap32 (ww s + 1) = ww s + 1" "wrap32 (wc s + 1) = wc s + 1" using Cons.prems by (simp_all add: wrap32_id)
  have sp: "strchr spaces b \<noteq> None \<longleftrightarrow> is_space b" by (rule strchr_set)
  have n: "is_space newline" by (simp add: spaces_def newline_def)
  have st: "inword (wc_byte b s) = (\<not> is_space b)" "wl (wc_byte b s) = wl s + (if b = newline then 1 else 0)"
    "ww (wc_byte b s) = ww s + (if \<not> is_space b \<and> \<not> w then 1 else 0)" "wc (wc_byte b s) = wc s + 1"
    using Cons.prems(1) by (simp_all only: wc_byte_def Let_def sp) (simp_all add: w)
  have "wl (fold wc_byte xs (wc_byte b s)) = wl (wc_byte b s) + int (count_list xs newline) \<and>
    ww (fold wc_byte xs (wc_byte b s)) = ww (wc_byte b s) + int (begins (\<not> is_space b) xs) \<and>
    wc (fold wc_byte xs (wc_byte b s)) = wc (wc_byte b s) + int (length xs)"
    by (rule Cons.IH) (use Cons.prems st in auto)
  then show ?case using st n by (auto simp: begins_simps)
qed (simp add: begins_simps)
lemma wc_loop_counts:
  "length (rest s fd) < n \<Longrightarrow> final (run (serve files amount) (wc_loop n fd st k) s) =
     final (run (serve files amount) (k (fold wc_byte (rest s fd) st)) (s\<lparr>rest := (rest s)(fd := [])\<rparr>))"
proof (induction n arbitrary: s st)
  case (Suc n)
  show ?case
  proof (cases "rest s fd = []")
    case True
    then show ?thesis using serve_end [OF True, of files amount] by (simp add: fun_upd_idem case_prod_unfold Let_def)
  next
    case False
    obtain bs rs s' where r: "serve files amount s (Read fd 512) = ((int (length bs), bs), s')" "bs \<noteq> []" "rest s fd = bs @ rs"
      "s' = s\<lparr>rest := (rest s)(fd := rs)\<rparr>" by (rule serve_read [OF False])
    have l: "length (rest s' fd) < n" using Suc.prems r(2,3,4) by (cases bs) auto
    have "final (run (serve files amount) (wc_loop (Suc n) fd st k) s) = final (run (serve files amount) (wc_loop n fd (fold wc_byte bs st) k) s')"
      using r(1,2) by (simp add: case_prod_unfold Let_def)
    also have "\<dots> = final (run (serve files amount) (k (fold wc_byte (rest s' fd) (fold wc_byte bs st))) (s'\<lparr>rest := (rest s')(fd := [])\<rparr>))" by (rule Suc.IH [OF l])
    also have "fold wc_byte (rest s' fd) (fold wc_byte bs st) = fold wc_byte (rest s fd) st" using r(3,4) by simp
    also have "s'\<lparr>rest := (rest s')(fd := [])\<rparr> = s\<lparr>rest := (rest s)(fd := [])\<rparr>" using r(4) by simp
    finally show ?thesis .
  qed
qed simp

definition dec :: "nat \<Rightarrow> bytes" where
  "dec n = Ulib.printint (of_nat n) 10 True"

definition wc_line :: "bytes \<Rightarrow> bytes \<Rightarrow> bytes" where
  "wc_line name bs = dec (count_list bs newline) @ [32] @ dec (length (words bs)) @ [32] @ dec (length bs) @ [32] @ name @ [newline]"

lemma wc_format:
  "vprintf (chars ''%d %d %d %s'' @ [newline]) [VInt a, VInt b, VInt c, VStr (Some name)] =
     Ok (Ulib.printint a 10 True @ [32] @ Ulib.printint b 10 True @ [32] @ Ulib.printint c 10 True @ [32] @ name @ [newline])"
  by (simp add: vprintf_def chars_def newline_def)

lemma wc_fd_prints:
  assumes "length (rest s fd) < n" and "length (rest s fd) < 2 ^ 31"
  shows "final (run (serve files amount) (wc_fd n fd name k) s) =
    final (run (serve files amount) k (s\<lparr>rest := (rest s)(fd := []), shown := shown s @ wc_line name (rest s fd)\<rparr>))"
proof -
  let ?bs = "rest s fd"
  let ?st = "fold wc_byte ?bs \<lparr>wl = 0, ww = 0, wc = 0, inword = False\<rparr>"
  have "begins False ?bs \<le> length ?bs"
  proof -
    have "begins w xs \<le> length xs" for w xs
    proof (induction xs arbitrary: w)
      case (Cons b xs)
      then show ?case using Cons.IH [of True] Cons.IH [of False] by (cases "is_space b") (auto simp: begins_simps le_SucI)
    qed (simp add: begins_simps)
    then show ?thesis .
  qed
  have c: "wl ?st = int (count_list ?bs newline)" "ww ?st = int (length (words ?bs))" "wc ?st = int (length ?bs)"
    using wc_counts [of "\<lparr>wl = 0, ww = 0, wc = 0, inword = False\<rparr>" False ?bs] assms(2) by (simp_all add: begins_def)
  note f = wc_format [of "of_int (wl ?st)" "of_int (ww ?st)" "of_int (wc ?st)" name]
  have "Ulib.printint (of_int (wl ?st)) 10 True @ [32] @ Ulib.printint (of_int (ww ?st)) 10 True @ [32] @ Ulib.printint (of_int (wc ?st)) 10 True @ [32] @ name @ [newline] =
      wc_line name ?bs" unfolding c by (simp add: wc_line_def dec_def)
  then show ?thesis unfolding wc_fd_def wc_loop_counts [OF assms(1)] run_fprintf [OF f] by simp
qed

text \<open>\<open>wc\<close> prints for each file the number of its newlines, words and bytes, however the kernel splits the reads.\<close>

lemma wc_main_prints:
  assumes "\<forall>a\<in>set args. \<exists>bs. files a = Some bs \<and> length bs < n \<and> length bs < 2 ^ 31" and "args \<noteq> []"
  shows "\<exists>s'. final (run (serve files amount) (wc_main n args) s) = (Some 0, s') \<and>
    shown s' = shown s @ concat (map (\<lambda>a. wc_line a (the (files a))) args)"
proof -
  have "\<exists>s'. final (run (serve files amount) (wc_files n args) s) = (Some 0, s') \<and> shown s' = shown s @ concat (map (\<lambda>a. wc_line a (the (files a))) args)"
    using assms(1)
  proof (induction args arbitrary: s)
    case (Cons a args)
    obtain bs where b: "files a = Some bs" "length bs < n" "length bs < 2 ^ 31" using Cons.prems by auto
    let ?s1 = "s\<lparr>rest := (rest s)(3 := bs)\<rparr>" and ?k = "Call (Close 3) (\<lambda>_. wc_files n args)"
    let ?s2 = "?s1\<lparr>rest := (rest ?s1)(3 := []), shown := shown ?s1 @ wc_line a (rest ?s1 3)\<rparr>"
    have "final (run (serve files amount) (wc_files n (a # args)) s) = final (run (serve files amount) (wc_fd n 3 a ?k) ?s1)"
      using b(1) by (simp add: serve_def case_prod_unfold Let_def)
    also have "\<dots> = final (run (serve files amount) ?k ?s2)" by (rule wc_fd_prints) (use b in simp_all)
    also have "\<dots> = final (run (serve files amount) (wc_files n args) ?s2)" by (simp add: serve_def case_prod_unfold Let_def)
    finally have e: "final (run (serve files amount) (wc_files n (a # args)) s) = final (run (serve files amount) (wc_files n args) ?s2)" .
    have "\<forall>x\<in>set args. \<exists>bs. files x = Some bs \<and> length bs < n \<and> length bs < 2 ^ 31" using Cons.prems by simp
    from Cons.IH [OF this, of ?s2] show ?case unfolding e using b(1) by auto
  qed simp
  then show ?thesis using assms(2) by (simp add: wc_main_def)
qed

section \<open>echo, setpriority\<close>

lemma echo_prints:
  "args \<noteq> [] \<Longrightarrow> \<exists>s'. final (run (serve files amount) (echo_main args) s) = (Some 0, s') \<and>
     shown s' = shown s @ concat (map (\<lambda>a. a @ [32]) (butlast args)) @ last args @ [newline]"
proof (induction args arbitrary: s)
  case (Cons a args)
  show ?case
  proof (cases "args = []")
    case True
    then show ?thesis by (simp add: serve_write case_prod_unfold Let_def)
  next
    case False
    then show ?thesis using Cons.IH [OF False, of "s\<lparr>shown := (shown s @ a) @ [32]\<rparr>"] by (simp add: serve_write case_prod_unfold Let_def)
  qed
qed simp



end
