(* ===== verification/Threads.thy ===== *)
theory Threads
  imports Prelude
begin

text \<open>
  What the two pthread programs (concurrency/1.c and 2.c) share: the contract of an inductive
  invariant of a step relation, and lemmas on loops that leave part of the state alone.
\<close>

locale kept =
  fixes step :: "'s \<Rightarrow> 's \<Rightarrow> bool" and I :: "'s \<Rightarrow> bool"
  assumes keep: "step s s' \<Longrightarrow> I s \<Longrightarrow> I s'"
begin

lemma along: "step\<^sup>*\<^sup>* s0 s \<Longrightarrow> I s0 \<Longrightarrow> I s"
  by (induction rule: rtranclp_induct) (auto dest: keep)

end

lemma fold_keeps: "(\<And>x s. g (f x s) = g s) \<Longrightarrow> g (fold f xs s) = g s"
  by (induction xs arbitrary: s) auto

text \<open>A sum over the threads when one of them moves.\<close>

lemma sum_move:
  fixes w :: "'p \<Rightarrow> int"
  assumes "finite A" and "c \<in> A"
  shows "(\<Sum>x\<in>A. w ((g(c := v)) x)) = (\<Sum>x\<in>A. w (g x)) - w (g c) + w v"
proof -
  have "(\<Sum>x\<in>A. w ((g(c := v)) x)) = w v + (\<Sum>x\<in>A - {c}. w ((g(c := v)) x))"
    using sum.remove [OF assms, of "\<lambda>x. w ((g(c := v)) x)"] by simp
  also have "(\<Sum>x\<in>A - {c}. w ((g(c := v)) x)) = (\<Sum>x\<in>A - {c}. w (g x))"
    by (rule sum.cong) auto
  also have "(\<Sum>x\<in>A - {c}. w (g x)) = (\<Sum>x\<in>A. w (g x)) - w (g c)"
    using sum.remove [OF assms, of "\<lambda>x. w (g x)"] by simp
  finally show ?thesis by simp
qed

end
