(* ===== verification/Cafe.thy ===== *)
theory Cafe
  imports Threads
begin

text \<open>
  concurrency/1.c, the cafe: a main thread that keeps the clock, one thread per barista and one per
  customer, synchronised by semaphores. A thread is a program counter with its local variables;
  it moves from one semaphore operation on which it can block to the next in one step, and the
  step relation interleaves the threads in any order. What the program prints is a list of
  events. Simulated times are far below the range of \<open>int\<close>.
\<close>

section \<open>Globals\<close>

record customernode =
  cust_no :: int
  c_tol_time :: int
  cust_arrival :: int
  order_completion_status :: int

record ordernode =
  order_taken_status :: int
  orderstatus :: int
  o_cust_no :: int
  cofee :: string

datatype semid = MachineLock | Superlock | OrderComp nat | Baristas nat | Customers nat | RejCustomers nat

datatype event =
    TimeIs int | Enters nat int | Orders nat string | StartsPreparing nat int int
  | Completes nat int int | LeavesWithout nat int | Collected nat int
  | CoffeeWasted int | AvgWait int | CafeClosed

text \<open>Where a thread waits, or that it is inside the critical section, or that it has returned.\<close>

datatype bpc = BTop | BLock | BCrit | BComp | BDone
datatype cpc = CEnter | CServed | CGone
datatype mpc = MTop | MCrit | MSleep | MDone

record cafe =
  special_flag :: "nat \<Rightarrow> int"
  cust :: "nat \<Rightarrow> customernode"
  order_list :: "nat \<Rightarrow> ordernode"
  tmr :: int
  totalorders :: int
  coffee_wasted :: int
  wait_time :: int
  close_sig :: int
  sem :: "semid \<Rightarrow> nat"
  finish_time_order :: "nat \<Rightarrow> int"
  wake_up_index :: "nat \<Rightarrow> int"
  wake_up_index_cust :: "nat \<Rightarrow> int"
  tol_time :: "nat \<Rightarrow> int"
  menu :: "(string \<times> int) list"       \<comment> \<open>cofee_list and cofee_time\<close>
  nb :: nat                            \<comment> \<open>b, number of baristas\<close>
  nc :: nat                            \<comment> \<open>n, number of customers\<close>
  printed :: "event list"
  b_pc :: "nat \<Rightarrow> bpc"
  b_cst :: "nat \<Rightarrow> nat"
  b_flag :: "nat \<Rightarrow> int"
  c_pc :: "nat \<Rightarrow> cpc"
  m_pc :: mpc

definition say :: "event \<Rightarrow> cafe \<Rightarrow> cafe" where
  "say e s = s\<lparr>printed := printed s @ [e]\<rparr>"

definition sem_post :: "semid \<Rightarrow> cafe \<Rightarrow> cafe" where
  "sem_post x s = s\<lparr>sem := (sem s)(x := sem s x + 1)\<rparr>"

text \<open>\<open>sem_wait\<close> blocks (\<open>None\<close>) while the semaphore is 0.\<close>

definition sem_wait :: "semid \<Rightarrow> cafe \<Rightarrow> cafe option" where
  "sem_wait x s = (if sem s x = 0 then None else Some (s\<lparr>sem := (sem s)(x := sem s x - 1)\<rparr>))"

section \<open>Helpers\<close>

fun give_index_from :: "nat \<Rightarrow> (string \<times> int) list \<Rightarrow> string \<Rightarrow> int" where
  "give_index_from i [] str = -1"
| "give_index_from i ((nm, _) # ms) str = (if nm = str then int i else give_index_from (Suc i) ms str)"

definition give_index :: "(string \<times> int) list \<Rightarrow> string \<Rightarrow> int" where
  "give_index = give_index_from 0"

fun free_barista_from :: "nat list \<Rightarrow> int \<Rightarrow> cafe \<Rightarrow> int \<times> cafe" where
  "free_barista_from [] no s = (-1, s)"
| "free_barista_from (i # is) no s =
     (if finish_time_order s i \<le> tmr s \<or> special_flag s i = 1 then
        let s1 = s\<lparr>special_flag := (special_flag s)(i := 0)\<rparr>
        in if no - 1 = 0 then (int i, s1) else free_barista_from is (no - 1) s1
      else free_barista_from is no s)"

definition free_barista :: "int \<Rightarrow> cafe \<Rightarrow> int \<times> cafe" where
  "free_barista no s = free_barista_from [0..<nb s] no s"

fun to_enter_customer_from :: "nat list \<Rightarrow> int \<Rightarrow> cafe \<Rightarrow> int" where
  "to_enter_customer_from [] no s = -1"
| "to_enter_customer_from (i # is) no s =
     (if cust_arrival (cust s i) = tmr s then
        (if no - 1 = 0 then int i else to_enter_customer_from is (no - 1) s)
      else to_enter_customer_from is no s)"

definition to_enter_customer :: "int \<Rightarrow> cafe \<Rightarrow> int" where
  "to_enter_customer no s = to_enter_customer_from [1..<nc s + 1] no s"

definition customer_remaining :: "cafe \<Rightarrow> bool" where
  "customer_remaining s \<longleftrightarrow> (\<exists>i\<in>set [1..<nc s + 1]. order_completion_status (cust s i) = 0)"

section \<open>The barista thread\<close>

text \<open>Passing the baton to the next barista of the chain.\<close>

definition wake_next :: "nat \<Rightarrow> cafe \<Rightarrow> cafe" where
  "wake_next i s =
     (if wake_up_index s i \<noteq> -1 then
        sem_post (Baristas (nat (wake_up_index s i))) (s\<lparr>wake_up_index := (wake_up_index s)(i := -1)\<rparr>)
      else s)"

text \<open>
  The search for an order from \<open>cst\<close> on. An order whose coffee is not on the menu reads
  \<open>cofee_time[-1]\<close>; \<open>order_list\<close> has 500 entries and \<open>totalorders\<close> counts customers that
  have entered, so the index is in range.
\<close>

fun find_order :: "nat \<Rightarrow> nat \<Rightarrow> nat \<Rightarrow> cafe \<Rightarrow> cafe res" where
  "find_order 0 i cst s = Ok (s\<lparr>b_cst := (b_cst s)(i := cst)\<rparr>)"
| "find_order (Suc m) i cst s =
     (let o' = order_list s cst; c = nat (o_cust_no o')
      in if order_completion_status (cust s c) = 0 \<and> order_taken_status o' = 0 then
           let findex = give_index (menu s) (cofee o')
           in if findex < 0 then Err (Undef ''cofee_time[-1]'')
              else let ftime = snd (menu s ! nat findex)
              in Ok (s\<lparr>order_list := (order_list s)(cst := o'\<lparr>order_taken_status := 1\<rparr>),
                   finish_time_order := (finish_time_order s)(i := tmr s + ftime + 1),
                   special_flag := (special_flag s)(i := 1),
                   b_flag := (b_flag s)(i := int cst),
                   b_cst := (b_cst s)(i := cst + 1)\<rparr>)
         else find_order m i (cst + 1) s)"

definition set_bpc :: "nat \<Rightarrow> bpc \<Rightarrow> cafe \<Rightarrow> cafe" where
  "set_bpc i x s = s\<lparr>b_pc := (b_pc s)(i := x)\<rparr>"

definition flag_cust :: "nat \<Rightarrow> cafe \<Rightarrow> nat" where
  "flag_cust i s = nat (o_cust_no (order_list s (nat (b_flag s i))))"

definition barista_simulation :: "nat \<Rightarrow> cafe \<Rightarrow> cafe res option" where
  "barista_simulation i s =
     (case b_pc s i of
        BTop \<Rightarrow> map_option (\<lambda>s1.
          if close_sig s1 = 1 then Ok (set_bpc i BDone s1)
          else if b_flag s1 i = -1 then Ok (set_bpc i BLock s1)
          else let s2 = wake_next i s1
               in if order_completion_status (cust s2 (flag_cust i s2)) = 1
                  then Ok (set_bpc i BTop (s2\<lparr>b_flag := (b_flag s2)(i := -1),
                         finish_time_order := (finish_time_order s2)(i := -1)\<rparr>))
                  else Ok (set_bpc i BComp (say (StartsPreparing (i + 1) (int (flag_cust i s2)) (tmr s2)) s2)))
          (sem_wait (Baristas i) s)
      | BLock \<Rightarrow> map_option (\<lambda>s1. Ok (set_bpc i BCrit s1)) (sem_wait MachineLock s)
      | BCrit \<Rightarrow> Some (let s1 = wake_next i s
          in bnd (find_order (nat (totalorders s1) - b_cst s1 i) i (b_cst s1 i) s1) (\<lambda>s2.
             Ok (set_bpc i BTop (sem_post MachineLock s2))))
      | BComp \<Rightarrow> map_option (\<lambda>s1.
          let f = nat (b_flag s1 i); c = flag_cust i s1;
              s2 = s1\<lparr>order_list := (order_list s1)(f := (order_list s1 f)\<lparr>orderstatus := 1\<rparr>)\<rparr>;
              s3 = (if order_completion_status (cust s2 c) = 1
                    then s2\<lparr>coffee_wasted := coffee_wasted s2 + 1\<rparr> else s2);
              s4 = s3\<lparr>cust := (cust s3)(c := (cust s3 c)\<lparr>order_completion_status := 1\<rparr>)\<rparr>;
              s5 = sem_post (Customers c) (say (Completes (i + 1) (int c) (tmr s4)) s4)
          in Ok (set_bpc i BTop (s5\<lparr>b_flag := (b_flag s5)(i := -1)\<rparr>)))
          (sem_wait (OrderComp i) s)
      | BDone \<Rightarrow> None)"

section \<open>The customer thread\<close>

definition set_cpc :: "nat \<Rightarrow> cpc \<Rightarrow> cafe \<Rightarrow> cafe" where
  "set_cpc c x s = s\<lparr>c_pc := (c_pc s)(c := x)\<rparr>"

definition customer_waiting :: "nat \<Rightarrow> cafe \<Rightarrow> cafe res option" where
  "customer_waiting c s =
     (case c_pc s c of
        CEnter \<Rightarrow> map_option (\<lambda>s1.
          let s2 = say (Orders c (cofee (order_list s1 (c - 1))))
                 (say (Enters c (tmr s1)) (s1\<lparr>totalorders := totalorders s1 + 1\<rparr>));
              s3 = (if wake_up_index_cust s2 c \<noteq> -1
                    then sem_post (Customers (nat (wake_up_index_cust s2 c)))
                           (s2\<lparr>wake_up_index_cust := (wake_up_index_cust s2)(c := -1)\<rparr>)
                    else sem_post MachineLock s2)
          in Ok (set_cpc c CServed (s3\<lparr>tol_time := (tol_time s3)(c :=
                 cust_arrival (cust s3 c) + c_tol_time (cust s3 c) + 1)\<rparr>)))
          (sem_wait (Customers c) s)
      | CServed \<Rightarrow> map_option (\<lambda>s1.
          if order_completion_status (cust s1 c) = 0 then
            Ok (set_cpc c CGone (say (LeavesWithout c (tmr s1))
              (s1\<lparr>wait_time := wait_time s1 + (c_tol_time (cust s1 c) + 1),
                  cust := (cust s1)(c := (cust s1 c)\<lparr>order_completion_status := 1\<rparr>)\<rparr>)))
          else let findex = give_index (menu s1) (cofee (order_list s1 (c - 1)))
               in if findex < 0 then Err (Undef ''cofee_time[-1]'')
                  else Ok (set_cpc c CGone (say (Collected c (tmr s1))
                    (s1\<lparr>wait_time := wait_time s1 + (tmr s1 - cust_arrival (cust s1 c) - snd (menu s1 ! nat findex))\<rparr>))))
          (sem_wait (Customers c) s)
      | CGone \<Rightarrow> None)"

section \<open>The main thread\<close>

text \<open>
  The two chains of a tick. Each asks for the first, second, \<dots> match until there is none; a match
  number above the number of candidates finds nothing, so \<open>nc + 1\<close> and \<open>nb + 1\<close>
  iterations are enough.
\<close>

primrec cust_chain :: "nat \<Rightarrow> int \<Rightarrow> int \<Rightarrow> cafe \<Rightarrow> cafe" where
  "cust_chain 0 count temp s = s"
| "cust_chain (Suc m) count temp s =
     (if temp = -1 then s
      else let temp2 = to_enter_customer count s
           in cust_chain m (count + 1) temp2
                (s\<lparr>wake_up_index_cust := (wake_up_index_cust s)(nat temp := temp2)\<rparr>))"

primrec barista_chain :: "nat \<Rightarrow> int \<Rightarrow> int \<Rightarrow> cafe \<Rightarrow> cafe" where
  "barista_chain 0 count temp s = s"
| "barista_chain (Suc m) count temp s =
     (if temp = -1 then s
      else let (temp2, s1) = free_barista count s
           in barista_chain m (count + 1) temp2
                (s1\<lparr>wake_up_index := (wake_up_index s1)(nat temp := temp2)\<rparr>))"

definition wake_customers :: "cafe \<Rightarrow> cafe" where
  "wake_customers s =
     (let first = to_enter_customer 1 s; s1 = cust_chain (nc s + 1) 2 first s
      in if first \<noteq> -1 then sem_post (Customers (nat first)) s1 else sem_post MachineLock s1)"

definition wake_baristas :: "cafe \<Rightarrow> cafe" where
  "wake_baristas s =
     (let (first, s1) = free_barista 1 s; s2 = barista_chain (nb s + 1) 2 first s1
      in if first \<noteq> -1 then sem_post (Baristas (nat first)) s2 else s2)"

definition post_finished :: "cafe \<Rightarrow> cafe" where
  "post_finished s = fold (\<lambda>i s. if finish_time_order s i = tmr s then sem_post (OrderComp i) s else s) [0..<nb s] s"

definition post_impatient :: "cafe \<Rightarrow> cafe" where
  "post_impatient s = fold (\<lambda>i s. if tol_time s i = tmr s then sem_post (Customers i) s else s) [1..<nc s + 1] s"

definition close_cafe :: "cafe \<Rightarrow> cafe res" where
  "close_cafe s =
     (let s1 = (say (TimeIs (tmr s)) s)\<lparr>close_sig := 1\<rparr>;
          s2 = say (CoffeeWasted (coffee_wasted s1)) (fold (\<lambda>i s. sem_post (Baristas i) s) [0..<nc s] s1)
      in if nc s = 0 then Err (Undef ''division by zero'')
         else Ok ((say CafeClosed (say (AvgWait (cdiv (wait_time s2) (int (nc s)))) s2))\<lparr>m_pc := MDone\<rparr>))"

definition main_loop :: "cafe \<Rightarrow> cafe res option" where
  "main_loop s =
     (case m_pc s of
        MTop \<Rightarrow> if customer_remaining s
          then map_option (\<lambda>s1. Ok (s1\<lparr>m_pc := MCrit\<rparr>)) (sem_wait MachineLock (say (TimeIs (tmr s)) s))
          else Some (close_cafe s)
      | MCrit \<Rightarrow> Some (Ok ((post_impatient (post_finished (wake_baristas (wake_customers s))))\<lparr>m_pc := MSleep\<rparr>))
      | MSleep \<Rightarrow> Some (Ok (s\<lparr>tmr := tmr s + 1, m_pc := MTop\<rparr>))
      | MDone \<Rightarrow> None)"

text \<open>
  Input: number of baristas, the menu, and the customers as (number, coffee, arrival, tolerance).
  The loop of the source sets number and status of \<open>cust[i]\<close> but arrival and tolerance of
  \<open>cust[i + 1]\<close>.
\<close>

definition init_ordernode :: ordernode where
  "init_ordernode = \<lparr>order_taken_status = 0, orderstatus = 0, o_cust_no = -1, cofee = []\<rparr>"

definition no_customer :: customernode where
  "no_customer = \<lparr>cust_no = 0, c_tol_time = 0, cust_arrival = 0, order_completion_status = 0\<rparr>"

fun read_customers :: "nat \<Rightarrow> (int \<times> string \<times> int \<times> int) list \<Rightarrow> cafe \<Rightarrow> cafe" where
  "read_customers i [] s = s"
| "read_customers i ((num, cf, arr, tol) # rest) s =
     (let s1 = s\<lparr>order_list := (order_list s)(i := (order_list s i)\<lparr>o_cust_no := num, cofee := cf\<rparr>),
                 cust := (cust s)(i + 1 := (cust s (i + 1))\<lparr>cust_arrival := arr, c_tol_time := tol\<rparr>)\<rparr>;
          s2 = s1\<lparr>cust := (cust s1)(i := (cust s1 i)\<lparr>cust_no := num, order_completion_status := 0\<rparr>)\<rparr>
      in read_customers (i + 1) rest s2)"

definition cafe_main :: "nat \<Rightarrow> (string \<times> int) list \<Rightarrow> (int \<times> string \<times> int \<times> int) list \<Rightarrow> cafe" where
  "cafe_main b coffees customers = read_customers 0 customers
     \<lparr>special_flag = (\<lambda>_. 0), cust = (\<lambda>_. no_customer), order_list = (\<lambda>_. init_ordernode), tmr = 0,
      totalorders = 0, coffee_wasted = 0, wait_time = 0, close_sig = 0,
      sem = (\<lambda>_. 0)(Superlock := 1, MachineLock := 1), finish_time_order = (\<lambda>_. -1),
      wake_up_index = (\<lambda>_. -1), wake_up_index_cust = (\<lambda>_. -1), tol_time = (\<lambda>_. -1),
      menu = coffees, nb = b, nc = length customers, printed = [], b_pc = (\<lambda>_. BTop), b_cst = (\<lambda>_. 0),
      b_flag = (\<lambda>_. -1), c_pc = (\<lambda>_. CEnter), m_pc = MTop\<rparr>"

section \<open>Interleaving\<close>

inductive cafe_step :: "cafe \<Rightarrow> cafe \<Rightarrow> bool" where
  step_barista: "i < nb s \<Longrightarrow> barista_simulation i s = Some (Ok s') \<Longrightarrow> cafe_step s s'"
| step_customer: "1 \<le> c \<Longrightarrow> c \<le> nc s \<Longrightarrow> customer_waiting c s = Some (Ok s') \<Longrightarrow> cafe_step s s'"
| step_main: "main_loop s = Some (Ok s') \<Longrightarrow> cafe_step s s'"

abbreviation cafe_reach :: "cafe \<Rightarrow> cafe \<Rightarrow> bool" where
  "cafe_reach \<equiv> cafe_step\<^sup>*\<^sup>*"

inductive_cases cafe_stepE: "cafe_step s s'"

section \<open>What the helpers keep\<close>

text \<open>
  The fields the invariants below speak about; the operations of the clock thread and the baton
  passing leave them alone.
\<close>

definition core :: "cafe \<Rightarrow> (nat \<Rightarrow> cpc) \<times> (nat \<Rightarrow> int) \<times> (nat \<Rightarrow> ordernode) \<times> event list \<times> (nat \<Rightarrow> customernode)" where
  "core s = (c_pc s, b_flag s, order_list s, printed s, cust s)"

lemma core_sem_post [simp]: "core (sem_post x s) = core s"
  by (simp add: core_def sem_post_def)

lemma core_sem_wait: "sem_wait x s = Some s' \<Longrightarrow> core s' = core s"
  by (auto simp: core_def sem_wait_def split: if_splits)

lemma core_wake_next [simp]: "core (wake_next i s) = core s"
  by (simp add: wake_next_def) (simp add: core_def)

lemma core_free_barista_from: "free_barista_from is no s = (r, s') \<Longrightarrow> core s' = core s"
  by (induction "is" no s rule: free_barista_from.induct)
    (auto simp: core_def Let_def split: if_splits)

lemma core_chain_upd [simp]: "core (s\<lparr>wake_up_index_cust := x\<rparr>) = core s" "core (s\<lparr>wake_up_index := y\<rparr>) = core s"
  by (simp_all add: core_def)

lemma core_cust_chain [simp]: "core (cust_chain m count temp s) = core s"
  by (induction m arbitrary: count temp s) (simp_all add: Let_def)

lemma core_barista_chain [simp]: "core (barista_chain m count temp s) = core s"
proof (induction m arbitrary: count temp s)
  case (Suc m)
  show ?case
  proof (cases "temp = -1")
    case False
    obtain r s1 where f: "free_barista count s = (r, s1)" by (cases "free_barista count s")
    then have "core s1 = core s" unfolding free_barista_def by (rule core_free_barista_from)
    then show ?thesis using False f Suc by simp
  qed simp
qed simp

lemma core_main [simp]:
  "core (wake_customers s) = core s" "core (wake_baristas s) = core s"
  "core (post_finished s) = core s" "core (post_impatient s) = core s"
proof -
  show "core (wake_customers s) = core s" by (simp add: wake_customers_def Let_def)
  obtain r s1 where f: "free_barista 1 s = (r, s1)" by (cases "free_barista 1 s")
  then have "core s1 = core s" unfolding free_barista_def by (rule core_free_barista_from)
  then show "core (wake_baristas s) = core s" using f by (simp add: wake_baristas_def Let_def del: barista_chain.simps)
  show "core (post_finished s) = core s" "core (post_impatient s) = core s"
    unfolding post_finished_def post_impatient_def by (rule fold_keeps; simp)+
qed

lemma core_sem_posts [simp]: "core (fold (\<lambda>i. sem_post (f i)) xs s) = core s"
  by (rule fold_keeps) simp

lemma find_order_spec:
  "find_order m i cst s = Ok s' \<Longrightarrow> c_pc s' = c_pc s \<and> printed s' = printed s \<and> cust s' = cust s \<and>
     (b_flag s' = b_flag s \<and> order_list s' = order_list s \<or>
      (\<exists>f. order_taken_status (order_list s f) = 0 \<and> b_flag s' = (b_flag s)(i := int f) \<and>
           order_list s' = (order_list s)(f := (order_list s f)\<lparr>order_taken_status := 1\<rparr>)))"
proof (induction m arbitrary: cst)
  case (Suc m)
  show ?case
  proof (cases "order_completion_status (cust s (nat (o_cust_no (order_list s cst)))) = 0 \<and>
      order_taken_status (order_list s cst) = 0")
    case True
    then show ?thesis using Suc.prems by (auto simp: Let_def split: if_splits)
  next
    case False
    then have "find_order (Suc m) i cst s = find_order m i (cst + 1) s"
      unfolding find_order.simps Let_def by (rule if_not_P)
    then show ?thesis using Suc.prems Suc.IH [of "cst + 1"] by simp
  qed
qed auto

section \<open>Every customer leaves once\<close>

definition is_final :: "nat \<Rightarrow> event \<Rightarrow> bool" where
  "is_final c e \<longleftrightarrow> (case e of LeavesWithout d _ \<Rightarrow> d = c | Collected d _ \<Rightarrow> d = c | _ \<Rightarrow> False)"

definition departures :: "nat \<Rightarrow> cafe \<Rightarrow> nat" where
  "departures c s = length (filter (is_final c) (printed s))"

definition left_once :: "cafe \<Rightarrow> bool" where
  "left_once s \<longleftrightarrow> (\<forall>c. departures c s = (if c_pc s c = CGone then 1 else 0))"

text \<open>No two baristas hold the same order, and a held order is marked as taken.\<close>

definition orders_exclusive :: "cafe \<Rightarrow> bool" where
  "orders_exclusive s \<longleftrightarrow>
     (\<forall>i. b_flag s i = -1 \<or> 0 \<le> b_flag s i \<and> order_taken_status (order_list s (nat (b_flag s i))) = 1) \<and>
     (\<forall>i j. b_flag s i \<noteq> -1 \<longrightarrow> b_flag s i = b_flag s j \<longrightarrow> i = j)"

lemma inv_core: "core s' = core s \<Longrightarrow> left_once s' = left_once s \<and> orders_exclusive s' = orders_exclusive s"
  by (simp add: core_def left_once_def departures_def orders_exclusive_def)

lemma core_pcs [simp]:
  "core (set_bpc i x s) = core s" "core (s\<lparr>m_pc := y\<rparr>) = core s" "core (s\<lparr>tmr := t\<rparr>) = core s"
  "core (s\<lparr>close_sig := z\<rparr>) = core s"
  by (simp_all add: core_def set_bpc_def)

lemma left_once_say: "\<not> is_final c e \<Longrightarrow> departures c (say e s) = departures c s"
  by (simp add: departures_def say_def)

lemma orders_exclusive_take:
  assumes ex: "orders_exclusive s" and free: "order_taken_status (order_list s f) = 0"
    and b: "b_flag s' = (b_flag s)(i := int f)"
    and o: "order_list s' = (order_list s)(f := (order_list s f)\<lparr>order_taken_status := 1\<rparr>)"
  shows "orders_exclusive s'"
proof -
  have ne: "nat (b_flag s j) \<noteq> f" if "b_flag s j \<noteq> -1" for j
    using ex free that unfolding orders_exclusive_def by (metis zero_neq_one)
  have ne': "b_flag s j \<noteq> int f" if "b_flag s j \<noteq> -1" for j using ne [OF that] by auto
  have t: "b_flag s' j = -1 \<or> 0 \<le> b_flag s' j \<and> order_taken_status (order_list s' (nat (b_flag s' j))) = 1" for j
    using ex ne [of j] by (cases "j = i") (auto simp: b o orders_exclusive_def)
  have d: "j = k" if "b_flag s' j \<noteq> -1" "b_flag s' j = b_flag s' k" for j k
    using that ex ne' [of j] ne' [of k] by (auto simp: b orders_exclusive_def split: if_splits)
  show ?thesis unfolding orders_exclusive_def using t d by blast
qed

lemma barista_keeps:
  assumes "barista_simulation i s = Some (Ok s')" and "left_once s" and "orders_exclusive s"
  shows "left_once s' \<and> orders_exclusive s'"
proof (cases "b_pc s i")
  case BTop
  with assms(1) obtain s1 where w: "sem_wait (Baristas i) s = Some s1"
    by (auto simp: barista_simulation_def map_option_case split: option.splits)
  have s1: "left_once s1" "orders_exclusive s1" using inv_core [OF core_sem_wait [OF w]] assms(2,3) by auto
  let ?s2 = "wake_next i s1"
  have s2: "left_once ?s2" "orders_exclusive ?s2" using inv_core [OF core_wake_next] s1 by auto
  have say: "left_once (say (StartsPreparing n x t) ?s2)" "orders_exclusive (say (StartsPreparing n x t) ?s2)" for n x t
    using s2 by (auto simp: left_once_def departures_def say_def is_final_def orders_exclusive_def)
  have drop: "left_once (?s2\<lparr>b_flag := (b_flag ?s2)(i := -1), finish_time_order := ft\<rparr>)"
      "orders_exclusive (?s2\<lparr>b_flag := (b_flag ?s2)(i := -1), finish_time_order := ft\<rparr>)" for ft
    using s2 by (auto simp: left_once_def departures_def orders_exclusive_def)
  from assms(1) BTop w consider "s' = set_bpc i BDone s1" | "s' = set_bpc i BLock s1"
    | "s' = set_bpc i BTop (?s2\<lparr>b_flag := (b_flag ?s2)(i := -1), finish_time_order := (finish_time_order ?s2)(i := -1)\<rparr>)"
    | n x t where "s' = set_bpc i BComp (say (StartsPreparing n x t) ?s2)"
    by (auto simp: barista_simulation_def Let_def split: if_splits)
  then show ?thesis
    by cases (use inv_core [OF core_pcs(1)] s1 drop say in simp_all)
next
  case BLock
  with assms(1) obtain s1 where w: "sem_wait MachineLock s = Some s1" "s' = set_bpc i BCrit s1"
    by (auto simp: barista_simulation_def)
  then show ?thesis using inv_core [OF core_sem_wait [OF w(1)]] inv_core [OF core_pcs(1)] assms(2,3) by simp
next
  case BCrit
  let ?s1 = "wake_next i s"
  from assms(1) BCrit obtain s2 m cst where f: "find_order m i cst ?s1 = Ok s2"
      and s': "s' = set_bpc i BTop (sem_post MachineLock s2)"
    by (auto simp: barista_simulation_def Let_def)
  have s1: "left_once ?s1" "orders_exclusive ?s1" using inv_core [OF core_wake_next] assms(2,3) by auto
  from find_order_spec [OF f] have k: "c_pc s2 = c_pc ?s1" "printed s2 = printed ?s1" by auto
  have "left_once s2" using s1(1) k by (simp add: left_once_def departures_def)
  moreover have "orders_exclusive s2"
  proof -
    from find_order_spec [OF f] consider "b_flag s2 = b_flag ?s1" "order_list s2 = order_list ?s1"
      | g where "order_taken_status (order_list ?s1 g) = 0" "b_flag s2 = (b_flag ?s1)(i := int g)"
          "order_list s2 = (order_list ?s1)(g := (order_list ?s1 g)\<lparr>order_taken_status := 1\<rparr>)"
      by blast
    then show ?thesis
    proof cases
      case 1
      then show ?thesis using s1(2) by (simp add: orders_exclusive_def)
    next
      case 2
      then show ?thesis by (rule orders_exclusive_take [OF s1(2)])
    qed
  qed
  ultimately show ?thesis using s' inv_core [OF core_pcs(1)] inv_core [OF core_sem_post] by simp
next
  case BComp
  with assms(1) obtain s1 where w: "sem_wait (OrderComp i) s = Some s1"
    by (auto simp: barista_simulation_def)
  have s1: "left_once s1" "orders_exclusive s1" using inv_core [OF core_sem_wait [OF w]] assms(2,3) by auto
  have k: "c_pc s' = c_pc s1" "\<exists>n x t. printed s' = printed s1 @ [Completes n x t]"
      "b_flag s' = (b_flag s1)(i := -1)"
      "\<And>f. order_taken_status (order_list s' f) = order_taken_status (order_list s1 f)"
    using assms(1) BComp w
    by (auto simp: barista_simulation_def Let_def set_bpc_def say_def sem_post_def split: if_splits)
  have "departures c s' = departures c s1" for c using k(2) by (auto simp: departures_def is_final_def)
  then have "left_once s'" using s1(1) k(1) by (simp add: left_once_def)
  moreover have "orders_exclusive s'" using s1(2) k(3,4) by (auto simp: orders_exclusive_def)
  ultimately show ?thesis by simp
next
  case BDone
  with assms(1) show ?thesis by (simp add: barista_simulation_def)
qed

lemma customer_keeps:
  assumes "customer_waiting c s = Some (Ok s')" and "left_once s" and "orders_exclusive s"
  shows "left_once s' \<and> orders_exclusive s'"
proof -
  from assms(1) obtain s1 where w: "sem_wait (Customers c) s = Some s1"
    by (auto simp: customer_waiting_def split: cpc.splits)
  have s1: "left_once s1" "orders_exclusive s1" "c_pc s1 = c_pc s"
    using inv_core [OF core_sem_wait [OF w]] core_sem_wait [OF w] assms(2,3) by (auto simp: core_def)
  have o: "b_flag s' = b_flag s1 \<and> order_list s' = order_list s1"
    using assms(1) w by (auto simp: customer_waiting_def Let_def set_cpc_def say_def sem_post_def
        split: cpc.splits if_splits)
  have "left_once s'"
  proof (cases "c_pc s c")
    case CEnter
    then have k: "c_pc s' = (c_pc s1)(c := CServed)" "\<exists>t x. printed s' = printed s1 @ [Enters c t, Orders c x]"
      using assms(1) w by (auto simp: customer_waiting_def Let_def set_cpc_def say_def sem_post_def split: if_splits)
    have "departures d s' = departures d s1" for d using k(2) by (auto simp: departures_def is_final_def)
    then show ?thesis using s1(1,3) CEnter k(1) by (simp add: left_once_def)
  next
    case CServed
    then have k: "c_pc s' = (c_pc s1)(c := CGone)"
        "\<exists>t. printed s' = printed s1 @ [LeavesWithout c t] \<or> printed s' = printed s1 @ [Collected c t]"
      using assms(1) w by (auto simp: customer_waiting_def Let_def set_cpc_def say_def split: if_splits)
    have "departures d s' = departures d s1 + (if d = c then 1 else 0)" for d
      using k(2) by (auto simp: departures_def is_final_def)
    then show ?thesis using s1(1,3) CServed k(1) by (simp add: left_once_def)
  next
    case CGone
    then show ?thesis using assms(1) by (simp add: customer_waiting_def)
  qed
  then show ?thesis using s1(2) o by (simp add: orders_exclusive_def)
qed

lemma main_keeps:
  assumes "main_loop s = Some (Ok s')" and "left_once s" and "orders_exclusive s"
  shows "left_once s' \<and> orders_exclusive s'"
proof -
  have say: "left_once (say e s)" if "\<forall>c. \<not> is_final c e" "left_once s" for e s
    using that by (simp add: left_once_def departures_def say_def)
  have say': "orders_exclusive (say e s) = orders_exclusive s" for e s
    by (simp add: orders_exclusive_def say_def)
  have nf: "\<not> is_final c (TimeIs t)" "\<not> is_final c (CoffeeWasted w)" "\<not> is_final c (AvgWait a)" "\<not> is_final c CafeClosed"
    for c t w a by (simp_all add: is_final_def)
  have pc: "left_once (s\<lparr>m_pc := x\<rparr>) = left_once s" "orders_exclusive (s\<lparr>m_pc := x\<rparr>) = orders_exclusive s"
    "left_once (s\<lparr>tmr := t\<rparr>) = left_once s" "orders_exclusive (s\<lparr>tmr := t\<rparr>) = orders_exclusive s"
    "left_once (s\<lparr>close_sig := z\<rparr>) = left_once s" "orders_exclusive (s\<lparr>close_sig := z\<rparr>) = orders_exclusive s" for s x t z
    by (simp_all add: left_once_def departures_def orders_exclusive_def)
  have posts: "left_once (fold (\<lambda>i. sem_post (Baristas i)) xs s) = left_once s"
    "orders_exclusive (fold (\<lambda>i. sem_post (Baristas i)) xs s) = orders_exclusive s" for xs s
    using inv_core [OF core_sem_posts] by auto
  show ?thesis
  proof (cases "m_pc s")
    case MTop
    show ?thesis
    proof (cases "customer_remaining s")
      case True
      obtain s1 where w: "sem_wait MachineLock (say (TimeIs (tmr s)) s) = Some s1" "s' = s1\<lparr>m_pc := MCrit\<rparr>"
        using assms(1) MTop True by (auto simp: main_loop_def)
      then show ?thesis using inv_core [OF core_sem_wait [OF w(1)]] pc say say' nf assms(2,3) by simp
    next
      case False
      then show ?thesis
        using assms MTop by (auto simp: main_loop_def close_cafe_def Let_def pc posts say' intro!: say nf split: if_splits)
    qed
  next
    case MCrit
    then show ?thesis
      using assms inv_core [of "post_impatient (post_finished (wake_baristas (wake_customers s)))" s]
      by (auto simp: main_loop_def pc)
  qed (use assms in \<open>auto simp: main_loop_def pc\<close>)
qed

interpretation cafe_inv: kept cafe_step "\<lambda>s. left_once s \<and> orders_exclusive s"
  by unfold_locales (auto elim!: cafe_stepE dest: barista_keeps customer_keeps main_keeps)

lemma read_customers_core:
  "c_pc (read_customers i xs s) = c_pc s \<and> printed (read_customers i xs s) = printed s \<and> b_flag (read_customers i xs s) = b_flag s"
  by (induction i xs s rule: read_customers.induct) (simp_all add: Let_def)


text \<open>One barista, one customer who arrives at time 0; the first tick of the clock thread.\<close>

definition one_customer :: cafe where
  "one_customer = cafe_main 1 [(''Espresso'', 3)] [(1, ''Espresso'', 0, 5)]"


section \<open>Two baristas that start in the same second\<close>

text \<open>
  A barista that has taken an order sets its \<open>special_flag\<close> and is to be woken in the next
  second to start preparing. Counting up to the second such barista clears the flags on the way.
\<close>

text \<open>C26: when both of two baristas have taken an order that is not yet finished, the clock thread
  posts only the first one: the search for the second returns none, clears its flag and leaves the
  chain empty, so the second barista is not told to start.\<close>

theorem second_barista_forgotten:
  assumes "nb s = 2" and "special_flag s 0 = 1" and "special_flag s 1 = 1"
    and "tmr s < finish_time_order s 0" and "tmr s < finish_time_order s 1"
  shows "special_flag (wake_baristas s) 1 = 0 \<and> wake_up_index (wake_baristas s) 0 = -1 \<and>
    sem (wake_baristas s) (Baristas 0) = sem s (Baristas 0) + 1 \<and>
    sem (wake_baristas s) (Baristas 1) = sem s (Baristas 1)"
proof -
  have two: "[0..<2::nat] = [0, 1]" by (simp add: upt_rec)
  let ?s1 = "s\<lparr>special_flag := (special_flag s)(0 := 0)\<rparr>"
  let ?s2 = "?s1\<lparr>special_flag := (special_flag ?s1)(1 := 0)\<rparr>"
  have f1: "free_barista 1 s = (0, ?s1)" using assms by (simp add: free_barista_def two)
  have f2: "free_barista 2 ?s1 = (-1, ?s2)" using assms by (simp add: free_barista_def two)
  have chain: "barista_chain (nb s + 1) 2 0 ?s1 = ?s2\<lparr>wake_up_index := (wake_up_index ?s2)(0 := -1)\<rparr>"
    using assms(1) by (simp add: f2 numeral_eq_Suc)
  show ?thesis unfolding wake_baristas_def f1 prod.case Let_def chain by (simp add: sem_post_def)
qed

theorem second_barista_forgotten_witness:
  "special_flag (wake_baristas ((cafe_main 2 [] [])
     \<lparr>special_flag := (\<lambda>_. 1), finish_time_order := (\<lambda>_. 4)\<rparr>)) 1 = 0"
  using second_barista_forgotten [of "(cafe_main 2 [] []) \<lparr>special_flag := (\<lambda>_. 1), finish_time_order := (\<lambda>_. 4)\<rparr>"]
  by (simp add: cafe_main_def)

end
