(* ===== verification/Parlor.thy ===== *)
theory Parlor
  imports Threads
begin

text \<open>
  concurrency/2.c, the ice cream parlor: a main thread that keeps the clock, one thread per
  machine and one per customer. As in the cafe a thread is a program counter with its local
  variables and moves from one semaphore operation on which it can block to the next in one
  step. The input is given as parsed data; customer numbers of the input are array indices.
  Simulated times are far below the range of \<open>int\<close>.
\<close>

section \<open>Globals\<close>

record customernode =
  cust_no :: int
  total_orders :: int
  cust_arrival :: int
  order_completion_status :: int

record ordernode =
  order_taken_status :: int
  orderstatus :: int
  o_cust_no :: int
  order_no_cust :: int
  totaltoppings :: int
  flavour :: string
  toppings :: "string list"            \<comment> \<open>the strings written so far\<close>

datatype semid = MachineLock | Superlock | Capacity | OrderComp nat | Machines nat | Customers nat | RejCustomers nat

datatype event =
    TimeIs int | MachineStarts nat int | MachineStops nat int | MachineOff nat
  | StartsPreparing nat int int int | CompletesPreparing nat int int int
  | LeftFull int int | RejectedShortage int | Enters nat int | OrdersCount nat int
  | IceCream int string "string list" | ClosedSuddenly nat | NoMachines nat
  | LeftUnfulfilled int int | Collected nat int
  | IngredientIs int | ParlourClosed | ParlourClosedExhausted | LeftForSpace int

datatype mach_pc = PowerOn | MTop | MLock | MCrit | MComp | MDone
datatype cust_pc = PEnter | PRej | PServed | PGone | PClosed
datatype main_pc = Tick | InLock | Sleeping | Joining | Returned

record parlor =
  special_flag :: "nat \<Rightarrow> int"
  some_ing_exh :: int
  wake_up_index :: "nat \<Rightarrow> int"
  ingredient_over :: int
  tmr :: int
  totalorders :: int
  current_customers :: int
  returned_count :: int
  order_list :: "nat \<Rightarrow> ordernode"
  cust :: "nat \<Rightarrow> customernode"
  sem :: "semid \<Rightarrow> nat"
  finish_time_order :: "nat \<Rightarrow> int"
  wake_up_index_cust :: "nat \<Rightarrow> int"
  wake_up_order_comp :: "nat \<Rightarrow> int"
  rejection_cust :: "nat \<Rightarrow> int"
  close_sig :: int
  flavours :: "(string \<times> int) list"     \<comment> \<open>flavour_list and flavour_time\<close>
  topping_list :: "string list"
  topping_stock :: "int list"
  machine_start :: "nat \<Rightarrow> int"
  machine_end :: "nat \<Rightarrow> int"
  max_time :: int                      \<comment> \<open>max\<close>
  capacity_k :: int                    \<comment> \<open>k\<close>
  nm :: nat                            \<comment> \<open>n, the number of machines\<close>
  cust_cnt :: nat
  order_cnt :: int
  printed :: "event list"
  m_pc :: "nat \<Rightarrow> mach_pc"
  m_cst :: "nat \<Rightarrow> nat"
  m_flag :: "nat \<Rightarrow> int"
  c_pc :: "nat \<Rightarrow> cust_pc"
  main_at :: main_pc

definition say :: "event \<Rightarrow> parlor \<Rightarrow> parlor" where
  "say e s = s\<lparr>printed := printed s @ [e]\<rparr>"

definition sem_post :: "semid \<Rightarrow> parlor \<Rightarrow> parlor" where
  "sem_post x s = s\<lparr>sem := (sem s)(x := sem s x + 1)\<rparr>"

definition sem_wait :: "semid \<Rightarrow> parlor \<Rightarrow> parlor option" where
  "sem_wait x s = (if sem s x = 0 then None else Some (s\<lparr>sem := (sem s)(x := sem s x - 1)\<rparr>))"

section \<open>Helpers\<close>

definition init_ordernode :: ordernode where
  "init_ordernode = \<lparr>order_taken_status = 0, orderstatus = 0, o_cust_no = -1, order_no_cust = -1,
     totaltoppings = 0, flavour = [], toppings = []\<rparr>"

fun free_machine_from :: "nat list \<Rightarrow> int \<Rightarrow> parlor \<Rightarrow> int \<times> parlor" where
  "free_machine_from [] no s = (-1, s)"
| "free_machine_from (i # is) no s =
     (if machine_start s i \<le> tmr s \<and> tmr s \<le> machine_end s i \<and>
         (finish_time_order s i < tmr s \<or> special_flag s i = 1) then
        let s1 = s\<lparr>special_flag := (special_flag s)(i := 0)\<rparr>
        in if no - 1 = 0 then (int i, s1) else free_machine_from is (no - 1) s1
      else free_machine_from is no s)"

definition free_machine :: "int \<Rightarrow> parlor \<Rightarrow> int \<times> parlor" where
  "free_machine no s = free_machine_from [0..<nm s] no s"

text \<open>The \<open>no\<close>-th index of a list that satisfies a condition, the loop of the two functions below.\<close>

fun nth_match :: "(nat \<Rightarrow> bool) \<Rightarrow> nat list \<Rightarrow> int \<Rightarrow> int" where
  "nth_match P [] no = -1"
| "nth_match P (i # is) no =
     (if P i then (if no - 1 = 0 then int i else nth_match P is (no - 1)) else nth_match P is no)"

definition order_comp_machine :: "int \<Rightarrow> parlor \<Rightarrow> int" where
  "order_comp_machine no s = nth_match (\<lambda>i. finish_time_order s i = tmr s) [0..<nm s] no"

definition to_enter_customer :: "int \<Rightarrow> parlor \<Rightarrow> int" where
  "to_enter_customer no s = nth_match (\<lambda>i. cust_arrival (cust s i) = tmr s) [1..<cust_cnt s + 1] no"

definition order_status_checker :: "int \<Rightarrow> parlor \<Rightarrow> bool" where
  "order_status_checker c s \<longleftrightarrow>
     \<not> (\<exists>i\<in>set [0..<nat (totalorders s)]. o_cust_no (order_list s i) = c \<and> orderstatus (order_list s i) = 0)"

fun give_index_from :: "nat \<Rightarrow> string list \<Rightarrow> string \<Rightarrow> int" where
  "give_index_from i [] str = -1"
| "give_index_from i (x # xs) str = (if x = str then int i else give_index_from (Suc i) xs str)"

definition give_index :: "string list \<Rightarrow> string \<Rightarrow> int" where
  "give_index = give_index_from 0"

text \<open>
  Reading \<open>topping_stock[give_index(...)]\<close>: a topping that is not on the list reads index \<open>-1\<close>.
\<close>

definition stock_index :: "string \<Rightarrow> parlor \<Rightarrow> nat res" where
  "stock_index t s =
     (let ti = give_index (topping_list s) t
      in if ti < 0 then Err (Undef ''topping_stock[-1]'') else Ok (nat ti))"

text \<open>
  The inner loop of \<open>ingreadient_checker\<close>. It takes the number of toppings of order \<open>i\<close> but
  their names from order \<open>cst\<close>, the customer's number; beyond the toppings that order has, it
  reads strings nothing was written to.
\<close>

fun check_toppings :: "nat list \<Rightarrow> nat \<Rightarrow> parlor \<Rightarrow> bool res" where
  "check_toppings [] cst s = Ok True"
| "check_toppings (j # js) cst s =
     (if length (toppings (order_list s cst)) \<le> j then Err (Undef ''uninitialised topping'')
      else bnd (stock_index (toppings (order_list s cst) ! j) s) (\<lambda>ti.
        if topping_stock s ! ti = 0 then Ok False
        else if topping_stock s ! ti > 0 \<or> topping_stock s ! ti = -1 then check_toppings js cst s
        else Ok False))"

fun check_orders :: "nat list \<Rightarrow> nat \<Rightarrow> parlor \<Rightarrow> int res" where
  "check_orders [] cst s = Ok 1"
| "check_orders (i # is) cst s =
     (if o_cust_no (order_list s i) = int cst then
        bnd (check_toppings [0..<nat (totaltoppings (order_list s i))] cst s) (\<lambda>good.
          if good then check_orders is cst s else Ok 0)
      else check_orders is cst s)"

definition ingreadient_checker :: "nat \<Rightarrow> parlor \<Rightarrow> int res" where
  "ingreadient_checker cst s =
     (if order_completion_status (cust s cst) = 1 then Ok (-1)
      else check_orders [0..<nat (totalorders s)] cst s)"

definition any_order_being_prepared :: "parlor \<Rightarrow> bool" where
  "any_order_being_prepared s \<longleftrightarrow>
     \<not> (\<exists>i\<in>set [0..<nat (order_cnt s)]. order_taken_status (order_list s i) = 1 \<and> orderstatus (order_list s i) = 0)"

text \<open>The result, and the state with \<open>ingredient_over\<close> set when it is 1.\<close>

definition ingredient_exhausted_checker :: "parlor \<Rightarrow> bool \<times> parlor" where
  "ingredient_exhausted_checker s =
     (let limited = filter (\<lambda>v. v \<noteq> -1) (topping_stock s)
      in if \<exists>v\<in>set limited. \<not> v \<le> 0 then (False, s)
         else if limited \<noteq> [] then (True, s\<lparr>ingredient_over := 1\<rparr>)
         else (False, s))"

section \<open>The machine thread\<close>

definition wake_next :: "nat \<Rightarrow> parlor \<Rightarrow> parlor" where
  "wake_next i s =
     (if wake_up_index s i \<noteq> -1 then
        sem_post (Machines (nat (wake_up_index s i))) (s\<lparr>wake_up_index := (wake_up_index s)(i := -1)\<rparr>)
      else s)"

definition order_toppings :: "ordernode \<Rightarrow> string list" where
  "order_toppings od = take (nat (totaltoppings od)) (toppings od)"

fun topping_shortage :: "string list \<Rightarrow> parlor \<Rightarrow> bool res" where
  "topping_shortage [] s = Ok False"
| "topping_shortage (t # ts) s = bnd (stock_index t s) (\<lambda>ti.
     if topping_stock s ! ti = 0 \<or> topping_stock s ! ti < -1 then Ok True else topping_shortage ts s)"

text \<open>
  An order that cannot be made. The code writes \<open>order_list->order_taken_status\<close>, that is the
  first order of the parlor, not \<open>order_list[cst]\<close>.
\<close>

definition reject_order :: "nat \<Rightarrow> parlor \<Rightarrow> parlor" where
  "reject_order cst s =
     (let c = nat (o_cust_no (order_list s cst));
          s1 = s\<lparr>order_list := (order_list s)(0 := (order_list s 0)\<lparr>order_taken_status := 1, orderstatus := 1\<rparr>)\<rparr>
      in sem_post (RejCustomers c) (s1\<lparr>rejection_cust := (rejection_cust s1)(c := 1)\<rparr>))"

fun use_toppings :: "string list \<Rightarrow> parlor \<Rightarrow> parlor res" where
  "use_toppings [] s = Ok s"
| "use_toppings (t # ts) s = bnd (stock_index t s) (\<lambda>ti.
     if topping_stock s ! ti = -1 then use_toppings ts s
     else if topping_stock s ! ti > 0
       then use_toppings ts (s\<lparr>topping_stock := (topping_stock s)[ti := topping_stock s ! ti - 1]\<rparr>)
     else use_toppings ts s)"

definition fits :: "nat \<Rightarrow> int \<Rightarrow> int \<Rightarrow> parlor \<Rightarrow> bool" where
  "fits i arrival ftime s \<longleftrightarrow>
     arrival = tmr s \<and> machine_end s i - tmr s \<ge> ftime + 1 \<or>
     arrival < tmr s \<and> machine_end s i - tmr s \<ge> ftime"

definition take_order :: "nat \<Rightarrow> nat \<Rightarrow> int \<Rightarrow> int \<Rightarrow> parlor \<Rightarrow> parlor" where
  "take_order i cst arrival ftime s =
     (let s1 = (if arrival = tmr s
          then s\<lparr>finish_time_order := (finish_time_order s)(i := tmr s + ftime + 1),
                 special_flag := (special_flag s)(i := 1)\<rparr>
          else s\<lparr>finish_time_order := (finish_time_order s)(i := tmr s + ftime)\<rparr>)
      in s1\<lparr>m_flag := (m_flag s1)(i := int cst), m_cst := (m_cst s1)(i := cst + 1)\<rparr>)"

fun find_order :: "nat \<Rightarrow> nat \<Rightarrow> nat \<Rightarrow> parlor \<Rightarrow> parlor res" where
  "find_order 0 i cst s = Ok (s\<lparr>m_cst := (m_cst s)(i := cst)\<rparr>)"
| "find_order (Suc m) i cst s =
     (let od = order_list s cst; c = nat (o_cust_no od)
      in if order_completion_status (cust s c) = 0 \<and> order_taken_status od = 0 then
           let findex = give_index (map fst (flavours s)) (flavour od); arrival = cust_arrival (cust s c)
           in if findex < 0 then Err (Undef ''flavour_time[-1]'')
              else let ftime = snd (flavours s ! nat findex)
              in bnd (topping_shortage (order_toppings od) s) (\<lambda>short.
                if short then find_order m i (cst + 1) (reject_order cst s)
                else if fits i arrival ftime s
                  then bnd (use_toppings (order_toppings od)
                              (s\<lparr>order_list := (order_list s)(cst := od\<lparr>order_taken_status := 1\<rparr>)\<rparr>))
                         (\<lambda>s1. Ok (take_order i cst arrival ftime s1))
                else find_order m i (cst + 1) s)
         else find_order m i (cst + 1) s)"

definition set_mpc :: "nat \<Rightarrow> mach_pc \<Rightarrow> parlor \<Rightarrow> parlor" where
  "set_mpc i x s = s\<lparr>m_pc := (m_pc s)(i := x)\<rparr>"

definition flag_order :: "nat \<Rightarrow> parlor \<Rightarrow> ordernode" where
  "flag_order i s = order_list s (nat (m_flag s i))"

definition start_preparing :: "nat \<Rightarrow> parlor \<Rightarrow> parlor" where
  "start_preparing i s =
     (let s1 = wake_next i s
      in set_mpc i MComp (say (StartsPreparing (i + 1) (order_no_cust (flag_order i s1)) (o_cust_no (flag_order i s1)) (tmr s1)) s1))"

definition turn_off :: "nat \<Rightarrow> parlor \<Rightarrow> parlor" where
  "turn_off i s =
     set_mpc i MDone (if some_ing_exh s = 1 \<and> machine_end s i \<ge> tmr s then say (MachineOff (i + 1)) s else s)"

definition complete_order :: "nat \<Rightarrow> parlor \<Rightarrow> parlor" where
  "complete_order i s =
     (let f = nat (m_flag s i); c = o_cust_no (order_list s f);
          s1 = s\<lparr>order_list := (order_list s)(f := (order_list s f)\<lparr>orderstatus := 1\<rparr>)\<rparr>;
          s2 = say (CompletesPreparing (i + 1) (order_no_cust (order_list s1 f)) c (tmr s1)) s1;
          s3 = (if wake_up_order_comp s2 i \<noteq> -1
                then sem_post (OrderComp (nat (wake_up_order_comp s2 i)))
                       (s2\<lparr>wake_up_order_comp := (wake_up_order_comp s2)(i := -1)\<rparr>)
                else s2);
          s4 = (if order_status_checker c s3
                then sem_post (Customers (nat c)) (sem_post (RejCustomers (nat c)) s3) else s3)
      in set_mpc i MTop (s4\<lparr>m_flag := (m_flag s4)(i := -1)\<rparr>))"

definition machine_simulation :: "nat \<Rightarrow> parlor \<Rightarrow> parlor res option" where
  "machine_simulation i s =
     (case m_pc s i of
        PowerOn \<Rightarrow> map_option (\<lambda>s1.
          if close_sig s1 = 1 then Ok (set_mpc i MDone s1)
          else Ok (set_mpc i MTop (say (MachineStarts (i + 1) (tmr s1)) s1))) (sem_wait (Machines i) s)
      | MTop \<Rightarrow> map_option (\<lambda>s1.
          if close_sig s1 = 1 then Ok (turn_off i s1)
          else if m_flag s1 i = -1
            then (if ingredient_over s1 = 1 then Ok (set_mpc i MTop s1) else Ok (set_mpc i MLock s1))
          else Ok (start_preparing i s1)) (sem_wait (Machines i) s)
      | MLock \<Rightarrow> map_option (\<lambda>s1. Ok (set_mpc i MCrit s1)) (sem_wait MachineLock s)
      | MCrit \<Rightarrow> Some (let s1 = wake_next i s
          in bnd (find_order (nat (totalorders s1) - m_cst s1 i) i (m_cst s1 i) s1) (\<lambda>s2.
               let s3 = sem_post MachineLock s2
               in Ok (if m_flag s3 i = -1 \<or>
                         cust_arrival (cust s3 (nat (o_cust_no (flag_order i s3)))) = tmr s3
                      then set_mpc i MTop s3 else start_preparing i s3)))
      | MComp \<Rightarrow> map_option (\<lambda>s1.
          if close_sig s1 = 1 then Ok (turn_off i s1) else Ok (complete_order i s1))
          (sem_wait (OrderComp i) s)
      | MDone \<Rightarrow> None)"

section \<open>The customer thread\<close>

definition set_cpc :: "nat \<Rightarrow> cust_pc \<Rightarrow> parlor \<Rightarrow> parlor" where
  "set_cpc c x s = s\<lparr>c_pc := (c_pc s)(c := x)\<rparr>"

definition set_done :: "nat \<Rightarrow> parlor \<Rightarrow> parlor" where
  "set_done c s = s\<lparr>cust := (cust s)(c := (cust s c)\<lparr>order_completion_status := 1\<rparr>)\<rparr>"

text \<open>The baton of the customers that arrive in the same second; the last returns the machine lock.\<close>

definition wake_next_cust :: "nat \<Rightarrow> parlor \<Rightarrow> parlor" where
  "wake_next_cust c s =
     (if wake_up_index_cust s c \<noteq> -1
      then sem_post (Customers (nat (wake_up_index_cust s c)))
             (s\<lparr>wake_up_index_cust := (wake_up_index_cust s)(c := -1)\<rparr>)
      else sem_post MachineLock s)"

definition list_orders :: "nat \<Rightarrow> parlor \<Rightarrow> parlor" where
  "list_orders c s = s\<lparr>printed := printed s @
     map (\<lambda>i. IceCream (order_no_cust (order_list s i)) (flavour (order_list s i)) (order_toppings (order_list s i)))
       (filter (\<lambda>i. o_cust_no (order_list s i) = int c) [0..<nat (totalorders s)])\<rparr>"

definition enter_parlor :: "nat \<Rightarrow> parlor \<Rightarrow> parlor res" where
  "enter_parlor c s =
     (let s1 = s\<lparr>totalorders := totalorders s + total_orders (cust s c)\<rparr>
      in if current_customers s1 = capacity_k s1
         then Ok (set_cpc c PGone (wake_next_cust c
                ((set_done c (say (LeftFull (cust_no (cust s1 c)) (tmr s1)) s1))\<lparr>returned_count := returned_count s1 + 1\<rparr>)))
         else bnd (ingreadient_checker (nat (cust_no (cust s1 c))) s1) (\<lambda>ing_flag.
           if ing_flag = 0 \<or> ing_flag = -1
           then Ok (set_cpc c PGone (wake_next_cust c (set_done c (say (RejectedShortage (cust_no (cust s1 c))) s1))))
           else let s2 = list_orders c (say (OrdersCount c (total_orders (cust s1 c))) (say (Enters c (tmr s1)) s1))
                in Ok (set_cpc c PRej (wake_next_cust c (s2\<lparr>current_customers := current_customers s2 + 1\<rparr>)))))"

definition customer_waiting :: "nat \<Rightarrow> parlor \<Rightarrow> parlor res option" where
  "customer_waiting c s =
     (case c_pc s c of
        PEnter \<Rightarrow> map_option (\<lambda>s1.
          if close_sig s1 = 1 then Ok (set_cpc c PGone s1) else enter_parlor c s1) (sem_wait (Customers c) s)
      | PRej \<Rightarrow> map_option (\<lambda>s1.
          if close_sig s1 = 1
          then Ok (set_cpc c PClosed (say (if some_ing_exh s1 = 1 then ClosedSuddenly c else NoMachines c) s1))
          else if rejection_cust s1 c = 1
          then Ok (set_cpc c PGone ((say (LeftUnfulfilled (cust_no (cust s1 c)) (tmr s1)) (set_done c s1))
                 \<lparr>current_customers := current_customers s1 - 1\<rparr>))
          else Ok (set_cpc c PServed s1)) (sem_wait (RejCustomers c) s)
      | PServed \<Rightarrow> map_option (\<lambda>s1.
          Ok (set_cpc c PGone ((say (Collected c (tmr s1)) (set_done c s1))
            \<lparr>current_customers := current_customers s1 - 1\<rparr>))) (sem_wait (Customers c) s)
      | PGone \<Rightarrow> None
      | PClosed \<Rightarrow> None)"

section \<open>Orders from the input\<close>

text \<open>\<open>strtok\<close> with the delimiters of the source: maximal runs of other characters.\<close>

definition del :: "char list" where
  "del = [CHR 0x20, CHR 0x09, CHR 0x0C, CHR 0x0B, CHR 0x0D, CHR 0x0A]"

fun tokens_from :: "string \<Rightarrow> string \<Rightarrow> string list" where
  "tokens_from acc [] = (if acc = [] then [] else [rev acc])"
| "tokens_from acc (x # xs) =
     (if x \<in> set del then (if acc = [] then tokens_from [] xs else rev acc # tokens_from [] xs)
      else tokens_from (x # acc) xs)"

definition tokens :: "string \<Rightarrow> string list" where
  "tokens = tokens_from []"

text \<open>
  The buffers: the line is copied to 100 bytes, flavour and toppings to 20 bytes each, and there
  is room for 50 toppings. A blank line leaves \<open>array[0]\<close> unwritten. The last line of the
  function is reached without a \<open>return\<close>; its callers ignore the value.
\<close>

definition populate_order :: "string \<Rightarrow> nat \<Rightarrow> int \<Rightarrow> parlor \<Rightarrow> parlor res" where
  "populate_order com order_index c s =
     (let array = tokens com; od = order_list s order_index; prev = order_list s (order_index - 1)
      in if 100 \<le> length com then Err (Undef ''t[100]'')
         else if array = [] then Err (Undef ''array[0]'')
         else if \<exists>w\<in>set array. 20 \<le> length w then Err (Undef ''strcpy'')
         else if 50 < length array - 1 then Err (Undef ''toppings[50]'')
         else Ok (s\<lparr>order_list := (order_list s)(order_index := od
           \<lparr>o_cust_no := c, flavour := hd array,
            order_no_cust := (if order_index = 0 then 1
                              else if c \<noteq> o_cust_no prev then 1 else order_no_cust prev + 1),
            order_taken_status := 0, orderstatus := 0,
            totaltoppings := int (length array) - 1,
            toppings := tl array @ drop (length array - 1) (toppings od)\<rparr>)\<rparr>))"

fun populate_orders :: "string list \<Rightarrow> int \<Rightarrow> parlor \<Rightarrow> parlor res" where
  "populate_orders [] c s = Ok s"
| "populate_orders (l # ls) c s =
     bnd (populate_order l (nat (order_cnt s)) c s) (\<lambda>s1.
       populate_orders ls c (s1\<lparr>order_cnt := order_cnt s1 + 1\<rparr>))"

fun read_customers :: "(int \<times> int \<times> string list) list \<Rightarrow> parlor \<Rightarrow> parlor res" where
  "read_customers [] s = Ok s"
| "read_customers ((no, arrival, lines) # rest) s =
     (let s1 = s\<lparr>cust := (cust s)(cust_cnt s + 1 :=
            \<lparr>cust_no = no, total_orders = int (length lines), cust_arrival = arrival, order_completion_status = 0\<rparr>)\<rparr>
      in bnd (populate_orders lines no s1) (\<lambda>s2. read_customers rest (s2\<lparr>cust_cnt := cust_cnt s2 + 1\<rparr>)))"

section \<open>The main thread\<close>

text \<open>
  The three chains of a tick. A match number above the number of candidates finds nothing, so
  one more iteration than there are candidates is enough.
\<close>

primrec cust_chain :: "nat \<Rightarrow> int \<Rightarrow> int \<Rightarrow> parlor \<Rightarrow> parlor" where
  "cust_chain 0 count temp s = s"
| "cust_chain (Suc m) count temp s =
     (if temp = -1 then s
      else let temp2 = to_enter_customer count s
           in cust_chain m (count + 1) temp2
                (s\<lparr>wake_up_index_cust := (wake_up_index_cust s)(nat temp := temp2)\<rparr>))"

primrec machine_chain :: "nat \<Rightarrow> int \<Rightarrow> int \<Rightarrow> parlor \<Rightarrow> parlor" where
  "machine_chain 0 count temp s = s"
| "machine_chain (Suc m) count temp s =
     (if temp = -1 then s
      else let (temp2, s1) = free_machine count s
           in machine_chain m (count + 1) temp2
                (s1\<lparr>wake_up_index := (wake_up_index s1)(nat temp := temp2)\<rparr>))"

primrec comp_chain :: "nat \<Rightarrow> int \<Rightarrow> int \<Rightarrow> parlor \<Rightarrow> parlor" where
  "comp_chain 0 count temp s = s"
| "comp_chain (Suc m) count temp s =
     (if temp = -1 then s
      else let temp2 = order_comp_machine count s
           in comp_chain m (count + 1) temp2
                (s\<lparr>wake_up_order_comp := (wake_up_order_comp s)(nat temp := temp2)\<rparr>))"

definition wake_customers :: "parlor \<Rightarrow> parlor" where
  "wake_customers s =
     (let first = to_enter_customer 1 s; s1 = cust_chain (cust_cnt s + 1) 2 first s
      in if first \<noteq> -1 then sem_post (Customers (nat first)) s1 else sem_post MachineLock s1)"

definition power_on :: "parlor \<Rightarrow> parlor" where
  "power_on s = fold (\<lambda>i s. if machine_start s i = tmr s then sem_post (Machines i) s else s) [0..<nm s] s"

definition wake_machines :: "parlor \<Rightarrow> parlor" where
  "wake_machines s =
     (let (first, s1) = free_machine 1 s; s2 = machine_chain (nm s + 1) 2 first s1
      in if first \<noteq> -1 then sem_post (Machines (nat first)) s2 else s2)"

definition wake_completed :: "parlor \<Rightarrow> parlor" where
  "wake_completed s =
     (let first = order_comp_machine 1 s; s1 = comp_chain (nm s + 1) 2 first s
      in if first \<noteq> -1 then sem_post (OrderComp (nat first)) s1 else s1)"

definition stop_machines :: "parlor \<Rightarrow> parlor" where
  "stop_machines s = fold (\<lambda>i s. if machine_end s i = tmr s then say (MachineStops (i + 1) (tmr s)) s else s) [0..<nm s] s"

definition close_machine :: "nat \<Rightarrow> parlor \<Rightarrow> parlor" where
  "close_machine i s =
     (let s1 = (if finish_time_order s i \<ge> tmr s then sem_post (OrderComp i) s else s)
      in if machine_start s1 i \<ge> tmr s1 then sem_post (Machines i) s1 else s1)"

definition close_customer :: "nat \<Rightarrow> parlor \<Rightarrow> parlor" where
  "close_customer i s =
     (let s1 = (if order_completion_status (cust s i) = 0 then sem_post (RejCustomers i) s else s)
      in if cust_arrival (cust s1 i) \<ge> tmr s1 then sem_post (Customers i) s1 else s1)"

definition close_parlor :: "parlor \<Rightarrow> parlor" where
  "close_parlor s =
     (let s1 = say (TimeIs (tmr s)) s;
          (ex, s2) = ingredient_exhausted_checker s1;
          s3 = (if ex \<and> tmr s2 \<le> max_time s2 then s2\<lparr>some_ing_exh := 1\<rparr> else s2);
          s4 = fold (\<lambda>i. sem_post (Machines i)) [0..<nm s] (s3\<lparr>close_sig := 1\<rparr>);
          s5 = fold close_machine [0..<nm s] s4;
          s6 = fold close_customer [1..<cust_cnt s + 1] s5
      in s6\<lparr>main_at := Joining\<rparr>)"

text \<open>The condition of the clock loop; it may set \<open>ingredient_over\<close>.\<close>

definition open_at :: "parlor \<Rightarrow> bool \<times> parlor" where
  "open_at s =
     (if tmr s \<le> max_time s
      then let (ex, s1) = ingredient_exhausted_checker s in (\<not> (ex \<and> any_order_being_prepared s1), s1)
      else (False, s))"

definition all_joined :: "parlor \<Rightarrow> bool" where
  "all_joined s \<longleftrightarrow> (\<forall>i\<in>set [0..<nm s]. m_pc s i = MDone) \<and>
     (\<forall>c\<in>set [1..<cust_cnt s + 1]. c_pc s c \<in> set [PGone, PClosed])"

definition main_loop :: "parlor \<Rightarrow> parlor option" where
  "main_loop s =
     (case main_at s of
        Tick \<Rightarrow> let (go, s1) = open_at s
          in if go then map_option (\<lambda>s2. s2\<lparr>main_at := InLock\<rparr>) (sem_wait MachineLock (say (TimeIs (tmr s1)) s1))
             else Some (close_parlor s1)
      | InLock \<Rightarrow> Some ((wake_completed (wake_machines (power_on (wake_customers s))))\<lparr>main_at := Sleeping\<rparr>)
      | Sleeping \<Rightarrow> let s1 = stop_machines s in Some (s1\<lparr>tmr := tmr s1 + 1, main_at := Tick\<rparr>)
      | Joining \<Rightarrow> if all_joined s
          then Some ((say (LeftForSpace (returned_count s))
            (say (if some_ing_exh s = 0 then ParlourClosed else ParlourClosedExhausted) s))\<lparr>main_at := Returned\<rparr>)
          else None
      | Returned \<Rightarrow> None)"

definition no_customer :: customernode where
  "no_customer = \<lparr>cust_no = 0, total_orders = 0, cust_arrival = 0, order_completion_status = 0\<rparr>"

definition parlor_init :: "int \<Rightarrow> (int \<times> int) list \<Rightarrow> (string \<times> int) list \<Rightarrow> (string \<times> int) list \<Rightarrow> parlor" where
  "parlor_init k machines fl tops =
     \<lparr>special_flag = (\<lambda>_. 0), some_ing_exh = 0, wake_up_index = (\<lambda>_. -1), ingredient_over = 0, tmr = 0,
      totalorders = 0, current_customers = 0, returned_count = 0, order_list = (\<lambda>_. init_ordernode),
      cust = (\<lambda>_. no_customer), sem = (\<lambda>_. 0)(Capacity := nat k, Superlock := 1, MachineLock := 1),
      finish_time_order = (\<lambda>_. -1), wake_up_index_cust = (\<lambda>_. -1), wake_up_order_comp = (\<lambda>_. -1),
      rejection_cust = (\<lambda>_. 0), close_sig = 0, flavours = fl, topping_list = map fst tops,
      topping_stock = map snd tops, machine_start = (\<lambda>i. fst (machines ! i)),
      machine_end = (\<lambda>i. snd (machines ! i)), max_time = fold (\<lambda>(_, e) m. if e > m then e else m) machines 0,
      capacity_k = k, nm = length machines, cust_cnt = 0, order_cnt = 0, printed = [],
      m_pc = (\<lambda>_. PowerOn), m_cst = (\<lambda>_. 0), m_flag = (\<lambda>_. -1), c_pc = (\<lambda>_. PEnter), main_at = Tick\<rparr>"

definition parlor_main :: "int \<Rightarrow> (int \<times> int) list \<Rightarrow> (string \<times> int) list \<Rightarrow> (string \<times> int) list \<Rightarrow>
    (int \<times> int \<times> string list) list \<Rightarrow> parlor res" where
  "parlor_main k machines fl tops customers =
     bnd (read_customers customers (parlor_init k machines fl tops)) (\<lambda>s.
       let (ex, s1) = ingredient_exhausted_checker s
       in Ok (say (IngredientIs (if ex then 1 else 0)) s1))"

section \<open>Interleaving\<close>

inductive parlor_step :: "parlor \<Rightarrow> parlor \<Rightarrow> bool" where
  step_machine: "i < nm s \<Longrightarrow> machine_simulation i s = Some (Ok s') \<Longrightarrow> parlor_step s s'"
| step_customer: "1 \<le> c \<Longrightarrow> c \<le> cust_cnt s \<Longrightarrow> customer_waiting c s = Some (Ok s') \<Longrightarrow> parlor_step s s'"
| step_main: "main_loop s = Some s' \<Longrightarrow> parlor_step s s'"

inductive_cases parlor_stepE: "parlor_step s s'"

abbreviation parlor_reach :: "parlor \<Rightarrow> parlor \<Rightarrow> bool" where
  "parlor_reach \<equiv> parlor_step\<^sup>*\<^sup>*"

section \<open>What a step of a machine changes\<close>

text \<open>The fields that count the customers inside, which only the customers change, and the menu.\<close>

definition room :: "parlor \<Rightarrow> (nat \<Rightarrow> cust_pc) \<times> int \<times> int \<times> nat \<times> string list" where
  "room s = (c_pc s, current_customers s, capacity_k s, cust_cnt s, topping_list s)"

text \<open>Stock only goes down, and never below zero.\<close>

definition stock_le :: "int list \<Rightarrow> int list \<Rightarrow> bool" where
  "stock_le = list_all2 (\<lambda>a b. b = a \<or> 0 \<le> b \<and> b < a)"

lemma stock_le_refl [simp]: "stock_le xs xs"
  by (simp add: stock_le_def list.rel_refl)

lemma stock_le_trans: "stock_le xs ys \<Longrightarrow> stock_le ys zs \<Longrightarrow> stock_le xs zs"
  unfolding stock_le_def
  by (rule list_all2_trans [where ?P1.0 = "\<lambda>a b. b = a \<or> 0 \<le> b \<and> b < a"
        and ?P2.0 = "\<lambda>a b. b = a \<or> 0 \<le> b \<and> b < a"]) auto

lemma stock_le_use: "ti < length xs \<Longrightarrow> xs ! ti > 0 \<Longrightarrow> stock_le xs (xs[ti := xs ! ti - 1])"
  by (auto simp: stock_le_def list_all2_conv_all_nth nth_list_update)

definition taken :: "parlor \<Rightarrow> nat \<Rightarrow> bool" where
  "taken s f \<longleftrightarrow> order_taken_status (order_list s f) = 1"

definition still_taken :: "parlor \<Rightarrow> parlor \<Rightarrow> bool" where
  "still_taken s s' \<longleftrightarrow> (\<forall>f. taken s f \<longrightarrow> taken s' f)"

text \<open>What the invariants of machines and stock depend on.\<close>

definition work :: "parlor \<Rightarrow> (nat \<Rightarrow> int) \<times> (nat \<Rightarrow> ordernode) \<times> int list" where
  "work s = (m_flag s, order_list s, topping_stock s)"

lemmas parts = room_def work_def

lemma sem_post_parts [simp]: "room (sem_post x s) = room s" "work (sem_post x s) = work s"
  by (simp_all add: parts sem_post_def)

lemma sem_wait_parts: "sem_wait x s = Some s' \<Longrightarrow> room s' = room s \<and> work s' = work s"
  by (auto simp: parts sem_wait_def split: if_splits)

lemma say_parts [simp]: "room (say e s) = room s" "work (say e s) = work s"
  by (simp_all add: parts say_def)

lemma set_mpc_parts [simp]: "room (set_mpc i x s) = room s" "work (set_mpc i x s) = work s"
  by (simp_all add: parts set_mpc_def)

lemma wake_next_parts [simp]: "room (wake_next i s) = room s" "work (wake_next i s) = work s"
  by (simp_all add: wake_next_def) (simp_all add: parts)

lemma start_preparing_parts [simp]: "room (start_preparing i s) = room s" "work (start_preparing i s) = work s"
  by (simp_all add: start_preparing_def Let_def)

lemma turn_off_parts [simp]: "room (turn_off i s) = room s" "work (turn_off i s) = work s"
  by (simp_all add: turn_off_def)

lemma work_fields: "work s' = work s \<Longrightarrow> m_flag s' = m_flag s \<and> order_list s' = order_list s \<and> topping_stock s' = topping_stock s"
  by (simp add: work_def)

text \<open>Machine \<open>i\<close> keeps its order, drops it, or takes one that was free.\<close>

definition machine_move :: "nat \<Rightarrow> parlor \<Rightarrow> parlor \<Rightarrow> bool" where
  "machine_move i s s' \<longleftrightarrow> room s' = room s \<and> stock_le (topping_stock s) (topping_stock s') \<and> still_taken s s' \<and>
     (m_flag s' = m_flag s \<or> m_flag s' = (m_flag s)(i := -1) \<or>
      (\<exists>f. \<not> taken s f \<and> taken s' f \<and> m_flag s' = (m_flag s)(i := int f)))"

lemma machine_move_idle: "room s' = room s \<Longrightarrow> work s' = work s \<Longrightarrow> machine_move i s s'"
  by (simp add: machine_move_def parts still_taken_def taken_def)

lemma machine_move_left: "room s1 = room s \<Longrightarrow> work s1 = work s \<Longrightarrow> machine_move i s1 s' = machine_move i s s'"
  by (simp add: machine_move_def parts still_taken_def taken_def)

lemma machine_move_right: "room s1 = room s' \<Longrightarrow> work s1 = work s' \<Longrightarrow> machine_move i s s1 = machine_move i s s'"
  by (simp add: machine_move_def parts still_taken_def taken_def)

lemma give_index_from_bound: "give_index_from i xs t = r \<Longrightarrow> r = -1 \<or> int i \<le> r \<and> r < int (i + length xs)"
  by (induction i xs t arbitrary: r rule: give_index_from.induct) (auto split: if_splits)

lemma stock_index_bound: "stock_index t s = Ok ti \<Longrightarrow> ti < length (topping_list s)"
  using give_index_from_bound [of 0 "topping_list s" t]
  by (auto simp: stock_index_def give_index_def Let_def split: if_splits)

lemma use_toppings_spec:
  "use_toppings ts s = Ok s' \<Longrightarrow> length (topping_list s) = length (topping_stock s) \<Longrightarrow>
     \<exists>st. s' = s\<lparr>topping_stock := st\<rparr> \<and> stock_le (topping_stock s) st"
proof (induction ts arbitrary: s)
  case Nil
  then show ?case by (auto intro: exI [of _ "topping_stock s"])
next
  case (Cons t ts)
  from Cons.prems(1) obtain ti where ti: "stock_index t s = Ok ti" by auto
  have b: "ti < length (topping_stock s)" using stock_index_bound [OF ti] Cons.prems(2) by simp
  show ?case
  proof (cases "topping_stock s ! ti > 0")
    case True
    let ?s1 = "s\<lparr>topping_stock := (topping_stock s)[ti := topping_stock s ! ti - 1]\<rparr>"
    have "use_toppings ts ?s1 = Ok s'" using Cons.prems(1) ti True by simp
    from Cons.IH [OF this] Cons.prems(2) obtain st where
      "s' = ?s1\<lparr>topping_stock := st\<rparr>" "stock_le (topping_stock ?s1) st" by auto
    then show ?thesis using stock_le_trans [OF stock_le_use [OF b True]] by auto
  next
    case False
    then show ?thesis using Cons ti by (auto split: if_splits)
  qed
qed

lemma find_order_move:
  "find_order m i cst s = Ok s' \<Longrightarrow> length (topping_list s) = length (topping_stock s) \<Longrightarrow> machine_move i s s'"
proof (induction m arbitrary: cst s)
  case 0
  then show ?case by (auto intro: machine_move_idle simp: parts)
next
  case (Suc m)
  let ?od = "order_list s cst" and ?c = "nat (o_cust_no (order_list s cst))"
  let ?arr = "cust_arrival (cust s ?c)"
  show ?case
  proof (cases "order_completion_status (cust s ?c) = 0 \<and> order_taken_status ?od = 0")
    case False
    then have "find_order (Suc m) i cst s = find_order m i (cst + 1) s"
      unfolding find_order.simps Let_def by (rule if_not_P)
    then show ?thesis using Suc.prems Suc.IH by simp
  next
    case free: True
    let ?fi = "give_index (map fst (flavours s)) (flavour ?od)"
    let ?ft = "snd (flavours s ! nat ?fi)"
    from Suc.prems(1) free obtain short where sh: "topping_shortage (order_toppings ?od) s = Ok short"
      and fi: "\<not> ?fi < 0" by (auto simp: Let_def split: if_splits)
    consider "short" "find_order m i (cst + 1) (reject_order cst s) = Ok s'"
      | "\<not> short" "\<not> fits i ?arr ?ft s" "find_order m i (cst + 1) s = Ok s'"
      | s1 where "\<not> short" "use_toppings (order_toppings ?od)
            (s\<lparr>order_list := (order_list s)(cst := ?od\<lparr>order_taken_status := 1\<rparr>)\<rparr>) = Ok s1"
          "s' = take_order i cst ?arr ?ft s1"
      using Suc.prems(1) free sh fi by (auto simp: Let_def split: if_splits)
    then show ?thesis
    proof cases
      case 1
      let ?r = "reject_order cst s"
      have r: "m_flag ?r = m_flag s" "room ?r = room s" "topping_stock ?r = topping_stock s" "topping_list ?r = topping_list s"
        by (simp_all add: reject_order_def Let_def sem_post_def room_def)
      have t: "taken ?r f \<longleftrightarrow> f = 0 \<or> taken s f" for f
        by (auto simp: reject_order_def Let_def sem_post_def taken_def)
      have "machine_move i ?r s'" using Suc.IH [OF 1(2)] Suc.prems(2) r by simp
      then show ?thesis using r t unfolding machine_move_def still_taken_def by auto
    next
      case 2
      then show ?thesis using Suc.IH Suc.prems(2) by simp
    next
      case 3
      from use_toppings_spec [OF 3(2)] Suc.prems(2) obtain st where
        s1: "s1 = s\<lparr>order_list := (order_list s)(cst := ?od\<lparr>order_taken_status := 1\<rparr>), topping_stock := st\<rparr>"
        "stock_le (topping_stock s) st" by auto
      have k: "room s' = room s" "topping_stock s' = st" "m_flag s' = (m_flag s)(i := int cst)"
        "order_list s' = (order_list s)(cst := ?od\<lparr>order_taken_status := 1\<rparr>)"
        by (simp_all add: 3(3) s1(1) take_order_def Let_def room_def)
      have "still_taken s s'" "taken s' cst" "\<not> taken s cst"
        using free by (auto simp: still_taken_def taken_def k)
      then show ?thesis using k s1(2) unfolding machine_move_def by blast
    qed
  qed
qed

lemma complete_order_move: "machine_move i s (complete_order i s)"
proof -
  have k: "room (complete_order i s) = room s" "topping_stock (complete_order i s) = topping_stock s"
    "m_flag (complete_order i s) = (m_flag s)(i := -1)"
    by (simp_all add: complete_order_def Let_def sem_post_def say_def set_mpc_def room_def)
  have "order_taken_status (order_list (complete_order i s) f) = order_taken_status (order_list s f)" for f
    by (simp add: complete_order_def Let_def sem_post_def say_def set_mpc_def)
  then show ?thesis using k by (simp add: machine_move_def still_taken_def taken_def)
qed

lemma machine_simulation_move:
  assumes "machine_simulation i s = Some (Ok s')" and "length (topping_list s) = length (topping_stock s)"
  shows "machine_move i s s'"
proof (cases "m_pc s i")
  case PowerOn
  with assms(1) obtain s1 where w: "sem_wait (Machines i) s = Some s1"
    and "room s' = room s1 \<and> work s' = work s1"
    by (auto simp: machine_simulation_def split: if_splits)
  then show ?thesis using sem_wait_parts [OF w] by (intro machine_move_idle) auto
next
  case MTop
  with assms(1) obtain s1 where w: "sem_wait (Machines i) s = Some s1"
    and "room s' = room s1 \<and> work s' = work s1"
    by (auto simp: machine_simulation_def split: if_splits)
  then show ?thesis using sem_wait_parts [OF w] by (intro machine_move_idle) auto
next
  case MLock
  with assms(1) obtain s1 where w: "sem_wait MachineLock s = Some s1" and "s' = set_mpc i MCrit s1"
    by (auto simp: machine_simulation_def)
  then show ?thesis using sem_wait_parts [OF w] by (intro machine_move_idle) auto
next
  case MCrit
  let ?s1 = "wake_next i s"
  from assms(1) MCrit obtain m cst s2 where f: "find_order m i cst ?s1 = Ok s2"
    and s': "room s' = room s2" "work s' = work s2"
    by (auto simp: machine_simulation_def Let_def split: if_splits)
  have "length (topping_list ?s1) = length (topping_stock ?s1)"
    using assms(2) by (simp add: wake_next_def sem_post_def)
  from find_order_move [OF f this] show ?thesis
    using machine_move_left [of ?s1 s] machine_move_right [OF s'] by simp
next
  case MComp
  with assms(1) obtain s1 where w: "sem_wait (OrderComp i) s = Some s1"
    and s': "s' = turn_off i s1 \<or> s' = complete_order i s1"
    by (auto simp: machine_simulation_def split: if_splits)
  have "machine_move i s1 s'"
    using s' complete_order_move machine_move_idle [of "turn_off i s1" s1] by auto
  then show ?thesis using sem_wait_parts [OF w] machine_move_left [of s1 s] by simp
next
  case MDone
  with assms(1) show ?thesis by (simp add: machine_simulation_def)
qed

section \<open>What the main thread and the customers change\<close>

lemma free_machine_parts:
  "free_machine_from is no s = (r, s') \<Longrightarrow> room s' = room s \<and> work s' = work s"
  by (induction "is" no s rule: free_machine_from.induct) (auto simp: parts Let_def split: if_splits)

lemma baton_parts [simp]:
  "room (s\<lparr>wake_up_index_cust := x\<rparr>) = room s" "work (s\<lparr>wake_up_index_cust := x\<rparr>) = work s"
  "room (s\<lparr>wake_up_index := x\<rparr>) = room s" "work (s\<lparr>wake_up_index := x\<rparr>) = work s"
  "room (s\<lparr>wake_up_order_comp := x\<rparr>) = room s" "work (s\<lparr>wake_up_order_comp := x\<rparr>) = work s"
  "room (s\<lparr>main_at := y\<rparr>) = room s" "work (s\<lparr>main_at := y\<rparr>) = work s"
  "room (s\<lparr>tmr := t\<rparr>) = room s" "work (s\<lparr>tmr := t\<rparr>) = work s"
  "room (s\<lparr>close_sig := t\<rparr>) = room s" "work (s\<lparr>close_sig := t\<rparr>) = work s"
  "room (s\<lparr>some_ing_exh := t\<rparr>) = room s" "work (s\<lparr>some_ing_exh := t\<rparr>) = work s"
  "room (s\<lparr>ingredient_over := t\<rparr>) = room s" "work (s\<lparr>ingredient_over := t\<rparr>) = work s"
  by (simp_all add: parts)

lemma chain_parts [simp]:
  "room (cust_chain m count temp s) = room s" "work (cust_chain m count temp s) = work s"
  "room (comp_chain m count temp s) = room s" "work (comp_chain m count temp s) = work s"
  by (induction m arbitrary: count temp s) (simp_all add: Let_def)

lemma machine_chain_parts [simp]:
  "room (machine_chain m count temp s) = room s \<and> work (machine_chain m count temp s) = work s"
proof (induction m arbitrary: count temp s)
  case (Suc m)
  obtain r s1 where f: "free_machine count s = (r, s1)" by (cases "free_machine count s")
  then have "room s1 = room s \<and> work s1 = work s" unfolding free_machine_def by (rule free_machine_parts)
  then show ?case using f Suc by simp
qed simp

lemma tick_parts [simp]:
  "room (wake_customers s) = room s" "work (wake_customers s) = work s"
  "room (wake_machines s) = room s" "work (wake_machines s) = work s"
  "room (wake_completed s) = room s" "work (wake_completed s) = work s"
  "room (power_on s) = room s" "work (power_on s) = work s"
  "room (stop_machines s) = room s" "work (stop_machines s) = work s"
proof -
  show "room (wake_customers s) = room s" "work (wake_customers s) = work s"
    "room (wake_completed s) = room s" "work (wake_completed s) = work s"
    by (simp_all add: wake_customers_def wake_completed_def Let_def)
  obtain r s1 where f: "free_machine 1 s = (r, s1)" by (cases "free_machine 1 s")
  then have "room s1 = room s \<and> work s1 = work s" unfolding free_machine_def by (rule free_machine_parts)
  then show "room (wake_machines s) = room s" "work (wake_machines s) = work s"
    using f by (simp_all add: wake_machines_def Let_def del: machine_chain.simps)
  show "room (power_on s) = room s" "room (stop_machines s) = room s"
    unfolding power_on_def stop_machines_def by (rule fold_keeps; simp)+
  show "work (power_on s) = work s" "work (stop_machines s) = work s"
    unfolding power_on_def stop_machines_def by (rule fold_keeps; simp)+
qed

lemma exhausted_parts:
  "ingredient_exhausted_checker s = (b, s') \<Longrightarrow> room s' = room s \<and> work s' = work s"
  by (auto simp: ingredient_exhausted_checker_def Let_def split: if_splits)

lemma open_at_parts: "open_at s = (b, s') \<Longrightarrow> room s' = room s \<and> work s' = work s"
  by (auto simp: open_at_def Let_def dest: exhausted_parts split: if_splits prod.splits)

lemma close_parts: "room (close_parlor s) = room s \<and> work (close_parlor s) = work s"
proof -
  obtain ex s2 where e: "ingredient_exhausted_checker (say (TimeIs (tmr s)) s) = (ex, s2)"
    by (cases "ingredient_exhausted_checker (say (TimeIs (tmr s)) s)")
  have s2: "room s2 = room s" "work s2 = work s" using exhausted_parts [OF e] by simp_all
  have f: "room (fold (\<lambda>i. sem_post (Machines i)) xs t) = room t" "work (fold (\<lambda>i. sem_post (Machines i)) xs t) = work t"
    for xs t by (rule fold_keeps; simp)+
  have g: "room (fold close_machine xs t) = room t" "work (fold close_machine xs t) = work t"
    "room (fold close_customer xs t) = room t" "work (fold close_customer xs t) = work t" for xs t
    by (rule fold_keeps; simp add: close_machine_def close_customer_def Let_def)+
  show ?thesis using e s2 by (simp add: close_parlor_def Let_def f g)
qed

lemma main_loop_parts: "main_loop s = Some s' \<Longrightarrow> room s' = room s \<and> work s' = work s"
proof (cases "main_at s")
  case Tick
  assume m: "main_loop s = Some s'"
  obtain go s1 where o: "open_at s = (go, s1)" by (cases "open_at s")
  show ?thesis
    using m Tick o open_at_parts [OF o] close_parts [of s1]
    by (auto simp: main_loop_def dest!: sem_wait_parts split: if_splits)
qed (auto simp: main_loop_def Let_def split: if_splits)

lemma wake_next_cust_parts [simp]: "room (wake_next_cust c s) = room s" "work (wake_next_cust c s) = work s"
  by (simp_all add: wake_next_cust_def)

definition inside :: "cust_pc \<Rightarrow> int" where
  "inside p = (if p = PRej \<or> p = PServed \<or> p = PClosed then 1 else 0)"

text \<open>
  A customer's step moves only itself, and keeps the count of those inside: one more when it comes
  in, which it does only below capacity, one less when it leaves.
\<close>

lemma enter_parlor_move:
  assumes "enter_parlor c s = Ok s'"
  shows "work s' = work s \<and> (room s' = ((c_pc s)(c := PGone), current_customers s, capacity_k s, cust_cnt s, topping_list s) \<or>
    room s' = ((c_pc s)(c := PRej), current_customers s + 1, capacity_k s, cust_cnt s, topping_list s) \<and>
      current_customers s \<noteq> capacity_k s)"
proof -
  have d: "room (set_cpc c p t) = ((c_pc t)(c := p), current_customers t, capacity_k t, cust_cnt t, topping_list t)"
    "work (set_cpc c p t) = work t" for p t by (simp_all add: set_cpc_def parts)
  have w: "c_pc (wake_next_cust c t) = c_pc t" "current_customers (wake_next_cust c t) = current_customers t"
    "capacity_k (wake_next_cust c t) = capacity_k t" "cust_cnt (wake_next_cust c t) = cust_cnt t"
    "topping_list (wake_next_cust c t) = topping_list t" for t
    by (simp_all add: wake_next_cust_def sem_post_def)
  show ?thesis
    using assms by (auto simp: enter_parlor_def Let_def d w set_done_def say_def list_orders_def split: if_splits)
      (auto simp: work_def)
qed

definition count_move :: "nat \<Rightarrow> parlor \<Rightarrow> parlor \<Rightarrow> bool" where
  "count_move c s s' \<longleftrightarrow> work s' = work s \<and>
     (\<exists>p. room s' = ((c_pc s)(c := p), current_customers s - inside (c_pc s c) + inside p,
        capacity_k s, cust_cnt s, topping_list s) \<and>
      (inside (c_pc s c) < inside p \<longrightarrow> current_customers s \<noteq> capacity_k s))"

lemma count_moveI:
  "work s' = work s \<Longrightarrow> room s' = ((c_pc s)(c := p), current_customers s - inside (c_pc s c) + inside p,
     capacity_k s, cust_cnt s, topping_list s) \<Longrightarrow>
   inside (c_pc s c) < inside p \<longrightarrow> current_customers s \<noteq> capacity_k s \<Longrightarrow> count_move c s s'"
  unfolding count_move_def by blast

lemma customer_move:
  assumes "customer_waiting c s = Some (Ok s')"
  shows "count_move c s s'"
proof -
  note k = assms [unfolded customer_waiting_def]
  show ?thesis
  proof (cases "c_pc s c")
    case PEnter
    with k obtain s1 where w: "sem_wait (Customers c) s = Some s1"
      and e: "s' = set_cpc c PGone s1 \<or> enter_parlor c s1 = Ok s'" by (auto split: if_splits)
    from sem_wait_parts [OF w] have p: "room s1 = room s" "work s1 = work s" by auto
    have "work (set_cpc c PGone s1) = work s1" "room (set_cpc c PGone s1) =
        ((c_pc s1)(c := PGone), current_customers s1, capacity_k s1, cust_cnt s1, topping_list s1)"
      by (simp_all add: set_cpc_def parts)
    with e enter_parlor_move [of c s1 s'] p have "work s' = work s \<and>
      (room s' = ((c_pc s)(c := PGone), current_customers s, capacity_k s, cust_cnt s, topping_list s) \<or>
       room s' = ((c_pc s)(c := PRej), current_customers s + 1, capacity_k s, cust_cnt s, topping_list s) \<and>
        current_customers s \<noteq> capacity_k s)" unfolding room_def by auto
    then show ?thesis using PEnter
      by (elim conjE disjE) (rule count_moveI [of s' s c PGone], simp_all add: inside_def,
        rule count_moveI [of s' s c PRej], simp_all add: inside_def)
  next
    case PRej
    with k obtain s1 where w: "sem_wait (RejCustomers c) s = Some s1"
      and e: "s' = set_cpc c PClosed (say (if some_ing_exh s1 = 1 then ClosedSuddenly c else NoMachines c) s1) \<or>
        s' = set_cpc c PGone ((say (LeftUnfulfilled (cust_no (cust s1 c)) (tmr s1)) (set_done c s1))
                 \<lparr>current_customers := current_customers s1 - 1\<rparr>) \<or> s' = set_cpc c PServed s1"
      by (auto split: if_splits)
    from sem_wait_parts [OF w] have p: "room s1 = room s" "work s1 = work s" by auto
    from e show ?thesis
    proof (elim disjE)
      assume s': "s' = set_cpc c PClosed (say (if some_ing_exh s1 = 1 then ClosedSuddenly c else NoMachines c) s1)"
      show ?thesis by (rule count_moveI [of s' s c PClosed])
          (use p PRej in \<open>simp_all add: s' set_cpc_def say_def parts inside_def\<close>)
    next
      assume s': "s' = set_cpc c PGone ((say (LeftUnfulfilled (cust_no (cust s1 c)) (tmr s1)) (set_done c s1))
                 \<lparr>current_customers := current_customers s1 - 1\<rparr>)"
      show ?thesis by (rule count_moveI [of s' s c PGone])
          (use p PRej in \<open>simp_all add: s' set_cpc_def say_def set_done_def parts inside_def\<close>)
    next
      assume s': "s' = set_cpc c PServed s1"
      show ?thesis by (rule count_moveI [of s' s c PServed])
          (use p PRej in \<open>simp_all add: s' set_cpc_def parts inside_def\<close>)
    qed
  next
    case PServed
    with k obtain s1 where w: "sem_wait (Customers c) s = Some s1"
      and s': "s' = set_cpc c PGone ((say (Collected c (tmr s1)) (set_done c s1))
            \<lparr>current_customers := current_customers s1 - 1\<rparr>)" by auto
    from sem_wait_parts [OF w] show ?thesis
      by (intro count_moveI [of s' s c PGone])
        (use PServed in \<open>simp_all add: s' set_cpc_def say_def set_done_def parts inside_def\<close>)
  qed (use k in simp_all)
qed

section \<open>Invariants of the parlor\<close>

definition occupancy :: "parlor \<Rightarrow> bool" where
  "occupancy s \<longleftrightarrow> current_customers s = (\<Sum>c\<in>{1..cust_cnt s}. inside (c_pc s c)) \<and> current_customers s \<le> capacity_k s"

definition orders_exclusive :: "parlor \<Rightarrow> bool" where
  "orders_exclusive s \<longleftrightarrow>
     (\<forall>i. m_flag s i = -1 \<or> 0 \<le> m_flag s i \<and> taken s (nat (m_flag s i))) \<and>
     (\<forall>i j. m_flag s i \<noteq> -1 \<longrightarrow> m_flag s i = m_flag s j \<longrightarrow> i = j)"

definition parlor_inv :: "int \<Rightarrow> int list \<Rightarrow> parlor \<Rightarrow> bool" where
  "parlor_inv k st0 s \<longleftrightarrow> capacity_k s = k \<and> length (topping_list s) = length st0 \<and> stock_le st0 (topping_stock s) \<and>
     occupancy s \<and> orders_exclusive s"

lemma stock_le_length: "stock_le xs ys \<Longrightarrow> length ys = length xs"
  unfolding stock_le_def by (simp add: list_all2_lengthD)

lemma exclusive_move:
  assumes "machine_move i s s'" and ex: "orders_exclusive s"
  shows "orders_exclusive s'"
proof -
  from assms(1) have st: "\<And>f. taken s f \<Longrightarrow> taken s' f" by (simp add: machine_move_def still_taken_def)
  from ex have h: "m_flag s j = -1 \<or> 0 \<le> m_flag s j \<and> taken s' (nat (m_flag s j))" for j
    unfolding orders_exclusive_def using st by blast
  from ex have u: "m_flag s j \<noteq> -1 \<Longrightarrow> m_flag s j = m_flag s k \<Longrightarrow> j = k" for j k
    unfolding orders_exclusive_def by blast
  from assms(1) consider "m_flag s' = m_flag s" | "m_flag s' = (m_flag s)(i := -1)"
    | f where "\<not> taken s f" "taken s' f" "m_flag s' = (m_flag s)(i := int f)"
    unfolding machine_move_def by blast
  then show ?thesis
  proof cases
    case 1
    show ?thesis unfolding orders_exclusive_def 1 using h u by blast
  next
    case 2
    have "m_flag s' j = -1 \<or> 0 \<le> m_flag s' j \<and> taken s' (nat (m_flag s' j))" for j using h [of j] 2 by simp
    moreover have "j = k" if "m_flag s' j \<noteq> -1" "m_flag s' j = m_flag s' k" for j k
      using that u [of j k] by (auto simp: 2 split: if_splits)
    ultimately show ?thesis unfolding orders_exclusive_def by blast
  next
    case 3
    have ne: "m_flag s j \<noteq> int f" for j
    proof
      assume j: "m_flag s j = int f"
      then have "m_flag s j \<noteq> -1" by simp
      with ex have "taken s (nat (m_flag s j))" unfolding orders_exclusive_def by blast
      with j 3(1) show False by simp
    qed
    have "m_flag s' j = -1 \<or> 0 \<le> m_flag s' j \<and> taken s' (nat (m_flag s' j))" for j using h [of j] 3 by simp
    moreover have "j = k" if "m_flag s' j \<noteq> -1" "m_flag s' j = m_flag s' k" for j k
      using that u [of j k] ne [of j] ne [of k] by (auto simp: 3(3) split: if_splits)
    ultimately show ?thesis unfolding orders_exclusive_def by blast
  qed
qed

lemma occupancy_room: "room s' = room s \<Longrightarrow> occupancy s' = occupancy s"
  by (simp add: room_def occupancy_def)

lemma exclusive_work: "work s' = work s \<Longrightarrow> orders_exclusive s' = orders_exclusive s"
  by (simp add: work_def orders_exclusive_def taken_def)

lemma occupancy_customer:
  assumes m: "count_move c s s'" and c: "1 \<le> c" "c \<le> cust_cnt s" and o: "occupancy s"
  shows "occupancy s'"
proof -
  from m obtain p where p: "c_pc s' = (c_pc s)(c := p)"
      "current_customers s' = current_customers s - inside (c_pc s c) + inside p"
      "capacity_k s' = capacity_k s" "cust_cnt s' = cust_cnt s"
      "inside (c_pc s c) < inside p \<longrightarrow> current_customers s \<noteq> capacity_k s"
    unfolding count_move_def room_def by auto
  have "current_customers s' = (\<Sum>d\<in>{1..cust_cnt s'}. inside (c_pc s' d))"
    using o c sum_move [of "{1..cust_cnt s}" c inside "c_pc s" p] by (simp add: p occupancy_def)
  moreover have "inside (c_pc s c) = 0 \<or> inside (c_pc s c) = 1" "inside p = 0 \<or> inside p = 1"
    by (auto simp: inside_def)
  then have "current_customers s' \<le> capacity_k s'" using o p(5) by (auto simp: p(2,3) occupancy_def)
  ultimately show ?thesis by (simp add: occupancy_def)
qed

interpretation parlor: kept parlor_step "parlor_inv k st0" for k st0
proof
  fix s s' assume step: "parlor_step s s'" and i: "parlor_inv k st0 s"
  then have len: "length (topping_list s) = length (topping_stock s)"
    using stock_le_length by (auto simp: parlor_inv_def)
  from step show "parlor_inv k st0 s'"
  proof (cases rule: parlor_step.cases)
    case (step_machine i)
    from machine_simulation_move [OF step_machine(2) len] have m: "machine_move i s s'" .
    then have "room s' = room s" "stock_le (topping_stock s) (topping_stock s')" by (simp_all add: machine_move_def)
    then show ?thesis
      using i occupancy_room [of s' s] exclusive_move [OF m] stock_le_trans [of st0 "topping_stock s" "topping_stock s'"]
      by (simp add: parlor_inv_def room_def)
  next
    case (step_customer c)
    from customer_move [OF step_customer(3)] have m: "count_move c s s'" .
    then have "work s' = work s" "topping_list s' = topping_list s" "capacity_k s' = capacity_k s" by (auto simp: count_move_def room_def)
    then show ?thesis
      using i occupancy_customer [OF m step_customer(1,2)] exclusive_work [of s' s] by (simp add: parlor_inv_def work_def)
  next
    case step_main
    from main_loop_parts [OF step_main] have m: "room s' = room s" "work s' = work s" by auto
    then show ?thesis
      using i occupancy_room [OF m(1)] exclusive_work [OF m(2)] by (simp add: parlor_inv_def work_def room_def)
  qed
qed

lemma populate_order_fresh: "populate_order l j c s = Ok s' \<Longrightarrow> \<exists>ol. s' = s\<lparr>order_list := ol\<rparr>"
  unfolding populate_order_def Let_def by (auto split: if_splits)

lemma populate_orders_fresh:
  "populate_orders ls c s = Ok s' \<Longrightarrow> \<exists>ol n. s' = s\<lparr>order_list := ol, order_cnt := n\<rparr>"
proof (induction ls c s rule: populate_orders.induct)
  case (1 c s)
  then have "s' = s\<lparr>order_list := order_list s, order_cnt := order_cnt s\<rparr>" by simp
  then show ?case by blast
next
  case (2 l ls c s)
  from "2.prems" obtain s1 where p: "populate_order l (nat (order_cnt s)) c s = Ok s1"
    and r: "populate_orders ls c (s1\<lparr>order_cnt := order_cnt s1 + 1\<rparr>) = Ok s'" by auto
  from populate_order_fresh [OF p] "2.IH" [OF p r] show ?case by force
qed

lemma read_customers_fresh:
  "read_customers cs s = Ok s' \<Longrightarrow> m_flag s' = m_flag s \<and> topping_stock s' = topping_stock s \<and>
     topping_list s' = topping_list s \<and> c_pc s' = c_pc s \<and> current_customers s' = current_customers s \<and> capacity_k s' = capacity_k s"
proof (induction cs s rule: read_customers.induct)
  case (2 no arrival lines rest s)
  let ?s1 = "s\<lparr>cust := (cust s)(cust_cnt s + 1 :=
    \<lparr>cust_no = no, total_orders = int (length lines), cust_arrival = arrival, order_completion_status = 0\<rparr>)\<rparr>"
  from "2.prems" obtain s2 where s2: "populate_orders lines no ?s1 = Ok s2"
    "read_customers rest (s2\<lparr>cust_cnt := cust_cnt s2 + 1\<rparr>) = Ok s'" by (auto simp: Let_def)
  then show ?case using populate_orders_fresh [OF s2(1)] "2.IH" [OF refl s2] by auto
qed simp

lemma parlor_main_inv:
  assumes "parlor_main k machines fl tops customers = Ok s0" and "0 \<le> k"
  shows "parlor_inv k (map snd tops) s0"
proof -
  let ?i = "parlor_init k machines fl tops"
  from assms(1) obtain s where r: "read_customers customers ?i = Ok s"
    unfolding parlor_main_def by (cases "read_customers customers ?i") auto
  obtain ex s1 where e: "ingredient_exhausted_checker s = (ex, s1)" by (cases "ingredient_exhausted_checker s")
  have s0: "s0 = say (IngredientIs (if ex then 1 else 0)) s1" using assms(1) r e by (simp add: parlor_main_def)
  from read_customers_fresh [OF r] have "m_flag s = (\<lambda>_. -1)" "topping_stock s = map snd tops"
    "topping_list s = map fst tops" "c_pc s = (\<lambda>_. PEnter)" "current_customers s = 0" "capacity_k s = k"
    by (simp_all add: parlor_init_def)
  moreover have "room s0 = room s" "work s0 = work s" using exhausted_parts [OF e] s0 by simp_all
  ultimately show ?thesis
    using assms(2) by (simp add: parlor_inv_def room_def work_def occupancy_def inside_def orders_exclusive_def)
qed




text \<open>The first example input of the source: two machines, two customers.\<close>

definition example_run :: "parlor res" where
  "example_run = parlor_main 3 [(0, 7), (4, 10)] [(''vanilla'', 3), (''chocolate'', 4)]
     [(''caramel'', 1), (''brownie'', 4), (''strawberry'', 4)]
     [(1, 1, [''vanilla caramel'', ''chocolate brownie strawberry'']), (2, 2, [''vanilla strawberry caramel''])]"

lemma example_run_ok: "is_ok example_run"
  by code_simp




section \<open>Reading an order, and rejecting one\<close>

lemma tokens_word:
  "\<forall>x\<in>set w. x \<notin> set del \<Longrightarrow> tokens_from acc (w @ xs) = tokens_from (rev w @ acc) xs"
  by (induction w arbitrary: acc) auto

definition line_of :: "string list \<Rightarrow> string" where
  "line_of ws = concat (map (\<lambda>w. w @ '' '') ws)"

lemma space_del: "CHR '' '' \<in> set del" by (simp add: del_def)

lemma tokens_line:
  "\<forall>w\<in>set ws. w \<noteq> [] \<and> (\<forall>x\<in>set w. x \<notin> set del) \<Longrightarrow> tokens (line_of ws) = ws"
proof (induction ws)
  case (Cons w ws)
  then have w: "w \<noteq> []" "\<forall>x\<in>set w. x \<notin> set del" by auto
  have "tokens (line_of (w # ws)) = tokens_from (rev w) ('' '' @ line_of ws)"
    using tokens_word [OF w(2), of "[]"] by (simp add: tokens_def line_of_def)
  also have "\<dots> = w # tokens (line_of ws)" using w(1) space_del by (simp add: tokens_def)
  finally show ?case using Cons by simp
qed (simp add: tokens_def line_of_def)

text \<open>An order line read back: after \<open>populate_order\<close> of a line made of a flavour and
  toppings, the stored order has exactly that flavour and those toppings, is neither taken nor
  complete, and belongs to the customer.\<close>

theorem populate_order_reads_back:
  assumes words: "\<forall>w\<in>set (fl # tops). w \<noteq> [] \<and> length w < 20 \<and> (\<forall>x\<in>set w. x \<notin> set del)"
    and fit: "length (line_of (fl # tops)) < 100"
  shows "\<exists>s'. populate_order (line_of (fl # tops)) j c s = Ok s' \<and> flavour (order_list s' j) = fl \<and>
    order_toppings (order_list s' j) = tops \<and> order_taken_status (order_list s' j) = 0 \<and>
    orderstatus (order_list s' j) = 0 \<and> o_cust_no (order_list s' j) = c"
proof -
  have t: "tokens (line_of (fl # tops)) = fl # tops" using words by (intro tokens_line) auto
  have "2 * length ws \<le> length (line_of ws)" if "\<forall>w\<in>set ws. w \<noteq> []" for ws
    using that
  proof (induction ws)
    case (Cons w ws)
    then have "0 < length w" "2 * length ws \<le> length (line_of ws)" by auto
    moreover have "length (line_of (w # ws)) = length w + 1 + length (line_of ws)" by (simp add: line_of_def)
    moreover have "length (w # ws) = length ws + 1" by simp
    ultimately show ?case by presburger
  qed simp
  from this [of "fl # tops"] words fit have n: "length tops \<le> 50" by simp
  show ?thesis
    unfolding populate_order_def Let_def t using words fit n by (auto simp: not_le order_toppings_def)
qed

theorem populate_order_reads_back_witness:
  "\<exists>s'. populate_order (line_of [''vanilla'', ''caramel'']) 0 1 (parlor_init 3 [] [] []) = Ok s' \<and>
     order_toppings (order_list s' 0) = [''caramel'']"
proof -
  have "\<forall>w\<in>set [''vanilla'', ''caramel'']. w \<noteq> [] \<and> length w < 20 \<and> (\<forall>x\<in>set w. x \<notin> set del)"
    "length (line_of [''vanilla'', ''caramel'']) < 100" by (code_simp, code_simp)
  from populate_order_reads_back [OF this] show ?thesis by blast
qed



end
