(* ===== verification/Spec2Isabelle.thy ===== *)
theory Spec2Isabelle
  imports Cow Fsdisk Mkimage Start Grep Shrun Umalloc Utils Cafe Parlor
begin

text \<open>
  Verification of a teaching operating system, xv6 for RISC-V, extended with copy-on-write fork, a
  priority-based scheduler and new system calls (src/initial-xv6), and of two pthread simulations,
  a cafe and an ice cream parlor (src/concurrency).

  \<^bold>\<open>The program.\<close> The kernel runs on several harts. Spinlocks protect shared data and turn
  interrupts off on the hart that holds one. Physical pages come from a free list with a
  reference count per page; page tables are trees of such pages; fork shares all pages of the
  parent marked copy-on-write, and a write fault gives the writer a page of its own. Processes are
  slots of a table; a process waits by sleeping on a channel and is made runnable by a wakeup;
  each hart's scheduler picks a runnable process, in this version the one of least dynamic
  priority. Disk blocks are read and written through a cache of buffers; updates of several
  blocks go through a write-ahead log, so that a crash leaves all of them done or none. Above it,
  the file system allocates blocks and inodes, maps the bytes of a file to blocks, keeps directories as files and
  resolves paths; open files refer to inodes, pipes or devices. The console and pipes are bounded byte queues between interrupt handlers and
  processes. System calls enter through the trap handler with their arguments in the trapframe.

  \<^bold>\<open>Theories.\<close> In the order of dependency:

  \<^item> Prelude: machine words, the result type of kernel functions (\<open>Ok\<close>, or \<open>Err\<close> with a panic, an
    access C leaves undefined, an endless spin, or a sleep that is not ended), C integer
    arithmetic, byte memory with 64-bit accesses, loops.
  \<^item> Riscv: page and page-table-entry macros of kernel/riscv.h, kernel/memlayout.h, kernel/param.h.
  \<^item> Kstring: kernel/string.c, with closed forms of the byte loops.
  \<^item> Spinlock: kernel/spinlock.c; the hart, interrupt nesting and locks. Its state is the base
    record that every later component extends; all functions are polymorphic in the extension.
  \<^item> Kalloc: kernel/kalloc.c; the free list in memory, reference counts, the allocator's invariant
    and its interface, the locale \<open>page_pool\<close>.
  \<^item> Vm: kernel/vm.c and the copy-on-write part of kernel/trap.c. Pagetable: page tables as trees,
    the walk that allocates. Cow: uvmcopy and the write fault, up to the theorem that a forked
    child sees a copy of its parent's memory. Sample: a concrete machine for witnesses.
  \<^item> Kprintf: kernel/printf.c and the synchronous output path; what a format prints.
  \<^item> Proc: kernel/proc.c (the process table, sleep and wakeup, both schedulers, wait, accounting).
    Sched: the scheduler chooses the least process, through the locale \<open>pri_choice\<close>. Procspec: what
    the operations do to the process table.
  \<^item> Ring: the byte queue shared by three drivers, as the locale \<open>ring_buffer\<close>, interpreted for the
    UART output (32 bytes, 64-bit counters), the console input (128 bytes, 32-bit counters) and
    pipes (512 bytes, 32-bit counters).
  \<^item> Console: kernel/uart.c and kernel/console.c; the interrupt handler as a line editor, reads by
    line, ordered output. Pipe: kernel/pipe.c.
  \<^item> Sysproc: argument fetching of kernel/syscall.c, kernel/sysproc.c, the clock interrupt.
  \<^item> Sleeplock: kernel/sleeplock.c, and the situation of a process that runs alone. Virtio:
    kernel/virtio_disk.c. Disk: the contract \<open>serves\<close> of the device together with the interrupt
    handler, what a request does, and a device that keeps the contract. Bio: kernel/bio.c and its list of
    buffers. Cache: the cache as a view of the blocks of the disk. Bytes: little-endian fields in
    blocks. Log: kernel/log.c. Blockcopy, Crash: commit and recovery as sequences of block writes,
    crash safety. Fssample: a concrete machine with a disk for witnesses.
  \<^item> Fs: kernel/fs.c. File: kernel/file.c and pipealloc. Exec: kernel/exec.c. Sysfile: kernel/sysfile.c. Fork:
    userinit, fork and exit of kernel/proc.c. Trap: kernel/trap.c, kernel/plic.c and the dispatch of system calls. Boot: kernel/main.c and
    the kernel page table. Start: kernel/start.c.
  \<^item> Txn: what reading and changing a block inside a transaction does, on top of Cache and Log. Balloc: the block
    allocator against the set of free blocks. Content: the bytes of a file. Dir: directories and paths. Write: writing files. Fsdisk: a small
    file system for witnesses.
  \<^item> Grep: user/grep.c, the matcher and its meaning. Ulib: user/ulib.c and user/printf.c.
  \<^item> Fcntl: kernel/fcntl.h. Sh: the tokens and the parser of the shell, user/sh.c. Shparse: what the parser makes of a line. Shrun: how
    the shell runs commands. Umalloc: user/umalloc.c, the list of free blocks. Utils: cat, wc, echo, kill,
    ln, mkdir, rm, ls, setpriority and getreadcount.
  \<^item> Mkfs: mkfs/mkfs.c, the program that builds the disk image. Mkimage: what the image holds.
  \<^item> Threads: inductive invariants of step relations, the locale \<open>kept\<close>. Cafe: concurrency/1.c.
    Parlor: concurrency/2.c.

  \<^bold>\<open>How the code is modelled.\<close> Global variables and structures are fields of one state record,
  extended component by component (\<open>hstate\<close>, \<open>kstate\<close>, \<open>ostate\<close>, \<open>pstate\<close>, \<open>cstate\<close>,
  \<open>pipestate\<close>, \<open>slstate\<close>, \<open>dstate\<close>, \<open>lstate\<close>, \<open>istate\<close>, \<open>fstate\<close>, \<open>tstate\<close>, \<open>bstate\<close>). Memory, page tables and trapframes are bytes at addresses; processes, buffers of
  the console and pipes are records. A function of the source is a definition of the same name that
  takes and returns the state. The context switch is a parameter \<open>sw\<close>: what happens on the hart
  from the switch until control comes back. Loops that sleep take a bound on the number of times
  they may be woken in vain and return \<open>Asleep\<close> beyond it; loops that end by themselves are
  structural or have a measure, or take as fuel the number of elements they consume (the bytes
  queued, the pages of a range), which is enough because each round consumes one. C \<open>int\<close> is \<open>int\<close>
  with the wrap-around written out, \<open>uint\<close> and \<open>uint64\<close> are words. A kernel buffer filled by
  \<open>copyin\<close> is the list of its bytes. Of another hart the model sees the locks it holds: an acquire
  of such a lock does not return.

  The two simulations are step relations: a thread is a program counter and its locals, and moves
  from one semaphore operation on which it can block to the next; the steps of all threads
  interleave freely. Their input is given as parsed data.

  \<^bold>\<open>What is shown.\<close>

  \<^item> Memory: a page is handed out to one user at a time and is freed exactly when its last reference
    goes (Kalloc); after fork and a write by the child, parent and child read what separate copies
    would hold (Cow).
  \<^item> Processes: the scheduler runs the least process in the order of dynamic priority, number of
    runs and age; sleep loses no wakeup; wakeup, kill and the clock tick change exactly the
    processes they should; sleep(n) returns after n ticks; setpriority on valid and invalid
    arguments; the range of the recent behaviour index; the checks of sched.
  \<^item> Input and output: numbers are printed in decimal, formats as their rendering; the console
    handler refines a line editor; reads follow the line discipline; output and pipes are queues.
  \<^item> Disk: a request moves one block, the completion loop ends, the list of buffers is well formed, a
    reader of the cache gets the current content of a block, and a crash at any sector write of a commit is
    repaired by recovery: the transaction happened completely or not at all. These theorems are
    about one process in the file system at a time; that the device serves a request while the
    process sleeps is the hypothesis \<open>serves\<close>.
  \<^item> Files: the allocator returns the first free block, zeroed, and changes no other; readi returns
    the bytes of the file in the range asked for, after writei those that were written; dirlookup finds the first entry with the name and a
    reference to its inode; splitting a path with skipelem gives its components. The image that mkfs builds holds exactly the
    files it was given, under a root directory with their names, and a map of exactly the blocks in use.
  \<^item> User programs: the matcher of grep decides the language of its pattern and grep prints exactly the
    complete lines that match; strcmp is the dictionary order; atoi reads what printf prints. The parser
    of the shell ends on every line and reads back every command; the shell starts the programs a command asks for, with the descriptors
    it asks for. malloc returns a block of the free space or of new core that overlaps nothing else, free gives exactly the block back, and both keep
    the list of free blocks sorted, circular and without overlaps. cat copies its files, wc counts newlines, words and bytes,
    however the kernel splits their reads.
  \<^item> Simulations: in every interleaving each cafe customer leaves once, no order is served twice, the
    parlor is never over capacity and its stock never negative.
  \<^item> Faults of the code, as theorems about the model: the dynamic priority is not capped, copyout
    cannot reach the first page of a process, the cafe forgets the second of two baristas, the
    parlor marks the wrong order as rejected, the command setpriority always asks for priority 0.

  \<^bold>\<open>Not modelled.\<close> The assembly files are below the level of C. A trap that returns to user mode ends in the state handed to the trampoline; user
  execution is not part of the model. The shell and
  the allocator are models of their own: that the kernel's calls behave as the descriptor table of Shrun and the \<open>sbrk\<close> of Umalloc is
  stated there and not derived from the kernel. init and the tests of the kernel are not modelled. The memory model is sequentially
  consistent; fences are not represented.
\<close>

end
